(* ===== verification/Prelude.thy ===== *)
theory Prelude
  imports Main "HOL-Library.Word"
begin

text \<open>
  Shared vocabulary of the AWS-LC development: fixed-width integers as words, the
  result type of functions that read from an input they also advance, the
  wrap-around of \<open>size_t\<close> arithmetic, and the numeric reading of big-endian byte
  strings that the byte-level components are specified against.
\<close>

unbundle bit_operations_syntax

section \<open>Machine types\<close>

text \<open>
  C's fixed-width unsigned integers are words of the same width. \<open>crypto_word_t\<close> is
  the 64-bit word of an LP64 target, \<open>size_t\<close> is 64 bits wide. A \<open>size_t\<close> that
  counts elements of a list is a \<open>nat\<close>; sums and products of such counts are
  reduced modulo \<open>2 ^ 64\<close> where the code computes them (\<open>size_add\<close>,
  \<open>size_mul\<close>).
\<close>

type_synonym u8 = "8 word"
type_synonym u16 = "16 word"
type_synonym u32 = "32 word"
type_synonym u64 = "64 word"
type_synonym crypto_word_t = "64 word"

abbreviation SIZE_MAX :: nat where
  "SIZE_MAX \<equiv> 18446744073709551615"

definition size_add :: "nat \<Rightarrow> nat \<Rightarrow> nat" where
  "size_add a b = (a + b) mod 18446744073709551616"

definition size_mul :: "nat \<Rightarrow> nat \<Rightarrow> nat" where
  "size_mul a b = (a * b) mod 18446744073709551616"

named_theorems size_arith "wrap-around and overflow checks of size_t arithmetic"

lemma size_add_exact [size_arith]: "a + b \<le> SIZE_MAX \<Longrightarrow> size_add a b = a + b"
  by (simp add: size_add_def)

lemma size_add_le_max [size_arith]: "size_add a b \<le> SIZE_MAX"
  by (simp add: size_add_def mod_less_divisor le_simps)

text \<open>The idiom \<open>if (a + b < a)\<close> detects exactly the sums that do not fit.\<close>

lemma size_add_overflow_iff [size_arith]:
  assumes "a \<le> SIZE_MAX" "b \<le> SIZE_MAX"
  shows "size_add a b < a \<longleftrightarrow> SIZE_MAX < a + b"
  using assms unfolding size_add_def by (auto simp: mod_if)

lemma size_mul_le_max [size_arith]: "size_mul a b \<le> SIZE_MAX"
  by (simp add: size_mul_def mod_less_divisor le_simps)

lemma size_mul_exact [size_arith]: "a * b \<le> SIZE_MAX \<Longrightarrow> size_mul a b = a * b"
  by (simp add: size_mul_def)

section \<open>Operations that advance their input\<close>

text \<open>
  A C function that returns 1 with its outputs set, or 0, and that advances an object
  passed by pointer in either case, is a function from the object to an optional
  output and the object afterwards. \<open>pbind\<close> is the code's
  \<^verbatim>\<open>if (!f(x, &v)) { return 0; } ...\<close>: on failure the object keeps what the failed call
  left in it.
\<close>

type_synonym ('s, 'a) op = "'s \<Rightarrow> 'a option \<times> 's"

definition pret :: "'a \<Rightarrow> ('s, 'a) op" where
  "pret v s = (Some v, s)"

definition pfail :: "('s, 'a) op" where
  "pfail s = (None, s)"

definition pbind :: "('s, 'a) op \<Rightarrow> ('a \<Rightarrow> ('s, 'b) op) \<Rightarrow> ('s, 'b) op" where
  "pbind p f s = (case p s of (None, s') \<Rightarrow> (None, s') | (Some v, s') \<Rightarrow> f v s')"

definition pguard :: "bool \<Rightarrow> ('s, unit) op" where
  "pguard b s = (if b then (Some (), s) else (None, s))"

lemma pbind_Some: "p s = (Some v, s') \<Longrightarrow> pbind p f s = f v s'"
  by (simp add: pbind_def)

lemma pbind_None: "p s = (None, s') \<Longrightarrow> pbind p f s = (None, s')"
  by (simp add: pbind_def)

lemma pbind_eq_Some:
  "pbind p f s = (Some w, t) \<longleftrightarrow> (\<exists>v s'. p s = (Some v, s') \<and> f v s' = (Some w, t))"
  by (auto simp: pbind_def split: prod.splits option.splits)

lemma pbind_assoc: "pbind (pbind p f) g = pbind p (\<lambda>v. pbind (f v) g)"
  by (rule ext) (auto simp: pbind_def split: prod.splits option.splits)

lemma pbind_pret_left: "pbind (pret v) f = f v"
  by (rule ext) (simp add: pbind_def pret_def)

lemma pret_eq [simp]: "pret v s = (w, t) \<longleftrightarrow> w = Some v \<and> t = s"
  by (auto simp: pret_def)

lemma pguard_eq_Some [simp]: "pguard b s = (Some u, t) \<longleftrightarrow> b \<and> t = s"
  by (auto simp: pguard_def)

lemma pfail_eq [simp]: "pfail s = (w, t) \<longleftrightarrow> w = None \<and> t = s"
  by (auto simp: pfail_def)

lemmas op_simps = pbind_def pret_def pfail_def pguard_def

section \<open>Big-endian byte strings as numbers\<close>

definition be_val :: "u8 list \<Rightarrow> nat" where
  "be_val bs = foldl (\<lambda>v b. v * 256 + unat b) 0 bs"

fun be_bytes :: "nat \<Rightarrow> nat \<Rightarrow> u8 list" where
  "be_bytes 0 v = []"
| "be_bytes (Suc n) v = be_bytes n (v div 256) @ [of_nat v]"

lemma be_val_Nil [simp]: "be_val [] = 0"
  by (simp add: be_val_def)

lemma be_val_snoc [simp]: "be_val (bs @ [b]) = be_val bs * 256 + unat b"
  by (simp add: be_val_def)

lemma be_val_append: "be_val (xs @ ys) = be_val xs * 256 ^ length ys + be_val ys"
proof (induction ys rule: rev_induct)
  case Nil
  show ?case by simp
next
  case (snoc y ys)
  have "be_val (xs @ ys @ [y]) = be_val (xs @ ys) * 256 + unat y"
    using be_val_snoc [of "xs @ ys" y] by simp
  then show ?case by (simp add: snoc.IH algebra_simps)
qed

lemma be_val_single [simp]: "be_val [b] = unat b"
  using be_val_snoc [of "[]" b] by simp

lemma be_val_Cons: "be_val (b # bs) = unat b * 256 ^ length bs + be_val bs"
  using be_val_append [of "[b]" bs] by simp

lemma unat_byte_less [simp]: "unat (b :: u8) < 256"
  using unsigned_less [of b] by simp

lemma unat_u16_less: "unat (x :: u16) < 65536"
  using unsigned_less [of x] by simp

lemma unat_u32_less: "unat (x :: u32) < 4294967296"
  using unsigned_less [of x] by simp

lemma unat_u64_less: "unat (x :: u64) < 18446744073709551616"
  using unsigned_less [of x] by simp

lemma unat_byte_le [simp]: "unat (b :: u8) \<le> 255"
  using unat_byte_less [of b] by linarith

lemma be_val_less: "be_val bs < 256 ^ length bs"
proof (induction bs rule: rev_induct)
  case Nil
  show ?case by simp
next
  case (snoc b bs)
  then have "Suc (be_val bs) * 256 \<le> 256 ^ length bs * 256"
    by (intro mult_le_mono1) simp
  with unat_byte_less [of b] show ?case
    by (simp add: mult.commute del: unat_byte_less)
qed

lemma length_be_bytes [simp]: "length (be_bytes n v) = n"
  by (induction n arbitrary: v) auto

lemma be_bytes_front: "be_bytes (Suc n) v = of_nat (v div 256 ^ n) # be_bytes n v"
proof (induction n arbitrary: v)
  case (Suc n)
  have "be_bytes (Suc (Suc n)) v = be_bytes (Suc n) (v div 256) @ [of_nat v]" by simp
  also have "\<dots> = of_nat (v div 256 ^ Suc n) # be_bytes (Suc n) v"
    unfolding Suc.IH [of "v div 256"] by (simp add: div_mult2_eq)
  finally show ?case .
qed simp

lemma be_bytes_map: "be_bytes n v = map (\<lambda>i. of_nat (v div 256 ^ i)) (rev [0..<n])"
  by (induction n) (simp_all add: be_bytes_front del: be_bytes.simps(2))

lemma unat_of_nat_byte [simp]: "unat (of_nat v :: u8) = v mod 256"
  by (simp add: unat_of_nat)

lemma be_val_be_bytes: "be_val (be_bytes n v) = v mod 256 ^ n"
proof (induction n arbitrary: v)
  case 0
  show ?case by simp
next
  case (Suc n)
  have "be_val (be_bytes (Suc n) v) = (v div 256 mod 256 ^ n) * 256 + v mod 256"
    by (simp add: Suc.IH)
  also have "\<dots> = v mod (256 * 256 ^ n)"
    by (simp add: mod_mult2_eq)
  finally show ?case by simp
qed

lemma be_bytes_be_val: "be_bytes (length bs) (be_val bs) = bs"
proof (induction bs rule: rev_induct)
  case Nil
  show ?case by simp
next
  case (snoc b bs)
  have "(of_nat (be_val bs * 256 + unat b) :: u8) = b"
    by (simp only: word_unat_eq_iff unat_of_nat_byte mod_mult_self3 mod_less [OF unat_byte_less])
  moreover have "(be_val bs * 256 + unat b) div 256 = be_val bs"
    by simp
  ultimately show ?case
    by (simp add: snoc.IH del: of_nat_add of_nat_mult)
qed

lemma be_val_inj: "length xs = length ys \<Longrightarrow> be_val xs = be_val ys \<Longrightarrow> xs = ys"
  by (metis be_bytes_be_val)

text \<open>
  Shifting a byte into the low end of a word (\<^verbatim>\<open>v <<= 8; v |= b\<close>) appends a
  base-256 digit; no carry reaches the byte because the shift cleared its bits.
\<close>

lemma shift_in_byte_64: "push_bit 8 (v :: u64) OR ucast (b :: u8) = v * 256 + ucast b"
proof -
  have "\<not> bit b n" if "8 \<le> n" for n
    using that by (auto dest: bit_imp_le_length)
  then have "push_bit 8 v OR ucast b = push_bit 8 v + ucast b"
    by (intro disjunctive_add_eq_or [symmetric]) (auto simp: bit_eq_iff bit_simps)
  then show ?thesis by (simp add: push_bit_eq_mult)
qed

lemma unat_ucast_byte_64 [simp]: "unat (ucast (b :: u8) :: u64) = unat b"
  by (simp add: unsigned_ucast_eq take_bit_eq_mod order_less_trans [OF unat_byte_less])

lemma unat_shift_in_byte_64:
  assumes "unat v * 256 + 255 \<le> SIZE_MAX"
  shows "unat (push_bit 8 (v :: u64) OR ucast (b :: u8)) = unat v * 256 + unat b"
proof -
  have "unat v * 256 + unat b < 18446744073709551616"
    using assms unat_byte_le [of b] by linarith
  then show ?thesis
    by (simp add: shift_in_byte_64 unat_word_ariths)
qed

text \<open>
  Masking with \<^verbatim>\<open>2^n - 1\<close> is a remainder, testing the bits above is a
  comparison, and or-ing a small value into cleared low bits is an addition. The
  components use these to leave bit operations for arithmetic on \<open>unat\<close>.
\<close>

named_theorems word_arith "bit operations as arithmetic on unat"

lemma unat_and_mask:
  fixes x :: "'a::len word"
  assumes "m = mask n"
  shows "unat (x AND m) = unat x mod 2 ^ n"
proof -
  have "unat (take_bit n x) = take_bit n (unat x)"
    by (rule unsigned_take_bit_eq)
  then have "unat (x AND mask n) = take_bit n (unat x)"
    by (simp only: take_bit_eq_mask [of n x])
  with assms show ?thesis
    by (simp only: take_bit_eq_mod)
qed

lemma unat_and_15 [word_arith]: "unat ((x :: 'a::len word) AND 15) = unat x mod 16"
  using unat_and_mask [of 15 4 x] by (simp add: mask_eq_exp_minus_1)

lemma unat_and_31 [word_arith]: "unat ((x :: 'a::len word) AND 31) = unat x mod 32"
  using unat_and_mask [of 31 5 x] by (simp add: mask_eq_exp_minus_1)

lemma unat_and_63 [word_arith]: "unat ((x :: 'a::len word) AND 63) = unat x mod 64"
  using unat_and_mask [of 63 6 x] by (simp add: mask_eq_exp_minus_1)

lemma unat_and_127 [word_arith]: "unat ((x :: 'a::len word) AND 127) = unat x mod 128"
  using unat_and_mask [of 127 7 x] by (simp add: mask_eq_exp_minus_1)

lemma unat_drop_bit: "unat (drop_bit n (x :: 'a::len word)) = unat x div 2 ^ n"
  unfolding unat_drop_bit_eq by (rule drop_bit_eq_div)

lemma drop_bit_eq_0_unat: "drop_bit n (x :: 'a::len word) = 0 \<longleftrightarrow> unat x < 2 ^ n"
  by (simp add: word_unat_eq_iff unat_drop_bit div_eq_0_iff)

lemma unat_bit_iff: "bit (x :: 'a::len word) n \<longleftrightarrow> odd (unat x div 2 ^ n)"
  using bit_unsigned_iff [of x n, where 'a = nat] by (simp add: bit_iff_odd)

lemma byte_msb_iff: "bit (b :: u8) 7 \<longleftrightarrow> 128 \<le> unat b"
proof -
  have "unat b div 128 < 2" using unat_byte_less [of b] by linarith
  then show ?thesis
    by (auto simp: unat_bit_iff less_2_cases_iff div_eq_0_iff)
qed

lemma and_exp_eq_0_iff: "(x :: 'a::len word) AND 2 ^ n = 0 \<longleftrightarrow> \<not> bit x n"
proof -
  have "bit (x AND 2 ^ n) k \<longleftrightarrow> k = n \<and> bit x n" for k
    by (auto simp: bit_and_iff bit_exp_iff dest: bit_imp_le_length)
  then show ?thesis
    unfolding bit_eq_iff [of "x AND 2 ^ n" 0] by (auto dest: bit_imp_le_length)
qed

lemma byte_and_128 [word_arith]: "(b :: u8) AND 128 = 0 \<longleftrightarrow> unat b < 128"
  using and_exp_eq_0_iff [of b 7] by (simp add: byte_msb_iff not_le)

lemma unat_push_bit:
  fixes v :: "'a::len word"
  assumes "unat v * 2 ^ n < 2 ^ LENGTH('a)"
  shows "unat (push_bit n v) = unat v * 2 ^ n"
proof -
  have "unat (push_bit n v) = take_bit LENGTH('a) (push_bit n (unat v))"
    by (rule unsigned_push_bit_eq)
  with assms show ?thesis
    by (simp only: take_bit_eq_mod push_bit_eq_mult [of n "unat v"] mod_less)
qed

text \<open>Or-ing a value below \<open>2 ^ n\<close> into a multiple of \<open>2 ^ n\<close> adds it, without overflow.\<close>

lemma unat_or_disjoint:
  fixes a b :: "'a::len word"
  assumes "2 ^ n dvd unat a" "unat b < 2 ^ n"
  shows "unat (a OR b) = unat a + unat b"
proof -
  have b: "\<not> bit b k" if "n \<le> k" for k
  proof -
    have "unat b < 2 ^ k"
      using assms(2) power_increasing [OF that, of "2::nat"] by linarith
    then show ?thesis by (simp add: unat_bit_iff)
  qed
  have a: "\<not> bit a k" if "k < n" for k
  proof -
    have "2 ^ Suc k dvd (2::nat) ^ n" using that by (intro le_imp_power_dvd) simp
    then have "2 ^ Suc k dvd unat a" using assms(1) by (rule dvd_trans)
    then obtain q where "unat a = 2 ^ Suc k * q" by blast
    then show ?thesis by (simp add: unat_bit_iff)
  qed
  have "bit (unat a) k \<Longrightarrow> \<not> bit (unat b) k" for k
    using a [of k] b [of k] by (cases "k < n") (auto simp: bit_unsigned_iff)
  then have "unat a OR unat b = unat a + unat b"
    by (intro disjunctive_add_eq_or [symmetric]) (auto simp: bit_eq_iff bit_simps)
  then show ?thesis by (simp add: unsigned_or_eq)
qed

lemma unat_push_bit_or:
  fixes v w :: "'a::len word"
  assumes "unat v * 2 ^ n < 2 ^ LENGTH('a)" "unat w < 2 ^ n"
  shows "unat (push_bit n v OR w) = unat v * 2 ^ n + unat w"
  using unat_or_disjoint [of n "push_bit n v" w] assms by (simp add: unat_push_bit)

lemma unat_and_high3:
  assumes "8 \<le> LENGTH('a)"
  shows "unat ((x :: 'a::len word) AND 224) = unat x div 32 mod 8 * 32"
proof -
  have "(224 :: 'a word) = push_bit 5 (mask 3)"
    by (simp add: mask_eq_exp_minus_1 push_bit_eq_mult)
  moreover have "x AND push_bit 5 (mask 3) = push_bit 5 (drop_bit 5 x AND mask 3)"
    by (rule bit_eqI) (auto simp: bit_simps)
  moreover have "(2::nat) ^ 8 \<le> 2 ^ LENGTH('a)"
    using assms by (intro power_increasing) simp_all
  moreover have m: "unat (drop_bit 5 x AND mask 3) = unat x div 32 mod 8"
    by (simp add: unat_and_mask [of _ 3] unat_drop_bit)
  ultimately show ?thesis
    using unat_push_bit [of "drop_bit 5 x AND mask 3" 5] by (simp add: m)
qed

lemma sint_neg_iff: "sint (v :: u64) < 0 \<longleftrightarrow> 9223372036854775808 \<le> unat v"
proof -
  have "unat v div 2 ^ 63 < 2" using unat_u64_less [of v] by (simp add: less_mult_imp_div_less)
  then have "odd (unat v div 2 ^ 63) \<longleftrightarrow> unat v div 2 ^ 63 \<noteq> 0" by (auto simp: less_2_cases_iff)
  then have "bit v 63 \<longleftrightarrow> 2 ^ 63 \<le> unat v" by (simp add: unat_bit_iff div_eq_0_iff not_less)
  then show ?thesis using bit_last_iff [of v] by simp
qed

section \<open>Slices of a buffer\<close>

text \<open>
  A write of \<open>length ys\<close> bytes at an offset of a buffer (\<open>memcpy\<close>,
  \<open>memset\<close>, stores through a pointer into the buffer) replaces that slice.
\<close>

definition buf_write :: "'a list \<Rightarrow> nat \<Rightarrow> 'a list \<Rightarrow> 'a list" where
  "buf_write xs off ys = take off xs @ ys @ drop (off + length ys) xs"

lemma length_buf_write [simp]: "off + length ys \<le> length xs \<Longrightarrow> length (buf_write xs off ys) = length xs"
  by (simp add: buf_write_def)

lemma buf_write_Nil [simp]: "buf_write xs off [] = xs"
  by (simp add: buf_write_def)

lemma take_buf_write_before [simp]: "n \<le> off \<Longrightarrow> off \<le> length xs \<Longrightarrow> take n (buf_write xs off ys) = take n xs"
  by (simp add: buf_write_def min_def)

lemma take_buf_write_exact:
  "off \<le> length xs \<Longrightarrow> take (off + length ys) (buf_write xs off ys) = take off xs @ ys"
  by (simp add: buf_write_def)

lemma drop_buf_write_exact:
  "off + length ys \<le> length xs \<Longrightarrow> drop (off + length ys) (buf_write xs off ys) = drop (off + length ys) xs"
  by (simp add: buf_write_def)

lemma take_buf_write_beyond:
  assumes "off + length ys \<le> n" "n \<le> length xs"
  shows "take n (buf_write xs off ys) = buf_write (take n xs) off ys"
proof -
  from assms(1) obtain k where "n = off + length ys + k" by (auto simp: le_iff_add)
  with assms(2) show ?thesis by (simp add: buf_write_def drop_take)
qed

lemma buf_write_end: "off + length ys = length xs \<Longrightarrow> buf_write xs off ys = take off xs @ ys"
  by (simp add: buf_write_def)

lemma buf_write_Cons:
  "off < length xs \<Longrightarrow> buf_write (xs[off := y]) (Suc off) ys = buf_write xs off (y # ys)"
  by (simp add: buf_write_def take_Suc_conv_app_nth drop_update_cancel)

lemma take_two_writes:
  assumes "off + length p + length y \<le> length buf"
  shows "take (off + length p + length y) (buf_write (buf_write buf (off + length p) y) off p) = take off buf @ p @ y"
  using assms by (auto simp: buf_write_def min_def neq_Nil_conv)

lemma buf_write_same: "off + n \<le> length xs \<Longrightarrow> buf_write xs off (take n (drop off xs)) = xs"
  by (simp add: buf_write_def) (metis append_take_drop_id drop_drop add.commute)

section \<open>Comparison functions\<close>

text \<open>
  What \<open>qsort\<close>, \<open>bsearch\<close> and the stack's lookup require of a C comparison function:
  swapping the arguments swaps the sign, and \<open>\<le>\<close> is transitive.
\<close>

locale comparator =
  fixes cmp :: "'a \<Rightarrow> 'a \<Rightarrow> int"
  assumes flip: "cmp x y < 0 \<longleftrightarrow> cmp y x > 0"
    and le_trans: "cmp x y \<le> 0 \<Longrightarrow> cmp y z \<le> 0 \<Longrightarrow> cmp x z \<le> 0"
begin

lemma refl: "cmp x x = 0"
  using flip [of x x] by linarith

lemma less_le_trans: "cmp x y < 0 \<Longrightarrow> cmp y z \<le> 0 \<Longrightarrow> cmp x z < 0"
  using flip [of x z] flip [of z x] flip [of x y] flip [of y x] le_trans [of y z x] by fastforce

lemma key_le:
  assumes "sorted_wrt (\<lambda>a b. cmp a b \<le> 0) xs" "i \<le> j" "j < length xs"
  shows "cmp k (xs ! i) \<le> 0 \<Longrightarrow> cmp k (xs ! j) \<le> 0" "cmp k (xs ! i) < 0 \<Longrightarrow> cmp k (xs ! j) < 0"
proof -
  have "cmp (xs ! i) (xs ! j) \<le> 0"
    using assms refl by (cases "i = j") (auto simp: sorted_wrt_iff_nth_less)
  then show "cmp k (xs ! i) \<le> 0 \<Longrightarrow> cmp k (xs ! j) \<le> 0" "cmp k (xs ! i) < 0 \<Longrightarrow> cmp k (xs ! j) < 0"
    using le_trans less_le_trans by blast+
qed

end

end
