(* ===== verification/ConstTime.thy ===== *)
theory ConstTime
  imports Prelude
begin

text \<open>
  The branch-free comparison and selection primitives of \<^verbatim>\<open>crypto/internal.h\<close>, on 64-bit
  \<open>crypto_word_t\<close>. Masks are all ones or all zeros. \<open>value_barrier_w\<close> only
  hides its argument from the optimiser and is the identity. Conversions between C
  integer types are \<open>ucast\<close> (unsigned) and \<open>scast\<close> (from \<open>int\<close>).
\<close>

section \<open>Primitives\<close>

definition constant_time_msb_w :: "crypto_word_t \<Rightarrow> crypto_word_t" where
  "constant_time_msb_w a = 0 - drop_bit (8 * 8 - 1) a"

definition constant_time_lt_w :: "crypto_word_t \<Rightarrow> crypto_word_t \<Rightarrow> crypto_word_t" where
  "constant_time_lt_w a b = constant_time_msb_w (a XOR ((a XOR b) OR ((a - b) XOR a)))"

definition constant_time_lt_8 :: "crypto_word_t \<Rightarrow> crypto_word_t \<Rightarrow> u8" where
  "constant_time_lt_8 a b = ucast (constant_time_lt_w a b)"

definition constant_time_ge_w :: "crypto_word_t \<Rightarrow> crypto_word_t \<Rightarrow> crypto_word_t" where
  "constant_time_ge_w a b = NOT (constant_time_lt_w a b)"

definition constant_time_ge_8 :: "crypto_word_t \<Rightarrow> crypto_word_t \<Rightarrow> u8" where
  "constant_time_ge_8 a b = ucast (constant_time_ge_w a b)"

definition constant_time_is_zero_w :: "crypto_word_t \<Rightarrow> crypto_word_t" where
  "constant_time_is_zero_w a = constant_time_msb_w (NOT a AND (a - 1))"

definition constant_time_is_zero_8 :: "crypto_word_t \<Rightarrow> u8" where
  "constant_time_is_zero_8 a = ucast (constant_time_is_zero_w a)"

definition constant_time_eq_w :: "crypto_word_t \<Rightarrow> crypto_word_t \<Rightarrow> crypto_word_t" where
  "constant_time_eq_w a b = constant_time_is_zero_w (a XOR b)"

definition constant_time_eq_8 :: "crypto_word_t \<Rightarrow> crypto_word_t \<Rightarrow> u8" where
  "constant_time_eq_8 a b = ucast (constant_time_eq_w a b)"

definition constant_time_eq_int :: "32 word \<Rightarrow> 32 word \<Rightarrow> crypto_word_t" where
  "constant_time_eq_int a b = constant_time_eq_w (scast a) (scast b)"

definition constant_time_eq_int_8 :: "32 word \<Rightarrow> 32 word \<Rightarrow> u8" where
  "constant_time_eq_int_8 a b = constant_time_eq_8 (scast a) (scast b)"

definition constant_time_select_w ::
  "crypto_word_t \<Rightarrow> crypto_word_t \<Rightarrow> crypto_word_t \<Rightarrow> crypto_word_t" where
  "constant_time_select_w m a b = (m AND a) OR (NOT m AND b)"

definition constant_time_select_8 :: "u8 \<Rightarrow> u8 \<Rightarrow> u8 \<Rightarrow> u8" where
  "constant_time_select_8 m a b =
     ucast (constant_time_select_w (ucast m) (ucast a) (ucast b))"

definition constant_time_select_int :: "crypto_word_t \<Rightarrow> 32 word \<Rightarrow> 32 word \<Rightarrow> 32 word" where
  "constant_time_select_int m a b = ucast (constant_time_select_w m (scast a) (scast b))"

text \<open>
  The array forms store \<open>c[i]\<close> for \<open>i < len\<close>; the entries of \<open>c\<close> beyond
  \<open>len\<close> stay.
\<close>

definition constant_time_select_array_w ::
  "crypto_word_t list \<Rightarrow> crypto_word_t list \<Rightarrow> crypto_word_t list \<Rightarrow> crypto_word_t \<Rightarrow> nat
     \<Rightarrow> crypto_word_t list" where
  "constant_time_select_array_w c a b m len =
     fold (\<lambda>i c. c[i := constant_time_select_w m (a ! i) (b ! i)]) [0..<len] c"

definition constant_time_select_array_8 ::
  "u8 list \<Rightarrow> u8 list \<Rightarrow> u8 list \<Rightarrow> u8 \<Rightarrow> nat \<Rightarrow> u8 list" where
  "constant_time_select_array_8 c a b m len =
     fold (\<lambda>i c. c[i := constant_time_select_8 m (a ! i) (b ! i)]) [0..<len] c"

text \<open>
  In the table forms \<open>b\<close> and \<open>c\<close> are the same array \<open>out\<close>: iteration \<open>i\<close> reads
  \<open>out[j]\<close> just before it overwrites it, so reading the array as it was on entry
  is the same.
\<close>

definition constant_time_select_entry_from_table_w ::
  "crypto_word_t list \<Rightarrow> crypto_word_t list \<Rightarrow> nat \<Rightarrow> nat \<Rightarrow> nat \<Rightarrow> crypto_word_t list" where
  "constant_time_select_entry_from_table_w out table idx num_entries entry_size =
     fold (\<lambda>i out. constant_time_select_array_w out (drop (i * entry_size) table) out
             (constant_time_eq_w (of_nat i) (of_nat idx)) entry_size)
          [0..<num_entries] out"

definition constant_time_select_entry_from_table_8 ::
  "u8 list \<Rightarrow> u8 list \<Rightarrow> nat \<Rightarrow> nat \<Rightarrow> nat \<Rightarrow> u8 list" where
  "constant_time_select_entry_from_table_8 out table idx num_entries entry_size =
     fold (\<lambda>i out. constant_time_select_array_8 out (drop (i * entry_size) table) out
             (ucast (constant_time_eq_w (of_nat i) (of_nat idx))) entry_size)
          [0..<num_entries] out"

section \<open>Masks are comparisons\<close>

named_theorems ct_mask "masks as conditionals"

text \<open>Bit 63 of a word as a comparison, so that subtraction can be read off \<open>unat\<close>.\<close>

lemma bit63_iff: "bit (x :: crypto_word_t) 63 \<longleftrightarrow> 2 ^ 63 \<le> unat x"
proof -
  have "bit x 63 \<longleftrightarrow> odd (unat x div 2 ^ 63)"
    using bit_unsigned_iff [of x 63, where 'a = nat] by (simp add: bit_iff_odd)
  moreover have "unat x div 2 ^ 63 < 2"
    using unat_u64_less [of x] by simp
  ultimately show ?thesis
    by (cases "2 ^ 63 \<le> unat x") (auto simp: less_2_cases_iff div_eq_0_iff)
qed

lemma constant_time_msb_w_mask [ct_mask]:
  "constant_time_msb_w a = (if bit a 63 then - 1 else 0)"
proof -
  have "unat (drop_bit 63 a) = unat a div 2 ^ 63"
    unfolding unat_drop_bit_eq by (simp add: drop_bit_eq_div)
  then have "drop_bit 63 a = (if bit a 63 then 1 else 0)"
    using unat_u64_less [of a]
    by (auto simp: word_unat_eq_iff bit63_iff div_eq_0_iff intro!: div_nat_eqI)
  then show ?thesis by (simp add: constant_time_msb_w_def)
qed

lemma unat_sub_wrap:
  "unat ((a :: crypto_word_t) - b) =
     (if b \<le> a then unat a - unat b else unat a + 2 ^ 64 - unat b)"
  by (simp add: unat_sub_if_size word_le_nat_alt word_size)

lemma constant_time_lt_w_mask [ct_mask]:
  "constant_time_lt_w a b = (if a < b then - 1 else 0)"
proof -
  note a = unat_u64_less [of a] and b = unat_u64_less [of b]
  have "bit (a - b) 63 \<longleftrightarrow> unat a < unat b" if "bit a 63 = bit b 63"
    using that a b unfolding bit63_iff unat_sub_wrap word_le_nat_alt by (auto split: if_splits)
  moreover have "bit b 63 \<longleftrightarrow> unat a < unat b" if "bit a 63 \<noteq> bit b 63"
    using that unfolding bit63_iff by auto
  ultimately have "bit (a XOR ((a XOR b) OR ((a - b) XOR a))) 63 \<longleftrightarrow> a < b"
    by (auto simp: bit_simps word_less_nat_alt)
  then show ?thesis
    by (simp add: constant_time_lt_w_def constant_time_msb_w_mask)
qed

lemma constant_time_ge_w_mask [ct_mask]:
  "constant_time_ge_w a b = (if b \<le> a then - 1 else 0)"
  by (auto simp: constant_time_ge_w_def constant_time_lt_w_mask)

lemma constant_time_is_zero_w_mask [ct_mask]:
  "constant_time_is_zero_w a = (if a = 0 then - 1 else 0)"
proof -
  have "bit (a - 1) 63 \<longleftrightarrow> a = 0" if "\<not> bit a 63"
    using that unat_u64_less [of a]
    unfolding bit63_iff unat_sub_wrap word_le_nat_alt word_unat_eq_iff
    by (auto split: if_splits)
  then have "bit (NOT a AND (a - 1)) 63 \<longleftrightarrow> a = 0"
    by (auto simp: bit_simps)
  then show ?thesis
    by (simp add: constant_time_is_zero_w_def constant_time_msb_w_mask)
qed

lemma constant_time_eq_w_mask [ct_mask]:
  "constant_time_eq_w a b = (if a = b then - 1 else 0)"
  by (simp add: constant_time_eq_w_def constant_time_is_zero_w_mask xor_self_eq bit_eq_iff bit_simps)

lemma constant_time_select_w_mask [ct_mask]:
  "constant_time_select_w (if c then - 1 else 0) a b = (if c then a else b)"
  by (simp add: constant_time_select_w_def)

lemma ucast_mask_64_8: "(ucast (if c then - 1 else 0 :: crypto_word_t) :: u8) = (if c then - 1 else 0)"
  by (auto simp: bit_eq_iff bit_simps)

lemmas constant_time_8_mask [ct_mask] =
  constant_time_lt_8_def [unfolded constant_time_lt_w_mask ucast_mask_64_8]
  constant_time_ge_8_def [unfolded constant_time_ge_w_mask ucast_mask_64_8]
  constant_time_is_zero_8_def [unfolded constant_time_is_zero_w_mask ucast_mask_64_8]
  constant_time_eq_8_def [unfolded constant_time_eq_w_mask ucast_mask_64_8]

lemma constant_time_select_8_mask [ct_mask]:
  "constant_time_select_8 (if c then - 1 else 0) a b = (if c then a else b)"
proof -
  have "ucast (ucast (NOT (0::u8)) AND ucast a OR (NOT (ucast (NOT (0::u8)) :: crypto_word_t) AND ucast b)) = a"
    by (rule bit_eqI) (auto simp: bit_simps)
  moreover have "(ucast (ucast b :: crypto_word_t) :: u8) = b"
    by (rule bit_eqI) (auto simp: bit_simps)
  ultimately show ?thesis
    by (simp add: constant_time_select_8_def constant_time_select_w_def)
qed

lemma ucast_scast_32 [simp]: "(ucast (scast (a :: 32 word) :: crypto_word_t) :: 32 word) = a"
  by (rule bit_eqI) (auto simp: bit_simps)

lemma constant_time_select_int_mask [ct_mask]:
  "constant_time_select_int (if c then - 1 else 0) a b = (if c then a else b)"
  by (simp add: constant_time_select_int_def constant_time_select_w_mask)

section \<open>Array selection and table lookup\<close>

text \<open>
  Both widths share one argument: a loop that stores \<open>f i\<close> at every index below
  \<open>len\<close> replaces exactly that prefix.
\<close>

lemma fold_store_prefix:
  assumes "len \<le> length c"
  shows "fold (\<lambda>i c. c[i := f i]) [0..<len] c = map f [0..<len] @ drop len c"
  using assms
proof (induction len)
  case 0
  show ?case by simp
next
  case (Suc n)
  then have "drop n c = c ! n # drop (Suc n) c"
    by (simp add: Cons_nth_drop_Suc)
  with Suc show ?case
    by (simp add: list_update_append)
qed

lemma map_nth_prefix: "n \<le> length xs \<Longrightarrow> map (\<lambda>i. xs ! i) [0..<n] = take n xs"
  by (simp add: list_eq_iff_nth_eq)

lemma select_array_w_mask [ct_mask]:
  assumes "len \<le> length c" "len \<le> length a" "len \<le> length b"
  shows "constant_time_select_array_w c a b (if s then - 1 else 0) len =
           take len (if s then a else b) @ drop len c"
  using assms
  by (simp add: constant_time_select_array_w_def fold_store_prefix constant_time_select_w_mask
      map_nth_prefix)

lemma select_array_8_mask [ct_mask]:
  assumes "len \<le> length c" "len \<le> length a" "len \<le> length b"
  shows "constant_time_select_array_8 c a b (if s then - 1 else 0) len =
           take len (if s then a else b) @ drop len c"
  using assms
  by (simp add: constant_time_select_array_8_def fold_store_prefix constant_time_select_8_mask
      map_nth_prefix)

lemma of_nat_u64_inject:
  "i \<le> SIZE_MAX \<Longrightarrow> j \<le> SIZE_MAX \<Longrightarrow> (of_nat i :: crypto_word_t) = of_nat j \<longleftrightarrow> i = j"
  by (simp add: word_unat_eq_iff unat_of_nat)

text \<open>
  A scan of the table that replaces \<open>out\<close> at the matching index and keeps it elsewhere
  ends with the entry of that index.
\<close>

lemma fold_table_scan:
  assumes step: "\<And>i out. i < num \<Longrightarrow> length out = size out0 \<Longrightarrow>
      f i out = (if i = idx then e @ drop (length e) out else out)"
    and "length e \<le> length out0"
  shows "fold f [0..<num] out0 = (if idx < num then e @ drop (length e) out0 else out0)"
proof -
  have "fold f [0..<n] out0 = (if idx < n then e @ drop (length e) out0 else out0)" if "n \<le> num" for n
    using that
  proof (induction n)
    case (Suc n)
    let ?o = "if idx < n then e @ drop (length e) out0 else out0"
    have "length ?o = length out0" using assms(2) by simp
    with Suc step [of n ?o] show ?case by auto
  qed simp
  then show ?thesis by simp
qed

lemma length_entry:
  assumes "idx < num" "num * es \<le> length table"
  shows "length (take es (drop (idx * es) table)) = es"
proof -
  have "Suc idx * es \<le> num * es"
    using assms(1) by (intro mult_le_mono1) simp
  with assms(2) show ?thesis by simp
qed

text \<open>
  C9. \<open>constant_time_select_entry_from_table_8\<close> scans the whole table and still ends
  with exactly the entry \<open>idx\<close> in the first \<open>entry_size\<close> bytes of \<open>out\<close>; an
  index past the table leaves \<open>out\<close> as it was.
\<close>

theorem select_entry_from_table_8_correct:
  assumes "num_entries \<le> SIZE_MAX" "idx \<le> SIZE_MAX"
    and "num_entries * entry_size \<le> length table" and "entry_size \<le> length out"
  shows "constant_time_select_entry_from_table_8 out table idx num_entries entry_size =
    (if idx < num_entries
     then take entry_size (drop (idx * entry_size) table) @ drop entry_size out else out)"
proof -
  let ?e = "if idx < num_entries then take entry_size (drop (idx * entry_size) table) else []"
  have len: "length ?e = entry_size" if "idx < num_entries"
    using that length_entry [OF that assms(3)] by simp
  have "fold (\<lambda>i out. constant_time_select_array_8 out (drop (i * entry_size) table) out
             (ucast (constant_time_eq_w (of_nat i) (of_nat idx))) entry_size) [0..<num_entries] out
        = (if idx < num_entries then ?e @ drop (length ?e) out else out)"
  proof (rule fold_table_scan)
    fix i and o' :: "u8 list" assume i: "i < num_entries" and o': "length o' = size out"
    have "entry_size \<le> length (drop (i * entry_size) table)"
      using length_entry [OF i assms(3)] by simp
    with i o' assms(1,2,4) len show "constant_time_select_array_8 o' (drop (i * entry_size) table) o'
        (ucast (constant_time_eq_w (of_nat i) (of_nat idx))) entry_size =
        (if i = idx then ?e @ drop (length ?e) o' else o')"
      by (simp add: constant_time_eq_w_mask of_nat_u64_inject ucast_mask_64_8 select_array_8_mask)
  qed (use len assms(4) in simp)
  with len show ?thesis
    by (simp add: constant_time_select_entry_from_table_8_def)
qed

theorem select_entry_from_table_8_correct_witness:
  "(3::nat) \<le> SIZE_MAX \<and> constant_time_select_entry_from_table_8 [0, 0, 9] [1, 2, 3, 4, 5, 6] 1 3 2 = [3, 4, 9]"
  using select_entry_from_table_8_correct [of 3 1 2 "[1, 2, 3, 4, 5, 6]" "[0, 0, 9]"]
  by simp

end
