(* ===== verification/Mem.thy ===== *)
theory Mem
  imports ConstTime "HOL-Library.List_Lexorder"
begin

text \<open>
  Memory and string helpers: \<^verbatim>\<open>crypto/mem.c\<close> and the \<open>mem*\<close> wrappers of
  \<^verbatim>\<open>crypto/internal.h\<close>, in the default configuration (no \<open>CRYPTO_set_mem_functions\<close>,
  no \<open>OPENSSL_memory_*\<close> overrides).

  An allocation is represented by the bytes it holds; freeing has no observable effect on
  the remaining state. The process allocator is an argument \<open>al\<close> of every operation that
  allocates: \<open>al n\<close> is \<open>None\<close> when \<open>malloc(n)\<close> fails, and otherwise gives the
  (unspecified) contents of the fresh block. A C string is represented by its characters;
  reading at its end reads the terminating NUL.
\<close>

type_synonym allocator = "nat \<Rightarrow> (nat \<Rightarrow> u8) option"

abbreviation INT_MAX :: nat where
  "INT_MAX \<equiv> 2147483647"

section \<open>Allocation\<close>

text \<open>The block carries its size in an 8-byte prefix, which the list's length stands for.\<close>

definition OPENSSL_malloc :: "allocator \<Rightarrow> nat \<Rightarrow> u8 list option" where
  "OPENSSL_malloc al n =
     (if size_add n 8 < n then None
      else case al (size_add n 8) of
             None \<Rightarrow> None
           | Some f \<Rightarrow> Some (map (\<lambda>i. f (8 + i)) [0..<n]))"

definition OPENSSL_zalloc :: "allocator \<Rightarrow> nat \<Rightarrow> u8 list option" where
  "OPENSSL_zalloc al n =
     (case OPENSSL_malloc al n of None \<Rightarrow> None | Some p \<Rightarrow> Some (buf_write p 0 (replicate n 0)))"

definition OPENSSL_calloc :: "allocator \<Rightarrow> nat \<Rightarrow> nat \<Rightarrow> u8 list option" where
  "OPENSSL_calloc al num sz =
     (if sz \<noteq> 0 \<and> num > SIZE_MAX div sz then None else OPENSSL_zalloc al (size_mul num sz))"

definition OPENSSL_realloc :: "allocator \<Rightarrow> u8 list option \<Rightarrow> nat \<Rightarrow> u8 list option" where
  "OPENSSL_realloc al orig new_size =
     (case orig of
        None \<Rightarrow> OPENSSL_malloc al new_size
      | Some old \<Rightarrow>
          (case OPENSSL_malloc al new_size of
             None \<Rightarrow> None
           | Some ret \<Rightarrow>
               (let to_copy = (if length old < new_size then length old else new_size)
                in Some (buf_write ret 0 (take to_copy old)))))"

definition OPENSSL_memdup :: "allocator \<Rightarrow> u8 list \<Rightarrow> nat \<Rightarrow> u8 list option" where
  "OPENSSL_memdup al data n =
     (if n = 0 then None
      else case OPENSSL_malloc al n of
             None \<Rightarrow> None
           | Some ret \<Rightarrow> Some (buf_write ret 0 (take n data)))"

section \<open>Comparison and search\<close>

definition CRYPTO_memcmp :: "u8 list \<Rightarrow> u8 list \<Rightarrow> nat \<Rightarrow> u8" where
  "CRYPTO_memcmp a b len = fold (\<lambda>i x. x OR (a ! i XOR b ! i)) [0..<len] 0"

text \<open>The loop of \<open>OPENSSL_memcmp\<close> runs \<open>i\<close> from \<open>n\<close> down to 1.\<close>

fun memcmp_loop :: "u8 list \<Rightarrow> u8 list \<Rightarrow> nat \<Rightarrow> 32 word \<Rightarrow> 32 word" where
  "memcmp_loop a b 0 result = result"
| "memcmp_loop a b (Suc i) result =
     (let ai = a ! i; bi = b ! i;
          diff_mask = NOT (constant_time_is_zero_w (ucast (ai XOR bi)))
      in memcmp_loop a b i
           (constant_time_select_int diff_mask (ucast ai - ucast bi) result))"

definition OPENSSL_memcmp :: "u8 list \<Rightarrow> u8 list \<Rightarrow> nat \<Rightarrow> 32 word" where
  "OPENSSL_memcmp s1 s2 n = memcmp_loop s1 s2 n 0"

fun memchr_from :: "nat \<Rightarrow> u8 list \<Rightarrow> u8 \<Rightarrow> nat \<Rightarrow> nat option" where
  "memchr_from i s c 0 = None"
| "memchr_from i s c (Suc n) = (if s ! i = c then Some i else memchr_from (Suc i) s c n)"

definition OPENSSL_memchr :: "u8 list \<Rightarrow> u8 \<Rightarrow> nat \<Rightarrow> nat option" where
  "OPENSSL_memchr s c n = (if n = 0 then None else memchr_from 0 s c n)"

definition OPENSSL_hash32 :: "u8 list \<Rightarrow> nat \<Rightarrow> u32" where
  "OPENSSL_hash32 inp len =
     fold (\<lambda>i h. (h XOR ucast (inp ! i)) * 16777619) [0..<len] 2166136261"

section \<open>Characters and strings\<close>

definition cstr_at :: "u8 list \<Rightarrow> nat \<Rightarrow> u8" where
  "cstr_at s i = (if i < length s then s ! i else 0)"

definition strlen :: "u8 list \<Rightarrow> nat" where
  "strlen s = length (takeWhile (\<lambda>c. c \<noteq> 0) s)"

definition OPENSSL_strhash :: "u8 list \<Rightarrow> u32" where
  "OPENSSL_strhash s = OPENSSL_hash32 s (strlen s)"

fun strnlen_from :: "u8 list \<Rightarrow> nat \<Rightarrow> nat \<Rightarrow> nat" where
  "strnlen_from s i 0 = i"
| "strnlen_from s i (Suc n) = (if cstr_at s i = 0 then i else strnlen_from s (Suc i) n)"

definition OPENSSL_strnlen :: "u8 list \<Rightarrow> nat \<Rightarrow> nat" where
  "OPENSSL_strnlen s len = strnlen_from s 0 len"

definition OPENSSL_strdup :: "allocator \<Rightarrow> u8 list option \<Rightarrow> u8 list option" where
  "OPENSSL_strdup al s =
     (case s of None \<Rightarrow> None | Some str \<Rightarrow> OPENSSL_memdup al (str @ [0]) (strlen str + 1))"

definition OPENSSL_isalpha :: "int \<Rightarrow> bool" where
  "OPENSSL_isalpha c \<longleftrightarrow> (97 \<le> c \<and> c \<le> 122) \<or> (65 \<le> c \<and> c \<le> 90)"

definition OPENSSL_isdigit :: "int \<Rightarrow> bool" where
  "OPENSSL_isdigit c \<longleftrightarrow> 48 \<le> c \<and> c \<le> 57"

definition OPENSSL_isxdigit :: "int \<Rightarrow> bool" where
  "OPENSSL_isxdigit c \<longleftrightarrow> OPENSSL_isdigit c \<or> (97 \<le> c \<and> c \<le> 102) \<or> (65 \<le> c \<and> c \<le> 70)"

definition OPENSSL_fromxdigit :: "int \<Rightarrow> u8 option" where
  "OPENSSL_fromxdigit c =
     (if OPENSSL_isdigit c then Some (of_int (c - 48))
      else if 97 \<le> c \<and> c \<le> 102 then Some (of_int (c - 97 + 10))
      else if 65 \<le> c \<and> c \<le> 70 then Some (of_int (c - 65 + 10))
      else None)"

definition OPENSSL_isalnum :: "int \<Rightarrow> bool" where
  "OPENSSL_isalnum c \<longleftrightarrow> OPENSSL_isalpha c \<or> OPENSSL_isdigit c"

definition OPENSSL_tolower :: "int \<Rightarrow> int" where
  "OPENSSL_tolower c = (if 65 \<le> c \<and> c \<le> 90 then c + (97 - 65) else c)"

definition OPENSSL_isspace :: "int \<Rightarrow> bool" where
  "OPENSSL_isspace c \<longleftrightarrow> c = 9 \<or> c = 10 \<or> c = 11 \<or> c = 12 \<or> c = 13 \<or> c = 32"

text \<open>
  \<open>hexstr_loop\<close> is the loop of \<open>OPENSSL_hexstr2buf\<close> with \<open>k\<close> iterations left
  after the first \<open>i\<close>; an invalid digit frees the buffer and returns NULL. A
  \<open>char\<close> is signed, as in the x86-64 ABI.
\<close>

fun hexstr_loop :: "u8 list \<Rightarrow> nat \<Rightarrow> nat \<Rightarrow> u8 list \<Rightarrow> u8 list option" where
  "hexstr_loop str i 0 buf = Some buf"
| "hexstr_loop str i (Suc k) buf =
     (case OPENSSL_fromxdigit (sint (cstr_at str (2 * i))) of
        None \<Rightarrow> None
      | Some hi \<Rightarrow>
          (case OPENSSL_fromxdigit (sint (cstr_at str (2 * i + 1))) of
             None \<Rightarrow> None
           | Some lo \<Rightarrow> hexstr_loop str (Suc i) k (buf[i := (push_bit 4 hi) OR lo])))"

definition OPENSSL_hexstr2buf :: "allocator \<Rightarrow> u8 list option \<Rightarrow> (u8 list \<times> nat) option" where
  "OPENSSL_hexstr2buf al str =
     (case str of
        None \<Rightarrow> None
      | Some s \<Rightarrow>
          (let slen = OPENSSL_strnlen s 32767
           in if slen mod 2 \<noteq> 0 then None
              else let buflen = slen div 2
                   in case OPENSSL_zalloc al buflen of
                        None \<Rightarrow> None
                      | Some buf \<Rightarrow>
                          (case hexstr_loop s 0 buflen buf of
                             None \<Rightarrow> None
                           | Some b \<Rightarrow> Some (b, buflen))))"

fun strncasecmp_from :: "u8 list \<Rightarrow> u8 list \<Rightarrow> nat \<Rightarrow> nat \<Rightarrow> int" where
  "strncasecmp_from a b i 0 = 0"
| "strncasecmp_from a b i (Suc n) =
     (let aa = OPENSSL_tolower (sint (cstr_at a i));
          bb = OPENSSL_tolower (sint (cstr_at b i))
      in if aa < bb then - 1
         else if aa > bb then 1
         else if aa = 0 then 0
         else strncasecmp_from a b (Suc i) n)"

definition OPENSSL_strncasecmp :: "u8 list \<Rightarrow> u8 list \<Rightarrow> nat \<Rightarrow> int" where
  "OPENSSL_strncasecmp a b n = strncasecmp_from a b 0 n"

text \<open>\<open>OPENSSL_strcasecmp\<close> has no bound; it stops at the latest at the first NUL.\<close>

function strcasecmp_from :: "u8 list \<Rightarrow> u8 list \<Rightarrow> nat \<Rightarrow> int" where
  "strcasecmp_from a b i =
     (let aa = OPENSSL_tolower (sint (cstr_at a i));
          bb = OPENSSL_tolower (sint (cstr_at b i))
      in if aa < bb then - 1
         else if aa > bb then 1
         else if aa = 0 then 0
         else strcasecmp_from a b (Suc i))"
  by pat_completeness auto
termination
proof (relation "measure (\<lambda>(a, b, i). length a - i)")
  fix a b :: "u8 list" and i :: nat and aa bb :: int
  assume "aa = OPENSSL_tolower (sint (cstr_at a i))" "aa \<noteq> 0"
  then have "i < length a"
    by (cases "i < length a") (simp_all add: cstr_at_def OPENSSL_tolower_def)
  then show "((a, b, Suc i), (a, b, i)) \<in> measure (\<lambda>(a, b, i). length a - i)"
    by simp
qed simp

definition OPENSSL_strcasecmp :: "u8 list \<Rightarrow> u8 list \<Rightarrow> int" where
  "OPENSSL_strcasecmp a b = strcasecmp_from a b 0"

definition OPENSSL_strndup :: "allocator \<Rightarrow> u8 list \<Rightarrow> nat \<Rightarrow> u8 list option" where
  "OPENSSL_strndup al str n =
     (let sz = OPENSSL_strnlen str n;
          alloc_size = size_add sz 1
      in if alloc_size < sz then None
         else case OPENSSL_malloc al alloc_size of
                None \<Rightarrow> None
              | Some ret \<Rightarrow> Some ((buf_write ret 0 (take sz str))[sz := 0]))"

text \<open>
  \<open>strlcpy_from\<close> copies \<open>src\<close> from index \<open>l\<close> on to \<open>dst\<close> at \<open>pos + l\<close>,
  with \<open>dst_size\<close> bytes of room left; the result is the buffer and the return value.
\<close>

function strlcpy_from ::
  "u8 list \<Rightarrow> nat \<Rightarrow> u8 list \<Rightarrow> nat \<Rightarrow> nat \<Rightarrow> u8 list \<times> nat" where
  "strlcpy_from dst pos src dst_size l =
     (if dst_size > 1 \<and> cstr_at src l \<noteq> 0
      then strlcpy_from (dst[pos + l := cstr_at src l]) pos src (dst_size - 1) (l + 1)
      else ((if dst_size \<noteq> 0 then dst[pos + l := 0] else dst), l + strlen (drop l src)))"
  by pat_completeness auto
termination
  by (relation "measure (\<lambda>(dst, pos, src, dst_size, l). dst_size)") auto

declare strlcpy_from.simps [simp del] strcasecmp_from.simps [simp del]

definition OPENSSL_strlcpy :: "u8 list \<Rightarrow> u8 list \<Rightarrow> nat \<Rightarrow> u8 list \<times> nat" where
  "OPENSSL_strlcpy dst src dst_size = strlcpy_from dst 0 src dst_size 0"

fun strlcat_skip :: "u8 list \<Rightarrow> nat \<Rightarrow> nat \<Rightarrow> nat" where
  "strlcat_skip dst l 0 = l"
| "strlcat_skip dst l (Suc n) = (if dst ! l \<noteq> 0 then strlcat_skip dst (Suc l) n else l)"

definition OPENSSL_strlcat :: "u8 list \<Rightarrow> u8 list \<Rightarrow> nat \<Rightarrow> u8 list \<times> nat" where
  "OPENSSL_strlcat dst src dst_size =
     (let l = strlcat_skip dst 0 dst_size
      in case strlcpy_from dst l src (dst_size - l) 0 of (d, r) \<Rightarrow> (d, l + r))"

section \<open>Allocated blocks\<close>

lemma OPENSSL_malloc_length: "OPENSSL_malloc al n = Some p \<Longrightarrow> length p = n"
  by (auto simp: OPENSSL_malloc_def split: if_splits option.splits)

lemma OPENSSL_malloc_None_iff:
  "n + 8 \<le> SIZE_MAX \<Longrightarrow> OPENSSL_malloc al n = None \<longleftrightarrow> al (n + 8) = None"
  by (simp add: OPENSSL_malloc_def size_add_exact split: option.splits)

lemma OPENSSL_zalloc_zeros: "OPENSSL_zalloc al n = Some p \<Longrightarrow> p = replicate n 0"
  by (auto simp: OPENSSL_zalloc_def buf_write_def dest: OPENSSL_malloc_length split: option.splits)

lemma OPENSSL_calloc_zeros:
  assumes "OPENSSL_calloc al num sz = Some p"
  shows "p = replicate (num * sz) 0"
proof -
  have "num * sz \<le> SIZE_MAX" if "sz \<noteq> 0" "num \<le> SIZE_MAX div sz"
    using that by (simp add: less_eq_div_iff_mult_less_eq)
  with assms show ?thesis
    by (cases "sz = 0")
      (auto simp: OPENSSL_calloc_def size_mul_exact not_less dest: OPENSSL_zalloc_zeros split: if_splits)
qed

lemma OPENSSL_realloc_length: "OPENSSL_realloc al orig n = Some p \<Longrightarrow> length p = n"
  by (auto simp: OPENSSL_realloc_def buf_write_def Let_def dest!: OPENSSL_malloc_length
      split: option.splits if_splits)

lemma OPENSSL_realloc_keeps:
  assumes "OPENSSL_realloc al (Some old) n = Some p" "k \<le> length old" "k \<le> n"
  shows "take k p = take k old"
  using assms by (auto simp: OPENSSL_realloc_def buf_write_def Let_def split: option.splits if_splits)

lemma OPENSSL_memdup_copies:
  assumes "OPENSSL_memdup al data n = Some p" "n \<le> length data"
  shows "p = take n data"
  using assms OPENSSL_malloc_length
  by (auto simp: OPENSSL_memdup_def buf_write_def split: if_splits option.splits)

text \<open>An allocator that serves every request.\<close>

abbreviation al_total :: "allocator \<Rightarrow> bool" where
  "al_total al \<equiv> \<forall>k. al k \<noteq> None"

lemma OPENSSL_malloc_total:
  assumes "al_total al" "n + 8 \<le> SIZE_MAX"
  shows "\<exists>p. OPENSSL_malloc al n = Some p \<and> length p = n"
proof -
  have "OPENSSL_malloc al n \<noteq> None" using OPENSSL_malloc_None_iff [OF assms(2)] assms(1) by blast
  then show ?thesis using OPENSSL_malloc_length by blast
qed

lemma OPENSSL_memdup_total:
  assumes "al_total al" "length data + 8 \<le> SIZE_MAX" "data \<noteq> []"
  shows "OPENSSL_memdup al data (length data) = Some data"
  using OPENSSL_malloc_total [OF assms(1,2)] assms(3) by (auto simp: OPENSSL_memdup_def buf_write_def)

lemma OPENSSL_calloc_total:
  assumes "al_total al" "num * sz + 8 \<le> SIZE_MAX"
  shows "OPENSSL_calloc al num sz = Some (replicate (num * sz) 0)"
proof -
  have "size_mul num sz = num * sz" using assms(2) by (intro size_mul_exact) simp
  moreover have "num \<le> SIZE_MAX div sz" if "sz \<noteq> 0"
    using that assms(2) by (simp add: less_eq_div_iff_mult_less_eq)
  then have "\<not> (sz \<noteq> 0 \<and> num > SIZE_MAX div sz)" by auto
  ultimately show ?thesis
    using OPENSSL_malloc_total [OF assms] by (auto simp: OPENSSL_calloc_def OPENSSL_zalloc_def buf_write_def)
qed

section \<open>Constant-time comparison\<close>

lemma word_or_eq_0_iff: "(x :: u8) OR y = 0 \<longleftrightarrow> x = 0 \<and> y = 0"
  by (auto simp: bit_eq_iff bit_simps)

lemma word_xor_eq_0_iff: "(x :: u8) XOR y = 0 \<longleftrightarrow> x = y"
  by (auto simp: bit_eq_iff bit_simps)

lemma take_eq_iff_nth:
  "n \<le> length a \<Longrightarrow> n \<le> length b \<Longrightarrow> take n a = take n b \<longleftrightarrow> (\<forall>i<n. a ! i = b ! i)"
  by (auto simp: list_eq_iff_nth_eq)

lemma CRYPTO_memcmp_fold:
  "fold (\<lambda>i x. x OR (a ! i XOR b ! i)) [0..<n] (0 :: u8) = 0 \<longleftrightarrow> (\<forall>i<n. a ! i = b ! i)"
proof (induction n)
  case 0
  show ?case by simp
next
  case (Suc n)
  then show ?case
    by (auto simp: word_or_eq_0_iff word_xor_eq_0_iff less_Suc_eq)
qed

lemma CRYPTO_memcmp_eq_0:
  "len \<le> length a \<Longrightarrow> len \<le> length b \<Longrightarrow> CRYPTO_memcmp a b len = 0 \<longleftrightarrow> take len a = take len b"
  by (simp add: CRYPTO_memcmp_def CRYPTO_memcmp_fold take_eq_iff_nth)

lemma ucast_u8_eq_0_iff: "(ucast (x :: u8) :: crypto_word_t) = 0 \<longleftrightarrow> x = 0"
  by (simp add: word_unat_eq_iff)

declare memcmp_loop.simps(2) [simp del]

lemma memcmp_loop_Suc:
  "memcmp_loop a b (Suc i) r =
     memcmp_loop a b i (if a ! i \<noteq> b ! i then ucast (a ! i) - ucast (b ! i) else r)"
proof -
  have "NOT (constant_time_is_zero_w (ucast (a ! i XOR b ! i))) = (if a ! i \<noteq> b ! i then - 1 else 0)"
    by (simp add: constant_time_is_zero_w_mask ucast_u8_eq_0_iff word_xor_eq_0_iff)
  then show ?thesis
    by (simp only: memcmp_loop.simps Let_def constant_time_select_int_mask)
qed

lemma sint_byte_diff: "sint (ucast (x :: u8) - ucast (y :: u8) :: 32 word) = int (unat x) - int (unat y)"
proof -
  define k where "k = int (unat x) - int (unat y)"
  have "- 2147483648 \<le> k" "k < 2147483648"
    using unat_byte_le [of x] unat_byte_le [of y] unfolding k_def by linarith+
  then have "sint (of_int k :: 32 word) = k"
    by (simp add: sint_sbintrunc' signed_take_bit_int_eq_self)
  moreover have "(ucast x - ucast y :: 32 word) = of_int k"
    by (simp add: k_def)
  ultimately show ?thesis by (simp only: k_def)
qed

lemma byte_diff_sign:
  "sint (ucast (x :: u8) - ucast (y :: u8) :: 32 word) < 0 \<longleftrightarrow> x < y"
  "sint (ucast (x :: u8) - ucast (y :: u8) :: 32 word) = 0 \<longleftrightarrow> x = y"
  by (simp_all add: sint_byte_diff word_less_def word_uint_eq_iff)

lemma lex_less_snoc:
  fixes x y :: "'a :: linorder"
  shows "length xs = length ys \<Longrightarrow> xs @ [x] < ys @ [y] \<longleftrightarrow> xs < ys \<or> (xs = ys \<and> x < y)"
  by (induction xs ys rule: list_induct2) auto

lemma memcmp_loop_sign:
  assumes "n \<le> length a" "n \<le> length b"
  shows "if take n a = take n b then memcmp_loop a b n r = r
         else sint (memcmp_loop a b n r) \<noteq> 0 \<and>
              (sint (memcmp_loop a b n r) < 0 \<longleftrightarrow> take n a < take n b)"
  using assms
proof (induction n arbitrary: r)
  case 0
  show ?case by simp
next
  case (Suc i)
  let ?r = "if a ! i \<noteq> b ! i then ucast (a ! i) - ucast (b ! i) else r"
  have t: "take (Suc i) a = take i a @ [a ! i]" "take (Suc i) b = take i b @ [b ! i]"
    using Suc.prems by (simp_all add: take_Suc_conv_app_nth)
  have lt: "take (Suc i) a < take (Suc i) b \<longleftrightarrow> take i a < take i b \<or> (take i a = take i b \<and> a ! i < b ! i)"
    using Suc.prems unfolding t by (intro lex_less_snoc) simp
  have IH: "if take i a = take i b then memcmp_loop a b i ?r = ?r
     else sint (memcmp_loop a b i ?r) \<noteq> 0 \<and> (sint (memcmp_loop a b i ?r) < 0 \<longleftrightarrow> take i a < take i b)"
    using Suc.prems by (intro Suc.IH) simp_all
  show ?case
  proof (cases "take i a = take i b")
    case True
    with IH lt show ?thesis
      by (auto simp: memcmp_loop_Suc t byte_diff_sign)
  next
    case False
    with IH lt show ?thesis by (simp add: memcmp_loop_Suc t)
  qed
qed

text \<open>
  The constant-time \<open>OPENSSL_memcmp\<close> (which walks both buffers from the end and never
  exits early) has the contract of \<open>memcmp\<close>: its result is zero exactly when the first
  \<open>n\<close> bytes agree and negative exactly when the first buffer is lexicographically smaller.
\<close>

theorem OPENSSL_memcmp_lexicographic:
  assumes "n \<le> length s1" "n \<le> length s2"
  shows "(OPENSSL_memcmp s1 s2 n = 0 \<longleftrightarrow> take n s1 = take n s2) \<and>
         (sint (OPENSSL_memcmp s1 s2 n) < 0 \<longleftrightarrow> take n s1 < take n s2)"
  using memcmp_loop_sign [OF assms, of 0]
  by (auto simp: OPENSSL_memcmp_def split: if_splits)

theorem OPENSSL_memcmp_lexicographic_witness:
  "sint (OPENSSL_memcmp [1, 2, 3] [1, 9, 0] 3) < 0"
  using OPENSSL_memcmp_lexicographic [of 3 "[1, 2, 3]" "[1, 9, 0]"] by simp

section \<open>Bounded string copy\<close>

lemma cstr_at_drop: "cstr_at src l \<noteq> 0 \<Longrightarrow> drop l src = cstr_at src l # drop (Suc l) src"
  by (auto simp: cstr_at_def Cons_nth_drop_Suc split: if_splits)

lemma cstr_at_0_takeWhile: "cstr_at src l = 0 \<Longrightarrow> takeWhile (\<lambda>c. c \<noteq> 0) (drop l src) = []"
  by (cases "drop l src") (auto simp: cstr_at_def hd_drop_conv_nth split: if_splits dest: arg_cong [where f = hd])

lemma buf_write_step:
  assumes "pos < length dst"
  shows "buf_write (dst[pos := x]) (Suc pos) ys = buf_write dst pos (x # ys)"
proof -
  have "take (Suc pos) (dst[pos := x]) = take pos dst @ [x]"
    using assms by (simp add: take_Suc_conv_app_nth)
  then show ?thesis
    by (simp add: buf_write_def)
qed

lemma strlcpy_from_spec:
  assumes "0 < dst_size" "pos + l + dst_size \<le> length dst"
  shows "strlcpy_from dst pos src dst_size l =
    (buf_write dst (pos + l) (take (dst_size - 1) (takeWhile (\<lambda>c. c \<noteq> 0) (drop l src)) @ [0]),
     l + strlen (drop l src))"
  using assms
proof (induction dst pos src dst_size l rule: strlcpy_from.induct)
  case (1 dst pos src dst_size l)
  show ?case
  proof (cases "dst_size > 1 \<and> cstr_at src l \<noteq> 0")
    case True
    then obtain k where k: "dst_size = Suc (Suc k)"
      by (metis One_nat_def less_nat_zero_code not0_implies_Suc not_less_iff_gr_or_eq)
    have "strlcpy_from (dst[pos + l := cstr_at src l]) pos src (dst_size - 1) (l + 1) =
      (buf_write (dst[pos + l := cstr_at src l]) (pos + (l + 1))
         (take (dst_size - 1 - 1) (takeWhile (\<lambda>c. c \<noteq> 0) (drop (l + 1) src)) @ [0]),
       l + 1 + strlen (drop (l + 1) src))"
      using True "1.prems" by (intro "1.IH") auto
    with True k "1.prems" cstr_at_drop [of src l] show ?thesis
      by (simp add: strlcpy_from.simps [of dst] buf_write_step strlen_def)
  next
    case False
    from False "1.prems" have e: "take (dst_size - 1) (takeWhile (\<lambda>c. c \<noteq> 0) (drop l src)) = []"
      by (auto simp: cstr_at_0_takeWhile not_less le_Suc_eq)
    from False "1.prems" show ?thesis
      unfolding e by (subst strlcpy_from.simps) (auto simp: buf_write_def upd_conv_take_nth_drop)
  qed
qed

text \<open>
  \<open>OPENSSL_strlcpy\<close> into a buffer with room for at least one byte always terminates
  the copy: the buffer then starts with the longest prefix of the source string that fits
  in \<open>dst_size - 1\<close> characters and a NUL, nothing beyond is written, and the result is
  the length the copy would have needed.
\<close>

theorem OPENSSL_strlcpy_spec:
  assumes "0 < dst_size" "dst_size \<le> length dst"
  shows "OPENSSL_strlcpy dst src dst_size =
    (buf_write dst 0 (take (dst_size - 1) (takeWhile (\<lambda>c. c \<noteq> 0) src) @ [0]), strlen src)"
  using strlcpy_from_spec [of dst_size 0 0 dst src] assms by (simp add: OPENSSL_strlcpy_def)

theorem OPENSSL_strlcpy_spec_witness:
  "OPENSSL_strlcpy [9, 9, 9, 9] [1, 2, 3, 4, 5] 3 = ([1, 2, 0, 9], 5)"
  using OPENSSL_strlcpy_spec [of 3 "[9, 9, 9, 9]" "[1, 2, 3, 4, 5]"]
  by (simp add: buf_write_def strlen_def)

end
