(* ===== verification/Cbs.thy ===== *)
theory Cbs
  imports Mem
begin

text \<open>
  The byte string reader of \<^verbatim>\<open>crypto/bytestring/cbs.c\<close>.

  A \<open>CBS\<close> (\<open>data\<close>, \<open>len\<close>) is represented by the \<open>len\<close> bytes that \<open>data\<close>
  points at; advancing it drops bytes at the front. A function that returns 1 or 0 and
  advances its \<open>CBS *\<close> is an \<open>op\<close>: \<open>Some\<close> of its outputs or \<open>None\<close>, with
  the \<open>CBS\<close> as the call leaves it, also when it fails. What a failing call wrote through
  its other output pointers is not represented: callers may not read them. A result
  pointer that may be NULL only suppresses an output and is always taken as given.
\<close>

type_synonym CBS = "u8 list"
type_synonym CBS_ASN1_TAG = "32 word"

abbreviation CBS_ASN1_TAG_SHIFT :: nat where "CBS_ASN1_TAG_SHIFT \<equiv> 24"
abbreviation CBS_ASN1_CONSTRUCTED :: CBS_ASN1_TAG where "CBS_ASN1_CONSTRUCTED \<equiv> 0x20000000"
abbreviation CBS_ASN1_SEQUENCE :: CBS_ASN1_TAG where "CBS_ASN1_SEQUENCE \<equiv> 0x20000010"
abbreviation CBS_ASN1_TAG_NUMBER_MASK :: CBS_ASN1_TAG where "CBS_ASN1_TAG_NUMBER_MASK \<equiv> 0x1fffffff"
abbreviation CBS_ASN1_BOOLEAN :: CBS_ASN1_TAG where "CBS_ASN1_BOOLEAN \<equiv> 1"
abbreviation CBS_ASN1_INTEGER :: CBS_ASN1_TAG where "CBS_ASN1_INTEGER \<equiv> 2"
abbreviation CBS_ASN1_OCTETSTRING :: CBS_ASN1_TAG where "CBS_ASN1_OCTETSTRING \<equiv> 4"

section \<open>Reading bytes and integers\<close>

definition CBS_init :: "u8 list \<Rightarrow> nat \<Rightarrow> CBS" where
  "CBS_init data len = take len data"

definition CBS_data :: "CBS \<Rightarrow> u8 list" where
  "CBS_data cbs = cbs"

definition CBS_len :: "CBS \<Rightarrow> nat" where
  "CBS_len cbs = length cbs"

definition cbs_get :: "nat \<Rightarrow> (CBS, u8 list) op" where
  "cbs_get n cbs = (if CBS_len cbs < n then (None, cbs) else (Some (take n cbs), drop n cbs))"

definition CBS_skip :: "nat \<Rightarrow> (CBS, unit) op" where
  "CBS_skip len = pbind (cbs_get len) (\<lambda>_. pret ())"

text \<open>The result is the return value, \<open>*out_ptr\<close> (\<open>None\<close> for NULL) and \<open>*out_len\<close>.\<close>

definition CBS_stow :: "allocator \<Rightarrow> CBS \<Rightarrow> bool \<times> u8 list option \<times> nat" where
  "CBS_stow al cbs =
     (if CBS_len cbs = 0 then (True, None, 0)
      else case OPENSSL_memdup al (CBS_data cbs) (CBS_len cbs) of
             None \<Rightarrow> (False, None, 0)
           | Some p \<Rightarrow> (True, Some p, CBS_len cbs))"

definition CBS_strdup :: "allocator \<Rightarrow> CBS \<Rightarrow> bool \<times> u8 list option" where
  "CBS_strdup al cbs =
     (let p = OPENSSL_strndup al (CBS_data cbs) (CBS_len cbs) in (p \<noteq> None, p))"

definition CBS_contains_zero_byte :: "CBS \<Rightarrow> bool" where
  "CBS_contains_zero_byte cbs \<longleftrightarrow> OPENSSL_memchr (CBS_data cbs) 0 (CBS_len cbs) \<noteq> None"

definition CBS_mem_equal :: "CBS \<Rightarrow> u8 list \<Rightarrow> nat \<Rightarrow> bool" where
  "CBS_mem_equal cbs data len \<longleftrightarrow>
     (if len \<noteq> CBS_len cbs then False else CRYPTO_memcmp (CBS_data cbs) data len = 0)"

definition cbs_get_u :: "nat \<Rightarrow> (CBS, u64) op" where
  "cbs_get_u len = pbind (cbs_get len)
     (\<lambda>data. pret (fold (\<lambda>i result. push_bit 8 result OR ucast (data ! i)) [0..<len] 0))"

definition CBS_get_u8 :: "(CBS, u8) op" where
  "CBS_get_u8 = pbind (cbs_get 1) (\<lambda>v. pret (v ! 0))"

definition CBS_get_u16 :: "(CBS, u16) op" where
  "CBS_get_u16 = pbind (cbs_get_u 2) (\<lambda>v. pret (ucast v))"

definition CRYPTO_bswap2 :: "u16 \<Rightarrow> u16" where
  "CRYPTO_bswap2 x = drop_bit 8 x OR push_bit 8 x"

definition CRYPTO_bswap4 :: "u32 \<Rightarrow> u32" where
  "CRYPTO_bswap4 x =
     (let x = drop_bit 16 x OR push_bit 16 x
      in drop_bit 8 (x AND 0xff00ff00) OR push_bit 8 (x AND 0x00ff00ff))"

definition CRYPTO_bswap8 :: "u64 \<Rightarrow> u64" where
  "CRYPTO_bswap8 x =
     ucast (CRYPTO_bswap4 (ucast (drop_bit 32 x))) OR push_bit 32 (ucast (CRYPTO_bswap4 (ucast x)))"

definition CBS_get_u16le :: "(CBS, u16) op" where
  "CBS_get_u16le = pbind CBS_get_u16 (\<lambda>v. pret (CRYPTO_bswap2 v))"

definition CBS_get_u24 :: "(CBS, u32) op" where
  "CBS_get_u24 = pbind (cbs_get_u 3) (\<lambda>v. pret (ucast v))"

definition CBS_get_u32 :: "(CBS, u32) op" where
  "CBS_get_u32 = pbind (cbs_get_u 4) (\<lambda>v. pret (ucast v))"

definition CBS_get_u32le :: "(CBS, u32) op" where
  "CBS_get_u32le = pbind CBS_get_u32 (\<lambda>v. pret (CRYPTO_bswap4 v))"

definition CBS_get_u64 :: "(CBS, u64) op" where
  "CBS_get_u64 = cbs_get_u 8"

definition CBS_get_u64le :: "(CBS, u64) op" where
  "CBS_get_u64le = pbind (cbs_get_u 8) (\<lambda>v. pret (CRYPTO_bswap8 v))"

definition CBS_get_last_u8 :: "(CBS, u8) op" where
  "CBS_get_last_u8 cbs =
     (if CBS_len cbs = 0 then (None, cbs)
      else (Some (CBS_data cbs ! (CBS_len cbs - 1)), take (CBS_len cbs - 1) cbs))"

definition CBS_get_bytes :: "nat \<Rightarrow> (CBS, CBS) op" where
  "CBS_get_bytes len = pbind (cbs_get len) (\<lambda>v. pret (CBS_init v len))"

definition CBS_copy_bytes :: "nat \<Rightarrow> (CBS, u8 list) op" where
  "CBS_copy_bytes len = pbind (cbs_get len) pret"

definition cbs_get_length_prefixed :: "nat \<Rightarrow> (CBS, CBS) op" where
  "cbs_get_length_prefixed len_len = pbind (cbs_get_u len_len) (\<lambda>len. CBS_get_bytes (unat len))"

definition CBS_get_u8_length_prefixed :: "(CBS, CBS) op" where
  "CBS_get_u8_length_prefixed = cbs_get_length_prefixed 1"

definition CBS_get_u16_length_prefixed :: "(CBS, CBS) op" where
  "CBS_get_u16_length_prefixed = cbs_get_length_prefixed 2"

definition CBS_get_u24_length_prefixed :: "(CBS, CBS) op" where
  "CBS_get_u24_length_prefixed = cbs_get_length_prefixed 3"

definition CBS_get_until_first :: "u8 \<Rightarrow> (CBS, CBS) op" where
  "CBS_get_until_first c cbs =
     (case OPENSSL_memchr (CBS_data cbs) c (CBS_len cbs) of
        None \<Rightarrow> (None, cbs)
      | Some split \<Rightarrow> CBS_get_bytes split cbs)"

lemma CBS_get_u8_Nil [simp]: "CBS_get_u8 [] = (None, [])"
  by (simp add: CBS_get_u8_def cbs_get_def CBS_len_def op_simps)

lemma CBS_get_u8_Cons [simp]: "CBS_get_u8 (b # bs) = (Some b, bs)"
  by (simp add: CBS_get_u8_def cbs_get_def CBS_len_def op_simps)

lemma CBS_get_u8_shrinks: "CBS_get_u8 cbs = (Some b, cbs') \<Longrightarrow> length cbs' < length cbs"
  by (cases cbs) auto

text \<open>
  The loop of \<open>CBS_get_u64_decimal\<close> with its locals \<open>v\<close> and \<open>seen_digit\<close>. A digit
  that would overflow, or that follows a leading zero, has already been consumed when the
  function fails.
\<close>

function u64_decimal_loop :: "u64 \<Rightarrow> bool \<Rightarrow> (CBS, u64) op" where
  "u64_decimal_loop v seen_digit cbs =
     (if CBS_len cbs \<noteq> 0 \<and> OPENSSL_isdigit (uint (CBS_data cbs ! 0))
      then let c = CBS_data cbs ! 0;
               cbs = snd (CBS_skip 1 cbs)
           in if (v = 0 \<and> seen_digit) \<or> v > (- 1) div 10 \<or> v * 10 > - 1 - (ucast c - 48)
              then (None, cbs)
              else u64_decimal_loop (v * 10 + (ucast c - 48)) True cbs
      else if seen_digit then (Some v, cbs) else (None, cbs))"
  by pat_completeness auto
termination
  by (relation "measure (\<lambda>(v, seen, cbs). length cbs)")
    (auto simp: CBS_skip_def cbs_get_def CBS_len_def op_simps split: if_splits)

definition CBS_get_u64_decimal :: "(CBS, u64) op" where
  "CBS_get_u64_decimal = u64_decimal_loop 0 False"

section \<open>ASN.1 elements\<close>

function base128_loop :: "u64 \<Rightarrow> (CBS, u64) op" where
  "base128_loop v cbs =
     (case CBS_get_u8 cbs of
        (None, cbs') \<Rightarrow> (None, cbs')
      | (Some b, cbs') \<Rightarrow>
          (if drop_bit (64 - 7) v \<noteq> 0 then (None, cbs')
           else if v = 0 \<and> b = 0x80 then (None, cbs')
           else let v = push_bit 7 v OR ucast (b AND 0x7f)
                in if b AND 0x80 \<noteq> 0 then base128_loop v cbs' else (Some v, cbs')))"
  by pat_completeness auto
termination
  by (relation "measure (\<lambda>(v, cbs). length cbs)") (auto dest: CBS_get_u8_shrinks [OF sym])

declare u64_decimal_loop.simps [simp del] base128_loop.simps [simp del]

definition parse_base128_integer :: "(CBS, u64) op" where
  "parse_base128_integer = base128_loop 0"

definition parse_asn1_tag :: "bool \<Rightarrow> (CBS, CBS_ASN1_TAG) op" where
  "parse_asn1_tag universal_tag_ok =
     pbind CBS_get_u8 (\<lambda>tag_byte.
       let tag = push_bit CBS_ASN1_TAG_SHIFT (ucast tag_byte AND 0xe0) :: CBS_ASN1_TAG;
           tag_number = ucast (tag_byte AND 0x1f) :: CBS_ASN1_TAG
       in pbind
            (if tag_number = 0x1f
             then pbind parse_base128_integer (\<lambda>v.
                    if v > ucast CBS_ASN1_TAG_NUMBER_MASK \<or> v < 0x1f then pfail
                    else pret (ucast v))
             else pret tag_number)
            (\<lambda>tag_number.
               let tag = tag OR tag_number
               in if \<not> universal_tag_ok \<and> tag AND NOT CBS_ASN1_CONSTRUCTED = 0 then pfail
                  else pret tag))"

text \<open>
  The outputs of \<open>cbs_get_any_asn1_element\<close>: the element with its header, the tag, the
  header's length, and in BER mode whether a BER-only length form was found and whether
  it was the indefinite one (then \<open>elem_out\<close> is the header alone).
\<close>

record asn1_element =
  elem_out :: CBS
  elem_tag :: CBS_ASN1_TAG
  elem_header_len :: nat
  elem_ber_found :: bool
  elem_indefinite :: bool

text \<open>
  The header is parsed on a copy, so \<open>cbs\<close> only moves in the final \<open>CBS_get_bytes\<close>.
\<close>

definition cbs_get_any_asn1_element :: "bool \<Rightarrow> bool \<Rightarrow> (CBS, asn1_element) op" where
  "cbs_get_any_asn1_element ber_ok universal_tag_ok cbs =
     (case parse_asn1_tag universal_tag_ok cbs of
        (None, _) \<Rightarrow> (None, cbs)
      | (Some tag, header) \<Rightarrow>
     (case CBS_get_u8 header of
        (None, _) \<Rightarrow> (None, cbs)
      | (Some length_byte, header) \<Rightarrow>
          (let header_len = CBS_len cbs - CBS_len header
           in if length_byte AND 0x80 = 0
              then let len = unat length_byte + header_len
                   in pbind (CBS_get_bytes len) (\<lambda>out. pret
                        \<lparr>elem_out = out, elem_tag = tag, elem_header_len = header_len,
                         elem_ber_found = False, elem_indefinite = False\<rparr>) cbs
              else let num_bytes = unat (length_byte AND 0x7f)
                   in if ber_ok \<and> tag AND CBS_ASN1_CONSTRUCTED \<noteq> 0 \<and> num_bytes = 0
                      then pbind (CBS_get_bytes header_len) (\<lambda>out. pret
                             \<lparr>elem_out = out, elem_tag = tag, elem_header_len = header_len,
                              elem_ber_found = True, elem_indefinite = True\<rparr>) cbs
                      else if num_bytes = 0 \<or> num_bytes > 4 then (None, cbs)
                      else case cbs_get_u num_bytes header of
                             (None, _) \<Rightarrow> (None, cbs)
                           | (Some len64, header) \<Rightarrow>
                               (let short_form = len64 < 128;
                                    too_long = drop_bit ((num_bytes - 1) * 8) len64 = 0
                                in if \<not> ber_ok \<and> (short_form \<or> too_long) then (None, cbs)
                                   else let len = unat len64
                                        in if size_add (size_add len header_len) num_bytes < len
                                           then (None, cbs)
                                           else pbind
                                             (CBS_get_bytes (size_add len (size_add header_len num_bytes)))
                                             (\<lambda>out. pret
                                               \<lparr>elem_out = out, elem_tag = tag,
                                                elem_header_len = header_len + num_bytes,
                                                elem_ber_found = short_form \<or> too_long,
                                                elem_indefinite = False\<rparr>) cbs))))"

definition CBS_get_any_asn1_element :: "(CBS, asn1_element) op" where
  "CBS_get_any_asn1_element = cbs_get_any_asn1_element False False"

definition CBS_get_any_ber_asn1_element :: "(CBS, asn1_element) op" where
  "CBS_get_any_ber_asn1_element = cbs_get_any_asn1_element True False"

text \<open>The outputs are the contents and the tag.\<close>

definition CBS_get_any_asn1 :: "(CBS, CBS \<times> CBS_ASN1_TAG) op" where
  "CBS_get_any_asn1 = pbind CBS_get_any_asn1_element (\<lambda>e.
     case CBS_skip (elem_header_len e) (elem_out e) of
       (None, _) \<Rightarrow> pfail
     | (Some _, out) \<Rightarrow> pret (out, elem_tag e))"

definition cbs_get_asn1 :: "CBS_ASN1_TAG \<Rightarrow> bool \<Rightarrow> (CBS, CBS) op" where
  "cbs_get_asn1 tag_value skip_header = pbind CBS_get_any_asn1_element (\<lambda>e.
     if elem_tag e \<noteq> tag_value then pfail
     else if skip_header
     then (case CBS_skip (elem_header_len e) (elem_out e) of
             (None, _) \<Rightarrow> pfail
           | (Some _, out) \<Rightarrow> pret out)
     else pret (elem_out e))"

definition CBS_get_asn1 :: "CBS_ASN1_TAG \<Rightarrow> (CBS, CBS) op" where
  "CBS_get_asn1 tag_value = cbs_get_asn1 tag_value True"

definition CBS_get_asn1_element :: "CBS_ASN1_TAG \<Rightarrow> (CBS, CBS) op" where
  "CBS_get_asn1_element tag_value = cbs_get_asn1 tag_value False"

definition CBS_peek_asn1_tag :: "CBS \<Rightarrow> CBS_ASN1_TAG \<Rightarrow> bool" where
  "CBS_peek_asn1_tag cbs tag_value \<longleftrightarrow>
     (case parse_asn1_tag False cbs of
        (None, _) \<Rightarrow> False
      | (Some actual_tag, _) \<Rightarrow> tag_value = actual_tag)"

text \<open>\<open>Some is_negative\<close> for a return value of 1, \<open>None\<close> for 0.\<close>

definition CBS_is_valid_asn1_integer :: "CBS \<Rightarrow> bool option" where
  "CBS_is_valid_asn1_integer cbs =
     (case CBS_get_u8 cbs of
        (None, _) \<Rightarrow> None
      | (Some first_byte, copy) \<Rightarrow>
          (let is_negative = (first_byte AND 0x80 \<noteq> 0)
           in case CBS_get_u8 copy of
                (None, _) \<Rightarrow> Some is_negative
              | (Some second_byte, _) \<Rightarrow>
                  (if (first_byte = 0 \<and> second_byte AND 0x80 = 0) \<or>
                      (first_byte = 0xff \<and> second_byte AND 0x80 \<noteq> 0)
                   then None else Some is_negative)))"

definition CBS_is_unsigned_asn1_integer :: "CBS \<Rightarrow> bool" where
  "CBS_is_unsigned_asn1_integer cbs \<longleftrightarrow> CBS_is_valid_asn1_integer cbs = Some False"

fun asn1_uint64_loop :: "u64 \<Rightarrow> u8 list \<Rightarrow> u64 option" where
  "asn1_uint64_loop out [] = Some out"
| "asn1_uint64_loop out (b # data) =
     (if drop_bit 56 out \<noteq> 0 then None
      else asn1_uint64_loop (push_bit 8 out OR ucast b) data)"

definition CBS_get_asn1_uint64 :: "(CBS, u64) op" where
  "CBS_get_asn1_uint64 = pbind (CBS_get_asn1 CBS_ASN1_INTEGER) (\<lambda>bytes.
     if \<not> CBS_is_unsigned_asn1_integer bytes then pfail
     else case asn1_uint64_loop 0 (CBS_data bytes) of None \<Rightarrow> pfail | Some v \<Rightarrow> pret v)"

text \<open>
  \<open>sign_extend\<close> is the 8-byte array filled with the sign and then, from its low end, with
  the big-endian contents; \<open>load_le64\<close> is the \<open>memcpy\<close> into an \<open>int64_t\<close> on a
  little-endian machine. The \<open>int64_t\<close> is the 64-bit pattern.
\<close>

definition load_le64 :: "u8 list \<Rightarrow> u64" where
  "load_le64 bs = fold (\<lambda>i w. w OR push_bit (8 * i) (ucast (bs ! i))) [0..<8] 0"

definition CBS_get_asn1_int64 :: "(CBS, u64) op" where
  "CBS_get_asn1_int64 = pbind (CBS_get_asn1 CBS_ASN1_INTEGER) (\<lambda>bytes.
     case CBS_is_valid_asn1_integer bytes of
       None \<Rightarrow> pfail
     | Some is_negative \<Rightarrow>
         (let data = CBS_data bytes; len = CBS_len bytes
          in if len > 8 then pfail
             else let sign_extend = replicate 8 (if is_negative then 0xff else 0);
                      sign_extend = fold (\<lambda>i s. s[i := data ! (len - i - 1)]) [0..<min len 8] sign_extend
                  in pret (load_le64 sign_extend)))"

definition CBS_get_asn1_bool :: "(CBS, bool) op" where
  "CBS_get_asn1_bool = pbind (CBS_get_asn1 CBS_ASN1_BOOLEAN) (\<lambda>bytes.
     if CBS_len bytes \<noteq> 1 then pfail
     else let value = CBS_data bytes ! 0
          in if value \<noteq> 0 \<and> value \<noteq> 0xff then pfail else pret (value \<noteq> 0))"

text \<open>The output is \<open>Some contents\<close> when the element is present.\<close>

definition CBS_get_optional_asn1 :: "CBS_ASN1_TAG \<Rightarrow> (CBS, CBS option) op" where
  "CBS_get_optional_asn1 tag cbs =
     (if CBS_peek_asn1_tag cbs tag then pbind (CBS_get_asn1 tag) (\<lambda>out. pret (Some out)) cbs
      else (Some None, cbs))"

definition CBS_get_optional_asn1_octet_string :: "CBS_ASN1_TAG \<Rightarrow> (CBS, CBS \<times> bool) op" where
  "CBS_get_optional_asn1_octet_string tag = pbind (CBS_get_optional_asn1 tag) (\<lambda>child.
     case child of
       Some child \<Rightarrow>
         (case CBS_get_asn1 CBS_ASN1_OCTETSTRING child of
            (None, _) \<Rightarrow> pfail
          | (Some out, child) \<Rightarrow> if CBS_len child \<noteq> 0 then pfail else pret (out, True))
     | None \<Rightarrow> pret (CBS_init [] 0, False))"

definition CBS_get_optional_asn1_uint64 :: "CBS_ASN1_TAG \<Rightarrow> u64 \<Rightarrow> (CBS, u64) op" where
  "CBS_get_optional_asn1_uint64 tag default_value = pbind (CBS_get_optional_asn1 tag) (\<lambda>child.
     case child of
       Some child \<Rightarrow>
         (case CBS_get_asn1_uint64 child of
            (None, _) \<Rightarrow> pfail
          | (Some out, child) \<Rightarrow> if CBS_len child \<noteq> 0 then pfail else pret out)
     | None \<Rightarrow> pret default_value)"

definition CBS_get_optional_asn1_int64 :: "CBS_ASN1_TAG \<Rightarrow> u64 \<Rightarrow> (CBS, u64) op" where
  "CBS_get_optional_asn1_int64 tag default_value = pbind (CBS_get_optional_asn1 tag) (\<lambda>child.
     case child of
       Some child \<Rightarrow>
         (case CBS_get_asn1_int64 child of
            (None, _) \<Rightarrow> pfail
          | (Some out, child) \<Rightarrow> if CBS_len child \<noteq> 0 then pfail else pret out)
     | None \<Rightarrow> pret default_value)"

definition CBS_get_optional_asn1_bool :: "CBS_ASN1_TAG \<Rightarrow> bool \<Rightarrow> (CBS, bool) op" where
  "CBS_get_optional_asn1_bool tag default_value = pbind (CBS_get_optional_asn1 tag) (\<lambda>child.
     case child of
       Some child \<Rightarrow>
         (case CBS_get_asn1 CBS_ASN1_BOOLEAN child of
            (None, _) \<Rightarrow> pfail
          | (Some child2, child) \<Rightarrow>
              (if CBS_len child2 \<noteq> 1 \<or> CBS_len child \<noteq> 0 then pfail
               else let boolean = CBS_data child2 ! 0
                    in if boolean = 0 then pret False
                       else if boolean = 0xff then pret True
                       else pfail))
     | None \<Rightarrow> pret default_value)"

section \<open>Validity of primitive encodings\<close>

definition CBS_is_valid_asn1_bitstring :: "CBS \<Rightarrow> bool" where
  "CBS_is_valid_asn1_bitstring cbs \<longleftrightarrow>
     (case CBS_get_u8 cbs of
        (None, _) \<Rightarrow> False
      | (Some num_unused_bits, in') \<Rightarrow>
          (if num_unused_bits > 7 then False
           else if num_unused_bits = 0 then True
           else case CBS_get_last_u8 in' of
                  (None, _) \<Rightarrow> False
                | (Some last_byte, _) \<Rightarrow> last_byte AND (push_bit (unat num_unused_bits) 1 - 1) = 0))"

definition CBS_asn1_bitstring_has_bit :: "CBS \<Rightarrow> nat \<Rightarrow> bool" where
  "CBS_asn1_bitstring_has_bit cbs n \<longleftrightarrow>
     (if \<not> CBS_is_valid_asn1_bitstring cbs then False
      else let byte_num = n div 8 + 1;
               bit_num = 7 - n mod 8
           in byte_num < CBS_len cbs \<and> CBS_data cbs ! byte_num AND push_bit bit_num 1 \<noteq> 0)"

fun asn1_oid_loop :: "u8 \<Rightarrow> CBS \<Rightarrow> bool" where
  "asn1_oid_loop prev [] = (prev AND 0x80 = 0)"
| "asn1_oid_loop prev (v # copy) =
     (if prev AND 0x80 = 0 \<and> v = 0x80 then False else asn1_oid_loop v copy)"

definition CBS_is_valid_asn1_oid :: "CBS \<Rightarrow> bool" where
  "CBS_is_valid_asn1_oid cbs \<longleftrightarrow> (if CBS_len cbs = 0 then False else asn1_oid_loop 0 cbs)"

end
