(* ===== verification/CbsCodec.thy ===== *)
theory CbsCodec
  imports Cbs
begin

text \<open>
  The wire formats the reader of theory \<open>Cbs\<close> accepts, as encoders, and the interface
  that ties an encoder to a reader: every reader below accepts exactly the encodings of
  its format and returns the encoded value and the unread rest.
\<close>

section \<open>The interface between a wire format and its reader\<close>

locale codec =
  fixes enc :: "'a \<Rightarrow> u8 list"
    and valid :: "'a \<Rightarrow> bool"
    and get :: "(CBS, 'a) op"
  assumes get_enc: "valid v \<Longrightarrow> get (enc v @ rest) = (Some v, rest)"
    and get_sound: "get cbs = (Some v, rest) \<Longrightarrow> valid v \<and> cbs = enc v @ rest"
begin

lemma get_iff: "get cbs = (Some v, rest) \<longleftrightarrow> valid v \<and> cbs = enc v @ rest"
  using get_enc get_sound by blast

text \<open>The format is prefix-free, so concatenated encodings parse in one way only.\<close>

lemma prefix_free:
  assumes "valid v" "valid w" "enc v @ xs = enc w @ ys"
  shows "v = w \<and> xs = ys"
proof -
  have "get (enc w @ ys) = (Some v, xs)"
    using get_enc [OF assms(1), of xs] by (simp only: assms(3))
  with get_enc [OF assms(2), of ys] show ?thesis by simp
qed

lemma enc_inject: "valid v \<Longrightarrow> valid w \<Longrightarrow> enc v = enc w \<longleftrightarrow> v = w"
  by (metis prefix_free)

lemma fails_iff: "fst (get cbs) = None \<longleftrightarrow> \<not> (\<exists>v rest. valid v \<and> cbs = enc v @ rest)"
proof -
  have "fst (get cbs) = None \<longleftrightarrow> \<not> (\<exists>v rest. get cbs = (Some v, rest))"
    by (cases "get cbs") auto
  then show ?thesis by (simp add: get_iff)
qed

text \<open>Reading after reading: the second reader starts where the first one stopped.\<close>

lemma get_then: "valid v \<Longrightarrow> pbind get f (enc v @ rest) = f v rest"
  by (simp add: pbind_def get_enc)

end

section \<open>Fixed-width integers\<close>

lemma cbs_get_iff: "cbs_get n cbs = (Some p, rest) \<longleftrightarrow> length p = n \<and> cbs = p @ rest"
  by (auto simp: cbs_get_def CBS_len_def)

lemma cbs_get_None_iff: "fst (cbs_get n cbs) = None \<longleftrightarrow> length cbs < n"
  by (simp add: cbs_get_def CBS_len_def)

text \<open>The accumulation loop of \<open>cbs_get_u\<close> computes the big-endian value.\<close>

lemma get_u_fold:
  assumes "n \<le> length data" "n \<le> 8"
  shows "unat (fold (\<lambda>i result. push_bit 8 result OR ucast (data ! i)) [0..<n] (0 :: u64)) =
         be_val (take n data)"
  using assms
proof (induction n)
  case 0
  show ?case by simp
next
  case (Suc n)
  let ?v = "fold (\<lambda>i result. push_bit 8 result OR ucast (data ! i)) [0..<n] (0 :: u64)"
  have IH: "unat ?v = be_val (take n data)" using Suc by simp
  have "be_val (take n data) < 256 ^ n"
    using be_val_less [of "take n data"] Suc.prems by simp
  moreover have "(256::nat) ^ n \<le> 256 ^ 7"
    using Suc.prems by (intro power_increasing) simp_all
  ultimately have "be_val (take n data) * 256 + 255 \<le> SIZE_MAX" by simp
  with IH Suc.prems show ?case
    by (simp add: unat_shift_in_byte_64 take_Suc_conv_app_nth)
qed

lemma cbs_get_u_iff:
  assumes "n \<le> 8"
  shows "cbs_get_u n cbs = (Some v, rest) \<longleftrightarrow> unat v < 256 ^ n \<and> cbs = be_bytes n (unat v) @ rest"
proof
  assume "cbs_get_u n cbs = (Some v, rest)"
  then obtain p where p: "length p = n" "cbs = p @ rest"
    and v: "v = fold (\<lambda>i result. push_bit 8 result OR ucast (p ! i)) [0..<n] 0"
    by (auto simp: cbs_get_u_def pbind_eq_Some cbs_get_iff)
  then have "unat v = be_val p"
    using get_u_fold [of n p] assms by simp
  with p show "unat v < 256 ^ n \<and> cbs = be_bytes n (unat v) @ rest"
    using be_val_less [of p] be_bytes_be_val [of p] by simp
next
  assume *: "unat v < 256 ^ n \<and> cbs = be_bytes n (unat v) @ rest"
  let ?p = "be_bytes n (unat v)"
  have "unat (fold (\<lambda>i result. push_bit 8 result OR ucast (?p ! i)) [0..<n] (0 :: u64)) = unat v"
    using get_u_fold [of n ?p] assms * by (simp add: be_val_be_bytes)
  then have "fold (\<lambda>i result. push_bit 8 result OR ucast (?p ! i)) [0..<n] 0 = v"
    by (simp add: word_unat_eq_iff)
  with * show "cbs_get_u n cbs = (Some v, rest)"
    by (simp add: cbs_get_u_def pbind_eq_Some cbs_get_iff)
qed

lemma cbs_get_u_None: "fst (cbs_get_u n cbs) = None \<longleftrightarrow> length cbs < n"
  by (auto simp: cbs_get_u_def cbs_get_def CBS_len_def op_simps)

lemma unat_ucast_down:
  fixes v :: u64
  assumes "unat v < 2 ^ LENGTH('b)"
  shows "unat (ucast v :: 'b::len word) = unat v"
  using assms by (simp add: unsigned_ucast_eq take_bit_eq_mod)

text \<open>
  A narrowing reader \<open>v \<mapsto> (uintN_t)v\<close> after \<open>cbs_get_u\<close> loses nothing: the value
  already fits. This gives one law for every width.
\<close>

lemma get_narrow_iff:
  assumes "n \<le> 8" "8 * n \<le> LENGTH('b)" "LENGTH('b) \<le> 64"
  shows "pbind (cbs_get_u n) (\<lambda>v. pret (ucast v :: 'b::len word)) cbs = (Some w, rest) \<longleftrightarrow>
         unat w < 256 ^ n \<and> cbs = be_bytes n (unat w) @ rest"
proof -
  have p: "(256::nat) ^ n = 2 ^ (8 * n)" by (simp add: power_mult)
  then have le: "(256::nat) ^ n \<le> 2 ^ LENGTH('b)"
    using assms(2) by (simp add: power_increasing)
  show ?thesis
  proof
    assume "pbind (cbs_get_u n) (\<lambda>v. pret (ucast v :: 'b word)) cbs = (Some w, rest)"
    then obtain v where "cbs_get_u n cbs = (Some v, rest)" and w: "w = ucast v"
      by (auto simp: pbind_eq_Some)
    then have v: "unat v < 256 ^ n" "cbs = be_bytes n (unat v) @ rest"
      using assms(1) by (simp_all add: cbs_get_u_iff)
    moreover have "unat w = unat v"
      using v w le by (simp add: unat_ucast_down)
    ultimately show "unat w < 256 ^ n \<and> cbs = be_bytes n (unat w) @ rest" by simp
  next
    assume w: "unat w < 256 ^ n \<and> cbs = be_bytes n (unat w) @ rest"
    have "unat w < 2 ^ LENGTH('b)" by (rule unsigned_less)
    also have "\<dots> \<le> 2 ^ 64" using assms(3) by (intro power_increasing) simp_all
    finally have "unat w < 2 ^ 64" .
    then have u: "unat (ucast w :: u64) = unat w"
      by (simp add: unsigned_ucast_eq take_bit_eq_mod)
    moreover have "(ucast (ucast w :: u64) :: 'b word) = w"
      using u le w unat_ucast_down [of "ucast w :: u64", where 'b = 'b]
      by (simp add: word_unat_eq_iff)
    ultimately show "pbind (cbs_get_u n) (\<lambda>v. pret (ucast v :: 'b word)) cbs = (Some w, rest)"
      using w assms(1) by (auto simp: pbind_eq_Some cbs_get_u_iff intro!: exI [of _ "ucast w"])
  qed
qed

interpretation u8_codec: codec "\<lambda>v. [v]" "\<lambda>_. True" CBS_get_u8
proof
  fix cbs v rest assume "CBS_get_u8 cbs = (Some v, rest)"
  then show "True \<and> cbs = [v] @ rest" by (cases cbs) auto
qed simp

interpretation u16_codec: codec "\<lambda>v. be_bytes 2 (unat v)" "\<lambda>_. True" CBS_get_u16
  by unfold_locales (simp_all add: CBS_get_u16_def get_narrow_iff unat_u16_less)

interpretation u24_codec: codec "\<lambda>v. be_bytes 3 (unat v)" "\<lambda>v. unat v < 2 ^ 24" CBS_get_u24
  by unfold_locales (simp_all add: CBS_get_u24_def get_narrow_iff)

interpretation u32_codec: codec "\<lambda>v. be_bytes 4 (unat v)" "\<lambda>_. True" CBS_get_u32
  by unfold_locales (simp_all add: CBS_get_u32_def get_narrow_iff unat_u32_less)

interpretation u64_codec: codec "\<lambda>v. be_bytes 8 (unat v)" "\<lambda>_. True" CBS_get_u64
  by unfold_locales (simp_all add: CBS_get_u64_def cbs_get_u_iff unat_u64_less)

end
