(* ===== verification/DerCodec.thy ===== *)
theory DerCodec
  imports CbsCodec
begin

text \<open>
  DER wire formats and the readers of theory \<open>Cbs\<close>: base-128 integers, identifiers,
  lengths and elements (ITU-T X.690, sections 8.1 and 10.1). The reader accepts exactly
  the canonical encodings.
\<close>

section \<open>The formats\<close>

fun b128_digits :: "nat \<Rightarrow> nat list" where
  "b128_digits n = (if n = 0 then [] else b128_digits (n div 128) @ [n mod 128])"

declare b128_digits.simps [simp del]

definition b128_cont :: "nat list \<Rightarrow> u8 list" where
  "b128_cont ds = map (\<lambda>d. of_nat (128 + d)) ds"

definition base128_bytes :: "nat \<Rightarrow> u8 list" where
  "base128_bytes n = b128_cont (b128_digits (n div 128)) @ [of_nat (n mod 128)]"

text \<open>
  A tag holds class and constructed bit in its three top bits and the tag number below.
  Numbers from 31 on use the high-tag-number form.
\<close>

definition der_tag :: "CBS_ASN1_TAG \<Rightarrow> u8 list" where
  "der_tag tag =
     (let c = unat tag div 2 ^ 29; k = unat tag mod 2 ^ 29
      in if k < 31 then [of_nat (c * 32 + k)] else of_nat (c * 32 + 31) # base128_bytes k)"

definition der_length :: "nat \<Rightarrow> u8 list" where
  "der_length n =
     (if n < 2 ^ 7 then [of_nat n]
      else if n < 2 ^ 8 then 0x81 # be_bytes 1 n
      else if n < 2 ^ 16 then 0x82 # be_bytes 2 n
      else if n < 2 ^ 24 then 0x83 # be_bytes 3 n
      else 0x84 # be_bytes 4 n)"

definition der_header :: "CBS_ASN1_TAG \<Rightarrow> nat \<Rightarrow> u8 list" where
  "der_header tag n = der_tag tag @ der_length n"

definition der_element :: "CBS_ASN1_TAG \<Rightarrow> u8 list \<Rightarrow> u8 list" where
  "der_element tag contents = der_header tag (length contents) @ contents"

definition der_tag_valid :: "CBS_ASN1_TAG \<Rightarrow> bool" where
  "der_tag_valid tag \<longleftrightarrow> tag AND NOT CBS_ASN1_CONSTRUCTED \<noteq> 0"

section \<open>Base-128 integers\<close>

lemma b128_digits_0 [simp]: "b128_digits 0 = []"
  by (subst b128_digits.simps) simp

lemma b128_digits_snoc: "d < 128 \<Longrightarrow> m * 128 + d \<noteq> 0 \<Longrightarrow> b128_digits (m * 128 + d) = b128_digits m @ [d]"
  by (subst b128_digits.simps) auto

lemma b128_digits_bound: "\<forall>d \<in> set (b128_digits n). d < 128"
proof (induction n rule: b128_digits.induct)
  case (1 n)
  show ?case
    by (subst b128_digits.simps) (use 1 in auto)
qed

lemma b128_digits_hd: "n \<noteq> 0 \<Longrightarrow> b128_digits n \<noteq> [] \<and> hd (b128_digits n) \<noteq> 0"
proof (induction n rule: b128_digits.induct)
  case (1 n)
  show ?case
  proof (cases "n div 128 = 0")
    case True
    with "1.prems" show ?thesis by (subst (1 2) b128_digits.simps) simp
  next
    case False
    with 1 show ?thesis by (subst (1 2) b128_digits.simps) (simp add: hd_append)
  qed
qed

lemma length_b128_digits: "n < 128 ^ k \<Longrightarrow> length (b128_digits n) \<le> k"
proof (induction k arbitrary: n)
  case (Suc k)
  then have "n div 128 < 128 ^ k" by (simp add: less_mult_imp_div_less mult.commute)
  with Suc.IH show ?case by (subst b128_digits.simps) auto
qed simp

lemma b128_digits_value: "foldl (\<lambda>v d. v * 128 + d) 0 (b128_digits n) = n"
proof (induction n rule: b128_digits.induct)
  case (1 n)
  show ?case
    by (subst b128_digits.simps) (use 1 in auto)
qed

lemma foldl_b128_ge: "v * 128 ^ length ds \<le> foldl (\<lambda>v d. v * 128 + d) v (ds :: nat list)"
proof (induction ds arbitrary: v)
  case (Cons d ds)
  have "v * 128 ^ length (d # ds) \<le> (v * 128 + d) * 128 ^ length ds" by simp
  also note Cons.IH [of "v * 128 + d"]
  finally show ?case by simp
qed simp

lemma base128_step:
  assumes "unat v < 2 ^ 57"
  shows "unat (push_bit 7 (v :: u64) OR ucast ((b :: u8) AND 127)) = unat v * 128 + unat b mod 128"
  using unat_push_bit_or [of v 7 "ucast (b AND 127)"] assms by (simp add: unat_and_127)

lemma base128_loop_Nil [simp]: "base128_loop v [] = (None, [])"
  by (subst base128_loop.simps) simp

lemma byte_eq_128: "(b :: u8) = 128 \<longleftrightarrow> unat b = 128"
  by (simp add: word_unat_eq_iff)

lemma byte_high_mod: "128 \<le> unat (b :: u8) \<Longrightarrow> unat b mod 128 = unat b - 128"
proof -
  assume "128 \<le> unat b"
  moreover have "unat b - 128 < 128" using unat_byte_less [of b] by linarith
  ultimately show ?thesis by (simp add: le_mod_geq)
qed

lemma base128_loop_Cons:
  "base128_loop v (b # cs) =
     (if 2 ^ 57 \<le> unat v \<or> (v = 0 \<and> unat b = 128) then (None, cs)
      else let v' = push_bit 7 v OR ucast (b AND 127)
           in if 128 \<le> unat b then base128_loop v' cs else (Some v', cs))"
proof -
  have "drop_bit (64 - 7) v \<noteq> 0 \<longleftrightarrow> 2 ^ 57 \<le> unat v"
    by (simp add: drop_bit_eq_0_unat not_less)
  moreover have "b AND 128 \<noteq> 0 \<longleftrightarrow> 128 \<le> unat b"
    by (simp add: byte_and_128 not_less)
  ultimately show ?thesis
    by (subst base128_loop.simps) (simp add: byte_eq_128)
qed

lemma byte_of_nat_high: "d < 128 \<Longrightarrow> unat (of_nat (128 + d) :: u8) = 128 + d"
  by (simp only: unat_of_nat_byte) simp

lemma byte_cont_digit: "128 \<le> unat (b :: u8) \<Longrightarrow> of_nat (128 + unat b mod 128) = b"
  by (simp add: byte_high_mod)

lemma base128_loop_sound:
  "base128_loop v cbs = (Some w, rest) \<Longrightarrow>
     \<exists>bs. cbs = bs @ rest \<and> b128_cont (b128_digits (unat v)) @ bs = base128_bytes (unat w)"
proof (induction cbs arbitrary: v)
  case Nil
  then show ?case by simp
next
  case (Cons b cs)
  let ?v = "push_bit 7 v OR ucast (b AND 127) :: u64"
  from Cons.prems have v: "unat v < 2 ^ 57" and nz: "\<not> (v = 0 \<and> unat b = 128)"
    by (auto simp: base128_loop_Cons split: if_splits)
  note u = base128_step [OF v, of b]
  show ?case
  proof (cases "128 \<le> unat b")
    case True
    with Cons.prems v nz obtain bs where bs: "cs = bs @ rest"
      "b128_cont (b128_digits (unat ?v)) @ bs = base128_bytes (unat w)"
      using Cons.IH [of ?v] by (auto simp: base128_loop_Cons Let_def)
    from True nz have "unat v * 128 + unat b mod 128 \<noteq> 0"
      using unat_gt_0 [of v] byte_high_mod [of b] by (cases "v = 0") auto
    then have "b128_digits (unat ?v) = b128_digits (unat v) @ [unat b mod 128]"
      unfolding u by (intro b128_digits_snoc) simp_all
    with bs True show ?thesis
      by (intro exI [of _ "b # bs"]) (simp add: b128_cont_def byte_cont_digit del: of_nat_add)
  next
    case False
    with Cons.prems v nz have "w = ?v" "cs = rest"
      by (auto simp: base128_loop_Cons Let_def)
    with False u show ?thesis
      by (intro exI [of _ "[b]"]) (simp add: base128_bytes_def)
  qed
qed

lemma base128_loop_complete:
  assumes "\<forall>d \<in> set ds. d < 128" "d < 128" "v \<noteq> 0 \<or> ds = [] \<or> hd ds \<noteq> 0"
    and "unat w = foldl (\<lambda>v d. v * 128 + d) (unat v) (ds @ [d])"
  shows "base128_loop v (b128_cont ds @ [of_nat d] @ rest) = (Some w, rest)"
  using assms
proof (induction ds arbitrary: v)
  case Nil
  from Nil.prems(4) have "unat v * 128 < 2 ^ 64"
    using unat_u64_less [of w] by simp
  then have v: "unat v < 2 ^ 57" by simp
  from Nil v show ?case
    using base128_step [OF v, of "of_nat d"]
    by (simp add: b128_cont_def base128_loop_Cons word_unat_eq_iff)
next
  case (Cons e ds)
  let ?b = "of_nat (128 + e) :: u8"
  from Cons.prems(1) have e: "e < 128" by simp
  have "unat v * 128 ^ length (e # ds @ [d]) \<le> unat w"
    using foldl_b128_ge [of "unat v" "e # ds @ [d]"] Cons.prems(4) by simp
  moreover have "unat v * 128 \<le> unat v * 128 ^ length (e # ds @ [d])"
    by simp
  ultimately have "unat v * 128 < 18446744073709551616"
    using unat_u64_less [of w] by linarith
  then have v: "unat v < 2 ^ 57" by simp
  have b: "unat ?b = 128 + e" using e by (rule byte_of_nat_high)
  have u: "unat (push_bit 7 v OR ucast (?b AND 127)) = unat v * 128 + e"
    using base128_step [OF v, of ?b] b e by simp
  have nz: "v \<noteq> 0 \<or> e \<noteq> 0" using Cons.prems(3) by simp
  have "base128_loop (push_bit 7 v OR ucast (?b AND 127)) (b128_cont ds @ [of_nat d] @ rest) = (Some w, rest)"
  proof (rule Cons.IH)
    show "push_bit 7 v OR ucast (?b AND 127) \<noteq> 0 \<or> ds = [] \<or> hd ds \<noteq> 0"
      using u nz by (metis add_is_0 mult_is_0 unat_eq_0 zero_neq_numeral)
  qed (use Cons.prems u in simp_all)
  with v b nz show ?case
    by (simp add: b128_cont_def base128_loop_Cons Let_def del: of_nat_add)
qed

interpretation base128_codec: codec "\<lambda>v. base128_bytes (unat v)" "\<lambda>_. True" parse_base128_integer
proof
  fix v :: u64 and rest
  show "parse_base128_integer (base128_bytes (unat v) @ rest) = (Some v, rest)"
    using base128_loop_complete [of "b128_digits (unat v div 128)" "unat v mod 128" 0 v rest]
      b128_digits_bound [of "unat v div 128"] b128_digits_hd [of "unat v div 128"]
    by (cases "unat v div 128 = 0")
      (simp_all add: parse_base128_integer_def base128_bytes_def b128_digits_value)
next
  fix cbs v rest assume "parse_base128_integer cbs = (Some v, rest)"
  then show "True \<and> cbs = base128_bytes (unat v) @ rest"
    using base128_loop_sound [of 0 cbs v rest] by (auto simp: parse_base128_integer_def b128_cont_def)
qed

section \<open>Identifiers and lengths\<close>

lemma length_base128_bytes: "n < 2 ^ 29 \<Longrightarrow> length (base128_bytes n) \<le> 5"
  using length_b128_digits [of "n div 128" 4] by (simp add: base128_bytes_def b128_cont_def)

lemma length_der_tag: "1 \<le> length (der_tag tag)" "length (der_tag tag) \<le> 6"
  using length_base128_bytes [of "unat tag mod 2 ^ 29"] by (auto simp: der_tag_def Let_def)

lemma unat_tag_number_mask: "unat (tag AND CBS_ASN1_TAG_NUMBER_MASK) = unat tag mod 2 ^ 29"
  using unat_and_mask [of "CBS_ASN1_TAG_NUMBER_MASK" 29 tag] by (simp add: mask_eq_exp_minus_1)

text \<open>The tag that \<open>parse_asn1_tag\<close> assembles from class bits and number.\<close>

definition tag_of :: "nat \<Rightarrow> nat \<Rightarrow> CBS_ASN1_TAG" where
  "tag_of c k = of_nat (c * 2 ^ 29 + k)"

lemma unat_tag_of: "c < 8 \<Longrightarrow> k < 2 ^ 29 \<Longrightarrow> unat (tag_of c k) = c * 2 ^ 29 + k"
  unfolding tag_of_def unat_of_nat by simp

lemma tag_of_split: "tag_of (unat tag div 2 ^ 29) (unat tag mod 2 ^ 29) = tag"
  unfolding tag_of_def by (simp only: div_mult_mod_eq) simp

lemma assemble_tag:
  fixes tb :: u8 and n :: CBS_ASN1_TAG
  assumes "unat n < 2 ^ 29"
  shows "push_bit CBS_ASN1_TAG_SHIFT (ucast tb AND 0xe0) OR n = tag_of (unat tb div 32) (unat n)"
proof -
  have t: "unat tb div 32 < 8" using unat_byte_less [of tb] by linarith
  have "unat (ucast tb AND 0xe0 :: CBS_ASN1_TAG) = unat tb div 32 * 32"
    using t unat_and_high3 [where 'a = 32, of "ucast tb"]
    by (simp add: unsigned_ucast_eq take_bit_eq_mod order_less_trans [OF unat_byte_less])
  then have "unat (push_bit CBS_ASN1_TAG_SHIFT (ucast tb AND 0xe0) :: CBS_ASN1_TAG) = unat tb div 32 * 2 ^ 29"
    using t by (subst unat_push_bit) simp_all
  then have "unat (push_bit CBS_ASN1_TAG_SHIFT (ucast tb AND 0xe0) OR n) = unat tb div 32 * 2 ^ 29 + unat n"
    using assms by (subst unat_or_disjoint [where n = 29]) simp_all
  with t assms show ?thesis
    by (simp add: word_unat_eq_iff unat_tag_of)
qed

text \<open>
  \<open>parse_asn1_tag\<close> on a byte list, with the bit operations gone: low form, high form
  with a minimal base-128 number of at least 31 and below \<open>2 ^ 29\<close>, or failure.
\<close>

lemma unat_low5: "unat (ucast ((tb :: u8) AND 0x1f) :: CBS_ASN1_TAG) = unat tb mod 32"
proof -
  have "unat tb mod 32 < 2 ^ 32" by (rule less_trans [of _ 32]) simp_all
  then show ?thesis by (simp add: unsigned_ucast_eq take_bit_eq_mod unat_and_31)
qed

lemma parse_asn1_tag_Cons:
  "parse_asn1_tag False (tb # cs) =
     (let c = unat tb div 32
      in if unat tb mod 32 \<noteq> 31
         then (if der_tag_valid (tag_of c (unat tb mod 32)) then (Some (tag_of c (unat tb mod 32)), cs)
               else (None, cs))
         else case parse_base128_integer cs of
                (None, cs') \<Rightarrow> (None, cs')
              | (Some v, cs') \<Rightarrow>
                  if 31 \<le> unat v \<and> unat v < 2 ^ 29 \<and> der_tag_valid (tag_of c (unat v))
                  then (Some (tag_of c (unat v)), cs') else (None, cs'))"
proof -
  have low: "ucast (tb AND 0x1f) = (0x1f :: CBS_ASN1_TAG) \<longleftrightarrow> unat tb mod 32 = 31"
    by (simp add: word_unat_eq_iff unat_low5)
  have a: "push_bit CBS_ASN1_TAG_SHIFT (ucast tb AND 0xe0) OR ucast (tb AND 0x1f) =
      tag_of (unat tb div 32) (unat tb mod 32)"
    using assemble_tag [of "ucast (tb AND 0x1f)" tb] unat_low5 [of tb]
    by (simp add: order_less_trans [of _ 32])
  have hi: "(v > ucast CBS_ASN1_TAG_NUMBER_MASK \<or> v < 0x1f) \<longleftrightarrow> \<not> (31 \<le> unat v \<and> unat v < 2 ^ 29)" for v :: u64
    by (auto simp: word_less_nat_alt)
  have b: "push_bit CBS_ASN1_TAG_SHIFT (ucast tb AND 0xe0) OR ucast v = tag_of (unat tb div 32) (unat v)"
    if "unat v < 2 ^ 29" for v :: u64
    using assemble_tag [of "ucast v" tb] unat_ucast_down [of v, where 'b = 32] that by simp
  note unf = parse_asn1_tag_def pbind_def pret_def pfail_def CBS_get_u8_Cons prod.case option.case
    Let_def low
  show ?thesis
  proof (cases "unat tb mod 32 = 31")
    case False
    then show ?thesis
      by (simp only: unf a der_tag_valid_def if_False if_True simp_thms) simp
  next
    case True
    then show ?thesis
    proof (cases "parse_base128_integer cs")
      case (Pair r cs')
      show ?thesis
      proof (cases r)
        case None
        with True Pair show ?thesis by (simp only: unf if_True if_False simp_thms)
      next
        case (Some v)
        show ?thesis
        proof (cases "31 \<le> unat v \<and> unat v < 2 ^ 29")
          case vok: True
          then have "unat v < 2 ^ 29" by simp
          note b = b [OF this]
          from True Pair Some vok show ?thesis
            by (simp only: unf if_True if_False simp_thms hi b der_tag_valid_def) simp
        next
          case False
          with True Pair Some show ?thesis
            by (simp only: unf if_True if_False simp_thms hi) auto
        qed
      qed
    qed
  qed
qed

lemma tag_byte_low: "c < 8 \<Longrightarrow> k < 32 \<Longrightarrow> unat (of_nat (c * 32 + k) :: u8) = c * 32 + k"
  by (simp only: unat_of_nat_byte) simp

lemma byte_split_32: "of_nat (unat (tb :: u8) div 32 * 32 + unat tb mod 32) = tb"
  by (simp only: div_mult_mod_eq) simp

interpretation tag_codec: codec der_tag der_tag_valid "parse_asn1_tag False"
proof
  fix tag rest assume v: "der_tag_valid tag"
  let ?c = "unat tag div 2 ^ 29" and ?k = "unat tag mod 2 ^ 29"
  have c: "?c < 8" using unat_u32_less [of tag] by (simp add: less_mult_imp_div_less)
  have t: "tag_of ?c ?k = tag" by (rule tag_of_split)
  show "parse_asn1_tag False (der_tag tag @ rest) = (Some tag, rest)"
  proof (cases "?k < 31")
    case True
    then have "unat (of_nat (?c * 32 + ?k) :: u8) = ?c * 32 + ?k"
      using c by (intro tag_byte_low) simp_all
    with True v t show ?thesis
      by (simp add: der_tag_def Let_def parse_asn1_tag_Cons del: of_nat_add of_nat_mult)
  next
    case False
    have b: "unat (of_nat (?c * 32 + 31) :: u8) = ?c * 32 + 31"
      using c by (intro tag_byte_low) simp_all
    have k: "?k < 2 ^ 29" by simp
    then have u: "unat (of_nat ?k :: u64) = ?k"
      unfolding unat_of_nat by simp
    have "parse_base128_integer (base128_bytes ?k @ rest) = (Some (of_nat ?k), rest)"
      using base128_codec.get_enc [of "of_nat ?k" rest] unfolding u by simp
    with False b k u v t show ?thesis
      by (simp add: der_tag_def Let_def parse_asn1_tag_Cons del: of_nat_add of_nat_mult)
  qed
next
  fix cbs tag rest assume p: "parse_asn1_tag False cbs = (Some tag, rest)"
  then obtain tb cs where cbs: "cbs = tb # cs"
    by (cases cbs) (auto simp: parse_asn1_tag_def op_simps)
  have c: "unat tb div 32 < 8" using unat_byte_less [of tb] by linarith
  show "der_tag_valid tag \<and> cbs = der_tag tag @ rest"
  proof (cases "unat tb mod 32 = 31")
    case False
    then have "unat tb mod 32 < 31"
      using mod_less_divisor [of 32 "unat tb"] by linarith
    with False p cbs c show ?thesis
      by (auto simp: parse_asn1_tag_Cons Let_def der_tag_def unat_tag_of byte_split_32
          simp del: of_nat_add of_nat_mult split: if_splits)
  next
    case True
    with p cbs obtain v where v: "parse_base128_integer cs = (Some v, rest)"
      "31 \<le> unat v" "unat v < 2 ^ 29" "der_tag_valid (tag_of (unat tb div 32) (unat v))"
      and tag: "tag = tag_of (unat tb div 32) (unat v)"
      by (auto simp: parse_asn1_tag_Cons Let_def split: prod.splits option.splits if_splits)
    have "of_nat (unat tb div 32 * 32 + 31) = tb"
      using byte_split_32 [of tb] True by simp
    with v c tag base128_codec.get_sound [OF v(1)] show ?thesis
      by (simp add: cbs der_tag_def Let_def unat_tag_of del: of_nat_add of_nat_mult)
  qed
qed

lemma length_der_length: "1 \<le> length (der_length n)" "length (der_length n) \<le> 5"
  by (simp_all add: der_length_def)

section \<open>Elements\<close>

lemma CBS_get_bytes_iff: "CBS_get_bytes n cbs = (Some out, rest) \<longleftrightarrow> length out = n \<and> cbs = out @ rest"
  by (auto simp: CBS_get_bytes_def CBS_init_def pbind_eq_Some cbs_get_iff)

lemma CBS_get_bytes_fail: "length cbs < n \<Longrightarrow> CBS_get_bytes n cbs = (None, cbs)"
  by (simp add: CBS_get_bytes_def cbs_get_def CBS_len_def op_simps)

text \<open>
  The length octets, read on their own: the DER branch structure of
  \<open>cbs_get_any_asn1_element\<close> after the identifier, as a reader of a number.
\<close>

definition get_der_length :: "(CBS, nat) op" where
  "get_der_length = pbind CBS_get_u8 (\<lambda>lb.
     if unat lb < 128 then pret (unat lb)
     else let nb = unat lb - 128
          in if nb = 0 \<or> nb > 4 then pfail
             else pbind (cbs_get_u nb) (\<lambda>len64.
               if unat len64 < 128 \<or> unat len64 < 256 ^ (nb - 1) then pfail
               else pret (unat len64)))"

lemma nb_cases: "(nb::nat) \<noteq> 0 \<Longrightarrow> nb \<le> 4 \<Longrightarrow> nb = 1 \<or> nb = 2 \<or> nb = 3 \<or> nb = 4"
  by linarith

lemma der_length_long:
  assumes "nb \<noteq> 0" "nb \<le> 4" "128 \<le> n" "256 ^ (nb - 1) \<le> n" "n < 256 ^ nb"
  shows "der_length n = of_nat (128 + nb) # be_bytes nb n"
  using nb_cases [OF assms(1,2)] assms(3-5) by (auto simp: der_length_def)

lemma der_length_cases:
  assumes "n < 2 ^ 32"
  obtains (short) "n < 128" "der_length n = [of_nat n]"
  | (long) nb where "nb \<noteq> 0" "nb \<le> 4" "128 \<le> n" "256 ^ (nb - 1) \<le> n" "n < 256 ^ nb"
      "der_length n = of_nat (128 + nb) # be_bytes nb n"
proof (cases "n < 128")
  case True
  with short show ?thesis by (simp add: der_length_def)
next
  case False
  then consider "n < 2 ^ 8" | "2 ^ 8 \<le> n" "n < 2 ^ 16" | "2 ^ 16 \<le> n" "n < 2 ^ 24" | "2 ^ 24 \<le> n"
    by linarith
  then show ?thesis
  proof cases
    case 1
    with False show ?thesis by (intro long [of 1] der_length_long) simp_all
  next
    case 2
    with False show ?thesis by (intro long [of 2] der_length_long) simp_all
  next
    case 3
    with False show ?thesis by (intro long [of 3] der_length_long) simp_all
  next
    case 4
    with False assms show ?thesis by (intro long [of 4] der_length_long) simp_all
  qed
qed

lemma pow256_le_4: "nb \<le> 4 \<Longrightarrow> (256::nat) ^ nb \<le> 2 ^ 32"
  using power_increasing [of nb 4 "256::nat"] by simp

interpretation length_codec: codec der_length "\<lambda>n. n < 2 ^ 32" get_der_length
proof
  fix n :: nat and rest assume "n < 2 ^ 32"
  then show "get_der_length (der_length n @ rest) = (Some n, rest)"
  proof (cases rule: der_length_cases)
    case short
    then show ?thesis by (simp add: get_der_length_def op_simps)
  next
    case (long nb)
    have u: "unat (of_nat n :: u64) = n"
      using \<open>n < 2 ^ 32\<close> unfolding unat_of_nat by simp
    then have g: "cbs_get_u nb (be_bytes nb n @ rest) = (Some (of_nat n), rest)"
      using long by (simp add: cbs_get_u_iff)
    have lb: "unat (of_nat (128 + nb) :: u8) = 128 + nb"
      using long by (intro byte_of_nat_high) simp
    show ?thesis
      using long(1-5) unfolding long(6) get_der_length_def
      by (simp add: pbind_def lb g u del: of_nat_add)
  qed
next
  fix cbs n rest assume "get_der_length cbs = (Some n, rest)"
  then obtain lb cs where cbs: "cbs = lb # cs" and g: "get_der_length (lb # cs) = (Some n, rest)"
    by (cases cbs) (auto simp: get_der_length_def op_simps)
  show "n < 2 ^ 32 \<and> cbs = der_length n @ rest"
  proof (cases "unat lb < 128")
    case True
    with g show ?thesis
      by (auto simp: cbs get_der_length_def op_simps der_length_def)
  next
    case False
    define nb where "nb = unat lb - 128"
    have lb: "of_nat (128 + nb) = lb" using False by (simp add: nb_def)
    from False g obtain len64 where nb: "nb \<noteq> 0" "nb \<le> 4" and r: "cbs_get_u nb cs = (Some len64, rest)"
      and l: "128 \<le> unat len64" "256 ^ (nb - 1) \<le> unat len64" "n = unat len64"
      by (auto simp: get_der_length_def pbind_eq_Some nb_def Let_def split: if_splits)
    from r nb have "unat len64 < 256 ^ nb" and cs: "cs = be_bytes nb (unat len64) @ rest"
      by (simp_all add: cbs_get_u_iff)
    with nb l have "der_length n = lb # be_bytes nb n" "n < 256 ^ nb"
      using der_length_long [of nb n] by (simp_all add: lb del: of_nat_add)
    with cs l pow256_le_4 [OF nb(2)] show ?thesis by (simp add: cbs)
  qed
qed

text \<open>
  In DER mode the element reader is: identifier, length octets, and then header and
  contents together. The header is at most 11 bytes, so the overflow check of the code
  never fires.
\<close>

definition der_elem :: "CBS_ASN1_TAG \<Rightarrow> u8 list \<Rightarrow> asn1_element" where
  "der_elem tag contents =
     \<lparr>elem_out = der_element tag contents, elem_tag = tag,
      elem_header_len = length (der_header tag (length contents)),
      elem_ber_found = False, elem_indefinite = False\<rparr>"

lemma size_add_header:
  assumes "len < 2 ^ 32" "hl \<le> 7" "nb \<le> 4"
  shows "\<not> size_add (size_add len hl) nb < len" "size_add len (size_add hl nb) = hl + nb + len"
  using assms by (simp_all add: size_add_exact)

lemma unat_u64_128: "len64 < (128 :: u64) \<longleftrightarrow> unat len64 < 128"
  by (simp add: word_less_nat_alt)

lemma drop_byte_digits: "drop_bit ((nb - 1) * 8) (len64 :: u64) = 0 \<longleftrightarrow> unat len64 < 256 ^ (nb - 1)"
proof -
  have "(2::nat) ^ ((nb - 1) * 8) = (2 ^ 8) ^ (nb - 1)"
    by (simp only: power_mult [symmetric] mult.commute)
  then show ?thesis by (simp add: drop_bit_eq_0_unat)
qed

lemma any_asn1_element_alt:
  "CBS_get_any_asn1_element cbs =
     (case parse_asn1_tag False cbs of
        (None, _) \<Rightarrow> (None, cbs)
      | (Some tag, h) \<Rightarrow>
          (case get_der_length h of
             (None, _) \<Rightarrow> (None, cbs)
           | (Some n, h') \<Rightarrow>
               pbind (CBS_get_bytes (length cbs - length h' + n)) (\<lambda>out. pret
                 \<lparr>elem_out = out, elem_tag = tag, elem_header_len = length cbs - length h',
                  elem_ber_found = False, elem_indefinite = False\<rparr>) cbs))"
proof (cases "parse_asn1_tag False cbs")
  case (Pair t h)
  show ?thesis
  proof (cases t)
    case None
    with Pair show ?thesis
      by (simp add: CBS_get_any_asn1_element_def cbs_get_any_asn1_element_def)
  next
    case (Some tag)
    with Pair have cbs: "cbs = der_tag tag @ h"
      using tag_codec.get_sound [of cbs tag h] by simp
    show ?thesis
    proof (cases h)
      case Nil
      with Pair Some show ?thesis
        by (simp add: CBS_get_any_asn1_element_def cbs_get_any_asn1_element_def get_der_length_def op_simps)
    next
      case (Cons lb h1)
      note here = Pair Some Cons
      have hl: "length cbs - length h1 = length (der_tag tag) + 1" "length (der_tag tag) + 1 \<le> 7"
        using length_der_tag [of tag] by (simp_all add: cbs Cons)
      show ?thesis
      proof (cases "unat lb < 128")
        case True
        then have f: "lb AND 0x80 = 0" by (simp add: byte_and_128)
        have "get_der_length h = (Some (unat lb), h1)"
          using True here by (simp add: get_der_length_def pbind_def)
        with here f show ?thesis
          by (simp add: CBS_get_any_asn1_element_def cbs_get_any_asn1_element_def CBS_len_def
              Let_def add.commute [of "unat lb"])
      next
        case False
        then have f: "lb AND 0x80 \<noteq> 0" "unat (lb AND 0x7f) = unat lb - 128"
          by (simp_all add: byte_and_128 unat_and_127 byte_high_mod)
        define nb where "nb = unat lb - 128"
        show ?thesis
        proof (cases "cbs_get_u nb h1")
          case r: (Pair r h2)
          show ?thesis
          proof (cases "nb = 0 \<or> 4 < nb \<or> r = None")
            case True
            with here False f r show ?thesis
              by (auto simp: CBS_get_any_asn1_element_def cbs_get_any_asn1_element_def get_der_length_def
                  nb_def op_simps Let_def)
          next
            case ok: False
            then obtain len64 where len64: "r = Some len64" by auto
            from ok r len64 have l: "unat len64 < 256 ^ nb" "h1 = be_bytes nb (unat len64) @ h2"
              by (simp_all add: cbs_get_u_iff)
            with ok have "unat len64 < 2 ^ 32" using pow256_le_4 [of nb] by simp
            note sa = size_add_header [OF this hl(2), of nb]
            have nb: "nb \<noteq> 0" "\<not> 4 < nb" "nb \<le> 4" using ok by simp_all
            have h2: "length cbs - length h2 = length (der_tag tag) + 1 + nb"
              using l by (simp add: cbs Cons)
            have lhs: "CBS_get_any_asn1_element cbs =
              (if unat len64 < 128 \<or> unat len64 < 256 ^ (nb - 1) then (None, cbs)
               else pbind (CBS_get_bytes (length (der_tag tag) + 1 + nb + unat len64)) (\<lambda>out. pret
                 \<lparr>elem_out = out, elem_tag = tag, elem_header_len = length (der_tag tag) + 1 + nb,
                  elem_ber_found = False, elem_indefinite = False\<rparr>) cbs)"
              unfolding CBS_get_any_asn1_element_def cbs_get_any_asn1_element_def CBS_len_def
              using here f nb r len64 sa(1) [OF nb(3)] sa(2) [OF nb(3)]
              by (simp only: prod.case option.case CBS_get_u8_Cons Let_def f hl(1) nb_def [symmetric]
                  unat_u64_128 drop_byte_digits if_False if_True simp_thms) simp
            have "get_der_length h =
              (if unat len64 < 128 \<or> unat len64 < 256 ^ (nb - 1) then (None, h2)
               else (Some (unat len64), h2))"
              using here False nb r len64 unfolding nb_def
              by (simp add: get_der_length_def op_simps)
            with here lhs h2 show ?thesis by (simp only: prod.case option.case) simp
          qed
        qed
      qed
    qed
  qed
qed

lemma any_asn1_element_iff:
  "CBS_get_any_asn1_element cbs = (Some e, rest) \<longleftrightarrow>
     (\<exists>tag contents. der_tag_valid tag \<and> length contents < 2 ^ 32 \<and>
        e = der_elem tag contents \<and> cbs = der_element tag contents @ rest)"
proof
  assume a: "CBS_get_any_asn1_element cbs = (Some e, rest)"
  then obtain tag h n h' where t: "parse_asn1_tag False cbs = (Some tag, h)"
    and l: "get_der_length h = (Some n, h')"
    by (auto simp: any_asn1_element_alt split: prod.splits option.splits)
  from tag_codec.get_sound [OF t] length_codec.get_sound [OF l]
  have v: "der_tag_valid tag" "n < 2 ^ 32" and cbs: "cbs = der_header tag n @ h'"
    by (simp_all add: der_header_def)
  from a t l cbs obtain out where len: "length out = length (der_header tag n) + n" and o: "cbs = out @ rest"
    and e: "e = \<lparr>elem_out = out, elem_tag = tag, elem_header_len = length (der_header tag n),
         elem_ber_found = False, elem_indefinite = False\<rparr>"
    by (auto simp: any_asn1_element_alt pbind_eq_Some CBS_get_bytes_iff)
  from o have "out = take (length out) cbs" by simp
  then have out: "out = der_header tag n @ take n h'"
    unfolding len by (simp add: cbs)
  with len have "length (take n h') = n" by (metis add_left_cancel length_append)
  with v e o out show "\<exists>tag contents. der_tag_valid tag \<and> length contents < 2 ^ 32 \<and>
        e = der_elem tag contents \<and> cbs = der_element tag contents @ rest"
    by (intro exI [of _ tag] exI [of _ "take n h'"]) (simp add: der_elem_def der_element_def)
next
  assume "\<exists>tag contents. der_tag_valid tag \<and> length contents < 2 ^ 32 \<and>
        e = der_elem tag contents \<and> cbs = der_element tag contents @ rest"
  then obtain tag contents where v: "der_tag_valid tag" "length contents < 2 ^ 32"
    and e: "e = der_elem tag contents" and cbs: "cbs = der_element tag contents @ rest" by blast
  have "parse_asn1_tag False cbs = (Some tag, der_length (length contents) @ contents @ rest)"
    using tag_codec.get_enc [OF v(1)] by (simp add: cbs der_element_def der_header_def)
  moreover have "get_der_length (der_length (length contents) @ contents @ rest) =
      (Some (length contents), contents @ rest)"
    using v(2) by (rule length_codec.get_enc)
  moreover have "length cbs - length (contents @ rest) = length (der_header tag (length contents))"
    by (simp add: cbs der_element_def)
  moreover have "CBS_get_bytes (length (der_header tag (length contents)) + length contents) cbs =
      (Some (der_element tag contents), rest)"
    by (simp add: CBS_get_bytes_iff cbs der_element_def)
  ultimately show "CBS_get_any_asn1_element cbs = (Some e, rest)"
    by (simp only: any_asn1_element_alt prod.case option.case pbind_Some) (simp add: e der_elem_def)
qed

lemma CBS_skip_append [simp]: "CBS_skip (length xs) (xs @ ys) = (Some (), ys)"
  by (simp add: CBS_skip_def cbs_get_def CBS_len_def op_simps)

lemma CBS_skip_der_elem:
  "CBS_skip (elem_header_len (der_elem tag contents)) (elem_out (der_elem tag contents)) = (Some (), contents)"
  by (simp add: der_elem_def der_element_def)

lemma any_asn1_bind:
  "pbind CBS_get_any_asn1_element f cbs = (Some w, rest) \<longleftrightarrow>
     (\<exists>tag contents cs. der_tag_valid tag \<and> length contents < 2 ^ 32 \<and>
        cbs = der_element tag contents @ cs \<and> f (der_elem tag contents) cs = (Some w, rest))"
  unfolding pbind_eq_Some any_asn1_element_iff by blast

lemma CBS_get_any_asn1_iff:
  "CBS_get_any_asn1 cbs = (Some (contents, tag), rest) \<longleftrightarrow>
     der_tag_valid tag \<and> length contents < 2 ^ 32 \<and> cbs = der_element tag contents @ rest"
  unfolding CBS_get_any_asn1_def any_asn1_bind CBS_skip_der_elem by (auto simp: der_elem_def)

lemma cbs_get_asn1_iff:
  "cbs_get_asn1 tag skip cbs = (Some out, rest) \<longleftrightarrow>
     (\<exists>contents. der_tag_valid tag \<and> length contents < 2 ^ 32 \<and>
        cbs = der_element tag contents @ rest \<and>
        out = (if skip then contents else der_element tag contents))"
  unfolding cbs_get_asn1_def any_asn1_bind CBS_skip_der_elem
  by (cases skip) (auto simp: der_elem_def)

lemma CBS_get_asn1_iff:
  "CBS_get_asn1 tag cbs = (Some contents, rest) \<longleftrightarrow>
     der_tag_valid tag \<and> length contents < 2 ^ 32 \<and> cbs = der_element tag contents @ rest"
  by (auto simp: CBS_get_asn1_def cbs_get_asn1_iff)

interpretation asn1_codec: codec "\<lambda>(contents, tag). der_element tag contents"
  "\<lambda>(contents, tag). der_tag_valid tag \<and> length contents < 2 ^ 32" CBS_get_any_asn1
  by unfold_locales (auto simp: CBS_get_any_asn1_iff)

interpretation asn1_tagged: codec "der_element tag"
  "\<lambda>contents. der_tag_valid tag \<and> length contents < 2 ^ 32" "CBS_get_asn1 tag" for tag
  by unfold_locales (auto simp: CBS_get_asn1_iff)

section \<open>Length-prefixed strings\<close>

definition length_prefixed :: "nat \<Rightarrow> u8 list \<Rightarrow> u8 list" where
  "length_prefixed len_len contents = be_bytes len_len (length contents) @ contents"

lemma cbs_get_length_prefixed_iff:
  assumes "len_len \<le> 3"
  shows "cbs_get_length_prefixed len_len cbs = (Some out, rest) \<longleftrightarrow>
    length out < 256 ^ len_len \<and> cbs = length_prefixed len_len out @ rest"
proof -
  have lt: "(256::nat) ^ len_len \<le> 2 ^ 24"
    using power_increasing [OF assms, of "256::nat"] by simp
  have u: "unat (of_nat n :: u64) = n" if "n < 256 ^ len_len" for n
    using that lt unfolding unat_of_nat by simp
  show ?thesis
    using assms u [of "length out"]
    by (auto simp: cbs_get_length_prefixed_def pbind_eq_Some cbs_get_u_iff CBS_get_bytes_iff
        length_prefixed_def intro!: exI [of _ "of_nat (length out)"])
qed

interpretation u8_prefixed: codec "length_prefixed 1" "\<lambda>s. length s < 2 ^ 8" CBS_get_u8_length_prefixed
  by unfold_locales (simp_all add: CBS_get_u8_length_prefixed_def cbs_get_length_prefixed_iff)

interpretation u16_prefixed: codec "length_prefixed 2" "\<lambda>s. length s < 2 ^ 16" CBS_get_u16_length_prefixed
  by unfold_locales (simp_all add: CBS_get_u16_length_prefixed_def cbs_get_length_prefixed_iff)

interpretation u24_prefixed: codec "length_prefixed 3" "\<lambda>s. length s < 2 ^ 24" CBS_get_u24_length_prefixed
  by unfold_locales (simp_all add: CBS_get_u24_length_prefixed_def cbs_get_length_prefixed_iff)

section \<open>Properties\<close>

text \<open>
  C1. The DER reader accepts exactly the canonical encodings. \<open>CBS_get_any_asn1\<close>
  succeeds with contents, tag and unread rest precisely when the input is the DER element
  (identifier in its minimal form, length in its minimal form) of that tag and those
  contents followed by the rest, for a tag other than \<open>[UNIVERSAL 0]\<close> and contents
  shorter than \<open>2 ^ 32\<close> bytes.
\<close>

theorem CBS_get_any_asn1_canonical:
  "CBS_get_any_asn1 cbs = (Some (contents, tag), rest) \<longleftrightarrow>
     der_tag_valid tag \<and> length contents < 2 ^ 32 \<and>
     cbs = der_tag tag @ der_length (length contents) @ contents @ rest"
  by (simp add: CBS_get_any_asn1_iff der_element_def der_header_def)

text \<open>
  DER parsing is unambiguous: two valid elements followed by arbitrary further input
  that form the same byte string have the same tag, the same contents and the same rest,
  so no DER encoding is a prefix of another.
\<close>

theorem der_element_unambiguous:
  assumes "der_tag_valid t1" "length c1 < 2 ^ 32" "der_tag_valid t2" "length c2 < 2 ^ 32"
    and "der_element t1 c1 @ r1 = der_element t2 c2 @ r2"
  shows "t1 = t2 \<and> c1 = c2 \<and> r1 = r2 \<and>
         CBS_get_any_asn1 (der_element t1 c1 @ r1) = (Some (c1, t1), r1)"
  using asn1_codec.prefix_free [of "(c1, t1)" "(c2, t2)" r1 r2] asn1_codec.get_enc [of "(c1, t1)" r1] assms
  by simp

theorem der_element_unambiguous_witness:
  "CBS_get_any_asn1 ([2, 1, 5] @ [9]) = (Some ([5], 2), [9])"
proof -
  have e: "der_element 2 [5] = [2, 1, 5]"
    by (simp add: der_element_def der_header_def der_tag_def der_length_def)
  show ?thesis
    using der_element_unambiguous [of 2 "[5]" 2 "[5]" "[9]" "[9]"] unfolding e
    by (simp add: der_tag_valid_def)
qed

end
