(* ===== verification/Cbb.thy ===== *)
theory Cbb
  imports DerCodec
begin

text \<open>
  The byte string builder of \<^verbatim>\<open>crypto/bytestring/cbb.c\<close>.

  All \<open>CBB\<close> objects that write to one buffer form a chain: the top-level \<open>CBB\<close> owns
  the \<open>cbb_buffer_st\<close>, and every \<open>CBB\<close> has at most one pending child, whose
  \<open>base\<close> points at the same buffer. The model is the buffer together with that chain,
  outermost child first. An operation names the \<open>CBB\<close> it is called on by its depth
  \<open>d\<close> in the chain (0 is the top-level \<open>CBB\<close>, \<open>d + 1\<close> the child of \<open>d\<close>):
  \<open>cbb->child == NULL\<close> is \<open>length children = d\<close>, and a depth beyond the chain is a
  \<open>CBB\<close> whose \<open>base\<close> is NULL because it has been flushed or discarded. Pointers into
  the buffer are offsets. \<open>OPENSSL_PUT_ERROR\<close> calls only append to the thread's error
  queue (theory \<open>Err\<close>) and are left out.
\<close>

record cbb_buffer =
  cbb_buf :: "u8 list"
  cbb_len :: nat
  cbb_cap :: nat
  cbb_can_resize :: bool
  cbb_error :: bool

record cbb_child =
  child_offset :: nat
  child_pending_len_len :: nat
  child_pending_is_asn1 :: bool

record CBB =
  cbb_base :: cbb_buffer
  cbb_children :: "cbb_child list"

section \<open>The buffer\<close>

definition cbb_init :: "u8 list \<Rightarrow> nat \<Rightarrow> bool \<Rightarrow> CBB" where
  "cbb_init buf cap can_resize =
     \<lparr>cbb_base = \<lparr>cbb_buf = buf, cbb_len = 0, cbb_cap = cap, cbb_can_resize = can_resize,
                  cbb_error = False\<rparr>,
      cbb_children = []\<rparr>"

text \<open>A NULL buffer, which only occurs with capacity 0, is the empty list.\<close>

definition CBB_init :: "allocator \<Rightarrow> nat \<Rightarrow> CBB option" where
  "CBB_init al initial_capacity =
     (case OPENSSL_malloc al initial_capacity of
        None \<Rightarrow> if initial_capacity > 0 then None else Some (cbb_init [] initial_capacity True)
      | Some buf \<Rightarrow> Some (cbb_init buf initial_capacity True))"

definition CBB_init_fixed :: "u8 list \<Rightarrow> nat \<Rightarrow> CBB" where
  "CBB_init_fixed buf len = cbb_init (take len buf) len False"

text \<open>The result is the offset \<open>base->len\<close> of the reserved space.\<close>

definition cbb_buffer_reserve :: "allocator \<Rightarrow> nat \<Rightarrow> (cbb_buffer, nat) op" where
  "cbb_buffer_reserve al len base =
     (let newlen = size_add (cbb_len base) len;
          err = (None, base\<lparr>cbb_error := True\<rparr>)
      in if newlen < cbb_len base then err
         else if newlen > cbb_cap base
         then (if \<not> cbb_can_resize base then err
               else let newcap = size_mul (cbb_cap base) 2;
                        newcap = (if newcap < cbb_cap base \<or> newcap < newlen then newlen else newcap)
                    in case OPENSSL_realloc al (Some (cbb_buf base)) newcap of
                         None \<Rightarrow> err
                       | Some newbuf \<Rightarrow>
                           (Some (cbb_len base), base\<lparr>cbb_buf := newbuf, cbb_cap := newcap\<rparr>))
         else (Some (cbb_len base), base))"

definition cbb_buffer_add :: "allocator \<Rightarrow> nat \<Rightarrow> (cbb_buffer, nat) op" where
  "cbb_buffer_add al len = pbind (cbb_buffer_reserve al len)
     (\<lambda>out base. (Some out, base\<lparr>cbb_len := cbb_len base + len\<rparr>))"

text \<open>
  \<open>for (i = n - 1; i < n; i--) { buf[off + i] = v; v >>= 8; }\<close>: the bytes stored and
  what is left of \<open>v\<close>.
\<close>

fun put_be :: "u8 list \<Rightarrow> nat \<Rightarrow> nat \<Rightarrow> u64 \<Rightarrow> u8 list \<times> u64" where
  "put_be buf off 0 v = (buf, v)"
| "put_be buf off (Suc i) v = put_be (buf[off + i := ucast v]) off i (drop_bit 8 v)"

section \<open>Flushing\<close>

definition cbb_attached :: "nat \<Rightarrow> CBB \<Rightarrow> bool" where
  "cbb_attached d cbb \<longleftrightarrow> d \<le> length (cbb_children cbb)"

definition cbb_on_error :: "nat \<Rightarrow> CBB \<Rightarrow> CBB" where
  "cbb_on_error d cbb =
     cbb\<lparr>cbb_base := (cbb_base cbb)\<lparr>cbb_error := True\<rparr>, cbb_children := take d (cbb_children cbb)\<rparr>"

text \<open>
  The length octets \<open>CBB_flush\<close> chooses for an ASN.1 child: the total number of length
  octets, the first of them, and the value the remaining ones hold.
\<close>

definition asn1_len_len :: "nat \<Rightarrow> (nat \<times> u8 \<times> nat) option" where
  "asn1_len_len len =
     (if len > 0xfffffffe then None
      else if len > 0xffffff then Some (5, 0x80 OR 4, len)
      else if len > 0xffff then Some (4, 0x80 OR 3, len)
      else if len > 0xff then Some (3, 0x80 OR 2, len)
      else if len > 0x7f then Some (2, 0x80 OR 1, len)
      else Some (1, of_nat len, 0))"

text \<open>
  \<open>cbb_write_prefix\<close> is the tail of \<open>CBB_flush\<close> that stores the pending length
  octets; \<open>cbb_flush_child\<close> is its body after the recursive call, on the buffer.
\<close>

definition cbb_write_prefix :: "nat \<Rightarrow> nat \<Rightarrow> nat \<Rightarrow> (cbb_buffer, unit) op" where
  "cbb_write_prefix offset pending_len_len len base =
     (case put_be (cbb_buf base) offset pending_len_len (of_nat len) of
        (buf, rest) \<Rightarrow> (if rest \<noteq> 0 then None else Some (), base\<lparr>cbb_buf := buf\<rparr>))"

definition cbb_flush_child :: "allocator \<Rightarrow> cbb_child \<Rightarrow> (cbb_buffer, unit) op" where
  "cbb_flush_child al child base =
     (let offset = child_offset child;
          child_start = size_add offset (child_pending_len_len child)
      in if child_start < offset \<or> cbb_len base < child_start then (None, base)
         else let len = cbb_len base - child_start
              in if child_pending_is_asn1 child
                 then (case asn1_len_len len of
                         None \<Rightarrow> (None, base)
                       | Some (len_len, initial_length_byte, len') \<Rightarrow>
                           (let extra_bytes = len_len - 1
                            in pbind
                                 (if len_len \<noteq> 1
                                  then pbind (cbb_buffer_add al extra_bytes) (\<lambda>_ base.
                                         (Some (), base\<lparr>cbb_buf := buf_write (cbb_buf base)
                                            (child_start + extra_bytes)
                                            (take len (drop child_start (cbb_buf base)))\<rparr>))
                                  else pret ())
                                 (\<lambda>_ base. cbb_write_prefix (offset + 1) (len_len - 1) len'
                                    (base\<lparr>cbb_buf := (cbb_buf base)[offset := initial_length_byte]\<rparr>))
                                 base))
                 else cbb_write_prefix offset (child_pending_len_len child) len base)"

function CBB_flush :: "allocator \<Rightarrow> nat \<Rightarrow> (CBB, unit) op" where
  "CBB_flush al d cbb =
     (if \<not> cbb_attached d cbb \<or> cbb_error (cbb_base cbb) then (None, cbb)
      else if length (cbb_children cbb) = d then (Some (), cbb)
      else case CBB_flush al (Suc d) cbb of
             (None, cbb') \<Rightarrow> (None, cbb_on_error d cbb')
           | (Some _, cbb') \<Rightarrow>
               (case cbb_flush_child al (cbb_children cbb ! d) (cbb_base cbb') of
                  (None, base) \<Rightarrow> (None, cbb_on_error d (cbb'\<lparr>cbb_base := base\<rparr>))
                | (Some _, base) \<Rightarrow>
                    (Some (), cbb'\<lparr>cbb_base := base, cbb_children := take d (cbb_children cbb')\<rparr>)))"
  by pat_completeness auto
termination
  by (relation "measure (\<lambda>(al, d, cbb). length (cbb_children cbb) - d)")
    (auto simp: cbb_attached_def)

declare CBB_flush.simps [simp del]

text \<open>
  \<open>out_data\<close> and \<open>out_len\<close> say whether the pointers are given; the result is what is
  stored through them, the whole buffer and its used length. On success the buffer has been handed
  out: \<open>buf\<close> is NULL while the lengths keep their values, and the \<open>CBB\<close> may only be
  cleaned up.
\<close>

definition CBB_finish_to :: "bool \<Rightarrow> bool \<Rightarrow> allocator \<Rightarrow> nat \<Rightarrow> (CBB, u8 list option \<times> nat option) op" where
  "CBB_finish_to out_data out_len al d cbb =
     (if d \<noteq> 0 then (None, cbb)
      else pbind (CBB_flush al d) (\<lambda>_ cbb.
             if cbb_can_resize (cbb_base cbb) \<and> (\<not> out_data \<or> \<not> out_len) then (None, cbb)
             else (Some (if out_data then Some (cbb_buf (cbb_base cbb)) else None,
                         if out_len then Some (cbb_len (cbb_base cbb)) else None),
                   cbb\<lparr>cbb_base := (cbb_base cbb)\<lparr>cbb_buf := []\<rparr>\<rparr>)) cbb)"

text \<open>The call with both pointers given.\<close>

definition CBB_finish :: "allocator \<Rightarrow> nat \<Rightarrow> (CBB, u8 list \<times> nat) op" where
  "CBB_finish al d cbb =
     (case CBB_finish_to True True al d cbb of
        (Some (Some data, Some len), cbb) \<Rightarrow> (Some (data, len), cbb)
      | (_, cbb) \<Rightarrow> (None, cbb))"

definition CBB_data :: "nat \<Rightarrow> CBB \<Rightarrow> nat" where
  "CBB_data d cbb =
     (if d = 0 then 0
      else let c = cbb_children cbb ! (d - 1) in child_offset c + child_pending_len_len c)"

definition CBB_len :: "nat \<Rightarrow> CBB \<Rightarrow> nat" where
  "CBB_len d cbb =
     (if d = 0 then cbb_len (cbb_base cbb)
      else let c = cbb_children cbb ! (d - 1)
           in cbb_len (cbb_base cbb) - child_offset c - child_pending_len_len c)"

section \<open>Children\<close>

text \<open>Runs a buffer operation on the base of the chain.\<close>

definition on_base :: "(cbb_buffer, 'a) op \<Rightarrow> (CBB, 'a) op" where
  "on_base f cbb = (case f (cbb_base cbb) of (r, base) \<Rightarrow> (r, cbb\<lparr>cbb_base := base\<rparr>))"

definition cbb_store :: "nat \<Rightarrow> u8 list \<Rightarrow> CBB \<Rightarrow> CBB" where
  "cbb_store off bytes cbb =
     cbb\<lparr>cbb_base := (cbb_base cbb)\<lparr>cbb_buf := buf_write (cbb_buf (cbb_base cbb)) off bytes\<rparr>\<rparr>"

definition cbb_add_child :: "allocator \<Rightarrow> nat \<Rightarrow> nat \<Rightarrow> bool \<Rightarrow> (CBB, unit) op" where
  "cbb_add_child al d len_len is_asn1 cbb =
     (let offset = cbb_len (cbb_base cbb)
      in pbind (on_base (cbb_buffer_add al len_len)) (\<lambda>prefix_bytes cbb.
           let cbb = cbb_store prefix_bytes (replicate len_len 0) cbb
           in (Some (), cbb\<lparr>cbb_children := take d (cbb_children cbb) @
                 [\<lparr>child_offset = offset, child_pending_len_len = len_len,
                   child_pending_is_asn1 = is_asn1\<rparr>]\<rparr>)) cbb)"

definition cbb_add_length_prefixed :: "allocator \<Rightarrow> nat \<Rightarrow> nat \<Rightarrow> (CBB, unit) op" where
  "cbb_add_length_prefixed al d len_len =
     pbind (CBB_flush al d) (\<lambda>_. cbb_add_child al d len_len False)"

definition CBB_add_u8_length_prefixed :: "allocator \<Rightarrow> nat \<Rightarrow> (CBB, unit) op" where
  "CBB_add_u8_length_prefixed al d = cbb_add_length_prefixed al d 1"

definition CBB_add_u16_length_prefixed :: "allocator \<Rightarrow> nat \<Rightarrow> (CBB, unit) op" where
  "CBB_add_u16_length_prefixed al d = cbb_add_length_prefixed al d 2"

definition CBB_add_u24_length_prefixed :: "allocator \<Rightarrow> nat \<Rightarrow> (CBB, unit) op" where
  "CBB_add_u24_length_prefixed al d = cbb_add_length_prefixed al d 3"

definition CBB_discard_child :: "nat \<Rightarrow> CBB \<Rightarrow> CBB" where
  "CBB_discard_child d cbb =
     (if length (cbb_children cbb) \<le> d then cbb
      else cbb\<lparr>cbb_base := (cbb_base cbb)\<lparr>cbb_len := child_offset (cbb_children cbb ! d)\<rparr>,
               cbb_children := take d (cbb_children cbb)\<rparr>)"

section \<open>Writing bytes and integers\<close>

definition CBB_add_space :: "allocator \<Rightarrow> nat \<Rightarrow> nat \<Rightarrow> (CBB, nat) op" where
  "CBB_add_space al d len = pbind (CBB_flush al d) (\<lambda>_. on_base (cbb_buffer_add al len))"

definition CBB_reserve :: "allocator \<Rightarrow> nat \<Rightarrow> nat \<Rightarrow> (CBB, nat) op" where
  "CBB_reserve al d len = pbind (CBB_flush al d) (\<lambda>_. on_base (cbb_buffer_reserve al len))"

definition CBB_did_write :: "nat \<Rightarrow> nat \<Rightarrow> (CBB, unit) op" where
  "CBB_did_write d len cbb =
     (let base = cbb_base cbb;
          newlen = size_add (cbb_len base) len
      in if length (cbb_children cbb) \<noteq> d \<or> newlen < cbb_len base \<or> newlen > cbb_cap base
         then (None, cbb)
         else (Some (), cbb\<lparr>cbb_base := base\<lparr>cbb_len := newlen\<rparr>\<rparr>))"

definition CBB_add_bytes :: "allocator \<Rightarrow> nat \<Rightarrow> u8 list \<Rightarrow> (CBB, unit) op" where
  "CBB_add_bytes al d data = pbind (CBB_add_space al d (length data))
     (\<lambda>out cbb. (Some (), cbb_store out data cbb))"

definition CBB_add_zeros :: "allocator \<Rightarrow> nat \<Rightarrow> nat \<Rightarrow> (CBB, unit) op" where
  "CBB_add_zeros al d len = pbind (CBB_add_space al d len)
     (\<lambda>out cbb. (Some (), cbb_store out (replicate len 0) cbb))"

definition cbb_add_u :: "allocator \<Rightarrow> nat \<Rightarrow> u64 \<Rightarrow> nat \<Rightarrow> (CBB, unit) op" where
  "cbb_add_u al d v len_len = pbind (CBB_add_space al d len_len) (\<lambda>off cbb.
     case put_be (cbb_buf (cbb_base cbb)) off len_len v of
       (buf, rest) \<Rightarrow>
         (let cbb = cbb\<lparr>cbb_base := (cbb_base cbb)\<lparr>cbb_buf := buf\<rparr>\<rparr>
          in if rest \<noteq> 0 then (None, cbb_on_error d cbb) else (Some (), cbb)))"

definition CBB_add_u8 :: "allocator \<Rightarrow> nat \<Rightarrow> u8 \<Rightarrow> (CBB, unit) op" where
  "CBB_add_u8 al d value = cbb_add_u al d (ucast value) 1"

definition CBB_add_u16 :: "allocator \<Rightarrow> nat \<Rightarrow> u16 \<Rightarrow> (CBB, unit) op" where
  "CBB_add_u16 al d value = cbb_add_u al d (ucast value) 2"

definition CBB_add_u16le :: "allocator \<Rightarrow> nat \<Rightarrow> u16 \<Rightarrow> (CBB, unit) op" where
  "CBB_add_u16le al d value = CBB_add_u16 al d (CRYPTO_bswap2 value)"

definition CBB_add_u24 :: "allocator \<Rightarrow> nat \<Rightarrow> u32 \<Rightarrow> (CBB, unit) op" where
  "CBB_add_u24 al d value = cbb_add_u al d (ucast value) 3"

definition CBB_add_u32 :: "allocator \<Rightarrow> nat \<Rightarrow> u32 \<Rightarrow> (CBB, unit) op" where
  "CBB_add_u32 al d value = cbb_add_u al d (ucast value) 4"

definition CBB_add_u32le :: "allocator \<Rightarrow> nat \<Rightarrow> u32 \<Rightarrow> (CBB, unit) op" where
  "CBB_add_u32le al d value = CBB_add_u32 al d (CRYPTO_bswap4 value)"

definition CBB_add_u64 :: "allocator \<Rightarrow> nat \<Rightarrow> u64 \<Rightarrow> (CBB, unit) op" where
  "CBB_add_u64 al d value = cbb_add_u al d value 8"

definition CBB_add_u64le :: "allocator \<Rightarrow> nat \<Rightarrow> u64 \<Rightarrow> (CBB, unit) op" where
  "CBB_add_u64le al d value = CBB_add_u64 al d (CRYPTO_bswap8 value)"

text \<open>Adds the bytes one by one with \<open>CBB_add_u8\<close>, stopping at the first failure.\<close>

fun add_u8s :: "allocator \<Rightarrow> nat \<Rightarrow> u8 list \<Rightarrow> (CBB, unit) op" where
  "add_u8s al d [] = pret ()"
| "add_u8s al d (b # bs) = pbind (CBB_add_u8 al d b) (\<lambda>_. add_u8s al d bs)"

section \<open>ASN.1 elements\<close>

function base128_len :: "u64 \<Rightarrow> nat" where
  "base128_len copy = (if copy > 0 then Suc (base128_len (drop_bit 7 copy)) else 0)"
  by pat_completeness auto
termination
  by (relation "measure unat") (simp_all add: unat_drop_bit word_less_nat_alt)

declare base128_len.simps [simp del]

definition base128_byte :: "u64 \<Rightarrow> nat \<Rightarrow> u8" where
  "base128_byte v i =
     (let byte = ucast (drop_bit (7 * i) v AND 0x7f) in if i \<noteq> 0 then byte OR 0x80 else byte)"

definition add_base128_integer :: "allocator \<Rightarrow> nat \<Rightarrow> u64 \<Rightarrow> (CBB, unit) op" where
  "add_base128_integer al d v =
     (let len_len = base128_len v;
          len_len = (if len_len = 0 then 1 else len_len)
      in add_u8s al d (map (base128_byte v) (rev [0..<len_len])))"

definition CBB_add_asn1 :: "allocator \<Rightarrow> nat \<Rightarrow> CBS_ASN1_TAG \<Rightarrow> (CBB, unit) op" where
  "CBB_add_asn1 al d tag = pbind (CBB_flush al d) (\<lambda>_.
     let tag_bits = ucast (drop_bit CBS_ASN1_TAG_SHIFT tag) AND 0xe0 :: u8;
         tag_number = tag AND CBS_ASN1_TAG_NUMBER_MASK
     in pbind
          (if tag_number \<ge> 0x1f
           then pbind (CBB_add_u8 al d (tag_bits OR 0x1f))
                  (\<lambda>_. add_base128_integer al d (ucast tag_number))
           else CBB_add_u8 al d (tag_bits OR ucast tag_number))
          (\<lambda>_. cbb_add_child al d 1 True))"

text \<open>
  An operation \<open>f\<close> with the \<open>goto err\<close> epilogue that locks \<open>cbb\<close> into its error
  state.
\<close>

definition or_on_error :: "nat \<Rightarrow> (CBB, 'a) op \<Rightarrow> (CBB, 'a) op" where
  "or_on_error d f cbb =
     (case f cbb of (None, cbb') \<Rightarrow> (None, cbb_on_error d cbb') | (Some r, cbb') \<Rightarrow> (Some r, cbb'))"

text \<open>
  The loop of \<open>CBB_add_asn1_uint64_with_tag\<close>: \<open>is\<close> are the remaining indices.
\<close>

fun uint64_loop :: "allocator \<Rightarrow> nat \<Rightarrow> u64 \<Rightarrow> bool \<Rightarrow> nat list \<Rightarrow> (CBB, bool) op" where
  "uint64_loop al d value started [] = pret started"
| "uint64_loop al d value started (i # is) =
     (let byte = ucast (drop_bit (8 * (7 - i)) value AND 0xff) :: u8
      in if \<not> started
         then (if byte = 0 then uint64_loop al d value started is
               else pbind (if byte AND 0x80 \<noteq> 0 then CBB_add_u8 al d 0 else pret ())
                      (\<lambda>_. pbind (CBB_add_u8 al d byte) (\<lambda>_. uint64_loop al d value True is)))
         else pbind (CBB_add_u8 al d byte) (\<lambda>_. uint64_loop al d value started is))"

definition CBB_add_asn1_uint64_with_tag ::
  "allocator \<Rightarrow> nat \<Rightarrow> u64 \<Rightarrow> CBS_ASN1_TAG \<Rightarrow> (CBB, unit) op" where
  "CBB_add_asn1_uint64_with_tag al d value tag =
     pbind (or_on_error d (pbind (CBB_add_asn1 al d tag) (\<lambda>_.
              pbind (uint64_loop al (Suc d) value False [0..<8]) (\<lambda>started.
                if \<not> started then CBB_add_u8 al (Suc d) 0 else pret ()))))
       (\<lambda>_. CBB_flush al d)"

definition CBB_add_asn1_uint64 :: "allocator \<Rightarrow> nat \<Rightarrow> u64 \<Rightarrow> (CBB, unit) op" where
  "CBB_add_asn1_uint64 al d value = CBB_add_asn1_uint64_with_tag al d value CBS_ASN1_INTEGER"

text \<open>
  The little-endian branch: \<open>int64_byte value i\<close> is \<open>bytes[i]\<close>; \<open>skip_sign\<close> is
  the loop that lowers \<open>start\<close>. An \<open>int64_t\<close> is its 64-bit pattern.
\<close>

definition int64_byte :: "u64 \<Rightarrow> nat \<Rightarrow> u8" where
  "int64_byte value i = ucast (drop_bit (8 * i) value)"

fun skip_sign :: "u64 \<Rightarrow> nat \<Rightarrow> nat" where
  "skip_sign value 0 = 0"
| "skip_sign value (Suc k) =
     (if int64_byte value (Suc k) = 0xff \<and> int64_byte value k AND 0x80 \<noteq> 0
      then skip_sign value k else Suc k)"

definition CBB_add_asn1_int64_with_tag ::
  "allocator \<Rightarrow> nat \<Rightarrow> u64 \<Rightarrow> CBS_ASN1_TAG \<Rightarrow> (CBB, unit) op" where
  "CBB_add_asn1_int64_with_tag al d value tag =
     (if sint value \<ge> 0 then CBB_add_asn1_uint64_with_tag al d value tag
      else let start = skip_sign value 7
           in pbind (or_on_error d (pbind (CBB_add_asn1 al d tag) (\<lambda>_.
                       add_u8s al (Suc d) (map (int64_byte value) (rev [0..<Suc start])))))
                (\<lambda>_. CBB_flush al d))"

definition CBB_add_asn1_int64 :: "allocator \<Rightarrow> nat \<Rightarrow> u64 \<Rightarrow> (CBB, unit) op" where
  "CBB_add_asn1_int64 al d value = CBB_add_asn1_int64_with_tag al d value CBS_ASN1_INTEGER"

definition CBB_add_asn1_octet_string :: "allocator \<Rightarrow> nat \<Rightarrow> u8 list \<Rightarrow> (CBB, unit) op" where
  "CBB_add_asn1_octet_string al d data = or_on_error d
     (pbind (CBB_add_asn1 al d CBS_ASN1_OCTETSTRING) (\<lambda>_.
        pbind (CBB_add_bytes al (Suc d) data) (\<lambda>_. CBB_flush al d)))"

definition CBB_add_asn1_bool :: "allocator \<Rightarrow> nat \<Rightarrow> bool \<Rightarrow> (CBB, unit) op" where
  "CBB_add_asn1_bool al d value = or_on_error d
     (pbind (CBB_add_asn1 al d CBS_ASN1_BOOLEAN) (\<lambda>_.
        pbind (CBB_add_u8 al (Suc d) (if value then 0xff else 0)) (\<lambda>_. CBB_flush al d)))"

section \<open>SET OF\<close>

definition compare_set_of_element :: "CBS \<Rightarrow> CBS \<Rightarrow> int" where
  "compare_set_of_element a b =
     (let a_len = CBS_len a; b_len = CBS_len b;
          min_len = (if a_len < b_len then a_len else b_len);
          ret = sint (OPENSSL_memcmp (CBS_data a) (CBS_data b) min_len)
      in if ret \<noteq> 0 then ret
         else if a_len = b_len then 0
         else if a_len < b_len then - 1 else 1)"

lemma any_element_shrinks:
  "CBS_get_any_asn1_element cbs = (Some e, cbs') \<Longrightarrow> length cbs' < length cbs"
  using length_der_tag(1) by (fastforce simp: any_asn1_element_iff der_element_def der_header_def Suc_le_eq)

text \<open>
  The two passes over the children: both read element after element; the first only
  counts them.
\<close>

function set_of_elements :: "CBS \<Rightarrow> CBS list option" where
  "set_of_elements cbs =
     (if CBS_len cbs = 0 then Some []
      else case CBS_get_any_asn1_element cbs of
             (None, _) \<Rightarrow> None
           | (Some e, cbs') \<Rightarrow> map_option (\<lambda>es. elem_out e # es) (set_of_elements cbs'))"
  by pat_completeness auto
termination
  by (relation "measure length") (auto dest: any_element_shrinks [OF sym])

declare set_of_elements.simps [simp del]

text \<open>
  \<open>qsort\<close> is the C library's sorting routine. \<open>buf\<close> and \<open>children\<close> are two
  allocations; each \<open>CBS\<close> of the \<open>children\<close> array is 16 bytes.
\<close>

definition CBB_flush_asn1_set_of ::
  "((CBS \<Rightarrow> CBS \<Rightarrow> int) \<Rightarrow> CBS list \<Rightarrow> CBS list) \<Rightarrow> allocator \<Rightarrow> nat \<Rightarrow> (CBB, unit) op" where
  "CBB_flush_asn1_set_of qsort al d = pbind (CBB_flush al d) (\<lambda>_ cbb.
     let start = CBB_data d cbb; buf_len = CBB_len d cbb;
         cbs = CBS_init (drop start (cbb_buf (cbb_base cbb))) buf_len
     in case set_of_elements cbs of
          None \<Rightarrow> (None, cbb)
        | Some elems \<Rightarrow>
            (let num_children = length elems
             in if num_children < 2 then (Some (), cbb)
                else case (OPENSSL_memdup al cbs buf_len, OPENSSL_calloc al num_children 16) of
                       (Some buf, Some _) \<Rightarrow>
                         (case set_of_elements (CBS_init buf buf_len) of
                            None \<Rightarrow> (None, cbb)
                          | Some children \<Rightarrow>
                              (Some (), cbb_store start (concat (qsort compare_set_of_element children)) cbb))
                     | _ \<Rightarrow> (None, cbb)))"

end
