(* ===== verification/CbbFlush.thy ===== *)
theory CbbFlush
  imports Cbb
begin

text \<open>
  The byte string builder against its specification. The abstract state of a builder is
  the stack of strings that are open: the contents written so far to the innermost
  \<open>CBB\<close>, and for every enclosing one the length prefix still pending on its child and
  its own contents up to that prefix. Flushing closes strings, an adder appends to the
  string it names, opening a child pushes an empty string. The locale \<open>builder_op\<close>
  states what it means that an operation of theory \<open>Cbb\<close> implements such an effect,
  and every operation is shown to do so.
\<close>

section \<open>The buffer\<close>

definition buffer_wf :: "cbb_buffer \<Rightarrow> bool" where
  "buffer_wf b \<longleftrightarrow> length (cbb_buf b) = cbb_cap b \<and> cbb_len b \<le> cbb_cap b \<and> cbb_cap b \<le> SIZE_MAX"

definition buffer_out :: "cbb_buffer \<Rightarrow> u8 list" where
  "buffer_out b = take (cbb_len b) (cbb_buf b)"

text \<open>
  \<open>fits al b n\<close>: the buffer can grow to \<open>n\<close> bytes, because it already has the
  capacity or because it may be resized and the allocator serves every request for up to
  twice that size (the buffer grows by doubling).
\<close>

definition fits :: "allocator \<Rightarrow> cbb_buffer \<Rightarrow> nat \<Rightarrow> bool" where
  "fits al b n \<longleftrightarrow> n \<le> cbb_cap b \<or> cbb_can_resize b \<and> n \<le> 2 ^ 62 \<and> (\<forall>k \<le> 2 * n + 8. al k \<noteq> None)"

text \<open>What no operation on a buffer may undo.\<close>

definition buffer_le :: "cbb_buffer \<Rightarrow> cbb_buffer \<Rightarrow> bool" where
  "buffer_le b b' \<longleftrightarrow> buffer_wf b' \<and> cbb_can_resize b' = cbb_can_resize b \<and> cbb_cap b \<le> cbb_cap b'"

lemma fits_mono: "fits al b n \<Longrightarrow> m \<le> n \<Longrightarrow> fits al b m"
  unfolding fits_def by (meson add_le_mono1 le_trans mult_le_mono2)

lemma fits_le: "fits al b n \<Longrightarrow> buffer_le b b' \<Longrightarrow> fits al b' n"
  by (auto simp: fits_def buffer_le_def)

lemma buffer_le_trans [trans]: "buffer_le b c \<Longrightarrow> buffer_le c d \<Longrightarrow> buffer_le b d"
  by (auto simp: buffer_le_def)

lemma buffer_le_refl [simp]: "buffer_wf b \<Longrightarrow> buffer_le b b"
  by (simp add: buffer_le_def)

lemma length_buffer_out [simp]: "buffer_wf b \<Longrightarrow> length (buffer_out b) = cbb_len b"
  by (simp add: buffer_wf_def buffer_out_def)

definition new_capacity :: "nat \<Rightarrow> nat \<Rightarrow> nat" where
  "new_capacity cap newlen =
     (let newcap = size_mul cap 2 in if newcap < cap \<or> newcap < newlen then newlen else newcap)"

lemma new_capacity_bounds: "newlen \<le> SIZE_MAX \<Longrightarrow> newlen \<le> new_capacity cap newlen \<and> new_capacity cap newlen \<le> SIZE_MAX"
  using size_mul_le_max [of cap 2] by (auto simp: new_capacity_def Let_def)

lemma buffer_reserve_alt:
  "cbb_buffer_reserve al len b =
     (let newlen = size_add (cbb_len b) len; newcap = new_capacity (cbb_cap b) newlen
      in if newlen < cbb_len b then (None, b\<lparr>cbb_error := True\<rparr>)
         else if newlen \<le> cbb_cap b then (Some (cbb_len b), b)
         else if \<not> cbb_can_resize b then (None, b\<lparr>cbb_error := True\<rparr>)
         else case OPENSSL_realloc al (Some (cbb_buf b)) newcap of
                None \<Rightarrow> (None, b\<lparr>cbb_error := True\<rparr>)
              | Some nb \<Rightarrow> (Some (cbb_len b), b\<lparr>cbb_buf := nb, cbb_cap := newcap\<rparr>))"
  by (simp add: cbb_buffer_reserve_def new_capacity_def Let_def not_le)

lemma buffer_reserve_Some:
  assumes "buffer_wf b" "len \<le> SIZE_MAX" "cbb_buffer_reserve al len b = (Some off, b')"
  shows "off = cbb_len b \<and> cbb_len b' = cbb_len b \<and> buffer_out b' = buffer_out b \<and>
    cbb_len b + len \<le> cbb_cap b' \<and> buffer_le b b' \<and> cbb_error b' = cbb_error b"
proof -
  from assms(3) have "\<not> size_add (cbb_len b) len < cbb_len b"
    by (auto simp: buffer_reserve_alt Let_def)
  moreover have "cbb_len b \<le> SIZE_MAX" using assms(1) unfolding buffer_wf_def by linarith
  ultimately have fit: "cbb_len b + len \<le> SIZE_MAX"
    using size_add_overflow_iff [OF _ assms(2)] by (meson not_le)
  then have new: "size_add (cbb_len b) len = cbb_len b + len" by (rule size_add_exact)
  show ?thesis
  proof (cases "cbb_len b + len \<le> cbb_cap b")
    case False
    define nc where "nc = new_capacity (cbb_cap b) (cbb_len b + len)"
    from assms(3) have e: "(if \<not> cbb_can_resize b then (None, b\<lparr>cbb_error := True\<rparr>)
         else case OPENSSL_realloc al (Some (cbb_buf b)) nc of
                None \<Rightarrow> (None, b\<lparr>cbb_error := True\<rparr>)
              | Some nb \<Rightarrow> (Some (cbb_len b), b\<lparr>cbb_buf := nb, cbb_cap := nc\<rparr>)) = (Some off, b')"
      unfolding buffer_reserve_alt Let_def new if_not_P [OF False] nc_def
      by (simp only: not_add_less1 if_False)
    have "\<exists>nb. OPENSSL_realloc al (Some (cbb_buf b)) nc = Some nb \<and>
        b' = b\<lparr>cbb_buf := nb, cbb_cap := nc\<rparr> \<and> off = cbb_len b"
      using e by (cases "cbb_can_resize b"; cases "OPENSSL_realloc al (Some (cbb_buf b)) nc") simp_all
    then obtain nb where r: "OPENSSL_realloc al (Some (cbb_buf b)) nc = Some nb"
      and b': "b' = b\<lparr>cbb_buf := nb, cbb_cap := nc\<rparr>" and off: "off = cbb_len b" by blast
    have nc: "cbb_len b + len \<le> nc" "nc \<le> SIZE_MAX"
      using new_capacity_bounds [OF fit, of "cbb_cap b"] by (simp_all add: nc_def)
    have "length nb = nc" using r by (rule OPENSSL_realloc_length)
    moreover have "take (cbb_len b) nb = take (cbb_len b) (cbb_buf b)"
      using OPENSSL_realloc_keeps [OF r, of "cbb_len b"] assms(1) nc unfolding buffer_wf_def by linarith
    moreover have "cbb_len b \<le> nc" "cbb_cap b \<le> nc" using nc False by linarith+
    ultimately show ?thesis
      using nc off by (simp add: b' buffer_wf_def buffer_out_def buffer_le_def)
  next
    case True
    then have "off = cbb_len b" "b' = b"
      using assms(3) by (auto simp add: buffer_reserve_alt Let_def new)
    with True assms(1) show ?thesis by simp
  qed
qed

lemma buffer_reserve_None:
  "cbb_buffer_reserve al len b = (None, b') \<Longrightarrow> b' = b\<lparr>cbb_error := True\<rparr>"
  by (auto simp: cbb_buffer_reserve_def Let_def split: if_splits option.splits)

lemma buffer_reserve_total:
  assumes "buffer_wf b" "fits al b (cbb_len b + len)"
  shows "\<exists>off b'. cbb_buffer_reserve al len b = (Some off, b')"
proof (cases "cbb_len b + len > cbb_cap b")
  case True
  let ?n = "cbb_len b + len"
  from True assms(2) have f: "cbb_can_resize b" "?n \<le> 2 ^ 62" "\<forall>k \<le> 2 * ?n + 8. al k \<noteq> None"
    by (auto simp: fits_def)
  have new: "size_add (cbb_len b) len = ?n" using f by (intro size_add_exact) simp
  have dbl: "size_mul (cbb_cap b) 2 = cbb_cap b * 2" using f True by (intro size_mul_exact) simp
  define nc where "nc = (if cbb_cap b * 2 < cbb_cap b \<or> cbb_cap b * 2 < ?n then ?n else cbb_cap b * 2)"
  have "nc \<le> 2 * ?n" using True by (auto simp: nc_def)
  then have "al (nc + 8) \<noteq> None" "nc + 8 \<le> SIZE_MAX" using f by auto
  then have "OPENSSL_malloc al nc \<noteq> None" by (simp add: OPENSSL_malloc_None_iff)
  then obtain nb where "OPENSSL_realloc al (Some (cbb_buf b)) nc = Some nb"
    by (auto simp: OPENSSL_realloc_def Let_def split: option.splits)
  with f True show ?thesis
    by (simp add: cbb_buffer_reserve_def new dbl nc_def Let_def)
next
  case False
  with assms(1) have "size_add (cbb_len b) len = cbb_len b + len"
    by (intro size_add_exact) (simp add: buffer_wf_def)
  with False show ?thesis by (simp add: cbb_buffer_reserve_def)
qed

text \<open>Space added at the end and then filled appends to the output.\<close>

lemma buffer_add_Some:
  assumes "buffer_wf b" "len \<le> SIZE_MAX" "cbb_buffer_add al len b = (Some off, b')"
  shows "off = cbb_len b \<and> cbb_len b' = cbb_len b + len \<and> take (cbb_len b) (cbb_buf b') = buffer_out b \<and>
    buffer_le b b' \<and> cbb_error b' = cbb_error b"
  using assms(3) buffer_reserve_Some [OF assms(1,2)]
  by (fastforce simp: cbb_buffer_add_def pbind_eq_Some buffer_le_def buffer_wf_def buffer_out_def)

lemma buffer_add_None:
  "cbb_buffer_add al len b = (None, b') \<Longrightarrow> b' = b\<lparr>cbb_error := True\<rparr>"
  by (auto simp: cbb_buffer_add_def pbind_def split: prod.splits option.splits dest: buffer_reserve_None)

lemma buffer_add_total:
  assumes "buffer_wf b" "fits al b (cbb_len b + len)"
  shows "\<exists>off b'. cbb_buffer_add al len b = (Some off, b')"
  using buffer_reserve_total [OF assms] by (auto simp: cbb_buffer_add_def pbind_eq_Some)

lemma buffer_wf_error [simp]: "buffer_wf (b\<lparr>cbb_error := e\<rparr>) = buffer_wf b"
  by (simp add: buffer_wf_def)

lemma buffer_out_error [simp]: "buffer_out (b\<lparr>cbb_error := e\<rparr>) = buffer_out b"
  by (simp add: buffer_out_def)

section \<open>Length octets\<close>

lemma put_be_eq:
  assumes "off + n \<le> length buf"
  shows "put_be buf off n v = (buf_write buf off (be_bytes n (unat v)), drop_bit (8 * n) v)"
  using assms
proof (induction n arbitrary: buf v)
  case 0
  show ?case by simp
next
  case (Suc n)
  have u: "unat (drop_bit 8 v) = unat v div 256" by (simp add: unat_drop_bit)
  have b: "(of_nat (unat v) :: u8) = ucast v" by simp
  have "buf_write (buf[off + n := ucast v]) off (be_bytes n (unat v div 256)) =
      buf_write buf off (be_bytes n (unat v div 256) @ [ucast v])"
    using Suc.prems by (simp add: buf_write_def drop_update_swap Cons_nth_drop_Suc [symmetric])
  with Suc show ?case
    by (simp add: u b add.commute [of 8])
qed

lemma drop_bytes_eq_0: "drop_bit (8 * n) (v :: u64) = 0 \<longleftrightarrow> unat v < 256 ^ n"
  by (simp add: drop_bit_eq_0_unat power_mult)

lemma write_prefix_eq:
  assumes "off + n \<le> length (cbb_buf b)" "len \<le> SIZE_MAX"
  shows "cbb_write_prefix off n len b =
    (if len < 256 ^ n then Some () else None, b\<lparr>cbb_buf := buf_write (cbb_buf b) off (be_bytes n len)\<rparr>)"
proof -
  have "unat (of_nat len :: u64) = len"
    using assms(2) by (simp add: unat_of_nat)
  with assms(1) show ?thesis
    by (simp add: cbb_write_prefix_def put_be_eq drop_bytes_eq_0)
qed

datatype prefix = Asn1_prefix | Fixed_prefix nat

fun prefix_len :: "prefix \<Rightarrow> nat" where
  "prefix_len Asn1_prefix = 1"
| "prefix_len (Fixed_prefix n) = n"

definition close_prefix :: "prefix \<Rightarrow> u8 list \<Rightarrow> u8 list option" where
  "close_prefix k y =
     (case k of
        Asn1_prefix \<Rightarrow> if length y \<le> 0xfffffffe then Some (der_length (length y) @ y) else None
      | Fixed_prefix n \<Rightarrow> if length y < 256 ^ n then Some (length_prefixed n y) else None)"

lemma close_prefix_grows: "close_prefix k y = Some z \<Longrightarrow> prefix_len k + length y \<le> length z"
  using length_der_length(1) [of "length y"]
  by (auto simp: close_prefix_def length_prefixed_def split: prefix.splits if_splits)

definition child_prefix :: "cbb_child \<Rightarrow> prefix" where
  "child_prefix c = (if child_pending_is_asn1 c then Asn1_prefix else Fixed_prefix (child_pending_len_len c))"

definition child_wf :: "cbb_child \<Rightarrow> bool" where
  "child_wf c \<longleftrightarrow> (child_pending_is_asn1 c \<longrightarrow> child_pending_len_len c = 1)"

abbreviation child_start :: "cbb_child \<Rightarrow> nat" where
  "child_start c \<equiv> child_offset c + child_pending_len_len c"

lemma asn1_len_len_None: "asn1_len_len n = None \<longleftrightarrow> 0xfffffffe < n"
  by (simp add: asn1_len_len_def)

lemma asn1_len_len_Some:
  assumes "asn1_len_len n = Some (len_len, ib, v)"
  shows "n \<le> 0xfffffffe \<and> len_len = Suc (len_len - 1) \<and> len_len - 1 \<le> 4 \<and> v \<le> n \<and>
    v < 256 ^ (len_len - 1) \<and> der_length n = ib # be_bytes (len_len - 1) v"
  using assms by (auto simp: asn1_len_len_def der_length_def split: if_splits)

text \<open>
  Closing a child writes its length octets in front of its contents, moving the contents
  when more octets are needed than were reserved.
\<close>

lemma flush_child_fixed:
  assumes b: "buffer_wf b" and c: "\<not> child_pending_is_asn1 c" "child_start c \<le> cbb_len b"
  shows "cbb_flush_child al c b =
    (let y = drop (child_start c) (buffer_out b); n = child_pending_len_len c
     in (if length y < 256 ^ n then Some () else None,
         b\<lparr>cbb_buf := buf_write (cbb_buf b) (child_offset c) (be_bytes n (length y))\<rparr>))"
proof -
  have "size_add (child_offset c) (child_pending_len_len c) = child_start c"
    using b c(2) unfolding buffer_wf_def by (intro size_add_exact) linarith
  moreover have "length (drop (child_start c) (buffer_out b)) = cbb_len b - child_start c"
    using b by simp
  moreover have "child_start c \<le> length (cbb_buf b)" "cbb_len b - child_start c \<le> SIZE_MAX"
    using b c(2) unfolding buffer_wf_def by linarith+
  ultimately show ?thesis
    using c by (simp add: cbb_flush_child_def Let_def write_prefix_eq)
qed

lemma flush_child_asn1:
  assumes b: "buffer_wf b" and c: "child_pending_is_asn1 c" "child_wf c" "child_start c \<le> cbb_len b"
  shows "cbb_flush_child al c b =
    (let y = drop (child_start c) (buffer_out b); start = child_start c
     in case asn1_len_len (length y) of
          None \<Rightarrow> (None, b)
        | Some (len_len, ib, v) \<Rightarrow>
            pbind (if len_len \<noteq> 1
                   then pbind (cbb_buffer_add al (len_len - 1)) (\<lambda>_ b.
                          (Some (), b\<lparr>cbb_buf := buf_write (cbb_buf b) (start + (len_len - 1))
                             (take (length y) (drop start (cbb_buf b)))\<rparr>))
                   else pret ())
              (\<lambda>_ b. cbb_write_prefix (child_offset c + 1) (len_len - 1) v
                       (b\<lparr>cbb_buf := (cbb_buf b)[child_offset c := ib]\<rparr>)) b)"
proof -
  have "size_add (child_offset c) (child_pending_len_len c) = child_start c"
    using b c(3) unfolding buffer_wf_def by (intro size_add_exact) linarith
  moreover have "length (drop (child_start c) (buffer_out b)) = cbb_len b - child_start c"
    using b by simp
  ultimately show ?thesis
    using c unfolding cbb_flush_child_def Let_def
    by (simp only: if_True if_False not_add_less1 not_less [symmetric] not_not simp_thms)
qed

lemma flush_child_write:
  assumes "buffer_wf b" "take (child_start c) (cbb_buf b) = o1" "child_pending_is_asn1 c" "child_wf c"
    and "v < 256 ^ e" "v \<le> SIZE_MAX" "child_start c + e + length y = cbb_len b"
    and "cbb_buf b = buf_write buf (child_start c + e) y" "length buf = cbb_cap b"
  shows "\<exists>b'. cbb_write_prefix (child_offset c + 1) e v (b\<lparr>cbb_buf := (cbb_buf b)[child_offset c := ib]\<rparr>) = (Some (), b')
    \<and> buffer_le b b' \<and> cbb_error b' = cbb_error b \<and> cbb_len b' = cbb_len b \<and>
    buffer_out b' = take (child_offset c) o1 @ (ib # be_bytes e v) @ y"
proof -
  let ?off = "child_offset c" and ?p = "ib # be_bytes e v"
  have len: "length (cbb_buf b) = cbb_cap b" "cbb_len b \<le> cbb_cap b" and pll: "child_pending_len_len c = 1"
    using assms(1,3,4) by (simp_all add: buffer_wf_def child_wf_def)
  then have sz: "?off + length ?p + length y = cbb_len b" "?off < length (cbb_buf b)"
    using assms(7) by simp_all
  have w: "cbb_write_prefix (?off + 1) e v (b\<lparr>cbb_buf := (cbb_buf b)[?off := ib]\<rparr>) =
      (Some (), b\<lparr>cbb_buf := buf_write (cbb_buf b) ?off ?p\<rparr>)"
    using assms(5,6) sz len by (simp add: write_prefix_eq buf_write_Cons)
  have "take (cbb_len b) (buf_write (cbb_buf b) ?off ?p) = take ?off buf @ ?p @ y"
    using take_two_writes [of ?off ?p y buf] sz len assms(8,9) pll by simp
  moreover have "take ?off buf = take ?off o1"
    using assms(2,8) sz len assms(9) pll by (auto simp: buf_write_def min_def)
  ultimately show ?thesis
    using w sz len assms(1) by (auto simp: buffer_out_def buffer_le_def buffer_wf_def)
qed

text \<open>What closing a child does to the buffer, for both kinds of prefix.\<close>

definition child_flushed :: "allocator \<Rightarrow> cbb_child \<Rightarrow> cbb_buffer \<Rightarrow> unit option \<times> cbb_buffer \<Rightarrow> bool" where
  "child_flushed al c b res =
     (let y = drop (child_start c) (buffer_out b)
      in case res of
           (Some _, b') \<Rightarrow> \<exists>z. close_prefix (child_prefix c) y = Some z \<and> buffer_le b b' \<and>
              cbb_error b' = cbb_error b \<and> buffer_out b' = take (child_offset c) (buffer_out b) @ z
         | (None, b') \<Rightarrow> buffer_le b b' \<and> cbb_len b \<le> cbb_len b' \<and>
              (\<forall>z. close_prefix (child_prefix c) y = Some z \<longrightarrow> \<not> fits al b (child_offset c + length z)))"

lemma flush_child_fixed_spec:
  assumes b: "buffer_wf b" and c: "\<not> child_pending_is_asn1 c" "child_start c \<le> cbb_len b"
  shows "child_flushed al c b (cbb_flush_child al c b)"
proof -
  let ?n = "child_pending_len_len c" and ?y = "drop (child_start c) (buffer_out b)"
  define b' where "b' = b\<lparr>cbb_buf := buf_write (cbb_buf b) (child_offset c) (be_bytes ?n (length ?y))\<rparr>"
  have "child_offset c + length (be_bytes ?n (length ?y)) \<le> cbb_len b" using c by simp
  moreover have "cbb_len b \<le> length (cbb_buf b)" using b by (simp add: buffer_wf_def)
  ultimately have "buffer_le b b'" "buffer_out b' = take (child_offset c) (buffer_out b) @ length_prefixed ?n ?y"
    using b c by (simp_all add: buffer_le_def buffer_wf_def b'_def buffer_out_def take_buf_write_beyond
        buf_write_def [of "take _ _"] length_prefixed_def)
  then show ?thesis
    using b c by (simp add: flush_child_fixed child_flushed_def Let_def b'_def child_prefix_def close_prefix_def)
qed

lemma buffer_slice:
  assumes "take (cbb_len b) buf = buffer_out b" "cbb_len b \<le> length buf" "start \<le> cbb_len b" "buffer_wf b"
  shows "take (cbb_len b - start) (drop start buf) = drop start (buffer_out b)"
    and "take start buf = take start (buffer_out b)"
  using assms by (simp_all add: assms(1) [symmetric] drop_take min_def)

text \<open>The ASN.1 case, after the contents have been moved by \<open>e\<close> bytes.\<close>

lemma flush_child_asn1_finish:
  assumes b: "buffer_wf b" and c: "child_pending_is_asn1 c" "child_wf c" "child_start c \<le> cbb_len b"
    and p: "asn1_len_len (length y) = Some (len_len, ib, v)"
    and y: "y = drop (child_start c) (buffer_out b)"
    and b1: "buffer_le b b1" "cbb_len b1 = cbb_len b + (len_len - 1)" "cbb_error b1 = cbb_error b"
      "take (cbb_len b) buf = buffer_out b" "length buf = cbb_cap b1"
      "cbb_buf b1 = buf_write buf (child_start c + (len_len - 1)) y"
  shows "child_flushed al c b (cbb_write_prefix (child_offset c + 1) (len_len - 1) v
           (b1\<lparr>cbb_buf := (cbb_buf b1)[child_offset c := ib]\<rparr>))"
proof -
  define e where "e = len_len - 1"
  note l = asn1_len_len_Some [OF p, folded e_def] and b1' = b1 [folded e_def]
  have ly: "length y = cbb_len b - child_start c" using b by (simp add: y)
  have wf1: "buffer_wf b1" using b1(1) by (simp add: buffer_le_def)
  have lb: "cbb_len b \<le> length buf" "child_start c + e + length y = cbb_len b1"
    using b1' wf1 ly c(3) by (simp_all add: buffer_wf_def)
  have "take (child_start c) (cbb_buf b1) = take (child_start c) buf"
    using lb b1'(6) wf1 b1'(5) by (simp add: buffer_wf_def)
  also have "\<dots> = take (child_start c) (buffer_out b)"
    using buffer_slice(2) [OF b1(4) lb(1) c(3) b] .
  finally obtain b2 where w: "cbb_write_prefix (child_offset c + 1) e v (b1\<lparr>cbb_buf := (cbb_buf b1)[child_offset c := ib]\<rparr>) = (Some (), b2)"
      "buffer_le b1 b2" "cbb_error b2 = cbb_error b1"
      "buffer_out b2 = take (child_offset c) (take (child_start c) (buffer_out b)) @ (ib # be_bytes e v) @ y"
    using flush_child_write [OF wf1 _ c(1,2), of "take (child_start c) (buffer_out b)" v e y buf ib] l lb b1'
    by (auto simp del: unsigned_of_nat)
  have "close_prefix (child_prefix c) y = Some (ib # be_bytes e v @ y)"
    using c(1) l by (simp add: child_prefix_def close_prefix_def)
  with w b1(1,3) show ?thesis
    unfolding child_flushed_def e_def [symmetric] w(1)
    by (auto simp: y [symmetric] Let_def min_def intro: buffer_le_trans)
qed

lemma flush_child_asn1_spec:
  assumes b: "buffer_wf b" and c: "child_pending_is_asn1 c" "child_wf c" "child_start c \<le> cbb_len b"
  shows "child_flushed al c b (cbb_flush_child al c b)"
proof -
  define y where "y = drop (child_start c) (buffer_out b)"
  have y: "length y = cbb_len b - child_start c" and pll: "child_pending_len_len c = 1"
    using b c by (simp_all add: y_def child_wf_def)
  have len: "cbb_len b \<le> length (cbb_buf b)" "length (cbb_buf b) = cbb_cap b" using b by (simp_all add: buffer_wf_def)
  note alt = flush_child_asn1 [OF b c, of al, unfolded Let_def, folded y_def]
  show ?thesis
  proof (cases "asn1_len_len (length y)")
    case None
    then have "close_prefix (child_prefix c) y = None"
      using c(1) by (simp add: child_prefix_def close_prefix_def asn1_len_len_None)
    with b None show ?thesis by (simp add: alt child_flushed_def y_def [symmetric] Let_def)
  next
    case (Some p)
    then obtain len_len ib v where p: "asn1_len_len (length y) = Some (len_len, ib, v)" by (cases p) auto
    note l = asn1_len_len_Some [OF p] and fin = flush_child_asn1_finish [OF b c p y_def]
    consider (short) "len_len = 1" | (full) b1 where "len_len \<noteq> 1" "cbb_buffer_add al (len_len - 1) b = (None, b1)"
      | (moved) off b1 where "len_len \<noteq> 1" "cbb_buffer_add al (len_len - 1) b = (Some off, b1)"
      by (cases "cbb_buffer_add al (len_len - 1) b"; cases "fst (cbb_buffer_add al (len_len - 1) b)") auto
    then show ?thesis
    proof cases
      case short
      have "cbb_buf b = buf_write (cbb_buf b) (child_start c) y"
        using buf_write_same [of "child_start c" "length y" "cbb_buf b"] buffer_slice(1) [of b "cbb_buf b" "child_start c"]
          b c(3) y len by (simp add: y_def buffer_out_def)
      with short b len show ?thesis
        using fin [of b "cbb_buf b" al] by (simp add: alt p op_simps buffer_out_def)
    next
      case full
      have "close_prefix (child_prefix c) y = Some (der_length (length y) @ y)"
        using c(1) l by (simp add: child_prefix_def close_prefix_def)
      moreover have "child_offset c + length (der_length (length y) @ y) = cbb_len b + (len_len - 1)"
        using l c(3) y pll by (cases len_len) auto
      moreover have "\<not> fits al b (cbb_len b + (len_len - 1))" using buffer_add_total [OF b] full(2) by fastforce
      moreover have "b1 = b\<lparr>cbb_error := True\<rparr>" using full(2) by (rule buffer_add_None)
      ultimately show ?thesis
        using full b by (simp add: alt p op_simps child_flushed_def y_def [symmetric] Let_def buffer_le_def)
    next
      case moved
      have "len_len - 1 \<le> SIZE_MAX" using l by simp
      note a = buffer_add_Some [OF b this moved(2)]
      have len1: "cbb_len b + (len_len - 1) \<le> cbb_cap b1" "length (cbb_buf b1) = cbb_cap b1"
        using a by (auto simp: buffer_le_def buffer_wf_def)
      have sl: "take (length y) (drop (child_start c) (cbb_buf b1)) = y"
        using buffer_slice(1) [of b "cbb_buf b1" "child_start c"] a len1 c(3) b y by (simp add: y_def)
      let ?b2 = "b1\<lparr>cbb_buf := buf_write (cbb_buf b1) (child_start c + (len_len - 1)) y\<rparr>"
      have "buffer_le b ?b2"
        using a len1 y c(3) by (simp add: buffer_le_def buffer_wf_def)
      with moved a len1 sl show ?thesis
        using fin [of ?b2 "cbb_buf b1" al] by (simp add: alt p op_simps)
    qed
  qed
qed

lemma flush_child_spec:
  assumes "buffer_wf b" "child_wf c" "child_start c \<le> cbb_len b"
  shows "child_flushed al c b (cbb_flush_child al c b)"
  using assms by (cases "child_pending_is_asn1 c") (simp_all add: flush_child_fixed_spec flush_child_asn1_spec)

section \<open>The stack of open strings\<close>

type_synonym cbb_stack = "u8 list \<times> (prefix \<times> u8 list) list"

text \<open>\<open>cs\<close> are the pending children, innermost first.\<close>

fun chain_wf :: "nat \<Rightarrow> cbb_child list \<Rightarrow> bool" where
  "chain_wf n [] = True"
| "chain_wf n (c # cs) = (child_start c \<le> n \<and> child_wf c \<and> chain_wf (child_offset c) cs)"

fun open_strings :: "u8 list \<Rightarrow> cbb_child list \<Rightarrow> cbb_stack" where
  "open_strings out [] = (out, [])"
| "open_strings out (c # cs) =
     (case open_strings (take (child_offset c) out) cs of
        (y, r) \<Rightarrow> (drop (child_start c) out, (child_prefix c, y) # r))"

definition cbb_wf :: "CBB \<Rightarrow> bool" where
  "cbb_wf cbb \<longleftrightarrow> buffer_wf (cbb_base cbb) \<and> chain_wf (cbb_len (cbb_base cbb)) (rev (cbb_children cbb))"

definition cbb_abs :: "CBB \<Rightarrow> cbb_stack" where
  "cbb_abs cbb = open_strings (buffer_out (cbb_base cbb)) (rev (cbb_children cbb))"

fun stack_size :: "cbb_stack \<Rightarrow> nat" where
  "stack_size (y, r) = length y + (\<Sum>(k, x) \<leftarrow> r. prefix_len k + length x)"

fun close_top :: "cbb_stack \<Rightarrow> cbb_stack option" where
  "close_top (y, []) = None"
| "close_top (y, (k, x) # r) = map_option (\<lambda>z. (x @ z, r)) (close_prefix k y)"

fun flush_to :: "nat \<Rightarrow> cbb_stack \<Rightarrow> cbb_stack option" where
  "flush_to d (y, []) = (if d = 0 then Some (y, []) else None)"
| "flush_to d (y, (k, x) # r) =
     (if d = Suc (length r) then Some (y, (k, x) # r)
      else if Suc (length r) < d then None
      else Option.bind (close_prefix k y) (\<lambda>z. flush_to d (x @ z, r)))"

definition append_to :: "nat \<Rightarrow> u8 list \<Rightarrow> cbb_stack \<Rightarrow> cbb_stack option" where
  "append_to d bs st = map_option (\<lambda>(y, r). (y @ bs, r)) (flush_to d st)"

definition push_to :: "nat \<Rightarrow> prefix \<Rightarrow> cbb_stack \<Rightarrow> cbb_stack option" where
  "push_to d k st = map_option (\<lambda>(y, r). ([], (k, y) # r)) (flush_to d st)"

lemma chain_wf_mono: "chain_wf n cs \<Longrightarrow> n \<le> m \<Longrightarrow> chain_wf m cs"
  by (cases cs) auto

lemma chain_wf_drop: "chain_wf n cs \<Longrightarrow> chain_wf n (drop k cs)"
proof (induction cs arbitrary: n k)
  case (Cons c cs)
  then have "chain_wf n cs" by (auto elim!: chain_wf_mono)
  with Cons show ?case by (cases k) auto
qed simp

lemma open_strings_append:
  assumes "chain_wf (length out) cs"
  shows "open_strings (out @ z) cs = (case open_strings out cs of (y, r) \<Rightarrow> (y @ z, r))"
proof (cases cs)
  case (Cons c cs')
  with assms have "child_offset c - length out = 0" "child_start c - length out = 0" by simp_all
  with Cons show ?thesis by (simp split: prod.splits)
qed simp

lemma length_open_strings [simp]: "length (snd (open_strings out cs)) = length cs"
  by (induction cs arbitrary: out) (auto simp: split_beta)

lemma stack_size_open_strings:
  "chain_wf (length out) cs \<Longrightarrow> stack_size (open_strings out cs) = length out"
proof (induction cs arbitrary: out)
  case (Cons c cs)
  have "prefix_len (child_prefix c) = child_pending_len_len c"
    using Cons.prems by (simp add: child_prefix_def child_wf_def)
  then show ?case
    using Cons.IH [of "take (child_offset c) out"] Cons.prems by (auto split: prod.splits)
qed simp

lemma flush_to_depth: "flush_to d st = Some (y, r) \<Longrightarrow> length r = d"
  by (induction d st rule: flush_to.induct) (auto simp: bind_eq_Some_conv split: if_splits)

lemma flush_to_id [simp]: "flush_to (length r) (y, r) = Some (y, r)"
  by (cases r) auto

lemma flush_to_detached: "length (snd st) < d \<Longrightarrow> flush_to d st = None"
  by (cases "(d, st)" rule: flush_to.cases) auto

lemma flush_to_Suc: "d < length (snd st) \<Longrightarrow> flush_to d st = Option.bind (flush_to (Suc d) st) close_top"
proof (induction d st rule: flush_to.induct)
  case (2 d y k x r)
  show ?case
  proof (cases "d = length r")
    case True
    then show ?thesis by (cases "close_prefix k y") auto
  next
    case False
    with 2 show ?thesis by (cases "close_prefix k y") auto
  qed
qed simp

lemma close_top_size: "close_top st = Some st' \<Longrightarrow> stack_size st \<le> stack_size st'"
  by (cases st rule: close_top.cases) (auto dest: close_prefix_grows)

lemma flush_to_size: "flush_to d st = Some st' \<Longrightarrow> stack_size st \<le> stack_size st'"
proof (induction d st rule: flush_to.induct)
  case (2 d y k x r)
  then show ?case
    by (fastforce simp: bind_eq_Some_conv split: if_splits dest: close_prefix_grows)
qed (auto split: if_splits)

section \<open>Operations that implement an effect on the stack\<close>

definition cbb_le :: "CBB \<Rightarrow> CBB \<Rightarrow> bool" where
  "cbb_le cbb cbb' \<longleftrightarrow> cbb_wf cbb' \<and> buffer_le (cbb_base cbb) (cbb_base cbb')"

abbreviation cbb_failed :: "CBB \<Rightarrow> bool" where
  "cbb_failed cbb \<equiv> cbb_error (cbb_base cbb)"

text \<open>
  \<open>f\<close>, called on the \<open>CBB\<close> at depth \<open>d\<close>, implements the partial effect
  \<open>e\<close>: a successful call performs it and keeps the invariant; a failing call keeps
  the invariant and leaves the builder in the error state; in the error state every call
  fails; and a call whose effect is defined succeeds when the result fits.
\<close>

locale builder_op =
  fixes al :: allocator
    and d :: nat
    and f :: "(CBB, 'a) op"
    and e :: "cbb_stack \<Rightarrow> cbb_stack option"
  assumes op_Some: "cbb_wf cbb \<Longrightarrow> f cbb = (Some v, cbb') \<Longrightarrow>
      cbb_le cbb cbb' \<and> \<not> cbb_failed cbb \<and> \<not> cbb_failed cbb' \<and> e (cbb_abs cbb) = Some (cbb_abs cbb')"
    and op_None: "cbb_wf cbb \<Longrightarrow> f cbb = (None, cbb') \<Longrightarrow>
      cbb_le cbb cbb' \<and> (cbb_attached d cbb \<longrightarrow> cbb_failed cbb')"
    and op_total: "cbb_wf cbb \<Longrightarrow> \<not> cbb_failed cbb \<Longrightarrow> e (cbb_abs cbb) = Some st \<Longrightarrow>
      fits al (cbb_base cbb) (stack_size st) \<Longrightarrow> fst (f cbb) \<noteq> None"
    and effect_grows: "e st = Some st' \<Longrightarrow> stack_size st \<le> stack_size st'"
begin

lemma sticky: "cbb_wf cbb \<Longrightarrow> cbb_failed cbb \<Longrightarrow> fst (f cbb) = None"
  using op_Some [of cbb] by (cases "f cbb") fastforce

lemma keeps_wf: "cbb_wf cbb \<Longrightarrow> cbb_wf (snd (f cbb))"
  using op_Some [of cbb] op_None [of cbb]
  by (cases "f cbb"; cases "fst (f cbb)") (auto simp: cbb_le_def)

lemma runs:
  assumes "cbb_wf cbb" "\<not> cbb_failed cbb" "e (cbb_abs cbb) = Some st" "fits al (cbb_base cbb) (stack_size st)"
  shows "\<exists>v cbb'. f cbb = (Some v, cbb') \<and> cbb_le cbb cbb' \<and> \<not> cbb_failed cbb' \<and> cbb_abs cbb' = st"
  using op_total [OF assms] op_Some [OF assms(1)] assms(3) by (cases "f cbb") fastforce

end

lemma cbb_le_trans: "cbb_le a b \<Longrightarrow> cbb_le b c \<Longrightarrow> cbb_le a c"
  by (auto simp: cbb_le_def intro: buffer_le_trans)

lemma cbb_wf_le: "cbb_wf cbb \<Longrightarrow> cbb_le cbb cbb"
  by (simp add: cbb_le_def cbb_wf_def)

text \<open>Two operations in sequence implement the two effects in sequence.\<close>

lemma depth_cbb_abs: "length (snd (cbb_abs cbb)) = length (cbb_children cbb)"
  by (simp add: cbb_abs_def)

lemma builder_op_bind:
  assumes f: "builder_op al d f e1" and g: "\<And>v. builder_op al d' (g v) e2"
    and d': "\<And>st st'. e1 st = Some st' \<Longrightarrow> d' \<le> length (snd st')"
  shows "builder_op al d (pbind f g) (\<lambda>st. Option.bind (e1 st) e2)"
proof
  fix cbb v cbb' assume wf: "cbb_wf cbb" and run: "pbind f g cbb = (Some v, cbb')"
  then obtain w c where "f cbb = (Some w, c)" "g w c = (Some v, cbb')" by (auto simp: pbind_eq_Some)
  with builder_op.op_Some [OF f wf, of w c] builder_op.op_Some [OF g, of c w v cbb']
  show "cbb_le cbb cbb' \<and> \<not> cbb_failed cbb \<and> \<not> cbb_failed cbb' \<and>
      Option.bind (e1 (cbb_abs cbb)) e2 = Some (cbb_abs cbb')"
    by (auto simp: cbb_le_def intro: buffer_le_trans)
next
  fix cbb cbb' assume wf: "cbb_wf cbb" and run: "pbind f g cbb = (None, cbb')"
  then consider "f cbb = (None, cbb')" | w c where "f cbb = (Some w, c)" "g w c = (None, cbb')"
    by (auto simp: pbind_def split: prod.splits option.splits)
  then show "cbb_le cbb cbb' \<and> (cbb_attached d cbb \<longrightarrow> cbb_failed cbb')"
  proof cases
    case 1
    then show ?thesis using builder_op.op_None [OF f wf] by blast
  next
    case 2
    note s = builder_op.op_Some [OF f wf 2(1)]
    then have "cbb_attached d' c"
      using d' [of "cbb_abs cbb" "cbb_abs c"] by (simp add: cbb_attached_def depth_cbb_abs)
    with s builder_op.op_None [OF g _ 2(2)] show ?thesis
      by (auto simp: cbb_le_def intro: buffer_le_trans)
  qed
next
  fix cbb st assume wf: "cbb_wf cbb" and ok: "\<not> cbb_failed cbb"
    and e: "Option.bind (e1 (cbb_abs cbb)) e2 = Some st" and fit: "fits al (cbb_base cbb) (stack_size st)"
  from e obtain st1 where e1: "e1 (cbb_abs cbb) = Some st1" and e2: "e2 st1 = Some st" by (auto simp: bind_eq_Some_conv)
  have "fits al (cbb_base cbb) (stack_size st1)"
    using fit builder_op.effect_grows [OF g e2] by (rule fits_mono)
  then obtain w c where c: "f cbb = (Some w, c)" "cbb_le cbb c" "\<not> cbb_failed c" "cbb_abs c = st1"
    using builder_op.runs [OF f wf ok e1] by blast
  moreover have "fits al (cbb_base c) (stack_size st)"
    using fit c(2) by (auto simp: cbb_le_def intro: fits_le)
  ultimately show "fst (pbind f g cbb) \<noteq> None"
    using builder_op.op_total [OF g, of c st w] e2 by (simp add: pbind_def cbb_le_def)
next
  fix st st' assume "Option.bind (e1 st) e2 = Some st'"
  then show "stack_size st \<le> stack_size st'"
    by (auto simp: bind_eq_Some_conv intro: order_trans [OF builder_op.effect_grows [OF f] builder_op.effect_grows [OF g]])
qed

section \<open>Flushing\<close>

lemma cbb_abs_append:
  assumes "cbb_wf cbb" "buffer_out (cbb_base cbb') = buffer_out (cbb_base cbb) @ bs" "cbb_children cbb' = cbb_children cbb"
  shows "cbb_abs cbb' = (case cbb_abs cbb of (y, r) \<Rightarrow> (y @ bs, r))"
  using assms open_strings_append [of "buffer_out (cbb_base cbb)" "rev (cbb_children cbb)" bs]
  by (simp add: cbb_abs_def cbb_wf_def)

lemma cbb_wf_on_error:
  assumes "cbb_wf cbb"
  shows "cbb_wf (cbb_on_error d cbb)"
  using assms chain_wf_drop [of "cbb_len (cbb_base cbb)" "rev (cbb_children cbb)"]
  by (simp add: cbb_on_error_def cbb_wf_def rev_take)

text \<open>Closing the innermost child of a chain.\<close>

lemma close_child:
  assumes wf: "cbb_wf cbb" and ch: "cbb_children cbb = cs @ [c]"
    and f: "cbb_flush_child al c (cbb_base cbb) = (r, b')"
  shows "buffer_le (cbb_base cbb) b'"
    and "r \<noteq> None \<Longrightarrow> cbb_error b' = cbb_failed cbb \<and> cbb_wf (cbb\<lparr>cbb_base := b', cbb_children := cs\<rparr>) \<and>
           close_top (cbb_abs cbb) = Some (cbb_abs (cbb\<lparr>cbb_base := b', cbb_children := cs\<rparr>))"
    and "r = None \<Longrightarrow> cbb_wf (cbb\<lparr>cbb_base := b'\<rparr>) \<and>
           (\<forall>st. close_top (cbb_abs cbb) = Some st \<longrightarrow> \<not> fits al (cbb_base cbb) (stack_size st))"
proof -
  let ?out = "buffer_out (cbb_base cbb)"
  from wf ch have b: "buffer_wf (cbb_base cbb)" and c: "child_wf c" "child_start c \<le> cbb_len (cbb_base cbb)"
    and cs: "chain_wf (child_offset c) (rev cs)" by (simp_all add: cbb_wf_def)
  note spec = flush_child_spec [OF b c, of al, unfolded f child_flushed_def Let_def prod.case]
  obtain x r0 where o: "open_strings (take (child_offset c) ?out) (rev cs) = (x, r0)" by fastforce
  have lt: "length (take (child_offset c) ?out) = child_offset c" using b c by simp
  have abs: "cbb_abs cbb = (drop (child_start c) ?out, (child_prefix c, x) # r0)"
    by (simp add: cbb_abs_def ch o)
  have ext: "open_strings (take (child_offset c) ?out @ z) (rev cs) = (x @ z, r0)" for z
    using open_strings_append [of "take (child_offset c) ?out" "rev cs" z] cs o lt by simp
  show "buffer_le (cbb_base cbb) b'" using spec by (cases r) auto
  show "cbb_error b' = cbb_failed cbb \<and> cbb_wf (cbb\<lparr>cbb_base := b', cbb_children := cs\<rparr>) \<and>
           close_top (cbb_abs cbb) = Some (cbb_abs (cbb\<lparr>cbb_base := b', cbb_children := cs\<rparr>))" if "r \<noteq> None"
  proof -
    from that spec obtain z where z: "close_prefix (child_prefix c) (drop (child_start c) ?out) = Some z"
      "buffer_le (cbb_base cbb) b'" "cbb_error b' = cbb_failed cbb" "buffer_out b' = take (child_offset c) ?out @ z" by auto
    then have wf': "buffer_wf b'" by (simp add: buffer_le_def)
    then have "cbb_len b' = child_offset c + length z"
      using arg_cong [OF z(4), of length] lt by simp
    then show ?thesis
      using z wf' cs unfolding abs by (simp add: cbb_wf_def cbb_abs_def ext chain_wf_mono)
  qed
  show "cbb_wf (cbb\<lparr>cbb_base := b'\<rparr>) \<and>
           (\<forall>st. close_top (cbb_abs cbb) = Some st \<longrightarrow> \<not> fits al (cbb_base cbb) (stack_size st))" if "r = None"
  proof -
    have "stack_size (x @ z, r0) = child_offset c + length z" for z
      using stack_size_open_strings [of "take (child_offset c) ?out" "rev cs"] cs o lt by simp
    then show ?thesis
      using that spec wf by (auto simp: abs cbb_wf_def buffer_le_def simp del: stack_size.simps intro: chain_wf_mono)
  qed
qed

lemma CBB_flush_outer:
  assumes "d < length (cbb_children cbb)" "\<not> cbb_failed cbb"
  shows "CBB_flush al d cbb =
    (case CBB_flush al (Suc d) cbb of
       (None, cbb') \<Rightarrow> (None, cbb_on_error d cbb')
     | (Some _, cbb') \<Rightarrow>
         (case cbb_flush_child al (cbb_children cbb ! d) (cbb_base cbb') of
            (None, base) \<Rightarrow> (None, cbb_on_error d (cbb'\<lparr>cbb_base := base\<rparr>))
          | (Some _, base) \<Rightarrow>
              (Some (), cbb'\<lparr>cbb_base := base, cbb_children := take d (cbb_children cbb')\<rparr>)))"
  using assms by (subst CBB_flush.simps) (simp add: cbb_attached_def)

lemma CBB_flush_done: "\<not> cbb_failed cbb \<Longrightarrow> CBB_flush al (length (cbb_children cbb)) cbb = (Some (), cbb)"
  by (subst CBB_flush.simps) (simp add: cbb_attached_def)

lemma CBB_flush_stuck: "\<not> cbb_attached d cbb \<or> cbb_failed cbb \<Longrightarrow> CBB_flush al d cbb = (None, cbb)"
  by (subst CBB_flush.simps) auto

text \<open>
  One induction over the depth, from the innermost \<open>CBB\<close> outwards, gives everything
  about \<open>CBB_flush\<close>.
\<close>

definition flush_ok :: "allocator \<Rightarrow> nat \<Rightarrow> CBB \<Rightarrow> bool" where
  "flush_ok al d cbb =
     (case CBB_flush al d cbb of
        (Some _, cbb') \<Rightarrow> cbb_le cbb cbb' \<and> \<not> cbb_failed cbb' \<and>
           cbb_children cbb' = take d (cbb_children cbb) \<and> flush_to d (cbb_abs cbb) = Some (cbb_abs cbb')
      | (None, cbb') \<Rightarrow> cbb_le cbb cbb' \<and> cbb_failed cbb' \<and>
           (\<forall>st. flush_to d (cbb_abs cbb) = Some st \<longrightarrow> \<not> fits al (cbb_base cbb) (stack_size st)))"

lemma flush_ok_step:
  assumes wf: "cbb_wf cbb" "\<not> cbb_failed cbb" and d: "d < length (cbb_children cbb)"
    and inner: "flush_ok al (Suc d) cbb"
  shows "flush_ok al d cbb"
proof (cases "CBB_flush al (Suc d) cbb")
  case (Pair r c1)
  have fl: "flush_to d (cbb_abs cbb) = Option.bind (flush_to (Suc d) (cbb_abs cbb)) close_top"
    using d by (intro flush_to_Suc) (simp add: depth_cbb_abs)
  note out = CBB_flush_outer [OF d wf(2), of al]
  show ?thesis
  proof (cases r)
    case None
    with Pair inner have "cbb_le cbb c1"
      and nf: "\<And>st. flush_to (Suc d) (cbb_abs cbb) = Some st \<Longrightarrow> \<not> fits al (cbb_base cbb) (stack_size st)"
      by (auto simp: flush_ok_def)
    then have "cbb_le cbb (cbb_on_error d c1)"
      by (auto simp: cbb_le_def buffer_le_def cbb_wf_on_error) (simp_all add: cbb_on_error_def)
    moreover have "\<not> fits al (cbb_base cbb) (stack_size st)" if "flush_to d (cbb_abs cbb) = Some st" for st
      using that nf fits_mono by (fastforce simp: fl bind_eq_Some_conv dest: close_top_size)
    ultimately show ?thesis
      using Pair None by (simp add: flush_ok_def out) (simp add: cbb_on_error_def)
  next
    case (Some u)
    let ?c = "cbb_children cbb ! d" and ?cs = "take d (cbb_children cbb)"
    from Pair Some inner have le: "cbb_le cbb c1" and ok: "\<not> cbb_failed c1" and ch: "cbb_children c1 = ?cs @ [?c]"
      and fl1: "flush_to (Suc d) (cbb_abs cbb) = Some (cbb_abs c1)"
      using d by (auto simp: flush_ok_def take_Suc_conv_app_nth)
    have wf1: "cbb_wf c1" using le by (simp add: cbb_le_def)
    obtain r2 b' where f: "cbb_flush_child al ?c (cbb_base c1) = (r2, b')" by fastforce
    note close = close_child [OF wf1 ch f]
    have tk: "take d (cbb_children c1) = ?cs" using d by (simp add: ch)
    show ?thesis
    proof (cases r2)
      case None
      have "cbb_le cbb (cbb_on_error d (c1\<lparr>cbb_base := b'\<rparr>))"
        using close(1) close(3) [OF None] le buffer_le_trans
        by (auto simp: cbb_le_def cbb_wf_on_error) (auto simp: cbb_on_error_def buffer_le_def)
      moreover have "\<not> fits al (cbb_base cbb) (stack_size st)" if "flush_to d (cbb_abs cbb) = Some st" for st
        using that close(3) [OF None] fits_le [of al "cbb_base cbb" _ "cbb_base c1"] le
        by (auto simp: fl fl1 cbb_le_def)
      ultimately show ?thesis
        using Pair Some f None by (simp add: flush_ok_def out) (simp add: cbb_on_error_def)
    next
      case r2: (Some u2)
      have "cbb_le cbb (c1\<lparr>cbb_base := b', cbb_children := ?cs\<rparr>)"
        using close(1,2) r2 le by (auto simp: cbb_le_def intro: buffer_le_trans)
      with close(2) r2 ok show ?thesis
        using Pair Some f by (simp add: flush_ok_def out tk fl fl1)
    qed
  qed
qed

lemma flush_ok:
  assumes "cbb_wf cbb" "\<not> cbb_failed cbb" "cbb_attached d cbb"
  shows "flush_ok al d cbb"
proof -
  from assms(3) have "d \<le> length (cbb_children cbb)" by (simp add: cbb_attached_def)
  then show ?thesis
  proof (induction rule: inc_induct)
    case base
    have "flush_to (length (cbb_children cbb)) (cbb_abs cbb) = Some (cbb_abs cbb)"
      using flush_to_id [of "snd (cbb_abs cbb)" "fst (cbb_abs cbb)"] by (simp add: depth_cbb_abs)
    then show ?case using assms by (simp add: flush_ok_def CBB_flush_done cbb_wf_le)
  next
    case (step n)
    then show ?case using flush_ok_step assms by blast
  qed
qed

interpretation flush: builder_op al d "CBB_flush al d" "flush_to d" for al d
proof
  fix cbb v cbb' assume wf: "cbb_wf cbb" and run: "CBB_flush al d cbb = (Some v, cbb')"
  then have "cbb_attached d cbb \<and> \<not> cbb_failed cbb" using CBB_flush_stuck [of d cbb al] by auto
  with run show "cbb_le cbb cbb' \<and> \<not> cbb_failed cbb \<and> \<not> cbb_failed cbb' \<and> flush_to d (cbb_abs cbb) = Some (cbb_abs cbb')"
    using flush_ok [OF wf, of d al] by (auto simp: flush_ok_def)
next
  fix cbb cbb' assume wf: "cbb_wf cbb" and run: "CBB_flush al d cbb = (None, cbb')"
  show "cbb_le cbb cbb' \<and> (cbb_attached d cbb \<longrightarrow> cbb_failed cbb')"
  proof (cases "cbb_attached d cbb \<and> \<not> cbb_failed cbb")
    case True
    with run show ?thesis using flush_ok [OF wf, of d al] by (auto simp: flush_ok_def)
  next
    case False
    with run wf show ?thesis using CBB_flush_stuck [of d cbb al] by (auto simp: cbb_wf_le)
  qed
next
  fix cbb st assume a: "cbb_wf cbb" "\<not> cbb_failed cbb" "flush_to d (cbb_abs cbb) = Some st"
    "fits al (cbb_base cbb) (stack_size st)"
  then have "cbb_attached d cbb"
    using flush_to_detached [of "cbb_abs cbb" d] by (force simp: cbb_attached_def depth_cbb_abs)
  with a show "fst (CBB_flush al d cbb) \<noteq> None"
    using flush_ok [of cbb d al] by (auto simp: flush_ok_def split: prod.splits option.splits)
qed (rule flush_to_size)

end
