(* ===== verification/DerValues.thy ===== *)
theory DerValues
  imports DerCodec
begin

text \<open>
  The DER contents of integers and booleans and the readers of theory \<open>Cbs\<close> for
  them: each reader accepts exactly the canonical contents.
\<close>

section \<open>Unsigned integers\<close>

fun min_bytes :: "nat \<Rightarrow> u8 list" where
  "min_bytes n = (if n = 0 then [] else min_bytes (n div 256) @ [of_nat n])"

declare min_bytes.simps [simp del]

definition uint_content :: "nat \<Rightarrow> u8 list" where
  "uint_content n =
     (case min_bytes n of
        [] \<Rightarrow> [0]
      | b # bs \<Rightarrow> if 128 \<le> unat b then 0 # b # bs else b # bs)"

lemma min_bytes_0 [simp]: "min_bytes 0 = []"
  by (subst min_bytes.simps) simp

lemma be_val_min_bytes [simp]: "be_val (min_bytes n) = n"
proof (induction n rule: min_bytes.induct)
  case (1 n)
  then show ?case by (cases "n = 0") (subst min_bytes.simps, simp)+
qed

lemma min_bytes_hd: "min_bytes n = b # bs \<Longrightarrow> b \<noteq> 0"
proof (induction n arbitrary: b bs rule: min_bytes.induct)
  case (1 n)
  then have n: "n \<noteq> 0" by (cases "n = 0") simp_all
  then have unf: "min_bytes n = min_bytes (n div 256) @ [of_nat n]" by (subst min_bytes.simps) simp
  show ?case
  proof (cases "min_bytes (n div 256)")
    case Nil
    with "1.prems" unf have "b = of_nat n" by simp
    moreover from Nil have "n div 256 = 0" using be_val_min_bytes [of "n div 256"] by simp
    ultimately have "unat b = n" by simp
    with n show ?thesis by auto
  next
    case (Cons a as)
    with "1.prems" unf have "b = a" by simp
    with 1(1) n Cons show ?thesis by blast
  qed
qed

lemma min_bytes_unique: "bs = [] \<or> hd bs \<noteq> 0 \<Longrightarrow> min_bytes (be_val bs) = bs"
proof (induction bs rule: rev_induct)
  case (snoc b bs)
  have nz: "be_val bs * 256 + unat b \<noteq> 0"
  proof (cases bs)
    case Nil
    with snoc.prems show ?thesis by (simp add: unat_eq_0)
  next
    case (Cons a as)
    with snoc.prems have "unat a \<noteq> 0" by (simp add: unat_eq_0)
    then show ?thesis by (simp add: Cons be_val_Cons)
  qed
  have "(of_nat (be_val bs * 256 + unat b) :: u8) = b"
    by (simp only: word_unat_eq_iff unat_of_nat_byte mod_mult_self3 mod_less [OF unat_byte_less])
  moreover have "(be_val bs * 256 + unat b) div 256 = be_val bs" by simp
  moreover have "min_bytes (be_val bs) = bs" using snoc by (cases bs) auto
  ultimately show ?case
    using nz by (subst min_bytes.simps) (simp del: of_nat_add of_nat_mult)
qed simp

lemma be_val_uint_content [simp]: "be_val (uint_content n) = n"
  using be_val_min_bytes [of n]
  by (cases "min_bytes n") (auto simp: uint_content_def be_val_Cons simp del: be_val_min_bytes)

lemma unsigned_integer_iff:
  "CBS_is_unsigned_asn1_integer data \<longleftrightarrow>
     (case data of
        [] \<Rightarrow> False
      | [b] \<Rightarrow> unat b < 128
      | b # c # _ \<Rightarrow> unat b < 128 \<and> (b = 0 \<longrightarrow> 128 \<le> unat c))"
  by (auto simp: CBS_is_unsigned_asn1_integer_def CBS_is_valid_asn1_integer_def byte_and_128 not_less
      split: list.splits)

lemma uint_content_unsigned: "CBS_is_unsigned_asn1_integer (uint_content n)"
  using min_bytes_hd [of n]
  by (auto simp: uint_content_def unsigned_integer_iff split: list.splits)

lemma uint_content_unique:
  assumes "CBS_is_unsigned_asn1_integer data"
  shows "data = uint_content (be_val data)"
proof -
  consider "data = [0]" | b bs where "data = b # bs" "b \<noteq> 0" "unat b < 128"
    | b bs where "data = 0 # b # bs" "128 \<le> unat b"
    using assms by (auto simp: unsigned_integer_iff split: list.splits if_splits)
  then show ?thesis
  proof cases
    case 1
    then show ?thesis by (simp add: uint_content_def)
  next
    case 2
    then have "min_bytes (be_val data) = data" by (intro min_bytes_unique) simp
    with 2 show ?thesis by (simp add: uint_content_def)
  next
    case 3
    then have "min_bytes (be_val (b # bs)) = b # bs" by (intro min_bytes_unique) auto
    with 3 show ?thesis by (simp add: uint_content_def be_val_Cons)
  qed
qed

lemma uint64_loop_iff:
  "asn1_uint64_loop out data = Some v \<longleftrightarrow> unat v = unat out * 256 ^ length data + be_val data"
proof (induction data arbitrary: out)
  case Nil
  show ?case by (auto simp: word_unat_eq_iff)
next
  case (Cons b data)
  show ?case
  proof (cases "unat out < 2 ^ 56")
    case True
    then have "unat (push_bit 8 out OR ucast b) = unat out * 256 + unat b"
      by (intro unat_shift_in_byte_64) simp
    with True Cons.IH show ?thesis
      by (simp add: drop_bit_eq_0_unat be_val_Cons algebra_simps)
  next
    case False
    then have "72057594037927936 * 256 \<le> unat out * 256 ^ length (b # data)"
      by (intro mult_le_mono) simp_all
    then have "unat v \<noteq> unat out * 256 ^ length (b # data) + be_val (b # data)"
      using unat_u64_less [of v] by linarith
    with False show ?thesis by (simp add: drop_bit_eq_0_unat)
  qed
qed

lemma length_min_bytes: "n < 256 ^ k \<Longrightarrow> length (min_bytes n) \<le> k"
proof (induction k arbitrary: n)
  case (Suc k)
  then have "n div 256 < 256 ^ k" by (simp add: less_mult_imp_div_less mult.commute)
  with Suc.IH show ?case by (subst min_bytes.simps) auto
qed simp

lemma length_uint_content: "n < 2 ^ 64 \<Longrightarrow> length (uint_content n) \<le> 9"
  using length_min_bytes [of n 8] by (auto simp: uint_content_def split: list.splits)

lemma CBS_get_asn1_uint64_iff:
  "CBS_get_asn1_uint64 cbs = (Some v, rest) \<longleftrightarrow> cbs = der_element CBS_ASN1_INTEGER (uint_content (unat v)) @ rest"
proof -
  have "der_tag_valid CBS_ASN1_INTEGER" by (simp add: der_tag_valid_def)
  moreover have "length (uint_content (unat v)) < 2 ^ 32"
    using length_uint_content [of "unat v"] unat_u64_less [of v] by simp
  moreover have "(if \<not> CBS_is_unsigned_asn1_integer c then pfail
       else case asn1_uint64_loop 0 (CBS_data c) of None \<Rightarrow> pfail | Some v \<Rightarrow> pret v) cs = (Some v, rest) \<longleftrightarrow>
     c = uint_content (unat v) \<and> cs = rest" for c cs
    using uint_content_unsigned uint_content_unique [of c] uint64_loop_iff [of 0 c v]
    by (auto simp: CBS_data_def split: option.splits)
  ultimately show ?thesis
    unfolding CBS_get_asn1_uint64_def pbind_eq_Some CBS_get_asn1_iff by auto
qed

interpretation uint64_codec: codec "\<lambda>v. der_element CBS_ASN1_INTEGER (uint_content (unat v))" "\<lambda>_. True" CBS_get_asn1_uint64
  by unfold_locales (auto simp: CBS_get_asn1_uint64_iff)

section \<open>Signed integers\<close>

text \<open>
  \<open>strip\<close> removes the octets that only repeat the sign; \<open>extend8\<close> puts them
  back up to eight octets.
\<close>

fun strip :: "u8 list \<Rightarrow> u8 list" where
  "strip (a # b # bs) =
     (if (a = 0 \<and> unat b < 128) \<or> (a = 0xff \<and> 128 \<le> unat b) then strip (b # bs) else a # b # bs)"
| "strip bs = bs"

definition sign_byte :: "u8 list \<Rightarrow> u8" where
  "sign_byte bs = (if 128 \<le> unat (hd bs) then 0xff else 0)"

definition extend8 :: "u8 list \<Rightarrow> u8 list" where
  "extend8 bs = replicate (8 - length bs) (sign_byte bs) @ bs"

definition int64_content :: "u64 \<Rightarrow> u8 list" where
  "int64_content v = strip (be_bytes 8 (unat v))"

lemma strip_nonempty [simp]: "strip bs = [] \<longleftrightarrow> bs = []"
  by (induction bs rule: strip.induct) auto

lemma strip_strip: "strip (strip bs) = strip bs"
  by (induction bs rule: strip.induct) auto

lemma length_strip: "length (strip bs) \<le> length bs"
  by (induction bs rule: strip.induct) auto

lemma sign_byte_strip [simp]: "sign_byte (strip bs) = sign_byte bs"
  by (induction bs rule: strip.induct) (auto simp: sign_byte_def split: if_splits)

lemma replicate_strip: "replicate (length bs - length (strip bs)) (sign_byte bs) @ strip bs = bs"
proof (induction bs rule: strip.induct)
  case (1 a b bs)
  show ?case
  proof (cases "(a = 0 \<and> unat b < 128) \<or> (a = 0xff \<and> 128 \<le> unat b)")
    case True
    then have s: "sign_byte (a # b # bs) = a" "sign_byte (b # bs) = a" by (auto simp: sign_byte_def)
    have "length (a # b # bs) - length (strip (b # bs)) = Suc (length (b # bs) - length (strip (b # bs)))"
      using length_strip [of "b # bs"] by simp
    with True s 1 show ?thesis by simp
  next
    case False
    then have "strip (a # b # bs) = a # b # bs" by auto
    then show ?thesis by simp
  qed
qed simp_all

lemma extend8_strip: "length bs = 8 \<Longrightarrow> extend8 (strip bs) = bs"
  using replicate_strip [of bs] by (simp add: extend8_def)

lemma strip_replicate:
  assumes "strip bs = bs" "bs \<noteq> []"
  shows "strip (replicate n (sign_byte bs) @ bs) = bs"
proof (induction n)
  case (Suc n)
  show ?case
  proof (cases n)
    case 0
    with assms show ?thesis by (cases bs) (auto simp: sign_byte_def)
  next
    case (Suc m)
    with \<open>strip (replicate n (sign_byte bs) @ bs) = bs\<close> show ?thesis by (auto simp: sign_byte_def split: if_splits)
  qed
qed (use assms in simp)

lemma strip_extend8: "strip bs = bs \<Longrightarrow> bs \<noteq> [] \<Longrightarrow> strip (extend8 bs) = bs"
  by (simp add: extend8_def strip_replicate)

lemma valid_integer_iff:
  "CBS_is_valid_asn1_integer data = Some neg \<longleftrightarrow>
     data \<noteq> [] \<and> strip data = data \<and> neg = (128 \<le> unat (hd data))"
proof (cases data rule: strip.cases)
  case (1 a b bs)
  have "length (strip (b # bs)) < length (a # b # bs)" using length_strip [of "b # bs"] by simp
  then have "strip (b # bs) \<noteq> a # b # bs" by (metis less_irrefl)
  with 1 show ?thesis
    by (auto simp: CBS_is_valid_asn1_integer_def byte_and_128 not_less)
qed (auto simp: CBS_is_valid_asn1_integer_def byte_and_128 not_less)

text \<open>The array filled from its low end is the extended contents in little-endian order.\<close>

lemma fill_low:
  assumes "k \<le> length data" "k \<le> 8"
  shows "fold (\<lambda>i s. s[i := data ! (length data - i - 1)]) [0..<k] (replicate 8 x) =
    rev (drop (length data - k) data) @ replicate (8 - k) x"
  using assms
proof (induction k)
  case (Suc k)
  have d: "drop (length data - Suc k) data = data ! (length data - k - 1) # drop (length data - k) data"
    using Suc.prems Cons_nth_drop_Suc [of "length data - Suc k" data] by (simp add: Suc_diff_Suc)
  have "8 - k = Suc (8 - Suc k)" using Suc.prems by simp
  with Suc show ?case
    unfolding d by (simp add: list_update_append del: replicate.simps) (simp add: \<open>8 - k = Suc (8 - Suc k)\<close>)
qed simp

lemma sign_extend_eq:
  assumes "length data \<le> 8" "data \<noteq> []"
  shows "fold (\<lambda>i s. s[i := data ! (length data - i - 1)]) [0..<min (length data) 8]
      (replicate 8 (sign_byte data)) = rev (extend8 data)"
  using fill_low [of "length data" data "sign_byte data"] assms by (simp add: extend8_def min_def)

lemma load_le64_eq:
  assumes "length bs = 8"
  shows "unat (load_le64 (rev bs)) = be_val bs"
proof -
  have gen: "unat (fold (\<lambda>i w. w OR push_bit (8 * i) (ucast (xs ! i))) [0..<k] (0 :: u64)) = be_val (rev (take k xs))"
    if "k \<le> 8" "length xs = 8" for k and xs :: "u8 list"
    using that(1)
  proof (induction k)
    case (Suc k)
    let ?w = "fold (\<lambda>i w. w OR push_bit (8 * i) (ucast (xs ! i))) [0..<k] (0 :: u64)"
    have w: "unat ?w = be_val (rev (take k xs))" using Suc by simp
    have lt: "unat ?w < 2 ^ (8 * k)"
      using be_val_less [of "rev (take k xs)"] Suc.prems that by (simp add: w power_mult)
    have "unat (xs ! k) * 2 ^ (8 * k) < 2 ^ 64"
    proof -
      have "unat (xs ! k) * 2 ^ (8 * k) < 2 ^ 8 * 2 ^ (8 * k)" by simp
      also have "\<dots> = (2::nat) ^ (8 + 8 * k)" by (simp add: power_add)
      also have "\<dots> \<le> 2 ^ 64" using Suc.prems by (intro power_increasing) simp_all
      finally show ?thesis .
    qed
    then have "unat (push_bit (8 * k) (ucast (xs ! k)) OR ?w) = unat (xs ! k) * 2 ^ (8 * k) + unat ?w"
      using lt by (subst unat_push_bit_or) simp_all
    then show ?case
      using Suc.prems that w by (simp add: or.commute take_Suc_conv_app_nth be_val_Cons power_mult min_def)
  qed simp
  show ?thesis using gen [of 8 "rev bs"] assms by (simp add: load_le64_def)
qed

lemma unat_be_val_extend8:
  assumes "length data \<le> 8" "data \<noteq> []"
  shows "load_le64 (fold (\<lambda>i s. s[i := data ! (length data - i - 1)]) [0..<min (length data) 8]
      (replicate 8 (sign_byte data))) = v \<longleftrightarrow> extend8 data = be_bytes 8 (unat v)"
proof -
  have l: "length (extend8 data) = 8" using assms by (simp add: extend8_def)
  have "load_le64 (rev (extend8 data)) = v \<longleftrightarrow> be_val (extend8 data) = unat v"
    using load_le64_eq [OF l] by (simp add: word_unat_eq_iff)
  also have "\<dots> \<longleftrightarrow> extend8 data = be_bytes 8 (unat v)"
    using be_val_inj [of "extend8 data" "be_bytes 8 (unat v)"] l unat_u64_less [of v] by (auto simp: be_val_be_bytes)
  finally show ?thesis unfolding sign_extend_eq [OF assms] .
qed

lemma int64_content_iff:
  "strip data = data \<and> data \<noteq> [] \<and> length data \<le> 8 \<and> extend8 data = be_bytes 8 (unat v) \<longleftrightarrow> data = int64_content v"
proof -
  have "be_bytes 8 (unat v) \<noteq> []" using length_be_bytes [of 8 "unat v"] by (metis list.size(3) zero_neq_numeral)
  then have "strip (be_bytes 8 (unat v)) \<noteq> []" by simp
  moreover have "extend8 (strip (be_bytes 8 (unat v))) = be_bytes 8 (unat v)" by (rule extend8_strip) simp
  moreover have "length (strip (be_bytes 8 (unat v))) \<le> 8" using length_strip [of "be_bytes 8 (unat v)"] by simp
  ultimately show ?thesis
    unfolding int64_content_def by (metis strip_strip strip_extend8)
qed

lemma CBS_get_asn1_int64_iff:
  "CBS_get_asn1_int64 cbs = (Some v, rest) \<longleftrightarrow> cbs = der_element CBS_ASN1_INTEGER (int64_content v) @ rest"
proof -
  have "der_tag_valid CBS_ASN1_INTEGER" by (simp add: der_tag_valid_def)
  moreover have "length (int64_content v) < 2 ^ 32"
    using length_strip [of "be_bytes 8 (unat v)"] by (simp add: int64_content_def)
  moreover have "(case CBS_is_valid_asn1_integer c of
       None \<Rightarrow> pfail
     | Some is_negative \<Rightarrow>
         (let data = CBS_data c; len = CBS_len c
          in if len > 8 then pfail
             else let sign_extend = replicate 8 (if is_negative then 0xff else 0);
                      sign_extend = fold (\<lambda>i s. s[i := data ! (len - i - 1)]) [0..<min len 8] sign_extend
                  in pret (load_le64 sign_extend))) cs = (Some v, rest) \<longleftrightarrow>
     c = int64_content v \<and> cs = rest" for c cs
  proof (cases "CBS_is_valid_asn1_integer c")
    case None
    then have "\<not> (c \<noteq> [] \<and> strip c = c)"
      using valid_integer_iff [of c "128 \<le> unat (hd c)"] by auto
    with None show ?thesis using int64_content_iff [of c v] by auto
  next
    case (Some neg)
    then have c: "c \<noteq> []" "strip c = c" "(if neg then 0xff else 0) = sign_byte c"
      by (auto simp: valid_integer_iff sign_byte_def)
    with Some show ?thesis
      using unat_be_val_extend8 [of c v] int64_content_iff [of c v]
      by (auto simp: Let_def CBS_data_def CBS_len_def)
  qed
  ultimately show ?thesis
    unfolding CBS_get_asn1_int64_def pbind_eq_Some CBS_get_asn1_iff by auto
qed

interpretation int64_codec: codec "\<lambda>v. der_element CBS_ASN1_INTEGER (int64_content v)" "\<lambda>_. True" CBS_get_asn1_int64
  by unfold_locales (auto simp: CBS_get_asn1_int64_iff)

text \<open>Both integer formats agree on the values both can represent.\<close>

lemma int64_content_unsigned:
  assumes "unat v < 2 ^ 63"
  shows "int64_content v = uint_content (unat v)"
proof -
  let ?bs = "be_bytes 8 (unat v)" and ?c = "int64_content v"
  have hd: "hd ?bs = of_nat (unat v div 256 ^ 7)" using be_bytes_front [of 7 "unat v"] by simp
  have "unat v div 256 ^ 7 < 128" using assms by (simp add: less_mult_imp_div_less)
  then have pos: "sign_byte ?bs = 0" unfolding sign_byte_def hd by (simp only: unat_of_nat_byte) simp
  have c: "?c \<noteq> []" "strip ?c = ?c" "extend8 ?c = ?bs" using int64_content_iff [of ?c v] by auto
  have "sign_byte ?c = 0" using pos by (simp add: int64_content_def)
  then have "CBS_is_unsigned_asn1_integer ?c"
    using c valid_integer_iff [of ?c False] by (auto simp: CBS_is_unsigned_asn1_integer_def sign_byte_def split: if_splits)
  moreover have "be_val ?c = unat v"
  proof -
    have z: "be_val (replicate k 0 @ xs) = be_val xs" for k xs by (induction k) (simp_all add: be_val_Cons)
    have "be_val (extend8 ?c) = be_val ?c" unfolding extend8_def \<open>sign_byte ?c = 0\<close> by (rule z)
    then show ?thesis using c(3) unat_u64_less [of v] by (simp add: be_val_be_bytes)
  qed
  ultimately show ?thesis using uint_content_unique [of ?c] by simp
qed

section \<open>Booleans\<close>

definition bool_content :: "bool \<Rightarrow> u8 list" where
  "bool_content v = [if v then 0xff else 0]"

lemma CBS_get_asn1_bool_iff:
  "CBS_get_asn1_bool cbs = (Some v, rest) \<longleftrightarrow> cbs = der_element CBS_ASN1_BOOLEAN (bool_content v) @ rest"
proof -
  have "der_tag_valid CBS_ASN1_BOOLEAN" by (simp add: der_tag_valid_def)
  moreover have "(if CBS_len c \<noteq> 1 then pfail
     else let value = CBS_data c ! 0
          in if value \<noteq> 0 \<and> value \<noteq> 0xff then pfail else pret (value \<noteq> 0)) cs = (Some v, rest) \<longleftrightarrow>
     c = bool_content v \<and> cs = rest" for c cs
    by (cases c) (auto simp: CBS_len_def CBS_data_def bool_content_def Let_def)
  ultimately show ?thesis
    unfolding CBS_get_asn1_bool_def pbind_eq_Some CBS_get_asn1_iff by (auto simp: bool_content_def)
qed

interpretation bool_codec: codec "\<lambda>v. der_element CBS_ASN1_BOOLEAN (bool_content v)" "\<lambda>_. True" CBS_get_asn1_bool
  by unfold_locales (auto simp: CBS_get_asn1_bool_iff)

end
