(* ===== verification/CbbProps.thy ===== *)
theory CbbProps
  imports CbbFlush DerValues "HOL-Library.Multiset"
begin

text \<open>
  The adders of theory \<open>Cbb\<close>: each is shown to implement its effect on the stack of
  open strings (locale \<open>builder_op\<close> of theory \<open>CbbFlush\<close>), from single bytes
  up to whole DER elements and the sorting of a SET OF, followed by the properties of the
  builder.
\<close>

section \<open>Adding bytes\<close>

text \<open>
  Most adders flush and then act on the buffer. \<open>prim_ok\<close> is the contract of that
  second part on a chain whose innermost \<open>CBB\<close> is the one addressed.
\<close>

definition prim_ok :: "allocator \<Rightarrow> nat \<Rightarrow> (CBB, 'a) op \<Rightarrow> (cbb_stack \<Rightarrow> cbb_stack) \<Rightarrow> bool" where
  "prim_ok al d g h \<longleftrightarrow>
     (\<forall>cbb. cbb_wf cbb \<and> \<not> cbb_failed cbb \<and> length (cbb_children cbb) = d \<longrightarrow>
        (case g cbb of
           (Some _, cbb') \<Rightarrow> cbb_le cbb cbb' \<and> \<not> cbb_failed cbb' \<and> cbb_abs cbb' = h (cbb_abs cbb)
         | (None, cbb') \<Rightarrow> cbb_le cbb cbb' \<and> cbb_failed cbb' \<and>
                            \<not> fits al (cbb_base cbb) (stack_size (h (cbb_abs cbb))))) \<and>
     (\<forall>st. stack_size st \<le> stack_size (h st))"

lemma flush_depth:
  assumes "cbb_wf cbb" "CBB_flush al d cbb = (Some v, cbb')"
  shows "length (cbb_children cbb') = d"
proof -
  have "flush_to d (cbb_abs cbb) = Some (cbb_abs cbb')" using flush.op_Some [OF assms] by blast
  then show ?thesis
    using flush_to_depth [of d "cbb_abs cbb" "fst (cbb_abs cbb')" "snd (cbb_abs cbb')"] by (simp add: depth_cbb_abs)
qed

lemma builder_op_after_flush:
  assumes g: "prim_ok al d g h"
  shows "builder_op al d (pbind (CBB_flush al d) (\<lambda>_. g)) (\<lambda>st. map_option h (flush_to d st))"
proof
  fix cbb v cbb' assume wf: "cbb_wf cbb" and run: "pbind (CBB_flush al d) (\<lambda>_. g) cbb = (Some v, cbb')"
  then obtain u c where "CBB_flush al d cbb = (Some u, c)" "g c = (Some v, cbb')" by (auto simp: pbind_eq_Some)
  with flush.op_Some [OF wf, of al d u c] flush_depth [OF wf] g
  show "cbb_le cbb cbb' \<and> \<not> cbb_failed cbb \<and> \<not> cbb_failed cbb' \<and>
      map_option h (flush_to d (cbb_abs cbb)) = Some (cbb_abs cbb')"
    by (fastforce simp: prim_ok_def cbb_le_def intro: buffer_le_trans)
next
  fix cbb cbb' assume wf: "cbb_wf cbb" and run: "pbind (CBB_flush al d) (\<lambda>_. g) cbb = (None, cbb')"
  then consider "CBB_flush al d cbb = (None, cbb')" | u c where "CBB_flush al d cbb = (Some u, c)" "g c = (None, cbb')"
    by (auto simp: pbind_def split: prod.splits option.splits)
  then show "cbb_le cbb cbb' \<and> (cbb_attached d cbb \<longrightarrow> cbb_failed cbb')"
  proof cases
    case 1
    then show ?thesis using flush.op_None [OF wf] by blast
  next
    case 2
    with flush.op_Some [OF wf 2(1)] flush_depth [OF wf 2(1)] g show ?thesis
      by (fastforce simp: prim_ok_def cbb_le_def intro: buffer_le_trans)
  qed
next
  fix cbb st assume wf: "cbb_wf cbb" and ok: "\<not> cbb_failed cbb"
    and e: "map_option h (flush_to d (cbb_abs cbb)) = Some st" and fit: "fits al (cbb_base cbb) (stack_size st)"
  from e obtain st1 where e1: "flush_to d (cbb_abs cbb) = Some st1" and st: "st = h st1" by auto
  have "fits al (cbb_base cbb) (stack_size st1)"
    using fit g unfolding st prim_ok_def by (blast intro: fits_mono)
  then obtain w c where c: "CBB_flush al d cbb = (Some w, c)" "cbb_le cbb c" "\<not> cbb_failed c" "cbb_abs c = st1"
    using flush.runs [OF wf ok e1] by blast
  moreover have "fits al (cbb_base c) (stack_size st)"
    using fit c(2) by (auto simp: cbb_le_def intro: fits_le)
  ultimately show "fst (pbind (CBB_flush al d) (\<lambda>_. g) cbb) \<noteq> None"
    using g [unfolded prim_ok_def, THEN conjunct1, rule_format, of c] flush_depth [OF wf c(1)]
    by (cases "g c"; cases "fst (g c)") (simp_all add: pbind_def cbb_le_def st)
next
  fix st st' assume "map_option h (flush_to d st) = Some st'"
  then show "stack_size st \<le> stack_size st'"
    using g by (auto simp: prim_ok_def intro: order_trans [OF flush_to_size])
qed

lemma stack_size_append: "stack_size (case st of (y, r) \<Rightarrow> (y @ bs, r)) = stack_size st + length bs"
  by (cases st) simp

lemma stack_size_cbb_abs: "cbb_wf cbb \<Longrightarrow> stack_size (cbb_abs cbb) = cbb_len (cbb_base cbb)"
  by (simp add: cbb_wf_def cbb_abs_def stack_size_open_strings)

lemma on_base_eq: "on_base f cbb = (r, cbb') \<longleftrightarrow> (\<exists>b'. f (cbb_base cbb) = (r, b') \<and> cbb' = cbb\<lparr>cbb_base := b'\<rparr>)"
  by (auto simp: on_base_def split: prod.splits)

text \<open>Space added at the end and then filled with \<open>bs\<close> appends \<open>bs\<close>.\<close>

lemma add_store:
  assumes wf: "cbb_wf cbb" and bs: "length bs \<le> SIZE_MAX"
    and a: "cbb_buffer_add al (length bs) (cbb_base cbb) = (Some off, b')"
  shows "cbb_wf (cbb_store off bs (cbb\<lparr>cbb_base := b'\<rparr>))"
    and "buffer_le (cbb_base cbb) (cbb_base (cbb_store off bs (cbb\<lparr>cbb_base := b'\<rparr>)))"
    and "buffer_out (cbb_base (cbb_store off bs (cbb\<lparr>cbb_base := b'\<rparr>))) = buffer_out (cbb_base cbb) @ bs"
    and "cbb_failed (cbb_store off bs (cbb\<lparr>cbb_base := b'\<rparr>)) = cbb_failed cbb"
    and "cbb_len (cbb_base (cbb_store off bs (cbb\<lparr>cbb_base := b'\<rparr>))) = cbb_len (cbb_base cbb) + length bs"
proof -
  have "buffer_wf (cbb_base cbb)" using wf by (simp add: cbb_wf_def)
  note s = buffer_add_Some [OF this bs a]
  then have len: "length (cbb_buf b') = cbb_cap b'" "cbb_len (cbb_base cbb) + length bs \<le> cbb_cap b'" "cbb_cap b' \<le> SIZE_MAX"
    by (auto simp: buffer_le_def buffer_wf_def)
  with s show le: "buffer_le (cbb_base cbb) (cbb_base (cbb_store off bs (cbb\<lparr>cbb_base := b'\<rparr>)))"
    by (simp add: cbb_store_def buffer_le_def buffer_wf_def)
  with s wf show "cbb_wf (cbb_store off bs (cbb\<lparr>cbb_base := b'\<rparr>))"
    unfolding cbb_wf_def buffer_le_def by (auto simp: cbb_store_def elim: chain_wf_mono)
  show "buffer_out (cbb_base (cbb_store off bs (cbb\<lparr>cbb_base := b'\<rparr>))) = buffer_out (cbb_base cbb) @ bs"
    using s len take_buf_write_exact [of "cbb_len (cbb_base cbb)" "cbb_buf b'" bs]
    by (simp add: cbb_store_def buffer_out_def [of "b' \<lparr>cbb_buf := _\<rparr>"])
qed (use buffer_add_Some [OF _ bs a] wf in \<open>simp_all add: cbb_store_def cbb_wf_def\<close>)

lemma prim_append:
  assumes bs: "length bs \<le> SIZE_MAX"
  shows "prim_ok al d (pbind (on_base (cbb_buffer_add al (length bs))) (\<lambda>off cbb. (Some (), cbb_store off bs cbb)))
           (\<lambda>(y, r). (y @ bs, r))"
  unfolding prim_ok_def
proof (intro conjI allI impI)
  fix cbb assume "cbb_wf cbb \<and> \<not> cbb_failed cbb \<and> length (cbb_children cbb) = d"
  then have wf: "cbb_wf cbb" and ok: "\<not> cbb_failed cbb" by simp_all
  show "case pbind (on_base (cbb_buffer_add al (length bs))) (\<lambda>off cbb. (Some (), cbb_store off bs cbb)) cbb of
      (Some _, cbb') \<Rightarrow> cbb_le cbb cbb' \<and> \<not> cbb_failed cbb' \<and> cbb_abs cbb' = (case cbb_abs cbb of (y, r) \<Rightarrow> (y @ bs, r))
    | (None, cbb') \<Rightarrow> cbb_le cbb cbb' \<and> cbb_failed cbb' \<and>
        \<not> fits al (cbb_base cbb) (stack_size (case cbb_abs cbb of (y, r) \<Rightarrow> (y @ bs, r)))"
  proof (cases "cbb_buffer_add al (length bs) (cbb_base cbb)")
    case (Pair r b')
    show ?thesis
    proof (cases r)
      case None
      with Pair have b': "b' = (cbb_base cbb)\<lparr>cbb_error := True\<rparr>" by (auto dest: buffer_add_None)
      have "\<not> fits al (cbb_base cbb) (cbb_len (cbb_base cbb) + length bs)"
        using buffer_add_total [of "cbb_base cbb" al "length bs"] Pair None wf by (auto simp: cbb_wf_def)
      then have "\<not> fits al (cbb_base cbb) (stack_size (case cbb_abs cbb of (y, r) \<Rightarrow> (y @ bs, r)))"
        using wf by (simp add: stack_size_append stack_size_cbb_abs)
      with Pair None wf show ?thesis
        by (simp add: on_base_def op_simps b' cbb_le_def cbb_wf_def buffer_le_def)
    next
      case (Some off)
      note s = add_store [OF wf bs Pair [unfolded Some]]
      have "cbb_abs (cbb_store off bs (cbb\<lparr>cbb_base := b'\<rparr>)) = (case cbb_abs cbb of (y, r) \<Rightarrow> (y @ bs, r))"
        using wf s(3) by (rule cbb_abs_append) (simp add: cbb_store_def)
      with Pair Some s ok show ?thesis by (simp add: on_base_def op_simps cbb_le_def)
    qed
  qed
qed (auto split: prod.splits)

lemma builder_op_cong: "builder_op al d f e \<Longrightarrow> f = f' \<Longrightarrow> (\<And>st. e st = e' st) \<Longrightarrow> builder_op al d f' e'"
  by (metis ext)

lemma CBB_add_space_then:
  "pbind (CBB_add_space al d n) k = pbind (CBB_flush al d) (\<lambda>_. pbind (on_base (cbb_buffer_add al n)) k)"
  by (simp add: CBB_add_space_def pbind_assoc)

lemma builder_op_append:
  assumes "length bs \<le> SIZE_MAX"
  shows "builder_op al d (pbind (CBB_add_space al d (length bs)) (\<lambda>off cbb. (Some (), cbb_store off bs cbb))) (append_to d bs)"
  unfolding CBB_add_space_then
  by (rule builder_op_cong [OF builder_op_after_flush [OF prim_append [OF assms]] refl]) (simp add: append_to_def)

lemma builder_op_add_bytes: "length data \<le> SIZE_MAX \<Longrightarrow> builder_op al d (CBB_add_bytes al d data) (append_to d data)"
  unfolding CBB_add_bytes_def by (rule builder_op_append)

lemma builder_op_add_zeros: "n \<le> SIZE_MAX \<Longrightarrow> builder_op al d (CBB_add_zeros al d n) (append_to d (replicate n 0))"
  using builder_op_append [of "replicate n 0" al d] by (simp add: CBB_add_zeros_def)

text \<open>The integer adders, when the value fits in the requested number of bytes.\<close>

lemma add_space_room:
  assumes "cbb_wf cbb" "n \<le> SIZE_MAX" "CBB_add_space al d n cbb = (Some off, cbb')"
  shows "off + n \<le> length (cbb_buf (cbb_base cbb'))"
proof -
  from assms(3) obtain u c b' where f: "CBB_flush al d cbb = (Some u, c)"
    and a: "cbb_buffer_add al n (cbb_base c) = (Some off, b')" "cbb' = c\<lparr>cbb_base := b'\<rparr>"
    by (auto simp: CBB_add_space_def pbind_eq_Some on_base_eq)
  from flush.op_Some [OF assms(1) f] have "buffer_wf (cbb_base c)" by (simp add: cbb_le_def cbb_wf_def)
  from buffer_add_Some [OF this assms(2) a(1)] a(2) show ?thesis
    by (auto simp: buffer_le_def buffer_wf_def)
qed

lemma cbb_add_u_fits:
  assumes "unat v < 256 ^ n" "n \<le> 8" "cbb_wf cbb"
  shows "cbb_add_u al d v n cbb = pbind (CBB_add_space al d n) (\<lambda>off cbb. (Some (), cbb_store off (be_bytes n (unat v)) cbb)) cbb"
proof (cases "CBB_add_space al d n cbb")
  case (Pair r c)
  show ?thesis
  proof (cases r)
    case (Some off)
    with Pair have "off + n \<le> length (cbb_buf (cbb_base c))"
      using add_space_room [OF assms(3), of n al d off c] assms(2) by simp
    then have "put_be (cbb_buf (cbb_base c)) off n v = (buf_write (cbb_buf (cbb_base c)) off (be_bytes n (unat v)), 0)"
      using assms(1) drop_bytes_eq_0 [of n v] by (simp add: put_be_eq)
    with Pair Some show ?thesis by (simp add: cbb_add_u_def pbind_def cbb_store_def)
  qed (use Pair in \<open>simp add: cbb_add_u_def pbind_def\<close>)
qed

lemma builder_op_wf_cong:
  assumes "builder_op al d f e" "\<And>cbb. cbb_wf cbb \<Longrightarrow> f' cbb = f cbb"
  shows "builder_op al d f' e"
  using assms unfolding builder_op_def by simp

lemma builder_op_add_u:
  assumes "unat v < 256 ^ n" "n \<le> 8"
  shows "builder_op al d (cbb_add_u al d v n) (append_to d (be_bytes n (unat v)))"
  by (rule builder_op_wf_cong [OF builder_op_append])
    (use assms cbb_add_u_fits in simp_all)

interpretation add_u8: builder_op al d "CBB_add_u8 al d v" "append_to d [v]" for al d v
  using builder_op_add_u [of "ucast v" 1 al d] by (simp add: CBB_add_u8_def)

interpretation add_u16: builder_op al d "CBB_add_u16 al d v" "append_to d (be_bytes 2 (unat v))" for al d v
  using builder_op_add_u [of "ucast v" 2 al d] unat_u16_less [of v]
  by (simp add: CBB_add_u16_def unsigned_ucast_eq take_bit_eq_mod)

interpretation add_u32: builder_op al d "CBB_add_u32 al d v" "append_to d (be_bytes 4 (unat v))" for al d v
  using builder_op_add_u [of "ucast v" 4 al d] unat_u32_less [of v]
  by (simp add: CBB_add_u32_def unsigned_ucast_eq take_bit_eq_mod)

interpretation add_u64: builder_op al d "CBB_add_u64 al d v" "append_to d (be_bytes 8 (unat v))" for al d v
  using builder_op_add_u [of v 8 al d] unat_u64_less [of v] by (simp add: CBB_add_u64_def)

text \<open>\<open>CBB_add_u24\<close> is the one that can be given a value too large for its width.\<close>

lemma builder_op_add_u24: "unat v < 2 ^ 24 \<Longrightarrow> builder_op al d (CBB_add_u24 al d v) (append_to d (be_bytes 3 (unat v)))"
  using builder_op_add_u [of "ucast v" 3 al d]
  by (simp add: CBB_add_u24_def unsigned_ucast_eq take_bit_eq_mod)

lemma append_to_append: "Option.bind (append_to d xs st) (append_to d ys) = append_to d (xs @ ys) st"
proof (cases "flush_to d st")
  case (Some st')
  then show ?thesis
    using flush_to_depth [of d st] by (cases st') (auto simp: append_to_def)
qed (simp add: append_to_def)

lemma append_to_depth: "append_to d bs st = Some st' \<Longrightarrow> length (snd st') = d"
  by (auto simp: append_to_def dest: flush_to_depth)

lemma append_to_Nil: "append_to d [] st = flush_to d st"
  by (cases "flush_to d st") (auto simp: append_to_def)

lemma builder_op_append_then:
  assumes "builder_op al d f (append_to d xs)" "\<And>v. builder_op al d (g v) (append_to d ys)"
  shows "builder_op al d (pbind f g) (append_to d (xs @ ys))"
  by (rule builder_op_cong [OF builder_op_bind [OF assms] refl]) (auto simp: append_to_append dest: append_to_depth)

text \<open>The byte-by-byte loop, for at least one byte.\<close>

lemma pbind_pret: "pbind f pret = f"
  by (rule ext) (auto simp: op_simps split: prod.splits option.splits)

lemma builder_op_add_u8s: "bs \<noteq> [] \<Longrightarrow> builder_op al d (add_u8s al d bs) (append_to d bs)"
proof (induction bs)
  case (Cons b bs)
  show ?case
  proof (cases "bs = []")
    case True
    then show ?thesis using add_u8.builder_op_axioms [of al d b] by (simp add: pbind_pret)
  next
    case False
    with Cons show ?thesis
      using builder_op_append_then [OF add_u8.builder_op_axioms, of al d "\<lambda>_. add_u8s al d bs" bs b] by simp
  qed
qed simp

section \<open>Opening a child\<close>

definition child_of :: "nat \<Rightarrow> nat \<Rightarrow> bool \<Rightarrow> cbb_child" where
  "child_of off n asn1 = \<lparr>child_offset = off, child_pending_len_len = n, child_pending_is_asn1 = asn1\<rparr>"

lemma cbb_abs_push:
  assumes wf: "cbb_wf cbb" and out: "buffer_out (cbb_base cbb') = buffer_out (cbb_base cbb) @ bs"
    and ch: "cbb_children cbb' = cbb_children cbb @ [child_of (cbb_len (cbb_base cbb)) (length bs) asn1]"
    and n: "asn1 \<longrightarrow> length bs = 1" and k: "k = (if asn1 then Asn1_prefix else Fixed_prefix (length bs))"
  shows "cbb_abs cbb' = (case cbb_abs cbb of (y, r) \<Rightarrow> ([], (k, y) # r))"
  using wf out ch k by (simp add: cbb_abs_def child_of_def child_prefix_def cbb_wf_def split: prod.splits)

lemma prim_add_child:
  assumes n: "n \<le> SIZE_MAX" "asn1 \<longrightarrow> n = 1" and k: "k = (if asn1 then Asn1_prefix else Fixed_prefix n)"
  shows "prim_ok al d (cbb_add_child al d n asn1) (\<lambda>(y, r). ([], (k, y) # r))"
  unfolding prim_ok_def
proof (intro conjI allI impI)
  fix cbb assume "cbb_wf cbb \<and> \<not> cbb_failed cbb \<and> length (cbb_children cbb) = d"
  then have wf: "cbb_wf cbb" and ok: "\<not> cbb_failed cbb" and d: "take d (cbb_children cbb) = cbb_children cbb" by simp_all
  have lk: "prefix_len k = n" using n(2) k by simp
  then have sz: "stack_size (case cbb_abs cbb of (y, r) \<Rightarrow> ([], (k, y) # r)) = cbb_len (cbb_base cbb) + n"
    using stack_size_cbb_abs [OF wf] by (cases "cbb_abs cbb") simp
  show "case cbb_add_child al d n asn1 cbb of
      (Some _, cbb') \<Rightarrow> cbb_le cbb cbb' \<and> \<not> cbb_failed cbb' \<and> cbb_abs cbb' = (case cbb_abs cbb of (y, r) \<Rightarrow> ([], (k, y) # r))
    | (None, cbb') \<Rightarrow> cbb_le cbb cbb' \<and> cbb_failed cbb' \<and>
        \<not> fits al (cbb_base cbb) (stack_size (case cbb_abs cbb of (y, r) \<Rightarrow> ([], (k, y) # r)))"
  proof (cases "cbb_buffer_add al n (cbb_base cbb)")
    case (Pair r b')
    show ?thesis
    proof (cases r)
      case None
      with Pair have b': "b' = (cbb_base cbb)\<lparr>cbb_error := True\<rparr>" by (auto dest: buffer_add_None)
      have "\<not> fits al (cbb_base cbb) (cbb_len (cbb_base cbb) + n)"
        using buffer_add_total [of "cbb_base cbb" al n] Pair None wf by (auto simp: cbb_wf_def)
      with Pair None wf show ?thesis
        by (simp add: cbb_add_child_def on_base_def op_simps b' cbb_le_def cbb_wf_def buffer_le_def sz)
    next
      case (Some off)
      let ?s = "cbb_store off (replicate n 0) (cbb\<lparr>cbb_base := b'\<rparr>)"
      let ?c = "child_of (cbb_len (cbb_base cbb)) n asn1"
      let ?cbb' = "?s\<lparr>cbb_children := cbb_children cbb @ [?c]\<rparr>"
      have "cbb_add_child al d n asn1 cbb = (Some (), ?cbb')"
        using Pair Some d by (simp add: cbb_add_child_def on_base_def op_simps Let_def child_of_def)
          (simp add: cbb_store_def)
      moreover note s = add_store [OF wf, of "replicate n 0" al off b', unfolded length_replicate, OF n(1) Pair [unfolded Some]]
      moreover have "cbb_wf ?cbb'"
        using wf s(1,5) n(2) by (simp add: cbb_wf_def child_of_def child_wf_def)
      moreover have "cbb_abs ?cbb' = (case cbb_abs cbb of (y, r) \<Rightarrow> ([], (k, y) # r))"
        by (rule cbb_abs_push [OF wf, of _ "replicate n 0" asn1]) (use s n k in simp_all)
      ultimately show ?thesis using ok by (simp add: cbb_le_def)
    qed
  qed
qed (auto split: prod.splits)

lemma builder_op_add_child:
  assumes "n \<le> SIZE_MAX" "asn1 \<longrightarrow> n = 1" "k = (if asn1 then Asn1_prefix else Fixed_prefix n)"
  shows "builder_op al d (pbind (CBB_flush al d) (\<lambda>_. cbb_add_child al d n asn1)) (push_to d k)"
  by (rule builder_op_cong [OF builder_op_after_flush [OF prim_add_child [OF assms]] refl]) (simp add: push_to_def)

interpretation add_u8_prefixed: builder_op al d "CBB_add_u8_length_prefixed al d" "push_to d (Fixed_prefix 1)" for al d
  unfolding CBB_add_u8_length_prefixed_def cbb_add_length_prefixed_def by (rule builder_op_add_child) simp_all

interpretation add_u16_prefixed: builder_op al d "CBB_add_u16_length_prefixed al d" "push_to d (Fixed_prefix 2)" for al d
  unfolding CBB_add_u16_length_prefixed_def cbb_add_length_prefixed_def by (rule builder_op_add_child) simp_all

interpretation add_u24_prefixed: builder_op al d "CBB_add_u24_length_prefixed al d" "push_to d (Fixed_prefix 3)" for al d
  unfolding CBB_add_u24_length_prefixed_def cbb_add_length_prefixed_def by (rule builder_op_add_child) simp_all

section \<open>Identifiers\<close>

lemma b128_digits_map:
  "map (\<lambda>i. n div 128 ^ i mod 128) (rev [0..<length (b128_digits n)]) = b128_digits n"
proof (induction n rule: b128_digits.induct)
  case (1 n)
  show ?case
  proof (cases "n = 0")
    case False
    have "[0..<Suc k] = 0 # map Suc [0..<k]" for k
      by (simp add: upt_conv_Cons map_Suc_upt del: upt_Suc)
    moreover have "n div 128 ^ Suc i mod 128 = (n div 128) div 128 ^ i mod 128" for i
      by (simp add: div_mult2_eq)
    ultimately show ?thesis
      using False 1 by (subst (1 2) b128_digits.simps) (simp add: rev_map comp_def del: upt_Suc power_Suc)
  qed simp
qed

lemma base128_len_eq: "base128_len v = length (b128_digits (unat v))"
proof (induction v rule: base128_len.induct)
  case (1 v)
  show ?case
  proof (cases "v = 0")
    case False
    then have "0 < v" "unat v \<noteq> 0" by (simp_all add: word_neq_0_conv unat_eq_0)
    with 1 show ?thesis
      by (subst base128_len.simps, subst b128_digits.simps) (simp add: unat_drop_bit)
  qed (subst base128_len.simps, simp)
qed

lemma unat_base128_byte: "unat (base128_byte v i) = unat v div 128 ^ i mod 128 + (if i = 0 then 0 else 128)"
proof -
  let ?d = "ucast (drop_bit (7 * i) v AND 0x7f) :: u8"
  have d: "unat ?d = unat v div 128 ^ i mod 128"
    by (simp add: unsigned_ucast_eq unat_and_127 unat_drop_bit take_bit_eq_mod power_mult)
  have "unat (0x80 OR ?d) = 128 + unat ?d"
    by (rule trans [OF unat_or_disjoint [of 7]]) (simp_all add: d)
  then show ?thesis
    using d by (cases "i = 0") (simp_all add: base128_byte_def or.commute)
qed

lemma base128_byte_eq:
  "base128_byte v i = (if i = 0 then of_nat (unat v mod 128) else of_nat (128 + unat v div 128 ^ i mod 128))"
proof -
  have "unat v div 128 ^ i mod 128 < 128" by simp
  then show ?thesis
    by (simp only: word_unat_eq_iff unat_base128_byte) (auto simp: unat_of_nat simp del: of_nat_add)
qed

lemma base128_bytes_map:
  "map (base128_byte v) (rev [0..<(if base128_len v = 0 then 1 else base128_len v)]) = base128_bytes (unat v)"
proof -
  let ?k = "length (b128_digits (unat v div 128))"
  have "(if base128_len v = 0 then 1 else base128_len v) = Suc ?k"
    unfolding base128_len_eq by (subst (1 2) b128_digits.simps) auto
  moreover have "[0..<Suc ?k] = 0 # map Suc [0..<?k]"
    by (simp add: upt_conv_Cons map_Suc_upt del: upt_Suc)
  moreover have "unat v div 128 ^ Suc i mod 128 = unat v div 128 div 128 ^ i mod 128" for i
    by (simp add: div_mult2_eq)
  moreover have "b128_cont (b128_digits (unat v div 128)) =
      map (\<lambda>i. of_nat (128 + unat v div 128 div 128 ^ i mod 128)) (rev [0..<?k])"
    by (subst b128_digits_map [symmetric]) (simp add: b128_cont_def comp_def del: of_nat_add)
  ultimately show ?thesis
    by (simp add: base128_bytes_def rev_map comp_def base128_byte_eq del: upt_Suc power_Suc of_nat_add)
qed

interpretation add_base128: builder_op al d "add_base128_integer al d v" "append_to d (base128_bytes (unat v))" for al d v
proof -
  have "base128_bytes (unat v) \<noteq> []" by (simp add: base128_bytes_def)
  then show "builder_op al d (add_base128_integer al d v) (append_to d (base128_bytes (unat v)))"
    unfolding add_base128_integer_def Let_def base128_bytes_map by (rule builder_op_add_u8s)
qed

lemma tag_first_byte:
  fixes tag :: CBS_ASN1_TAG and k :: u8
  assumes "unat k < 32"
  shows "(ucast (drop_bit CBS_ASN1_TAG_SHIFT tag) AND 0xe0) OR k = of_nat (unat tag div 2 ^ 29 * 32 + unat k)"
proof -
  let ?b = "ucast (drop_bit CBS_ASN1_TAG_SHIFT tag) AND 0xe0 :: u8"
  have c: "unat tag div 2 ^ 29 < 8" using unat_u32_less [of tag] by (simp add: less_mult_imp_div_less)
  have "unat ?b = (unat tag div 2 ^ 24 mod 256) div 32 mod 8 * 32"
    by (simp add: unat_and_high3 unsigned_ucast_eq unat_drop_bit take_bit_eq_mod)
  also have "(unat tag div 2 ^ 24 mod 256) div 32 mod 8 = unat tag div 2 ^ 29"
    using unat_u32_less [of tag] by (simp add: less_mult_imp_div_less div_mult2_eq [symmetric] flip: div_mult2_eq)
  finally have b: "unat ?b = unat tag div 2 ^ 29 * 32" .
  have "unat (?b OR k) = unat tag div 2 ^ 29 * 32 + unat k"
    using unat_or_disjoint [of 5 ?b k] assms by (simp only: b) simp
  moreover have "\<dots> < 256" using c assms by linarith
  ultimately show ?thesis
    by (simp only: word_unat_eq_iff unat_of_nat_byte mod_less)
qed

lemma append_then_push: "Option.bind (append_to d bs st) (push_to d k) = map_option (\<lambda>(y, r). ([], (k, y @ bs) # r)) (flush_to d st)"
proof (cases "flush_to d st")
  case (Some st')
  then show ?thesis using flush_to_depth [of d st] by (cases st') (auto simp: append_to_def push_to_def)
qed (simp add: append_to_def)

definition open_element :: "nat \<Rightarrow> CBS_ASN1_TAG \<Rightarrow> cbb_stack \<Rightarrow> cbb_stack option" where
  "open_element d tag st = Option.bind (append_to d (der_tag tag) st) (push_to d Asn1_prefix)"

text \<open>After an append the addressed \<open>CBB\<close> has no pending child, so a flush would do nothing.\<close>

lemma append_then_flush:
  assumes f: "builder_op al d f (append_to d bs)" and wf: "cbb_wf cbb"
  shows "pbind f (\<lambda>_. g) cbb = pbind f (\<lambda>_. pbind (CBB_flush al d) (\<lambda>_. g)) cbb"
proof (cases "f cbb")
  case (Pair r c)
  show ?thesis
  proof (cases r)
    case (Some v)
    with builder_op.op_Some [OF f wf] Pair have "\<not> cbb_failed c" "append_to d bs (cbb_abs cbb) = Some (cbb_abs c)"
      by auto
    then have "length (cbb_children c) = d" "\<not> cbb_failed c"
      by (auto dest: append_to_depth simp: depth_cbb_abs)
    then have "CBB_flush al d c = (Some (), c)" using CBB_flush_done [of c al] by simp
    with Pair Some show ?thesis by (simp add: pbind_def)
  qed (use Pair in \<open>simp add: pbind_def\<close>)
qed

lemma builder_op_flush_first:
  assumes "builder_op al d f (append_to d bs)"
  shows "builder_op al d (pbind (CBB_flush al d) (\<lambda>_. f)) (append_to d bs)"
proof -
  have "builder_op al d (CBB_flush al d) (append_to d [])"
    using flush.builder_op_axioms by (rule builder_op_cong) (simp_all add: append_to_Nil)
  from builder_op_append_then [OF this assms] show ?thesis by simp
qed

lemma builder_op_append_child:
  assumes f: "builder_op al d f (append_to d bs)"
    and "n \<le> SIZE_MAX" "asn1 \<longrightarrow> n = 1" "k = (if asn1 then Asn1_prefix else Fixed_prefix n)"
  shows "builder_op al d (pbind f (\<lambda>_. cbb_add_child al d n asn1)) (\<lambda>st. Option.bind (append_to d bs st) (push_to d k))"
proof (rule builder_op_wf_cong)
  show "builder_op al d (pbind f (\<lambda>_. pbind (CBB_flush al d) (\<lambda>_. cbb_add_child al d n asn1)))
      (\<lambda>st. Option.bind (append_to d bs st) (push_to d k))"
    by (rule builder_op_bind [OF f builder_op_add_child [OF assms(2-4)]]) (auto dest: append_to_depth)
qed (rule append_then_flush [OF f])

interpretation add_asn1: builder_op al d "CBB_add_asn1 al d tag" "open_element d tag" for al d tag
proof -
  let ?n = "tag AND CBS_ASN1_TAG_NUMBER_MASK" and ?b = "ucast (drop_bit CBS_ASN1_TAG_SHIFT tag) AND 0xe0 :: u8"
  let ?w = "if ?n \<ge> 0x1f then pbind (CBB_add_u8 al d (?b OR 0x1f)) (\<lambda>_. add_base128_integer al d (ucast ?n))
            else CBB_add_u8 al d (?b OR ucast ?n)"
  have n: "unat ?n = unat tag mod 2 ^ 29" by (rule unat_tag_number_mask)
  have w: "builder_op al d ?w (append_to d (der_tag tag))"
  proof (cases "?n \<ge> 0x1f")
    case True
    then have hi: "31 \<le> unat tag mod 2 ^ 29" by (simp only: word_le_nat_alt n) simp
    have u: "unat (ucast ?n :: u64) = unat tag mod 2 ^ 29" 
      using unat_u32_less [of ?n] by (simp add: unsigned_ucast_eq take_bit_eq_mod n)
    have "der_tag tag = [?b OR 0x1f] @ base128_bytes (unat (ucast ?n :: u64))"
      using hi tag_first_byte [of "0x1f" tag] by (simp add: der_tag_def Let_def u)
    then show ?thesis
      using True builder_op_append_then [OF add_u8.builder_op_axioms add_base128.builder_op_axioms, of al d "?b OR 0x1f"]
      by simp
  next
    case False
    then have lo: "unat tag mod 2 ^ 29 < 31" by (simp only: not_le word_less_nat_alt n) simp
    then have u: "unat (ucast ?n :: u8) = unat tag mod 2 ^ 29"
      by (simp add: unsigned_ucast_eq take_bit_eq_mod n)
    have "der_tag tag = [?b OR ucast ?n]"
      using lo tag_first_byte [of "ucast ?n" tag] by (simp add: der_tag_def Let_def u)
    then show ?thesis using False add_u8.builder_op_axioms [of al d "?b OR ucast ?n"] by simp
  qed
  note op = builder_op_append_child [OF builder_op_flush_first [OF w], of 1 True Asn1_prefix]
  show "builder_op al d (CBB_add_asn1 al d tag) (open_element d tag)"
    by (rule builder_op_cong [OF op]) (simp_all add: CBB_add_asn1_def Let_def pbind_assoc open_element_def)
qed

section \<open>Whole elements\<close>

definition add_element :: "nat \<Rightarrow> CBS_ASN1_TAG \<Rightarrow> u8 list \<Rightarrow> cbb_stack \<Rightarrow> cbb_stack option" where
  "add_element d tag bs st = (if length bs \<le> 0xfffffffe then append_to d (der_element tag bs) st else None)"

lemma add_element_eq:
  "Option.bind (open_element d tag st) (\<lambda>st. Option.bind (append_to (Suc d) bs st) (flush_to d)) = add_element d tag bs st"
proof (cases "flush_to d st")
  case (Some st')
  obtain y r where st': "st' = (y, r)" by fastforce
  with Some have r: "length r = d" using flush_to_depth by blast
  have "open_element d tag st = Some ([], (Asn1_prefix, y @ der_tag tag) # r)"
    using Some by (simp add: open_element_def append_then_push st')
  with r Some st' show ?thesis
    by (auto simp: append_to_def add_element_def close_prefix_def der_element_def der_header_def)
qed (simp add: open_element_def append_to_def add_element_def)

lemma open_element_depth: "open_element d tag st = Some st' \<Longrightarrow> length (snd st') = Suc d"
  by (auto simp: open_element_def append_then_push dest: flush_to_depth)

text \<open>
  Opening an element, writing its contents to the child with any operation that appends
  them, and flushing the parent appends the DER element.
\<close>

lemma builder_op_element:
  assumes g: "builder_op al (Suc d) g (append_to (Suc d) bs)"
  shows "builder_op al d (pbind (CBB_add_asn1 al d tag) (\<lambda>_. pbind g (\<lambda>_. CBB_flush al d))) (add_element d tag bs)"
proof -
  have "builder_op al (Suc d) (pbind g (\<lambda>_. CBB_flush al d)) (\<lambda>st. Option.bind (append_to (Suc d) bs st) (flush_to d))"
    by (rule builder_op_bind [OF g flush.builder_op_axioms]) (auto dest: append_to_depth)
  then have "builder_op al d (pbind (CBB_add_asn1 al d tag) (\<lambda>_. pbind g (\<lambda>_. CBB_flush al d)))
      (\<lambda>st. Option.bind (open_element d tag st) (\<lambda>st. Option.bind (append_to (Suc d) bs st) (flush_to d)))"
    by (rule builder_op_bind [OF add_asn1.builder_op_axioms]) (auto dest: open_element_depth)
  then show ?thesis by (rule builder_op_cong) (simp_all add: add_element_eq)
qed

lemma builder_op_on_error:
  assumes "builder_op al d f e"
  shows "builder_op al d (or_on_error d f) e"
proof
  fix cbb v cbb' assume wf: "cbb_wf cbb" and "or_on_error d f cbb = (Some v, cbb')"
  then have "f cbb = (Some v, cbb')" by (auto simp: or_on_error_def split: prod.splits option.splits)
  then show "cbb_le cbb cbb' \<and> \<not> cbb_failed cbb \<and> \<not> cbb_failed cbb' \<and> e (cbb_abs cbb) = Some (cbb_abs cbb')"
    using builder_op.op_Some [OF assms wf] by blast
next
  fix cbb cbb' assume wf: "cbb_wf cbb" and "or_on_error d f cbb = (None, cbb')"
  then obtain c where c: "f cbb = (None, c)" "cbb' = cbb_on_error d c"
    by (auto simp: or_on_error_def split: prod.splits option.splits)
  then have "cbb_le cbb c" using builder_op.op_None [OF assms wf] by blast
  then show "cbb_le cbb cbb' \<and> (cbb_attached d cbb \<longrightarrow> cbb_failed cbb')"
    unfolding c(2) cbb_le_def by (auto simp: cbb_wf_on_error) (auto simp: cbb_on_error_def buffer_le_def)
next
  fix cbb st assume "cbb_wf cbb" "\<not> cbb_failed cbb" "e (cbb_abs cbb) = Some st" "fits al (cbb_base cbb) (stack_size st)"
  from builder_op.op_total [OF assms this] show "fst (or_on_error d f cbb) \<noteq> None"
    by (auto simp: or_on_error_def split: prod.splits option.splits)
qed (rule builder_op.effect_grows [OF assms])

text \<open>
  When the flush that ends an element is outside the error epilogue, the builder behaves
  the same: a failing flush already sets the error state.
\<close>

lemma builder_op_element':
  assumes g: "builder_op al (Suc d) g (append_to (Suc d) bs)"
  shows "builder_op al d (pbind (or_on_error d (pbind (CBB_add_asn1 al d tag) (\<lambda>_. g))) (\<lambda>_. CBB_flush al d))
    (add_element d tag bs)"
proof -
  have op: "builder_op al d (or_on_error d (pbind (CBB_add_asn1 al d tag) (\<lambda>_. g)))
      (\<lambda>st. Option.bind (open_element d tag st) (append_to (Suc d) bs))"
    by (rule builder_op_on_error [OF builder_op_bind [OF add_asn1.builder_op_axioms g]]) (auto dest: open_element_depth)
  have "builder_op al d (pbind (or_on_error d (pbind (CBB_add_asn1 al d tag) (\<lambda>_. g))) (\<lambda>_. CBB_flush al d))
      (\<lambda>st. Option.bind (Option.bind (open_element d tag st) (append_to (Suc d) bs)) (flush_to d))"
    by (rule builder_op_bind [OF op flush.builder_op_axioms]) (auto simp: bind_eq_Some_conv dest: append_to_depth)
  then show ?thesis by (rule builder_op_cong) (simp_all add: add_element_eq [symmetric])
qed

lemma builder_op_octet_string:
  "length data \<le> SIZE_MAX \<Longrightarrow> builder_op al d (CBB_add_asn1_octet_string al d data) (add_element d CBS_ASN1_OCTETSTRING data)"
  unfolding CBB_add_asn1_octet_string_def
  by (intro builder_op_on_error builder_op_element builder_op_add_bytes)

interpretation add_bool: builder_op al d "CBB_add_asn1_bool al d v" "add_element d CBS_ASN1_BOOLEAN (bool_content v)" for al d v
  unfolding CBB_add_asn1_bool_def bool_content_def
  by (intro builder_op_on_error builder_op_element add_u8.builder_op_axioms)

section \<open>Integers\<close>

text \<open>The bytes the loop of \<open>CBB_add_asn1_uint64_with_tag\<close> emits for the remaining input bytes.\<close>

fun uint_emit :: "bool \<Rightarrow> u8 list \<Rightarrow> u8 list" where
  "uint_emit started [] = (if started then [] else [0])"
| "uint_emit started (b # bs) =
     (if started then b # uint_emit True bs
      else if b = 0 then uint_emit False bs
      else (if 128 \<le> unat b then [0] else []) @ b # uint_emit True bs)"

lemma uint_emit_started: "uint_emit True bs = bs"
  by (induction bs) auto

lemma uint_emit_eq: "uint_emit False bs = uint_content (be_val bs)"
proof (induction bs)
  case Nil
  show ?case by (simp add: uint_content_def)
next
  case (Cons b bs)
  show ?case
  proof (cases "b = 0")
    case True
    with Cons show ?thesis by (simp add: be_val_Cons)
  next
    case False
    then have "min_bytes (be_val (b # bs)) = b # bs" by (intro min_bytes_unique) simp
    with False show ?thesis by (simp add: uint_content_def uint_emit_started)
  qed
qed

lemma uint64_loop_emit:
  "pbind (uint64_loop al d v started is) (\<lambda>started. if \<not> started then CBB_add_u8 al d 0 else pret ()) =
   add_u8s al d (uint_emit started (map (\<lambda>i. ucast (drop_bit (8 * (7 - i)) v AND 0xff)) is))"
proof (induction "is" arbitrary: started)
  case Nil
  show ?case by (simp add: pbind_pret_left pbind_pret)
next
  case (Cons i "is")
  have split: "add_u8s al d (xs @ ys) = pbind (add_u8s al d xs) (\<lambda>_. add_u8s al d ys)" for xs ys
    by (induction xs) (simp_all add: pbind_pret_left pbind_assoc)
  show ?case
    using Cons by (simp add: Let_def pbind_assoc pbind_pret_left byte_and_128 not_less split)
qed

lemma uint64_bytes: "map (\<lambda>i. ucast (drop_bit (8 * (7 - i)) v AND 0xff)) [0..<8] = be_bytes 8 (unat v)"
proof -
  have b: "(ucast (drop_bit (8 * k) v AND 0xff) :: u8) = of_nat (unat v div 256 ^ k)" for k
  proof -
    have "unat (drop_bit (8 * k) v AND 0xff) = unat v div 256 ^ k mod 256"
      using unat_and_mask [of 255 8 "drop_bit (8 * k) v"] by (simp add: mask_eq_exp_minus_1 unat_drop_bit power_mult)
    then show ?thesis by (simp only: word_unat_eq_iff unat_of_nat_byte) (simp add: unsigned_ucast_eq take_bit_eq_mod)
  qed
  have "map (\<lambda>i. of_nat (unat v div 256 ^ (7 - i)) :: u8) [0..<8] = map (\<lambda>i. of_nat (unat v div 256 ^ i)) (rev [0..<8])"
    by (simp add: upt_rec)
  then show ?thesis unfolding b be_bytes_map .
qed

lemma uint_content_nonempty: "uint_content n \<noteq> []"
  by (auto simp: uint_content_def split: list.splits)

interpretation add_uint64_tag: builder_op al d "CBB_add_asn1_uint64_with_tag al d v tag"
  "add_element d tag (uint_content (unat v))" for al d v tag
proof -
  have "be_val (be_bytes 8 (unat v)) = unat v"
    using unat_u64_less [of v] by (simp add: be_val_be_bytes)
  then have "builder_op al (Suc d) (pbind (uint64_loop al (Suc d) v False [0..<8])
      (\<lambda>started. if \<not> started then CBB_add_u8 al (Suc d) 0 else pret ())) (append_to (Suc d) (uint_content (unat v)))"
    unfolding uint64_loop_emit uint64_bytes uint_emit_eq
    by (simp add: builder_op_add_u8s uint_content_nonempty)
  then show "builder_op al d (CBB_add_asn1_uint64_with_tag al d v tag) (add_element d tag (uint_content (unat v)))"
    unfolding CBB_add_asn1_uint64_with_tag_def by (rule builder_op_element')
qed

interpretation add_uint64: builder_op al d "CBB_add_asn1_uint64 al d v"
  "add_element d CBS_ASN1_INTEGER (uint_content (unat v))" for al d v
  unfolding CBB_add_asn1_uint64_def by (rule add_uint64_tag.builder_op_axioms)

lemma int64_byte_eq: "int64_byte v i = of_nat (unat v div 256 ^ i)"
  by (simp add: int64_byte_def word_unat_eq_iff unsigned_ucast_eq take_bit_eq_mod unat_drop_bit power_mult)

lemma skip_sign_strip:
  assumes "128 \<le> unat (int64_byte v k)"
  shows "map (int64_byte v) (rev [0..<Suc (skip_sign v k)]) = strip (map (int64_byte v) (rev [0..<Suc k]))"
  using assms
proof (induction k)
  case (Suc k)
  have u: "rev [0..<Suc (Suc k)] = Suc k # rev [0..<Suc k]" "rev [0..<Suc k] = k # rev [0..<k]" by simp_all
  have nz: "int64_byte v (Suc k) \<noteq> 0" using Suc.prems by auto
  show ?case
  proof (cases "int64_byte v (Suc k) = 0xff \<and> 128 \<le> unat (int64_byte v k)")
    case True
    with Suc.IH nz show ?thesis by (simp add: u byte_and_128 not_less del: upt_Suc)
  next
    case False
    with nz show ?thesis by (auto simp: u byte_and_128 not_less simp del: upt_Suc)
  qed
qed simp

lemma int64_content_negative:
  assumes "sint v < 0"
  shows "map (int64_byte v) (rev [0..<Suc (skip_sign v 7)]) = int64_content v"
proof -
  have "128 \<le> unat v div 256 ^ 7" using assms by (simp add: sint_neg_iff less_eq_div_iff_mult_less_eq)
  moreover have "unat v div 256 ^ 7 < 256" using unat_u64_less [of v] by (simp add: less_mult_imp_div_less)
  ultimately have "128 \<le> unat (int64_byte v 7)" by (simp only: int64_byte_eq unat_of_nat_byte mod_less)
  moreover have "be_bytes 8 (unat v) = map (int64_byte v) (rev [0..<Suc 7])"
    unfolding be_bytes_map by (simp add: int64_byte_eq)
  ultimately show ?thesis by (simp only: int64_content_def skip_sign_strip)
qed

interpretation add_int64_tag: builder_op al d "CBB_add_asn1_int64_with_tag al d v tag"
  "add_element d tag (int64_content v)" for al d v tag
proof (cases "sint v \<ge> 0")
  case True
  then have "unat v < 2 ^ 63" using sint_neg_iff [of v] by simp
  with True show "builder_op al d (CBB_add_asn1_int64_with_tag al d v tag) (add_element d tag (int64_content v))"
    using add_uint64_tag.builder_op_axioms by (simp add: CBB_add_asn1_int64_with_tag_def int64_content_unsigned)
next
  case False
  have "int64_content v \<noteq> []" using int64_content_iff [of "int64_content v" v] by simp
  then have "builder_op al (Suc d) (add_u8s al (Suc d) (int64_content v)) (append_to (Suc d) (int64_content v))"
    by (rule builder_op_add_u8s)
  from builder_op_element' [OF this, of tag]
  show "builder_op al d (CBB_add_asn1_int64_with_tag al d v tag) (add_element d tag (int64_content v))"
    using False int64_content_negative [of v] by (simp add: CBB_add_asn1_int64_with_tag_def Let_def del: upt_Suc)
qed

interpretation add_int64: builder_op al d "CBB_add_asn1_int64 al d v"
  "add_element d CBS_ASN1_INTEGER (int64_content v)" for al d v
  unfolding CBB_add_asn1_int64_def by (rule add_int64_tag.builder_op_axioms)

section \<open>Discarding, reserving, finishing\<close>

text \<open>Discarding the child at depth \<open>d + 1\<close> leaves the string its parent held when the child's length octets were reserved.\<close>

definition discard_to :: "nat \<Rightarrow> cbb_stack \<Rightarrow> cbb_stack" where
  "discard_to d st =
     (case st of (y, r) \<Rightarrow>
        if length r \<le> d then (y, r)
        else case drop (length r - Suc d) r of (k, x) # r' \<Rightarrow> (x, r') | [] \<Rightarrow> (y, r))"

lemma chain_wf_offsets: "chain_wf n (pre @ c # cs) \<Longrightarrow> child_start c \<le> n \<and> chain_wf (child_offset c) cs"
  by (induction pre arbitrary: n) fastforce+

lemma open_strings_middle:
  assumes "chain_wf (length out) (pre @ c # cs)" "open_strings (take (child_offset c) out) cs = (x, r)"
  shows "\<exists>y pre'. length pre' = length pre \<and> open_strings out (pre @ c # cs) = (y, pre' @ (child_prefix c, x) # r)"
  using assms
proof (induction pre arbitrary: out)
  case (Cons p pre)
  let ?o = "take (child_offset p) out"
  from Cons.prems have w: "chain_wf (child_offset p) (pre @ c # cs)" "child_offset p \<le> length out" by auto
  then have "child_offset c \<le> child_offset p" using chain_wf_offsets by fastforce
  with Cons.prems w have "open_strings (take (child_offset c) ?o) cs = (x, r)" by (simp add: min_def)
  with Cons.IH [of ?o] w obtain y pre' where "length pre' = length pre"
    "open_strings ?o (pre @ c # cs) = (y, pre' @ (child_prefix c, x) # r)" by auto
  then show ?case by (intro exI [of _ "drop (child_start p) out"] exI [of _ "(child_prefix p, y) # pre'"]) simp
qed simp

lemma rev_children_split:
  assumes "d < length cs"
  shows "rev cs = rev (drop (Suc d) cs) @ cs ! d # rev (take d cs)"
proof -
  have "rev cs = rev (take d cs @ cs ! d # drop (Suc d) cs)"
    using assms by (simp only: id_take_nth_drop [symmetric])
  then show ?thesis by simp
qed

lemma discard_child_refines:
  assumes wf: "cbb_wf cbb"
  shows "cbb_wf (CBB_discard_child d cbb) \<and> cbb_abs (CBB_discard_child d cbb) = discard_to d (cbb_abs cbb)"
proof (cases "length (cbb_children cbb) \<le> d")
  case True
  then show ?thesis
    using wf depth_cbb_abs [of cbb] by (auto simp: CBB_discard_child_def discard_to_def split: prod.splits)
next
  case False
  let ?b = "cbb_base cbb" and ?c = "cbb_children cbb ! d"
  have sp: "rev (cbb_children cbb) = rev (drop (Suc d) (cbb_children cbb)) @ ?c # rev (take d (cbb_children cbb))"
    using False by (intro rev_children_split) simp
  have b: "buffer_wf ?b" and ch: "chain_wf (cbb_len ?b) (rev (drop (Suc d) (cbb_children cbb)) @ ?c # rev (take d (cbb_children cbb)))"
    using wf sp by (simp_all add: cbb_wf_def)
  from chain_wf_offsets [OF ch] have c: "child_offset ?c \<le> cbb_len ?b" "chain_wf (child_offset ?c) (rev (take d (cbb_children cbb)))"
    by simp_all
  obtain x r where o: "open_strings (take (child_offset ?c) (buffer_out ?b)) (rev (take d (cbb_children cbb))) = (x, r)"
    by fastforce
  obtain y pre' where y: "length pre' = length (cbb_children cbb) - Suc d"
    "cbb_abs cbb = (y, pre' @ (child_prefix ?c, x) # r)"
    using open_strings_middle [OF _ o, of "rev (drop (Suc d) (cbb_children cbb))"] b ch
    unfolding cbb_abs_def sp by auto
  have "length r = d" using length_open_strings [of "take (child_offset ?c) (buffer_out ?b)" "rev (take d (cbb_children cbb))"] False
    by (simp add: o)
  with y have "discard_to d (cbb_abs cbb) = (x, r)" by (simp add: discard_to_def)
  with False b c o show ?thesis
    by (simp add: CBB_discard_child_def cbb_wf_def cbb_abs_def buffer_wf_def buffer_out_def min_def)
qed

lemma CBB_reserve_wf:
  assumes "cbb_wf cbb" "n \<le> SIZE_MAX"
  shows "cbb_wf (snd (CBB_reserve al d n cbb))"
proof (cases "CBB_flush al d cbb")
  case (Pair r c)
  then have "cbb_wf c" using flush.keeps_wf [OF assms(1), of al d] by simp
  moreover have "cbb_wf (snd (on_base (cbb_buffer_reserve al n) c))" if "cbb_wf c"
  proof (cases "cbb_buffer_reserve al n (cbb_base c)")
    case r: (Pair q b')
    show ?thesis
    proof (cases q)
      case None
      with r that show ?thesis by (auto simp: on_base_def cbb_wf_def dest!: buffer_reserve_None)
    next
      case (Some off)
      with r that show ?thesis
        using buffer_reserve_Some [OF _ assms(2), of "cbb_base c" al off b']
        by (simp add: on_base_def cbb_wf_def buffer_le_def)
    qed
  qed
  ultimately show ?thesis using Pair by (cases r) (simp_all add: CBB_reserve_def pbind_def)
qed

text \<open>
  The \<open>CBB_reserve\<close>, write, \<open>CBB_did_write\<close> protocol: \<open>CBB_did_write\<close> appends the
  bytes that were stored in the reserved space, and refuses more than the capacity.
\<close>

lemma CBB_did_write_spec:
  assumes wf: "cbb_wf cbb" and n: "n \<le> SIZE_MAX" and d: "length (cbb_children cbb) = d"
    and room: "cbb_len (cbb_base cbb) + n \<le> cbb_cap (cbb_base cbb)"
  defines "bs \<equiv> take n (drop (cbb_len (cbb_base cbb)) (cbb_buf (cbb_base cbb)))"
  shows "\<exists>cbb'. CBB_did_write d n cbb = (Some (), cbb') \<and> cbb_wf cbb' \<and>
    cbb_abs cbb' = (case cbb_abs cbb of (y, r) \<Rightarrow> (y @ bs, r))"
proof -
  let ?b = "cbb_base cbb" and ?b' = "(cbb_base cbb)\<lparr>cbb_len := cbb_len (cbb_base cbb) + n\<rparr>"
  have b: "buffer_wf ?b" using wf by (simp add: cbb_wf_def)
  have "size_add (cbb_len ?b) n = cbb_len ?b + n"
    using room b by (intro size_add_exact) (simp add: buffer_wf_def)
  then have "CBB_did_write d n cbb = (Some (), cbb\<lparr>cbb_base := ?b'\<rparr>)"
    using room d by (simp add: CBB_did_write_def Let_def)
  moreover have "cbb_wf (cbb\<lparr>cbb_base := ?b'\<rparr>)"
    using wf room by (auto simp: cbb_wf_def buffer_wf_def elim: chain_wf_mono)
  moreover have "cbb_abs (cbb\<lparr>cbb_base := ?b'\<rparr>) = (case cbb_abs cbb of (y, r) \<Rightarrow> (y @ bs, r))"
    using wf by (rule cbb_abs_append) (simp_all add: buffer_out_def bs_def take_add)
  ultimately show ?thesis by blast
qed

lemma CBB_did_write_wf: "cbb_wf cbb \<Longrightarrow> cbb_wf (snd (CBB_did_write d n cbb))"
  by (auto simp: CBB_did_write_def Let_def cbb_wf_def buffer_wf_def elim: chain_wf_mono)

text \<open>A value that does not fit its width locks the builder into the error state.\<close>

lemma cbb_add_u_overflow:
  assumes wf: "cbb_wf cbb" "n \<le> 8" "256 ^ n \<le> unat v" "cbb_attached d cbb"
  shows "\<exists>cbb'. cbb_add_u al d v n cbb = (None, cbb') \<and> cbb_wf cbb' \<and> cbb_failed cbb'"
proof (cases "CBB_add_space al d n cbb")
  case (Pair r c)
  have "length (be_bytes n 0) \<le> SIZE_MAX" using wf(2) by simp
  note op = builder_op_append [OF this, of al d]
  show ?thesis
  proof (cases r)
    case None
    with Pair wf show ?thesis
      using builder_op.op_None [OF op wf(1), of c] by (simp add: cbb_add_u_def pbind_def cbb_le_def)
  next
    case (Some off)
    let ?s = "\<lambda>bs. cbb_store off bs c"
    have room: "off + n \<le> length (cbb_buf (cbb_base c))"
      using add_space_room [OF wf(1) _ Pair [unfolded Some]] wf(2) by simp
    have "cbb_wf (?s (be_bytes n 0))"
      using builder_op.op_Some [OF op wf(1), of "()"] Pair Some by (simp add: pbind_def cbb_le_def)
    then have "cbb_wf (?s (be_bytes n (unat v)))"
      using room by (simp add: cbb_wf_def cbb_store_def buffer_wf_def)
    moreover have "cbb_add_u al d v n cbb = (None, cbb_on_error d (?s (be_bytes n (unat v))))"
      using Pair Some room wf(3) drop_bytes_eq_0 [of n v]
      by (simp add: cbb_add_u_def pbind_def put_be_eq cbb_store_def Let_def)
    ultimately show ?thesis
      by (simp add: cbb_wf_on_error) (simp add: cbb_on_error_def)
  qed
qed

lemma CBB_init_spec:
  assumes "CBB_init al cap = Some cbb" "cap \<le> SIZE_MAX"
  shows "cbb_wf cbb \<and> \<not> cbb_failed cbb \<and> cbb_abs cbb = ([], []) \<and> cbb_can_resize (cbb_base cbb)"
  using assms OPENSSL_malloc_length [of al cap]
  by (auto simp: CBB_init_def cbb_init_def cbb_wf_def cbb_abs_def buffer_wf_def buffer_out_def split: option.splits if_splits)

lemma CBB_init_fixed_spec:
  assumes "len \<le> length buf" "len \<le> SIZE_MAX"
  shows "cbb_wf (CBB_init_fixed buf len) \<and> \<not> cbb_failed (CBB_init_fixed buf len) \<and>
    cbb_abs (CBB_init_fixed buf len) = ([], []) \<and> cbb_cap (cbb_base (CBB_init_fixed buf len)) = len"
  using assms by (simp add: CBB_init_fixed_def cbb_init_def cbb_wf_def cbb_abs_def buffer_wf_def buffer_out_def)

lemma CBB_finish_eq:
  "CBB_finish al d cbb =
     (if d \<noteq> 0 then (None, cbb)
      else pbind (CBB_flush al d) (\<lambda>_ cbb.
             (Some (cbb_buf (cbb_base cbb), cbb_len (cbb_base cbb)), cbb\<lparr>cbb_base := (cbb_base cbb)\<lparr>cbb_buf := []\<rparr>\<rparr>)) cbb)"
  by (auto simp: CBB_finish_def CBB_finish_to_def pbind_def split: prod.splits option.splits)

lemma CBB_finish_spec:
  assumes "cbb_wf cbb" "CBB_finish al 0 cbb = (Some (buf, len), cbb')"
  shows "\<exists>y. flush_to 0 (cbb_abs cbb) = Some (y, []) \<and> take len buf = y \<and> len = length y"
proof -
  from assms(2) obtain u c where f: "CBB_flush al 0 cbb = (Some u, c)"
    and b: "buf = cbb_buf (cbb_base c)" "len = cbb_len (cbb_base c)"
    by (auto simp: CBB_finish_eq pbind_eq_Some)
  have "length (cbb_children c) = 0" using flush_depth [OF assms(1) f] .
  then have "cbb_abs c = (buffer_out (cbb_base c), [])" by (simp add: cbb_abs_def)
  with flush.op_Some [OF assms(1) f] b show ?thesis
    by (auto simp: buffer_out_def cbb_le_def cbb_wf_def buffer_wf_def)
qed

text \<open>Everything that is built: what the caller gets from \<open>CBB_finish\<close> is what was appended.\<close>

lemma build_open:
  assumes op: "builder_op al 0 f e" and init: "CBB_init al cap = Some cbb" "cap \<le> SIZE_MAX"
    and al: "al_total al" and e: "Option.bind (e ([], [])) (flush_to 0) = Some (bs, [])" and len: "length bs \<le> 2 ^ 62"
  shows "\<exists>buf n cbb'. pbind f (\<lambda>_. CBB_finish al 0) cbb = (Some (buf, n), cbb') \<and> CBS_init buf n = bs"
proof -
  note i = CBB_init_spec [OF init]
  from e obtain st where st: "e ([], []) = Some st" "flush_to 0 st = Some (bs, [])" by (auto simp: bind_eq_Some_conv)
  have "stack_size st \<le> length bs" using flush_to_size [OF st(2)] by simp
  with al len i have "fits al (cbb_base cbb) (stack_size st)" by (simp add: fits_def)
  then obtain v c where c: "f cbb = (Some v, c)" "cbb_le cbb c" "\<not> cbb_failed c" "cbb_abs c = st"
    using builder_op.runs [OF op, of cbb st] i st by auto
  then have wf: "cbb_wf c" and "fits al (cbb_base c) (stack_size (bs, []))"
    using i al len by (auto simp: cbb_le_def buffer_le_def fits_def)
  then obtain u c1 where "CBB_flush al 0 c = (Some u, c1)"
    using flush.runs [OF wf c(3)] st(2) c(4) by blast
  then obtain buf n c' where fin: "CBB_finish al 0 c = (Some (buf, n), c')"
    by (simp add: CBB_finish_eq pbind_def)
  from CBB_finish_spec [OF wf fin] c st have "take n buf = bs" by auto
  with c(1) fin show ?thesis by (simp add: pbind_def CBS_init_def)
qed

lemma build:
  assumes "builder_op al 0 f (append_to 0 bs)" "CBB_init al cap = Some cbb" "cap \<le> SIZE_MAX"
    and "al_total al" "length bs \<le> 2 ^ 62"
  shows "\<exists>buf n cbb'. pbind f (\<lambda>_. CBB_finish al 0) cbb = (Some (buf, n), cbb') \<and> CBS_init buf n = bs"
  using assms(1-4) by (rule build_open) (use assms(5) in \<open>simp_all add: append_to_def\<close>)

lemma builder_op_element_append:
  assumes "builder_op al d f (add_element d tag bs)" "length bs \<le> 0xfffffffe"
  shows "builder_op al d f (append_to d (der_element tag bs))"
  by (rule builder_op_cong [OF assms(1)]) (use assms(2) in \<open>auto simp: add_element_def\<close>)

lemma length_der_element: "length (der_element tag bs) \<le> length bs + 11"
  using length_der_tag(2) [of tag] length_der_length(2) [of "length bs"]
  by (simp add: der_element_def der_header_def)

lemma build_element:
  assumes op: "builder_op al 0 f (add_element 0 tag bs)" and init: "CBB_init al cap = Some cbb" "cap \<le> SIZE_MAX"
    and al: "al_total al" and len: "length bs \<le> 0xfffffffe"
  shows "\<exists>buf n cbb'. pbind f (\<lambda>_. CBB_finish al 0) cbb = (Some (buf, n), cbb') \<and> CBS_init buf n = der_element tag bs"
proof -
  have "length (der_element tag bs) \<le> 2 ^ 62" using length_der_element [of tag bs] len by simp
  from build [OF builder_op_element_append [OF op len] init al this] show ?thesis .
qed

section \<open>Properties\<close>

text \<open>
  C3. \<open>CBB_flush\<close> refines closing the open strings. On a well-formed builder that is not
  in the error state, whenever every pending length fits its prefix (the abstract flush is
  defined) and the result fits the buffer, \<open>CBB_flush\<close> succeeds at every depth; the
  result is well-formed and holds exactly the parent's bytes followed by the length octets
  and contents of each closed child (minimal DER lengths for ASN.1 children, with the
  contents moved to make room for long lengths).
\<close>

theorem CBB_flush_refines:
  assumes "cbb_wf cbb" "\<not> cbb_error (cbb_base cbb)"
    and "flush_to d (cbb_abs cbb) = Some st" "fits al (cbb_base cbb) (stack_size st)"
  shows "\<exists>cbb'. CBB_flush al d cbb = (Some (), cbb') \<and> cbb_wf cbb' \<and> \<not> cbb_error (cbb_base cbb') \<and> cbb_abs cbb' = st"
  using flush.runs [OF assms] by (auto simp: cbb_le_def)

theorem CBB_flush_refines_witness:
  "\<exists>cbb'. CBB_flush (\<lambda>_. None) 0
     \<lparr>cbb_base = \<lparr>cbb_buf = [48, 0, 7, 7], cbb_len = 3, cbb_cap = 4, cbb_can_resize = False, cbb_error = False\<rparr>,
      cbb_children = [\<lparr>child_offset = 1, child_pending_len_len = 1, child_pending_is_asn1 = True\<rparr>]\<rparr> = (Some (), cbb') \<and>
     cbb_wf cbb' \<and> \<not> cbb_error (cbb_base cbb') \<and> cbb_abs cbb' = ([48, 1, 7], [])"
  by (rule CBB_flush_refines)
    (simp_all add: cbb_wf_def buffer_wf_def child_wf_def cbb_abs_def buffer_out_def child_prefix_def
      close_prefix_def der_length_def fits_def)

text \<open>
  C6. A length that does not fit its prefix is never truncated: when some pending child is
  too long for its length octets, \<open>CBB_flush\<close> fails and leaves the builder locked in the
  error state.
\<close>

theorem CBB_flush_overflow:
  assumes "cbb_wf cbb" "cbb_attached d cbb" "flush_to d (cbb_abs cbb) = None"
  shows "\<exists>cbb'. CBB_flush al d cbb = (None, cbb') \<and> cbb_wf cbb' \<and> cbb_error (cbb_base cbb')"
proof (cases "CBB_flush al d cbb")
  case (Pair r cbb')
  then have "r = None" using flush.op_Some [OF assms(1), of al d] assms(3) by (cases r) auto
  with Pair flush.op_None [OF assms(1), of al d cbb'] assms(2) show ?thesis by (auto simp: cbb_le_def)
qed

theorem CBB_flush_overflow_witness:
  "\<exists>cbb'. CBB_flush (\<lambda>_. None) 0
     \<lparr>cbb_base = \<lparr>cbb_buf = replicate 300 0, cbb_len = 300, cbb_cap = 300, cbb_can_resize = False, cbb_error = False\<rparr>,
      cbb_children = [\<lparr>child_offset = 1, child_pending_len_len = 1, child_pending_is_asn1 = False\<rparr>]\<rparr> = (None, cbb') \<and>
     cbb_wf cbb' \<and> cbb_error (cbb_base cbb')"
  by (rule CBB_flush_overflow)
    (simp_all add: cbb_wf_def buffer_wf_def child_wf_def cbb_abs_def buffer_out_def child_prefix_def
      close_prefix_def cbb_attached_def)

section \<open>SET OF\<close>

lemma list_take_less:
  assumes "take n xs \<noteq> take n ys"
  shows "xs < ys \<longleftrightarrow> take n xs < take n (ys :: u8 list)"
  using assms
proof (induction n arbitrary: xs ys)
  case (Suc n)
  from Suc.IH [of "tl xs" "tl ys"] Suc.prems show ?case by (cases xs; cases ys) auto
qed simp

lemma list_prefix_less: "take (length xs) ys = xs \<Longrightarrow> length xs < length ys \<Longrightarrow> xs < (ys :: u8 list)"
proof (induction xs arbitrary: ys)
  case Nil
  then show ?case by (cases ys) auto
next
  case (Cons x xs)
  then show ?case by (cases ys) auto
qed

text \<open>The comparator is the lexicographic order on encodings that X.690 section 11.6 asks for.\<close>

lemma compare_set_of_element_order:
  "(compare_set_of_element a b < 0 \<longleftrightarrow> a < b) \<and> (compare_set_of_element a b = 0 \<longleftrightarrow> a = b)"
proof -
  let ?n = "if length a < length b then length a else length b"
  have "?n \<le> length a" "?n \<le> length b" by auto
  note m = memcmp_loop_sign [OF this, of 0, folded OPENSSL_memcmp_def]
  show ?thesis
  proof (cases "take ?n a = take ?n b")
    case False
    with m list_take_less [OF False] show ?thesis
      by (auto simp: compare_set_of_element_def CBS_len_def CBS_data_def Let_def)
  next
    case True
    with m have z: "sint (OPENSSL_memcmp a b ?n) = 0" by simp
    consider "length a = length b" | "length a < length b" | "length b < length a" by linarith
    then show ?thesis
    proof cases
      case 1
      with True z show ?thesis by (simp add: compare_set_of_element_def CBS_len_def CBS_data_def Let_def)
    next
      case 2
      with True z list_prefix_less [of a b] show ?thesis
        by (auto simp: compare_set_of_element_def CBS_len_def CBS_data_def Let_def)
    next
      case 3
      with True have "b < a" using list_prefix_less [of b a] by simp
      with 3 z show ?thesis
        by (auto simp: compare_set_of_element_def CBS_len_def CBS_data_def Let_def)
    qed
  qed
qed

lemma compare_set_of_element_le: "compare_set_of_element a b \<le> 0 \<longleftrightarrow> a \<le> b"
  using compare_set_of_element_order [of a b] unfolding order_le_less by blast

lemma compare_set_of_element_gt: "0 < compare_set_of_element a b \<longleftrightarrow> b < a"
  using compare_set_of_element_le [of a b] unfolding not_le [symmetric] by blast

interpretation set_of_order: comparator compare_set_of_element
proof
  show "compare_set_of_element x y < 0 \<longleftrightarrow> compare_set_of_element y x > 0" for x y
    using compare_set_of_element_order [of x y] unfolding compare_set_of_element_gt by blast
  show "compare_set_of_element x z \<le> 0" if "compare_set_of_element x y \<le> 0" "compare_set_of_element y z \<le> 0" for x y z
    using that unfolding compare_set_of_element_le by (rule order_trans)
qed

lemma set_of_elements_Some: "set_of_elements cbs = Some es \<Longrightarrow> concat es = cbs \<and> [] \<notin> set es"
proof (induction cbs arbitrary: es rule: set_of_elements.induct)
  case (1 cbs)
  show ?case
  proof (cases "cbs = []")
    case True
    with "1.prems" show ?thesis by (subst (asm) set_of_elements.simps) (simp add: CBS_len_def)
  next
    case False
    with "1.prems" obtain e cs es' where e: "CBS_get_any_asn1_element cbs = (Some e, cs)"
      and es: "set_of_elements cs = Some es'" "es = elem_out e # es'"
      by (subst (asm) set_of_elements.simps) (auto simp: CBS_len_def split: prod.splits option.splits)
    from any_element_shrinks [OF e] e have "cbs = elem_out e @ cs" "elem_out e \<noteq> []"
      by (auto simp: any_asn1_element_iff der_elem_def)
    with False "1.IH" [of "Some e" cs e] e es show ?thesis by (auto simp: CBS_len_def)
  qed
qed

lemma set_of_elements_Cons:
  assumes "der_tag_valid tag" "length c < 2 ^ 32"
  shows "set_of_elements (der_element tag c @ rest) = map_option ((#) (der_element tag c)) (set_of_elements rest)"
proof -
  have "CBS_get_any_asn1_element (der_element tag c @ rest) = (Some (der_elem tag c), rest)"
    using assms by (auto simp: any_asn1_element_iff)
  moreover have "der_element tag c \<noteq> []"
    using length_der_tag(1) [of tag] by (auto simp: der_element_def der_header_def)
  ultimately show ?thesis
    by (subst set_of_elements.simps) (simp add: CBS_len_def der_elem_def)
qed

lemma set_of_elements_Nil: "set_of_elements [] = Some []"
  by (subst set_of_elements.simps) (simp add: CBS_len_def)

lemma length_set_of_elements:
  assumes "set_of_elements cbs = Some es"
  shows "length es \<le> length cbs"
proof -
  have "length es \<le> length (concat es)" if "[] \<notin> set es" for es :: "u8 list list"
    using that
  proof (induction es)
    case (Cons e es)
    then show ?case by (cases e) auto
  qed simp
  with set_of_elements_Some [OF assms] show ?thesis by auto
qed

text \<open>The contents of the innermost \<open>CBB\<close> are the slice given by \<open>CBB_data\<close> and \<open>CBB_len\<close>.\<close>

lemma innermost_slice:
  assumes wf: "cbb_wf cbb" and d: "length (cbb_children cbb) = d"
  shows "CBB_data d cbb \<le> cbb_len (cbb_base cbb)"
    and "CBB_len d cbb = cbb_len (cbb_base cbb) - CBB_data d cbb"
    and "fst (cbb_abs cbb) = drop (CBB_data d cbb) (buffer_out (cbb_base cbb))"
    and "length z = CBB_len d cbb \<Longrightarrow>
      cbb_abs (cbb_store (CBB_data d cbb) z cbb) = (z, snd (cbb_abs cbb)) \<and> cbb_wf (cbb_store (CBB_data d cbb) z cbb)"
proof -
  let ?b = "cbb_base cbb" and ?s = "CBB_data d cbb"
  show a1: "?s \<le> cbb_len ?b" and a2: "CBB_len d cbb = cbb_len ?b - ?s" and a3: "fst (cbb_abs cbb) = drop ?s (buffer_out ?b)"
    using wf d by (cases "cbb_children cbb" rule: rev_cases;
        auto simp: CBB_data_def CBB_len_def cbb_wf_def cbb_abs_def Let_def split: prod.splits)+
  show "cbb_abs (cbb_store ?s z cbb) = (z, snd (cbb_abs cbb)) \<and> cbb_wf (cbb_store ?s z cbb)" if z: "length z = CBB_len d cbb"
  proof -
    have b: "length (cbb_buf ?b) = cbb_cap ?b" "cbb_len ?b \<le> cbb_cap ?b" using wf by (simp_all add: cbb_wf_def buffer_wf_def)
    have out: "buffer_out (cbb_base (cbb_store ?s z cbb)) = take ?s (buffer_out ?b) @ z"
      using z a1 a2 b take_buf_write_exact [of ?s "cbb_buf ?b" z] by (simp add: cbb_store_def buffer_out_def min_def)
    have "cbb_wf (cbb_store ?s z cbb)"
      using wf z a1 a2 b by (simp add: cbb_wf_def cbb_store_def buffer_wf_def)
    moreover have "cbb_abs (cbb_store ?s z cbb) = (z, snd (cbb_abs cbb))"
    proof (cases "cbb_children cbb" rule: rev_cases)
      case Nil
      with d out show ?thesis by (simp add: cbb_abs_def CBB_data_def cbb_store_def)
    next
      case (snoc cs c)
      with d have s: "?s = child_start c" by (auto simp: CBB_data_def)
      have "length (take ?s (buffer_out ?b)) = ?s" using a1 wf by (simp add: cbb_wf_def)
      with snoc show ?thesis
        unfolding cbb_abs_def out by (simp add: s cbb_store_def split: prod.splits)
    qed
    ultimately show ?thesis by blast
  qed
qed

text \<open>
  C8. \<open>CBB_flush_asn1_set_of\<close> puts a SET OF into DER order. If the C library's
  \<open>qsort\<close> returns a permutation sorted by the given comparator, then on a builder whose
  innermost contents are a sequence of DER elements, and with memory available, the call
  succeeds and the contents become the same elements in ascending order of their encodings.
\<close>

theorem CBB_flush_asn1_set_of_sorts:
  assumes wf: "cbb_wf cbb" "\<not> cbb_error (cbb_base cbb)" "length (cbb_children cbb) = d"
    and els: "set_of_elements (fst (cbb_abs cbb)) = Some es"
    and qsort: "\<And>xs. mset (qsort compare_set_of_element xs) = mset xs"
      "\<And>xs. sorted_wrt (\<lambda>a b. compare_set_of_element a b \<le> 0) (qsort compare_set_of_element xs)"
    and al: "al_total al" "length (fst (cbb_abs cbb)) \<le> 2 ^ 58"
  shows "\<exists>cbb' es'. CBB_flush_asn1_set_of qsort al d cbb = (Some (), cbb') \<and> cbb_wf cbb' \<and>
    mset es' = mset es \<and> sorted es' \<and> cbb_abs cbb' = (concat es', snd (cbb_abs cbb))"
proof -
  let ?y = "fst (cbb_abs cbb)" and ?b = "cbb_base cbb" and ?s = "CBB_data d cbb"
  note sl = innermost_slice [OF wf(1,3)]
  have y: "CBS_init (drop ?s (cbb_buf ?b)) (CBB_len d cbb) = ?y"
    using sl(1-3) by (simp add: CBS_init_def buffer_out_def drop_take)
  have ly: "length ?y = CBB_len d cbb" using sl(2,3) wf(1) by (simp add: cbb_wf_def)
  have fl: "CBB_flush al d cbb = (Some (), cbb)" using CBB_flush_done [of cbb al] wf by simp
  have cat: "concat es = ?y" using set_of_elements_Some [OF els] by simp
  show ?thesis
  proof (cases "length es < 2")
    case True
    then have "CBB_flush_asn1_set_of qsort al d cbb = (Some (), cbb)"
      by (simp add: CBB_flush_asn1_set_of_def pbind_def fl y els Let_def)
    moreover have "sorted es" using True by (cases es) (auto simp: Suc_less_eq2 less_Suc_eq_0_disj)
    ultimately show ?thesis
      using wf cat by (intro exI [of _ cbb] exI [of _ es]) simp
  next
    case False
    let ?es = "qsort compare_set_of_element es"
    have le: "length es \<le> 2 ^ 58" using length_set_of_elements [OF els] al(2) by simp
    have "?y \<noteq> []" using False length_set_of_elements [OF els] by auto
    then have "OPENSSL_memdup al ?y (CBB_len d cbb) = Some ?y"
      using OPENSSL_memdup_total [OF al(1), of ?y] al(2) ly by simp
    moreover have "OPENSSL_calloc al (length es) 16 = Some (replicate (length es * 16) 0)"
      using le by (intro OPENSSL_calloc_total [OF al(1)]) simp
    ultimately have run: "CBB_flush_asn1_set_of qsort al d cbb = (Some (), cbb_store ?s (concat ?es) cbb)"
      using False ly els y by (simp add: CBB_flush_asn1_set_of_def pbind_def fl Let_def) (simp add: CBS_init_def)
    have "length (concat ?es) = length (concat es)"
      using qsort(1) [of es] by (metis length_concat mset_map sum_mset_sum_list)
    then have "length (concat ?es) = CBB_len d cbb" using cat ly by simp
    moreover have "sorted ?es"
      using qsort(2) [of es] compare_set_of_element_order by (auto elim!: sorted_wrt_mono_rel [rotated] simp: le_less)
    ultimately show ?thesis
      using run sl(4) qsort(1) [of es] by blast
  qed
qed

theorem CBB_flush_asn1_set_of_sorts_witness:
  "\<exists>cbb' es'. CBB_flush_asn1_set_of (\<lambda>_. sort) (\<lambda>_. Some (\<lambda>_. 0)) 0
     \<lparr>cbb_base = \<lparr>cbb_buf = [2, 1, 9, 2, 1, 5], cbb_len = 6, cbb_cap = 6, cbb_can_resize = False, cbb_error = False\<rparr>,
      cbb_children = []\<rparr> = (Some (), cbb') \<and>
     mset es' = mset [[2, 1, 9], [2, 1, 5]] \<and> sorted es' \<and> cbb_abs cbb' = (concat es', [])"
proof -
  let ?cbb = "\<lparr>cbb_base = \<lparr>cbb_buf = [2, 1, 9, 2, 1, 5], cbb_len = 6, cbb_cap = 6, cbb_can_resize = False, cbb_error = False\<rparr>,
      cbb_children = []\<rparr> :: CBB"
  have wf: "cbb_wf ?cbb" and abs: "cbb_abs ?cbb = ([2, 1, 9, 2, 1, 5], [])"
    by (simp_all add: cbb_wf_def buffer_wf_def cbb_abs_def buffer_out_def)
  have e: "der_element 2 [x] = [2, 1, x]" for x
    by (simp add: der_element_def der_header_def der_tag_def der_length_def)
  have c: "set_of_elements ([2, 1, x] @ rest) = map_option ((#) [2, 1, x]) (set_of_elements rest)" for x rest
    using set_of_elements_Cons [of 2 "[x]" rest] unfolding e by (simp add: der_tag_valid_def)
  have els: "set_of_elements [2, 1, 9, 2, 1, 5] = Some [[2, 1, 9], [2, 1, 5]]"
    using c [of 9 "[2, 1, 5]"] c [of 5 "[]"] by (simp add: set_of_elements_Nil)
  have "sorted_wrt (\<lambda>a b. compare_set_of_element a b \<le> 0) (sort xs)" for xs
    by (rule sorted_wrt_mono_rel [OF _ sorted_sort]) (metis compare_set_of_element_order order_le_less)
  then have "\<exists>cbb' es'. CBB_flush_asn1_set_of (\<lambda>_. sort) (\<lambda>_. Some (\<lambda>_. 0)) 0 ?cbb = (Some (), cbb') \<and> cbb_wf cbb' \<and>
      mset es' = mset [[2, 1, 9], [2, 1, 5]] \<and> sorted es' \<and> cbb_abs cbb' = (concat es', snd (cbb_abs ?cbb))"
    by (intro CBB_flush_asn1_set_of_sorts) (use wf els in \<open>simp_all add: abs\<close>)
  then show ?thesis unfolding abs by auto
qed

end
