(* ===== verification/Err.thy ===== *)
theory Err
  imports Mem
begin

text \<open>
  The per-thread error queue of \<^verbatim>\<open>crypto/err/err.c\<close>: a ring buffer of
  \<open>ERR_NUM_ERRORS\<close> slots that holds up to 15 errors in \<open>(bottom, top]\<close>, with marks,
  suppression scopes, saved states and the formatting of error codes.

  \<open>err_thread\<close> is the thread-local slot: no state yet, or the \<open>ERR_STATE\<close>. The
  argument \<open>ok\<close> of an operation says whether a state can be allocated if there is none.
  Strings are C strings: buffers read up to the first NUL. \<open>free\<close> has no result and is
  left out.
\<close>

abbreviation ERR_NUM_ERRORS :: nat where "ERR_NUM_ERRORS \<equiv> 16"
abbreviation ERR_LIB_SYS :: int where "ERR_LIB_SYS \<equiv> 2"
abbreviation ERR_NUM_LIBS :: nat where "ERR_NUM_LIBS \<equiv> 34"
abbreviation ERR_FLAG_STRING :: int where "ERR_FLAG_STRING \<equiv> 1"
abbreviation ERR_FLAG_MALLOCED :: int where "ERR_FLAG_MALLOCED \<equiv> 2"

record err_error =
  err_file :: "u8 list option"
  err_data :: "u8 list option"
  err_packed :: u32
  err_line :: u16
  err_mark :: bool

record ERR_STATE =
  errors :: "err_error list"
  err_top :: nat
  err_bottom :: nat
  err_to_free :: "u8 list option"
  err_suppress :: u32

type_synonym err_thread = "ERR_STATE option"

definition ERR_PACK :: "int \<Rightarrow> int \<Rightarrow> u32" where
  "ERR_PACK lib reason = push_bit 24 (of_int lib AND 0xff) OR (of_int reason AND 0xfff)"

definition ERR_GET_LIB :: "u32 \<Rightarrow> nat" where
  "ERR_GET_LIB packed_error = unat (drop_bit 24 packed_error AND 0xff)"

definition ERR_GET_REASON :: "u32 \<Rightarrow> nat" where
  "ERR_GET_REASON packed_error = unat (packed_error AND 0xfff)"

definition strdup_libc_malloc :: "allocator \<Rightarrow> u8 list \<Rightarrow> u8 list option" where
  "strdup_libc_malloc al str =
     (let len = strlen str in case al (len + 1) of None \<Rightarrow> None | Some _ \<Rightarrow> Some (take (len + 1) (str @ [0])))"

text \<open>\<open>err_clear\<close> zeroes a slot, whatever it held.\<close>

definition err_clear :: "err_error \<Rightarrow> err_error" where
  "err_clear error = \<lparr>err_file = None, err_data = None, err_packed = 0, err_line = 0, err_mark = False\<rparr>"

definition err_copy :: "allocator \<Rightarrow> err_error \<Rightarrow> err_error \<Rightarrow> err_error" where
  "err_copy al dst src =
     (let dst = err_clear dst;
          dst = dst\<lparr>err_file := err_file src\<rparr>;
          dst = (case err_data src of None \<Rightarrow> dst | Some d \<Rightarrow> dst\<lparr>err_data := strdup_libc_malloc al d\<rparr>)
      in dst\<lparr>err_packed := err_packed src, err_line := err_line src\<rparr>)"

definition err_state_zero :: ERR_STATE where
  "err_state_zero =
     \<lparr>errors = replicate ERR_NUM_ERRORS \<lparr>err_file = None, err_data = None, err_packed = 0, err_line = 0, err_mark = False\<rparr>,
      err_top = 0, err_bottom = 0, err_to_free = None, err_suppress = 0\<rparr>"

definition err_get_state :: "bool \<Rightarrow> err_thread \<Rightarrow> err_thread" where
  "err_get_state ok ts = (case ts of Some state \<Rightarrow> Some state | None \<Rightarrow> if ok then Some err_state_zero else None)"

section \<open>Reading the queue\<close>

record err_out =
  out_packed :: u32
  out_file :: "u8 list"
  out_line :: nat
  out_data :: "u8 list"
  out_flags :: int

text \<open>
  \<open>want_data\<close> says whether the caller passes a \<open>data\<close> pointer, which decides who
  frees the string. The output is \<open>None\<close> when the queue is empty (return value 0).
  \<open>''NA''\<close> is the file name of an error without one.
\<close>

definition get_error_values :: "bool \<Rightarrow> bool \<Rightarrow> bool \<Rightarrow> ERR_STATE \<Rightarrow> err_out option \<times> ERR_STATE" where
  "get_error_values inc newest want_data state =
     (if err_bottom state = err_top state then (None, state)
      else let i = (if newest then err_top state else (err_bottom state + 1) mod ERR_NUM_ERRORS);
               error = errors state ! i;
               out = \<lparr>out_packed = err_packed error,
                      out_file = (case err_file error of None \<Rightarrow> [78, 65] | Some f \<Rightarrow> f),
                      out_line = (case err_file error of None \<Rightarrow> 0 | Some f \<Rightarrow> unat (err_line error)),
                      out_data = (case err_data error of None \<Rightarrow> [] | Some d \<Rightarrow> d),
                      out_flags = (case err_data error of None \<Rightarrow> 0 | Some d \<Rightarrow> ERR_FLAG_STRING + ERR_FLAG_MALLOCED)\<rparr>;
               state = (if inc \<and> want_data \<and> err_data error \<noteq> None
                        then state\<lparr>err_to_free := err_data error\<rparr> else state);
               state = (if inc then state\<lparr>errors := (errors state)[i := err_clear error], err_bottom := i\<rparr> else state)
           in (Some out, state))"

definition get_error :: "bool \<Rightarrow> bool \<Rightarrow> bool \<Rightarrow> bool \<Rightarrow> err_thread \<Rightarrow> err_out option \<times> err_thread" where
  "get_error inc newest want_data ok ts =
     (case err_get_state ok ts of
        None \<Rightarrow> (None, ts)
      | Some state \<Rightarrow> (case get_error_values inc newest want_data state of (out, state) \<Rightarrow> (out, Some state)))"

definition ERR_get_error :: "bool \<Rightarrow> err_thread \<Rightarrow> err_out option \<times> err_thread" where
  "ERR_get_error = get_error True False False"

definition ERR_get_error_line :: "bool \<Rightarrow> err_thread \<Rightarrow> err_out option \<times> err_thread" where
  "ERR_get_error_line = get_error True False False"

definition ERR_get_error_line_data :: "bool \<Rightarrow> err_thread \<Rightarrow> err_out option \<times> err_thread" where
  "ERR_get_error_line_data = get_error True False True"

definition ERR_peek_error :: "bool \<Rightarrow> err_thread \<Rightarrow> err_out option \<times> err_thread" where
  "ERR_peek_error = get_error False False False"

definition ERR_peek_error_line :: "bool \<Rightarrow> err_thread \<Rightarrow> err_out option \<times> err_thread" where
  "ERR_peek_error_line = get_error False False False"

definition ERR_peek_error_line_data :: "bool \<Rightarrow> err_thread \<Rightarrow> err_out option \<times> err_thread" where
  "ERR_peek_error_line_data = get_error False False True"

definition ERR_peek_last_error :: "bool \<Rightarrow> err_thread \<Rightarrow> err_out option \<times> err_thread" where
  "ERR_peek_last_error = get_error False True False"

definition ERR_peek_last_error_line :: "bool \<Rightarrow> err_thread \<Rightarrow> err_out option \<times> err_thread" where
  "ERR_peek_last_error_line = get_error False True False"

definition ERR_peek_last_error_line_data :: "bool \<Rightarrow> err_thread \<Rightarrow> err_out option \<times> err_thread" where
  "ERR_peek_last_error_line_data = get_error False True True"

section \<open>Writing the queue\<close>

definition err_clear_all :: "ERR_STATE \<Rightarrow> ERR_STATE" where
  "err_clear_all state =
     state\<lparr>errors := map err_clear (errors state), err_to_free := None, err_top := 0, err_bottom := 0\<rparr>"

definition ERR_clear_error :: "bool \<Rightarrow> err_thread \<Rightarrow> err_thread" where
  "ERR_clear_error ok ts = map_option err_clear_all (err_get_state ok ts)"

definition ERR_remove_thread_state :: "bool \<Rightarrow> bool \<Rightarrow> err_thread \<Rightarrow> err_thread" where
  "ERR_remove_thread_state tid_given ok ts = (if tid_given then ts else ERR_clear_error ok ts)"

definition ERR_remove_state :: "bool \<Rightarrow> err_thread \<Rightarrow> err_thread" where
  "ERR_remove_state ok ts = ERR_clear_error ok ts"

definition set_error_data :: "u8 list \<Rightarrow> ERR_STATE \<Rightarrow> ERR_STATE" where
  "set_error_data data state =
     (if err_top state = err_bottom state \<or> err_suppress state \<noteq> 0 then state
      else state\<lparr>errors := (errors state)[err_top state := (errors state ! err_top state)\<lparr>err_data := Some data\<rparr>]\<rparr>)"

definition err_set_error_data :: "bool \<Rightarrow> u8 list \<Rightarrow> err_thread \<Rightarrow> err_thread" where
  "err_set_error_data ok data ts = map_option (set_error_data data) (err_get_state ok ts)"

text \<open>\<open>errno\<close> is the value of the C library's \<open>errno\<close>.\<close>

definition put_error :: "int \<Rightarrow> int \<Rightarrow> int \<Rightarrow> u8 list option \<Rightarrow> nat \<Rightarrow> ERR_STATE \<Rightarrow> ERR_STATE" where
  "put_error errno library reason file line state =
     (if err_suppress state \<noteq> 0 then state
      else let reason = (if library = ERR_LIB_SYS \<and> reason = 0 then errno else reason);
               new_top = (err_top state + 1) mod ERR_NUM_ERRORS;
               new_bottom = (if new_top = err_bottom state then (err_bottom state + 1) mod ERR_NUM_ERRORS else err_bottom state);
               error = err_clear (errors state ! new_top);
               error = error\<lparr>err_file := file, err_line := of_nat line, err_packed := ERR_PACK library reason\<rparr>
           in state\<lparr>err_top := new_top, err_bottom := new_bottom, errors := (errors state)[new_top := error]\<rparr>)"

definition ERR_put_error :: "bool \<Rightarrow> int \<Rightarrow> int \<Rightarrow> int \<Rightarrow> u8 list option \<Rightarrow> nat \<Rightarrow> err_thread \<Rightarrow> err_thread" where
  "ERR_put_error ok errno library reason file line ts =
     map_option (put_error errno library reason file line) (err_get_state ok ts)"

text \<open>
  \<open>args\<close> are the strings of the argument list, \<open>None\<close> for NULL. \<open>vdata_size\<close> is
  the first loop, with \<open>None\<close> for the overflow exit; the second loop appends with
  \<open>OPENSSL_strlcat\<close>.
\<close>

fun vdata_size :: "u8 list option list \<Rightarrow> nat \<Rightarrow> nat option" where
  "vdata_size [] total_size = Some total_size"
| "vdata_size (None # args) total_size = vdata_size args total_size"
| "vdata_size (Some substr # args) total_size =
     (if SIZE_MAX - total_size < strlen substr then None else vdata_size args (total_size + strlen substr))"

fun vdata_fill :: "u8 list option list \<Rightarrow> nat \<Rightarrow> u8 list \<Rightarrow> u8 list" where
  "vdata_fill [] total_size buf = buf"
| "vdata_fill (None # args) total_size buf = vdata_fill args total_size buf"
| "vdata_fill (Some substr # args) total_size buf =
     vdata_fill args total_size (fst (OPENSSL_strlcat buf substr total_size))"

definition err_add_error_vdata :: "allocator \<Rightarrow> bool \<Rightarrow> u8 list option list \<Rightarrow> err_thread \<Rightarrow> err_thread" where
  "err_add_error_vdata al ok args ts =
     (case vdata_size args 0 of
        None \<Rightarrow> ts
      | Some total_size \<Rightarrow>
          (if total_size = SIZE_MAX then ts
           else let total_size = total_size + 1
                in case al total_size of
                     None \<Rightarrow> ts
                   | Some f \<Rightarrow>
                       err_set_error_data ok (vdata_fill args total_size ((map f [0..<total_size])[0 := 0])) ts))"

definition ERR_add_error_data :: "allocator \<Rightarrow> bool \<Rightarrow> u8 list option list \<Rightarrow> err_thread \<Rightarrow> err_thread" where
  "ERR_add_error_data al ok args ts = err_add_error_vdata al ok args ts"

definition ERR_set_error_data :: "allocator \<Rightarrow> bool \<Rightarrow> u8 list \<Rightarrow> bool \<Rightarrow> err_thread \<Rightarrow> err_thread" where
  "ERR_set_error_data al ok data flag_string ts =
     (if \<not> flag_string then ts
      else case strdup_libc_malloc al data of None \<Rightarrow> ts | Some copy \<Rightarrow> err_set_error_data ok copy ts)"

section \<open>Suppression and marks\<close>

definition ERR_suppress_errors_begin :: "bool \<Rightarrow> err_thread \<Rightarrow> bool \<times> err_thread" where
  "ERR_suppress_errors_begin ok ts =
     (case err_get_state ok ts of
        None \<Rightarrow> (False, ts)
      | Some state \<Rightarrow> (True, Some (state\<lparr>err_suppress := err_suppress state + 1\<rparr>)))"

definition ERR_suppress_errors_end :: "err_thread \<Rightarrow> err_thread" where
  "ERR_suppress_errors_end ts =
     (case ts of
        None \<Rightarrow> None
      | Some state \<Rightarrow>
          Some (if err_suppress state > 0 then state\<lparr>err_suppress := err_suppress state - 1\<rparr> else state))"

definition ERR_set_mark :: "bool \<Rightarrow> err_thread \<Rightarrow> bool \<times> err_thread" where
  "ERR_set_mark ok ts =
     (case err_get_state ok ts of
        None \<Rightarrow> (False, ts)
      | Some state \<Rightarrow>
          (if err_bottom state = err_top state then (False, Some state)
           else (True, Some (state\<lparr>errors := (errors state)[err_top state :=
                        (errors state ! err_top state)\<lparr>err_mark := True\<rparr>]\<rparr>))))"

definition err_prev :: "nat \<Rightarrow> nat" where
  "err_prev t = (if t = 0 then ERR_NUM_ERRORS - 1 else t - 1)"

text \<open>
  The loop of \<open>ERR_pop_to_mark\<close>. It runs at most once per slot, so \<open>n\<close> iterations
  are enough when \<open>n\<close> is \<open>ERR_NUM_ERRORS\<close> (lemma \<open>pop_to_mark_fuel\<close>).
\<close>

fun pop_to_mark :: "nat \<Rightarrow> ERR_STATE \<Rightarrow> (bool \<times> ERR_STATE) option" where
  "pop_to_mark 0 state = None"
| "pop_to_mark (Suc n) state =
     (if err_bottom state = err_top state then Some (False, state)
      else let error = errors state ! err_top state
           in if err_mark error
              then Some (True, state\<lparr>errors := (errors state)[err_top state := error\<lparr>err_mark := False\<rparr>]\<rparr>)
              else pop_to_mark n (state\<lparr>errors := (errors state)[err_top state := err_clear error],
                                        err_top := err_prev (err_top state)\<rparr>))"

definition ERR_pop_to_mark :: "bool \<Rightarrow> err_thread \<Rightarrow> (bool \<times> err_thread) option" where
  "ERR_pop_to_mark ok ts =
     (case err_get_state ok ts of
        None \<Rightarrow> Some (False, ts)
      | Some state \<Rightarrow> map_option (\<lambda>(found, state). (found, Some state)) (pop_to_mark ERR_NUM_ERRORS state))"

section \<open>Saving and restoring\<close>

text \<open>
  A saved state is its list of errors. \<open>al\<close> serves the \<open>malloc\<close> calls; \<open>err_error_st\<close>
  has 32 bytes and \<open>ERR_SAVE_STATE\<close> 16.
\<close>

definition ERR_save_state :: "allocator \<Rightarrow> bool \<Rightarrow> err_thread \<Rightarrow> err_error list option \<times> err_thread" where
  "ERR_save_state al ok ts =
     (case err_get_state ok ts of
        None \<Rightarrow> (None, ts)
      | Some state \<Rightarrow>
          (if err_top state = err_bottom state then (None, Some state)
           else if al 16 = None then (None, Some state)
           else let num_errors = (if err_top state \<ge> err_bottom state then err_top state - err_bottom state
                                  else ERR_NUM_ERRORS + err_top state - err_bottom state)
                in if al (num_errors * 32) = None then (None, Some state)
                   else (Some (map (\<lambda>i. err_copy al (err_clear (errors state ! 0))
                                (errors state ! ((err_bottom state + i + 1) mod ERR_NUM_ERRORS))) [0..<num_errors]),
                         Some state)))"

text \<open>\<open>None\<close> as a result is the call of \<open>abort\<close>.\<close>

definition ERR_restore_state :: "allocator \<Rightarrow> bool \<Rightarrow> err_error list option \<Rightarrow> err_thread \<Rightarrow> err_thread option" where
  "ERR_restore_state al ok saved ts =
     (case saved of
        None \<Rightarrow> Some (ERR_clear_error ok ts)
      | Some errs \<Rightarrow>
          (if length errs = 0 then Some (ERR_clear_error ok ts)
           else if length errs \<ge> ERR_NUM_ERRORS then None
           else Some (case err_get_state ok ts of
                  None \<Rightarrow> ts
                | Some dst \<Rightarrow>
                    Some (dst\<lparr>errors := map (\<lambda>i. if i < length errs then err_copy al (errors dst ! i) (errs ! i)
                                                 else errors dst ! i) [0..<length (errors dst)],
                              err_top := length errs - 1, err_bottom := ERR_NUM_ERRORS - 1\<rparr>))))"

section \<open>Formatting error codes\<close>

text \<open>
  Text is a \<open>string\<close> here. \<open>bsearch_range\<close> is the C library's \<open>bsearch\<close> on the index
  range \<open>[lo, hi)\<close>; the reason table and its string data are generated by the build and
  are arguments (\<open>values\<close>, \<open>string_data\<close>), as is the C library's \<open>strerror\<close>.
\<close>

definition err_string_cmp :: "u32 \<Rightarrow> u32 \<Rightarrow> int" where
  "err_string_cmp a b =
     (let a_key = drop_bit 15 a; b_key = drop_bit 15 b
      in if a_key < b_key then - 1 else if a_key > b_key then 1 else 0)"

function bsearch_range :: "('a \<Rightarrow> 'a \<Rightarrow> int) \<Rightarrow> 'a \<Rightarrow> 'a list \<Rightarrow> nat \<Rightarrow> nat \<Rightarrow> nat option" where
  "bsearch_range cmp key xs lo hi =
     (if lo < hi
      then let mid = (lo + hi) div 2; r = cmp key (xs ! mid)
           in if r < 0 then bsearch_range cmp key xs lo mid
              else if r > 0 then bsearch_range cmp key xs (mid + 1) hi
              else Some mid
      else None)"
  by pat_completeness auto
termination
  by (relation "measure (\<lambda>(cmp, key, xs, lo, hi). hi - lo)") auto

declare bsearch_range.simps [simp del]

definition err_string_lookup :: "nat \<Rightarrow> nat \<Rightarrow> u32 list \<Rightarrow> string \<Rightarrow> string option" where
  "err_string_lookup lib key values string_data =
     (if lib \<ge> 64 \<or> key \<ge> 2048 then None
      else let search_key = push_bit 26 (of_nat lib) OR push_bit 15 (of_nat key)
           in case bsearch_range err_string_cmp search_key values 0 (length values) of
                None \<Rightarrow> None
              | Some i \<Rightarrow> Some (takeWhile (\<lambda>c. c \<noteq> CHR 0x00) (drop (unat (values ! i AND 0x7fff)) string_data)))"

definition kLibraryNames :: "string list" where
  "kLibraryNames =
     [''invalid library (0)'',
      ''unknown library'',
      ''system library'',
      ''bignum routines'',
      ''RSA routines'',
      ''Diffie-Hellman routines'',
      ''public key routines'',
      ''memory buffer routines'',
      ''object identifier routines'',
      ''PEM routines'',
      ''DSA routines'',
      ''X.509 certificate routines'',
      ''ASN.1 encoding routines'',
      ''configuration file routines'',
      ''common libcrypto routines'',
      ''elliptic curve routines'',
      ''SSL routines'',
      ''BIO routines'',
      ''PKCS7 routines'',
      ''PKCS8 routines'',
      ''X509 V3 routines'',
      ''random number generator'',
      ''ENGINE routines'',
      ''OCSP routines'',
      ''UI routines'',
      ''COMP routines'',
      ''ECDSA routines'',
      ''ECDH routines'',
      ''HMAC routines'',
      ''Digest functions'',
      ''Cipher functions'',
      ''HKDF functions'',
      ''Trust Token functions'',
      ''User defined functions'']"

definition err_lib_error_string :: "u32 \<Rightarrow> string option" where
  "err_lib_error_string packed_error =
     (let lib = ERR_GET_LIB packed_error in if lib \<ge> ERR_NUM_LIBS then None else Some (kLibraryNames ! lib))"

definition ERR_lib_error_string :: "u32 \<Rightarrow> string" where
  "ERR_lib_error_string packed_error =
     (case err_lib_error_string packed_error of None \<Rightarrow> ''unknown library'' | Some ret \<Rightarrow> ret)"

definition err_reason_error_string :: "(nat \<Rightarrow> string) \<Rightarrow> u32 list \<Rightarrow> string \<Rightarrow> u32 \<Rightarrow> string option" where
  "err_reason_error_string strerror values string_data packed_error =
     (let lib = ERR_GET_LIB packed_error; reason = ERR_GET_REASON packed_error
      in if lib = 2 then (if reason < 127 then Some (strerror reason) else None)
         else if reason < ERR_NUM_LIBS then Some (kLibraryNames ! reason)
         else if reason < 100
         then (if reason = 65 then Some ''malloc failure''
               else if reason = 66 then Some ''function should not have been called''
               else if reason = 67 then Some ''passed a null parameter''
               else if reason = 68 then Some ''internal error''
               else if reason = 69 then Some ''overflow''
               else None)
         else err_string_lookup lib reason values string_data)"

definition ERR_reason_error_string :: "(nat \<Rightarrow> string) \<Rightarrow> u32 list \<Rightarrow> string \<Rightarrow> u32 \<Rightarrow> string" where
  "ERR_reason_error_string strerror values string_data packed_error =
     (case err_reason_error_string strerror values string_data packed_error of
        None \<Rightarrow> ''unknown error'' | Some ret \<Rightarrow> ret)"

text \<open>The conversions \<^verbatim>\<open>%u\<close> and \<^verbatim>\<open>%08x\<close> of \<open>snprintf\<close>.\<close>

fun dec_digits :: "nat \<Rightarrow> string" where
  "dec_digits n = (if n < 10 then [char_of (48 + n)] else dec_digits (n div 10) @ [char_of (48 + n mod 10)])"

declare dec_digits.simps [simp del]

definition hex8 :: "u32 \<Rightarrow> string" where
  "hex8 v = map (\<lambda>i. ''0123456789abcdef'' ! unat (drop_bit (4 * (7 - i)) v AND 15)) [0..<8]"

text \<open>\<open>strchr(buf + s, ':')\<close> as an index.\<close>

definition next_colon :: "string \<Rightarrow> nat \<Rightarrow> nat option" where
  "next_colon buf s =
     (let k = s + length (takeWhile (\<lambda>c. c \<noteq> CHR '':'') (drop s buf)) in if k < length buf then Some k else None)"

text \<open>
  The loop that keeps four colons in a truncated string: \<open>k\<close> iterations are left, \<open>s\<close>
  is the offset of the search pointer, \<open>buf\<close> the string without its NUL.
\<close>

fun fix_colons :: "nat \<Rightarrow> nat \<Rightarrow> nat \<Rightarrow> string \<Rightarrow> string" where
  "fix_colons len 0 s buf = buf"
| "fix_colons len (Suc k) s buf =
     (let i = 4 - Suc k; last_pos = len - 1 - 4 + i
      in case next_colon buf s of
           None \<Rightarrow> buf_write buf last_pos (replicate (4 - i) (CHR '':''))
         | Some colon \<Rightarrow>
             (if colon > last_pos then buf_write buf last_pos (replicate (4 - i) (CHR '':''))
              else fix_colons len k (colon + 1) buf))"

definition ERR_error_string_n :: "(nat \<Rightarrow> string) \<Rightarrow> u32 list \<Rightarrow> string \<Rightarrow> u32 \<Rightarrow> nat \<Rightarrow> string option" where
  "ERR_error_string_n strerror values string_data packed_error len =
     (if len = 0 then None
      else let lib = ERR_GET_LIB packed_error; reason = ERR_GET_REASON packed_error;
               lib_str = (case err_lib_error_string packed_error of
                            None \<Rightarrow> ''lib('' @ dec_digits lib @ '')'' | Some s \<Rightarrow> s);
               reason_str = (case err_reason_error_string strerror values string_data packed_error of
                            None \<Rightarrow> ''reason('' @ dec_digits reason @ '')'' | Some s \<Rightarrow> s);
               out = ''error:'' @ hex8 packed_error @ '':'' @ lib_str @ '':OPENSSL_internal:'' @ reason_str;
               buf = take (len - 1) out
           in if length out \<ge> len
              then (if len \<le> 4 then Some buf else Some (fix_colons len 4 0 buf))
              else Some buf)"

text \<open>
  The queue part of \<open>ERR_print_errors_cb\<close>: errors are taken until the queue is empty, an
  error code is 0, or the callback refuses a line. \<open>n\<close> bounds the iterations.
\<close>

fun print_errors :: "nat \<Rightarrow> (err_out \<Rightarrow> bool) \<Rightarrow> ERR_STATE \<Rightarrow> err_out list \<times> ERR_STATE" where
  "print_errors 0 callback state = ([], state)"
| "print_errors (Suc n) callback state =
     (case get_error_values True False True state of
        (None, state) \<Rightarrow> ([], state)
      | (Some out, state) \<Rightarrow>
          (if out_packed out = 0 then ([], state)
           else if \<not> callback out then ([out], state)
           else case print_errors n callback state of (outs, state) \<Rightarrow> (out # outs, state)))"

end
