(* ===== verification/ErrProps.thy ===== *)
theory ErrProps
  imports Err
begin

text \<open>
  The error queue against its specification: a first-in first-out queue of at most 15
  errors that drops its oldest entry when full. The ring buffer refines it; marks,
  suppression scopes and saved states are specified on the list.
\<close>

section \<open>The ring\<close>

definition err_wf :: "ERR_STATE \<Rightarrow> bool" where
  "err_wf st \<longleftrightarrow> length (errors st) = ERR_NUM_ERRORS \<and> err_top st < ERR_NUM_ERRORS \<and> err_bottom st < ERR_NUM_ERRORS"

definition ring_len :: "nat \<Rightarrow> nat \<Rightarrow> nat" where
  "ring_len t b = (if b \<le> t then t - b else 16 + t - b)"

definition ring_idx :: "nat \<Rightarrow> nat \<Rightarrow> nat" where
  "ring_idx b i = (if b + 1 + i < 16 then b + 1 + i else b + 1 + i - 16)"

definition err_queue :: "ERR_STATE \<Rightarrow> err_error list" where
  "err_queue st = map (\<lambda>i. errors st ! ring_idx (err_bottom st) i) [0..<ring_len (err_top st) (err_bottom st)]"

lemma mod16_succ: "a < 16 \<Longrightarrow> i < 16 \<Longrightarrow> (a + i + 1) mod 16 = ring_idx a i" "a < 16 \<Longrightarrow> (a + 1) mod 16 = ring_idx a 0"
  by (auto simp: ring_idx_def mod_if)

lemmas ring_defs = ring_len_def ring_idx_def

lemma ring_len_less: "t < 16 \<Longrightarrow> b < 16 \<Longrightarrow> ring_len t b < 16"
  by (auto simp: ring_len_def)

lemma ring_len_0 [simp]: "t < 16 \<Longrightarrow> b < 16 \<Longrightarrow> ring_len t b = 0 \<longleftrightarrow> b = t"
  by (auto simp: ring_len_def)

lemma ring_idx_less [simp]: "b < 16 \<Longrightarrow> i < 16 \<Longrightarrow> ring_idx b i < 16"
  by (auto simp: ring_idx_def)

lemma ring_idx_inj: "b < 16 \<Longrightarrow> i < 16 \<Longrightarrow> j < 16 \<Longrightarrow> ring_idx b i = ring_idx b j \<longleftrightarrow> i = j"
  by (auto simp: ring_idx_def split: if_splits)

lemma ring_idx_last: "t < 16 \<Longrightarrow> b < 16 \<Longrightarrow> b \<noteq> t \<Longrightarrow> ring_idx b (ring_len t b - 1) = t"
  by (auto simp: ring_defs)

lemma ring_idx_next: "t < 16 \<Longrightarrow> b < 16 \<Longrightarrow> ring_idx t 0 = ring_idx b (ring_len t b)"
  by (auto simp: ring_defs)

lemma ring_full: "t < 16 \<Longrightarrow> b < 16 \<Longrightarrow> ring_idx t 0 = b \<longleftrightarrow> ring_len t b = 15"
  by (auto simp: ring_defs split: if_splits)

lemma ring_len_push: "t < 16 \<Longrightarrow> b < 16 \<Longrightarrow> ring_len t b \<noteq> 15 \<Longrightarrow> ring_len (ring_idx t 0) b = Suc (ring_len t b)"
  by (auto simp: ring_defs split: if_splits)

lemma ring_len_pop: "t < 16 \<Longrightarrow> b < 16 \<Longrightarrow> b \<noteq> t \<Longrightarrow> ring_len t (ring_idx b 0) = ring_len t b - 1"
  by (auto simp: ring_defs split: if_splits)

lemma ring_len_prev: "t < 16 \<Longrightarrow> b < 16 \<Longrightarrow> b \<noteq> t \<Longrightarrow> ring_len (err_prev t) b = ring_len t b - 1 \<and> err_prev t < 16"
  by (auto simp: ring_len_def err_prev_def split: if_splits)

lemma ring_idx_shift: "b < 16 \<Longrightarrow> i < 15 \<Longrightarrow> ring_idx (ring_idx b 0) i = ring_idx b (Suc i)"
  by (auto simp: ring_idx_def split: if_splits)

lemma length_err_queue: "length (err_queue st) = ring_len (err_top st) (err_bottom st)"
  by (simp add: err_queue_def)

lemma err_queue_bound: "err_wf st \<Longrightarrow> length (err_queue st) \<le> 15"
  using ring_len_less [of "err_top st" "err_bottom st"] by (simp add: length_err_queue err_wf_def)

lemma nth_err_queue: "i < length (err_queue st) \<Longrightarrow> err_queue st ! i = errors st ! ring_idx (err_bottom st) i"
  by (simp add: err_queue_def)

lemma err_queue_empty: "err_wf st \<Longrightarrow> err_queue st = [] \<longleftrightarrow> err_bottom st = err_top st"
  by (simp add: err_queue_def err_wf_def)

lemma last_err_queue: "err_wf st \<Longrightarrow> err_bottom st \<noteq> err_top st \<Longrightarrow> last (err_queue st) = errors st ! err_top st"
  using ring_idx_last [of "err_top st" "err_bottom st"] err_queue_empty [of st]
    nth_err_queue [of "length (err_queue st) - 1" st]
  by (simp add: last_conv_nth length_err_queue [symmetric] err_wf_def)

lemma hd_err_queue: "err_wf st \<Longrightarrow> err_bottom st \<noteq> err_top st \<Longrightarrow> hd (err_queue st) = errors st ! ring_idx (err_bottom st) 0"
  using err_queue_empty [of st] by (simp add: hd_conv_nth nth_err_queue)

text \<open>The three ways the ring changes: the newest entry is replaced, the oldest or the newest removed, one added.\<close>

lemma err_queue_set_top:
  assumes "err_wf st" "err_bottom st \<noteq> err_top st"
  shows "err_queue (st\<lparr>errors := (errors st)[err_top st := e]\<rparr>) = butlast (err_queue st) @ [e]"
proof (rule nth_equalityI)
  let ?n = "ring_len (err_top st) (err_bottom st)"
  have n: "?n \<noteq> 0" "?n < 16" using assms by (auto simp: err_wf_def ring_len_less)
  then show "length (err_queue (st\<lparr>errors := (errors st)[err_top st := e]\<rparr>)) = length (butlast (err_queue st) @ [e])"
    by (simp add: length_err_queue)
  fix i assume "i < length (err_queue (st\<lparr>errors := (errors st)[err_top st := e]\<rparr>))"
  then have i: "i < ?n" by (simp add: length_err_queue)
  have "ring_idx (err_bottom st) i = err_top st \<longleftrightarrow> i = ?n - 1"
    using ring_idx_inj [of "err_bottom st" i "?n - 1"] ring_idx_last [of "err_top st" "err_bottom st"] assms i n
    by (simp add: err_wf_def)
  with i n assms show "err_queue (st\<lparr>errors := (errors st)[err_top st := e]\<rparr>) ! i = (butlast (err_queue st) @ [e]) ! i"
    by (auto simp: nth_err_queue length_err_queue nth_append nth_butlast nth_list_update err_wf_def)
qed

lemma err_queue_pop:
  assumes "err_wf st" "err_bottom st \<noteq> err_top st"
  shows "err_queue (st\<lparr>errors := (errors st)[ring_idx (err_bottom st) 0 := e], err_bottom := ring_idx (err_bottom st) 0\<rparr>) =
    tl (err_queue st)"
proof (rule nth_equalityI)
  let ?b = "ring_idx (err_bottom st) 0" and ?n = "ring_len (err_top st) (err_bottom st)"
  let ?st = "st\<lparr>errors := (errors st)[?b := e], err_bottom := ?b\<rparr>"
  have n: "?n \<noteq> 0" "?n < 16" using assms by (auto simp: err_wf_def ring_len_less)
  have l: "length (err_queue ?st) = ?n - 1"
    using assms ring_len_pop by (simp add: length_err_queue err_wf_def)
  with n show "length (err_queue ?st) = length (tl (err_queue st))" by (simp add: length_err_queue)
  fix i assume "i < length (err_queue ?st)"
  then have i: "i < ?n - 1" using l by simp
  then have "ring_idx ?b i = ring_idx (err_bottom st) (Suc i)" "ring_idx (err_bottom st) (Suc i) \<noteq> ?b"
    using n assms ring_idx_shift [of "err_bottom st" i] ring_idx_inj [of "err_bottom st" "Suc i" 0] by (auto simp: err_wf_def)
  with i l n show "err_queue ?st ! i = tl (err_queue st) ! i"
    by (simp add: nth_err_queue nth_tl length_err_queue)
qed

lemma err_queue_drop_last:
  assumes "err_wf st" "err_bottom st \<noteq> err_top st"
  shows "err_queue (st\<lparr>errors := (errors st)[err_top st := e], err_top := err_prev (err_top st)\<rparr>) = butlast (err_queue st)"
proof (rule nth_equalityI)
  let ?n = "ring_len (err_top st) (err_bottom st)"
  let ?st = "st\<lparr>errors := (errors st)[err_top st := e], err_top := err_prev (err_top st)\<rparr>"
  have n: "?n \<noteq> 0" "?n < 16" using assms by (auto simp: err_wf_def ring_len_less)
  have l: "length (err_queue ?st) = ?n - 1"
    using assms ring_len_prev by (simp add: length_err_queue err_wf_def)
  with n show "length (err_queue ?st) = length (butlast (err_queue st))" by (simp add: length_err_queue)
  fix i assume "i < length (err_queue ?st)"
  then have i: "i < ?n - 1" using l by simp
  then have "ring_idx (err_bottom st) i \<noteq> err_top st"
    using n assms ring_idx_inj [of "err_bottom st" i "?n - 1"] ring_idx_last [of "err_top st" "err_bottom st"]
    by (auto simp: err_wf_def)
  with i l n show "err_queue ?st ! i = butlast (err_queue st) ! i"
    by (simp add: nth_err_queue nth_butlast length_err_queue)
qed

lemma err_queue_push:
  assumes "err_wf st"
  defines "t \<equiv> ring_idx (err_top st) 0"
  shows "err_queue (st\<lparr>err_top := t, err_bottom := if t = err_bottom st then ring_idx (err_bottom st) 0 else err_bottom st,
           errors := (errors st)[t := e]\<rparr>) =
    (if length (err_queue st) = 15 then tl (err_queue st) else err_queue st) @ [e]"
proof -
  let ?b = "err_bottom st" and ?n = "ring_len (err_top st) (err_bottom st)"
  let ?b' = "if t = ?b then ring_idx ?b 0 else ?b"
  let ?st = "st\<lparr>err_top := t, err_bottom := ?b', errors := (errors st)[t := e]\<rparr>"
  have w: "err_top st < 16" "?b < 16" "length (errors st) = 16" using assms by (simp_all add: err_wf_def)
  have n: "?n < 16" using w by (simp add: ring_len_less)
  have tn: "t = ring_idx ?b ?n" "t = ?b \<longleftrightarrow> ?n = 15" unfolding t_def using ring_idx_next [OF w(1,2)] ring_full [OF w(1,2)] by blast+
  show ?thesis
  proof (cases "?n = 15")
    case True
    then have tb: "t = ?b" using tn by simp
    have l: "ring_len t (ring_idx ?b 0) = 15" using w by (auto simp: tb ring_defs)
    show ?thesis
    proof (rule nth_equalityI)
      show "length (err_queue ?st) = length ((if length (err_queue st) = 15 then tl (err_queue st) else err_queue st) @ [e])"
        using True l tb by (simp add: length_err_queue)
      fix i assume "i < length (err_queue ?st)"
      then have i: "i < 15" using l tb by (simp add: length_err_queue)
      have "ring_idx (ring_idx ?b 0) i = ring_idx ?b (Suc i)" using w i by (simp add: ring_idx_shift)
      moreover have "ring_idx ?b (Suc i) = t \<longleftrightarrow> i = 14"
        using tn True w i ring_idx_inj [of ?b "Suc i" 15] by auto
      ultimately show "err_queue ?st ! i = ((if length (err_queue st) = 15 then tl (err_queue st) else err_queue st) @ [e]) ! i"
        using i True l tb w by (auto simp: nth_err_queue length_err_queue nth_append nth_tl nth_list_update)
    qed
  next
    case False
    then have tb: "t \<noteq> ?b" using tn by simp
    have l: "ring_len t ?b = Suc ?n" using w False by (simp add: t_def ring_len_push)
    show ?thesis
    proof (rule nth_equalityI)
      show "length (err_queue ?st) = length ((if length (err_queue st) = 15 then tl (err_queue st) else err_queue st) @ [e])"
        using False l tb by (simp add: length_err_queue)
      fix i assume "i < length (err_queue ?st)"
      then have i: "i < Suc ?n" using l tb by (simp add: length_err_queue)
      have "ring_idx ?b i = t \<longleftrightarrow> i = ?n" using tn w i n False ring_idx_inj [of ?b i ?n] by auto
      then show "err_queue ?st ! i = ((if length (err_queue st) = 15 then tl (err_queue st) else err_queue st) @ [e]) ! i"
        using i False l tb w n by (auto simp: nth_err_queue length_err_queue nth_append nth_list_update)
    qed
  qed
qed

section \<open>The operations on the list\<close>

definition new_error :: "int \<Rightarrow> int \<Rightarrow> u8 list option \<Rightarrow> nat \<Rightarrow> err_error" where
  "new_error lib reason file line =
     \<lparr>err_file = file, err_data = None, err_packed = ERR_PACK lib reason, err_line = of_nat line, err_mark = False\<rparr>"

definition queue_put :: "err_error \<Rightarrow> err_error list \<Rightarrow> err_error list" where
  "queue_put e q = (if length q = 15 then tl q else q) @ [e]"

definition queue_map_last :: "(err_error \<Rightarrow> err_error) \<Rightarrow> err_error list \<Rightarrow> err_error list" where
  "queue_map_last f q = (if q = [] then [] else butlast q @ [f (last q)])"

lemma err_wf_mod: "err_wf st \<Longrightarrow> (err_top st + 1) mod 16 = ring_idx (err_top st) 0"
  "err_wf st \<Longrightarrow> (err_bottom st + 1) mod 16 = ring_idx (err_bottom st) 0"
  using mod16_succ(2) by (auto simp: err_wf_def)

lemma put_error_alt:
  assumes "err_wf st" "err_suppress st = 0"
  shows "put_error errno lib reason file line st =
    (let t = ring_idx (err_top st) 0
     in st\<lparr>err_top := t, err_bottom := if t = err_bottom st then ring_idx (err_bottom st) 0 else err_bottom st,
           errors := (errors st)[t := new_error lib (if lib = ERR_LIB_SYS \<and> reason = 0 then errno else reason) file line]\<rparr>)"
  using assms by (simp add: put_error_def Let_def err_wf_mod [simplified] new_error_def err_clear_def)

lemma put_error_queue:
  assumes "err_wf st"
  shows "err_wf (put_error errno lib reason file line st) \<and>
    err_queue (put_error errno lib reason file line st) =
      (if err_suppress st \<noteq> 0 then err_queue st
       else queue_put (new_error lib (if lib = ERR_LIB_SYS \<and> reason = 0 then errno else reason) file line) (err_queue st))"
proof (cases "err_suppress st = 0")
  case True
  have "err_wf (put_error errno lib reason file line st)"
    using assms True by (auto simp: put_error_alt Let_def err_wf_def)
  with assms True show ?thesis
    by (simp add: put_error_alt Let_def queue_put_def err_queue_push [simplified])
next
  case False
  with assms show ?thesis by (simp add: put_error_def)
qed

lemma set_error_data_queue:
  assumes "err_wf st"
  shows "err_wf (set_error_data data st) \<and>
    err_queue (set_error_data data st) =
      (if err_suppress st \<noteq> 0 then err_queue st else queue_map_last (\<lambda>e. e\<lparr>err_data := Some data\<rparr>) (err_queue st))"
proof (cases "err_bottom st = err_top st \<or> err_suppress st \<noteq> 0")
  case True
  with assms err_queue_empty [OF assms] show ?thesis by (auto simp: set_error_data_def queue_map_last_def)
next
  case False
  with assms have "err_queue st \<noteq> []" by (simp add: err_queue_empty)
  with False assms show ?thesis
    by (auto simp: set_error_data_def queue_map_last_def err_queue_set_top last_err_queue)
      (simp add: err_wf_def)
qed

text \<open>What a caller sees of an error.\<close>

definition error_out :: "err_error \<Rightarrow> err_out" where
  "error_out e =
     \<lparr>out_packed = err_packed e,
      out_file = (case err_file e of None \<Rightarrow> [78, 65] | Some f \<Rightarrow> f),
      out_line = (case err_file e of None \<Rightarrow> 0 | Some f \<Rightarrow> unat (err_line e)),
      out_data = (case err_data e of None \<Rightarrow> [] | Some d \<Rightarrow> d),
      out_flags = (case err_data e of None \<Rightarrow> 0 | Some d \<Rightarrow> ERR_FLAG_STRING + ERR_FLAG_MALLOCED)\<rparr>"

lemma err_queue_to_free [simp]: "err_queue (st\<lparr>err_to_free := f\<rparr>) = err_queue st"
  by (simp add: err_queue_def)

lemma err_queue_suppress [simp]: "err_queue (st\<lparr>err_suppress := n\<rparr>) = err_queue st"
  by (simp add: err_queue_def)

lemma get_error_values_queue:
  assumes "err_wf st" "inc \<longrightarrow> \<not> newest"
  shows "case get_error_values inc newest want st of (out, st') \<Rightarrow>
    err_wf st' \<and> err_suppress st' = err_suppress st \<and>
    out = (if err_queue st = [] then None
           else Some (error_out (if newest then last (err_queue st) else hd (err_queue st)))) \<and>
    err_queue st' = (if inc then tl (err_queue st) else err_queue st)"
proof (cases "err_bottom st = err_top st")
  case True
  then have "err_queue st = []" using assms by (simp add: err_queue_empty)
  with True assms show ?thesis by (simp add: get_error_values_def)
next
  case False
  define i where "i = (if newest then err_top st else ring_idx (err_bottom st) 0)"
  define d where "d = (inc \<and> want \<and> err_data (errors st ! i) \<noteq> None)"
  define st1 where "st1 = (if d then st\<lparr>err_to_free := err_data (errors st ! i)\<rparr> else st)"
  have st1: "err_wf st1" "err_queue st1 = err_queue st" "err_bottom st1 = err_bottom st" "err_top st1 = err_top st"
    "err_suppress st1 = err_suppress st"
    using assms by (simp_all add: st1_def err_wf_def)
  have e: "errors st ! i = (if newest then last (err_queue st) else hd (err_queue st))"
    using assms False by (simp add: i_def last_err_queue hd_err_queue)
  have g: "get_error_values inc newest want st = (Some (error_out (errors st ! i)),
      if inc then st1\<lparr>errors := (errors st1)[i := err_clear (errors st ! i)], err_bottom := i\<rparr> else st1)"
  proof -
    have idx: "(if newest then err_top st else (err_bottom st + 1) mod 16) = i"
      using err_wf_mod(2) [OF assms(1)] by (simp add: i_def)
    show ?thesis
      using False unfolding get_error_values_def Let_def idx error_out_def st1_def d_def
      by (cases inc; cases want; simp)
  qed
  have ne: "err_queue st \<noteq> []" using assms False by (simp add: err_queue_empty)
  show ?thesis
  proof (cases inc)
    case True
    then have "i = ring_idx (err_bottom st1) 0" using assms(2) by (simp add: i_def st1)
    moreover from this have "i < 16" using st1(1) by (simp add: err_wf_def)
    ultimately show ?thesis
      using True st1 e g ne False err_queue_pop [OF st1(1)] by (simp add: err_wf_def)
  next
    case inc: False
    with g e ne st1 show ?thesis by simp
  qed
qed

section \<open>A bounded queue that drops its oldest entry\<close>

locale bounded_queue =
  fixes wf :: "'s \<Rightarrow> bool"
    and queue :: "'s \<Rightarrow> 'e list"
    and cap :: nat
    and mk :: "'a \<Rightarrow> 'e"
    and put :: "'a \<Rightarrow> 's \<Rightarrow> 's"
    and get :: "'s \<Rightarrow> 'o option \<times> 's"
    and view :: "'e \<Rightarrow> 'o"
  assumes cap_pos: "0 < cap"
    and bound: "wf s \<Longrightarrow> length (queue s) \<le> cap"
    and put_queue: "wf s \<Longrightarrow> wf (put a s) \<and>
          queue (put a s) = (if length (queue s) = cap then tl (queue s) else queue s) @ [mk a]"
    and get_queue: "wf s \<Longrightarrow> case get s of (out, s') \<Rightarrow> wf s' \<and>
          out = (if queue s = [] then None else Some (view (hd (queue s)))) \<and> queue s' = tl (queue s)"
begin

text \<open>After any number of insertions the queue holds the \<open>cap\<close> most recent entries.\<close>

lemma puts: "wf s \<Longrightarrow> wf (fold put as s) \<and>
  queue (fold put as s) = drop (length (queue s) + length as - cap) (queue s @ map mk as)"
proof (induction "as" arbitrary: s)
  case Nil
  then show ?case using bound [of s] by simp
next
  case (Cons a "as")
  note p = put_queue [OF Cons.prems, of a] and b = bound [OF Cons.prems]
  show ?case
  proof (cases "length (queue s) = cap")
    case True
    with cap_pos obtain e q where q: "queue s = e # q" by (cases "queue s") auto
    with True p Cons.IH [of "put a s"] show ?thesis by (simp add: Suc_diff_le)
  next
    case False
    with p b Cons.IH [of "put a s"] show ?thesis by simp
  qed
qed

text \<open>Repeated removal returns the entries in order of insertion, and then nothing.\<close>

lemma gets: "wf s \<Longrightarrow>
    fst (get (((\<lambda>s. snd (get s)) ^^ n) s)) = (if n < length (queue s) then Some (view (queue s ! n)) else None)"
proof (induction n arbitrary: s)
  case 0
  then show ?case using get_queue [of s] by (cases "get s") (auto simp: hd_conv_nth)
next
  case (Suc n)
  obtain out s' where g: "get s = (out, s')" by fastforce
  from get_queue [OF Suc.prems(1)] g have "wf s'" "queue s' = tl (queue s)" by simp_all
  with Suc.IH [of s'] g show ?case
    by (auto simp: nth_tl funpow_Suc_right simp del: funpow.simps)
qed

end

type_synonym put_args = "int \<times> int \<times> u8 list option \<times> nat"

definition mk_error :: "int \<Rightarrow> put_args \<Rightarrow> err_error" where
  "mk_error errno = (\<lambda>(lib, reason, file, line).
     new_error lib (if lib = ERR_LIB_SYS \<and> reason = 0 then errno else reason) file line)"

definition put_args :: "int \<Rightarrow> put_args \<Rightarrow> ERR_STATE \<Rightarrow> ERR_STATE" where
  "put_args errno = (\<lambda>(lib, reason, file, line). put_error errno lib reason file line)"

lemma put_error_suppress [simp]: "err_suppress (put_error errno lib reason file line st) = err_suppress st"
  by (simp add: put_error_def Let_def)

interpretation errq: bounded_queue "\<lambda>st. err_wf st \<and> err_suppress st = 0" err_queue 15 "mk_error errno" "put_args errno"
  "get_error_values True False want" error_out for errno want
proof
  fix st assume wf: "err_wf st \<and> err_suppress st = 0"
  then show "length (err_queue st) \<le> 15" by (simp add: err_queue_bound)
  fix a :: put_args
  obtain lib reason fl ln where a: "a = (lib, reason, fl, ln)" by (metis prod.exhaust)
  show "(err_wf (put_args errno a st) \<and> err_suppress (put_args errno a st) = 0) \<and>
      err_queue (put_args errno a st) = (if length (err_queue st) = 15 then tl (err_queue st) else err_queue st) @ [mk_error errno a]"
    using wf put_error_queue [of st errno lib reason fl ln] by (simp add: a put_args_def mk_error_def queue_put_def)
next
  fix st assume wf: "err_wf st \<and> err_suppress st = 0"
  then show "case get_error_values True False want st of (out, st') \<Rightarrow> (err_wf st' \<and> err_suppress st' = 0) \<and>
      out = (if err_queue st = [] then None else Some (error_out (hd (err_queue st)))) \<and> err_queue st' = tl (err_queue st)"
    using get_error_values_queue [of st True False want] by (cases "get_error_values True False want st") simp
qed simp

section \<open>Marks\<close>

text \<open>The newest entry first.\<close>

fun drop_unmarked :: "err_error list \<Rightarrow> bool \<times> err_error list" where
  "drop_unmarked [] = (False, [])"
| "drop_unmarked (e # es) = (if err_mark e then (True, e\<lparr>err_mark := False\<rparr> # es) else drop_unmarked es)"

text \<open>
  \<open>pop_to_mark_fuel\<close>: one iteration per queued error and one for the final test suffice,
  so the sixteen iterations of \<open>ERR_pop_to_mark\<close> always reach a result.
\<close>

lemma pop_to_mark_fuel:
  assumes "err_wf st" "length (err_queue st) < n"
  shows "\<exists>st'. pop_to_mark n st = Some (fst (drop_unmarked (rev (err_queue st))), st') \<and> err_wf st' \<and>
    err_suppress st' = err_suppress st \<and> err_queue st' = rev (snd (drop_unmarked (rev (err_queue st))))"
  using assms
proof (induction n arbitrary: st)
  case (Suc n)
  show ?case
  proof (cases "err_bottom st = err_top st")
    case True
    then have "err_queue st = []" using Suc.prems by (simp add: err_queue_empty)
    with True Suc.prems show ?thesis by simp
  next
    case False
    let ?e = "errors st ! err_top st"
    have ne: "err_queue st \<noteq> []" using False Suc.prems by (simp add: err_queue_empty)
    have q: "rev (err_queue st) = ?e # rev (butlast (err_queue st))"
      using ne last_err_queue [OF Suc.prems(1) False] by (metis append_butlast_last_id rev_eq_Cons_iff rev_rev_ident)
    show ?thesis
    proof (cases "err_mark ?e")
      case True
      let ?st = "st\<lparr>errors := (errors st)[err_top st := ?e\<lparr>err_mark := False\<rparr>]\<rparr>"
      have "err_queue ?st = butlast (err_queue st) @ [?e\<lparr>err_mark := False\<rparr>]"
        using Suc.prems(1) False by (rule err_queue_set_top)
      moreover have "drop_unmarked (rev (err_queue st)) = (True, ?e\<lparr>err_mark := False\<rparr> # rev (butlast (err_queue st)))"
        unfolding q using True by simp
      ultimately show ?thesis using True False Suc.prems by (simp add: Let_def err_wf_def)
    next
      case unmarked: False
      let ?st = "st\<lparr>errors := (errors st)[err_top st := err_clear ?e], err_top := err_prev (err_top st)\<rparr>"
      have qs: "err_queue ?st = butlast (err_queue st)" using Suc.prems(1) False by (rule err_queue_drop_last)
      have "err_wf ?st"
        using Suc.prems(1) ring_len_prev [of "err_top st" "err_bottom st"] False by (simp add: err_wf_def)
      moreover have "length (err_queue ?st) < n" using Suc.prems(2) ne qs by (cases "err_queue st") auto
      moreover have "drop_unmarked (rev (err_queue st)) = drop_unmarked (rev (butlast (err_queue st)))"
        unfolding q using unmarked by simp
      ultimately show ?thesis using Suc.IH [of ?st] unmarked False qs by (simp add: Let_def)
    qed
  qed
qed simp

lemma pop_to_mark_total:
  assumes "err_wf st"
  shows "\<exists>st'. ERR_pop_to_mark ok (Some st) = Some (fst (drop_unmarked (rev (err_queue st))), Some st') \<and> err_wf st' \<and>
    err_suppress st' = err_suppress st \<and> err_queue st' = rev (snd (drop_unmarked (rev (err_queue st))))"
  using pop_to_mark_fuel [OF assms, of 16] err_queue_bound [OF assms] by (auto simp: ERR_pop_to_mark_def err_get_state_def)

lemma set_mark_queue:
  assumes "err_wf st" "err_queue st \<noteq> []"
  shows "\<exists>st'. ERR_set_mark ok (Some st) = (True, Some st') \<and> err_wf st' \<and> err_suppress st' = err_suppress st \<and>
    err_queue st' = queue_map_last (\<lambda>e. e\<lparr>err_mark := True\<rparr>) (err_queue st)"
proof -
  have ne: "err_bottom st \<noteq> err_top st" using assms by (simp add: err_queue_empty)
  with assms show ?thesis
    using err_queue_set_top [OF assms(1) ne] last_err_queue [OF assms(1) ne]
    by (simp add: ERR_set_mark_def err_get_state_def queue_map_last_def err_wf_def)
qed

lemma drop_unmarked_append:
  "\<forall>e \<in> set es. \<not> err_mark e \<Longrightarrow> drop_unmarked (es @ fs) = drop_unmarked fs"
  by (induction es) auto

section \<open>Suppression scopes\<close>

text \<open>
  \<open>suppressed_work n ts ts'\<close>: code that only raises errors, attaches data to them and
  opens further scopes, nested at most \<open>n\<close> deep, takes the thread from \<open>ts\<close> to
  \<open>ts'\<close>.
\<close>

inductive suppressed_work :: "nat \<Rightarrow> err_thread \<Rightarrow> err_thread \<Rightarrow> bool" where
  work_none: "suppressed_work n ts ts"
| work_put: "suppressed_work n ts ts1 \<Longrightarrow> suppressed_work n ts (ERR_put_error ok errno lib reason file line ts1)"
| work_set_data: "suppressed_work n ts ts1 \<Longrightarrow> suppressed_work n ts (ERR_set_error_data al ok data flag ts1)"
| work_add_data: "suppressed_work n ts ts1 \<Longrightarrow> suppressed_work n ts (ERR_add_error_data al ok args ts1)"
| work_scope: "suppressed_work (Suc n) ts ts1 \<Longrightarrow> ERR_suppress_errors_begin ok ts1 = (True, ts2) \<Longrightarrow>
    suppressed_work n ts2 ts3 \<Longrightarrow> suppressed_work (Suc n) ts (ERR_suppress_errors_end ts3)"

lemma suppressed_put: "err_suppress st \<noteq> 0 \<Longrightarrow> ERR_put_error ok errno lib reason file line (Some st) = Some st"
  by (simp add: ERR_put_error_def err_get_state_def put_error_def)

lemma suppressed_set_data: "err_suppress st \<noteq> 0 \<Longrightarrow> err_set_error_data ok data (Some st) = Some st"
  by (simp add: err_set_error_data_def err_get_state_def set_error_data_def)

lemma suppress_begin_end:
  assumes "unat (err_suppress st) + 1 < 2 ^ 32"
  shows "ERR_suppress_errors_end (Some (st\<lparr>err_suppress := err_suppress st + 1\<rparr>)) = Some st"
proof -
  have "unat (err_suppress st + 1) = unat (err_suppress st) + 1"
    using assms by (simp add: unat_word_ariths)
  then have "err_suppress st + 1 > 0" by (simp add: word_less_nat_alt)
  then show ?thesis by (simp add: ERR_suppress_errors_end_def)
qed

lemma suppressed_work_id:
  assumes "suppressed_work n ts ts'" "ts = Some st" "err_suppress st \<noteq> 0" "unat (err_suppress st) + n < 2 ^ 32"
  shows "ts' = ts"
  using assms
proof (induction arbitrary: st rule: suppressed_work.induct)
  case (work_scope n ts ts1 ok ts2 ts3)
  let ?st = "st\<lparr>err_suppress := err_suppress st + 1\<rparr>"
  have u: "unat (err_suppress st + 1) = unat (err_suppress st) + 1"
    using work_scope.prems by (simp add: unat_word_ariths)
  have "ts1 = ts" using work_scope.IH(1) work_scope.prems by blast
  with work_scope have "ts2 = Some ?st" by (simp add: ERR_suppress_errors_begin_def err_get_state_def)
  moreover have "err_suppress ?st \<noteq> 0" using u by (auto simp: unat_eq_0 [symmetric] simp del: unat_eq_0)
  ultimately have "ts3 = Some ?st" using work_scope.IH(2) [of ?st] work_scope.prems u by simp
  with work_scope.prems suppress_begin_end [of st] show ?case by simp
qed (auto simp: suppressed_put suppressed_set_data ERR_set_error_data_def ERR_add_error_data_def err_add_error_vdata_def
    Let_def split: option.splits)

section \<open>Saved states\<close>

definition c_string :: "u8 list \<Rightarrow> u8 list" where
  "c_string s = takeWhile (\<lambda>c. c \<noteq> 0) s"

text \<open>An error as code outside the queue can observe it: no mark, the data as a C string.\<close>

definition error_view :: "err_error \<Rightarrow> err_error" where
  "error_view e = e\<lparr>err_data := map_option c_string (err_data e), err_mark := False\<rparr>"

lemma strdup_libc_malloc_view: "al_total al \<Longrightarrow> map_option c_string (strdup_libc_malloc al d) = Some (c_string d)"
proof -
  assume "al_total al"
  then obtain f where "al (strlen d + 1) = Some f" by blast
  moreover have "takeWhile (\<lambda>c. c \<noteq> 0) (take (strlen d + 1) (d @ [0])) = takeWhile (\<lambda>c. c \<noteq> 0) d"
  proof -
    have "take (Suc (length (takeWhile (\<lambda>c. c \<noteq> 0) d))) (d @ [0]) = takeWhile (\<lambda>c. c \<noteq> 0) d @ [0]"
      by (induction d) auto
    moreover have "takeWhile (\<lambda>c. c \<noteq> 0) (takeWhile (\<lambda>c. c \<noteq> 0) d @ [0]) = takeWhile (\<lambda>c. c \<noteq> 0) d"
      by (induction d) auto
    ultimately show ?thesis by (simp add: strlen_def)
  qed
  ultimately show ?thesis by (simp add: strdup_libc_malloc_def c_string_def Let_def)
qed

lemma err_copy_view: "al_total al \<Longrightarrow> error_view (err_copy al dst src) = error_view src \<and> \<not> err_mark (err_copy al dst src)"
  using strdup_libc_malloc_view [of al]
  by (auto simp: error_view_def err_copy_def err_clear_def Let_def split: option.splits)

lemma save_state_errors:
  assumes "err_wf st" "err_queue st \<noteq> []" "al_total al"
  shows "\<exists>saved. ERR_save_state al ok (Some st) = (Some saved, Some st) \<and> length saved = length (err_queue st) \<and>
    map error_view saved = map error_view (err_queue st)"
proof -
  let ?n = "length (err_queue st)"
  have ne: "err_top st \<noteq> err_bottom st" using assms by (auto simp: err_queue_empty)
  have n: "(if err_top st \<ge> err_bottom st then err_top st - err_bottom st else 16 + err_top st - err_bottom st) = ?n"
    by (simp add: length_err_queue ring_len_def)
  have "?n < 16" using err_queue_bound [OF assms(1)] by simp
  then have idx: "(err_bottom st + i + 1) mod 16 = ring_idx (err_bottom st) i" if "i < ?n" for i
    using that mod16_succ(1) [of "err_bottom st" i] assms(1) by (simp add: err_wf_def)
  let ?saved = "map (\<lambda>i. err_copy al (err_clear (errors st ! 0)) (errors st ! ((err_bottom st + i + 1) mod 16))) [0..<?n]"
  have "ERR_save_state al ok (Some st) = (Some ?saved, Some st)"
    using ne assms(3) unfolding ERR_save_state_def err_get_state_def option.case Let_def n by simp
  moreover have "map error_view ?saved = map error_view (err_queue st)"
    using idx err_copy_view [OF assms(3)] by (intro nth_equalityI) (simp_all add: nth_err_queue)
  ultimately show ?thesis by (intro exI [of _ ?saved]) simp
qed

lemma restore_state_queue:
  assumes "err_wf st" "al_total al" "0 < length saved" "length saved < 16"
  shows "\<exists>st'. ERR_restore_state al ok (Some saved) (Some st) = Some (Some st') \<and> err_wf st' \<and>
    map error_view (err_queue st') = map error_view saved \<and> (\<forall>e \<in> set (err_queue st'). \<not> err_mark e)"
proof -
  let ?es = "map (\<lambda>i. if i < length saved then err_copy al (errors st ! i) (saved ! i) else errors st ! i) [0..<length (errors st)]"
  let ?st = "st\<lparr>errors := ?es, err_top := length saved - 1, err_bottom := 15\<rparr>"
  have w: "err_wf ?st" using assms by (simp add: err_wf_def)
  have "ring_len (length saved - 1) 15 = length saved" using assms by (auto simp: ring_len_def)
  then have l: "length (err_queue ?st) = length saved" by (simp add: length_err_queue)
  have q: "err_queue ?st ! i = err_copy al (errors st ! i) (saved ! i)" if "i < length saved" for i
    using that assms nth_err_queue [of i ?st] l by (simp add: ring_idx_def err_wf_def)
  have "map error_view (err_queue ?st) = map error_view saved"
    using l q err_copy_view [OF assms(2)] by (intro nth_equalityI) simp_all
  moreover have "\<forall>e \<in> set (err_queue ?st). \<not> err_mark e"
    using l q err_copy_view [OF assms(2)] by (auto simp: in_set_conv_nth)
  ultimately show ?thesis
    using w assms by (intro exI [of _ ?st]) (simp add: ERR_restore_state_def err_get_state_def)
qed

section \<open>Properties\<close>

text \<open>
  C10. The error queue keeps the 15 most recent errors in order. Starting from any
  well-formed state without an open suppression scope, after any sequence of
  \<open>ERR_put_error\<close> calls the queue is the old queue followed by the new errors, less the
  oldest ones beyond 15; the ring invariant still holds, and of the following calls of
  \<open>ERR_get_error\<close> the \<open>n\<close>-th returns the \<open>n\<close>-th oldest of them as long as there is one, and every
  later one reports that there is no error.
\<close>

theorem error_queue_fifo:
  fixes errno :: int and args :: "(int \<times> int \<times> u8 list option \<times> nat) list"
  assumes "err_wf st" "err_suppress st = 0"
  defines "st' \<equiv> fold (\<lambda>(lib, reason, file, line). put_error errno lib reason file line) args st"
  shows "err_wf st' \<and>
    err_queue st' = drop (length (err_queue st) + length args - 15) (err_queue st @ map (mk_error errno) args) \<and>
    (\<forall>n. fst (get_error_values True False want (((\<lambda>s. snd (get_error_values True False want s)) ^^ n) st')) =
       (if n < length (err_queue st') then Some (error_out (err_queue st' ! n)) else None))"
  using errq.puts [of st errno args] errq.gets [of st' want] assms(1,2)
  unfolding st'_def by (simp add: put_args_def)

theorem error_queue_fifo_witness:
  "err_queue (fold (\<lambda>(lib, reason, file, line). put_error 0 lib reason file line) (replicate 20 (4, 1, None, 7)) err_state_zero) =
     replicate 15 (new_error 4 1 None 7)"
proof -
  have "err_wf err_state_zero" "err_suppress err_state_zero = 0" "err_queue err_state_zero = []"
    by (simp_all add: err_state_zero_def err_wf_def err_queue_def ring_len_def)
  from error_queue_fifo [OF this(1,2), of 0 "replicate 20 (4, 1, None, 7)" False] this(3)
  show ?thesis by (simp add: mk_error_def)
qed

text \<open>
  C11. \<open>ERR_set_mark\<close> and \<open>ERR_pop_to_mark\<close> bracket work that may raise errors:
  if an error is queued when the mark is set and the errors raised in between do not push
  it out of the queue, \<open>ERR_pop_to_mark\<close> terminates, reports the mark, removes exactly
  the errors raised since, and leaves the queue as before with the mark cleared.
\<close>

theorem mark_brackets_errors:
  assumes "err_wf st" "err_suppress st = 0" "err_queue st \<noteq> []" "length (err_queue st) + length args \<le> 15"
    and "ERR_set_mark ok (Some st) = (True, Some st1)"
  shows "\<exists>st'. ERR_pop_to_mark ok (Some (fold (\<lambda>(lib, reason, file, line). put_error errno lib reason file line) args st1)) =
      Some (True, Some st') \<and> err_wf st' \<and>
    err_queue st' = queue_map_last (\<lambda>e. e\<lparr>err_mark := False\<rparr>) (err_queue st)"
proof -
  let ?st2 = "fold (put_args errno) args st1"
  have st1: "err_wf st1" "err_suppress st1 = 0" "err_queue st1 = queue_map_last (\<lambda>e. e\<lparr>err_mark := True\<rparr>) (err_queue st)"
    using set_mark_queue [OF assms(1,3), of ok] assms(2,5) by auto
  have "length (err_queue st1) = length (err_queue st)" using assms(3) st1(3) by (simp add: queue_map_last_def)
  then have q2: "err_wf ?st2" "err_queue ?st2 = err_queue st1 @ map (mk_error errno) args"
    using errq.puts [of st1 errno args] st1 assms(4) by simp_all
  have "\<not> err_mark (mk_error errno a)" for a by (auto simp: mk_error_def new_error_def split: prod.splits)
  then have "drop_unmarked (rev (err_queue ?st2)) = drop_unmarked (rev (err_queue st1))"
    by (simp add: q2 drop_unmarked_append)
  also have "\<dots> = (True, (last (err_queue st))\<lparr>err_mark := False\<rparr> # rev (butlast (err_queue st)))"
    using st1(3) assms(3) by (simp add: queue_map_last_def)
  finally have "drop_unmarked (rev (err_queue ?st2)) = (True, (last (err_queue st))\<lparr>err_mark := False\<rparr> # rev (butlast (err_queue st)))" .
  with pop_to_mark_total [OF q2(1), of ok] show ?thesis
    using assms(3) by (auto simp: put_args_def queue_map_last_def)
qed

theorem mark_brackets_errors_witness:
  "\<exists>st1 st'. ERR_set_mark True (Some (put_error 0 4 1 None 7 err_state_zero)) = (True, Some st1) \<and>
     ERR_pop_to_mark True (Some (put_error 0 6 2 None 9 (put_error 0 5 3 None 8 st1))) = Some (True, Some st') \<and>
     err_queue st' = [new_error 4 1 None 7]"
proof -
  let ?st = "put_error 0 4 1 None 7 err_state_zero"
  have z: "err_wf err_state_zero" "err_suppress err_state_zero = 0" "err_queue err_state_zero = []"
    by (simp_all add: err_state_zero_def err_wf_def err_queue_def ring_len_def)
  then have q: "err_wf ?st" "err_suppress ?st = 0" "err_queue ?st = [new_error 4 1 None 7]"
    using put_error_queue [OF z(1), of 0 4 1 None 7] by (simp_all add: queue_put_def)
  then obtain st1 where st1: "ERR_set_mark True (Some ?st) = (True, Some st1)" using set_mark_queue [OF q(1)] by auto
  show ?thesis
    using mark_brackets_errors [OF q(1,2) _ _ st1, of "[(5, 3, None, 8), (6, 2, None, 9)]" 0] st1 q(3)
    by (auto simp: queue_map_last_def new_error_def)
qed

text \<open>
  A suppression scope leaves the thread's error state exactly as it was: after
  \<open>ERR_suppress_errors_begin\<close>, any work that raises errors, attaches error data and
  opens nested scopes, and the matching \<open>ERR_suppress_errors_end\<close>, the state (queue,
  marks, data, depth) is identical, as long as the nesting depth fits its 32-bit counter.
\<close>

theorem suppression_scope_transparent:
  assumes "ERR_suppress_errors_begin ok (Some st) = (True, ts1)" "suppressed_work n ts1 ts2"
    and "unat (err_suppress st) + n + 1 < 2 ^ 32"
  shows "ERR_suppress_errors_end ts2 = Some st"
proof -
  let ?st = "st\<lparr>err_suppress := err_suppress st + 1\<rparr>"
  have u: "unat (err_suppress st + 1) = unat (err_suppress st) + 1"
    using assms(3) by (simp add: unat_word_ariths)
  then have "err_suppress ?st \<noteq> 0" by (auto simp: unat_eq_0 [symmetric] simp del: unat_eq_0)
  moreover have "ts1 = Some ?st" using assms(1) by (simp add: ERR_suppress_errors_begin_def err_get_state_def)
  ultimately have "ts2 = Some ?st"
    using suppressed_work_id [OF assms(2), of ?st] assms(3) u by simp
  with suppress_begin_end [of st] assms(3) show ?thesis by simp
qed

theorem suppression_scope_transparent_witness:
  "ERR_suppress_errors_end (ERR_put_error True 0 4 1 None 7 (Some (err_state_zero\<lparr>err_suppress := 1\<rparr>))) = Some err_state_zero"
proof -
  let ?ts = "Some (err_state_zero\<lparr>err_suppress := 1\<rparr>)"
  have "ERR_suppress_errors_begin True (Some err_state_zero) = (True, ?ts)"
    by (simp add: ERR_suppress_errors_begin_def err_get_state_def err_state_zero_def)
  from suppression_scope_transparent [OF this work_put [OF work_none], of 0] show ?thesis
    by (simp add: err_state_zero_def)
qed

text \<open>
  C12. Saving and restoring the queue: with memory available, \<open>ERR_save_state\<close> captures
  a non-empty queue without changing it, and \<open>ERR_restore_state\<close> into any well-formed
  state gives back a queue with the same errors in the same order (library, reason, file,
  line and data string) and no marks.
\<close>

theorem save_restore_roundtrip:
  assumes "err_wf st" "err_queue st \<noteq> []" "err_wf dst" "al_total al"
  shows "\<exists>saved dst'. ERR_save_state al ok (Some st) = (Some saved, Some st) \<and>
    ERR_restore_state al ok (Some saved) (Some dst) = Some (Some dst') \<and> err_wf dst' \<and>
    map error_view (err_queue dst') = map error_view (err_queue st) \<and> (\<forall>e \<in> set (err_queue dst'). \<not> err_mark e)"
proof -
  obtain saved where s: "ERR_save_state al ok (Some st) = (Some saved, Some st)" "length saved = length (err_queue st)"
    "map error_view saved = map error_view (err_queue st)"
    using save_state_errors [OF assms(1,2,4)] by blast
  then have "0 < length saved" "length saved < 16" using assms(2) err_queue_bound [OF assms(1)] by auto
  from restore_state_queue [OF assms(3,4) this, of ok] s show ?thesis by auto
qed

theorem save_restore_roundtrip_witness:
  "\<exists>saved dst'. ERR_save_state (\<lambda>_. Some (\<lambda>_. 0)) True (Some (put_error 0 4 1 None 7 err_state_zero)) =
      (Some saved, Some (put_error 0 4 1 None 7 err_state_zero)) \<and>
    ERR_restore_state (\<lambda>_. Some (\<lambda>_. 0)) True (Some saved) (Some err_state_zero) = Some (Some dst') \<and>
    map error_view (err_queue dst') = [new_error 4 1 None 7]"
proof -
  let ?st = "put_error 0 4 1 None 7 err_state_zero"
  have z: "err_wf err_state_zero" "err_suppress err_state_zero = 0" "err_queue err_state_zero = []"
    by (simp_all add: err_state_zero_def err_wf_def err_queue_def ring_len_def)
  then have q: "err_wf ?st" "err_queue ?st = [new_error 4 1 None 7]"
    using put_error_queue [OF z(1), of 0 4 1 None 7] by (simp_all add: queue_put_def)
  show ?thesis
    using save_restore_roundtrip [OF q(1) _ z(1), of "\<lambda>_. Some (\<lambda>_. 0)" True] q(2)
    by (auto simp: error_view_def new_error_def)
qed

section \<open>Formatted error codes\<close>

abbreviation colons :: "string \<Rightarrow> nat" where
  "colons s \<equiv> length (filter (\<lambda>c. c = CHR '':'') s)"

lemma colons_take_mono: "k \<le> n \<Longrightarrow> colons (take k s) \<le> colons (take n s)"
proof -
  assume "k \<le> n"
  then obtain j where "n = k + j" by (auto simp: le_iff_add)
  then show ?thesis by (simp add: take_add)
qed

lemma next_colon_Some:
  assumes "next_colon buf s = Some k"
  shows "s \<le> k \<and> k < length buf \<and> colons (take (Suc k) buf) = Suc (colons (take s buf))"
proof -
  let ?w = "takeWhile (\<lambda>c. c \<noteq> CHR '':'') (drop s buf)"
  from assms have k: "k = s + length ?w" "k < length buf" by (auto simp: next_colon_def Let_def split: if_splits)
  then have "length ?w < length (drop s buf)" by simp
  then have hd: "buf ! k = CHR '':''"
    using k nth_length_takeWhile [of "\<lambda>c. c \<noteq> CHR '':''" "drop s buf"] by simp
  have "take k buf = take s buf @ ?w"
    using k takeWhile_eq_take [of "\<lambda>c. c \<noteq> CHR '':''" "drop s buf"] by (simp add: take_add)
  moreover have "colons ?w = 0" by (auto simp: filter_empty_conv dest: set_takeWhileD)
  ultimately have "colons (take k buf) = colons (take s buf)" by simp
  with hd k show ?thesis by (simp add: take_Suc_conv_app_nth)
qed

text \<open>The repair keeps the length and reaches four colons.\<close>

lemma fix_colons_spec:
  assumes "length buf = len - 1" "4 < len" "k \<le> 4" "s \<le> len - 1 - k" "4 - k \<le> colons (take s buf)"
  shows "length (fix_colons len k s buf) = len - 1 \<and> 4 \<le> colons (fix_colons len k s buf)"
  using assms
proof (induction k arbitrary: s)
  case 0
  then show ?case using colons_take_mono [of s "len - 1" buf] by simp
next
  case (Suc k)
  define lp where "lp = len - 1 - Suc k"
  have lp: "len - 1 - 4 + (4 - Suc k) = lp" "4 - (4 - Suc k) = Suc k" using Suc.prems by (simp_all add: lp_def)
  have w: "buf_write buf lp (replicate (Suc k) (CHR '':'')) = take lp buf @ replicate (Suc k) (CHR '':'')"
    using Suc.prems by (intro buf_write_end) (simp add: lp_def)
  have stop: "length (buf_write buf lp (replicate (Suc k) (CHR '':''))) = len - 1 \<and>
      4 \<le> colons (buf_write buf lp (replicate (Suc k) (CHR '':'')))"
    using Suc.prems colons_take_mono [of s lp buf] unfolding w by (auto simp: lp_def)
  show ?case
  proof (cases "next_colon buf s")
    case None
    with stop lp show ?thesis by (simp add: Let_def)
  next
    case (Some colon)
    note c = next_colon_Some [OF Some]
    show ?thesis
    proof (cases "colon > lp")
      case True
      with Some stop lp show ?thesis by (simp add: Let_def)
    next
      case False
      have "length (fix_colons len k (colon + 1) buf) = len - 1 \<and> 4 \<le> colons (fix_colons len k (colon + 1) buf)"
        using Suc.IH [of "colon + 1"] Suc.prems c False by (simp add: lp_def)
      with Some False lp show ?thesis by (simp add: Let_def)
    qed
  qed
qed

text \<open>
  C13. \<open>ERR_error_string_n\<close> never overruns its buffer and keeps its five colon-separated
  fields: for every non-empty buffer the text together with its NUL fits in \<open>len\<close> bytes,
  and whenever \<open>len\<close> is more than four the text has at least four colons, even when it
  had to be truncated.
\<close>

theorem ERR_error_string_n_fields:
  assumes "0 < len"
  shows "\<exists>text. ERR_error_string_n strerror values string_data packed_error len = Some text \<and>
    length text < len \<and> (4 < len \<longrightarrow> 4 \<le> length (filter (\<lambda>c. c = CHR '':'') text))"
proof -
  let ?lib = "case err_lib_error_string packed_error of
      None \<Rightarrow> ''lib('' @ dec_digits (ERR_GET_LIB packed_error) @ '')'' | Some s \<Rightarrow> s"
  let ?reason = "case err_reason_error_string strerror values string_data packed_error of
      None \<Rightarrow> ''reason('' @ dec_digits (ERR_GET_REASON packed_error) @ '')'' | Some s \<Rightarrow> s"
  define out where "out = ''error:'' @ hex8 packed_error @ '':'' @ ?lib @ '':OPENSSL_internal:'' @ ?reason"
  have c: "4 \<le> colons out" unfolding out_def by simp
  have e: "ERR_error_string_n strerror values string_data packed_error len =
      (if length out \<ge> len then (if len \<le> 4 then Some (take (len - 1) out) else Some (fix_colons len 4 0 (take (len - 1) out)))
       else Some (take (len - 1) out))"
    using assms by (simp add: ERR_error_string_n_def Let_def out_def)
  show ?thesis
  proof (cases "length out \<ge> len \<and> 4 < len")
    case True
    then show ?thesis using fix_colons_spec [of "take (len - 1) out" len 4 0] assms e by auto
  next
    case False
    with c assms show ?thesis unfolding e by auto
  qed
qed

theorem ERR_error_string_n_fields_witness:
  "\<exists>text. ERR_error_string_n (\<lambda>_. []) [] [] 0x04000001 10 = Some text \<and>
    length text < 10 \<and> 4 \<le> length (filter (\<lambda>c. c = CHR '':'') text)"
  using ERR_error_string_n_fields [of 10 "\<lambda>_. []" "[]" "[]" "0x04000001"] by simp

section \<open>Error data\<close>

lemma vdata_size_eq:
  "n + sum_list (map strlen (List.map_filter id args)) \<le> SIZE_MAX \<Longrightarrow>
     vdata_size args n = Some (n + sum_list (map strlen (List.map_filter id args)))"
  by (induction args n rule: vdata_size.induct) (auto simp: map_filter_simps)

lemma strlcat_skip_eq:
  assumes "l + n \<le> length dst" "0 \<notin> set w" "w @ [0] = take (Suc (length w)) (drop l dst)" "length w < n"
  shows "strlcat_skip dst l n = l + length w"
  using assms
proof (induction w arbitrary: l n)
  case Nil
  then obtain m where "n = Suc m" by (cases n) auto
  with Nil show ?case by (simp add: take_Suc_conv_app_nth)
next
  case (Cons c w)
  then obtain m where m: "n = Suc m" by (cases n) auto
  have d: "drop l dst = dst ! l # drop (Suc l) dst" using Cons.prems m by (intro Cons_nth_drop_Suc [symmetric]) simp
  with Cons.prems have "dst ! l = c" "w @ [0] = take (Suc (length w)) (drop (Suc l) dst)" by simp_all
  with Cons.IH [of "Suc l" m] Cons.prems m show ?case by auto
qed

text \<open>Appending to a buffer that holds a string with enough room after it.\<close>

lemma strlcat_append:
  assumes "0 \<notin> set w" "take (Suc (length w)) buf = w @ [0]" "length w + strlen s < length buf"
  shows "take (Suc (length w + strlen s)) (fst (OPENSSL_strlcat buf s (length buf))) = w @ c_string s @ [0]"
    and "length (fst (OPENSSL_strlcat buf s (length buf))) = length buf"
proof -
  have sk: "strlcat_skip buf 0 (length buf) = length w"
    using strlcat_skip_eq [of 0 "length buf" buf w] assms by simp
  have tk: "take (length buf - length w - 1) (takeWhile (\<lambda>c. c \<noteq> 0) s) = takeWhile (\<lambda>c. c \<noteq> 0) s"
    using assms(3) by (simp add: strlen_def)
  have r: "fst (OPENSSL_strlcat buf s (length buf)) = buf_write buf (length w) (c_string s @ [0])"
    using strlcpy_from_spec [of "length buf - length w" "length w" 0 buf s] assms(3) tk
    by (simp add: OPENSSL_strlcat_def sk c_string_def Let_def)
  have "take (length w) buf = w"
    using arg_cong [OF assms(2), of "take (length w)"] by (simp add: min_def)
  then show "take (Suc (length w + strlen s)) (fst (OPENSSL_strlcat buf s (length buf))) = w @ c_string s @ [0]"
    using take_buf_write_exact [of "length w" buf "c_string s @ [0]"] assms(3) unfolding r by (simp add: c_string_def strlen_def)
  show "length (fst (OPENSSL_strlcat buf s (length buf))) = length buf"
    using assms(3) unfolding r by (simp add: c_string_def strlen_def)
qed

lemma vdata_fill_spec:
  assumes "0 \<notin> set w" "take (Suc (length w)) buf = w @ [0]"
    and "length w + sum_list (map strlen (List.map_filter id args)) < length buf"
  shows "take (Suc (length w + sum_list (map strlen (List.map_filter id args)))) (vdata_fill args (length buf) buf) =
    w @ concat (map c_string (List.map_filter id args)) @ [0] \<and>
    length (vdata_fill args (length buf) buf) = length buf"
  using assms
proof (induction args arbitrary: w buf)
  case Nil
  then show ?case by (simp add: map_filter_simps)
next
  case (Cons a args)
  show ?case
  proof (cases a)
    case None
    with Cons show ?thesis by (simp add: map_filter_simps)
  next
    case (Some s)
    let ?b = "fst (OPENSSL_strlcat buf s (length buf))"
    have len: "length (c_string s) = strlen s" by (simp add: c_string_def strlen_def)
    have room: "length w + strlen s < length buf" using Cons.prems Some by (simp add: map_filter_simps)
    note st = strlcat_append [OF Cons.prems(1,2) room]
    have "0 \<notin> set (w @ c_string s)" using Cons.prems(1) by (auto simp: c_string_def dest: set_takeWhileD)
    moreover have "take (Suc (length (w @ c_string s))) ?b = (w @ c_string s) @ [0]" using st(1) len by simp
    ultimately show ?thesis
      using Cons.IH [of "w @ c_string s" ?b] Cons.prems(3) Some st(2) len by (simp add: map_filter_simps add.assoc)
  qed
qed

text \<open>
  \<open>ERR_add_error_data\<close> attaches the concatenation of its non-NULL strings to the
  newest error: with memory for them and no suppression, the newest queued error's data is
  the concatenated text with its terminating NUL, the buffer is exactly that long, and no
  other error changes.
\<close>

theorem ERR_add_error_data_concat:
  assumes "err_wf st" "err_queue st \<noteq> []" "err_suppress st = 0" "al_total al"
    and "sum_list (map strlen (List.map_filter id args)) < SIZE_MAX"
  shows "\<exists>st' data. ERR_add_error_data al ok args (Some st) = Some st' \<and> err_wf st' \<and>
    data = concat (map (takeWhile (\<lambda>c. c \<noteq> 0)) (List.map_filter id args)) @ [0] \<and>
    err_queue st' = butlast (err_queue st) @ [(last (err_queue st))\<lparr>err_data := Some data\<rparr>]"
proof -
  let ?n = "sum_list (map strlen (List.map_filter id args))"
  have c: "c_string = takeWhile (\<lambda>c. c \<noteq> 0)" by (simp add: c_string_def fun_eq_iff)
  obtain f where f: "al (?n + 1) = Some f" using assms(4) by blast
  let ?buf = "(map f [0..<?n + 1])[0 := 0]"
  have "take (Suc ?n) (vdata_fill args (length ?buf) ?buf) = concat (map c_string (List.map_filter id args)) @ [0] \<and>
      length (vdata_fill args (length ?buf) ?buf) = length ?buf"
    using vdata_fill_spec [of "[]" ?buf args] by (simp add: take_Suc_conv_app_nth)
  then have d: "vdata_fill args (?n + 1) ?buf = concat (map c_string (List.map_filter id args)) @ [0]"
    using take_all [of "vdata_fill args (length ?buf) ?buf" "Suc ?n"] by (simp del: upt_Suc)
  have "vdata_size args 0 = Some ?n" using vdata_size_eq [of 0 args] assms(5) by simp
  then have "ERR_add_error_data al ok args (Some st) =
      err_set_error_data ok (concat (map c_string (List.map_filter id args)) @ [0]) (Some st)"
    using assms(5) f d by (simp add: ERR_add_error_data_def err_add_error_vdata_def Let_def)
  with set_error_data_queue [OF assms(1)] assms(2,3) show ?thesis
    by (simp add: err_set_error_data_def err_get_state_def queue_map_last_def c)
qed

theorem ERR_add_error_data_concat_witness:
  "\<exists>st'. ERR_add_error_data (\<lambda>_. Some (\<lambda>_. 9)) True [Some [65], None, Some [66, 67]]
      (Some (put_error 0 4 1 None 7 err_state_zero)) = Some st' \<and>
    err_queue st' = [(new_error 4 1 None 7)\<lparr>err_data := Some [65, 66, 67, 0]\<rparr>]"
proof -
  let ?st = "put_error 0 4 1 None 7 err_state_zero"
  have z: "err_wf err_state_zero" "err_suppress err_state_zero = 0" "err_queue err_state_zero = []"
    by (simp_all add: err_state_zero_def err_wf_def err_queue_def ring_len_def)
  then have q: "err_wf ?st" "err_suppress ?st = 0" "err_queue ?st = [new_error 4 1 None 7]"
    using put_error_queue [OF z(1), of 0 4 1 None 7] by (simp_all add: queue_put_def)
  show ?thesis
    using ERR_add_error_data_concat [of ?st "\<lambda>_. Some (\<lambda>_. 9)" "[Some [65], None, Some [66, 67]]" True] q
    by (auto simp: map_filter_simps strlen_def)
qed

end
