(* ===== verification/Stack.thy ===== *)
theory Stack
  imports Mem
begin

text \<open>
  The pointer stack of \<^verbatim>\<open>crypto/stack/stack.c\<close>. A \<open>void *\<close> is a value of type
  \<open>'p option\<close>, \<open>None\<close> for NULL. A comparison function is identified by a value of type
  \<open>'c\<close>, and \<open>call_cmp\<close> calls it, as the typed wrappers' \<open>call_cmp_func\<close> does. The
  stack handle is \<open>'p stack option\<close>, \<open>None\<close> for a NULL stack. Array slots that
  \<open>realloc\<close> adds hold unspecified values, given by \<open>fresh\<close>; a pointer has 8 bytes.
\<close>

type_synonym 'p ptr = "'p option"

record ('p, 'c) stack_st =
  sk_num :: nat
  sk_data :: "'p option list"
  sk_sorted :: bool
  sk_num_alloc :: nat
  sk_comp :: "'c option"

abbreviation kMinSize :: nat where "kMinSize \<equiv> 4"

text \<open>An \<open>OPENSSL_STACK\<close> itself has 40 bytes.\<close>

definition OPENSSL_sk_new :: "allocator \<Rightarrow> 'c option \<Rightarrow> ('p, 'c) stack_st option" where
  "OPENSSL_sk_new al cmp =
     (case OPENSSL_zalloc al 40 of
        None \<Rightarrow> None
      | Some _ \<Rightarrow>
          (case OPENSSL_calloc al kMinSize 8 of
             None \<Rightarrow> None
           | Some _ \<Rightarrow>
               Some \<lparr>sk_num = 0, sk_data = replicate kMinSize None, sk_sorted = False, sk_num_alloc = kMinSize, sk_comp = cmp\<rparr>))"

definition OPENSSL_sk_new_null :: "allocator \<Rightarrow> ('p, 'c) stack_st option" where
  "OPENSSL_sk_new_null al = OPENSSL_sk_new al None"

definition OPENSSL_sk_num :: "('p, 'c) stack_st option \<Rightarrow> nat" where
  "OPENSSL_sk_num sk = (case sk of None \<Rightarrow> 0 | Some s \<Rightarrow> sk_num s)"

definition OPENSSL_sk_zero :: "('p, 'c) stack_st option \<Rightarrow> ('p, 'c) stack_st option" where
  "OPENSSL_sk_zero sk =
     (case sk of
        None \<Rightarrow> None
      | Some s \<Rightarrow>
          if sk_num s = 0 then Some s
          else Some (s\<lparr>sk_data := buf_write (sk_data s) 0 (replicate (sk_num s) None), sk_num := 0, sk_sorted := False\<rparr>))"

definition OPENSSL_sk_value :: "('p, 'c) stack_st option \<Rightarrow> nat \<Rightarrow> 'p ptr" where
  "OPENSSL_sk_value sk i =
     (case sk of None \<Rightarrow> None | Some s \<Rightarrow> if i \<ge> sk_num s then None else sk_data s ! i)"

definition OPENSSL_sk_set :: "nat \<Rightarrow> 'p ptr \<Rightarrow> ('p, 'c) stack_st option \<Rightarrow> 'p ptr \<times> ('p, 'c) stack_st option" where
  "OPENSSL_sk_set i value sk =
     (case sk of
        None \<Rightarrow> (None, None)
      | Some s \<Rightarrow> if i \<ge> sk_num s then (None, Some s)
                  else (value, Some (s\<lparr>sk_data := (sk_data s)[i := value]\<rparr>)))"

text \<open>The pointers \<open>free_func\<close> is called on, in order.\<close>

definition OPENSSL_sk_pop_free_ex :: "('p, 'c) stack_st option \<Rightarrow> 'p list" where
  "OPENSSL_sk_pop_free_ex sk =
     (case sk of
        None \<Rightarrow> []
      | Some s \<Rightarrow> concat (map (\<lambda>i. case sk_data s ! i of None \<Rightarrow> [] | Some p \<Rightarrow> [p]) [0..<sk_num s]))"

definition sk_realloc :: "allocator \<Rightarrow> (nat \<Rightarrow> 'p ptr) \<Rightarrow> 'p ptr list \<Rightarrow> nat \<Rightarrow> nat \<Rightarrow> 'p ptr list option" where
  "sk_realloc al fresh data new_alloc alloc_size =
     (case OPENSSL_malloc al alloc_size of
        None \<Rightarrow> None
      | Some _ \<Rightarrow> Some (map (\<lambda>i. if i < length data then data ! i else fresh i) [0..<new_alloc]))"

definition OPENSSL_sk_insert ::
  "allocator \<Rightarrow> (nat \<Rightarrow> 'p ptr) \<Rightarrow> 'p ptr \<Rightarrow> nat \<Rightarrow> ('p, 'c) stack_st option \<Rightarrow> nat \<times> ('p, 'c) stack_st option" where
  "OPENSSL_sk_insert al fresh p pos sk =
     (case sk of
        None \<Rightarrow> (0, None)
      | Some s \<Rightarrow>
          if sk_num s \<ge> INT_MAX then (0, Some s)
          else let grown =
                 (if sk_num_alloc s \<le> sk_num s + 1
                  then let new_alloc = size_mul (sk_num_alloc s) 2;
                           alloc_size = size_mul new_alloc 8;
                           retry = (new_alloc < sk_num_alloc s \<or> alloc_size div 8 \<noteq> new_alloc);
                           new_alloc = (if retry then size_add (sk_num_alloc s) 1 else new_alloc);
                           alloc_size = (if retry then size_mul new_alloc 8 else alloc_size)
                       in if new_alloc < sk_num_alloc s \<or> alloc_size div 8 \<noteq> new_alloc then None
                          else case sk_realloc al fresh (sk_data s) new_alloc alloc_size of
                                 None \<Rightarrow> None
                               | Some data \<Rightarrow> Some (s\<lparr>sk_data := data, sk_num_alloc := new_alloc\<rparr>)
                  else Some s)
               in case grown of
                    None \<Rightarrow> (0, Some s)
                  | Some s \<Rightarrow>
                      (let num = sk_num s; data = sk_data s;
                           data = (if pos \<ge> num then data[num := p]
                                   else (buf_write data (pos + 1) (take (num - pos) (drop pos data)))[pos := p])
                       in (num + 1, Some (s\<lparr>sk_data := data, sk_num := num + 1, sk_sorted := False\<rparr>))))"

definition OPENSSL_sk_delete :: "nat \<Rightarrow> ('p, 'c) stack_st option \<Rightarrow> 'p ptr \<times> ('p, 'c) stack_st option" where
  "OPENSSL_sk_delete pos sk =
     (case sk of
        None \<Rightarrow> (None, None)
      | Some s \<Rightarrow>
          if pos \<ge> sk_num s then (None, Some s)
          else let data = sk_data s; num = sk_num s;
                   data' = (if pos \<noteq> num - 1
                            then buf_write data pos (take (num - pos - 1) (drop (pos + 1) data)) else data)
               in (data ! pos, Some (s\<lparr>sk_data := data', sk_num := num - 1\<rparr>)))"

fun sk_index :: "('p ptr \<Rightarrow> bool) \<Rightarrow> 'p ptr list \<Rightarrow> nat \<Rightarrow> nat \<Rightarrow> nat option" where
  "sk_index P data i 0 = None"
| "sk_index P data i (Suc n) = (if P (data ! i) then Some i else sk_index P data (Suc i) n)"

definition OPENSSL_sk_delete_ptr :: "'p ptr \<Rightarrow> ('p, 'c) stack_st option \<Rightarrow> 'p ptr \<times> ('p, 'c) stack_st option" where
  "OPENSSL_sk_delete_ptr p sk =
     (case sk of
        None \<Rightarrow> (None, None)
      | Some s \<Rightarrow>
          (case sk_index (\<lambda>q. q = p) (sk_data s) 0 (sk_num s) of
             None \<Rightarrow> (None, Some s)
           | Some i \<Rightarrow> OPENSSL_sk_delete i (Some s)))"

text \<open>The loop of \<open>OPENSSL_sk_delete_if\<close> from index \<open>i\<close> on, with \<open>n\<close> elements left.\<close>

fun sk_compact :: "('p ptr \<Rightarrow> bool) \<Rightarrow> nat \<Rightarrow> nat \<Rightarrow> nat \<Rightarrow> 'p ptr list \<Rightarrow> nat \<times> 'p ptr list" where
  "sk_compact func i 0 new_num data = (new_num, data)"
| "sk_compact func i (Suc n) new_num data =
     (if \<not> func (data ! i) then sk_compact func (Suc i) n (new_num + 1) (data[new_num := data ! i])
      else sk_compact func (Suc i) n new_num data)"

definition OPENSSL_sk_delete_if :: "('p ptr \<Rightarrow> bool) \<Rightarrow> ('p, 'c) stack_st option \<Rightarrow> ('p, 'c) stack_st option" where
  "OPENSSL_sk_delete_if func sk =
     (case sk of
        None \<Rightarrow> None
      | Some s \<Rightarrow>
          (case sk_compact func 0 (sk_num s) 0 (sk_data s) of
             (new_num, data) \<Rightarrow> Some (s\<lparr>sk_data := data, sk_num := new_num\<rparr>)))"

definition OPENSSL_sk_is_sorted :: "('p, 'c) stack_st option \<Rightarrow> bool" where
  "OPENSSL_sk_is_sorted sk =
     (case sk of None \<Rightarrow> True | Some s \<Rightarrow> sk_sorted s \<or> (sk_comp s \<noteq> None \<and> sk_num s < 2))"

text \<open>The binary search; \<open>r i\<close> is the comparison of the key with element \<open>i\<close>.\<close>

function sk_bsearch :: "(nat \<Rightarrow> int) \<Rightarrow> nat \<Rightarrow> nat \<Rightarrow> nat option" where
  "sk_bsearch r lo hi =
     (if lo < hi
      then let mid = lo + (hi - lo - 1) div 2
           in if r mid > 0 then sk_bsearch r (mid + 1) hi
              else if r mid < 0 then sk_bsearch r lo mid
              else if hi - lo = 1 then Some mid
              else sk_bsearch r lo (mid + 1)
      else None)"
  by pat_completeness auto
termination
  by (relation "measure (\<lambda>(r, lo, hi). hi - lo)") auto

declare sk_bsearch.simps [simp del]

definition OPENSSL_sk_find :: "('c \<Rightarrow> 'p ptr \<Rightarrow> 'p ptr \<Rightarrow> int) \<Rightarrow> 'p ptr \<Rightarrow> ('p, 'c) stack_st option \<Rightarrow> nat option" where
  "OPENSSL_sk_find call_cmp p sk =
     (case sk of
        None \<Rightarrow> None
      | Some s \<Rightarrow>
          (case sk_comp s of
             None \<Rightarrow> sk_index (\<lambda>q. q = p) (sk_data s) 0 (sk_num s)
           | Some cmp \<Rightarrow>
               (if p = None then None
                else if \<not> OPENSSL_sk_is_sorted sk
                then sk_index (\<lambda>q. call_cmp cmp p q = 0) (sk_data s) 0 (sk_num s)
                else sk_bsearch (\<lambda>i. call_cmp cmp p (sk_data s ! i)) 0 (sk_num s))))"

definition OPENSSL_sk_unshift ::
  "allocator \<Rightarrow> (nat \<Rightarrow> 'p ptr) \<Rightarrow> 'p ptr \<Rightarrow> ('p, 'c) stack_st option \<Rightarrow> nat \<times> ('p, 'c) stack_st option" where
  "OPENSSL_sk_unshift al fresh data sk = OPENSSL_sk_insert al fresh data 0 sk"

definition OPENSSL_sk_shift :: "('p, 'c) stack_st option \<Rightarrow> 'p ptr \<times> ('p, 'c) stack_st option" where
  "OPENSSL_sk_shift sk =
     (case sk of None \<Rightarrow> (None, None) | Some s \<Rightarrow> if sk_num s = 0 then (None, Some s) else OPENSSL_sk_delete 0 (Some s))"

text \<open>\<open>OPENSSL_sk_push\<close> reads \<open>sk->num\<close>, so it is only called on a stack that is not NULL.\<close>

definition OPENSSL_sk_push ::
  "allocator \<Rightarrow> (nat \<Rightarrow> 'p ptr) \<Rightarrow> 'p ptr \<Rightarrow> ('p, 'c) stack_st \<Rightarrow> nat \<times> ('p, 'c) stack_st option" where
  "OPENSSL_sk_push al fresh p s = OPENSSL_sk_insert al fresh p (sk_num s) (Some s)"

definition OPENSSL_sk_pop :: "('p, 'c) stack_st option \<Rightarrow> 'p ptr \<times> ('p, 'c) stack_st option" where
  "OPENSSL_sk_pop sk =
     (case sk of
        None \<Rightarrow> (None, None)
      | Some s \<Rightarrow> if sk_num s = 0 then (None, Some s) else OPENSSL_sk_delete (sk_num s - 1) (Some s))"

definition OPENSSL_sk_dup :: "allocator \<Rightarrow> ('p, 'c) stack_st option \<Rightarrow> ('p, 'c) stack_st option" where
  "OPENSSL_sk_dup al sk =
     (case sk of
        None \<Rightarrow> None
      | Some s \<Rightarrow>
          (case OPENSSL_zalloc al 40 of
             None \<Rightarrow> None
           | Some _ \<Rightarrow>
               if size_mul 8 (sk_num_alloc s) = 0 then None
               else (case OPENSSL_malloc al (size_mul 8 (sk_num_alloc s)) of
                       None \<Rightarrow> None
                     | Some _ \<Rightarrow>
                         Some \<lparr>sk_num = sk_num s, sk_data = take (sk_num_alloc s) (sk_data s), sk_sorted = sk_sorted s,
                               sk_num_alloc = sk_num_alloc s, sk_comp = sk_comp s\<rparr>)))"

text \<open>\<open>qsort\<close> is the C library's sorting routine.\<close>

definition OPENSSL_sk_sort ::
  "(('p ptr \<Rightarrow> 'p ptr \<Rightarrow> int) \<Rightarrow> 'p ptr list \<Rightarrow> 'p ptr list) \<Rightarrow> ('c \<Rightarrow> 'p ptr \<Rightarrow> 'p ptr \<Rightarrow> int) \<Rightarrow>
   ('p, 'c) stack_st option \<Rightarrow> ('p, 'c) stack_st option" where
  "OPENSSL_sk_sort qsort call_cmp sk =
     (case sk of
        None \<Rightarrow> None
      | Some s \<Rightarrow>
          (case sk_comp s of
             None \<Rightarrow> Some s
           | Some cmp \<Rightarrow>
               if sk_sorted s then Some s
               else let s = (if sk_num s \<ge> 2
                             then s\<lparr>sk_data := buf_write (sk_data s) 0 (qsort (call_cmp cmp) (take (sk_num s) (sk_data s)))\<rparr>
                             else s)
                    in Some (s\<lparr>sk_sorted := True\<rparr>)))"

definition OPENSSL_sk_set_cmp_func :: "'c option \<Rightarrow> ('p, 'c) stack_st \<Rightarrow> 'c option \<times> ('p, 'c) stack_st" where
  "OPENSSL_sk_set_cmp_func cmp s =
     (sk_comp s, (if sk_comp s \<noteq> cmp then s\<lparr>sk_sorted := False\<rparr> else s)\<lparr>sk_comp := cmp\<rparr>)"

text \<open>
  The copy loop of \<open>OPENSSL_sk_deep_copy\<close>: the result is the copied array, or \<open>None\<close>
  with the list of copies that were freed when \<open>copy_func\<close> failed.
\<close>

fun sk_copy_loop :: "('p \<Rightarrow> 'p ptr) \<Rightarrow> nat \<Rightarrow> nat \<Rightarrow> 'p ptr list \<Rightarrow> 'p list + 'p ptr list" where
  "sk_copy_loop copy_func i 0 data = Inr data"
| "sk_copy_loop copy_func i (Suc n) data =
     (case data ! i of
        None \<Rightarrow> sk_copy_loop copy_func (Suc i) n data
      | Some q \<Rightarrow>
          (case copy_func q of
             None \<Rightarrow> Inl (concat (map (\<lambda>j. case data ! j of None \<Rightarrow> [] | Some x \<Rightarrow> [x]) [0..<i]))
           | Some c \<Rightarrow> sk_copy_loop copy_func (Suc i) n (data[i := Some c])))"

definition OPENSSL_sk_deep_copy ::
  "allocator \<Rightarrow> ('p \<Rightarrow> 'p ptr) \<Rightarrow> ('p, 'c) stack_st option \<Rightarrow> 'p list \<times> ('p, 'c) stack_st option" where
  "OPENSSL_sk_deep_copy al copy_func sk =
     (case OPENSSL_sk_dup al sk of
        None \<Rightarrow> ([], None)
      | Some ret \<Rightarrow>
          (case sk_copy_loop copy_func 0 (sk_num ret) (sk_data ret) of
             Inl freed \<Rightarrow> (freed, None)
           | Inr data \<Rightarrow> ([], Some (ret\<lparr>sk_data := data\<rparr>))))"

end
