(* ===== verification/StackProps.thy ===== *)
theory StackProps
  imports Stack "HOL-Library.Multiset"
begin

text \<open>
  The pointer stack refines a list: \<open>sk_list\<close> is the list of the first \<open>num\<close> pointers.
  Insertion, deletion, filtering and sorting are the list operations, and searching a sorted
  stack by bisection finds what a linear search finds.
\<close>

section \<open>Abstraction and invariant\<close>

definition sk_list :: "('p, 'c) stack_st \<Rightarrow> 'p ptr list" where
  "sk_list s = take (sk_num s) (sk_data s)"

definition sk_wf :: "('p, 'c) stack_st \<Rightarrow> bool" where
  "sk_wf s \<longleftrightarrow> length (sk_data s) = sk_num_alloc s \<and> sk_num s < sk_num_alloc s \<and> sk_num s \<le> INT_MAX \<and>
     sk_num_alloc s \<le> 2 ^ 33"

lemma length_sk_list [simp]: "sk_wf s \<Longrightarrow> length (sk_list s) = sk_num s"
  by (simp add: sk_list_def sk_wf_def)

lemma nth_sk_list [simp]: "sk_wf s \<Longrightarrow> i < sk_num s \<Longrightarrow> sk_list s ! i = sk_data s ! i"
  by (simp add: sk_list_def)

definition list_insert :: "'a \<Rightarrow> nat \<Rightarrow> 'a list \<Rightarrow> 'a list" where
  "list_insert x i xs = take i xs @ x # drop i xs"

definition list_delete :: "nat \<Rightarrow> 'a list \<Rightarrow> 'a list" where
  "list_delete i xs = take i xs @ drop (Suc i) xs"

section \<open>Insertion\<close>

lemma sk_realloc_Some:
  assumes "sk_realloc al fresh data n sz = Some data'" "length data \<le> n"
  shows "length data' = n \<and> take (length data) data' = data"
  using assms by (auto simp: sk_realloc_def split: option.splits intro!: nth_equalityI)

text \<open>The array after the growth step holds the same elements and has a free slot.\<close>

definition sk_grow :: "allocator \<Rightarrow> (nat \<Rightarrow> 'p ptr) \<Rightarrow> ('p, 'c) stack_st \<Rightarrow> ('p, 'c) stack_st option" where
  "sk_grow al fresh s =
     (if sk_num_alloc s \<le> sk_num s + 1
      then (case sk_realloc al fresh (sk_data s) (sk_num_alloc s * 2) (sk_num_alloc s * 16) of
              None \<Rightarrow> None | Some data \<Rightarrow> Some (s\<lparr>sk_data := data, sk_num_alloc := sk_num_alloc s * 2\<rparr>))
      else Some s)"

lemma sk_insert_alt:
  assumes wf: "sk_wf s"
  shows "OPENSSL_sk_insert al fresh p pos (Some s) =
    (if sk_num s \<ge> INT_MAX then (0, Some s)
     else case sk_grow al fresh s of
            None \<Rightarrow> (0, Some s)
          | Some s \<Rightarrow>
              (let num = sk_num s; data = sk_data s;
                   data = (if pos \<ge> num then data[num := p]
                           else (buf_write data (pos + 1) (take (num - pos) (drop pos data)))[pos := p])
               in (num + 1, Some (s\<lparr>sk_data := data, sk_num := num + 1, sk_sorted := False\<rparr>))))"
proof -
  have m: "size_mul (sk_num_alloc s) 2 = sk_num_alloc s * 2"
    using wf by (intro size_mul_exact) (simp add: sk_wf_def)
  have m2: "size_mul (sk_num_alloc s * 2) 8 = sk_num_alloc s * 16"
    using wf by (subst size_mul_exact) (simp_all add: sk_wf_def)
  have "sk_num_alloc s * 16 div 8 = sk_num_alloc s * 2" by simp
  then show ?thesis
    by (cases "sk_realloc al fresh (sk_data s) (sk_num_alloc s * 2) (sk_num_alloc s * 16)")
      (simp_all add: OPENSSL_sk_insert_def sk_grow_def Let_def m m2)
qed

lemma sk_grow_Some:
  assumes "sk_wf s" "sk_grow al fresh s = Some s'"
  shows "length (sk_data s') = sk_num_alloc s' \<and> sk_num s' = sk_num s \<and> sk_num s + 1 < sk_num_alloc s' \<and>
    sk_list s' = sk_list s \<and> sk_comp s' = sk_comp s \<and>
    (sk_num s < INT_MAX \<longrightarrow> sk_num_alloc s' \<le> 2 ^ 33)"
proof (cases "sk_num_alloc s \<le> sk_num s + 1")
  case False
  with assms show ?thesis by (simp add: sk_grow_def sk_wf_def)
next
  case True
  with assms obtain data where d: "sk_realloc al fresh (sk_data s) (sk_num_alloc s * 2) (sk_num_alloc s * 16) = Some data"
    and s': "s' = s\<lparr>sk_data := data, sk_num_alloc := sk_num_alloc s * 2\<rparr>"
    by (auto simp: sk_grow_def split: option.splits)
  from sk_realloc_Some [OF d] assms(1)
  have "length data = sk_num_alloc s * 2" "take (sk_num_alloc s) data = sk_data s" by (simp_all add: sk_wf_def)
  moreover have "take (sk_num s) data = take (sk_num s) (take (sk_num_alloc s) data)"
    using assms(1) by (simp add: sk_wf_def min_def)
  ultimately show ?thesis using True assms(1) by (auto simp: s' sk_wf_def sk_list_def)
qed

lemma take_insert_middle:
  assumes "pos < n" "n < length data"
  shows "take (Suc n) ((buf_write data (Suc pos) (take (n - pos) (drop pos data)))[pos := x]) = list_insert x pos (take n data)"
proof (rule nth_equalityI)
  let ?d = "(buf_write data (Suc pos) (take (n - pos) (drop pos data)))[pos := x]"
  have l: "length ?d = length data" using assms by (simp add: buf_write_def)
  then show "length (take (Suc n) ?d) = length (list_insert x pos (take n data))"
    using assms by (simp add: list_insert_def)
  fix i assume "i < length (take (Suc n) ?d)"
  then have i: "i \<le> n" using assms l by simp
  consider "i < pos" | "i = pos" | "pos < i" by linarith
  then show "take (Suc n) ?d ! i = list_insert x pos (take n data) ! i"
    using i assms l by cases (auto simp: buf_write_def list_insert_def nth_append nth_list_update nth_Cons' min_def)
qed

lemma take_update_end: "n < length data \<Longrightarrow> take (Suc n) (data[n := x]) = take n data @ [x]"
  by (simp add: take_Suc_conv_app_nth)

lemma sk_insert_refines:
  assumes "sk_wf s" "OPENSSL_sk_insert al fresh p pos (Some s) = (r, Some s')" "r \<noteq> 0"
  shows "r = sk_num s' \<and> sk_wf s' \<and> \<not> sk_sorted s' \<and> sk_list s' = list_insert p (min pos (sk_num s)) (sk_list s)"
proof -
  from assms obtain g where g: "sk_grow al fresh s = Some g" and lt: "sk_num s < INT_MAX"
    by (auto simp: sk_insert_alt split: if_splits option.splits)
  note gr = sk_grow_Some [OF assms(1) g]
  let ?n = "sk_num s"
  define data where "data = (if pos \<ge> ?n then (sk_data g)[?n := p]
       else (buf_write (sk_data g) (pos + 1) (take (?n - pos) (drop pos (sk_data g))))[pos := p])"
  have s': "s' = g\<lparr>sk_data := data, sk_num := ?n + 1, sk_sorted := False\<rparr>" "r = ?n + 1"
    using assms(2) g lt gr by (auto simp: sk_insert_alt [OF assms(1)] data_def Let_def)
  have "take (Suc ?n) data = list_insert p (min pos ?n) (take ?n (sk_data g))"
  proof (cases "pos \<ge> ?n")
    case True
    with gr show ?thesis by (simp add: data_def take_update_end list_insert_def min_def)
  next
    case False
    with gr show ?thesis using take_insert_middle [of pos ?n "sk_data g" p] by (simp add: data_def min_def)
  qed
  moreover have "length data = length (sk_data g)" using gr by (auto simp: data_def buf_write_def)
  moreover have "sk_num g = ?n" "take (sk_num g) (sk_data g) = sk_list s" using gr by (auto simp: sk_list_def)
  then have "take ?n (sk_data g) = sk_list s" by simp
  ultimately show ?thesis using gr lt by (simp add: s' sk_wf_def sk_list_def [of "g\<lparr>sk_data := _, sk_num := _, sk_sorted := _\<rparr>"])
qed

lemma sk_insert_total:
  assumes "sk_wf s" "sk_num s < INT_MAX" "al_total al"
  shows "\<exists>s'. OPENSSL_sk_insert al fresh p pos (Some s) = (sk_num s + 1, Some s')"
proof -
  have "sk_num_alloc s * 16 + 8 \<le> SIZE_MAX" using assms(1) by (simp add: sk_wf_def)
  then obtain q where "OPENSSL_malloc al (sk_num_alloc s * 16) = Some q" using OPENSSL_malloc_total [OF assms(3)] by blast
  then obtain g where g: "sk_grow al fresh s = Some g" by (cases "sk_num_alloc s \<le> sk_num s + 1") (auto simp: sk_grow_def sk_realloc_def)
  then have "sk_num g = sk_num s" using sk_grow_Some [OF assms(1)] by simp
  with g assms(2) show ?thesis by (simp add: sk_insert_alt [OF assms(1)] Let_def)
qed

lemma sk_insert_fails:
  assumes "sk_wf s" "OPENSSL_sk_insert al fresh p pos (Some s) = (0, sk')"
  shows "sk' = Some s"
  using assms by (auto simp: sk_insert_alt Let_def split: if_splits option.splits)

section \<open>Deletion\<close>

lemma sk_delete_refines:
  assumes "sk_wf s" "i < sk_num s"
  shows "\<exists>s'. OPENSSL_sk_delete i (Some s) = (sk_list s ! i, Some s') \<and> sk_wf s' \<and>
    sk_sorted s' = sk_sorted s \<and> sk_comp s' = sk_comp s \<and> sk_list s' = list_delete i (sk_list s)"
proof -
  let ?n = "sk_num s" and ?d = "sk_data s"
  let ?d' = "if i \<noteq> ?n - 1 then buf_write ?d i (take (?n - i - 1) (drop (i + 1) ?d)) else ?d"
  have len: "?n < length ?d" using assms by (simp add: sk_wf_def)
  have "take (?n - 1) ?d' = list_delete i (take ?n ?d)"
  proof (rule nth_equalityI)
    show "length (take (?n - 1) ?d') = length (list_delete i (take ?n ?d))"
      using assms len by (auto simp: list_delete_def buf_write_def)
    fix k assume "k < length (take (?n - 1) ?d')"
    then have "k < ?n - 1" by simp
    then show "take (?n - 1) ?d' ! k = list_delete i (take ?n ?d) ! k"
      using assms len by (auto simp: list_delete_def buf_write_def nth_append min_def)
  qed
  moreover have "length ?d' = length ?d" using assms len by (auto simp: buf_write_def)
  moreover have "?n - 1 < sk_num_alloc s" "?n - 1 \<le> INT_MAX" using assms by (auto simp: sk_wf_def)
  ultimately show ?thesis
    using assms by (simp add: OPENSSL_sk_delete_def Let_def sk_wf_def sk_list_def)
qed

lemma sk_compact_spec:
  assumes "new \<le> i" "i + n \<le> length data" "sk_compact func i n new data = (new', data')"
  shows "new' = new + length (filter (\<lambda>q. \<not> func q) (take n (drop i data))) \<and> length data' = length data \<and>
    take new' data' = take new data @ filter (\<lambda>q. \<not> func q) (take n (drop i data))"
  using assms
proof (induction n arbitrary: i new data)
  case (Suc n)
  have d: "take (Suc n) (drop i data) = data ! i # take n (drop (Suc i) data)"
    using Suc.prems Cons_nth_drop_Suc [of i data, symmetric] by simp
  show ?case
  proof (cases "func (data ! i)")
    case True
    with Suc.IH [of new "Suc i" data] Suc.prems show ?thesis by (auto simp: d)
  next
    case False
    let ?data = "data[new := data ! i]"
    have "drop (Suc i) ?data = drop (Suc i) data" using Suc.prems by simp
    moreover have "take (Suc new) ?data = take new data @ [data ! i]" using Suc.prems by (simp add: take_update_end)
    ultimately show ?thesis
      using False Suc.IH [of "Suc new" "Suc i" ?data] Suc.prems by (auto simp: d)
  qed
qed simp

lemma sk_delete_if_refines:
  assumes "sk_wf s"
  shows "\<exists>s'. OPENSSL_sk_delete_if func (Some s) = Some s' \<and> sk_wf s' \<and> sk_sorted s' = sk_sorted s \<and>
    sk_comp s' = sk_comp s \<and> sk_list s' = filter (\<lambda>q. \<not> func q) (sk_list s)"
proof -
  obtain n d where c: "sk_compact func 0 (sk_num s) 0 (sk_data s) = (n, d)" by fastforce
  from assms have "sk_num s \<le> length (sk_data s)" by (simp add: sk_wf_def)
  then have "n = length (filter (\<lambda>q. \<not> func q) (sk_list s))" "length d = length (sk_data s)"
      "take n d = filter (\<lambda>q. \<not> func q) (sk_list s)"
    using sk_compact_spec [OF _ _ c] by (auto simp: sk_list_def)
  moreover have "length (filter (\<lambda>q. \<not> func q) (sk_list s)) \<le> sk_num s"
    using length_filter_le [of "\<lambda>q. \<not> func q" "sk_list s"] assms by simp
  ultimately show ?thesis
    using assms by (simp add: OPENSSL_sk_delete_if_def c sk_wf_def sk_list_def [of "s\<lparr>sk_data := _, sk_num := _\<rparr>"])
qed

section \<open>Searching\<close>

lemma find_append: "find P (xs @ ys) = (case find P xs of None \<Rightarrow> find P ys | Some x \<Rightarrow> Some x)"
  by (induction xs) auto

lemma find_upt_split:
  assumes "lo \<le> m" "m \<le> hi"
  shows "find P [lo..<hi] = (case find P [lo..<m] of None \<Rightarrow> find P [m..<hi] | Some x \<Rightarrow> Some x)"
proof -
  have "[lo..<hi] = [lo..<m] @ [m..<hi]" using assms upt_add_eq_append [of lo m "hi - m"] by simp
  then show ?thesis by (simp add: find_append)
qed

lemma sk_index_find: "sk_index P data i n = find (\<lambda>j. P (data ! j)) [i..<i + n]"
proof (induction n arbitrary: i)
  case (Suc n)
  have "[i..<i + Suc n] = i # [Suc i..<Suc i + n]" by (simp add: upt_conv_Cons del: upt_Suc)
  then show ?case by (simp add: Suc.IH del: upt_Suc)
qed simp

text \<open>
  Bisection finds the first position where the comparison is zero, if the comparison results
  are positive, then zero, then negative.
\<close>

definition descending :: "(nat \<Rightarrow> int) \<Rightarrow> nat \<Rightarrow> nat \<Rightarrow> bool" where
  "descending r lo hi \<longleftrightarrow>
     (\<forall>i j. lo \<le> i \<and> i \<le> j \<and> j < hi \<longrightarrow> (r i \<le> 0 \<longrightarrow> r j \<le> 0) \<and> (r i < 0 \<longrightarrow> r j < 0))"

lemma descending_narrow: "descending r lo hi \<Longrightarrow> lo \<le> lo' \<Longrightarrow> hi' \<le> hi \<Longrightarrow> descending r lo' hi'"
  unfolding descending_def by (meson order.trans order.strict_trans2)

lemma descending_pos: "descending r lo hi \<Longrightarrow> lo \<le> i \<Longrightarrow> i \<le> j \<Longrightarrow> j < hi \<Longrightarrow> r j > 0 \<Longrightarrow> r i > 0"
  unfolding descending_def by (meson not_le)

lemma descending_neg: "descending r lo hi \<Longrightarrow> lo \<le> i \<Longrightarrow> i \<le> j \<Longrightarrow> j < hi \<Longrightarrow> r i < 0 \<Longrightarrow> r j < 0"
  unfolding descending_def by blast

lemma sk_bsearch_find:
  assumes "descending r lo hi"
  shows "sk_bsearch r lo hi = find (\<lambda>i. r i = 0) [lo..<hi]"
  using assms
proof (induction r lo hi rule: sk_bsearch.induct)
  case (1 r lo hi)
  note d = "1.prems"
  show ?case
  proof (cases "lo < hi")
    case False
    then show ?thesis by (simp add: sk_bsearch.simps [of r lo hi])
  next
    case lt: True
    define mid where "mid = lo + (hi - lo - 1) div 2"
    with lt have mid: "lo \<le> mid" "mid < hi" by auto
    have step: "sk_bsearch r lo hi =
        (if r mid > 0 then sk_bsearch r (mid + 1) hi else if r mid < 0 then sk_bsearch r lo mid
         else if hi - lo = 1 then Some mid else sk_bsearch r lo (mid + 1))"
      using lt unfolding sk_bsearch.simps [of r lo hi] mid_def Let_def by (rule if_P)
    consider "r mid > 0" | "r mid < 0" | "r mid = 0" "hi - lo = 1" | "r mid = 0" "hi - lo \<noteq> 1" by linarith
    then show ?thesis
    proof cases
      case 1
      have "r i > 0" if "lo \<le> i" "i < mid + 1" for i using descending_pos [OF d, of i mid] that mid 1 by simp
      then have "find (\<lambda>i. r i = 0) [lo..<mid + 1] = None" by (force simp: find_None_iff simp del: upt_Suc)
      moreover have "sk_bsearch r (mid + 1) hi = find (\<lambda>i. r i = 0) [mid + 1..<hi]"
        using mid by (intro "1.IH"(1) [OF lt mid_def 1] descending_narrow [OF d]) simp_all
      ultimately show ?thesis
        using mid 1 find_upt_split [of lo "mid + 1" hi "\<lambda>i. r i = 0"] by (simp add: step del: upt_Suc)
    next
      case 2
      have "r i < 0" if "mid \<le> i" "i < hi" for i using descending_neg [OF d, of mid i] that mid 2 by simp
      then have "find (\<lambda>i. r i = 0) [mid..<hi] = None" by (force simp: find_None_iff)
      moreover have "sk_bsearch r lo mid = find (\<lambda>i. r i = 0) [lo..<mid]"
        using mid 2 by (intro "1.IH"(2) [OF lt mid_def] descending_narrow [OF d]) simp_all
      ultimately show ?thesis
        using mid 2 find_upt_split [of lo mid hi "\<lambda>i. r i = 0"] by (simp add: step split: option.split)
    next
      case 3
      then have "mid = lo" by (simp add: mid_def)
      moreover have "[lo..<hi] = [lo]" using 3 lt by (simp add: upt_conv_Cons)
      ultimately show ?thesis using 3 by (simp add: step)
    next
      case 4
      have "mid \<in> set [lo..<mid + 1]" using mid by simp
      then have "find (\<lambda>i. r i = 0) [lo..<mid + 1] \<noteq> None"
        unfolding find_None_iff using 4(1) by blast
      moreover have "sk_bsearch r lo (mid + 1) = find (\<lambda>i. r i = 0) [lo..<mid + 1]"
        using mid 4 by (intro "1.IH"(3) [OF lt mid_def] descending_narrow [OF d]) simp_all
      ultimately show ?thesis
        using mid 4 find_upt_split [of lo "mid + 1" hi "\<lambda>i. r i = 0"] by (auto simp: step simp del: upt_Suc)
    qed
  qed
qed

definition sk_first_match :: "('p ptr \<Rightarrow> bool) \<Rightarrow> 'p ptr list \<Rightarrow> nat option" where
  "sk_first_match P xs = find (\<lambda>i. P (xs ! i)) [0..<length xs]"

definition sk_ok :: "('c \<Rightarrow> 'p ptr \<Rightarrow> 'p ptr \<Rightarrow> int) \<Rightarrow> ('p, 'c) stack_st \<Rightarrow> bool" where
  "sk_ok call_cmp s \<longleftrightarrow> sk_wf s \<and>
     (sk_sorted s \<longrightarrow> (\<exists>c. sk_comp s = Some c \<and> sorted_wrt (\<lambda>a b. call_cmp c a b \<le> 0) (sk_list s)))"

lemma find_cong_upt:
  assumes "\<And>i. i < n \<Longrightarrow> P i = Q i"
  shows "find P [0..<n] = find Q [0..<n]"
  by (rule find_cong) (use assms in auto)

lemma sk_find_pointer:
  assumes ok: "sk_ok call_cmp s" and c: "sk_comp s = None"
  shows "OPENSSL_sk_find call_cmp p (Some s) = sk_first_match (\<lambda>q. q = p) (sk_list s)"
proof -
  have wf: "sk_wf s" using ok by (simp add: sk_ok_def)
  have "sk_first_match (\<lambda>q. q = p) (sk_list s) = find (\<lambda>i. sk_data s ! i = p) [0..<sk_num s]"
    unfolding sk_first_match_def length_sk_list [OF wf] by (rule find_cong_upt) (use wf in simp)
  then show ?thesis using c by (simp add: OPENSSL_sk_find_def sk_index_find)
qed

lemma sk_find_first_match:
  assumes ok: "sk_ok call_cmp s" and c: "sk_comp s = Some c" and cmp: "comparator (call_cmp c)" and p: "p \<noteq> None"
  shows "OPENSSL_sk_find call_cmp p (Some s) = sk_first_match (\<lambda>q. call_cmp c p q = 0) (sk_list s)"
proof -
  have wf: "sk_wf s" using ok by (simp add: sk_ok_def)
  let ?r = "\<lambda>i. call_cmp c p (sk_data s ! i)"
  have spec: "sk_first_match (\<lambda>q. call_cmp c p q = 0) (sk_list s) = find (\<lambda>i. ?r i = 0) [0..<sk_num s]"
    unfolding sk_first_match_def length_sk_list [OF wf] by (rule find_cong_upt) (use wf in simp)
  show ?thesis
  proof (cases "OPENSSL_sk_is_sorted (Some s)")
    case False
    with c p show ?thesis unfolding spec by (auto simp: OPENSSL_sk_find_def sk_index_find)
  next
    case True
    have "sorted_wrt (\<lambda>a b. call_cmp c a b \<le> 0) (sk_list s)"
    proof (cases "sk_sorted s")
      case True
      with ok c show ?thesis by (auto simp: sk_ok_def)
    next
      case False
      with True have "length (sk_list s) < 2" using wf by (simp add: OPENSSL_sk_is_sorted_def)
      then show ?thesis by (cases "sk_list s") (auto simp: less_Suc_eq)
    qed
    note key = comparator.key_le [OF cmp this]
    have "sk_bsearch ?r 0 (sk_num s) = find (\<lambda>i. ?r i = 0) [0..<sk_num s]"
    proof (rule sk_bsearch_find)
      show "descending ?r 0 (sk_num s)"
        unfolding descending_def
      proof (intro allI impI)
        fix i j assume "0 \<le> i \<and> i \<le> j \<and> j < sk_num s"
        then show "(?r i \<le> 0 \<longrightarrow> ?r j \<le> 0) \<and> (?r i < 0 \<longrightarrow> ?r j < 0)" using key [of i j p] wf by simp
      qed
    qed
    with True c p show ?thesis unfolding spec by (auto simp: OPENSSL_sk_find_def)
  qed
qed

section \<open>Sorting and copying\<close>

lemma sk_sort_refines:
  assumes wf: "sk_wf s" and c: "sk_comp s = Some c" "\<not> sk_sorted s"
    and qsort: "mset (qsort (call_cmp c) (sk_list s)) = mset (sk_list s)"
      "sorted_wrt (\<lambda>a b. call_cmp c a b \<le> 0) (qsort (call_cmp c) (sk_list s))"
  shows "\<exists>s'. OPENSSL_sk_sort qsort call_cmp (Some s) = Some s' \<and> sk_wf s' \<and> sk_sorted s' \<and> sk_comp s' = Some c \<and>
    mset (sk_list s') = mset (sk_list s) \<and> sorted_wrt (\<lambda>a b. call_cmp c a b \<le> 0) (sk_list s')"
proof (cases "sk_num s \<ge> 2")
  case False
  then have "length (sk_list s) < 2" using wf by simp
  then have "sorted_wrt (\<lambda>a b. call_cmp c a b \<le> 0) (sk_list s)" by (cases "sk_list s") (auto simp: less_Suc_eq)
  with False wf c show ?thesis
    by (simp add: OPENSSL_sk_sort_def sk_wf_def sk_list_def)
next
  case True
  let ?q = "qsort (call_cmp c) (sk_list s)"
  have len: "length ?q = sk_num s" using qsort(1) wf by (metis size_mset length_sk_list)
  have n: "sk_num s \<le> length (sk_data s)" using wf by (simp add: sk_wf_def)
  then have "take (sk_num s) (buf_write (sk_data s) 0 ?q) = ?q"
    using take_buf_write_exact [of 0 "sk_data s" ?q] len by simp
  with True wf c qsort len n show ?thesis
    by (simp add: OPENSSL_sk_sort_def sk_wf_def sk_list_def)
qed

definition ptrs :: "'p ptr list \<Rightarrow> 'p list" where
  "ptrs xs = concat (map (\<lambda>x. case x of None \<Rightarrow> [] | Some p \<Rightarrow> [p]) xs)"

definition copies :: "('p \<Rightarrow> 'p ptr) \<Rightarrow> 'p ptr \<Rightarrow> bool" where
  "copies copy_func x \<longleftrightarrow> x = None \<or> Option.bind x copy_func \<noteq> None"

lemma ptrs_nth: "n \<le> length xs \<Longrightarrow> concat (map (\<lambda>j. case xs ! j of None \<Rightarrow> [] | Some x \<Rightarrow> [x]) [0..<n]) = ptrs (take n xs)"
proof -
  assume n: "n \<le> length xs"
  have "take n xs = map (\<lambda>j. xs ! j) [0..<n]" by (rule nth_equalityI) (use n in auto)
  then show ?thesis by (simp add: ptrs_def comp_def)
qed

lemma sk_pop_free_ptrs: "sk_wf s \<Longrightarrow> OPENSSL_sk_pop_free_ex (Some s) = ptrs (sk_list s)"
  by (simp add: OPENSSL_sk_pop_free_ex_def sk_list_def ptrs_nth sk_wf_def)

lemma sk_copy_loop_spec:
  assumes "n \<le> length rest"
  shows "sk_copy_loop copy (length pre) n (pre @ rest) =
    (if list_all (copies copy) (take n rest) then Inr (pre @ map (\<lambda>x. Option.bind x copy) (take n rest) @ drop n rest)
     else Inl (ptrs (pre @ map (\<lambda>x. Option.bind x copy) (takeWhile (copies copy) (take n rest)))))"
  using assms
proof (induction n arbitrary: pre rest)
  case (Suc n)
  then obtain x xs where rest: "rest = x # xs" "n \<le> length xs" by (cases rest) auto
  show ?case
  proof (cases "copies copy x")
    case True
    have "sk_copy_loop copy (length pre) (Suc n) (pre @ rest)
        = sk_copy_loop copy (Suc (length pre)) n ((pre @ [Option.bind x copy]) @ xs)"
      using True by (cases x) (auto simp: rest copies_def)
    with True rest Suc.IH [of xs "pre @ [Option.bind x copy]"] show ?thesis by simp
  next
    case False
    then obtain q where "x = Some q" "copy q = None" by (cases x) (auto simp: copies_def)
    with False show ?thesis using ptrs_nth [of "length pre" "pre @ rest"] by (simp add: rest)
  qed
qed simp

lemma sk_dup_total:
  assumes "sk_wf s" "al_total al"
  shows "\<exists>r. OPENSSL_sk_dup al (Some s) = Some r \<and> sk_wf r \<and> sk_data r = sk_data s \<and> sk_num r = sk_num s \<and>
    sk_sorted r = sk_sorted s \<and> sk_comp r = sk_comp s"
proof -
  have b: "0 < sk_num_alloc s" "sk_num_alloc s \<le> 2 ^ 33" using assms by (simp_all add: sk_wf_def)
  then have m: "size_mul 8 (sk_num_alloc s) = 8 * sk_num_alloc s" by (intro size_mul_exact) simp
  have "OPENSSL_malloc al (8 * sk_num_alloc s) \<noteq> None" "OPENSSL_zalloc al 40 \<noteq> None"
    using OPENSSL_malloc_total [OF assms(2), of "8 * sk_num_alloc s"] OPENSSL_malloc_total [OF assms(2), of 40] b
    by (auto simp: OPENSSL_zalloc_def split: option.splits)
  with b m assms show ?thesis by (auto simp: OPENSSL_sk_dup_def sk_wf_def)
qed

section \<open>Histories of a stack\<close>

lemma sk_new_Some:
  assumes "OPENSSL_sk_new al cmp = Some s"
  shows "sk_wf s \<and> sk_list s = [] \<and> \<not> sk_sorted s \<and> sk_comp s = cmp"
  using assms by (auto simp: OPENSSL_sk_new_def sk_wf_def sk_list_def split: option.splits)

lemma sk_zero_refines:
  assumes "sk_wf s" "OPENSSL_sk_zero (Some s) = Some s'"
  shows "sk_wf s' \<and> sk_list s' = [] \<and> sk_comp s' = sk_comp s \<and> (s' = s \<or> \<not> sk_sorted s')"
  using assms by (auto simp: OPENSSL_sk_zero_def sk_wf_def sk_list_def split: if_splits)

lemma sorted_wrt_list_delete: "sorted_wrt P xs \<Longrightarrow> sorted_wrt P (list_delete i xs)"
  using sorted_wrt_append [of P "take i xs" "drop i xs"] set_drop_subset_set_drop [of i "Suc i" xs]
  by (auto simp: list_delete_def sorted_wrt_append sorted_wrt_drop)

text \<open>
  The states a stack passes through: it is created, and any of the operations that change it
  or copy it is applied, in any order, with any allocator, except \<open>OPENSSL_sk_set\<close>. The operations
  push, pop, shift and unshift are calls of insert and delete. A deep copy takes part if its copies compare as
  the elements they are copies of under the comparison function of the stack.
\<close>

definition copies_compare :: "('p ptr \<Rightarrow> 'p ptr \<Rightarrow> int) \<Rightarrow> ('p \<Rightarrow> 'p ptr) \<Rightarrow> bool" where
  "copies_compare cmp copy_func \<longleftrightarrow> (\<forall>a b. copies copy_func a \<and> copies copy_func b \<longrightarrow>
     cmp (Option.bind a copy_func) (Option.bind b copy_func) = cmp a b)"

inductive stack_history ::
  "(('p ptr \<Rightarrow> 'p ptr \<Rightarrow> int) \<Rightarrow> 'p ptr list \<Rightarrow> 'p ptr list) \<Rightarrow> ('c \<Rightarrow> 'p ptr \<Rightarrow> 'p ptr \<Rightarrow> int) \<Rightarrow> ('p, 'c) stack_st \<Rightarrow> bool"
  for qsort call_cmp where
  sk_new: "OPENSSL_sk_new al cmp = Some s \<Longrightarrow> stack_history qsort call_cmp s"
| sk_insert: "stack_history qsort call_cmp s \<Longrightarrow> OPENSSL_sk_insert al fresh p pos (Some s) = (r, Some s') \<Longrightarrow>
    stack_history qsort call_cmp s'"
| sk_delete: "stack_history qsort call_cmp s \<Longrightarrow> OPENSSL_sk_delete i (Some s) = (q, Some s') \<Longrightarrow>
    stack_history qsort call_cmp s'"
| sk_delete_ptr: "stack_history qsort call_cmp s \<Longrightarrow> OPENSSL_sk_delete_ptr p (Some s) = (q, Some s') \<Longrightarrow>
    stack_history qsort call_cmp s'"
| sk_delete_if: "stack_history qsort call_cmp s \<Longrightarrow> OPENSSL_sk_delete_if func (Some s) = Some s' \<Longrightarrow>
    stack_history qsort call_cmp s'"
| sk_zero: "stack_history qsort call_cmp s \<Longrightarrow> OPENSSL_sk_zero (Some s) = Some s' \<Longrightarrow>
    stack_history qsort call_cmp s'"
| sk_sort: "stack_history qsort call_cmp s \<Longrightarrow> OPENSSL_sk_sort qsort call_cmp (Some s) = Some s' \<Longrightarrow>
    stack_history qsort call_cmp s'"
| sk_set_cmp: "stack_history qsort call_cmp s \<Longrightarrow> OPENSSL_sk_set_cmp_func cmp s = (old, s') \<Longrightarrow>
    stack_history qsort call_cmp s'"
| sk_dup: "stack_history qsort call_cmp s \<Longrightarrow> OPENSSL_sk_dup al (Some s) = Some s' \<Longrightarrow>
    stack_history qsort call_cmp s'"
| sk_deep_copy: "stack_history qsort call_cmp s \<Longrightarrow> OPENSSL_sk_deep_copy al copy_func (Some s) = (freed, Some s') \<Longrightarrow>
    (\<And>c. sk_comp s = Some c \<Longrightarrow> copies_compare (call_cmp c) copy_func) \<Longrightarrow> stack_history qsort call_cmp s'"

lemma sk_ok_unsorted: "sk_wf s \<Longrightarrow> \<not> sk_sorted s \<Longrightarrow> sk_ok call_cmp s"
  by (simp add: sk_ok_def)

lemma sk_ok_delete:
  assumes "sk_ok call_cmp s" "OPENSSL_sk_delete i (Some s) = (q, Some s')"
  shows "sk_ok call_cmp s'"
proof (cases "i < sk_num s")
  case False
  with assms show ?thesis by (simp add: OPENSSL_sk_delete_def)
next
  case True
  from assms(1) have "sk_wf s" by (simp add: sk_ok_def)
  from sk_delete_refines [OF this True] assms show ?thesis
    by (auto simp: sk_ok_def sorted_wrt_list_delete)
qed

lemma sk_ok_dup: "sk_ok call_cmp s \<Longrightarrow> OPENSSL_sk_dup al (Some s) = Some s' \<Longrightarrow>
    sk_ok call_cmp s' \<and> sk_comp s' = sk_comp s \<and> sk_num s' = sk_num s \<and> sk_data s' = sk_data s"
  by (auto simp: OPENSSL_sk_dup_def sk_ok_def sk_wf_def sk_list_def split: option.splits if_splits)

lemma sk_ok_deep_copy:
  assumes "sk_ok call_cmp s" "OPENSSL_sk_deep_copy al copy_func (Some s) = (freed, Some s')"
    and cmp: "\<And>c. sk_comp s = Some c \<Longrightarrow> copies_compare (call_cmp c) copy_func"
  shows "sk_ok call_cmp s'"
proof -
  from assms(2) obtain r ds where r: "OPENSSL_sk_dup al (Some s) = Some r" "sk_copy_loop copy_func 0 (sk_num r) (sk_data r) = Inr ds"
    "s' = r\<lparr>sk_data := ds\<rparr>" by (auto simp: OPENSSL_sk_deep_copy_def split: option.splits sum.splits)
  note d = sk_ok_dup [OF assms(1) r(1)]
  have n: "sk_num r \<le> length (sk_data r)" using d by (auto simp: sk_ok_def sk_wf_def)
  have l: "list_all (copies copy_func) (sk_list r)" "ds = map (\<lambda>x. Option.bind x copy_func) (sk_list r) @ drop (sk_num r) (sk_data r)"
    using sk_copy_loop_spec [OF n, of copy_func "[]"] r(2) by (auto simp: sk_list_def split: if_splits)
  then have "sk_list s' = map (\<lambda>x. Option.bind x copy_func) (sk_list r)" "length ds = length (sk_data r)"
    using n by (simp_all add: r(3) sk_list_def)
  moreover have "sorted_wrt (\<lambda>a b. call_cmp c (Option.bind a copy_func) (Option.bind b copy_func) \<le> 0) (sk_list r)"
    if "sorted_wrt (\<lambda>a b. call_cmp c a b \<le> 0) (sk_list r)" "sk_comp r = Some c" for c
    using that(1) cmp [of c] that(2) d l(1) unfolding copies_compare_def list_all_iff by (auto elim!: sorted_wrt_mono_rel [rotated])
  ultimately show ?thesis using d by (cases "sk_comp s") (auto simp: r(3) sk_ok_def sk_wf_def sorted_wrt_map)
qed

lemma stack_history_ok:
  assumes "stack_history qsort call_cmp s"
    and qsort: "\<And>c xs. mset (qsort (call_cmp c) xs) = mset xs"
      "\<And>c xs. sorted_wrt (\<lambda>a b. call_cmp c a b \<le> 0) (qsort (call_cmp c) xs)"
  shows "sk_ok call_cmp s"
  using assms(1)
proof induction
  case (sk_new al cmp s)
  then show ?case using sk_new_Some by (blast intro: sk_ok_unsorted)
next
  case (sk_insert s al fresh p pos r s')
  then have "sk_wf s" by (simp add: sk_ok_def)
  with sk_insert show ?case
    using sk_insert_fails [of s al fresh p pos] sk_insert_refines [of s al fresh p pos r s']
    by (cases "r = 0") (auto intro: sk_ok_unsorted)
next
  case (sk_delete s i q s')
  then show ?case by (blast intro: sk_ok_delete)
next
  case (sk_delete_ptr s p q s')
  then show ?case by (auto simp: OPENSSL_sk_delete_ptr_def intro: sk_ok_delete split: option.splits)
next
  case (sk_delete_if s func s')
  then have "sk_wf s" by (simp add: sk_ok_def)
  from sk_delete_if_refines [OF this, of func] sk_delete_if show ?case
    by (auto simp: sk_ok_def sorted_wrt_filter)
next
  case (sk_zero s s')
  then have "sk_wf s" by (simp add: sk_ok_def)
  from sk_zero_refines [OF this sk_zero.hyps(2)] sk_zero.IH show ?case
    by (auto intro: sk_ok_unsorted)
next
  case (sk_sort s s')
  then have wf: "sk_wf s" by (simp add: sk_ok_def)
  show ?case
  proof (cases "sk_comp s = None \<or> sk_sorted s")
    case True
    with sk_sort show ?thesis by (auto simp: OPENSSL_sk_sort_def split: option.splits)
  next
    case False
    then obtain c where "sk_comp s = Some c" "\<not> sk_sorted s" by auto
    from sk_sort_refines [where qsort = qsort and call_cmp = call_cmp, OF wf this qsort(1) qsort(2)] sk_sort.hyps show ?thesis
      by (auto simp: sk_ok_def)
  qed
next
  case (sk_set_cmp s cmp old s')
  then show ?case by (auto simp: OPENSSL_sk_set_cmp_func_def sk_ok_def sk_wf_def sk_list_def)
next
  case (sk_dup s al s')
  then show ?case using sk_ok_dup by blast
next
  case (sk_deep_copy s al copy_func freed s')
  then show ?case using sk_ok_deep_copy by blast
qed

section \<open>Properties\<close>

text \<open>
  C24. \<open>OPENSSL_sk_insert\<close> refines insertion into a list. On a well-formed stack below the
  \<open>INT_MAX\<close> limit and with memory available it returns the new length; the list of pointers is
  the old one with \<open>p\<close> inserted at \<open>pos\<close>, or at the end if \<open>pos\<close> is beyond it, whether or
  not the array had to grow; and the stack is no longer marked sorted. When the call returns 0
  the stack is unchanged.
\<close>

theorem OPENSSL_sk_insert_refines_list:
  assumes "sk_wf s"
  shows "(sk_num s < INT_MAX \<and> al_total al \<longrightarrow>
      (\<exists>s'. OPENSSL_sk_insert al fresh p pos (Some s) = (Suc (length (sk_list s)), Some s') \<and> sk_wf s' \<and>
        \<not> sk_sorted s' \<and> sk_list s' = list_insert p (min pos (length (sk_list s))) (sk_list s))) \<and>
    (OPENSSL_sk_insert al fresh p pos (Some s) = (0, sk') \<longrightarrow> sk' = Some s)"
proof (intro conjI impI)
  assume "sk_num s < INT_MAX \<and> al_total al"
  then have a: "sk_num s < INT_MAX" "al_total al" by auto
  from sk_insert_total [OF assms a] obtain s' where
    s': "OPENSSL_sk_insert al fresh p pos (Some s) = (sk_num s + 1, Some s')" by blast
  with sk_insert_refines [OF assms s'] assms
  show "\<exists>s'. OPENSSL_sk_insert al fresh p pos (Some s) = (Suc (length (sk_list s)), Some s') \<and> sk_wf s' \<and>
        \<not> sk_sorted s' \<and> sk_list s' = list_insert p (min pos (length (sk_list s))) (sk_list s)" by auto
next
  assume "OPENSSL_sk_insert al fresh p pos (Some s) = (0, sk')"
  then show "sk' = Some s" by (rule sk_insert_fails [OF assms])
qed

theorem OPENSSL_sk_insert_refines_list_witness:
  "\<exists>s'. OPENSSL_sk_insert (\<lambda>_. Some (\<lambda>_. 0)) (\<lambda>_. None) (Some 9) 1
      (Some \<lparr>sk_num = 3, sk_data = [Some 1, Some 2, Some (3::nat), None], sk_sorted = True, sk_num_alloc = 4, sk_comp = Some ()\<rparr>)
     = (4, Some s') \<and> sk_list s' = [Some 1, Some 9, Some 2, Some 3]"
proof -
  let ?s = "\<lparr>sk_num = 3, sk_data = [Some 1, Some 2, Some (3::nat), None], sk_sorted = True, sk_num_alloc = 4, sk_comp = Some ()\<rparr>"
  have wf: "sk_wf ?s" by (simp add: sk_wf_def)
  have l: "sk_list ?s = [Some 1, Some 2, Some 3]" by (simp add: sk_list_def)
  have "\<exists>s'. OPENSSL_sk_insert (\<lambda>_. Some (\<lambda>_. 0)) (\<lambda>_. None) (Some 9) 1 (Some ?s) = (Suc (length (sk_list ?s)), Some s') \<and>
      sk_wf s' \<and> \<not> sk_sorted s' \<and> sk_list s' = list_insert (Some 9) (min 1 (length (sk_list ?s))) (sk_list ?s)"
    using OPENSSL_sk_insert_refines_list [OF wf, of "\<lambda>_. Some (\<lambda>_. 0)" "\<lambda>_. None" "Some 9" 1 None] by simp
  moreover have "Suc (length (sk_list ?s)) = 4" unfolding l by simp
  moreover have "list_insert (Some 9) (min 1 (length (sk_list ?s))) (sk_list ?s) = [Some 1, Some 9, Some 2, Some 3]"
    unfolding l by (simp add: list_insert_def)
  ultimately show ?thesis by metis
qed

text \<open>
  C25. \<open>OPENSSL_sk_delete\<close> refines deletion from a list: for an index within the stack it
  returns the pointer at that index and removes exactly it, keeping the order of the others and
  the sorted mark; for any other index it returns NULL and changes nothing.
\<close>

theorem OPENSSL_sk_delete_refines_list:
  assumes "sk_wf s"
  shows "if i < length (sk_list s)
    then \<exists>s'. OPENSSL_sk_delete i (Some s) = (sk_list s ! i, Some s') \<and> sk_wf s' \<and>
        sk_sorted s' = sk_sorted s \<and> sk_list s' = list_delete i (sk_list s)
    else OPENSSL_sk_delete i (Some s) = (None, Some s)"
  using sk_delete_refines [OF assms, of i] assms by (auto simp: OPENSSL_sk_delete_def)

theorem OPENSSL_sk_delete_refines_list_witness:
  "\<exists>s'. OPENSSL_sk_delete 0
      (Some \<lparr>sk_num = 3, sk_data = [Some 1, Some 2, Some (3::nat), None], sk_sorted = True, sk_num_alloc = 4, sk_comp = Some ()\<rparr>)
     = (Some 1, Some s') \<and> sk_list s' = [Some 2, Some 3]"
proof -
  let ?s = "\<lparr>sk_num = 3, sk_data = [Some 1, Some 2, Some (3::nat), None], sk_sorted = True, sk_num_alloc = 4, sk_comp = Some ()\<rparr>"
  have wf: "sk_wf ?s" by (simp add: sk_wf_def)
  show ?thesis
    using OPENSSL_sk_delete_refines_list [OF wf, of 0] by (auto simp: sk_list_def list_delete_def)
qed

text \<open>
  C26. Lookup is correct in every state a stack can reach through its operations other than
  \<open>OPENSSL_sk_set\<close>, deep copies included as long as the copies compare as their originals. With a comparison function
  that is an order, a \<open>qsort\<close> that sorts and a key that is not NULL (for a NULL key the code reports failure without
  comparing), \<open>OPENSSL_sk_find\<close> returns the first index whose element compares equal to the key, and
  reports failure exactly if there is none, whether it searches linearly or by bisection. Without a comparison function it
  returns the first index that holds the key itself, NULL or not.
\<close>

theorem OPENSSL_sk_find_correct:
  assumes "stack_history qsort call_cmp s"
    and "\<And>c xs. mset (qsort (call_cmp c) xs) = mset xs"
    and "\<And>c xs. sorted_wrt (\<lambda>a b. call_cmp c a b \<le> 0) (qsort (call_cmp c) xs)"
  shows "(sk_comp s = Some c \<and> comparator (call_cmp c) \<and> p \<noteq> None \<longrightarrow>
      OPENSSL_sk_find call_cmp p (Some s) = sk_first_match (\<lambda>q. call_cmp c p q = 0) (sk_list s)) \<and>
    (sk_comp s = None \<longrightarrow> OPENSSL_sk_find call_cmp p (Some s) = sk_first_match (\<lambda>q. q = p) (sk_list s))"
  using stack_history_ok [OF assms] sk_find_first_match [of call_cmp s c p] sk_find_pointer [of call_cmp s p] by blast

definition num_key :: "nat ptr \<Rightarrow> int" where
  "num_key p = (case p of None \<Rightarrow> - 1 | Some n \<Rightarrow> int n)"

lemma num_cmp_comparator: "comparator (\<lambda>a b. num_key a - num_key b)"
  by unfold_locales simp_all

theorem OPENSSL_sk_find_correct_witness:
  "OPENSSL_sk_find (\<lambda>_::unit. \<lambda>a b. num_key a - num_key b) (Some 7)
     (Some \<lparr>sk_num = 3, sk_data = [Some 2, Some 7, Some 7, None], sk_sorted = True, sk_num_alloc = 4, sk_comp = Some ()\<rparr>) = Some 1"
proof -
  let ?al = "\<lambda>_. Some (\<lambda>_. 0)" and ?cmp = "\<lambda>_::unit. \<lambda>a b. num_key a - num_key b"
    and ?qsort = "\<lambda>_. sort_key num_key"
  let ?st = "\<lambda>n d b. \<lparr>sk_num = n, sk_data = d, sk_sorted = b, sk_num_alloc = 4, sk_comp = Some ()\<rparr>"
  have "OPENSSL_zalloc ?al 40 = Some (replicate 40 0)" "OPENSSL_calloc ?al 4 8 = Some (replicate 32 0)"
    using OPENSSL_calloc_total [of ?al 1 40] OPENSSL_calloc_total [of ?al 4 8]
    by (simp_all add: OPENSSL_calloc_def size_mul_def)
  then have h0: "stack_history ?qsort ?cmp (?st 0 [None, None, None, None] False)"
    by (intro stack_history.sk_new [of ?al "Some ()"]) (simp add: OPENSSL_sk_new_def numeral_eq_Suc)
  have h1: "stack_history ?qsort ?cmp (?st 1 [Some 7, None, None, None] False)"
    by (rule stack_history.sk_insert [OF h0, of ?al "\<lambda>_. None" "Some 7" 0]) (simp add: OPENSSL_sk_insert_def Let_def)
  have h2: "stack_history ?qsort ?cmp (?st 2 [Some 7, Some 2, None, None] False)"
    by (rule stack_history.sk_insert [OF h1, of ?al "\<lambda>_. None" "Some 2" 1]) (simp add: OPENSSL_sk_insert_def Let_def)
  have "\<exists>r s. OPENSSL_sk_insert ?al (\<lambda>_. None) (Some 7) 2 (Some (?st 2 [Some 7, Some 2, None, None] False)) = (r, Some s) \<and>
      s = ?st 3 [Some 7, Some 2, Some 7, None] False"
    by (simp add: OPENSSL_sk_insert_def Let_def)
  then have h3: "stack_history ?qsort ?cmp (?st 3 [Some 7, Some 2, Some 7, None] False)"
    using stack_history.sk_insert [OF h2] by blast
  have h4: "stack_history ?qsort ?cmp (?st 3 [Some 2, Some 7, Some 7, None] True)"
    by (rule stack_history.sk_sort [OF h3]) (simp add: OPENSSL_sk_sort_def num_key_def buf_write_def numeral_eq_Suc)
  have srt: "sorted_wrt (\<lambda>a b. ?cmp c a b \<le> 0) (sort_key num_key xs)" for c xs
    using sorted_sort_key [of num_key xs] by (simp add: sorted_map)
  have "OPENSSL_sk_find ?cmp (Some 7) (Some (?st 3 [Some 2, Some 7, Some 7, None] True))
      = sk_first_match (\<lambda>q. ?cmp () (Some 7) q = 0) (sk_list (?st 3 [Some 2, Some 7, Some 7, None] True))"
    by (rule OPENSSL_sk_find_correct [OF h4, THEN conjunct1, THEN mp]) (use srt num_cmp_comparator in \<open>simp_all add: mset_sort\<close>)
  then show ?thesis by (simp add: sk_list_def sk_first_match_def num_key_def numeral_eq_Suc)
qed

text \<open>
  \<open>OPENSSL_sk_set\<close> is outside the histories above because it leaves the sorted mark in place:
  overwriting an element of a sorted stack can make a pointer that is in the stack impossible to
  find.
\<close>

lemma OPENSSL_sk_set_keeps_sorted_mark:
  assumes "s = \<lparr>sk_num = 3, sk_data = [Some 1, Some 2, Some (3::nat), None], sk_sorted = True, sk_num_alloc = 4, sk_comp = Some ()\<rparr>"
    and "OPENSSL_sk_set 0 (Some 9) (Some s) = (r, Some s')"
  shows "sk_sorted s'" "Some 9 \<in> set (sk_list s')"
    "OPENSSL_sk_find (\<lambda>_. \<lambda>a b. num_key a - num_key b) (Some 9) (Some s') = None"
  using assms
  by (auto simp: OPENSSL_sk_set_def sk_list_def OPENSSL_sk_find_def OPENSSL_sk_is_sorted_def num_key_def
      sk_bsearch.simps numeral_eq_Suc)

text \<open>
  \<open>OPENSSL_sk_deep_copy\<close> keeps the mark too, so copies that are ordered differently from their originals
  can be impossible to find.
\<close>

lemma OPENSSL_sk_deep_copy_keeps_sorted_mark:
  assumes "s = \<lparr>sk_num = 2, sk_data = [Some 1, Some (2::nat), None, None], sk_sorted = True, sk_num_alloc = 4, sk_comp = Some ()\<rparr>"
    and "OPENSSL_sk_deep_copy al (\<lambda>n. Some (10 - n)) (Some s) = (freed, Some s')"
  shows "sk_sorted s'" "Some 8 \<in> set (sk_list s')"
    "OPENSSL_sk_find (\<lambda>_. \<lambda>a b. num_key a - num_key b) (Some 8) (Some s') = None"
  using assms
  by (auto simp: OPENSSL_sk_deep_copy_def OPENSSL_sk_dup_def sk_list_def OPENSSL_sk_find_def OPENSSL_sk_is_sorted_def num_key_def
      sk_bsearch.simps numeral_eq_Suc split: option.splits if_splits)

text \<open>
  C27. \<open>OPENSSL_sk_deep_copy\<close> with memory available: if every element that is not NULL can
  be copied the result has the copies in the same order, NULL staying NULL; otherwise it returns
  NULL after freeing exactly the copies made before the first failure, each once and in order.
\<close>

theorem OPENSSL_sk_deep_copy_correct:
  assumes "sk_wf s" "al_total al"
  shows "if list_all (copies copy_func) (sk_list s)
    then \<exists>s'. OPENSSL_sk_deep_copy al copy_func (Some s) = ([], Some s') \<and> sk_wf s' \<and>
        sk_list s' = map (\<lambda>x. Option.bind x copy_func) (sk_list s)
    else OPENSSL_sk_deep_copy al copy_func (Some s) =
        (ptrs (map (\<lambda>x. Option.bind x copy_func) (takeWhile (copies copy_func) (sk_list s))), None)"
proof -
  from sk_dup_total [OF assms] obtain r where r: "OPENSSL_sk_dup al (Some s) = Some r" "sk_wf r"
    "sk_data r = sk_data s" "sk_num r = sk_num s" by blast
  have "sk_num s \<le> length (sk_data s)" using assms(1) by (simp add: sk_wf_def)
  note l = sk_copy_loop_spec [OF this, of copy_func "[]", simplified]
  show ?thesis
  proof (cases "list_all (copies copy_func) (sk_list s)")
    case True
    with r l assms(1) show ?thesis by (simp add: OPENSSL_sk_deep_copy_def sk_list_def sk_wf_def)
  next
    case False
    with r l show ?thesis by (simp add: OPENSSL_sk_deep_copy_def sk_list_def)
  qed
qed

theorem OPENSSL_sk_deep_copy_correct_witness:
  "OPENSSL_sk_deep_copy (\<lambda>_. Some (\<lambda>_. 0)) (\<lambda>n. if n = 3 then None else Some (n + 10))
      (Some \<lparr>sk_num = 3, sk_data = [Some 1, None, Some (3::nat), None], sk_sorted = False, sk_num_alloc = 4, sk_comp = None :: unit option\<rparr>)
     = ([11], None)"
proof -
  let ?s = "\<lparr>sk_num = 3, sk_data = [Some 1, None, Some (3::nat), None], sk_sorted = False, sk_num_alloc = 4, sk_comp = None :: unit option\<rparr>"
  have wf: "sk_wf ?s" by (simp add: sk_wf_def)
  show ?thesis
    using OPENSSL_sk_deep_copy_correct [OF wf, of "\<lambda>_. Some (\<lambda>_. 0)" "\<lambda>n. if n = 3 then None else Some (n + 10)"]
    by (simp add: sk_list_def copies_def ptrs_def)
qed

end
