(* ===== verification/PosixTime.thy ===== *)
theory PosixTime
  imports Prelude "HOL-Library.Signed_Division"
begin

text \<open>
  Conversion between POSIX time and the proleptic Gregorian calendar,
  \<^verbatim>\<open>crypto/asn1/posix_time.c\<close>. Every intermediate value of the code stays far inside
  \<open>int64_t\<close> once the guards have passed, so the values are integers; C's \<open>/\<close> and
  \<open>%\<close> truncate towards zero and are \<open>sdiv\<close> and \<open>smod\<close>. A \<open>struct tm\<close> has the
  fields the code reads or writes.
\<close>

section \<open>The code\<close>

abbreviation SECS_PER_HOUR :: int where "SECS_PER_HOUR \<equiv> 3600"
abbreviation SECS_PER_DAY :: int where "SECS_PER_DAY \<equiv> 86400"
abbreviation MIN_POSIX_TIME :: int where "MIN_POSIX_TIME \<equiv> - 62167219200"
abbreviation MAX_POSIX_TIME :: int where "MAX_POSIX_TIME \<equiv> 253402300799"
abbreviation INT64_MAX :: int where "INT64_MAX \<equiv> 9223372036854775807"
abbreviation INT64_MIN :: int where "INT64_MIN \<equiv> - 9223372036854775808"

record tm =
  tm_sec :: int
  tm_min :: int
  tm_hour :: int
  tm_mday :: int
  tm_mon :: int
  tm_year :: int
  tm_wday :: int
  tm_yday :: int
  tm_isdst :: int

definition is_valid_date :: "int \<Rightarrow> int \<Rightarrow> int \<Rightarrow> bool" where
  "is_valid_date year month day =
     (if day < 1 \<or> month < 1 \<or> year < 0 \<or> year > 9999 then False
      else if month \<in> {1, 3, 5, 7, 8, 10, 12} then day > 0 \<and> day \<le> 31
      else if month \<in> {4, 6, 9, 11} then day > 0 \<and> day \<le> 30
      else if month = 2
      then (if (year smod 4 = 0 \<and> year smod 100 \<noteq> 0) \<or> year smod 400 = 0 then day > 0 \<and> day \<le> 29
            else day > 0 \<and> day \<le> 28)
      else False)"

definition is_valid_time :: "int \<Rightarrow> int \<Rightarrow> int \<Rightarrow> bool" where
  "is_valid_time hours minutes seconds =
     (if hours < 0 \<or> minutes < 0 \<or> seconds < 0 \<or> hours > 23 \<or> minutes > 59 \<or> seconds > 59 then False else True)"

definition is_valid_posix_time :: "int \<Rightarrow> bool" where
  "is_valid_posix_time time \<longleftrightarrow> MIN_POSIX_TIME \<le> time \<and> time \<le> MAX_POSIX_TIME"

definition posix_time_from_utc :: "int \<Rightarrow> int \<Rightarrow> int \<Rightarrow> int \<Rightarrow> int \<Rightarrow> int \<Rightarrow> int option" where
  "posix_time_from_utc year month day hours minutes seconds =
     (if \<not> is_valid_date year month day \<or> \<not> is_valid_time hours minutes seconds then None
      else let year = (if month \<le> 2 then year - 1 else year);
               era = (if year \<ge> 0 then year else year - 399) sdiv 400;
               year_of_era = year - era * 400;
               day_of_year = (153 * (if month > 2 then month - 3 else month + 9) + 2) sdiv 5 + day - 1;
               day_of_era = year_of_era * 365 + year_of_era sdiv 4 - year_of_era sdiv 100 + day_of_year;
               posix_days = era * 146097 + day_of_era - 719468
           in Some (posix_days * SECS_PER_DAY + hours * SECS_PER_HOUR + minutes * 60 + seconds))"

text \<open>The result is \<open>(year, month, day, hours, minutes, seconds)\<close>.\<close>

definition utc_from_posix_time :: "int \<Rightarrow> (int \<times> int \<times> int \<times> int \<times> int \<times> int) option" where
  "utc_from_posix_time time =
     (if \<not> is_valid_posix_time time then None
      else let days = time sdiv SECS_PER_DAY;
               leftover_seconds = time smod SECS_PER_DAY;
               (days, leftover_seconds) =
                 (if leftover_seconds < 0 then (days - 1, leftover_seconds + SECS_PER_DAY) else (days, leftover_seconds));
               days = days + 719468;
               era = (if days > 0 then days else days - 146096) sdiv 146097;
               day_of_era = days - era * 146097;
               year_of_era = (day_of_era - day_of_era sdiv 1460 + day_of_era sdiv 36524 - day_of_era sdiv 146096) sdiv 365;
               out_year = year_of_era + era * 400;
               day_of_year = day_of_era - (365 * year_of_era + year_of_era sdiv 4 - year_of_era sdiv 100);
               month_of_year = (5 * day_of_year + 2) sdiv 153;
               out_month = (if month_of_year < 10 then month_of_year + 3 else month_of_year - 9);
               out_year = (if out_month \<le> 2 then out_year + 1 else out_year);
               out_day = day_of_year - (153 * month_of_year + 2) sdiv 5 + 1;
               out_hours = leftover_seconds sdiv SECS_PER_HOUR;
               leftover_seconds = leftover_seconds smod SECS_PER_HOUR;
               out_minutes = leftover_seconds sdiv 60;
               out_seconds = leftover_seconds smod 60
           in Some (out_year, out_month, out_day, out_hours, out_minutes, out_seconds))"

definition OPENSSL_tm_to_posix :: "tm \<Rightarrow> int option" where
  "OPENSSL_tm_to_posix tm =
     posix_time_from_utc (tm_year tm + 1900) (tm_mon tm + 1) (tm_mday tm) (tm_hour tm) (tm_min tm) (tm_sec tm)"

text \<open>The output pointer is not NULL; the other fields of the result are zero.\<close>

definition OPENSSL_posix_to_tm :: "int \<Rightarrow> tm option" where
  "OPENSSL_posix_to_tm time =
     (case utc_from_posix_time time of
        None \<Rightarrow> None
      | Some (year, mon, mday, hour, minute, sec) \<Rightarrow>
          Some \<lparr>tm_sec = sec, tm_min = minute, tm_hour = hour, tm_mday = mday, tm_mon = mon - 1, tm_year = year - 1900,
                tm_wday = 0, tm_yday = 0, tm_isdst = 0\<rparr>)"

text \<open>\<open>time_bytes\<close> is \<open>sizeof(time_t)\<close>, 4 or 8.\<close>

definition OPENSSL_timegm :: "nat \<Rightarrow> tm \<Rightarrow> int option" where
  "OPENSSL_timegm time_bytes tm =
     (case OPENSSL_tm_to_posix tm of
        None \<Rightarrow> None
      | Some posix_time \<Rightarrow>
          if time_bytes = 4 \<and> (posix_time > 2147483647 \<or> posix_time < - 2147483648) then None else Some posix_time)"

definition OPENSSL_gmtime :: "int \<Rightarrow> tm option" where
  "OPENSSL_gmtime time = OPENSSL_posix_to_tm time"

text \<open>The flag is the return value; \<open>tm\<close> is updated in place.\<close>

definition OPENSSL_gmtime_adj :: "tm \<Rightarrow> int \<Rightarrow> int \<Rightarrow> bool \<times> tm" where
  "OPENSSL_gmtime_adj tm offset_day offset_sec =
     (case OPENSSL_tm_to_posix tm of
        None \<Rightarrow> (False, tm)
      | Some posix_time \<Rightarrow>
          let posix_time = posix_time + offset_day * SECS_PER_DAY
          in if posix_time > 0 \<and> offset_sec > INT64_MAX - posix_time then (False, tm)
             else if posix_time < 0 \<and> offset_sec < INT64_MIN - posix_time then (False, tm)
             else case OPENSSL_posix_to_tm (posix_time + offset_sec) of
                    None \<Rightarrow> (False, tm)
                  | Some tm' \<Rightarrow> (True, tm'))"

definition OPENSSL_gmtime_diff :: "tm \<Rightarrow> tm \<Rightarrow> (int \<times> int) option" where
  "OPENSSL_gmtime_diff from_tm to_tm =
     (case OPENSSL_tm_to_posix to_tm of
        None \<Rightarrow> None
      | Some time_to \<Rightarrow>
          (case OPENSSL_tm_to_posix from_tm of
             None \<Rightarrow> None
           | Some time_from \<Rightarrow>
               let timediff = time_to - time_from;
                   daydiff = timediff sdiv SECS_PER_DAY;
                   timediff = timediff smod SECS_PER_DAY
               in Some (daydiff, timediff)))"

section \<open>Truncating division\<close>

lemma sdiv_nonneg: "0 \<le> a \<Longrightarrow> 0 < b \<Longrightarrow> a sdiv b = a div (b :: int)"
  by (simp add: signed_divide_int_def sgn_if)

lemma smod_nonneg: "0 \<le> a \<Longrightarrow> 0 < b \<Longrightarrow> a smod b = a mod (b :: int)"
  by (simp add: signed_modulo_int_def sgn_if)

text \<open>The code's idioms for floor division and modulus on a possibly negative value.\<close>

lemma floor_by_shift: "0 < b \<Longrightarrow> a < 0 \<Longrightarrow> (a - (b - 1)) sdiv b = a div (b :: int)"
proof -
  assume b: "0 < b" and a: "a < 0"
  have "(a - (b - 1)) sdiv b = - ((b - 1 - a) div b)" using a b by (simp add: signed_divide_int_def sgn_if)
  also have "(b - 1 - a) div b = - (a div b)"
  proof (rule int_div_pos_eq [where r = "b - 1 - a mod b"])
    show "b - 1 - a = b * - (a div b) + (b - 1 - a mod b)" using mult_div_mod_eq [of b a] by (simp only: mult_minus_right)
  qed (use pos_mod_bound [OF b, of a] pos_mod_sign [OF b, of a] in linarith)+
  finally show ?thesis by simp
qed

lemma era_floor: "(if a \<ge> 0 then a else a - 399) sdiv 400 = a div (400 :: int)"
  using floor_by_shift [of 400 a] by (simp add: sdiv_nonneg)

lemma day_era_floor: "(if a > 0 then a else a - 146096) sdiv 146097 = a div (146097 :: int)"
  using floor_by_shift [of 146097 a] by (cases "a = 0") (simp_all add: sdiv_nonneg signed_divide_int_def)

lemma day_split:
  "(if a smod 86400 < 0 then (a sdiv 86400 - 1, a smod 86400 + 86400) else (a sdiv 86400, a smod 86400))
     = (a div 86400, a mod (86400 :: int))"
  using signed_divide_int_eq_divide_int [of a 86400] signed_modulo_int_eq_modulo_int [of a 86400]
    pos_mod_bound [of 86400 a] pos_mod_sign [of 86400 a]
  by (auto simp: sgn_if dvd_eq_mod_eq_0 split: if_splits)

section \<open>The calendar\<close>

text \<open>
  The reference: leap years, lengths of months and years, and the number of days from
  0000-01-01 to a date by counting.
\<close>

definition leap :: "int \<Rightarrow> bool" where
  "leap y \<longleftrightarrow> (4 dvd y \<and> \<not> 100 dvd y) \<or> 400 dvd y"

definition month_days :: "int \<Rightarrow> int \<Rightarrow> int" where
  "month_days y m = (if m = 2 then if leap y then 29 else 28 else if m \<in> {4, 6, 9, 11} then 30 else 31)"

definition year_days :: "int \<Rightarrow> int" where
  "year_days y = (if leap y then 366 else 365)"

definition day_number :: "int \<Rightarrow> int \<Rightarrow> int \<Rightarrow> int" where
  "day_number y m d = (\<Sum>k<nat y. year_days (int k)) + (\<Sum>i = 1..<nat m. month_days y (int i)) + (d - 1)"

definition valid_date :: "int \<Rightarrow> int \<Rightarrow> int \<Rightarrow> bool" where
  "valid_date y m d \<longleftrightarrow> 0 \<le> y \<and> y \<le> 9999 \<and> 1 \<le> m \<and> m \<le> 12 \<and> 1 \<le> d \<and> d \<le> month_days y m"

lemma month_cases:
  assumes "1 \<le> m" "m \<le> (12 :: int)"
  obtains "m = 1" | "m = 2" | "m = 3" | "m = 4" | "m = 5" | "m = 6" | "m = 7" | "m = 8" | "m = 9" | "m = 10" | "m = 11" | "m = 12"
proof -
  have "m = 1 \<or> m = 2 \<or> m = 3 \<or> m = 4 \<or> m = 5 \<or> m = 6 \<or> m = 7 \<or> m = 8 \<or> m = 9 \<or> m = 10 \<or> m = 11 \<or> m = 12"
    using assms by presburger
  with that show thesis by blast
qed

lemma is_valid_date_iff: "is_valid_date y m d \<longleftrightarrow> valid_date y m d"
proof (cases "1 \<le> m \<and> m \<le> 12 \<and> 0 \<le> y")
  case True
  then have "1 \<le> m" "m \<le> 12" by auto
  moreover have "((y smod 4 = 0 \<and> y smod 100 \<noteq> 0) \<or> y smod 400 = 0) = leap y"
    using True by (simp add: smod_nonneg leap_def dvd_eq_mod_eq_0)
  ultimately show ?thesis
    using True by (cases rule: month_cases) (auto simp: is_valid_date_def valid_date_def month_days_def)
qed (auto simp: is_valid_date_def valid_date_def)

subsection \<open>Years of an era\<close>

text \<open>
  An era is 400 years that start on 1 March. Day 365 of a year of the era exists only if the
  year ends with a leap day.
\<close>

definition era_day :: "int \<Rightarrow> int \<Rightarrow> bool" where
  "era_day yoe doy \<longleftrightarrow> 0 \<le> yoe \<and> yoe \<le> 399 \<and> 0 \<le> doy \<and> doy \<le> 365 \<and> (doy = 365 \<longrightarrow> leap (yoe + 1))"

definition doe_of :: "int \<Rightarrow> int \<Rightarrow> int" where
  "doe_of yoe doy = yoe * 365 + yoe div 4 - yoe div 100 + doy"

text \<open>Centuries, four-year cycles and years as the digits of a mixed-radix number.\<close>

lemma yoe_digits:
  assumes "0 \<le> yoe" "yoe \<le> (399 :: int)"
  obtains c q r where "yoe = 100 * c + 4 * q + r" "0 \<le> c" "c \<le> 3" "0 \<le> q" "q \<le> 24" "0 \<le> r" "r \<le> 3"
    "yoe div 4 = 25 * c + q" "yoe div 100 = c"
proof
  let ?c = "yoe div 100" and ?q = "yoe mod 100 div 4" and ?r = "yoe mod 100 mod 4"
  show "yoe = 100 * ?c + 4 * ?q + ?r" by simp
  show "0 \<le> ?c" "?c \<le> 3" "0 \<le> ?q" "?q \<le> 24" "0 \<le> ?r" "?r \<le> 3"
    using assms by simp_all
  show "yoe div 4 = 25 * ?c + ?q"
    by (rule int_div_pos_eq [where r = ?r])
      (use mult_div_mod_eq [of 100 yoe] mult_div_mod_eq [of 4 "yoe mod 100"] in \<open>simp_all add: algebra_simps\<close>)
qed simp

lemma leap_end_digits:
  assumes "0 \<le> c" "c \<le> 3" "0 \<le> q" "q \<le> 24" "0 \<le> r" "r \<le> (3 :: int)"
  shows "leap (100 * c + 4 * q + r + 1) \<longleftrightarrow> r = 3 \<and> (q \<noteq> 24 \<or> c = 3)"
proof -
  let ?x = "4 * q + r + 1"
  have eq: "100 * c + 4 * q + r + 1 = 100 * c + ?x" by simp
  have h: "100 dvd ?x \<longleftrightarrow> ?x = 100" using assms by (auto dest: zdvd_imp_le)
  have "4 dvd 100 * c + ?x \<longleftrightarrow> r = 3" using assms by presburger
  moreover have h': "100 dvd 100 * c + ?x \<longleftrightarrow> ?x = 100"
    using h dvd_add_right_iff [of 100 "100 * c" ?x] by simp
  moreover have "400 dvd 100 * c + ?x \<longleftrightarrow> ?x = 100 \<and> c = 3"
  proof
    assume a: "400 dvd 100 * c + ?x"
    have "100 dvd (400 :: int)" by simp
    from dvd_trans [OF this a] h' have x: "?x = 100" by blast
    have "400 = (100 * 4 :: int)" "100 * c + 100 = 100 * (c + 1)" by simp_all
    with a x have "4 dvd c + 1" by (metis dvd_times_left_cancel_iff zero_neq_numeral)
    with x show "?x = 100 \<and> c = 3" using assms by presburger
  qed simp
  ultimately show ?thesis unfolding leap_def eq using assms by auto
qed

lemma year_of_era_correct:
  assumes "era_day yoe doy"
  defines "doe \<equiv> doe_of yoe doy"
  shows "0 \<le> doe" "doe \<le> 146096" "(doe - doe div 1460 + doe div 36524 - doe div 146096) div 365 = yoe"
proof -
  from assms have y: "0 \<le> yoe" "yoe \<le> 399" and d: "0 \<le> doy" "doy \<le> 365" by (simp_all add: era_day_def)
  from y obtain c q r where dg: "yoe = 100 * c + 4 * q + r" "0 \<le> c" "c \<le> 3" "0 \<le> q" "q \<le> 24" "0 \<le> r" "r \<le> 3"
    and dv: "yoe div 4 = 25 * c + q" "yoe div 100 = c" by (rule yoe_digits)
  have doe: "doe = 36524 * c + 1461 * q + 365 * r + doy" unfolding doe_def doe_of_def dv by (simp add: dg(1))
  have lp: "doy = 365 \<Longrightarrow> r = 3 \<and> (q \<noteq> 24 \<or> c = 3)"
    using assms(1) leap_end_digits [OF dg(2-7)] by (simp add: era_day_def dg(1))
  then have rng: "0 \<le> doe \<and> doe \<le> 146096" unfolding doe using dg d by (cases "doy = 365") auto
  then show "0 \<le> doe" "doe \<le> 146096" by auto
  define k :: int where "k = (if 24 * c + q + 365 * r + doy \<ge> 1460 then 1 else 0)"
  have d1: "doe div 1460 = 25 * c + q + k"
    by (rule int_div_pos_eq [where r = "24 * c + q + 365 * r + doy - 1460 * k"]) (use dg d in \<open>auto simp: doe k_def\<close>)
  define z :: int where "z = (if doe = 146096 then 1 else 0)"
  have d3: "doe div 146096 = z"
    by (rule int_div_pos_eq [where r = "doe - 146096 * z"]) (use rng in \<open>auto simp: z_def\<close>)
  have "doe = 146096 \<or> 1461 * q + 365 * r + doy < 36524"
    using lp dg d unfolding doe by (cases "doy = 365") auto
  then have d2: "doe div 36524 = c + z"
    by (intro int_div_pos_eq [where r = "doe - 36524 * (c + z)"]) (use rng dg d in \<open>auto simp: z_def doe\<close>)
  have "0 \<le> doy - k \<and> doy - k \<le> 364" using lp dg d by (cases "doy = 365") (auto simp: k_def)
  then show "(doe - doe div 1460 + doe div 36524 - doe div 146096) div 365 = yoe"
    unfolding d1 d2 d3 by (intro int_div_pos_eq [where r = "doy - k"]) (auto simp: doe dg)
qed

lemma doe_of_surj:
  assumes "0 \<le> doe" "doe \<le> 146096"
  shows "\<exists>yoe doy. era_day yoe doy \<and> doe = doe_of yoe doy"
proof -
  define c where "c = (if doe = 146096 then 3 else doe div 36524)"
  define e where "e = doe - 36524 * c"
  define q where "q = e div 1461"
  define f where "f = e - 1461 * q"
  define r where "r = (if f = 1460 then 3 else f div 365)"
  have c: "0 \<le> c" "c \<le> 3" "0 \<le> e" "e \<le> 36524" "e = 36524 \<Longrightarrow> c = 3"
    using assms mult_div_mod_eq [of 36524 doe] pos_mod_bound [of 36524 doe] pos_mod_sign [of 36524 doe]
    by (auto simp: c_def e_def)
  have q: "0 \<le> q" "q \<le> 24" "0 \<le> f" "f \<le> 1460" using c(3,4) mult_div_mod_eq [of 1461 e] pos_mod_bound [of 1461 e] pos_mod_sign [of 1461 e]
    by (auto simp: q_def f_def)
  have r: "0 \<le> r" "r \<le> 3" "0 \<le> f - 365 * r" "f - 365 * r \<le> 365" "f - 365 * r = 365 \<Longrightarrow> f = 1460"
    using q(3,4) mult_div_mod_eq [of 365 f] pos_mod_bound [of 365 f] pos_mod_sign [of 365 f]
    by (cases "f = 1460"; simp add: r_def)+
  let ?y = "100 * c + 4 * q + r"
  have y: "0 \<le> ?y" "?y \<le> 399" using c q r by linarith+
  have dv: "?y div 100 = c" "?y div 4 = 25 * c + q"
    by (rule int_div_pos_eq [where r = "4 * q + r"]; use c q r in simp) (rule int_div_pos_eq [where r = r]; use r in simp)
  have "doe = doe_of ?y (f - 365 * r)" by (simp add: doe_of_def dv f_def e_def)
  moreover have "leap (?y + 1)" if "f - 365 * r = 365"
  proof -
    have "f = 1460" using r(5) [OF that] .
    then have "r = 3" "q = 24 \<Longrightarrow> e = 36524" by (simp_all add: r_def f_def)
    with c(5) show ?thesis using leap_end_digits [OF c(1,2) q(1,2) r(1,2)] by blast
  qed
  ultimately show ?thesis using y r unfolding era_day_def by blast
qed

subsection \<open>Months of a year that starts in March\<close>

definition march_month :: "int \<Rightarrow> int" where
  "march_month m = (if m > 2 then m - 3 else m + 9)"

definition month_of :: "int \<Rightarrow> int" where
  "month_of mp = (if mp < 10 then mp + 3 else mp - 9)"

definition doy_of :: "int \<Rightarrow> int \<Rightarrow> int" where
  "doy_of m d = (153 * march_month m + 2) div 5 + d - 1"

definition march_year :: "int \<Rightarrow> int \<Rightarrow> int" where
  "march_year y m = (if m \<le> 2 then y - 1 else y)"

lemma doy_of_correct:
  assumes "1 \<le> m" "m \<le> 12" "1 \<le> d" "d \<le> month_days y m"
  shows "0 \<le> doy_of m d" "doy_of m d \<le> 365" "doy_of m d = 365 \<Longrightarrow> m = 2 \<and> leap y"
    "(5 * doy_of m d + 2) div 153 = march_month m" "month_of (march_month m) = m"
  using assms(1,2)
  by (cases rule: month_cases;
      use assms(3,4) in \<open>simp add: doy_of_def march_month_def month_of_def month_days_def split: if_splits\<close>)+

lemma month_of_correct:
  assumes "0 \<le> doy" "doy \<le> 365" "doy = 365 \<Longrightarrow> leap y"
  defines "mp \<equiv> (5 * doy + 2) div 153"
  defines "d \<equiv> doy - (153 * mp + 2) div 5 + 1"
  shows "1 \<le> month_of mp" "month_of mp \<le> 12" "1 \<le> d" "d \<le> month_days y (month_of mp)"
    "doy_of (month_of mp) d = doy" "march_month (month_of mp) = mp"
proof -
  have b: "153 * mp \<le> 5 * doy + 2" "5 * doy + 2 < 153 * mp + 153"
    using mult_div_mod_eq [of 153 "5 * doy + 2"] pos_mod_bound [of 153 "5 * doy + 2"] pos_mod_sign [of 153 "5 * doy + 2"]
    unfolding mp_def by linarith+
  have mp: "0 \<le> mp" "mp \<le> 11" using b assms by linarith+
  then have "1 \<le> month_of mp" "month_of mp \<le> 12" by (auto simp: month_of_def)
  moreover have mm: "march_month (month_of mp) = mp" using mp by (auto simp: month_of_def march_month_def)
  moreover have "doy_of (month_of mp) d = doy" by (simp add: doy_of_def mm d_def)
  moreover have "1 \<le> d" using b(1) mult_div_mod_eq [of 5 "153 * mp + 2"] pos_mod_sign [of 5 "153 * mp + 2"]
    unfolding d_def by linarith
  moreover have "d \<le> month_days y (month_of mp)"
  proof -
    have "mp = 0 \<or> mp = 1 \<or> mp = 2 \<or> mp = 3 \<or> mp = 4 \<or> mp = 5 \<or> mp = 6 \<or> mp = 7 \<or> mp = 8 \<or> mp = 9 \<or> mp = 10 \<or> mp = 11"
      using mp by presburger
    moreover have "leap y \<or> doy \<le> 364" using assms(2,3) by (cases "doy = 365") auto
    ultimately show ?thesis using b assms(2) unfolding d_def by (elim disjE) (auto simp: month_of_def month_days_def)
  qed
  ultimately show "1 \<le> month_of mp" "month_of mp \<le> 12" "1 \<le> d" "d \<le> month_days y (month_of mp)"
    "doy_of (month_of mp) d = doy" "march_month (month_of mp) = mp" by auto
qed

lemma leap_period: "leap (400 * k + x) \<longleftrightarrow> leap x"
proof -
  have "4 dvd 400 * k" "100 dvd 400 * k" "400 dvd 400 * k" by (simp_all add: dvd_mult2)
  then show ?thesis unfolding leap_def by (simp only: dvd_add_right_iff)
qed

lemma leap_mod: "leap (y mod 400 + 1) \<longleftrightarrow> leap (y + 1)"
  using leap_period [of "y div 400" "y mod 400 + 1"] mult_div_mod_eq [of 400 y] by (simp add: add.assoc [symmetric])

subsection \<open>The conversions in terms of eras\<close>

definition date_days :: "int \<Rightarrow> int \<Rightarrow> int \<Rightarrow> int" where
  "date_days y m d = march_year y m div 400 * 146097 + doe_of (march_year y m mod 400) (doy_of m d) - 719468"

lemma era_day_date:
  assumes "valid_date y m d"
  shows "era_day (march_year y m mod 400) (doy_of m d)"
proof -
  note c = doy_of_correct [of m d y]
  have "doy_of m d = 365 \<Longrightarrow> leap (march_year y m mod 400 + 1)"
    using c(3) assms unfolding leap_mod by (auto simp: valid_date_def march_year_def)
  moreover have "march_year y m mod 400 \<le> 399" using pos_mod_bound [of 400 "march_year y m"] by linarith
  ultimately show ?thesis using c(1,2) assms by (simp add: era_day_def valid_date_def)
qed

lemma posix_time_from_utc_alt:
  "posix_time_from_utc y m d h mi s =
     (if valid_date y m d \<and> is_valid_time h mi s then Some (date_days y m d * 86400 + h * 3600 + mi * 60 + s) else None)"
proof (cases "valid_date y m d \<and> is_valid_time h mi s")
  case True
  then have m: "1 \<le> m" by (simp add: valid_date_def)
  have q: "(153 * march_month m + 2) sdiv 5 = (153 * march_month m + 2) div 5"
    using m by (simp add: march_month_def sdiv_nonneg)
  have y: "0 \<le> march_year y m mod 400" by simp
  have e: "march_year y m - march_year y m div 400 * 400 = march_year y m mod 400"
    by (simp add: minus_div_mult_eq_mod)
  show ?thesis
    using True
    by (simp add: posix_time_from_utc_def is_valid_date_iff Let_def march_year_def [symmetric] march_month_def [symmetric]
        era_floor q e sdiv_nonneg [OF y] date_days_def doe_of_def doy_of_def)
      (use mult_div_mod_eq [of 400 "march_year y m"] in linarith)
qed (auto simp: posix_time_from_utc_def is_valid_date_iff)

lemma utc_from_posix_time_alt:
  assumes "is_valid_posix_time t" "era_day yoe doy" "t div 86400 + 719468 = era * 146097 + doe_of yoe doy"
  defines "mp \<equiv> (5 * doy + 2) div 153"
  shows "utc_from_posix_time t = Some (
      (if month_of mp \<le> 2 then yoe + era * 400 + 1 else yoe + era * 400), month_of mp, doy - (153 * mp + 2) div 5 + 1,
      t mod 86400 div 3600, t mod 86400 mod 3600 div 60, t mod 86400 mod 3600 mod 60)"
proof -
  note doe = year_of_era_correct [OF assms(2)]
  have yd: "0 \<le> yoe" "0 \<le> doy" using assms(2) by (simp_all add: era_day_def)
  then have mp: "0 \<le> mp" by (simp add: mp_def)
  have ed: "(era * 146097 + doe_of yoe doy) div 146097 = era"
    by (rule int_div_pos_eq [where r = "doe_of yoe doy"]) (use doe in simp_all)
  let ?x = "doe_of yoe doy - doe_of yoe doy div 1460 + doe_of yoe doy div 36524 - doe_of yoe doy div 146096"
  have x: "0 \<le> ?x" using doe(3) yd(1) pos_imp_zdiv_nonneg_iff [of 365 ?x] by simp
  have dy: "doe_of yoe doy - (365 * yoe + yoe div 4 - yoe div 100) = doy" by (simp add: doe_of_def)
  have nn: "0 \<le> t mod 86400" "0 \<le> t mod 86400 mod 3600" "0 \<le> 5 * doy + 2" "0 \<le> 153 * mp + 2" using yd mp by simp_all
  note pos = zero_less_numeral
  note nonneg = sdiv_nonneg [OF doe(1) pos] sdiv_nonneg [OF x pos] sdiv_nonneg [OF yd(1) pos] sdiv_nonneg [OF nn(3) pos]
    sdiv_nonneg [OF nn(4) pos] sdiv_nonneg [OF nn(1) pos] smod_nonneg [OF nn(1) pos] sdiv_nonneg [OF nn(2) pos]
    smod_nonneg [OF nn(2) pos]
  have "era * 146097 + doe_of yoe doy - era * 146097 = doe_of yoe doy" by simp
  then show ?thesis
    using assms(1)
    by (simp only: utc_from_posix_time_def day_split Let_def prod.case assms(3) day_era_floor ed nonneg doe(3) dy
        mp_def [symmetric] month_of_def [symmetric] not_True_eq_False if_False)
qed

lemma date_days_closed:
  "date_days y m d = 365 * march_year y m + march_year y m div 4 - march_year y m div 100 + march_year y m div 400
     + doy_of m d - 719468"
proof -
  let ?y = "march_year y m"
  have y: "?y = 400 * (?y div 400) + ?y mod 400" by simp
  have "?y div 4 = 100 * (?y div 400) + ?y mod 400 div 4"
    by (rule int_div_pos_eq [where r = "?y mod 400 mod 4"])
      (use y mult_div_mod_eq [of 4 "?y mod 400"] in \<open>simp_all add: algebra_simps\<close>)
  moreover have "?y div 100 = 4 * (?y div 400) + ?y mod 400 div 100"
    by (rule int_div_pos_eq [where r = "?y mod 400 mod 100"])
      (use y mult_div_mod_eq [of 100 "?y mod 400"] in \<open>simp_all add: algebra_simps\<close>)
  ultimately show ?thesis using y unfolding date_days_def doe_of_def by linarith
qed

lemma div_bound: "0 < b \<Longrightarrow> a < c * b \<Longrightarrow> a div b < (c :: int)"
proof (rule ccontr)
  assume b: "0 < b" "a < c * b" "\<not> a div b < c"
  then have "c * b \<le> a div b * b" by (intro mult_right_mono) simp_all
  with b div_mult_mod_eq [of a b] pos_mod_sign [OF b(1), of a] show False by linarith
qed

lemma drop_every_25th:
  assumes "u \<le> v" "u = 25 * a + r" "v = 25 * b + s" "0 \<le> r" "r < 25" "0 \<le> s" "s < (25 :: int)"
  shows "u - a \<le> v - b"
  using assms by linarith

lemma leap_count_mono:
  assumes "y \<le> (z :: int)"
  shows "y div 4 - y div 100 + y div 400 \<le> z div 4 - z div 100 + z div 400"
proof -
  let ?u = "y div 4" and ?v = "z div 4"
  have "y div 100 = ?u div 25" "z div 100 = ?v div 25"
    using zdiv_zmult2_eq [of 25 y 4] zdiv_zmult2_eq [of 25 z 4] by simp_all
  moreover have "?u - ?u div 25 \<le> ?v - ?v div 25"
  proof -
    have "?u \<le> ?v" using assms by (simp add: zdiv_mono1)
    then show ?thesis
      by (rule drop_every_25th [of _ _ _ "?u mod 25" _ "?v mod 25"]) simp_all
  qed
  moreover have "y div 400 \<le> z div 400" using assms by (simp add: zdiv_mono1)
  ultimately show ?thesis by linarith
qed

lemma valid_time_bounds:
  "is_valid_time h mi s \<longleftrightarrow> 0 \<le> h \<and> h < 24 \<and> 0 \<le> mi \<and> mi < 60 \<and> 0 \<le> s \<and> s < 60"
  by (auto simp: is_valid_time_def)

lemma date_days_range:
  assumes "valid_date y m d"
  shows "- 719528 \<le> date_days y m d" "date_days y m d \<le> 2932896"
proof -
  have v: "0 \<le> y" "y \<le> 9999" "1 \<le> m" "m \<le> 12" "1 \<le> d" "d \<le> month_days y m" using assms by (simp_all add: valid_date_def)
  note doy = doy_of_correct(1,2) [OF v(3-6)]
  let ?y = "march_year y m"
  show "- 719528 \<le> date_days y m d"
  proof (cases "?y \<ge> 0")
    case True
    then show ?thesis using doy leap_count_mono [OF True] unfolding date_days_closed by simp
  next
    case False
    then have "m \<le> 2" "?y = - 1" using v by (auto simp: march_year_def split: if_splits)
    then have "306 \<le> doy_of m d" using v by (auto simp: doy_of_def march_month_def)
    with \<open>?y = - 1\<close> show ?thesis unfolding date_days_closed by simp
  qed
  show "date_days y m d \<le> 2932896"
  proof (cases "?y \<le> 9998")
    case True
    then show ?thesis using doy leap_count_mono [OF True] unfolding date_days_closed by simp
  next
    case False
    then have m: "2 < m" "?y = 9999" using v by (auto simp: march_year_def split: if_splits)
    then have "doy_of m d \<le> 305"
      using v by (cases rule: month_cases [OF v(3,4)]) (simp_all add: doy_of_def march_month_def month_days_def)
    with m(2) show ?thesis unfolding date_days_closed by simp
  qed
qed

lemma time_of_day:
  assumes "is_valid_time h mi s"
  shows "(D * 86400 + h * 3600 + mi * 60 + s) div 86400 = D" "(D * 86400 + h * 3600 + mi * 60 + s) mod 86400 = h * 3600 + mi * 60 + s"
    "(h * 3600 + mi * 60 + s) div 3600 = h" "(h * 3600 + mi * 60 + s) mod 3600 = mi * 60 + s"
    "(mi * 60 + s) div 60 = mi" "(mi * 60 + s) mod 60 = s"
proof -
  note b = assms [unfolded valid_time_bounds]
  show "(D * 86400 + h * 3600 + mi * 60 + s) div 86400 = D"
    by (rule int_div_pos_eq [where r = "h * 3600 + mi * 60 + s"]) (use b in auto)
  show "(D * 86400 + h * 3600 + mi * 60 + s) mod 86400 = h * 3600 + mi * 60 + s"
    by (rule int_mod_pos_eq [where q = D]) (use b in auto)
  show "(h * 3600 + mi * 60 + s) div 3600 = h" by (rule int_div_pos_eq [where r = "mi * 60 + s"]) (use b in auto)
  show "(h * 3600 + mi * 60 + s) mod 3600 = mi * 60 + s" by (rule int_mod_pos_eq [where q = h]) (use b in auto)
  show "(mi * 60 + s) div 60 = mi" "(mi * 60 + s) mod 60 = s" using b by auto
qed

lemma utc_of_posix:
  assumes "posix_time_from_utc y m d h mi s = Some t"
  shows "utc_from_posix_time t = Some (y, m, d, h, mi, s)"
proof -
  have v: "valid_date y m d" "is_valid_time h mi s" and t: "t = date_days y m d * 86400 + h * 3600 + mi * 60 + s"
    using assms by (simp_all add: posix_time_from_utc_alt split: if_splits)
  let ?y = "march_year y m"
  have v': "1 \<le> m" "m \<le> 12" "1 \<le> d" "d \<le> month_days y m" using v(1) by (simp_all add: valid_date_def)
  note doy = doy_of_correct [OF v']
  note tod = time_of_day [OF v(2)]
  have "is_valid_posix_time t"
    using date_days_range [OF v(1)] v(2) unfolding is_valid_posix_time_def t valid_time_bounds by linarith
  moreover have "t div 86400 + 719468 = ?y div 400 * 146097 + doe_of (?y mod 400) (doy_of m d)"
    unfolding t tod(1) by (simp add: date_days_def)
  note alt = utc_from_posix_time_alt [OF calculation era_day_date [OF v(1)] this]
  have "utc_from_posix_time t = Some (
      (if m \<le> 2 then ?y mod 400 + ?y div 400 * 400 + 1 else ?y mod 400 + ?y div 400 * 400), m,
      doy_of m d - (153 * march_month m + 2) div 5 + 1, h, mi, s)"
    using alt unfolding doy(4,5) t tod .
  moreover have "doy_of m d - (153 * march_month m + 2) div 5 + 1 = d" by (simp add: doy_of_def)
  ultimately show ?thesis by (simp add: march_year_def)
qed

lemma posix_of_utc_exists:
  assumes "is_valid_posix_time t"
  shows "\<exists>y m d h mi s. posix_time_from_utc y m d h mi s = Some t"
proof -
  let ?n = "t div 86400 + 719468"
  let ?era = "?n div 146097"
  have "0 \<le> ?n mod 146097" "?n mod 146097 \<le> 146096" using pos_mod_bound [of 146097 ?n] by simp_all
  then obtain yoe doy where e: "era_day yoe doy" "?n mod 146097 = doe_of yoe doy" using doe_of_surj by blast
  have n: "?n = ?era * 146097 + doe_of yoe doy" using e(2) mult_div_mod_eq [of 146097 ?n] by linarith
  define mp where "mp = (5 * doy + 2) div 153"
  define m where "m = month_of mp"
  define y where "y = (if m \<le> 2 then yoe + ?era * 400 + 1 else yoe + ?era * 400)"
  define d where "d = doy - (153 * mp + 2) div 5 + 1"
  have my: "march_year y m = yoe + ?era * 400" by (simp add: march_year_def y_def)
  have b: "0 \<le> yoe" "yoe \<le> 399" "0 \<le> doy" "doy \<le> 365" using e(1) by (simp_all add: era_day_def)
  have eq: "march_year y m div 400 = ?era" "march_year y m mod 400 = yoe"
    unfolding my by (rule int_div_pos_eq [where r = yoe] int_mod_pos_eq [where q = ?era]; use b in simp)+
  have lp: "leap y" if "doy = 365"
  proof -
    have "mp = 11" using that by (simp add: mp_def)
    then have "y = march_year y m + 1" by (simp add: m_def month_of_def march_year_def)
    then show ?thesis using e(1) that leap_mod [of "march_year y m"] by (simp add: era_day_def eq(2))
  qed
  have mo: "1 \<le> m" "m \<le> 12" "1 \<le> d" "d \<le> month_days y m" "doy_of m d = doy"
    using month_of_correct [OF b(3,4) lp] unfolding m_def d_def mp_def by simp_all
  have dd: "date_days y m d = t div 86400" using n unfolding date_days_def eq mo(5) by simp
  have yr: "0 \<le> y" "y \<le> 9999"
  proof -
    let ?y = "march_year y m"
    have tb: "- 719528 \<le> t div 86400" "t div 86400 \<le> 2932896"
      using assms mult_div_mod_eq [of 86400 t] pos_mod_sign [of 86400 t] pos_mod_bound [of 86400 t]
      unfolding is_valid_posix_time_def by linarith+
    have dc: "365 * ?y + (?y div 4 - ?y div 100 + ?y div 400) + doy - 719468 = t div 86400"
      using dd mo(5) unfolding date_days_closed by linarith
    have lo: "- 1 \<le> ?y"
    proof (rule ccontr)
      assume "\<not> - 1 \<le> ?y"
      then have "?y \<le> - 2" by simp
      from leap_count_mono [OF this] this dc tb(1) b(4) show False by simp
    qed
    have hi: "?y \<le> 9999"
    proof (rule ccontr)
      assume "\<not> ?y \<le> 9999"
      then have "10000 \<le> ?y" by simp
      from leap_count_mono [OF this] this dc tb(2) b(3) show False by simp
    qed
    have "m \<le> 2" if "?y = - 1"
      using tb(1) dd mo(1-5) unfolding date_days_closed that
      by (cases rule: month_cases [OF mo(1,2)]) (simp_all add: doy_of_def march_month_def month_days_def)
    then show "0 \<le> y" using lo by (cases "?y = - 1") (auto simp: march_year_def split: if_splits)
    have "2 < m" if "?y = 9999"
      using tb(2) dd mo(1-5) unfolding date_days_closed that
      by (cases rule: month_cases [OF mo(1,2)]) (simp_all add: doy_of_def march_month_def)
    then show "y \<le> 9999" using hi by (cases "?y = 9999") (auto simp: march_year_def split: if_splits)
  qed
  let ?s = "t mod 86400"
  have "is_valid_time (?s div 3600) (?s mod 3600 div 60) (?s mod 3600 mod 60)"
    unfolding valid_time_bounds
    using div_bound [of 3600 ?s 24] div_bound [of 60 "?s mod 3600" 60] pos_mod_bound [of 86400 t] pos_mod_bound [of 3600 ?s]
    by (simp add: pos_imp_zdiv_nonneg_iff)
  moreover have "valid_date y m d" using yr mo by (simp add: valid_date_def)
  moreover have "?s div 3600 * 3600 + ?s mod 3600 div 60 * 60 + ?s mod 3600 mod 60 = ?s"
    by (simp add: add.assoc)
  then have "date_days y m d * 86400 + ?s div 3600 * 3600 + ?s mod 3600 div 60 * 60 + ?s mod 3600 mod 60 = t"
    unfolding dd using mult_div_mod_eq [of 86400 t] by linarith
  ultimately have "posix_time_from_utc y m d (?s div 3600) (?s mod 3600 div 60) (?s mod 3600 mod 60) = Some t"
    by (simp add: posix_time_from_utc_alt)
  then show ?thesis by blast
qed

section \<open>Counting days\<close>

lemma year_sum: "(\<Sum>k<n. year_days (int k)) = 365 * int n + (int n + 3) div 4 - (int n + 99) div 100 + (int n + 399) div 400"
proof (induction n)
  case (Suc n)
  have step: "(int (Suc n) + (k - 1)) div k = (int n + (k - 1)) div k + (if k dvd int n then 1 else 0)" if "0 < k" for k
  proof (cases "k dvd int n")
    case True
    then obtain j where j: "int n = k * j" by blast
    have "(int n + (k - 1)) div k = j" by (rule int_div_pos_eq [where r = "k - 1"]) (use that j in auto)
    moreover have "(int (Suc n) + (k - 1)) div k = j + 1" by (rule int_div_pos_eq [where r = 0]) (use that j in \<open>auto simp: algebra_simps\<close>)
    ultimately show ?thesis using True by simp
  next
    case False
    then have "0 < int n mod k" using that pos_mod_sign [of k "int n"] by (simp add: dvd_eq_mod_eq_0 order_less_le)
    moreover have "int n = k * (int n div k) + int n mod k" "int n mod k < k" using that by simp_all
    ultimately have "(int n + (k - 1)) div k = int n div k + 1" "(int (Suc n) + (k - 1)) div k = int n div k + 1"
      by (intro int_div_pos_eq [where r = "int n mod k - 1"] int_div_pos_eq [where r = "int n mod k"]; simp add: algebra_simps)+
    with False show ?thesis by simp
  qed
  have "100 dvd int n \<Longrightarrow> 4 dvd int n" "400 dvd int n \<Longrightarrow> 100 dvd int n"
    by (erule dvd_trans [rotated], simp)+
  then show ?case using Suc step [of 4] step [of 100] step [of 400] by (auto simp: year_days_def leap_def)
qed simp

text \<open>The number of leap days before 1 January of a year, seen from the previous March year.\<close>

lemma shifted_div:
  assumes "0 < k"
  shows "(y + (k - 1)) div k = (y - 1) div k + (1 :: int)" "(y - 1) div k = y div k - (if k dvd y then 1 else 0)"
proof -
  have "(y + (k - 1)) div k = ((y - 1) + k) div k" by (simp add: algebra_simps)
  also have "\<dots> = (y - 1) div k + 1" using assms by (intro div_add_self2) simp
  finally show "(y + (k - 1)) div k = (y - 1) div k + 1" .
  show "(y - 1) div k = y div k - (if k dvd y then 1 else 0)"
  proof (cases "k dvd y")
    case True
    then obtain j where j: "y = k * j" by blast
    have "(y - 1) div k = j - 1" by (rule int_div_pos_eq [where r = "k - 1"]) (use assms j in \<open>auto simp: algebra_simps\<close>)
    with True j assms show ?thesis by simp
  next
    case False
    then have "0 < y mod k" using assms pos_mod_sign [of k y] by (simp add: dvd_eq_mod_eq_0 order_less_le)
    moreover have "y = k * (y div k) + y mod k" "y mod k < k" using assms by simp_all
    ultimately have "(y - 1) div k = y div k"
      by (intro int_div_pos_eq [where r = "y mod k - 1"]) (simp_all add: algebra_simps)
    with False show ?thesis by simp
  qed
qed

lemma month_sum:
  assumes "1 \<le> m" "m \<le> 12"
  shows "(\<Sum>i = 1..<nat m. month_days y (int i)) =
    doy_of m 1 + (if m \<le> 2 then - 306 else if leap y then 60 else 59)"
  using assms
  by (cases rule: month_cases)
    (simp_all add: doy_of_def march_month_def month_days_def eval_nat_numeral sum.atLeast_Suc_lessThan)

lemma date_days_counts:
  assumes "valid_date y m d"
  shows "date_days y m d = day_number y m d - 719528"
proof -
  have v: "0 \<le> y" "1 \<le> m" "m \<le> 12" using assms by (simp_all add: valid_date_def)
  have doy: "doy_of m d = doy_of m 1 + (d - 1)" by (simp add: doy_of_def)
  have lp: "100 dvd y \<Longrightarrow> 4 dvd y" "400 dvd y \<Longrightarrow> 100 dvd y" by (erule dvd_trans [rotated], simp)+
  let ?L = "\<lambda>x. x div 4 - x div 100 + x div (400 :: int)"
  have "int (nat y) = y" using v by simp
  then have sy: "(\<Sum>k<nat y. year_days (int k)) = 365 * y + ?L (y - 1) + 1"
    using year_sum [of "nat y"] shifted_div(1) [of 4 y] shifted_div(1) [of 100 y] shifted_div(1) [of 400 y] by simp
  have ly: "?L y = ?L (y - 1) + (if leap y then 1 else 0)"
    using shifted_div(2) [of 4 y] shifted_div(2) [of 100 y] shifted_div(2) [of 400 y] lp by (auto simp: leap_def)
  show ?thesis
    unfolding day_number_def sy month_sum [OF v(2,3)] date_days_closed doy
    using ly by (auto simp: march_year_def)
qed

lemma day_number_epoch: "day_number 1970 1 1 = 719528"
  using year_sum [of 1970] by (simp add: day_number_def)

lemma utc_defined_iff: "utc_from_posix_time t \<noteq> None \<longleftrightarrow> is_valid_posix_time t"
  by (simp add: utc_from_posix_time_def Let_def split: prod.split)

lemma posix_utc_iff: "posix_time_from_utc y m d h mi s = Some t \<longleftrightarrow> utc_from_posix_time t = Some (y, m, d, h, mi, s)"
proof
  assume u: "utc_from_posix_time t = Some (y, m, d, h, mi, s)"
  then have "is_valid_posix_time t" using utc_defined_iff [of t] by simp
  from posix_of_utc_exists [OF this] obtain y' m' d' h' mi' s'
    where p: "posix_time_from_utc y' m' d' h' mi' s' = Some t" by blast
  from utc_of_posix [OF p] u p show "posix_time_from_utc y m d h mi s = Some t" by simp
qed (rule utc_of_posix)

definition same_time :: "tm \<Rightarrow> tm \<Rightarrow> bool" where
  "same_time a b \<longleftrightarrow> tm_sec a = tm_sec b \<and> tm_min a = tm_min b \<and> tm_hour a = tm_hour b \<and> tm_mday a = tm_mday b \<and>
     tm_mon a = tm_mon b \<and> tm_year a = tm_year b"

lemma posix_to_tm_iff:
  "(\<exists>tm'. OPENSSL_posix_to_tm t = Some tm' \<and> same_time tm' tm) \<longleftrightarrow> OPENSSL_tm_to_posix tm = Some t"
  unfolding OPENSSL_tm_to_posix_def posix_utc_iff
  by (auto simp: OPENSSL_posix_to_tm_def same_time_def split: option.splits)

lemma same_time_refl [simp]: "same_time tm tm"
  by (simp add: same_time_def)

lemma posix_to_tm_Some: "OPENSSL_posix_to_tm t = Some tm \<Longrightarrow> OPENSSL_tm_to_posix tm = Some t"
  using posix_to_tm_iff [of t tm] by auto

lemma posix_to_tm_None: "OPENSSL_posix_to_tm t = None \<longleftrightarrow> \<not> is_valid_posix_time t"
  using utc_defined_iff [of t] by (auto simp: OPENSSL_posix_to_tm_def split: option.splits)

lemma gmtime_adj_cases:
  assumes "OPENSSL_tm_to_posix tm = Some t"
  shows "is_valid_posix_time (t + days * 86400 + secs) \<Longrightarrow>
      \<exists>tm'. OPENSSL_gmtime_adj tm days secs = (True, tm') \<and> OPENSSL_posix_to_tm (t + days * 86400 + secs) = Some tm'"
    and "\<not> is_valid_posix_time (t + days * 86400 + secs) \<Longrightarrow> OPENSSL_gmtime_adj tm days secs = (False, tm)"
  using assms posix_to_tm_None [of "t + days * 86400 + secs"]
  by (auto simp: OPENSSL_gmtime_adj_def Let_def is_valid_posix_time_def split: option.split)

section \<open>Properties\<close>

text \<open>
  C28. \<open>posix_time_from_utc\<close> computes POSIX time: it accepts exactly the dates of the
  Gregorian calendar in the years 0 to 9999 with a valid time of day, and its result is the
  number of seconds obtained by counting the days of the years and months between 1970-01-01
  and the date.
\<close>

theorem posix_time_from_utc_counts:
  "posix_time_from_utc y m d h mi s =
     (if valid_date y m d \<and> 0 \<le> h \<and> h < 24 \<and> 0 \<le> mi \<and> mi < 60 \<and> 0 \<le> s \<and> s < 60
      then Some ((day_number y m d - day_number 1970 1 1) * 86400 + h * 3600 + mi * 60 + s) else None)"
  using date_days_counts [of y m d] by (auto simp: posix_time_from_utc_alt valid_time_bounds day_number_epoch)

text \<open>
  C29. The two conversions are inverse to each other: a date and time has POSIX time \<open>t\<close>
  exactly if \<open>t\<close> converts back to that date and time; and every time from
  0000-01-01 00:00:00 to 9999-12-31 23:59:59 has a date.
\<close>

theorem posix_utc_inverse:
  "(posix_time_from_utc y m d h mi s = Some t) = (utc_from_posix_time t = Some (y, m, d, h, mi, s)) \<and>
   (utc_from_posix_time t \<noteq> None) = (MIN_POSIX_TIME \<le> t \<and> t \<le> MAX_POSIX_TIME)"
  using posix_utc_iff utc_defined_iff [of t] by (simp add: is_valid_posix_time_def)

text \<open>
  Adjusting and differencing times: \<open>OPENSSL_gmtime_adj\<close> adds the given days and
  seconds to a valid time, with the other fields of the result normalised, and fails without
  changing the time exactly if the sum leaves the years 0 to 9999; no intermediate sum
  overflows unnoticed. Adjusting a time by the difference \<open>OPENSSL_gmtime_diff\<close> reports
  to another time gives that other time.
\<close>

theorem gmtime_adj_diff:
  assumes "OPENSSL_tm_to_posix tm = Some t"
  shows "(if is_valid_posix_time (t + days * 86400 + secs)
     then \<exists>tm'. OPENSSL_gmtime_adj tm days secs = (True, tm') \<and> OPENSSL_tm_to_posix tm' = Some (t + days * 86400 + secs)
     else OPENSSL_gmtime_adj tm days secs = (False, tm)) \<and>
    (OPENSSL_tm_to_posix tm2 = Some t2 \<longrightarrow>
      (\<exists>dd ds tm'. OPENSSL_gmtime_diff tm tm2 = Some (dd, ds) \<and> \<bar>ds\<bar> < 86400 \<and>
        OPENSSL_gmtime_adj tm dd ds = (True, tm') \<and> same_time tm' tm2))"
proof (intro conjI impI)
  show "if is_valid_posix_time (t + days * 86400 + secs)
     then \<exists>tm'. OPENSSL_gmtime_adj tm days secs = (True, tm') \<and> OPENSSL_tm_to_posix tm' = Some (t + days * 86400 + secs)
     else OPENSSL_gmtime_adj tm days secs = (False, tm)"
    using gmtime_adj_cases [OF assms, of days secs] posix_to_tm_Some [of "t + days * 86400 + secs"] by force
next
  assume t2: "OPENSSL_tm_to_posix tm2 = Some t2"
  let ?d = "(t2 - t) sdiv 86400" and ?s = "(t2 - t) smod 86400"
  have diff: "OPENSSL_gmtime_diff tm tm2 = Some (?d, ?s)" by (simp add: OPENSSL_gmtime_diff_def assms t2 Let_def)
  have "\<bar>?s\<bar> < 86400" by (simp add: signed_modulo_int_def abs_mult abs_sgn_eq)
  have eq: "t + ?d * 86400 + ?s = t2" using sdiv_mult_smod_eq [of "t2 - t" 86400] by linarith
  from t2 posix_to_tm_iff obtain tm' where tm': "OPENSSL_posix_to_tm t2 = Some tm'" "same_time tm' tm2" by blast
  then have "is_valid_posix_time (t + ?d * 86400 + ?s)" using posix_to_tm_None [of t2] eq by auto
  from gmtime_adj_cases(1) [OF assms this] tm' eq have "OPENSSL_gmtime_adj tm ?d ?s = (True, tm')" by auto
  with diff \<open>\<bar>?s\<bar> < 86400\<close> tm'(2) show "\<exists>dd ds tm'. OPENSSL_gmtime_diff tm tm2 = Some (dd, ds) \<and> \<bar>ds\<bar> < 86400 \<and>
        OPENSSL_gmtime_adj tm dd ds = (True, tm') \<and> same_time tm' tm2" by blast
qed

theorem gmtime_adj_diff_witness:
  "\<exists>tm'. OPENSSL_gmtime_adj \<lparr>tm_sec = 59, tm_min = 59, tm_hour = 23, tm_mday = 28, tm_mon = 1, tm_year = 124,
       tm_wday = 0, tm_yday = 0, tm_isdst = 0\<rparr> 1 1 = (True, tm') \<and> OPENSSL_tm_to_posix tm' = Some 1709251200"
proof -
  let ?tm = "\<lparr>tm_sec = 59, tm_min = 59, tm_hour = 23, tm_mday = 28, tm_mon = 1, tm_year = 124,
       tm_wday = 0, tm_yday = 0, tm_isdst = 0\<rparr>"
  have t: "OPENSSL_tm_to_posix ?tm = Some 1709164799"
    by (simp add: OPENSSL_tm_to_posix_def posix_time_from_utc_def is_valid_date_def is_valid_time_def Let_def
        sdiv_nonneg smod_nonneg)
  show ?thesis using gmtime_adj_diff [OF t, of 1 1] by (simp add: is_valid_posix_time_def)
qed

end
