(* ===== verification/Base64.thy ===== *)
theory Base64
  imports Mem
begin

text \<open>
  Base64, \<^verbatim>\<open>crypto/base64/base64.c\<close>. Buffers that the code writes from their start are the
  list of bytes written. The context is the record \<open>EVP_ENCODE_CTX\<close>; \<open>char\<close> tests on the
  input compare bytes.
\<close>

section \<open>Constant-time character conversion\<close>

definition constant_time_lt_args_8 :: "u8 \<Rightarrow> u8 \<Rightarrow> u8" where
  "constant_time_lt_args_8 a b =
     (let aw = ucast a :: crypto_word_t; bw = ucast b in ucast (constant_time_msb_w (aw - bw)))"

definition constant_time_in_range_8 :: "u8 \<Rightarrow> u8 \<Rightarrow> u8 \<Rightarrow> u8" where
  "constant_time_in_range_8 a low high = (let a = a - low in constant_time_lt_args_8 a (high - low + 1))"

definition conv_bin2ascii :: "u8 \<Rightarrow> u8" where
  "conv_bin2ascii a =
     (let a = a AND 0x3f;
          ret = constant_time_select_8 (constant_time_eq_8 (ucast a) 62) 43 47;
          ret = constant_time_select_8 (constant_time_lt_args_8 a 62) (a - 52 + 48) ret;
          ret = constant_time_select_8 (constant_time_lt_args_8 a 52) (a - 26 + 97) ret;
          ret = constant_time_select_8 (constant_time_lt_args_8 a 26) (a + 65) ret
      in ret)"

definition base64_ascii_to_bin :: "u8 \<Rightarrow> u8" where
  "base64_ascii_to_bin a =
     (let is_upper = constant_time_in_range_8 a 65 90;
          is_lower = constant_time_in_range_8 a 97 122;
          is_digit = constant_time_in_range_8 a 48 57;
          is_plus = constant_time_eq_8 (ucast a) 43;
          is_slash = constant_time_eq_8 (ucast a) 47;
          is_equals = constant_time_eq_8 (ucast a) 61;
          ret = 0;
          ret = ret OR (is_upper AND (a - 65));
          ret = ret OR (is_lower AND (a - 97 + 26));
          ret = ret OR (is_digit AND (a - 48 + 52));
          ret = ret OR (is_plus AND 62);
          ret = ret OR (is_slash AND 63);
          is_valid = is_upper OR is_lower OR is_digit OR is_plus OR is_slash OR is_equals
      in ret OR NOT is_valid)"

section \<open>Encoding\<close>

definition EVP_EncodedLength :: "nat \<Rightarrow> nat option" where
  "EVP_EncodedLength len =
     (if size_add len 2 < len then None
      else let len = size_add len 2 div 3
           in if size_mul len 4 div 4 \<noteq> len then None
              else let len = size_mul len 4
                   in if size_add len 1 < len then None else Some (size_add len 1))"

text \<open>
  The rounds of \<open>EVP_EncodeBlock\<close> on the remaining input; each round writes four bytes,
  so \<open>ret\<close> is the number of bytes written before the final NUL.
\<close>

fun encode_rounds :: "u8 list \<Rightarrow> u8 list" where
  "encode_rounds [] = []"
| "encode_rounds [s0] =
     (let l = push_bit 16 (ucast s0) :: u32
      in [conv_bin2ascii (ucast (drop_bit 18 l)), conv_bin2ascii (ucast (drop_bit 12 l)), 61, 61])"
| "encode_rounds [s0, s1] =
     (let l = push_bit 16 (ucast s0) :: u32; l = l OR push_bit 8 (ucast s1)
      in [conv_bin2ascii (ucast (drop_bit 18 l)), conv_bin2ascii (ucast (drop_bit 12 l)),
          conv_bin2ascii (ucast (drop_bit 6 l)), 61])"
| "encode_rounds (s0 # s1 # s2 # src) =
     (let l = push_bit 16 (ucast s0) OR push_bit 8 (ucast s1) OR ucast s2 :: u32
      in [conv_bin2ascii (ucast (drop_bit 18 l)), conv_bin2ascii (ucast (drop_bit 12 l)),
          conv_bin2ascii (ucast (drop_bit 6 l)), conv_bin2ascii (ucast l)] @ encode_rounds src)"

definition EVP_EncodeBlock :: "u8 list \<Rightarrow> u8 list \<times> nat" where
  "EVP_EncodeBlock src = (let dst = encode_rounds src in (dst @ [0], length dst))"

record EVP_ENCODE_CTX =
  data_used :: nat
  ctx_data :: "u8 list"
  eof_seen :: bool
  error_encountered :: bool

definition encode_ctx_zero :: EVP_ENCODE_CTX where
  "encode_ctx_zero = \<lparr>data_used = 0, ctx_data = replicate 48 0, eof_seen = False, error_encountered = False\<rparr>"

text \<open>\<open>sizeof(EVP_ENCODE_CTX)\<close> is 56.\<close>

definition EVP_ENCODE_CTX_new :: "allocator \<Rightarrow> EVP_ENCODE_CTX option" where
  "EVP_ENCODE_CTX_new al = (case OPENSSL_zalloc al 56 of None \<Rightarrow> None | Some _ \<Rightarrow> Some encode_ctx_zero)"

definition EVP_EncodeInit :: "EVP_ENCODE_CTX \<Rightarrow> EVP_ENCODE_CTX" where
  "EVP_EncodeInit ctx = encode_ctx_zero"

text \<open>
  One output line: the encoded bytes and a newline. A NUL follows, which the next line
  overwrites. \<open>encode_lines\<close> is the loop over the whole lines of the input with the lines
  written so far and \<open>total\<close>; \<open>Inl\<close> is the overflow exit.
\<close>

definition encode_line :: "u8 list \<Rightarrow> u8 list \<times> nat" where
  "encode_line src = (case EVP_EncodeBlock src of (out, encoded) \<Rightarrow> (take encoded out @ [10], encoded))"

function encode_lines :: "u8 list \<Rightarrow> u8 list \<Rightarrow> nat \<Rightarrow> u8 list + (u8 list \<times> nat \<times> u8 list)" where
  "encode_lines inp out tot =
     (if length inp \<ge> 48
      then case encode_line (take 48 inp) of
             (line, encoded) \<Rightarrow>
               (if size_add tot (encoded + 1) < tot then Inl (out @ line)
                else encode_lines (drop 48 inp) (out @ line) (size_add tot (encoded + 1)))
      else Inr (out, tot, inp))"
  by pat_completeness auto
termination
  by (relation "measure (\<lambda>(inp, out, tot). length inp)") auto

declare encode_lines.simps [simp del]

text \<open>The result of an update: the return value, \<open>*out_len\<close>, the bytes written and the context.\<close>

record encode_result =
  enc_ret :: bool
  enc_out_len :: nat
  enc_out :: "u8 list"
  enc_ctx :: EVP_ENCODE_CTX

definition EVP_EncodeUpdate :: "EVP_ENCODE_CTX \<Rightarrow> u8 list \<Rightarrow> encode_result" where
  "EVP_EncodeUpdate ctx inp =
     (if length inp = 0 then \<lparr>enc_ret = False, enc_out_len = 0, enc_out = [], enc_ctx = ctx\<rparr>
      else if 48 - data_used ctx > length inp
      then \<lparr>enc_ret = True, enc_out_len = 0, enc_out = [],
            enc_ctx = ctx\<lparr>ctx_data := buf_write (ctx_data ctx) (data_used ctx) inp, data_used := data_used ctx + length inp\<rparr>\<rparr>
      else let todo = 48 - data_used ctx;
               (ctx, out, tot, inp) =
                 (if data_used ctx \<noteq> 0
                  then let data = buf_write (ctx_data ctx) (data_used ctx) (take todo inp)
                       in case encode_line data of
                            (line, encoded) \<Rightarrow> (ctx\<lparr>ctx_data := data, data_used := 0\<rparr>, line, encoded + 1, drop todo inp)
                  else (ctx, [], 0, inp))
           in case encode_lines inp out tot of
                Inl out \<Rightarrow> \<lparr>enc_ret = False, enc_out_len = 0, enc_out = out @ [0], enc_ctx = ctx\<rparr>
              | Inr (out, tot, inp) \<Rightarrow>
                  (let ctx = (if length inp \<noteq> 0 then ctx\<lparr>ctx_data := buf_write (ctx_data ctx) 0 inp\<rparr> else ctx);
                       ctx = ctx\<lparr>data_used := length inp\<rparr>
                   in if tot > INT_MAX
                      then \<lparr>enc_ret = False, enc_out_len = 0, enc_out = out @ [0], enc_ctx = ctx\<rparr>
                      else \<lparr>enc_ret = True, enc_out_len = tot, enc_out = out @ [0], enc_ctx = ctx\<rparr>))"

definition EVP_EncodeFinal :: "EVP_ENCODE_CTX \<Rightarrow> u8 list \<times> nat \<times> EVP_ENCODE_CTX" where
  "EVP_EncodeFinal ctx =
     (if data_used ctx = 0 then ([], 0, ctx)
      else case encode_line (take (data_used ctx) (ctx_data ctx)) of
             (line, encoded) \<Rightarrow> (line @ [0], encoded + 1, ctx\<lparr>data_used := 0\<rparr>))"

section \<open>Decoding\<close>

definition EVP_DecodedLength :: "nat \<Rightarrow> nat option" where
  "EVP_DecodedLength len = (if len mod 4 \<noteq> 0 then None else Some (len div 4 * 3))"

definition EVP_DecodeInit :: "EVP_ENCODE_CTX \<Rightarrow> EVP_ENCODE_CTX" where
  "EVP_DecodeInit ctx = encode_ctx_zero"

definition base64_decode_quad :: "u8 \<Rightarrow> u8 \<Rightarrow> u8 \<Rightarrow> u8 \<Rightarrow> u8 list option" where
  "base64_decode_quad in0 in1 in2 in3 =
     (let a = base64_ascii_to_bin in0; b = base64_ascii_to_bin in1;
          c = base64_ascii_to_bin in2; d = base64_ascii_to_bin in3
      in if a = 0xff \<or> b = 0xff \<or> c = 0xff \<or> d = 0xff then None
         else let v = push_bit 18 (ucast a) OR push_bit 12 (ucast b) OR push_bit 6 (ucast c) OR ucast d :: u32;
                  padding_pattern = (if in0 = 61 then 8 else 0) + (if in1 = 61 then 4 else 0) +
                                    (if in2 = 61 then 2 else 0) + (if in3 = 61 then 1 else 0 :: nat)
              in if padding_pattern = 0 then Some [ucast (drop_bit 16 v), ucast (drop_bit 8 v), ucast v]
                 else if padding_pattern = 1 then Some [ucast (drop_bit 16 v), ucast (drop_bit 8 v)]
                 else if padding_pattern = 3 then Some [ucast (drop_bit 16 v)]
                 else None)"

definition is_base64_space :: "u8 \<Rightarrow> bool" where
  "is_base64_space c \<longleftrightarrow> c = 32 \<or> c = 9 \<or> c = 13 \<or> c = 10"

text \<open>The loop of \<open>EVP_DecodeUpdate\<close>: bytes decoded so far, or an early return of -1.\<close>

fun decode_chars :: "EVP_ENCODE_CTX \<Rightarrow> u8 list \<Rightarrow> u8 list \<Rightarrow> (u8 list option) \<times> EVP_ENCODE_CTX" where
  "decode_chars ctx [] out = (Some out, ctx)"
| "decode_chars ctx (c # inp) out =
     (if is_base64_space c then decode_chars ctx inp out
      else if eof_seen ctx then (None, ctx\<lparr>error_encountered := True\<rparr>)
      else let ctx = ctx\<lparr>ctx_data := (ctx_data ctx)[data_used ctx := c], data_used := data_used ctx + 1\<rparr>
           in if data_used ctx = 4
              then case base64_decode_quad (ctx_data ctx ! 0) (ctx_data ctx ! 1) (ctx_data ctx ! 2) (ctx_data ctx ! 3) of
                     None \<Rightarrow> (None, ctx\<lparr>error_encountered := True\<rparr>)
                   | Some bytes \<Rightarrow>
                       (let ctx = ctx\<lparr>data_used := 0\<rparr>;
                            ctx = (if length bytes < 3 then ctx\<lparr>eof_seen := True\<rparr> else ctx)
                        in decode_chars ctx inp (out @ bytes))
              else decode_chars ctx inp out)"

text \<open>
  The results are -1, 0 and 1 as in the code; \<open>None\<close> for the bytes stands for an error exit,
  where \<open>*out_len\<close> is 0.
\<close>

definition EVP_DecodeUpdate :: "EVP_ENCODE_CTX \<Rightarrow> u8 list \<Rightarrow> int \<times> u8 list option \<times> EVP_ENCODE_CTX" where
  "EVP_DecodeUpdate ctx inp =
     (if error_encountered ctx then (- 1, None, ctx)
      else case decode_chars ctx inp [] of
             (None, ctx) \<Rightarrow> (- 1, None, ctx)
           | (Some out, ctx) \<Rightarrow>
               (if length out > INT_MAX then (- 1, None, ctx\<lparr>error_encountered := True\<rparr>)
                else if eof_seen ctx then (0, Some out, ctx)
                else (1, Some out, ctx)))"

definition EVP_DecodeFinal :: "EVP_ENCODE_CTX \<Rightarrow> int" where
  "EVP_DecodeFinal ctx = (if error_encountered ctx \<or> data_used ctx \<noteq> 0 then - 1 else 1)"

fun decode_quads :: "u8 list \<Rightarrow> u8 list option" where
  "decode_quads (in0 # in1 # in2 # in3 # inp) =
     (case base64_decode_quad in0 in1 in2 in3 of
        None \<Rightarrow> None
      | Some bytes \<Rightarrow>
          (if length bytes \<noteq> 3 \<and> inp \<noteq> [] then None
           else case decode_quads inp of None \<Rightarrow> None | Some out \<Rightarrow> Some (bytes @ out)))"
| "decode_quads _ = Some []"

definition EVP_DecodeBase64 :: "nat \<Rightarrow> u8 list \<Rightarrow> u8 list option" where
  "EVP_DecodeBase64 max_out inp =
     (if length inp mod 4 \<noteq> 0 then None
      else case EVP_DecodedLength (length inp) of
             None \<Rightarrow> None
           | Some max_len \<Rightarrow> if max_out < max_len then None else decode_quads inp)"

fun trim_end :: "u8 list \<Rightarrow> nat \<Rightarrow> nat" where
  "trim_end src 0 = 0"
| "trim_end src (Suc n) = (if is_base64_space (src ! n) then trim_end src n else Suc n)"

definition pad3 :: "u8 list \<Rightarrow> u8 list" where
  "pad3 dst = dst @ replicate ((3 - length dst mod 3) mod 3) 0"

text \<open>\<open>None\<close> is the result -1; otherwise the result is the number of bytes written.\<close>

definition EVP_DecodeBlock :: "u8 list \<Rightarrow> u8 list option" where
  "EVP_DecodeBlock src =
     (let src = dropWhile (\<lambda>c. c = 32 \<or> c = 9) src;
          src = take (trim_end src (length src)) src
      in case EVP_DecodedLength (length src) of
           None \<Rightarrow> None
         | Some dst_len \<Rightarrow>
             (if dst_len > INT_MAX then None
              else case EVP_DecodeBase64 dst_len src of
                     None \<Rightarrow> None
                   | Some dst \<Rightarrow> Some (pad3 dst)))"

end
