(* ===== verification/Base64Props.thy ===== *)
theory Base64Props
  imports Base64
begin

text \<open>
  Base64 against RFC 4648: the constant-time conversions are the alphabet table and its inverse,
  blocks encode and decode three bytes as four digits of their big-endian value, and the
  streaming interfaces compute the same as the one-shot ones on the concatenated input.
\<close>

section \<open>The alphabet\<close>

definition b64_alphabet :: "u8 list" where
  "b64_alphabet = map of_nat ([65..<91] @ [97..<123] @ [48..<58] @ [43, 47])"

definition b64_char :: "nat \<Rightarrow> u8" where
  "b64_char n = b64_alphabet ! n"

lemma b64_char_eq:
  assumes "n < 64"
  shows "b64_char n = of_nat (if n < 26 then n + 65 else if n < 52 then n - 26 + 97 else if n < 62 then n - 52 + 48
           else if n = 62 then 43 else 47)"
  using assms by (auto simp: b64_char_def b64_alphabet_def nth_append nth_Cons' simp del: upt_rec_numeral)

lemma constant_time_lt_args_8_mask: "constant_time_lt_args_8 a b = (if a < b then - 1 else 0)"
proof -
  have "bit (ucast a - ucast b :: crypto_word_t) 63 \<longleftrightarrow> a < b"
  proof (cases "unat a < unat b")
    case True
    then show ?thesis
      unfolding bit63_iff unat_sub_wrap word_le_nat_alt word_less_nat_alt unat_ucast_byte_64
      using unat_byte_le [of b] by (simp del: unat_byte_le)
  next
    case False
    then show ?thesis
      unfolding bit63_iff unat_sub_wrap word_le_nat_alt word_less_nat_alt unat_ucast_byte_64
      using unat_byte_le [of a] by (simp del: unat_byte_le)
  qed
  then show ?thesis
    by (simp add: constant_time_lt_args_8_def Let_def constant_time_msb_w_mask ucast_mask_64_8)
qed

lemma constant_time_eq_8_byte: "constant_time_eq_8 (ucast (a :: u8)) (ucast b) = (if a = b then - 1 else 0)"
proof -
  have "(ucast a :: crypto_word_t) = ucast b \<longleftrightarrow> a = b"
    by (metis unat_ucast_byte_64 word_unat_eq_iff)
  then show ?thesis by (simp add: constant_time_8_mask)
qed

lemma constant_time_in_range_8_mask:
  assumes "lo \<le> hi" "unat hi - unat lo < 255"
  shows "constant_time_in_range_8 a lo hi = (if lo \<le> a \<and> a \<le> hi then - 1 else 0)"
proof -
  have "unat (hi - lo) = unat hi - unat lo" using assms(1) by (rule unat_sub)
  then have h: "unat (hi - lo + 1) = unat hi - unat lo + 1" using assms(2) by (simp add: unat_word_ariths)
  have "a - lo < hi - lo + 1 \<longleftrightarrow> lo \<le> a \<and> a \<le> hi"
  proof (cases "lo \<le> a")
    case True
    then show ?thesis
      using assms(1) unfolding word_less_nat_alt word_le_nat_alt h unat_sub [OF True] by auto
  next
    case False
    have "unat (a - lo) = 256 + unat a - unat lo" using False by (simp add: unat_sub_if_size word_size word_le_nat_alt)
    with False show ?thesis
      using unat_byte_less [of hi] assms(1) unfolding word_less_nat_alt word_le_nat_alt h
      by (simp del: unat_byte_less)
  qed
  then show ?thesis by (simp add: constant_time_in_range_8_def Let_def constant_time_lt_args_8_mask)
qed

lemma conv_bin2ascii_char: "conv_bin2ascii a = b64_char (unat a mod 64)"
proof -
  define x where "x = a AND 0x3f"
  define n where "n = unat a mod 64"
  have ux: "unat x = n" by (simp add: x_def n_def word_arith)
  then have x: "x = of_nat n" by (metis of_nat_unat ucast_id)
  have n: "n < 64" by (simp add: n_def)
  have c: "x < 26 \<longleftrightarrow> n < 26" "x < 52 \<longleftrightarrow> n < 52" "x < 62 \<longleftrightarrow> n < 62" "x = 62 \<longleftrightarrow> n = 62"
    by (simp_all add: word_less_nat_alt word_unat_eq_iff ux)
  have e: "constant_time_eq_8 (ucast x) 62 = (if x = 62 then - 1 else 0)"
    using constant_time_eq_8_byte [of x 62] by simp
  have "conv_bin2ascii a = (if n < 26 then x + 65 else if n < 52 then x - 26 + 97 else if n < 62 then x - 52 + 48
      else if n = 62 then 43 else 47)"
    by (simp add: conv_bin2ascii_def x_def [symmetric] Let_def e constant_time_lt_args_8_mask constant_time_select_8_mask c)
  also have "\<dots> = b64_char n"
    unfolding b64_char_eq [OF n] x by (simp add: of_nat_diff)
  finally show ?thesis by (simp add: n_def)
qed

lemma base64_ascii_to_bin_eq:
  "base64_ascii_to_bin c =
     (if 65 \<le> c \<and> c \<le> 90 then c - 65 else if 97 \<le> c \<and> c \<le> 122 then c - 97 + 26
      else if 48 \<le> c \<and> c \<le> 57 then c - 48 + 52 else if c = 43 then 62 else if c = 47 then 63
      else if c = 61 then 0 else - 1)"
proof -
  have e: "constant_time_eq_8 (ucast c) k = (if c = ucast k then - 1 else 0)" if "k = 43 \<or> k = 47 \<or> k = 61" for k
    using that constant_time_eq_8_byte [of c 43] constant_time_eq_8_byte [of c 47] constant_time_eq_8_byte [of c 61] by auto
  show ?thesis
    by (auto simp: base64_ascii_to_bin_def Let_def constant_time_in_range_8_mask e word_less_nat_alt word_le_nat_alt)
qed

lemma unat_b64_char:
  "n < 64 \<Longrightarrow> unat (b64_char n) = (if n < 26 then n + 65 else if n < 52 then n + 71 else if n < 62 then n - 4
     else if n = 62 then 43 else 47)"
  by (simp add: b64_char_eq unat_of_nat)

lemma b64_char_neq:
  assumes "n < 64"
  shows "b64_char n \<noteq> 61" "\<not> is_base64_space (b64_char n)"
  using unat_b64_char [OF assms] by (auto simp: is_base64_space_def split: if_splits)

lemma base64_ascii_to_bin_char: "n < 64 \<Longrightarrow> base64_ascii_to_bin (b64_char n) = of_nat n"
proof -
  assume n: "n < 64"
  consider "n < 26" | "26 \<le> n" "n < 52" | "52 \<le> n" "n < 62" | "n = 62" | "n = 63" using n by linarith
  then show ?thesis
  proof cases
    case 1
    then have "base64_ascii_to_bin (b64_char n) = b64_char n - 65"
      using n by (simp add: base64_ascii_to_bin_eq word_le_nat_alt unat_b64_char)
    with 1 show ?thesis by (simp add: b64_char_eq)
  next
    case 2
    then have "base64_ascii_to_bin (b64_char n) = b64_char n - 97 + 26"
      using n by (simp add: base64_ascii_to_bin_eq word_le_nat_alt unat_b64_char)
    with 2 show ?thesis by (simp add: b64_char_eq of_nat_diff)
  next
    case 3
    then obtain k where "n = 52 + k" using le_iff_add [of 52 n] by blast
    with 3 have k: "n = 52 + k" "k < 10" by simp_all
    then have "base64_ascii_to_bin (b64_char n) = b64_char n - 48 + 52"
      using n by (simp add: base64_ascii_to_bin_eq word_le_nat_alt unat_b64_char)
    with k show ?thesis by (simp add: b64_char_eq)
  qed (simp_all add: base64_ascii_to_bin_eq b64_char_eq)
qed

section \<open>Blocks\<close>

text \<open>The reference: three bytes are four base-64 digits of their big-endian value.\<close>

definition b64_quad :: "nat \<Rightarrow> u8 list" where
  "b64_quad v = map (\<lambda>k. b64_char (v div 2 ^ k mod 64)) [18, 12, 6, 0]"

fun b64 :: "u8 list \<Rightarrow> u8 list" where
  "b64 [] = []"
| "b64 [a] = take 2 (b64_quad (be_val [a, 0, 0])) @ [61, 61]"
| "b64 [a, b] = take 3 (b64_quad (be_val [a, b, 0])) @ [61]"
| "b64 (a # b # c # bs) = b64_quad (be_val [a, b, c]) @ b64 bs"

lemma unat_ucast_byte_32 [simp]: "unat (ucast (b :: u8) :: u32) = unat b"
  by (simp add: unsigned_ucast_eq take_bit_eq_mod order_less_trans [OF unat_byte_less])

lemma unat_pack3: "unat (push_bit 16 (ucast a) OR push_bit 8 (ucast b) OR ucast c :: u32) = be_val [a, b, c :: u8]"
proof -
  have 1: "unat (push_bit 8 (ucast b) OR ucast c :: u32) = unat b * 256 + unat c"
    using unat_push_bit_or [of "ucast b :: u32" 8 "ucast c"] unat_byte_less [of b] by simp
  then have "unat (push_bit 16 (ucast a) OR (push_bit 8 (ucast b) OR ucast c) :: u32) = unat a * 65536 + (unat b * 256 + unat c)"
    using unat_push_bit_or [of "ucast a :: u32" 16 "push_bit 8 (ucast b) OR ucast c"] unat_byte_le [of a] unat_byte_le [of b]
      unat_byte_le [of c] by (simp del: unat_byte_le)
  then show ?thesis by (simp add: be_val_Cons or.assoc)
qed

lemma conv_digit: "conv_bin2ascii (ucast (drop_bit k (l :: u32))) = b64_char (unat l div 2 ^ k mod 64)"
proof -
  have "unat (ucast (drop_bit k l) :: u8) = unat l div 2 ^ k mod 256"
    by (simp add: unsigned_ucast_eq take_bit_eq_mod unat_drop_bit)
  then show ?thesis by (simp add: conv_bin2ascii_char mod_mod_cancel)
qed

lemma encode_rounds_b64: "encode_rounds src = b64 src"
proof (induction src rule: encode_rounds.induct)
  case (2 s0)
  have "(push_bit 16 (ucast s0) :: u32) = push_bit 16 (ucast s0) OR push_bit 8 (ucast (0 :: u8)) OR ucast (0 :: u8)" by simp
  then have "unat (push_bit 16 (ucast s0) :: u32) = be_val [s0, 0, 0]" by (metis unat_pack3)
  then show ?case by (simp add: conv_digit b64_quad_def)
next
  case (3 s0 s1)
  have "(push_bit 16 (ucast s0) OR push_bit 8 (ucast s1) :: u32) = push_bit 16 (ucast s0) OR push_bit 8 (ucast s1) OR ucast (0 :: u8)" by simp
  then have "unat (push_bit 16 (ucast s0) OR push_bit 8 (ucast s1) :: u32) = be_val [s0, s1, 0]" by (metis unat_pack3)
  then show ?case by (simp add: conv_digit b64_quad_def)
next
  case (4 s0 s1 s2 src)
  have "conv_bin2ascii (ucast l) = b64_char (unat l mod 64)" for l :: u32 using conv_digit [of 0 l] by simp
  with 4 show ?case unfolding encode_rounds.simps Let_def conv_digit unat_pack3 by (simp add: b64_quad_def unat_pack3)
qed simp

text \<open>Decoding four digits gives back the bytes of their value; padding shortens the result.\<close>

lemma unat_pack4:
  assumes "a < 64" "b < 64" "c < 64" "d < (64 :: nat)"
  shows "unat (push_bit 18 (ucast (of_nat a :: u8)) OR push_bit 12 (ucast (of_nat b :: u8)) OR
      push_bit 6 (ucast (of_nat c :: u8)) OR ucast (of_nat d :: u8) :: u32) = a * 2 ^ 18 + b * 2 ^ 12 + c * 2 ^ 6 + d"
proof -
  have u: "unat (ucast (of_nat n :: u8) :: u32) = n" if "n < 64" for n using that by simp
  let ?a = "ucast (of_nat a :: u8) :: u32" and ?b = "ucast (of_nat b :: u8) :: u32"
    and ?c = "ucast (of_nat c :: u8) :: u32" and ?d = "ucast (of_nat d :: u8) :: u32"
  have 1: "unat (push_bit 6 ?c OR ?d) = c * 2 ^ 6 + d"
    using unat_push_bit_or [of ?c 6 ?d] assms u by simp
  have 2: "unat (push_bit 12 ?b OR (push_bit 6 ?c OR ?d)) = b * 2 ^ 12 + (c * 2 ^ 6 + d)"
    using unat_push_bit_or [of ?b 12 "push_bit 6 ?c OR ?d"] assms u 1 by simp
  have "unat (push_bit 18 ?a OR (push_bit 12 ?b OR (push_bit 6 ?c OR ?d))) = a * 2 ^ 18 + (b * 2 ^ 12 + (c * 2 ^ 6 + d))"
    using unat_push_bit_or [of ?a 18 "push_bit 12 ?b OR (push_bit 6 ?c OR ?d)"] assms u 2 by simp
  then show ?thesis by (simp add: or.assoc)
qed

lemma be_bytes_3: "be_bytes 3 v = [of_nat (v div 65536), of_nat (v div 256), of_nat v]"
  unfolding numeral_3_eq_3 by (simp add: div_mult2_eq [symmetric])

lemma decode_quad_bins:
  assumes "base64_ascii_to_bin i0 = of_nat a" "base64_ascii_to_bin i1 = of_nat b"
    "base64_ascii_to_bin i2 = of_nat c" "base64_ascii_to_bin i3 = of_nat d"
    and b: "a < 64" "b < 64" "c < 64" "d < 64"
  defines "v \<equiv> a * 2 ^ 18 + b * 2 ^ 12 + c * 2 ^ 6 + d"
  shows "base64_decode_quad i0 i1 i2 i3 =
    (if i0 = 61 \<or> i1 = 61 then None
     else if i2 \<noteq> 61 \<and> i3 \<noteq> 61 then Some (be_bytes 3 v)
     else if i2 \<noteq> 61 \<and> i3 = 61 then Some (take 2 (be_bytes 3 v))
     else if i3 = 61 then Some (take 1 (be_bytes 3 v)) else None)"
proof -
  define l :: u32 where "l = push_bit 18 (ucast (of_nat a :: u8)) OR push_bit 12 (ucast (of_nat b :: u8)) OR
      push_bit 6 (ucast (of_nat c :: u8)) OR ucast (of_nat d :: u8)"
  have l: "unat l = v" unfolding l_def v_def by (rule unat_pack4 [OF b])
  have nf: "(of_nat n :: u8) \<noteq> 255" if "n < 64" for n using that by (simp add: word_unat_eq_iff unat_of_nat)
  have w: "ucast (drop_bit k l) = (of_nat (v div 2 ^ k) :: u8)" for k
    by (metis l of_nat_unat unat_drop_bit)
  have bb: "be_bytes 3 v = [ucast (drop_bit 16 l), ucast (drop_bit 8 l), ucast l]"
    using w [of 16] w [of 8] w [of 0] by (simp add: be_bytes_3)
  show ?thesis
    unfolding bb base64_decode_quad_def Let_def assms(1-4) l_def [symmetric] using nf b by simp
qed

lemma decode_quad_chars:
  assumes "a < 64" "b < 64" "c < 64" "d < 64"
  defines "v \<equiv> a * 2 ^ 18 + b * 2 ^ 12 + c * 2 ^ 6 + d"
  shows "base64_decode_quad (b64_char a) (b64_char b) (b64_char c) (b64_char d) = Some (be_bytes 3 v)"
    and "d = 0 \<Longrightarrow> base64_decode_quad (b64_char a) (b64_char b) (b64_char c) 61 = Some (take 2 (be_bytes 3 v))"
    and "c = 0 \<Longrightarrow> d = 0 \<Longrightarrow> base64_decode_quad (b64_char a) (b64_char b) 61 61 = Some (take 1 (be_bytes 3 v))"
proof -
  have z: "base64_ascii_to_bin 61 = of_nat 0" by (simp add: base64_ascii_to_bin_eq)
  note ch = base64_ascii_to_bin_char [OF assms(1)] base64_ascii_to_bin_char [OF assms(2)]
    base64_ascii_to_bin_char [OF assms(3)] base64_ascii_to_bin_char [OF assms(4)]
  note n = b64_char_neq(1) [OF assms(1)] b64_char_neq(1) [OF assms(2)] b64_char_neq(1) [OF assms(3)] b64_char_neq(1) [OF assms(4)]
  show "base64_decode_quad (b64_char a) (b64_char b) (b64_char c) (b64_char d) = Some (be_bytes 3 v)"
    unfolding decode_quad_bins [OF ch assms(1-4)] v_def using n by simp
  show "base64_decode_quad (b64_char a) (b64_char b) (b64_char c) 61 = Some (take 2 (be_bytes 3 v))" if "d = 0"
    using decode_quad_bins [OF ch(1-3) z assms(1-3)] n that unfolding v_def by simp
  show "base64_decode_quad (b64_char a) (b64_char b) 61 61 = Some (take 1 (be_bytes 3 v))" if "c = 0" "d = 0"
    using decode_quad_bins [OF ch(1,2) z z assms(1,2)] n that unfolding v_def by simp
qed

lemma be_val_3: "be_val [a, b, c :: u8] = unat a * 65536 + unat b * 256 + unat c"
  by (simp add: be_val_Cons)

lemma be_val_3_less: "be_val [a, b, c :: u8] < 2 ^ 24"
  using be_val_less [of "[a, b, c]"] by simp

lemma quad_value:
  assumes "v < 2 ^ 24"
  shows "v div 2 ^ 18 mod 64 * 2 ^ 18 + v div 2 ^ 12 mod 64 * 2 ^ 12 + v div 2 ^ 6 mod 64 * 2 ^ 6 + v mod 64 = (v :: nat)"
proof -
  have "v div 2 ^ 18 mod 64 = v div 2 ^ 18" using assms by (simp add: less_mult_imp_div_less)
  moreover have "v div 2 ^ 12 = v div 2 ^ 18 * 64 + v div 2 ^ 12 mod 64"
    using div_mult2_eq [of v "2 ^ 12" 64] div_mult_mod_eq [of "v div 2 ^ 12" 64] by simp
  moreover have "v div 2 ^ 6 = v div 2 ^ 12 * 64 + v div 2 ^ 6 mod 64"
    using div_mult2_eq [of v "2 ^ 6" 64] div_mult_mod_eq [of "v div 2 ^ 6" 64] by simp
  moreover have "v = v div 2 ^ 6 * 64 + v mod 64" using div_mult_mod_eq [of v 64] by simp
  moreover have "p * 2 ^ 18 + x * 2 ^ 12 + y * 2 ^ 6 + z = v"
    if "q = p * 64 + x" "r = q * 64 + y" "v = r * 64 + z" for p q r x y z using that by simp
  ultimately show ?thesis by metis
qed

lemma be_bytes_be_val_3: "be_bytes 3 (be_val [a, b, c]) = [a, b, c :: u8]"
  using be_bytes_be_val [of "[a, b, c]"] by (simp add: numeral_3_eq_3 del: be_bytes.simps)

lemma decode_quads_b64: "decode_quads (b64 bs) = Some bs"
proof (induction bs rule: b64.induct)
  case (2 a)
  let ?v = "be_val [a, 0, 0]"
  have v: "?v < 2 ^ 24" by (rule be_val_3_less)
  have "?v = unat a * 1024 * 64" by (simp add: be_val_3)
  then have d: "?v mod 64 = 0" "?v div 2 ^ 6 mod 64 = 0" by simp_all
  have "base64_decode_quad (b64_char (?v div 2 ^ 18 mod 64)) (b64_char (?v div 2 ^ 12 mod 64)) 61 61 = Some [a]"
    using decode_quad_chars(3) [of "?v div 2 ^ 18 mod 64" "?v div 2 ^ 12 mod 64" "?v div 2 ^ 6 mod 64" "?v mod 64"]
    unfolding quad_value [OF v] be_bytes_be_val_3 using d by simp
  then show ?case by (simp add: b64_quad_def)
next
  case (3 a b)
  let ?v = "be_val [a, b, 0]"
  have v: "?v < 2 ^ 24" by (rule be_val_3_less)
  have "?v = (unat a * 1024 + unat b * 4) * 64" by (simp add: be_val_3)
  then have d: "?v mod 64 = 0" by simp
  have "base64_decode_quad (b64_char (?v div 2 ^ 18 mod 64)) (b64_char (?v div 2 ^ 12 mod 64)) (b64_char (?v div 2 ^ 6 mod 64)) 61
      = Some [a, b]"
    using decode_quad_chars(2) [of "?v div 2 ^ 18 mod 64" "?v div 2 ^ 12 mod 64" "?v div 2 ^ 6 mod 64" "?v mod 64"]
    unfolding quad_value [OF v] be_bytes_be_val_3 using d by simp
  then show ?case by (simp add: b64_quad_def)
next
  case (4 a b c bs)
  let ?v = "be_val [a, b, c]"
  have "base64_decode_quad (b64_char (?v div 2 ^ 18 mod 64)) (b64_char (?v div 2 ^ 12 mod 64)) (b64_char (?v div 2 ^ 6 mod 64))
      (b64_char (?v mod 64)) = Some [a, b, c]"
    using decode_quad_chars(1) [of "?v div 2 ^ 18 mod 64" "?v div 2 ^ 12 mod 64" "?v div 2 ^ 6 mod 64" "?v mod 64"]
    unfolding quad_value [OF be_val_3_less] be_bytes_be_val_3 by simp
  with 4 show ?case by (simp add: b64_quad_def)
qed simp

lemma length_b64: "length (b64 bs) = (length bs + 2) div 3 * 4"
proof (induction bs rule: b64.induct)
  case (4 a b c bs)
  have "(length bs + 5) div 3 = (length bs + 2) div 3 + 1" by presburger
  with 4 show ?case by (simp add: b64_quad_def add.commute)
qed (simp_all add: b64_quad_def)

section \<open>Streaming encoder\<close>

text \<open>The reference output of the streaming encoder: lines of 48 input bytes, each followed by a newline.\<close>

function b64_lines :: "u8 list \<Rightarrow> u8 list" where
  "b64_lines bs = (if bs = [] then [] else b64 (take 48 bs) @ [10] @ b64_lines (drop 48 bs))"
  by pat_completeness auto
termination
  by (relation "measure length") auto

function full_lines :: "u8 list \<Rightarrow> u8 list" where
  "full_lines bs = (if 48 \<le> length bs then b64 (take 48 bs) @ [10] @ full_lines (drop 48 bs) else [])"
  by pat_completeness auto
termination
  by (relation "measure length") auto

function rest48 :: "u8 list \<Rightarrow> u8 list" where
  "rest48 bs = (if 48 \<le> length bs then rest48 (drop 48 bs) else bs)"
  by pat_completeness auto
termination
  by (relation "measure length") auto

declare b64_lines.simps [simp del] full_lines.simps [simp del] rest48.simps [simp del]

lemma b64_lines_append: "b64_lines (bs @ ys) = full_lines bs @ b64_lines (rest48 bs @ ys)"
proof (induction bs rule: full_lines.induct)
  case (1 bs)
  show ?case
  proof (cases "48 \<le> length bs")
    case True
    then have "b64_lines (bs @ ys) = b64 (take 48 bs) @ [10] @ b64_lines (drop 48 bs @ ys)"
      by (subst b64_lines.simps) auto
    with True 1 show ?thesis by (simp add: full_lines.simps [of bs] rest48.simps [of bs])
  qed (simp add: full_lines.simps [of bs] rest48.simps [of bs])
qed

lemma rest48_less: "length (rest48 bs) < 48"
  by (induction bs rule: rest48.induct) (subst rest48.simps, simp)

lemma rest48_le: "length (rest48 bs) \<le> length bs"
  by (induction bs rule: rest48.induct) (subst rest48.simps, auto)

lemma length_full_lines: "length (full_lines bs) = length bs div 48 * 65"
proof (induction bs rule: full_lines.induct)
  case (1 bs)
  show ?case
  proof (cases "48 \<le> length bs")
    case True
    then have "length bs div 48 = (length bs - 48) div 48 + 1" by (simp add: le_div_geq)
    with True 1 show ?thesis by (simp add: full_lines.simps [of bs] length_b64)
  qed (simp add: full_lines.simps [of bs])
qed

lemma encode_line_b64: "encode_line src = (b64 src @ [10], length (b64 src))"
  by (simp add: encode_line_def EVP_EncodeBlock_def encode_rounds_b64 Let_def)

lemma encode_lines_full:
  assumes "tot + length (full_lines inp) \<le> SIZE_MAX"
  shows "encode_lines inp out tot = Inr (out @ full_lines inp, tot + length (full_lines inp), rest48 inp)"
  using assms
proof (induction inp out tot rule: encode_lines.induct)
  case (1 inp out tot)
  show ?case
  proof (cases "48 \<le> length inp")
    case True
    have l: "length (b64 (take 48 inp)) = 64" using True by (simp add: length_b64)
    have f: "length (full_lines inp) = 65 + length (full_lines (drop 48 inp))"
      using True l by (simp add: full_lines.simps [of inp])
    then have s: "size_add tot 65 = tot + 65" using "1.prems" by (intro size_add_exact) simp
    have "encode_lines (drop 48 inp) (out @ b64 (take 48 inp) @ [10]) (size_add tot (64 + 1)) =
        Inr ((out @ b64 (take 48 inp) @ [10]) @ full_lines (drop 48 inp),
          size_add tot (64 + 1) + length (full_lines (drop 48 inp)), rest48 (drop 48 inp))"
      by (rule "1.IH" [OF True]) (use "1.prems" f s l in \<open>simp_all add: encode_line_b64\<close>)
    with True l s show ?thesis
      by (simp add: encode_lines.simps [of inp] encode_line_b64 full_lines.simps [of inp] rest48.simps [of inp])
  qed (simp add: encode_lines.simps [of inp] full_lines.simps [of inp] rest48.simps [of inp])
qed

definition enc_wf :: "EVP_ENCODE_CTX \<Rightarrow> bool" where
  "enc_wf ctx \<longleftrightarrow> length (ctx_data ctx) = 48 \<and> data_used ctx < 48"

definition pending :: "EVP_ENCODE_CTX \<Rightarrow> u8 list" where
  "pending ctx = take (data_used ctx) (ctx_data ctx)"

lemma length_pending: "enc_wf ctx \<Longrightarrow> length (pending ctx) = data_used ctx"
  by (simp add: enc_wf_def pending_def)

lemma EVP_EncodeUpdate_spec:
  assumes wf: "enc_wf ctx" and inp: "inp \<noteq> []" "length inp \<le> 2 ^ 30"
  shows "\<exists>n out ctx'. EVP_EncodeUpdate ctx inp = \<lparr>enc_ret = True, enc_out_len = n, enc_out = out, enc_ctx = ctx'\<rparr> \<and>
    take n out = full_lines (pending ctx @ inp) \<and> enc_wf ctx' \<and> pending ctx' = rest48 (pending ctx @ inp)"
proof (cases "48 - data_used ctx > length inp")
  case True
  with wf inp show ?thesis
    by (auto simp: EVP_EncodeUpdate_def enc_wf_def pending_def full_lines.simps [of "_ @ inp"] rest48.simps [of "_ @ inp"]
        take_buf_write_exact)
next
  case False
  let ?p = "pending ctx" and ?todo = "48 - data_used ctx"
  have lp: "length ?p = data_used ctx" and du: "data_used ctx < 48" and ld: "length (ctx_data ctx) = 48"
    using wf length_pending by (auto simp: enc_wf_def)
  define ctx1 where "ctx1 = (if data_used ctx \<noteq> 0
    then ctx\<lparr>ctx_data := ?p @ take ?todo inp, data_used := 0\<rparr> else ctx)"
  define out1 where "out1 = (if data_used ctx \<noteq> 0 then b64 (?p @ take ?todo inp) @ [10] else [])"
  define inp1 where "inp1 = (if data_used ctx \<noteq> 0 then drop ?todo inp else inp)"
  have bw: "buf_write (ctx_data ctx) (data_used ctx) (take ?todo inp) = ?p @ take ?todo inp"
    using False ld du by (simp add: buf_write_def pending_def)
  have fl: "full_lines (?p @ inp) = out1 @ full_lines inp1" "rest48 (?p @ inp) = rest48 inp1"
  proof -
    have d: "take 48 ?p = ?p" "drop 48 ?p = []" using lp du by simp_all
    have ge: "48 \<le> data_used ctx + length inp" using False by simp
    show "full_lines (?p @ inp) = out1 @ full_lines inp1"
    proof (cases "data_used ctx = 0")
      case True
      then show ?thesis by (simp add: out1_def inp1_def pending_def)
    next
      case nz: False
      with ge lp show ?thesis by (simp add: out1_def inp1_def full_lines.simps [of "?p @ inp"] d)
    qed
    show "rest48 (?p @ inp) = rest48 inp1"
    proof (cases "data_used ctx = 0")
      case True
      then show ?thesis by (simp add: inp1_def pending_def)
    next
      case nz: False
      with ge lp show ?thesis by (simp add: inp1_def rest48.simps [of "?p @ inp"] d)
    qed
  qed
  have small: "length (full_lines (?p @ inp)) \<le> INT_MAX"
    using inp(2) lp du unfolding length_full_lines by (simp add: div_le_mono [of "length (?p @ inp)" "2 ^ 30 + 48" 48, THEN order_trans])
  have el: "encode_lines inp1 out1 (length out1) = Inr (full_lines (?p @ inp), length (full_lines (?p @ inp)), rest48 inp1)"
    using encode_lines_full [of "length out1" inp1 out1] small fl by simp
  have "EVP_EncodeUpdate ctx inp = \<lparr>enc_ret = True, enc_out_len = length (full_lines (?p @ inp)),
      enc_out = full_lines (?p @ inp) @ [0],
      enc_ctx = (if length (rest48 inp1) \<noteq> 0 then ctx1\<lparr>ctx_data := buf_write (ctx_data ctx1) 0 (rest48 inp1)\<rparr> else ctx1)
         \<lparr>data_used := length (rest48 inp1)\<rparr>\<rparr>"
    using False inp(1) el small
    by (auto simp: EVP_EncodeUpdate_def Let_def bw encode_line_b64 ctx1_def out1_def inp1_def)
  moreover have "length (ctx_data ctx1) = 48" using ld lp False du by (simp add: ctx1_def)
  moreover have "length (rest48 inp1) < 48" by (rule rest48_less)
  ultimately show ?thesis
    by (auto simp: fl(2) [unfolded pending_def] enc_wf_def pending_def take_buf_write_exact [of 0, simplified])
qed

text \<open>A run of the streaming encoder over a sequence of chunks; \<open>None\<close> if an update fails.\<close>

fun encode_stream :: "EVP_ENCODE_CTX \<Rightarrow> u8 list list \<Rightarrow> u8 list option" where
  "encode_stream ctx [] = (case EVP_EncodeFinal ctx of (out, n, ctx) \<Rightarrow> Some (take n out))"
| "encode_stream ctx (c # cs) =
     (let r = EVP_EncodeUpdate ctx c
      in if enc_ret r then map_option ((@) (take (enc_out_len r) (enc_out r))) (encode_stream (enc_ctx r) cs) else None)"

lemma encode_stream_lines:
  assumes "enc_wf ctx" "list_all (\<lambda>c. c \<noteq> [] \<and> length c \<le> 2 ^ 30) cs"
  shows "encode_stream ctx cs = Some (b64_lines (pending ctx @ concat cs))"
  using assms
proof (induction cs arbitrary: ctx)
  case Nil
  then show ?case
    by (auto simp: EVP_EncodeFinal_def encode_line_b64 pending_def enc_wf_def b64_lines.simps [of "take _ _"] b64_lines.simps [of "[]"])
next
  case (Cons c cs)
  then have c: "c \<noteq> []" "length c \<le> 2 ^ 30" by simp_all
  from EVP_EncodeUpdate_spec [OF Cons.prems(1) c] obtain n out ctx' where
    u: "EVP_EncodeUpdate ctx c = \<lparr>enc_ret = True, enc_out_len = n, enc_out = out, enc_ctx = ctx'\<rparr>"
      "take n out = full_lines (pending ctx @ c)" "enc_wf ctx'" "pending ctx' = rest48 (pending ctx @ c)" by blast
  with Cons.IH [OF u(3)] Cons.prems(2) show ?case
    using b64_lines_append [of "pending ctx @ c" "concat cs"] by (simp add: Let_def)
qed

section \<open>Streaming decoder\<close>

text \<open>
  \<open>dq e s\<close> decodes the quads of \<open>s\<close>, where \<open>e\<close> says that padding has been seen; it
  returns the bytes, whether padding has been seen and the unfinished quad.
\<close>

fun dq :: "bool \<Rightarrow> u8 list \<Rightarrow> (u8 list \<times> bool \<times> u8 list) option" where
  "dq e (a # b # c # d # s) =
     (if e then None
      else case base64_decode_quad a b c d of
             None \<Rightarrow> None
           | Some bs \<Rightarrow> (case dq (length bs < 3) s of None \<Rightarrow> None | Some (out, r) \<Rightarrow> Some (bs @ out, r)))"
| "dq e s = (if e \<and> s \<noteq> [] then None else Some ([], e, s))"

lemma dq_short: "length s < 4 \<Longrightarrow> dq e s = (if e \<and> s \<noteq> [] then None else Some ([], e, s))"
  by (cases "(e, s)" rule: dq.cases) auto

lemma dq_eof: "dq True s = (if s = [] then Some ([], True, []) else None)"
  by (cases "(True, s)" rule: dq.cases) auto

lemma dq_append:
  "dq e (s @ t) = (case dq e s of None \<Rightarrow> None | Some (o1, e1, p1) \<Rightarrow>
     (case dq e1 (p1 @ t) of None \<Rightarrow> None | Some (o2, r) \<Rightarrow> Some (o1 @ o2, r)))"
proof (induction e s rule: dq.induct)
  case (1 e a b c d s)
  then show ?case by (auto split: option.splits prod.splits)
qed (auto simp: dq_eof split: option.splits prod.splits)

definition dec_wf :: "EVP_ENCODE_CTX \<Rightarrow> bool" where
  "dec_wf ctx \<longleftrightarrow> length (ctx_data ctx) = 48 \<and> data_used ctx < 4 \<and> \<not> error_encountered ctx \<and>
     (eof_seen ctx \<longrightarrow> data_used ctx = 0)"

lemma decode_chars_spec:
  assumes "dec_wf ctx"
  shows "case dq (eof_seen ctx) (pending ctx @ filter (\<lambda>c. \<not> is_base64_space c) inp) of
      None \<Rightarrow> \<exists>ctx'. decode_chars ctx inp out = (None, ctx') \<and> error_encountered ctx'
    | Some (bs, e, p) \<Rightarrow>
        \<exists>ctx'. decode_chars ctx inp out = (Some (out @ bs), ctx') \<and> dec_wf ctx' \<and> eof_seen ctx' = e \<and> pending ctx' = p"
  using assms
proof (induction inp arbitrary: ctx out)
  case Nil
  then have "length (pending ctx) < 4" by (simp add: dec_wf_def pending_def)
  with Nil show ?case by (auto simp: dq_short dec_wf_def pending_def)
next
  case (Cons c inp)
  let ?s = "filter (\<lambda>c. \<not> is_base64_space c) inp"
  have wf: "length (ctx_data ctx) = 48" "data_used ctx < 4" "\<not> error_encountered ctx" "eof_seen ctx \<Longrightarrow> data_used ctx = 0"
    using Cons.prems by (auto simp: dec_wf_def)
  show ?case
  proof (cases "is_base64_space c \<or> eof_seen ctx")
    case True
    show ?thesis
    proof (cases "is_base64_space c")
      case sp: True
      then have e: "decode_chars ctx (c # inp) out = decode_chars ctx inp out"
        "filter (\<lambda>c. \<not> is_base64_space c) (c # inp) = ?s" by simp_all
      show ?thesis unfolding e by (rule Cons.IH [OF Cons.prems])
    next
      case False
      with True wf show ?thesis by (auto simp: dq_eof pending_def)
    qed
  next
    case False
    define ctx1 where "ctx1 = ctx\<lparr>ctx_data := (ctx_data ctx)[data_used ctx := c], data_used := data_used ctx + 1\<rparr>"
    have p1: "pending ctx1 = pending ctx @ [c]" using wf by (simp add: ctx1_def pending_def take_Suc_conv_app_nth)
    show ?thesis
    proof (cases "data_used ctx = 3")
      case nq: False
      have "dec_wf ctx1" using wf nq False by (simp add: dec_wf_def ctx1_def)
      have e: "decode_chars ctx (c # inp) out = decode_chars ctx1 inp out" "eof_seen ctx = eof_seen ctx1"
        "pending ctx @ filter (\<lambda>c. \<not> is_base64_space c) (c # inp) = pending ctx1 @ ?s"
        using False nq by (simp_all add: p1) (simp_all add: ctx1_def Let_def)
      show ?thesis unfolding e by (rule Cons.IH [OF \<open>dec_wf ctx1\<close>])
    next
      case q: True
      define q0 q1 q2 q3 where "q0 = ctx_data ctx1 ! 0" "q1 = ctx_data ctx1 ! 1" "q2 = ctx_data ctx1 ! 2" "q3 = ctx_data ctx1 ! 3"
      have "take 4 (ctx_data ctx1) = [q0, q1, q2, q3]"
        unfolding q0_q1_q2_q3_def by (rule nth_equalityI) (use wf in \<open>auto simp: ctx1_def nth_Cons' less_Suc_eq numeral_eq_Suc\<close>)
      then have pq: "pending ctx @ [c] = [q0, q1, q2, q3]" using p1 q by (simp add: pending_def ctx1_def)
      then have ps: "pending ctx @ c # ?s = q0 # q1 # q2 # q3 # ?s" by (metis append.assoc append_Cons append_Nil)
      show ?thesis
      proof (cases "base64_decode_quad q0 q1 q2 q3")
        case None
        with False q ps show ?thesis by (auto simp: Let_def ctx1_def q0_q1_q2_q3_def)
      next
        case (Some bs)
        define ctx2 where "ctx2 = (if length bs < 3 then ctx1\<lparr>data_used := 0, eof_seen := True\<rparr> else ctx1\<lparr>data_used := 0\<rparr>)"
        have "dec_wf ctx2" "pending ctx2 = []" "eof_seen ctx2 = (length bs < 3)"
          using wf False by (auto simp: dec_wf_def ctx2_def ctx1_def pending_def)
        moreover have "decode_chars ctx (c # inp) out = decode_chars ctx2 inp (out @ bs)"
          using False q Some by (simp add: Let_def ctx2_def ctx1_def q0_q1_q2_q3_def)
        ultimately show ?thesis using Cons.IH [of ctx2 "out @ bs"] Some False ps
          by (auto split: option.splits)
      qed
    qed
  qed
qed

text \<open>A run of the streaming decoder over a sequence of chunks; \<open>None\<close> if it fails.\<close>

fun decode_stream :: "EVP_ENCODE_CTX \<Rightarrow> u8 list list \<Rightarrow> u8 list option" where
  "decode_stream ctx [] = (if EVP_DecodeFinal ctx = 1 then Some [] else None)"
| "decode_stream ctx (c # cs) =
     (case EVP_DecodeUpdate ctx c of
        (ret, None, ctx) \<Rightarrow> None
      | (ret, Some out, ctx) \<Rightarrow> map_option ((@) out) (decode_stream ctx cs))"

definition dq_result :: "(u8 list \<times> bool \<times> u8 list) option \<Rightarrow> u8 list option" where
  "dq_result r = (case r of None \<Rightarrow> None | Some (out, e, p) \<Rightarrow> if p = [] then Some out else None)"

lemma length_decode_quad: "base64_decode_quad a b c d = Some bs \<Longrightarrow> length bs \<le> 3"
  by (auto simp: base64_decode_quad_def Let_def split: if_splits)

lemma length_dq: "dq e s = Some (out, r) \<Longrightarrow> length out \<le> length s"
proof (induction e s arbitrary: out r rule: dq.induct)
  case (1 e a b c d s)
  then obtain bs out' where "base64_decode_quad a b c d = Some bs" "dq (length bs < 3) s = Some (out', r)" "out = bs @ out'" "\<not> e"
    by (auto split: if_splits option.splits)
  with 1 length_decode_quad show ?case by fastforce
qed (auto split: if_splits)

lemma dq_decode_quads: "dq_result (dq False s) = (if length s mod 4 = 0 then decode_quads s else None)"
proof (induction s rule: decode_quads.induct)
  case (1 a b c d s)
  show ?case
  proof (cases "base64_decode_quad a b c d")
    case (Some bs)
    show ?thesis
    proof (cases "length bs = 3")
      case True
      with 1 [OF Some] Some show ?thesis
        by (cases "length s mod 4 = 0") (auto simp: dq_result_def split: option.splits dest: sym)
    next
      case False
      then have "length bs < 3" using length_decode_quad [OF Some] by simp
      with Some show ?thesis by (auto simp: dq_result_def dq_eof)
    qed
  qed (simp add: dq_result_def)
qed (auto simp: dq_result_def)

lemma decode_stream_spec:
  assumes "dec_wf ctx" "list_all (\<lambda>c. length c \<le> 2 ^ 30) cs"
  shows "decode_stream ctx cs = dq_result (dq (eof_seen ctx) (pending ctx @ filter (\<lambda>c. \<not> is_base64_space c) (concat cs)))"
  using assms
proof (induction cs arbitrary: ctx)
  case Nil
  then show ?case
    by (auto simp: EVP_DecodeFinal_def dq_short pending_def dec_wf_def dq_result_def)
next
  case (Cons c cs)
  let ?s = "pending ctx @ filter (\<lambda>c. \<not> is_base64_space c) c"
  have app: "pending ctx @ filter (\<lambda>c. \<not> is_base64_space c) (concat (c # cs)) =
      ?s @ filter (\<lambda>c. \<not> is_base64_space c) (concat cs)" by simp
  note ap = dq_append [of "eof_seen ctx" ?s "filter (\<lambda>c. \<not> is_base64_space c) (concat cs)"]
  have ne: "\<not> error_encountered ctx" using Cons.prems by (simp add: dec_wf_def)
  show ?case
  proof (cases "dq (eof_seen ctx) ?s")
    case None
    with decode_chars_spec [OF Cons.prems(1), of c "[]"] obtain ctx' where "decode_chars ctx c [] = (None, ctx')" by auto
    with ne have "decode_stream ctx (c # cs) = None" by (simp add: EVP_DecodeUpdate_def)
    then show ?thesis unfolding app ap None by (simp add: dq_result_def)
  next
    case (Some r)
    then obtain bs e p where r: "dq (eof_seen ctx) ?s = Some (bs, e, p)" by (cases r) auto
    with decode_chars_spec [OF Cons.prems(1), of c "[]"] obtain ctx' where
      c: "decode_chars ctx c [] = (Some bs, ctx')" "dec_wf ctx'" "eof_seen ctx' = e" "pending ctx' = p" by auto
    have "length bs \<le> length ?s" by (rule length_dq [OF r])
    also have "\<dots> \<le> 4 + length c"
      using Cons.prems(1) unfolding length_append by (intro add_mono length_filter_le) (simp add: dec_wf_def pending_def)
    finally have "length bs \<le> INT_MAX" using Cons.prems(2) by simp
    with c ne have "decode_stream ctx (c # cs) = map_option ((@) bs) (decode_stream ctx' cs)"
      by (simp add: EVP_DecodeUpdate_def)
    with Cons.IH [OF c(2)] Cons.prems(2) show ?thesis
      unfolding app ap r by (auto simp: c dq_result_def split: option.splits)
  qed
qed

lemma init_wf: "enc_wf encode_ctx_zero" "dec_wf encode_ctx_zero" "pending encode_ctx_zero = []" "\<not> eof_seen encode_ctx_zero"
  by (simp_all add: enc_wf_def dec_wf_def encode_ctx_zero_def pending_def)

section \<open>Properties\<close>

text \<open>
  C30. Block round trip: \<open>EVP_EncodeBlock\<close> writes the RFC 4648 encoding of its input
  followed by a NUL and returns its length, and \<open>EVP_DecodeBase64\<close> with room for the result
  decodes it to the input again.
\<close>

theorem base64_block_roundtrip:
  assumes "EVP_EncodeBlock src = (dst, n)"
  shows "dst = b64 src @ [0] \<and> n = length (b64 src) \<and>
    (n div 4 * 3 \<le> max_out \<longrightarrow> EVP_DecodeBase64 max_out (take n dst) = Some src)"
  using assms decode_quads_b64 [of src]
  by (auto simp: EVP_EncodeBlock_def encode_rounds_b64 Let_def EVP_DecodeBase64_def EVP_DecodedLength_def length_b64)

theorem base64_block_roundtrip_witness:
  "EVP_DecodeBase64 6 (take 8 (fst (EVP_EncodeBlock [77, 97, 110, 33]))) = Some [77, 97, 110, 33]"
proof -
  have n: "length (b64 [77, 97, 110, 33]) = 8" using length_b64 [of "[77, 97, 110, 33]"] by (simp del: b64.simps)
  obtain dst where e: "EVP_EncodeBlock [77, 97, 110, 33] = (dst, 8)"
    using n by (simp add: EVP_EncodeBlock_def encode_rounds_b64 Let_def del: b64.simps)
  have "EVP_DecodeBase64 6 (take 8 dst) = Some [77, 97, 110, 33]"
    using base64_block_roundtrip [OF e, of 6] by fastforce
  then show ?thesis by (simp add: e)
qed

text \<open>
  \<open>EVP_EncodedLength\<close> is exact: it returns the number of bytes \<open>EVP_EncodeBlock\<close>
  writes for an input of that length, NUL included, and fails exactly if that number does not
  fit \<open>size_t\<close>, whatever the wrap-around of its intermediate values.
\<close>

theorem EVP_EncodedLength_exact:
  assumes "length src \<le> SIZE_MAX"
  shows "EVP_EncodedLength (length src) =
    (if length (fst (EVP_EncodeBlock src)) \<le> SIZE_MAX then Some (length (fst (EVP_EncodeBlock src))) else None)"
proof -
  let ?n = "length src"
  have len: "length (fst (EVP_EncodeBlock src)) = (?n + 2) div 3 * 4 + 1"
    by (simp add: EVP_EncodeBlock_def encode_rounds_b64 Let_def length_b64)
  show ?thesis
  proof (cases "?n + 2 \<le> SIZE_MAX")
    case True
    define q where "q = (?n + 2) div 3"
    have a: "size_add ?n 2 = ?n + 2" using True by (rule size_add_exact)
    show ?thesis
    proof (cases "q * 4 \<le> SIZE_MAX")
      case fits: True
      then have m: "size_mul q 4 = q * 4" by (rule size_mul_exact)
      have "q \<le> 4611686018427387903" using fits by linarith
      then have le: "q * 4 + 1 \<le> SIZE_MAX" by simp
      then have "size_add (q * 4) 1 = q * 4 + 1" by (rule size_add_exact)
      then show ?thesis unfolding len EVP_EncodedLength_def Let_def a q_def [symmetric] using m le by simp
    next
      case False
      have "size_mul q 4 div 4 < q" using False size_mul_le_max [of q 4] by (simp add: div_less_iff_less_mult)
      then show ?thesis unfolding len EVP_EncodedLength_def Let_def a q_def [symmetric] using False by simp
    qed
  next
    case False
    then have "size_add ?n 2 < ?n" using size_add_overflow_iff [OF assms, of 2] by simp
    moreover have "SIZE_MAX < (?n + 2) div 3 * 4 + 1" using False by simp
    ultimately show ?thesis unfolding len by (simp add: EVP_EncodedLength_def)
  qed
qed

theorem EVP_EncodedLength_exact_witness:
  "EVP_EncodedLength 4 = Some (length (fst (EVP_EncodeBlock [1, 2, 3, 4])))"
proof -
  have "length (fst (EVP_EncodeBlock [1, 2, 3, 4])) = 9"
    using length_b64 [of "[1, 2, 3, 4]"] by (simp add: EVP_EncodeBlock_def encode_rounds_b64 Let_def del: b64.simps)
  moreover have "length [1, 2, 3, 4 :: u8] = 4" by simp
  ultimately show ?thesis using EVP_EncodedLength_exact [of "[1, 2, 3, 4]"] by (simp only: if_True) simp
qed

text \<open>
  C31. The streaming encoder does not depend on how the input is split: for any sequence of
  non-empty chunks of at most a gibibyte, every \<open>EVP_EncodeUpdate\<close> succeeds and the bytes
  written by the updates and \<open>EVP_EncodeFinal\<close> are the concatenated input encoded in lines of
  48 bytes, each ended by a newline.
\<close>

theorem base64_encode_stream:
  assumes "list_all (\<lambda>c. c \<noteq> [] \<and> length c \<le> 2 ^ 30) cs"
  shows "encode_stream (EVP_EncodeInit ctx) cs = Some (b64_lines (concat cs))"
  using encode_stream_lines [OF init_wf(1) assms] by (simp add: EVP_EncodeInit_def init_wf)

theorem base64_encode_stream_witness:
  "encode_stream (EVP_EncodeInit encode_ctx_zero) [[77], [97, 110]] = Some (b64_lines [77, 97, 110])"
  using base64_encode_stream [of "[[77], [97, 110]]" encode_ctx_zero] by simp

text \<open>
  C32. The streaming decoder ignores white space and chunk boundaries: for any sequence of
  chunks of at most a gibibyte it returns what the block decoder returns for the remaining
  characters, and fails if those are not a multiple of four characters, are not valid base64 or
  continue after padding.
\<close>

theorem base64_decode_stream:
  assumes "list_all (\<lambda>c. length c \<le> 2 ^ 30) cs"
  defines "s \<equiv> filter (\<lambda>c. \<not> is_base64_space c) (concat cs)"
  shows "decode_stream (EVP_DecodeInit ctx) cs = EVP_DecodeBase64 (length s) s"
proof -
  have "length s div 4 * 3 \<le> length s" by presburger
  then show ?thesis
    using decode_stream_spec [OF init_wf(2) assms(1)] dq_decode_quads [of s]
    by (simp add: EVP_DecodeInit_def init_wf s_def EVP_DecodeBase64_def EVP_DecodedLength_def)
qed

theorem base64_decode_stream_witness:
  "decode_stream (EVP_DecodeInit encode_ctx_zero) [[84, 87], [10, 70, 117]] = EVP_DecodeBase64 4 [84, 87, 70, 117]"
proof -
  have h: "list_all (\<lambda>c. length c \<le> 2 ^ 30) [[84, 87], [10, 70, 117 :: u8]]" by simp
  have s: "filter (\<lambda>c. \<not> is_base64_space c) (concat [[84, 87], [10, 70, 117]]) = [84, 87, 70, 117]"
    by (simp add: is_base64_space_def)
  have l: "length [84, 87, 70, 117 :: u8] = 4" by simp
  show ?thesis using base64_decode_stream [OF h, of encode_ctx_zero] unfolding s l .
qed

end
