(* ===== verification/Unicode.thy ===== *)
theory Unicode
  imports CbbProps
begin

text \<open>
  Unicode code points over byte strings, \<^verbatim>\<open>crypto/bytestring/unicode.c\<close>: the readers and
  writers of UTF-8, Latin-1, UCS-2 and UTF-32, and the proof that each reader accepts exactly the
  encodings of its format.
\<close>

section \<open>The code\<close>

definition is_valid_code_point :: "u32 \<Rightarrow> bool" where
  "is_valid_code_point v =
     (if v > 0x10ffff \<or> v AND 0xfffe = 0xfffe \<or> (v \<ge> 0xfdd0 \<and> v \<le> 0xfdef) \<or> (v \<ge> 0xd800 \<and> v \<le> 0xdfff) then False else True)"

definition BOTTOM_BITS :: "nat \<Rightarrow> u8" where
  "BOTTOM_BITS n = ucast (push_bit n (1 :: u32) - 1)"

definition TOP_BITS :: "nat \<Rightarrow> u8" where
  "TOP_BITS n = NOT (BOTTOM_BITS (8 - n))"

text \<open>The loop of \<open>cbs_get_utf8\<close> over the continuation bytes.\<close>

fun utf8_continuation :: "nat \<Rightarrow> u32 \<Rightarrow> (CBS, u32) op" where
  "utf8_continuation 0 v = pret v"
| "utf8_continuation (Suc n) v = pbind CBS_get_u8 (\<lambda>c.
     pbind (pguard (\<not> (c AND TOP_BITS 2 \<noteq> TOP_BITS 1))) (\<lambda>_.
       utf8_continuation n (push_bit 6 v OR ucast (c AND BOTTOM_BITS 6))))"

definition cbs_get_utf8 :: "(CBS, u32) op" where
  "cbs_get_utf8 = pbind CBS_get_u8 (\<lambda>c.
     if c \<le> 0x7f then pret (ucast c)
     else pbind (if c AND TOP_BITS 3 = TOP_BITS 2 then pret (ucast (c AND BOTTOM_BITS 5), 1, 0x80)
                 else if c AND TOP_BITS 4 = TOP_BITS 3 then pret (ucast (c AND BOTTOM_BITS 4), 2, 0x800)
                 else if c AND TOP_BITS 5 = TOP_BITS 4 then pret (ucast (c AND BOTTOM_BITS 3), 3, 0x10000)
                 else pfail)
       (\<lambda>(v, len, lower_bound). pbind (utf8_continuation len v)
         (\<lambda>v. pbind (pguard (\<not> (\<not> is_valid_code_point v \<or> v < lower_bound))) (\<lambda>_. pret v))))"

definition cbs_get_latin1 :: "(CBS, u32) op" where
  "cbs_get_latin1 = pbind CBS_get_u8 (\<lambda>c. pret (ucast c))"

definition cbs_get_ucs2_be :: "(CBS, u32) op" where
  "cbs_get_ucs2_be = pbind CBS_get_u16 (\<lambda>c. pbind (pguard (is_valid_code_point (ucast c))) (\<lambda>_. pret (ucast c)))"

definition cbs_get_utf32_be :: "(CBS, u32) op" where
  "cbs_get_utf32_be = pbind CBS_get_u32 (\<lambda>v. pbind (pguard (is_valid_code_point v)) (\<lambda>_. pret v))"

definition cbb_get_utf8_len :: "u32 \<Rightarrow> nat" where
  "cbb_get_utf8_len u = (if u \<le> 0x7f then 1 else if u \<le> 0x7ff then 2 else if u \<le> 0xffff then 3 else 4)"

text \<open>The byte \<open>t | x\<close> that is passed to \<open>CBB_add_u8\<close>, after conversion to \<open>uint8_t\<close>.\<close>

definition utf8_byte :: "u8 \<Rightarrow> u32 \<Rightarrow> u8" where
  "utf8_byte t x = ucast (ucast t OR x :: u32)"

definition cbb_add_utf8 :: "allocator \<Rightarrow> nat \<Rightarrow> u32 \<Rightarrow> (CBB, unit) op" where
  "cbb_add_utf8 al d u =
     (if \<not> is_valid_code_point u then pfail
      else if u \<le> 0x7f then CBB_add_u8 al d (ucast u)
      else if u \<le> 0x7ff
      then pbind (CBB_add_u8 al d (utf8_byte (TOP_BITS 2) (drop_bit 6 u))) (\<lambda>_.
           CBB_add_u8 al d (utf8_byte (TOP_BITS 1) (u AND ucast (BOTTOM_BITS 6))))
      else if u \<le> 0xffff
      then pbind (CBB_add_u8 al d (utf8_byte (TOP_BITS 3) (drop_bit 12 u))) (\<lambda>_.
           pbind (CBB_add_u8 al d (utf8_byte (TOP_BITS 1) (drop_bit 6 u AND ucast (BOTTOM_BITS 6)))) (\<lambda>_.
           CBB_add_u8 al d (utf8_byte (TOP_BITS 1) (u AND ucast (BOTTOM_BITS 6)))))
      else if u \<le> 0x10ffff
      then pbind (CBB_add_u8 al d (utf8_byte (TOP_BITS 4) (drop_bit 18 u))) (\<lambda>_.
           pbind (CBB_add_u8 al d (utf8_byte (TOP_BITS 1) (drop_bit 12 u AND ucast (BOTTOM_BITS 6)))) (\<lambda>_.
           pbind (CBB_add_u8 al d (utf8_byte (TOP_BITS 1) (drop_bit 6 u AND ucast (BOTTOM_BITS 6)))) (\<lambda>_.
           CBB_add_u8 al d (utf8_byte (TOP_BITS 1) (u AND ucast (BOTTOM_BITS 6))))))
      else pfail)"

definition cbb_add_latin1 :: "allocator \<Rightarrow> nat \<Rightarrow> u32 \<Rightarrow> (CBB, unit) op" where
  "cbb_add_latin1 al d u = (if u \<le> 0xff then CBB_add_u8 al d (ucast u) else pfail)"

definition cbb_add_ucs2_be :: "allocator \<Rightarrow> nat \<Rightarrow> u32 \<Rightarrow> (CBB, unit) op" where
  "cbb_add_ucs2_be al d u = (if u \<le> 0xffff \<and> is_valid_code_point u then CBB_add_u16 al d (ucast u) else pfail)"

definition cbb_add_utf32_be :: "allocator \<Rightarrow> nat \<Rightarrow> u32 \<Rightarrow> (CBB, unit) op" where
  "cbb_add_utf32_be al d u = (if is_valid_code_point u then CBB_add_u32 al d u else pfail)"

section \<open>Bit patterns of lead and continuation bytes\<close>

lemma BOTTOM_BITS_mask: "n \<le> 8 \<Longrightarrow> BOTTOM_BITS n = mask n"
  unfolding BOTTOM_BITS_def mask_eq_exp_minus_1 [symmetric, where 'a = "32 word"]
  by (rule bit_eqI) (auto simp: bit_simps mask_eq_exp_minus_1 [symmetric] push_bit_eq_mult)

lemma unat_and_BOTTOM_BITS: "n \<le> 8 \<Longrightarrow> unat (c AND BOTTOM_BITS n) = unat c mod 2 ^ n"
  by (rule unat_and_mask) (rule BOTTOM_BITS_mask)

lemma unat_and_TOP_BITS: "n \<le> 8 \<Longrightarrow> unat (c AND TOP_BITS n) = unat c div 2 ^ (8 - n) * 2 ^ (8 - n)"
proof -
  assume n: "n \<le> 8"
  let ?k = "8 - n"
  have "c AND TOP_BITS n = push_bit ?k (drop_bit ?k c)"
    by (rule bit_eqI) (auto simp: TOP_BITS_def BOTTOM_BITS_mask bit_simps)
  moreover have "unat (drop_bit ?k c) * 2 ^ ?k < 2 ^ LENGTH(8)"
    unfolding unat_drop_bit using le_less_trans [OF div_times_less_eq_dividend unat_byte_less] by simp
  ultimately show ?thesis by (simp add: unat_push_bit unat_drop_bit)
qed

lemma TOP_BITS_vals: "TOP_BITS 1 = 128" "TOP_BITS 2 = 192" "TOP_BITS 3 = 224" "TOP_BITS 4 = 240"
  by (simp_all add: TOP_BITS_def BOTTOM_BITS_def push_bit_eq_mult)

lemma top_bits_iff:
  "c AND TOP_BITS 2 = TOP_BITS 1 \<longleftrightarrow> unat c div 64 = 2"
  "c AND TOP_BITS 3 = TOP_BITS 2 \<longleftrightarrow> unat c div 32 = 6"
  "c AND TOP_BITS 4 = TOP_BITS 3 \<longleftrightarrow> unat c div 16 = 14"
  "c AND TOP_BITS 5 = TOP_BITS 4 \<longleftrightarrow> unat c div 8 = 30"
  using unat_and_TOP_BITS [of 2 c] unat_and_TOP_BITS [of 3 c] unat_and_TOP_BITS [of 4 c] unat_and_TOP_BITS [of 5 c]
  by (simp_all only: word_unat_eq_iff TOP_BITS_vals) simp_all

lemmas top_bits_simps = top_bits_iff top_bits_iff(1) [unfolded One_nat_def]

section \<open>The formats\<close>

definition cont_bytes :: "nat \<Rightarrow> nat \<Rightarrow> u8 list" where
  "cont_bytes n x = map (\<lambda>i. of_nat (128 + x div 64 ^ i mod 64)) (rev [0..<n])"

text \<open>The shortest UTF-8 form of a number.\<close>

definition utf8_bytes :: "nat \<Rightarrow> u8 list" where
  "utf8_bytes u =
     (if u < 0x80 then [of_nat u]
      else if u < 0x800 then of_nat (192 + u div 64) # cont_bytes 1 u
      else if u < 0x10000 then of_nat (224 + u div 64 ^ 2) # cont_bytes 2 u
      else of_nat (240 + u div 64 ^ 3) # cont_bytes 3 u)"

lemma cont_bytes_0 [simp]: "cont_bytes 0 x = []"
  by (simp add: cont_bytes_def)

lemma cont_bytes_Suc: "cont_bytes (Suc n) x = of_nat (128 + x div 64 ^ n mod 64) # cont_bytes n x"
  by (simp add: cont_bytes_def)

lemma cont_bytes_mod: "cont_bytes n (y * 64 ^ n + x) = cont_bytes n x"
proof -
  have "(y * 64 ^ n + x) div 64 ^ i mod 64 = x div 64 ^ i mod (64 :: nat)" if "i < n" for i
  proof -
    from that obtain k where k: "n = i + Suc k" by (auto simp: less_iff_Suc_add)
    have "(y * 64 ^ n + x) div 64 ^ i = (x + (y * 64 ^ k * 64) * 64 ^ i) div 64 ^ i" by (simp add: k power_add ac_simps)
    also have "\<dots> = y * 64 ^ k * 64 + x div 64 ^ i" by (rule div_mult_self1) simp
    finally show ?thesis by simp
  qed
  then show ?thesis by (simp add: cont_bytes_def)
qed

lemma digit_bound: "a < b \<Longrightarrow> x < m \<Longrightarrow> a * m + x < b * (m :: nat)"
proof -
  assume "a < b" "x < m"
  then have "a * m + x < Suc a * m" by simp
  also from \<open>a < b\<close> have "\<dots> \<le> b * m" by (intro mult_le_mono1) simp
  finally show ?thesis .
qed

lemma byte_of_top:
  assumes "unat (c :: u8) div 2 ^ k = t"
  shows "c = of_nat (t * 2 ^ k + unat c mod 2 ^ k)"
proof -
  have "t * 2 ^ k + unat c mod 2 ^ k = unat c" using assms div_mult_mod_eq [of "unat c" "2 ^ k"] by simp
  then show ?thesis by simp
qed

lemma utf8_step:
  assumes "unat v < 2 ^ 26"
  shows "unat (push_bit 6 v OR ucast (c AND BOTTOM_BITS 6) :: u32) = unat v * 64 + unat c mod 64"
proof -
  have "unat (ucast (c AND BOTTOM_BITS 6) :: u32) = unat c mod 64"
    using unat_and_BOTTOM_BITS [of 6 c] by (simp add: unsigned_ucast_eq take_bit_eq_mod)
  then show ?thesis using unat_push_bit_or [of v 6 "ucast (c AND BOTTOM_BITS 6)"] assms by simp
qed

lemma utf8_continuation_iff:
  assumes "Suc (unat v) * 64 ^ n \<le> 2 ^ 26"
  shows "utf8_continuation n v cbs = (Some w, rest) \<longleftrightarrow>
    (\<exists>x < 64 ^ n. unat w = unat v * 64 ^ n + x \<and> cbs = cont_bytes n x @ rest)"
  using assms
proof (induction n arbitrary: v cbs)
  case 0
  show ?case by (auto simp: word_unat_eq_iff)
next
  case (Suc n)
  have "Suc (unat v) * 1 \<le> Suc (unat v) * 64 ^ Suc n" by (intro mult_le_mono2) simp
  with Suc.prems have "Suc (unat v) \<le> 2 ^ 26" by (simp only: mult_1_right order_trans)
  then have v: "unat v < 2 ^ 26" by simp
  let ?v = "\<lambda>c. push_bit 6 v OR ucast (c AND BOTTOM_BITS 6) :: u32"
  have bound: "Suc (unat (?v c)) * 64 ^ n \<le> 2 ^ 26" for c
  proof -
    have "Suc (unat (?v c)) \<le> Suc (unat v) * 64"
      unfolding utf8_step [OF v] using mod_less_divisor [of 64 "unat c"] by simp
    then have "Suc (unat (?v c)) * 64 ^ n \<le> Suc (unat v) * 64 * 64 ^ n" by (rule mult_le_mono1)
    also have "\<dots> = Suc (unat v) * 64 ^ Suc n" by (simp add: algebra_simps)
    also note Suc.prems
    finally show ?thesis .
  qed
  show ?case
  proof
    assume "utf8_continuation (Suc n) v cbs = (Some w, rest)"
    then obtain c cs where c: "cbs = c # cs" "unat c div 64 = 2" and "utf8_continuation n (?v c) cs = (Some w, rest)"
      by (cases cbs) (auto simp: pbind_eq_Some top_bits_simps u8_codec.get_iff)
    with Suc.IH [OF bound] obtain x where x: "x < 64 ^ n" "unat w = unat (?v c) * 64 ^ n + x" "cs = cont_bytes n x @ rest" by blast
    let ?x = "unat c mod 64 * 64 ^ n + x"
    have "?x < 64 ^ Suc n" using digit_bound [of "unat c mod 64" 64 x "64 ^ n"] x(1) by simp
    moreover have "unat w = unat v * 64 ^ Suc n + ?x" using x(2) unfolding utf8_step [OF v] by (simp add: algebra_simps)
    moreover have "?x div 64 ^ n = unat c mod 64" using x(1) by simp
    then have "cbs = cont_bytes (Suc n) ?x @ rest"
      using c x(3) byte_of_top [of c 6 2] by (simp add: cont_bytes_Suc cont_bytes_mod)
    ultimately show "\<exists>x < 64 ^ Suc n. unat w = unat v * 64 ^ Suc n + x \<and> cbs = cont_bytes (Suc n) x @ rest" by blast
  next
    assume "\<exists>x < 64 ^ Suc n. unat w = unat v * 64 ^ Suc n + x \<and> cbs = cont_bytes (Suc n) x @ rest"
    then obtain x where x: "x < 64 ^ Suc n" "unat w = unat v * 64 ^ Suc n + x" "cbs = cont_bytes (Suc n) x @ rest" by blast
    let ?d = "x div 64 ^ n" and ?y = "x mod 64 ^ n"
    let ?c = "of_nat (128 + ?d) :: u8"
    have d: "?d < 64" using x(1) by (simp add: less_mult_imp_div_less mult.commute)
    then have "128 + ?d < 256" by simp
    then have uc: "unat ?c = 128 + ?d" by (simp only: unat_of_nat_byte mod_less)
    have "cont_bytes n ?y = cont_bytes n x" using cont_bytes_mod [of n ?d ?y] unfolding div_mult_mod_eq by (rule sym)
    then have cbs: "cbs = ?c # cont_bytes n ?y @ rest" using x(3) d by (simp add: cont_bytes_Suc)
    have "(128 + ?d) mod 64 = ?d" using d mod_mult_self3 [of 2 64 ?d] by simp
    then have uv: "unat (?v ?c) = unat v * 64 + ?d" unfolding utf8_step [OF v] uc by simp
    have "unat w = unat (?v ?c) * 64 ^ n + ?y" unfolding uv x(2) using div_mult_mod_eq [of x "64 ^ n"] by (simp add: algebra_simps)
    moreover have "?y < 64 ^ n" by simp
    ultimately have "utf8_continuation n (?v ?c) (cont_bytes n ?y @ rest) = (Some w, rest)" using Suc.IH [OF bound] by blast
    moreover have "unat ?c div 64 = 2" unfolding uc using d by simp
    ultimately show "utf8_continuation (Suc n) v cbs = (Some w, rest)"
      unfolding cbs by (simp add: pbind_eq_Some top_bits_simps u8_codec.get_iff)
  qed
qed

lemma le_bound_iff: "(v :: u32) \<le> 0x7f \<longleftrightarrow> unat v < 0x80" "v \<le> 0x7ff \<longleftrightarrow> unat v < 0x800" "v \<le> 0xffff \<longleftrightarrow> unat v < 0x10000"
    "v \<le> 0x10ffff \<longleftrightarrow> unat v < 0x110000"
  by (simp_all add: word_le_nat_alt less_Suc_eq_le [symmetric])

lemma valid_code_point_max: "is_valid_code_point v \<Longrightarrow> unat v < 0x110000"
  using le_bound_iff(4) [of v] by (simp add: is_valid_code_point_def not_less split: if_splits)

lemma valid_ascii: "unat v < 0x80 \<Longrightarrow> is_valid_code_point v"
proof -
  assume v: "unat v < 0x80"
  have "unat (v AND 0xfffe) \<le> unat v" by (simp add: word_and_le2 word_le_nat_alt [symmetric])
  then have "v AND 0xfffe \<noteq> 0xfffe" using v by (auto simp: word_unat_eq_iff)
  with v show ?thesis by (simp add: is_valid_code_point_def word_less_nat_alt word_le_nat_alt)
qed

text \<open>One multi-byte case of the reader, for a lead byte with \<open>t\<close> as its high bits and \<open>k\<close> payload bits.\<close>

lemma utf8_multi_iff:
  assumes "n \<le> 3" "k \<le> 5" "t * 2 ^ k < 256" "t * 2 ^ k + 2 ^ k \<le> 256"
  shows "(\<exists>c cs. cbs = c # cs \<and> unat c div 2 ^ k = t \<and>
      utf8_continuation n (ucast (c AND BOTTOM_BITS k)) cs = (Some w, rest)) \<longleftrightarrow>
    unat w < 2 ^ k * 64 ^ n \<and> cbs = of_nat (t * 2 ^ k + unat w div 64 ^ n) # cont_bytes n (unat w) @ rest"
proof -
  let ?v = "\<lambda>c :: u8. ucast (c AND BOTTOM_BITS k) :: u32"
  have uv: "unat (?v c) = unat c mod 2 ^ k" for c
  proof -
    have "unat (ucast (c AND BOTTOM_BITS k) :: u32) = unat (c AND BOTTOM_BITS k)"
      by (simp add: unsigned_ucast_eq take_bit_eq_mod order_less_trans [OF unat_byte_less])
    then show ?thesis using unat_and_BOTTOM_BITS [of k c] assms(2) by simp
  qed
  have k5: "(2::nat) ^ k \<le> 2 ^ 5" using assms(2) by (intro power_increasing) simp_all
  have n3: "(64::nat) ^ n \<le> 64 ^ 3" using assms(1) by (intro power_increasing) simp_all
  have bound: "Suc (unat (?v c)) * 64 ^ n \<le> 2 ^ 26" for c
  proof -
    have "Suc (unat (?v c)) \<le> 2 ^ 5" unfolding uv Suc_le_eq using less_le_trans [OF mod_less_divisor k5, of "unat c"] by simp
    then have "Suc (unat (?v c)) * 64 ^ n \<le> 2 ^ 5 * 64 ^ 3" using n3 by (rule mult_le_mono)
    then show ?thesis by simp
  qed
  show ?thesis
  proof
    assume "\<exists>c cs. cbs = c # cs \<and> unat c div 2 ^ k = t \<and> utf8_continuation n (?v c) cs = (Some w, rest)"
    then obtain c cs x where c: "cbs = c # cs" "unat c div 2 ^ k = t"
      and x: "x < 64 ^ n" "unat w = unat c mod 2 ^ k * 64 ^ n + x" "cs = cont_bytes n x @ rest"
      unfolding utf8_continuation_iff [OF bound] uv by blast
    have "unat w < 2 ^ k * 64 ^ n" using digit_bound [of "unat c mod 2 ^ k" "2 ^ k" x "64 ^ n"] x(1,2) by simp
    moreover have "unat w div 64 ^ n = unat c mod 2 ^ k" using x(1,2) by simp
    ultimately show "unat w < 2 ^ k * 64 ^ n \<and> cbs = of_nat (t * 2 ^ k + unat w div 64 ^ n) # cont_bytes n (unat w) @ rest"
      using c x byte_of_top [OF c(2)] by (simp add: cont_bytes_mod)
  next
    assume w: "unat w < 2 ^ k * 64 ^ n \<and> cbs = of_nat (t * 2 ^ k + unat w div 64 ^ n) # cont_bytes n (unat w) @ rest"
    let ?h = "unat w div 64 ^ n"
    let ?c = "of_nat (t * 2 ^ k + ?h) :: u8"
    have h: "?h < 2 ^ k" using w by (simp add: less_mult_imp_div_less)
    then have "t * 2 ^ k + ?h < 256" using assms(4) by simp
    then have uc: "unat ?c = t * 2 ^ k + ?h" by (simp only: unat_of_nat_byte mod_less)
    have c: "unat ?c div 2 ^ k = t" "unat ?c mod 2 ^ k = ?h" unfolding uc using h by simp_all
    have "unat w = ?h * 64 ^ n + unat w mod 64 ^ n" by (simp add: mult.commute)
    moreover have "cont_bytes n (unat w) = cont_bytes n (unat w mod 64 ^ n)"
      using cont_bytes_mod [of n ?h "unat w mod 64 ^ n"] by (simp add: mult.commute)
    moreover have "unat w mod 64 ^ n < 64 ^ n" by simp
    ultimately have "utf8_continuation n (?v ?c) (cont_bytes n (unat w) @ rest) = (Some w, rest)"
      unfolding utf8_continuation_iff [OF bound] uv c(2) by metis
    with w c(1) show "\<exists>c cs. cbs = c # cs \<and> unat c div 2 ^ k = t \<and> utf8_continuation n (?v c) cs = (Some w, rest)" by blast
  qed
qed

lemma cbs_get_utf8_cases:
  "cbs_get_utf8 cbs = (Some w, rest) \<longleftrightarrow>
    (\<exists>c cs. cbs = c # cs \<and> unat c < 0x80 \<and> w = ucast c \<and> rest = cs) \<or>
    is_valid_code_point w \<and>
      ((\<exists>c cs. cbs = c # cs \<and> unat c div 2 ^ 5 = 6 \<and>
         utf8_continuation 1 (ucast (c AND BOTTOM_BITS 5)) cs = (Some w, rest)) \<and> 0x80 \<le> unat w \<or>
       (\<exists>c cs. cbs = c # cs \<and> unat c div 2 ^ 4 = 14 \<and>
         utf8_continuation 2 (ucast (c AND BOTTOM_BITS 4)) cs = (Some w, rest)) \<and> 0x800 \<le> unat w \<or>
       (\<exists>c cs. cbs = c # cs \<and> unat c div 2 ^ 3 = 30 \<and>
         utf8_continuation 3 (ucast (c AND BOTTOM_BITS 3)) cs = (Some w, rest)) \<and> 0x10000 \<le> unat w)"
proof (cases cbs)
  case Nil
  then show ?thesis by (simp add: cbs_get_utf8_def pbind_def)
next
  case (Cons c cs)
  have le: "c \<le> 0x7f \<longleftrightarrow> unat c < 0x80" by (simp add: word_le_nat_alt less_Suc_eq_le [symmetric])
  have lo: "\<not> w < 0x80 \<longleftrightarrow> 0x80 \<le> unat w" "\<not> w < 0x800 \<longleftrightarrow> 0x800 \<le> unat w" "\<not> w < 0x10000 \<longleftrightarrow> 0x10000 \<le> unat w" for w :: u32
    by (simp_all add: word_less_nat_alt not_less)
  consider "unat c < 0x80" | "unat c div 32 = 6" | "unat c div 16 = 14" | "unat c div 8 = 30"
    | "0x80 \<le> unat c" "unat c div 32 \<noteq> 6" "unat c div 16 \<noteq> 14" "unat c div 8 \<noteq> 30" by linarith
  then show ?thesis
    by cases (auto simp: Cons cbs_get_utf8_def pbind_eq_Some u8_codec.get_iff le top_bits_simps lo)
qed

interpretation utf8_codec: codec "\<lambda>u. utf8_bytes (unat u)" is_valid_code_point cbs_get_utf8
proof -
  have p: "(1::nat) \<le> 3" "(2::nat) \<le> 3" "(3::nat) \<le> 3" "(3::nat) \<le> 5" "(4::nat) \<le> 5" "(5::nat) \<le> 5"
    "(6::nat) * 2 ^ 5 < 256" "(6::nat) * 2 ^ 5 + 2 ^ 5 \<le> 256" "(14::nat) * 2 ^ 4 < 256" "(14::nat) * 2 ^ 4 + 2 ^ 4 \<le> 256"
    "(30::nat) * 2 ^ 3 < 256" "(30::nat) * 2 ^ 3 + 2 ^ 3 \<le> 256" by simp_all
  note m = utf8_multi_iff [OF p(1,6,7,8)] utf8_multi_iff [OF p(2,5,9,10)] utf8_multi_iff [OF p(3,4,11,12)]
  have iff: "cbs_get_utf8 cbs = (Some u, rest) \<longleftrightarrow> is_valid_code_point u \<and> cbs = utf8_bytes (unat u) @ rest" for cbs u rest
  proof -
    have a: "(\<exists>c cs. cbs = c # cs \<and> unat c < 0x80 \<and> u = ucast c \<and> rest = cs) \<longleftrightarrow>
        unat u < 0x80 \<and> cbs = of_nat (unat u) # rest"
    proof -
      have "u = ucast c \<and> unat c < 0x80 \<longleftrightarrow> unat u < 0x80 \<and> c = of_nat (unat u)" for c :: u8
        by (auto simp: unsigned_ucast_eq take_bit_eq_mod word_unat_eq_iff)
      then show ?thesis by blast
    qed
    consider "unat u < 0x80" | "0x80 \<le> unat u" "unat u < 0x800" | "0x800 \<le> unat u" "unat u < 0x10000"
      | "0x10000 \<le> unat u" by linarith
    then show ?thesis
      unfolding cbs_get_utf8_cases m a
      by cases (use valid_ascii [of u] valid_code_point_max [of u] in \<open>auto simp: utf8_bytes_def\<close>)
  qed
  then show "codec (\<lambda>u. utf8_bytes (unat u)) is_valid_code_point cbs_get_utf8" by unfold_locales simp_all
qed

section \<open>Writing\<close>

lemma unat_and_63_32: "unat (x AND ucast (BOTTOM_BITS 6) :: u32) = unat x mod 64"
  using unat_and_63 [of x] by (simp add: BOTTOM_BITS_def push_bit_eq_mult)

lemma utf8_byte_eq:
  assumes "unat x < 2 ^ k" "2 ^ k dvd unat t"
  shows "utf8_byte t x = of_nat (unat t + unat x)"
proof -
  have ut: "unat (ucast t :: u32) = unat t"
    by (simp add: unsigned_ucast_eq take_bit_eq_mod order_less_trans [OF unat_byte_less])
  have "unat (ucast t OR x :: u32) = unat t + unat x"
    using unat_or_disjoint [of k "ucast t :: u32" x] assms ut by simp
  then show ?thesis unfolding utf8_byte_def by (metis of_nat_unat)
qed

lemma utf8_byte_cont: "utf8_byte (TOP_BITS 1) (drop_bit (6 * i) u AND ucast (BOTTOM_BITS 6)) = of_nat (128 + unat u div 64 ^ i mod 64)"
proof -
  let ?x = "drop_bit (6 * i) u AND ucast (BOTTOM_BITS 6)"
  have x: "unat ?x = unat u div 64 ^ i mod 64" by (simp add: unat_and_63_32 unat_drop_bit power_mult)
  have "utf8_byte 128 ?x = of_nat (unat (128 :: u8) + unat ?x)"
    by (rule utf8_byte_eq [where k = 6]) (simp_all add: x)
  then show ?thesis unfolding x TOP_BITS_vals by simp
qed

lemma utf8_byte_conts:
  "utf8_byte (TOP_BITS 1) (u AND ucast (BOTTOM_BITS 6)) = of_nat (128 + unat u mod 64)"
  "utf8_byte (TOP_BITS 1) (drop_bit 6 u AND ucast (BOTTOM_BITS 6)) = of_nat (128 + unat u div 64 mod 64)"
  "utf8_byte (TOP_BITS 1) (drop_bit 12 u AND ucast (BOTTOM_BITS 6)) = of_nat (128 + unat u div 64 ^ 2 mod 64)"
  using utf8_byte_cont [of 0 u] utf8_byte_cont [of 1 u] utf8_byte_cont [of 2 u] by simp_all

lemma utf8_byte_lead:
  assumes "unat u < 2 ^ (k + 6 * n)" "2 ^ k dvd unat t"
  shows "utf8_byte t (drop_bit (6 * n) u) = of_nat (unat t + unat u div 64 ^ n)"
proof -
  have "unat (drop_bit (6 * n) u) = unat u div 64 ^ n" by (simp add: unat_drop_bit power_mult)
  moreover have "unat u div 64 ^ n < 2 ^ k"
    using assms(1) by (simp add: less_mult_imp_div_less power_add power_mult)
  ultimately show ?thesis using utf8_byte_eq [of "drop_bit (6 * n) u" k t] assms(2) by simp
qed

lemma builder_op_add_utf8:
  assumes "is_valid_code_point u"
  shows "builder_op al d (cbb_add_utf8 al d u) (append_to d (utf8_bytes (unat u)))"
proof -
  note add = add_u8.builder_op_axioms
  note m = valid_code_point_max [OF assms]
  have t: "unat (TOP_BITS 2) = 192" "unat (TOP_BITS 3) = 224" "unat (TOP_BITS 4) = 240" by (simp_all add: TOP_BITS_vals)
  consider "unat u < 0x80" | "0x80 \<le> unat u" "unat u < 0x800" | "0x800 \<le> unat u" "unat u < 0x10000"
    | "0x10000 \<le> unat u" by linarith
  then show ?thesis
  proof cases
    case 1
    then have "cbb_add_utf8 al d u = CBB_add_u8 al d (of_nat (unat u))"
      using assms by (simp add: cbb_add_utf8_def le_bound_iff)
    with 1 show ?thesis using add [of al d "of_nat (unat u)"] by (simp add: utf8_bytes_def)
  next
    case 2
    then have "cbb_add_utf8 al d u = pbind (CBB_add_u8 al d (of_nat (192 + unat u div 64))) (\<lambda>_.
        CBB_add_u8 al d (of_nat (128 + unat u mod 64)))"
      using assms utf8_byte_lead [of u 5 1 "TOP_BITS 2"] t by (simp add: cbb_add_utf8_def le_bound_iff utf8_byte_conts utf8_byte_conts [unfolded One_nat_def] unat_drop_bit)
    with 2 show ?thesis
      using builder_op_append_then [OF add [of al d "of_nat (192 + unat u div 64)"] add [of al d "of_nat (128 + unat u mod 64)"]]
      by (simp add: utf8_bytes_def cont_bytes_def)
  next
    case 3
    then have "cbb_add_utf8 al d u = pbind (CBB_add_u8 al d (of_nat (224 + unat u div 64 ^ 2))) (\<lambda>_.
        pbind (CBB_add_u8 al d (of_nat (128 + unat u div 64 mod 64))) (\<lambda>_. CBB_add_u8 al d (of_nat (128 + unat u mod 64))))"
      using assms utf8_byte_lead [of u 4 2 "TOP_BITS 3"] t by (simp add: cbb_add_utf8_def le_bound_iff utf8_byte_conts utf8_byte_conts [unfolded One_nat_def] unat_drop_bit)
    with 3 show ?thesis
      using builder_op_append_then [OF add [of al d "of_nat (224 + unat u div 64 ^ 2)"]
          builder_op_append_then [OF add [of al d "of_nat (128 + unat u div 64 mod 64)"] add [of al d "of_nat (128 + unat u mod 64)"]]]
      by (simp add: utf8_bytes_def cont_bytes_def numeral_2_eq_2)
  next
    case 4
    then have "cbb_add_utf8 al d u = pbind (CBB_add_u8 al d (of_nat (240 + unat u div 64 ^ 3))) (\<lambda>_.
        pbind (CBB_add_u8 al d (of_nat (128 + unat u div 64 ^ 2 mod 64))) (\<lambda>_.
        pbind (CBB_add_u8 al d (of_nat (128 + unat u div 64 mod 64))) (\<lambda>_. CBB_add_u8 al d (of_nat (128 + unat u mod 64)))))"
      using assms m utf8_byte_lead [of u 3 3 "TOP_BITS 4"] t by (simp add: cbb_add_utf8_def le_bound_iff utf8_byte_conts utf8_byte_conts [unfolded One_nat_def] unat_drop_bit)
    with 4 show ?thesis
      using builder_op_append_then [OF add [of al d "of_nat (240 + unat u div 64 ^ 3)"]
          builder_op_append_then [OF add [of al d "of_nat (128 + unat u div 64 ^ 2 mod 64)"]
          builder_op_append_then [OF add [of al d "of_nat (128 + unat u div 64 mod 64)"] add [of al d "of_nat (128 + unat u mod 64)"]]]]
      by (simp add: utf8_bytes_def cont_bytes_def numeral_2_eq_2 numeral_3_eq_3)
  qed
qed

section \<open>Properties\<close>

text \<open>
  C33. \<^verbatim>\<open>cbs_get_utf8\<close> returns the code point \<open>u\<close> and leaves \<open>rest\<close> exactly when \<open>u\<close> is a valid code point (no
  surrogate, no noncharacter, at most \<open>0x10ffff\<close>) and the input is the shortest UTF-8 form of \<open>u\<close> followed by
  \<open>rest\<close>: overlong forms, stray continuation bytes and truncated sequences are refused.
\<close>

theorem cbs_get_utf8_canonical:
  "cbs_get_utf8 cbs = (Some u, rest) \<longleftrightarrow> is_valid_code_point u \<and> cbs = utf8_bytes (unat u) @ rest"
  by (rule utf8_codec.get_iff)

end
