(* ===== verification/Asn1String.thy ===== *)
theory Asn1String
  imports Mem
begin

text \<open>
  \<open>ASN1_STRING\<close> objects, the string functions of \<^verbatim>\<open>crypto/asn1/asn1_lib.c\<close>, and the BIT STRING
  functions of \<^verbatim>\<open>crypto/asn1/a_bitstr.c\<close>.

  An object is the record of its fields; \<open>data\<close> is \<open>None\<close> for NULL and otherwise the whole
  allocated block, which may be longer than \<open>length\<close>. Functions that change an object take it and
  return it. A data argument that the code copies does not point into the object itself.
\<close>

record ASN1_STRING =
  str_length :: nat
  str_type :: int
  str_data :: "u8 list option"
  str_flags :: u64

abbreviation ASN1_STRING_MAX :: nat where "ASN1_STRING_MAX \<equiv> 64 * 1024 * 1024"
abbreviation ASN1_STRING_FLAG_BITS_LEFT :: u64 where "ASN1_STRING_FLAG_BITS_LEFT \<equiv> 0x08"
abbreviation V_ASN1_BIT_STRING :: int where "V_ASN1_BIT_STRING \<equiv> 3"
abbreviation V_ASN1_OCTET_STRING :: int where "V_ASN1_OCTET_STRING \<equiv> 4"

section \<open>Strings\<close>

definition ASN1_STRING_type_new :: "allocator \<Rightarrow> int \<Rightarrow> ASN1_STRING option" where
  "ASN1_STRING_type_new al ty =
     (case OPENSSL_zalloc al 24 of
        None \<Rightarrow> None
      | Some _ \<Rightarrow> Some \<lparr>str_length = 0, str_type = ty, str_data = None, str_flags = 0\<rparr>)"

definition ASN1_STRING_new :: "allocator \<Rightarrow> ASN1_STRING option" where
  "ASN1_STRING_new al = ASN1_STRING_type_new al V_ASN1_OCTET_STRING"

text \<open>A \<open>None\<close> as data is NULL: the block is sized and its contents are left as they are.\<close>

definition ASN1_STRING_set :: "allocator \<Rightarrow> u8 list option \<Rightarrow> int \<Rightarrow> ASN1_STRING \<Rightarrow> bool \<times> ASN1_STRING" where
  "ASN1_STRING_set al data len_s str =
     (case (if len_s < 0 then map_option strlen data else Some (nat len_s)) of
        None \<Rightarrow> (False, str)
      | Some len \<Rightarrow>
          if len > ASN1_STRING_MAX then (False, str)
          else case (if str_length str \<le> len \<or> str_data str = None
                     then (case str_data str of
                             None \<Rightarrow> OPENSSL_malloc al (len + 1)
                           | Some c \<Rightarrow> OPENSSL_realloc al (Some c) (len + 1))
                     else str_data str) of
                 None \<Rightarrow> (False, str)
               | Some block \<Rightarrow>
                   (let str = str\<lparr>str_data := Some block, str_length := len\<rparr>
                    in case data of
                         None \<Rightarrow> (True, str)
                       | Some d \<Rightarrow> (True, str\<lparr>str_data := Some ((buf_write block 0 (take len d))[len := 0])\<rparr>)))"

definition ASN1_STRING_set0 :: "u8 list option \<Rightarrow> nat \<Rightarrow> ASN1_STRING \<Rightarrow> ASN1_STRING" where
  "ASN1_STRING_set0 data len str = str\<lparr>str_data := data, str_length := len\<rparr>"

definition ASN1_STRING_copy :: "allocator \<Rightarrow> ASN1_STRING \<Rightarrow> ASN1_STRING option \<Rightarrow> bool \<times> ASN1_STRING" where
  "ASN1_STRING_copy al dst str =
     (case str of
        None \<Rightarrow> (False, dst)
      | Some s \<Rightarrow>
          (case ASN1_STRING_set al (str_data s) (int (str_length s)) dst of
             (False, dst) \<Rightarrow> (False, dst)
           | (True, dst) \<Rightarrow> (True, dst\<lparr>str_type := str_type s, str_flags := str_flags s\<rparr>)))"

definition ASN1_STRING_dup :: "allocator \<Rightarrow> ASN1_STRING option \<Rightarrow> ASN1_STRING option" where
  "ASN1_STRING_dup al str =
     (case str of
        None \<Rightarrow> None
      | Some _ \<Rightarrow>
          (case ASN1_STRING_new al of
             None \<Rightarrow> None
           | Some ret \<Rightarrow>
               (case ASN1_STRING_copy al ret str of
                  (False, _) \<Rightarrow> None
                | (True, ret) \<Rightarrow> Some ret)))"

section \<open>Bit strings\<close>

text \<open>The bytes at \<open>data\<close>; NULL is only passed on with length 0.\<close>

abbreviation data_of :: "ASN1_STRING \<Rightarrow> u8 list" where
  "data_of str \<equiv> (case str_data str of None \<Rightarrow> [] | Some d \<Rightarrow> d)"

fun skip_trailing_zeros :: "u8 list \<Rightarrow> nat \<Rightarrow> nat" where
  "skip_trailing_zeros data 0 = 0"
| "skip_trailing_zeros data (Suc len) = (if data ! len = 0 then skip_trailing_zeros data len else Suc len)"

fun padding_loop :: "u8 \<Rightarrow> nat \<Rightarrow> nat \<Rightarrow> nat" where
  "padding_loop final padding_bits 0 = padding_bits"
| "padding_loop final padding_bits (Suc n) =
     (if final AND push_bit padding_bits 1 \<noteq> 0 then padding_bits else padding_loop final (Suc padding_bits) n)"

text \<open>The result is the length and the number of padding bits.\<close>

definition asn1_bit_string_length :: "ASN1_STRING \<Rightarrow> nat \<times> nat" where
  "asn1_bit_string_length str =
     (let len = str_length str
      in if str_flags str AND ASN1_STRING_FLAG_BITS_LEFT \<noteq> 0
         then (len, if len = 0 then 0 else unat (str_flags str AND 0x07))
         else let len = skip_trailing_zeros (data_of str) len;
                  padding_bits = (if len > 0 then padding_loop (data_of str ! (len - 1)) 0 7 else 0)
              in (len, padding_bits))"

definition ASN1_BIT_STRING_num_bytes :: "ASN1_STRING \<Rightarrow> nat option" where
  "ASN1_BIT_STRING_num_bytes str =
     (case asn1_bit_string_length str of (len, padding_bits) \<Rightarrow> if padding_bits \<noteq> 0 then None else Some len)"

definition ASN1_STRING_cmp :: "ASN1_STRING \<Rightarrow> ASN1_STRING \<Rightarrow> int" where
  "ASN1_STRING_cmp a b =
     (let (a_length, a_padding) = (if str_type a = V_ASN1_BIT_STRING then asn1_bit_string_length a else (str_length a, 0));
          (b_length, b_padding) = (if str_type b = V_ASN1_BIT_STRING then asn1_bit_string_length b else (str_length b, 0))
      in if a_length < b_length then - 1
         else if a_length > b_length then 1
         else if a_padding > b_padding then - 1
         else if a_padding < b_padding then 1
         else let ret = sint (OPENSSL_memcmp (data_of a) (data_of b) a_length)
              in if ret \<noteq> 0 then ret
                 else if str_type a < str_type b then - 1
                 else if str_type a > str_type b then 1 else 0)"

text \<open>
  With an output buffer \<open>i2c_ASN1_BIT_STRING\<close> writes the octets that are its result here, and it
  returns their number; failure, and a NULL argument, is the number 0.
\<close>

definition i2c_ASN1_BIT_STRING :: "ASN1_STRING option \<Rightarrow> u8 list option" where
  "i2c_ASN1_BIT_STRING a =
     (case a of
        None \<Rightarrow> None
      | Some a \<Rightarrow>
          (case asn1_bit_string_length a of
             (len, bits) \<Rightarrow>
               (if len > INT_MAX - 1 then None
                else let p = take len (data_of a);
                         p = (if len > 0 then p[len - 1 := p ! (len - 1) AND push_bit bits 0xff] else p)
                     in Some (of_nat bits # p))))"

text \<open>
  The first argument is the object passed through \<open>a\<close>, if any; the input is the \<open>len\<close> octets at
  \<open>*pp\<close>, all of which are consumed on success. The result is the returned object.
\<close>

definition c2i_ASN1_BIT_STRING :: "allocator \<Rightarrow> ASN1_STRING option \<Rightarrow> u8 list \<Rightarrow> ASN1_STRING option" where
  "c2i_ASN1_BIT_STRING al a inp =
     (if length inp < 1 then None
      else if length inp > INT_MAX then None
      else case (case a of None \<Rightarrow> ASN1_STRING_type_new al V_ASN1_BIT_STRING | Some ret \<Rightarrow> Some ret) of
             None \<Rightarrow> None
           | Some ret \<Rightarrow>
               (let padding = unat (hd inp); p = tl inp; len = length inp - 1
                in if padding > 7 then None
                   else let padding_mask = ucast (push_bit padding (1 :: u32) - 1) :: u8
                        in if padding \<noteq> 0 \<and> (len < 1 \<or> p ! (len - 1) AND padding_mask \<noteq> 0) then None
                           else let flags = str_flags ret AND NOT (ASN1_STRING_FLAG_BITS_LEFT OR 0x07);
                                    flags = flags OR (ASN1_STRING_FLAG_BITS_LEFT OR of_nat padding)
                                in if len > 0
                                   then (case OPENSSL_memdup al p len of
                                           None \<Rightarrow> None
                                         | Some s \<Rightarrow> Some (ret\<lparr>str_flags := flags, str_length := len, str_data := Some s,
                                                               str_type := V_ASN1_BIT_STRING\<rparr>))
                                   else Some (ret\<lparr>str_flags := flags, str_length := len, str_data := None,
                                                  str_type := V_ASN1_BIT_STRING\<rparr>)))"

definition ASN1_BIT_STRING_set :: "allocator \<Rightarrow> ASN1_STRING \<Rightarrow> u8 list option \<Rightarrow> int \<Rightarrow> bool \<times> ASN1_STRING" where
  "ASN1_BIT_STRING_set al x d len = ASN1_STRING_set al d len x"

definition ASN1_BIT_STRING_set_bit :: "allocator \<Rightarrow> ASN1_STRING option \<Rightarrow> int \<Rightarrow> bool \<Rightarrow> bool \<times> ASN1_STRING option" where
  "ASN1_BIT_STRING_set_bit al a n val =
     (if n < 0 then (False, a)
      else let w = nat n div 8;
               v = push_bit (7 - nat n mod 8) 1 :: u8;
               iv = NOT v;
               v = (if val then v else 0)
           in case a of
                None \<Rightarrow> (False, None)
              | Some a \<Rightarrow>
                  (let a = a\<lparr>str_flags := str_flags a AND NOT (ASN1_STRING_FLAG_BITS_LEFT OR 0x07)\<rparr>;
                       store = (\<lambda>a. let d = (data_of a)[w := (data_of a ! w AND iv) OR v]
                                    in (True, Some (a\<lparr>str_data := Some d, str_length := skip_trailing_zeros d (str_length a)\<rparr>)))
                   in if str_length a < w + 1 \<or> str_data a = None
                      then if \<not> val then (True, Some a)
                           else case (case str_data a of
                                        None \<Rightarrow> OPENSSL_malloc al (w + 1)
                                      | Some d \<Rightarrow> OPENSSL_realloc al (Some d) (w + 1)) of
                                  None \<Rightarrow> (False, Some a)
                                | Some c \<Rightarrow>
                                    store (a\<lparr>str_data := Some (if w + 1 - str_length a > 0
                                        then buf_write c (str_length a) (replicate (w + 1 - str_length a) 0) else c),
                                      str_length := w + 1\<rparr>)
                      else store a))"

text \<open>Bit indices are not negative.\<close>

definition ASN1_BIT_STRING_get_bit :: "ASN1_STRING option \<Rightarrow> nat \<Rightarrow> bool" where
  "ASN1_BIT_STRING_get_bit a n =
     (let w = n div 8; v = push_bit (7 - n mod 8) 1 :: u8
      in case a of
           None \<Rightarrow> False
         | Some a \<Rightarrow>
             if str_length a < w + 1 then False
             else case str_data a of None \<Rightarrow> False | Some d \<Rightarrow> d ! w AND v \<noteq> 0)"

fun bit_string_check_loop :: "u8 list \<Rightarrow> u8 list \<Rightarrow> nat \<Rightarrow> nat \<Rightarrow> bool" where
  "bit_string_check_loop data flags i 0 = True"
| "bit_string_check_loop data flags i (Suc n) =
     (let msk = (if i < length flags then NOT (flags ! i) else 0xff)
      in if data ! i AND msk = 0 then bit_string_check_loop data flags (Suc i) n else False)"

definition ASN1_BIT_STRING_check :: "ASN1_STRING option \<Rightarrow> u8 list \<Rightarrow> bool" where
  "ASN1_BIT_STRING_check a flags =
     (case a of
        None \<Rightarrow> True
      | Some a \<Rightarrow> (case str_data a of None \<Rightarrow> True | Some d \<Rightarrow> bit_string_check_loop d flags 0 (str_length a)))"

section \<open>The contents of a string\<close>

text \<open>An object is well formed when its block covers its length.\<close>

definition str_wf :: "ASN1_STRING \<Rightarrow> bool" where
  "str_wf str \<longleftrightarrow> (case str_data str of None \<Rightarrow> str_length str = 0 | Some d \<Rightarrow> str_length str \<le> length d)"

definition str_bytes :: "ASN1_STRING \<Rightarrow> u8 list" where
  "str_bytes str = take (str_length str) (data_of str)"

lemma str_wf_le: "str_wf str \<Longrightarrow> str_length str \<le> length (data_of str)"
  by (auto simp: str_wf_def split: option.splits)

lemma length_str_bytes [simp]: "str_wf str \<Longrightarrow> length (str_bytes str) = str_length str"
  using str_wf_le [of str] by (simp add: str_bytes_def)

lemma new_wf: "ASN1_STRING_type_new al ty = Some s \<Longrightarrow> str_wf s \<and> str_type s = ty \<and> str_flags s = 0"
  by (auto simp: ASN1_STRING_type_new_def str_wf_def split: option.splits)

lemma type_new_total: "al_total al \<Longrightarrow> \<exists>s. ASN1_STRING_type_new al ty = Some s"
  using OPENSSL_malloc_total [of al 24] by (auto simp: ASN1_STRING_type_new_def OPENSSL_zalloc_def)

lemma realloc_total: "al_total al \<Longrightarrow> n + 8 \<le> SIZE_MAX \<Longrightarrow> \<exists>p. OPENSSL_realloc al orig n = Some p"
  using OPENSSL_malloc_total [of al n] by (cases orig) (auto simp: OPENSSL_realloc_def Let_def)

text \<open>Malloc and realloc are the same call for a block that may be NULL.\<close>

lemma grow_realloc:
  "(case d of None \<Rightarrow> OPENSSL_malloc al n | Some c \<Rightarrow> OPENSSL_realloc al (Some c) n) = OPENSSL_realloc al d n"
  by (cases d) (simp_all add: OPENSSL_realloc_def)

lemma ASN1_STRING_set_spec:
  assumes "str_wf str" "ASN1_STRING_set al (Some d) (int len) str = (True, str')" "len \<le> length d"
  shows "str_wf str'" "str_bytes str' = take len d" "str_type str' = str_type str" "str_flags str' = str_flags str" "str_length str' = len"
proof -
  let ?block = "if str_length str \<le> len \<or> str_data str = None then OPENSSL_realloc al (str_data str) (len + 1) else str_data str"
  from assms(2) obtain b where b: "?block = Some b"
    and s: "str' = str\<lparr>str_length := len, str_data := Some ((buf_write b 0 (take len d))[len := 0])\<rparr>"
    unfolding ASN1_STRING_set_def grow_realloc by (auto simp: Let_def split: option.splits if_splits)
  have l: "len < length b" using b assms(1) OPENSSL_realloc_length [of al "str_data str" "len + 1" b]
    by (auto simp: str_wf_def split: if_splits)
  then have "take len ((buf_write b 0 (take len d))[len := 0]) = take len d"
    using assms(3) by (simp add: buf_write_def)
  with l assms(3) show "str_wf str'" "str_bytes str' = take len d" "str_type str' = str_type str"
    "str_flags str' = str_flags str" "str_length str' = len"
    by (simp_all add: s str_wf_def str_bytes_def buf_write_def)
qed

lemma ASN1_STRING_set_total:
  assumes "al_total al" "len \<le> ASN1_STRING_MAX"
  shows "\<exists>str'. ASN1_STRING_set al d (int len) str = (True, str')"
  using realloc_total [of al "len + 1" "str_data str"] assms
  unfolding ASN1_STRING_set_def grow_realloc by (auto simp: Let_def split: option.splits)

section \<open>Bits\<close>

lemma skip_trailing_zeros_le: "skip_trailing_zeros d n \<le> n"
  by (induction n) auto

lemma skip_trailing_zeros_zero: "skip_trailing_zeros d n \<le> i \<Longrightarrow> i < n \<Longrightarrow> d ! i = 0"
  by (induction n) (auto simp: less_Suc_eq split: if_splits)

lemma get_bit_eq: "ASN1_BIT_STRING_get_bit (Some a) m \<longleftrightarrow>
    m div 8 < str_length a \<and> str_data a \<noteq> None \<and> bit (data_of a ! (m div 8)) (7 - m mod 8)"
  by (auto simp: ASN1_BIT_STRING_get_bit_def Let_def push_bit_of_1 and_exp_eq_0_iff_not_bit split: option.splits)

lemma bit_store:
  fixes b :: u8
  assumes "k < 8" "j < 8"
  shows "bit ((b AND NOT (push_bit k 1)) OR (if val then push_bit k 1 else 0)) j = (if j = k then val else bit b j)"
  using assms by (auto simp: bit_simps)

text \<open>Reading the bits of a block of which only the part below the last non-zero byte counts.\<close>

lemma get_bit_trimmed:
  assumes "n \<le> length d"
  shows "ASN1_BIT_STRING_get_bit (Some (a\<lparr>str_data := Some d, str_length := skip_trailing_zeros d n\<rparr>)) m \<longleftrightarrow>
    m div 8 < n \<and> bit (d ! (m div 8)) (7 - m mod 8)"
proof (cases "m div 8 < skip_trailing_zeros d n")
  case True
  with skip_trailing_zeros_le [of d n] show ?thesis by (simp add: get_bit_eq)
next
  case False
  with skip_trailing_zeros_zero [of d n "m div 8"] show ?thesis by (auto simp: get_bit_eq)
qed

lemma set_bit_block:
  fixes d :: "u8 list"
  assumes "w < length d" "n div 8 = w" "w < k"
  shows "(m div 8 < k \<and> bit (d[w := (d ! w AND NOT (push_bit (7 - n mod 8) 1)) OR (if val then push_bit (7 - n mod 8) 1 else 0)] ! (m div 8))
      (7 - m mod 8)) = (if m = n then val else m div 8 < k \<and> bit (d ! (m div 8)) (7 - m mod 8))"
proof (cases "m div 8 = w")
  case True
  have "7 - m mod 8 = 7 - n mod 8 \<longleftrightarrow> m mod 8 = n mod 8"
    using mod_less_divisor [of 8 m] mod_less_divisor [of 8 n] by linarith
  also have "\<dots> \<longleftrightarrow> m = n" using True assms(2) by (metis div_mult_mod_eq)
  finally show ?thesis using True assms bit_store [of "7 - n mod 8" "7 - m mod 8" "d ! w" val] by simp
next
  case False
  with assms show ?thesis by auto
qed

lemma set_bit_spec:
  assumes "str_wf a" "ASN1_BIT_STRING_set_bit al (Some a) (int n) val = (True, Some a')"
  shows "str_wf a'" "ASN1_BIT_STRING_get_bit (Some a') m = (if m = n then val else ASN1_BIT_STRING_get_bit (Some a) m)"
proof -
  let ?w = "n div 8" and ?v = "push_bit (7 - n mod 8) 1 :: u8"
  let ?st = "\<lambda>d. d[?w := (d ! ?w AND NOT ?v) OR (if val then ?v else 0)]"
  let ?a = "a\<lparr>str_flags := str_flags a AND NOT (ASN1_STRING_FLAG_BITS_LEFT OR 0x07)\<rparr>"
  have "str_wf a' \<and> ASN1_BIT_STRING_get_bit (Some a') m = (if m = n then val else ASN1_BIT_STRING_get_bit (Some a) m)"
  proof (cases "str_length a < ?w + 1 \<or> str_data a = None")
    case False
    then obtain d where d: "str_data a = Some d" "?w < str_length a" by auto
    with assms(1) have l: "str_length a \<le> length d" by (simp add: str_wf_def)
    have a': "a' = ?a\<lparr>str_data := Some (?st d), str_length := skip_trailing_zeros (?st d) (str_length a)\<rparr>"
      using assms(2) False d by (auto simp: ASN1_BIT_STRING_set_bit_def Let_def)
    have "str_wf a'" using skip_trailing_zeros_le [of "?st d" "str_length a"] l by (simp add: a' str_wf_def)
    moreover have "ASN1_BIT_STRING_get_bit (Some a') m \<longleftrightarrow> m div 8 < str_length a \<and> bit (?st d ! (m div 8)) (7 - m mod 8)"
      unfolding a' using l by (intro get_bit_trimmed) simp
    ultimately show ?thesis
      using set_bit_block [of ?w d n "str_length a" m val] d l by (simp add: get_bit_eq)
  next
    case short: True
    show ?thesis
    proof (cases val)
      case False
      then have "a' = ?a" using assms(2) short by (auto simp: ASN1_BIT_STRING_set_bit_def Let_def)
      with False short assms(1) show ?thesis by (auto simp: str_wf_def get_bit_eq split: option.splits)
    next
      case True
      let ?L = "str_length a"
      let ?d = "\<lambda>c. buf_write c ?L (replicate (?w + 1 - ?L) (0 :: u8))"
      have L: "?L \<le> ?w" using short assms(1) by (auto simp: str_wf_def)
      from assms(2) short True L obtain c where c: "OPENSSL_realloc al (str_data a) (?w + 1) = Some c"
        and a': "a' = ?a\<lparr>str_data := Some (?st (?d c)), str_length := skip_trailing_zeros (?st (?d c)) (?w + 1)\<rparr>"
        unfolding ASN1_BIT_STRING_set_bit_def grow_realloc by (auto simp: Let_def split: option.splits)
      note lc = OPENSSL_realloc_length [OF c]
      have ld: "length (?d c) = ?w + 1" using lc L by simp
      have keep: "take ?L c = str_bytes a"
      proof (cases "str_data a")
        case (Some d)
        with c assms(1) L show ?thesis
          using OPENSSL_realloc_keeps [of al d "?w + 1" c ?L] by (simp add: str_wf_def str_bytes_def)
      qed (use assms(1) in \<open>simp add: str_wf_def str_bytes_def\<close>)
      have old: "m div 8 < ?w + 1 \<and> bit (?d c ! (m div 8)) (7 - m mod 8) \<longleftrightarrow> ASN1_BIT_STRING_get_bit (Some a) m"
      proof (cases "m div 8 < ?L")
        case True
        then have "?d c ! (m div 8) = str_bytes a ! (m div 8)" unfolding keep [symmetric] using lc L by (simp add: buf_write_def nth_append)
        with True L assms(1) show ?thesis by (cases "str_data a") (auto simp: get_bit_eq str_bytes_def str_wf_def)
      next
        case False
        then have "m div 8 < ?w + 1 \<Longrightarrow> ?d c ! (m div 8) = 0" using lc L by (simp add: buf_write_def nth_append)
        with False show ?thesis by (auto simp: get_bit_eq)
      qed
      have "str_wf a'" using skip_trailing_zeros_le [of "?st (?d c)" "?w + 1"] ld by (simp add: a' str_wf_def)
      moreover have "ASN1_BIT_STRING_get_bit (Some a') m \<longleftrightarrow> m div 8 < ?w + 1 \<and> bit (?st (?d c) ! (m div 8)) (7 - m mod 8)"
        unfolding a' using ld by (intro get_bit_trimmed) simp
      ultimately show ?thesis
        using set_bit_block [of ?w "?d c" n "?w + 1" m val] ld old by simp
    qed
  qed
  then show "str_wf a'" "ASN1_BIT_STRING_get_bit (Some a') m = (if m = n then val else ASN1_BIT_STRING_get_bit (Some a) m)" by simp_all
qed

section \<open>Reading and writing the contents octets\<close>

text \<open>The contents octets DER allows for a BIT STRING: at most seven unused bits, which are zero.\<close>

definition der_bit_string :: "u8 list \<Rightarrow> bool" where
  "der_bit_string bs \<longleftrightarrow> (case bs of
     [] \<Rightarrow> False
   | p # ds \<Rightarrow> unat p \<le> 7 \<and> (p = 0 \<or> ds \<noteq> [] \<and> unat (last ds) mod 2 ^ unat p = 0))"

lemma unat_and_padding_mask:
  assumes "p \<le> 7"
  shows "unat (b AND ucast (push_bit p (1 :: u32) - 1) :: u8) = unat b mod 2 ^ p"
proof -
  have "ucast (push_bit p (1 :: u32) - 1) = (mask p :: u8)"
    unfolding mask_eq_exp_minus_1 [symmetric, where 'a = "32 word"] push_bit_of_1
    using assms by (intro bit_eqI) (auto simp: bit_simps mask_eq_exp_minus_1 [symmetric])
  then show ?thesis by (rule unat_and_mask)
qed

lemma and_high_bits:
  fixes b :: u8
  assumes "p \<le> 7" "unat b mod 2 ^ p = 0"
  shows "b AND push_bit p 0xff = b"
proof -
  have "\<not> bit b i" if "i < p" for i
  proof -
    have "unat (take_bit p b) = unat b mod 2 ^ p" unfolding unsigned_take_bit_eq by (rule take_bit_eq_mod)
    then have "take_bit p b = 0" using assms(2) unfolding word_unat_eq_iff by simp
    with that show ?thesis by (metis bit_take_bit_iff bit_0_eq bot_apply bot_bool_def)
  qed
  moreover have "bit (0xff :: u8) i" if "i < 8" for i
  proof -
    have "(0xff :: u8) = mask 8" by (simp add: mask_eq_exp_minus_1)
    with that show ?thesis by (simp only: bit_mask_iff) simp
  qed
  ultimately show ?thesis by (intro bit_eqI) (auto simp: bit_simps not_less [symmetric])
qed

lemma bits_left_flags:
  assumes "p \<le> 7"
  shows "(f AND NOT (ASN1_STRING_FLAG_BITS_LEFT OR 0x07) OR (ASN1_STRING_FLAG_BITS_LEFT OR of_nat p)) AND ASN1_STRING_FLAG_BITS_LEFT \<noteq> 0"
    and "unat ((f AND NOT (ASN1_STRING_FLAG_BITS_LEFT OR 0x07) OR (ASN1_STRING_FLAG_BITS_LEFT OR of_nat p)) AND 0x07 :: u64) = p"
proof -
  have e: "(f AND NOT (8 OR 7) OR x) AND y = x AND y" if "NOT (8 OR 7) AND y = 0" for x y :: u64
    using that by (simp add: bit.conj_disj_distrib2 and.assoc)
  have "p \<in> {0,1,2,3,4,5,6,7}" using assms by auto
  then show "unat ((f AND NOT (ASN1_STRING_FLAG_BITS_LEFT OR 0x07) OR (ASN1_STRING_FLAG_BITS_LEFT OR of_nat p)) AND 0x07) = p"
    by (subst e) auto
  from \<open>p \<in> {0,1,2,3,4,5,6,7}\<close> show "(f AND NOT (ASN1_STRING_FLAG_BITS_LEFT OR 0x07) OR (ASN1_STRING_FLAG_BITS_LEFT OR of_nat p)) AND ASN1_STRING_FLAG_BITS_LEFT \<noteq> 0"
    by (subst e) auto
qed

lemma unat_eq_zeroD: "unat (p :: u8) = 0 \<Longrightarrow> p = 0"
  by (simp add: unat_eq_0)

lemma c2i_BIT_STRING_spec:
  assumes "c2i_ASN1_BIT_STRING al a inp = Some s"
  shows "der_bit_string inp" "str_wf s" "str_type s = V_ASN1_BIT_STRING" "str_bytes s = tl inp"
    "asn1_bit_string_length s = (length inp - 1, unat (hd inp))"
proof -
  from assms obtain p ds where inp: "inp = p # ds" by (cases inp) (auto simp: c2i_ASN1_BIT_STRING_def)
  from assms obtain ret where ret: "(case a of None \<Rightarrow> ASN1_STRING_type_new al V_ASN1_BIT_STRING | Some ret \<Rightarrow> Some ret) = Some ret"
    by (auto simp: c2i_ASN1_BIT_STRING_def split: if_splits option.splits)
  note run = assms [unfolded c2i_ASN1_BIT_STRING_def ret option.case(2) inp list.sel Let_def]
  have ok: "unat p \<le> 7" using run by (auto split: if_splits)
  have pad: "unat p = 0 \<or> ds \<noteq> [] \<and> unat (last ds) mod 2 ^ unat p = 0"
    using run ok unat_and_padding_mask [OF ok, of "last ds"] by (auto simp: last_conv_nth split: if_splits)
  have data: "if ds = [] then str_data s = None else OPENSSL_memdup al ds (length ds) = str_data s \<and> str_data s \<noteq> None"
    using run by (auto split: if_splits option.splits)
  have s: "str_flags s = str_flags ret AND NOT (ASN1_STRING_FLAG_BITS_LEFT OR 0x07) OR (ASN1_STRING_FLAG_BITS_LEFT OR of_nat (unat p))"
    "str_length s = length ds" "str_type s = V_ASN1_BIT_STRING"
    using run by (auto dest!: unat_eq_zeroD split: if_splits option.splits)
  show "str_type s = V_ASN1_BIT_STRING" by fact
  show "der_bit_string inp" using ok pad by (simp add: inp der_bit_string_def unat_eq_0)
  show "str_wf s" "str_bytes s = tl inp" using data s(2) OPENSSL_memdup_copies [of al ds "length ds"]
    by (auto simp: inp str_wf_def str_bytes_def split: if_splits)
  show "asn1_bit_string_length s = (length inp - 1, unat (hd inp))"
    using bits_left_flags [OF ok, of "str_flags ret"] pad s by (auto simp: asn1_bit_string_length_def inp)
qed

lemma c2i_BIT_STRING_total:
  assumes "al_total al" "der_bit_string inp" "length inp \<le> INT_MAX"
  shows "\<exists>s. c2i_ASN1_BIT_STRING al a inp = Some s"
proof -
  from assms(2) obtain p ds where inp: "inp = p # ds" and ok: "unat p \<le> 7"
    "p = 0 \<or> ds \<noteq> [] \<and> unat (last ds) mod 2 ^ unat p = 0"
    by (cases inp) (auto simp: der_bit_string_def)
  obtain ret where ret: "(case a of None \<Rightarrow> ASN1_STRING_type_new al V_ASN1_BIT_STRING | Some ret \<Rightarrow> Some ret) = Some ret"
    using type_new_total [OF assms(1)] by (cases a) auto
  have "ds \<noteq> [] \<Longrightarrow> ds ! (length ds - 1) AND ucast (push_bit (unat p) (1 :: u32) - 1) = 0" if "unat p \<noteq> 0"
    using ok that unat_and_padding_mask [OF ok(1), of "last ds"] by (simp add: last_conv_nth word_unat_eq_iff)
  moreover have "ds \<noteq> [] \<Longrightarrow> OPENSSL_memdup al ds (length ds) = Some ds"
    using OPENSSL_memdup_total [OF assms(1), of ds] assms(3) inp by simp
  ultimately show ?thesis
    unfolding c2i_ASN1_BIT_STRING_def ret option.case(2) inp list.sel Let_def using ok assms(3) inp
    by (cases "ds = []") auto
qed

lemma i2c_of_bits_left:
  assumes "asn1_bit_string_length s = (n, p)" "str_length s = n" "str_wf s" "p \<le> 7" "n < INT_MAX"
    and "n > 0 \<Longrightarrow> unat (last (str_bytes s)) mod 2 ^ p = 0"
  shows "i2c_ASN1_BIT_STRING (Some s) = Some (of_nat p # str_bytes s)"
proof -
  have "(str_bytes s)[n - 1 := str_bytes s ! (n - 1) AND push_bit p 0xff] = str_bytes s" if "n > 0"
  proof -
    have "str_bytes s \<noteq> []" using that assms(2,3) by (metis length_str_bytes length_greater_0_conv)
    then have "last (str_bytes s) = str_bytes s ! (n - 1)" using assms(2,3) by (simp add: last_conv_nth)
    with and_high_bits [OF assms(4) assms(6) [OF that]] show ?thesis by simp
  qed
  then show ?thesis
    using assms(1,2,5) by (simp add: i2c_ASN1_BIT_STRING_def str_bytes_def Let_def)
qed

section \<open>Properties\<close>

text \<open>
  C34. A BIT STRING's contents octets survive reading and writing: \<^verbatim>\<open>c2i_ASN1_BIT_STRING\<close> accepts exactly
  the octets DER allows (an octet of at most seven unused bits, none without a byte to hold them, and
  all of them zero), and \<^verbatim>\<open>i2c_ASN1_BIT_STRING\<close> of the object writes the same octets back.
\<close>

theorem bit_string_roundtrip:
  assumes "al_total al" "length inp \<le> INT_MAX"
  shows "(if der_bit_string inp
     then \<exists>s. c2i_ASN1_BIT_STRING al a inp = Some s \<and> str_wf s \<and> i2c_ASN1_BIT_STRING (Some s) = Some inp
     else c2i_ASN1_BIT_STRING al a inp = None)"
proof (cases "der_bit_string inp")
  case True
  with c2i_BIT_STRING_total [OF assms(1)] assms(2) obtain s where s: "c2i_ASN1_BIT_STRING al a inp = Some s" by blast
  note spec = c2i_BIT_STRING_spec [OF s]
  from True obtain p ds where inp: "inp = p # ds" and ok: "unat p \<le> 7" "p = 0 \<or> ds \<noteq> [] \<and> unat (last ds) mod 2 ^ unat p = 0"
    by (cases inp) (auto simp: der_bit_string_def)
  have "str_length s = length ds" using spec(2,4) length_str_bytes [of s] by (simp add: inp)
  moreover have "unat (last (str_bytes s)) mod 2 ^ unat p = 0" if "length ds > 0" using ok(2) that spec(4) by (auto simp: inp)
  ultimately have "i2c_ASN1_BIT_STRING (Some s) = Some inp"
    using i2c_of_bits_left [of s "length ds" "unat p"] spec assms(2) ok(1) by (simp add: inp)
  with s spec(2) True show ?thesis by auto
next
  case False
  with c2i_BIT_STRING_spec(1) [of al a inp] show ?thesis by (cases "c2i_ASN1_BIT_STRING al a inp") auto
qed

theorem bit_string_roundtrip_witness:
  "\<exists>s. c2i_ASN1_BIT_STRING (\<lambda>_. Some (\<lambda>_. 0)) None [3, 0xa8] = Some s \<and> str_wf s \<and> i2c_ASN1_BIT_STRING (Some s) = Some [3, 0xa8]"
  using bit_string_roundtrip [of "\<lambda>_. Some (\<lambda>_. 0)" "[3, 0xa8]" None] by (simp add: der_bit_string_def)

text \<open>
  Setting a bit of a BIT STRING: after a successful \<^verbatim>\<open>ASN1_BIT_STRING_set_bit\<close> the object is well
  formed, bit \<open>n\<close> reads as the value set and every other bit as before, although the code
  grows the block with zeros and drops trailing zero bytes from the length.
\<close>

theorem bit_string_set_get:
  assumes "str_wf a" "ASN1_BIT_STRING_set_bit al (Some a) (int n) val = (True, Some a')"
  shows "str_wf a' \<and> ASN1_BIT_STRING_get_bit (Some a') m = (if m = n then val else ASN1_BIT_STRING_get_bit (Some a) m)"
  using set_bit_spec [OF assms] by blast

theorem bit_string_set_get_witness:
  "\<exists>a'. ASN1_BIT_STRING_set_bit (\<lambda>_. Some (\<lambda>_. 0)) (Some \<lparr>str_length = 1, str_type = 3, str_data = Some [0x80], str_flags = 0\<rparr>) (int 9) True =
      (True, Some a') \<and> ASN1_BIT_STRING_get_bit (Some a') 9 \<and> ASN1_BIT_STRING_get_bit (Some a') 0"
proof -
  let ?a = "\<lparr>str_length = 1, str_type = 3, str_data = Some [0x80], str_flags = 0\<rparr> :: ASN1_STRING"
  let ?a' = "\<lparr>str_length = 2, str_type = 3, str_data = Some [0x80, 0x40], str_flags = 0\<rparr> :: ASN1_STRING"
  have wf: "str_wf ?a" by (simp add: str_wf_def)
  have "skip_trailing_zeros [0x80, 0x40] (Suc 1) = Suc 1" by simp
  then have sk: "skip_trailing_zeros [0x80, 0x40] 2 = 2" unfolding Suc_1 .
  have run: "ASN1_BIT_STRING_set_bit (\<lambda>_. Some (\<lambda>_. 0)) (Some ?a) (int 9) True = (True, Some ?a')"
    using sk by (simp add: ASN1_BIT_STRING_set_bit_def OPENSSL_realloc_def OPENSSL_malloc_def size_add_def buf_write_def push_bit_eq_mult Let_def upt_rec)
  have "ASN1_BIT_STRING_get_bit (Some ?a) 0" by (simp add: get_bit_eq)
  with bit_string_set_get [OF wf run, of 9] bit_string_set_get [OF wf run, of 0] run show ?thesis by auto
qed

end
