(* ===== verification/Mbstring.thy ===== *)
theory Mbstring
  imports Unicode Asn1String
begin

text \<open>
  Multi-byte strings, \<^verbatim>\<open>crypto/asn1/a_mbstr.c\<close>: text in one of four encodings is checked, the first ASN.1
  string type of a fixed order that can hold it is chosen from a mask, and the text is stored in that
  type's encoding.

  The output parameter \<open>out\<close> is \<open>None\<close> for NULL and otherwise the pointer it points to; an object that
  the caller supplied is changed in place and an object of the function's own is returned through it.
\<close>

section \<open>The code\<close>

abbreviation (input) MBSTRING_UTF8 :: int where "MBSTRING_UTF8 \<equiv> 0x1000"
abbreviation (input) MBSTRING_ASC :: int where "MBSTRING_ASC \<equiv> 0x1001"
abbreviation (input) MBSTRING_BMP :: int where "MBSTRING_BMP \<equiv> 0x1002"
abbreviation (input) MBSTRING_UNIV :: int where "MBSTRING_UNIV \<equiv> 0x1004"

abbreviation (input) B_ASN1_PRINTABLESTRING :: u64 where "B_ASN1_PRINTABLESTRING \<equiv> 0x0002"
abbreviation (input) B_ASN1_T61STRING :: u64 where "B_ASN1_T61STRING \<equiv> 0x0004"
abbreviation (input) B_ASN1_IA5STRING :: u64 where "B_ASN1_IA5STRING \<equiv> 0x0010"
abbreviation (input) B_ASN1_UNIVERSALSTRING :: u64 where "B_ASN1_UNIVERSALSTRING \<equiv> 0x0100"
abbreviation (input) B_ASN1_BMPSTRING :: u64 where "B_ASN1_BMPSTRING \<equiv> 0x0800"
abbreviation (input) B_ASN1_UTF8STRING :: u64 where "B_ASN1_UTF8STRING \<equiv> 0x2000"

definition DIRSTRING_TYPE :: u64 where
  "DIRSTRING_TYPE = B_ASN1_PRINTABLESTRING OR B_ASN1_T61STRING OR B_ASN1_BMPSTRING OR B_ASN1_UTF8STRING"

abbreviation (input) V_ASN1_UTF8STRING :: int where "V_ASN1_UTF8STRING \<equiv> 12"
abbreviation (input) V_ASN1_PRINTABLESTRING :: int where "V_ASN1_PRINTABLESTRING \<equiv> 19"
abbreviation (input) V_ASN1_T61STRING :: int where "V_ASN1_T61STRING \<equiv> 20"
abbreviation (input) V_ASN1_IA5STRING :: int where "V_ASN1_IA5STRING \<equiv> 22"
abbreviation (input) V_ASN1_UNIVERSALSTRING :: int where "V_ASN1_UNIVERSALSTRING \<equiv> 28"
abbreviation (input) V_ASN1_BMPSTRING :: int where "V_ASN1_BMPSTRING \<equiv> 30"

text \<open>The reason put on the error queue before \<open>-1\<close> is returned; the last two are put by the callees.\<close>

datatype mb_error =
    ILLEGAL_FORMAT | UNKNOWN_FORMAT | INVALID_BMPSTRING | INVALID_UNIVERSALSTRING | INVALID_UTF8STRING
  | INTERNAL_ERROR | ILLEGAL_CHARACTERS | STRING_TOO_LONG | STRING_TOO_SHORT
  | ALLOCATION_FAILURE | STRING_SET_FAILURE

text \<open>The encodings, as the values that \<open>inform\<close> and \<open>outform\<close> take after the switch.\<close>

datatype mb_form = Form_BMP | Form_UNIV | Form_UTF8 | Form_ASC

definition mb_form_of :: "int \<Rightarrow> mb_form option" where
  "mb_form_of inform =
     (if inform = MBSTRING_BMP then Some Form_BMP
      else if inform = MBSTRING_UNIV then Some Form_UNIV
      else if inform = MBSTRING_UTF8 then Some Form_UTF8
      else if inform = MBSTRING_ASC then Some Form_ASC
      else None)"

fun decode_func :: "mb_form \<Rightarrow> (CBS, u32) op" where
  "decode_func Form_BMP = cbs_get_ucs2_be"
| "decode_func Form_UNIV = cbs_get_utf32_be"
| "decode_func Form_UTF8 = cbs_get_utf8"
| "decode_func Form_ASC = cbs_get_latin1"

fun mb_form_error :: "mb_form \<Rightarrow> mb_error" where
  "mb_form_error Form_BMP = INVALID_BMPSTRING"
| "mb_form_error Form_UNIV = INVALID_UNIVERSALSTRING"
| "mb_form_error Form_UTF8 = INVALID_UTF8STRING"
| "mb_form_error Form_ASC = INTERNAL_ERROR"

fun encode_func :: "mb_form \<Rightarrow> allocator \<Rightarrow> nat \<Rightarrow> u32 \<Rightarrow> (CBB, unit) op" where
  "encode_func Form_BMP = cbb_add_ucs2_be"
| "encode_func Form_UNIV = cbb_add_utf32_be"
| "encode_func Form_UTF8 = cbb_add_utf8"
| "encode_func Form_ASC = cbb_add_latin1"

definition asn1_is_printable :: "u32 \<Rightarrow> bool" where
  "asn1_is_printable v =
     (if v > 0x7f then False
      else OPENSSL_isalnum (uint v) \<or> v = 32 \<or> v = 39 \<or> v = 40 \<or> v = 41 \<or> v = 43 \<or> v = 44 \<or> v = 45 \<or>
           v = 46 \<or> v = 47 \<or> v = 58 \<or> v = 61 \<or> v = 63)"

text \<open>The update of the mask for one character: the output types that cannot hold it are removed.\<close>

definition mb_narrow :: "u32 \<Rightarrow> u64 \<Rightarrow> u64" where
  "mb_narrow c m =
     (let m = (if m AND B_ASN1_PRINTABLESTRING \<noteq> 0 \<and> \<not> asn1_is_printable c then m AND NOT B_ASN1_PRINTABLESTRING else m);
          m = (if m AND B_ASN1_IA5STRING \<noteq> 0 \<and> c > 127 then m AND NOT B_ASN1_IA5STRING else m);
          m = (if m AND B_ASN1_T61STRING \<noteq> 0 \<and> c > 0xff then m AND NOT B_ASN1_T61STRING else m)
      in if m AND B_ASN1_BMPSTRING \<noteq> 0 \<and> c > 0xffff then m AND NOT B_ASN1_BMPSTRING else m)"

section \<open>The encodings\<close>

text \<open>What each encoding writes for a character, and the characters it has.\<close>

fun mb_bytes :: "mb_form \<Rightarrow> u32 \<Rightarrow> u8 list" where
  "mb_bytes Form_BMP u = be_bytes 2 (unat u)"
| "mb_bytes Form_UNIV u = be_bytes 4 (unat u)"
| "mb_bytes Form_UTF8 u = utf8_bytes (unat u)"
| "mb_bytes Form_ASC u = [ucast u]"

fun mb_valid :: "mb_form \<Rightarrow> u32 \<Rightarrow> bool" where
  "mb_valid Form_BMP u \<longleftrightarrow> u \<le> 0xffff \<and> is_valid_code_point u"
| "mb_valid Form_UNIV u \<longleftrightarrow> is_valid_code_point u"
| "mb_valid Form_UTF8 u \<longleftrightarrow> is_valid_code_point u"
| "mb_valid Form_ASC u \<longleftrightarrow> u \<le> 0xff"

definition mb_text :: "mb_form \<Rightarrow> u32 list \<Rightarrow> u8 list" where
  "mb_text f cs = concat (map (mb_bytes f) cs)"

lemma mb_text_simps [simp]: "mb_text f [] = []" "mb_text f (c # cs) = mb_bytes f c @ mb_text f cs"
  by (simp_all add: mb_text_def)

lemma latin1_iff: "cbs_get_latin1 cbs = (Some u, rest) \<longleftrightarrow> u \<le> 0xff \<and> cbs = ucast u # rest"
proof -
  have u: "u \<le> 0xff \<Longrightarrow> ucast (ucast u :: u8) = u" for u :: u32
    by (simp add: word_le_nat_alt word_unat_eq_iff unsigned_ucast_eq take_bit_eq_mod unat_mod)
  have "ucast (c :: u8) \<le> (0xff :: u32)" for c
  proof -
    have "unat c mod 4294967296 < 256" using unat_byte_less [of c] mod_less_eq_dividend [of "unat c" 4294967296] by (rule le_less_trans [rotated])
    then show ?thesis by (simp add: word_le_nat_alt unsigned_ucast_eq take_bit_eq_mod)
  qed
  moreover have "ucast (ucast c :: u32) = c" for c :: u8 by (rule bit_word_eqI) (simp add: bit_simps)
  ultimately show ?thesis using u [of u]
    by (auto simp: cbs_get_latin1_def pbind_eq_Some u8_codec.get_iff)
qed

lemma ucs2_iff: "cbs_get_ucs2_be cbs = (Some u, rest) \<longleftrightarrow> (u \<le> 0xffff \<and> is_valid_code_point u) \<and> cbs = be_bytes 2 (unat u) @ rest"
proof -
  have n: "unat (ucast c :: u32) = unat c" for c :: u16
    using unat_u16_less [of c] by (simp add: unsigned_ucast_eq take_bit_eq_mod)
  have le: "ucast c \<le> (0xffff :: u32)" for c :: u16
    using unat_u16_less [of c] by (simp add: word_le_nat_alt n)
  have u: "\<exists>c :: u16. u = ucast c" if "u \<le> 0xffff" for u :: u32
    using that by (intro exI [of _ "ucast u"]) (simp add: word_le_nat_alt word_unat_eq_iff unsigned_ucast_eq take_bit_eq_mod unat_mod)
  show ?thesis
  proof
    assume "cbs_get_ucs2_be cbs = (Some u, rest)"
    then obtain c :: u16 where "is_valid_code_point (ucast c)" "u = ucast c" "cbs = be_bytes 2 (unat c) @ rest"
      unfolding cbs_get_ucs2_be_def pbind_eq_Some u16_codec.get_iff by (simp add: pguard_eq_Some pret_def) blast
    with le show "(u \<le> 0xffff \<and> is_valid_code_point u) \<and> cbs = be_bytes 2 (unat u) @ rest" by (simp add: n)
  next
    assume "(u \<le> 0xffff \<and> is_valid_code_point u) \<and> cbs = be_bytes 2 (unat u) @ rest"
    moreover then obtain c :: u16 where "u = ucast c" using u by blast
    ultimately show "cbs_get_ucs2_be cbs = (Some u, rest)"
      by (simp add: cbs_get_ucs2_be_def u16_codec.get_enc n op_simps)
  qed
qed

lemma utf32_iff: "cbs_get_utf32_be cbs = (Some u, rest) \<longleftrightarrow> is_valid_code_point u \<and> cbs = be_bytes 4 (unat u) @ rest"
  unfolding cbs_get_utf32_be_def pbind_eq_Some u32_codec.get_iff by (auto simp: op_simps split: if_splits)

lemma decode_func_iff: "decode_func f cbs = (Some u, rest) \<longleftrightarrow> mb_valid f u \<and> cbs = mb_bytes f u @ rest"
  by (cases f) (simp_all only: decode_func.simps mb_valid.simps mb_bytes.simps latin1_iff ucs2_iff utf32_iff utf8_codec.get_iff append.simps)

interpretation mb_codec: codec "mb_bytes f" "mb_valid f" "decode_func f" for f
  by unfold_locales (simp_all only: decode_func_iff)

lemma mb_bytes_nonempty [simp]: "mb_bytes f u \<noteq> []"
proof -
  have "be_bytes n x \<noteq> []" if "0 < n" for n x using length_be_bytes [of n x] that by (metis list.size(3) less_irrefl)
  from this [of 2] this [of 4] show ?thesis by (cases f) (simp_all add: utf8_bytes_def del: be_bytes.simps)
qed

lemma decode_shrinks: "decode_func f cbs = (Some u, cbs') \<Longrightarrow> length cbs' < length cbs"
  unfolding mb_codec.get_iff by auto

lemma builder_op_encode:
  assumes "mb_valid f u"
  shows "builder_op al d (encode_func f al d u) (append_to d (mb_bytes f u))"
proof (cases f)
  case Form_BMP
  with assms have "unat (ucast u :: u16) = unat u"
    by (simp add: word_le_nat_alt unsigned_ucast_eq take_bit_eq_mod)
  with Form_BMP assms show ?thesis using add_u16.builder_op_axioms [of al d "ucast u"] by (simp add: cbb_add_ucs2_be_def)
next
  case Form_UNIV
  with assms show ?thesis using add_u32.builder_op_axioms [of al d u] by (simp add: cbb_add_utf32_be_def)
next
  case Form_UTF8
  with assms show ?thesis using builder_op_add_utf8 [of u al d] by simp
next
  case Form_ASC
  with assms show ?thesis using add_u8.builder_op_axioms [of al d "ucast u"] by (simp add: cbb_add_latin1_def)
qed

section \<open>The loops\<close>

text \<open>
  The scan: every character is decoded, a byte order mark in front of a two- or four-byte text is refused,
  and the mask, the number of characters and the length in UTF-8 are updated.
\<close>

function mb_scan :: "mb_form \<Rightarrow> int \<Rightarrow> CBS \<Rightarrow> u64 \<Rightarrow> nat \<Rightarrow> nat \<Rightarrow> mb_error + (u64 \<times> nat \<times> nat)" where
  "mb_scan f maxsize cbs m nchar utf8_len =
     (if CBS_len cbs \<noteq> 0
      then case decode_func f cbs of
             (None, _) \<Rightarrow> Inl (mb_form_error f)
           | (Some c, cbs) \<Rightarrow>
               if nchar = 0 \<and> (f = Form_BMP \<or> f = Form_UNIV) \<and> c = 0xfeff then Inl ILLEGAL_CHARACTERS
               else let m = mb_narrow c m
                    in if m = 0 then Inl ILLEGAL_CHARACTERS
                       else let nchar = size_add nchar 1; utf8_len = size_add utf8_len (cbb_get_utf8_len c)
                            in if maxsize > 0 \<and> nchar > nat maxsize then Inl STRING_TOO_LONG
                               else mb_scan f maxsize cbs m nchar utf8_len
      else Inr (m, nchar, utf8_len))"
  by pat_completeness auto
termination
  by (relation "measure (\<lambda>(f, maxsize, cbs, m, nchar, utf8_len). length cbs)") (auto dest: decode_shrinks [OF sym])

declare mb_scan.simps [simp del]

text \<open>The choice of the output type, its encoding and the size estimate.\<close>

definition mb_output :: "u64 \<Rightarrow> nat \<Rightarrow> nat \<Rightarrow> (int \<times> mb_form \<times> nat) option" where
  "mb_output m nchar utf8_len =
     (if m AND B_ASN1_PRINTABLESTRING \<noteq> 0 then Some (V_ASN1_PRINTABLESTRING, Form_ASC, nchar)
      else if m AND B_ASN1_IA5STRING \<noteq> 0 then Some (V_ASN1_IA5STRING, Form_ASC, nchar)
      else if m AND B_ASN1_T61STRING \<noteq> 0 then Some (V_ASN1_T61STRING, Form_ASC, nchar)
      else if m AND B_ASN1_BMPSTRING \<noteq> 0 then Some (V_ASN1_BMPSTRING, Form_BMP, size_mul 2 nchar)
      else if m AND B_ASN1_UNIVERSALSTRING \<noteq> 0 then Some (V_ASN1_UNIVERSALSTRING, Form_UNIV, size_mul 4 nchar)
      else if m AND B_ASN1_UTF8STRING \<noteq> 0 then Some (V_ASN1_UTF8STRING, Form_UTF8, utf8_len)
      else None)"

function mb_reencode :: "allocator \<Rightarrow> mb_form \<Rightarrow> mb_form \<Rightarrow> CBS \<Rightarrow> (CBB, unit) op" where
  "mb_reencode al f g cbs =
     (if CBS_len cbs \<noteq> 0
      then case decode_func f cbs of
             (None, _) \<Rightarrow> pfail
           | (Some c, cbs) \<Rightarrow> pbind (encode_func g al 0 c) (\<lambda>_. mb_reencode al f g cbs)
      else pret ())"
  by pat_completeness auto
termination
  by (relation "measure (\<lambda>(al, f, g, cbs). length cbs)") (auto dest: decode_shrinks [OF sym])

declare mb_reencode.simps [simp del]

definition ASN1_mbstring_ncopy ::
  "allocator \<Rightarrow> ASN1_STRING option option \<Rightarrow> u8 list \<Rightarrow> int \<Rightarrow> int \<Rightarrow> u64 \<Rightarrow> int \<Rightarrow> int \<Rightarrow>
   (mb_error + int) \<times> ASN1_STRING option option" where
  "ASN1_mbstring_ncopy al out inp len inform m minsize maxsize =
     (if len < -1 then (Inl ILLEGAL_FORMAT, out)
      else let len = (if len = -1 then strlen inp else nat len); m = (if m = 0 then DIRSTRING_TYPE else m)
      in case mb_form_of inform of
        None \<Rightarrow> (Inl UNKNOWN_FORMAT, out)
      | Some f \<Rightarrow>
         (case mb_scan f maxsize (CBS_init inp len) m 0 0 of
            Inl e \<Rightarrow> (Inl e, out)
          | Inr (m, nchar, utf8_len) \<Rightarrow>
             if minsize > 0 \<and> nchar < nat minsize then (Inl STRING_TOO_SHORT, out)
             else case mb_output m nchar utf8_len of
               None \<Rightarrow> (Inl ILLEGAL_CHARACTERS, out)
             | Some (ty, g, size_estimate) \<Rightarrow>
                (case out of
                   None \<Rightarrow> (Inr ty, out)
                 | Some old \<Rightarrow>
                    (case (case old of None \<Rightarrow> ASN1_STRING_type_new al ty | Some dest \<Rightarrow> Some dest) of
                       None \<Rightarrow> (Inl ALLOCATION_FAILURE, out)
                     | Some dest \<Rightarrow>
                        if f = g
                        then (case ASN1_STRING_set al (Some inp) (int len) dest of
                                (False, _) \<Rightarrow> (Inl STRING_SET_FAILURE, out)
                              | (True, dest) \<Rightarrow> (Inr ty, Some (Some (dest\<lparr>str_type := ty\<rparr>))))
                        else case CBB_init al (size_add size_estimate 1) of
                               None \<Rightarrow> (Inl ALLOCATION_FAILURE, out)
                             | Some cbb \<Rightarrow>
                                (case pbind (pbind (mb_reencode al f g (CBS_init inp len)) (\<lambda>_. CBB_add_u8 al 0 0)) (\<lambda>_. CBB_finish al 0) cbb of
                                   (None, _) \<Rightarrow> (Inl INTERNAL_ERROR, out)
                                 | (Some (data, data_len), _) \<Rightarrow>
                                    if data_len < 1 \<or> data_len > INT_MAX then (Inl INTERNAL_ERROR, out)
                                    else (Inr ty, Some (Some (ASN1_STRING_set0 (Some data) (data_len - 1) (dest\<lparr>str_type := ty\<rparr>)))))))))"

definition ASN1_mbstring_copy ::
  "allocator \<Rightarrow> ASN1_STRING option option \<Rightarrow> u8 list \<Rightarrow> int \<Rightarrow> int \<Rightarrow> u64 \<Rightarrow> (mb_error + int) \<times> ASN1_STRING option option" where
  "ASN1_mbstring_copy al out inp len inform m = ASN1_mbstring_ncopy al out inp len inform m 0 0"

section \<open>The choice of the type\<close>

text \<open>
  The specification: the candidate types in their order, the characters each can hold, the bit that
  permits it and its encoding.
\<close>

definition mb_types :: "(int \<times> u64 \<times> mb_form \<times> (u32 \<Rightarrow> bool)) list" where
  "mb_types =
     [(V_ASN1_PRINTABLESTRING, B_ASN1_PRINTABLESTRING, Form_ASC, asn1_is_printable),
      (V_ASN1_IA5STRING, B_ASN1_IA5STRING, Form_ASC, \<lambda>c. c \<le> 127),
      (V_ASN1_T61STRING, B_ASN1_T61STRING, Form_ASC, \<lambda>c. c \<le> 0xff),
      (V_ASN1_BMPSTRING, B_ASN1_BMPSTRING, Form_BMP, \<lambda>c. c \<le> 0xffff),
      (V_ASN1_UNIVERSALSTRING, B_ASN1_UNIVERSALSTRING, Form_UNIV, \<lambda>c. True),
      (V_ASN1_UTF8STRING, B_ASN1_UTF8STRING, Form_UTF8, \<lambda>c. True)]"

definition mb_choice :: "u64 \<Rightarrow> u32 list \<Rightarrow> (int \<times> mb_form) option" where
  "mb_choice m cs = map_option (\<lambda>(ty, _, g, _). (ty, g)) (find (\<lambda>(ty, b, g, holds). m AND b \<noteq> 0 \<and> list_all holds cs) mb_types)"

text \<open>The mask in terms of its bits: a character removes the bits of the types that cannot hold it.\<close>

lemma type_bits: "m AND 0x0002 \<noteq> 0 \<longleftrightarrow> bit m 1" "m AND 0x0010 \<noteq> 0 \<longleftrightarrow> bit m 4" "m AND 0x0004 \<noteq> 0 \<longleftrightarrow> bit m 2"
  "m AND 0x0800 \<noteq> 0 \<longleftrightarrow> bit m 11" "m AND 0x0100 \<noteq> 0 \<longleftrightarrow> bit m 8" "m AND 0x2000 \<noteq> 0 \<longleftrightarrow> bit m 13" for m :: u64
  by (simp_all add: bit_iff_and_push_bit_not_eq_0 push_bit_eq_mult)

lemma bit_clear: "bit (m AND NOT 0x0002) k \<longleftrightarrow> bit m k \<and> k \<noteq> 1" "bit (m AND NOT 0x0010) k \<longleftrightarrow> bit m k \<and> k \<noteq> 4"
  "bit (m AND NOT 0x0004) k \<longleftrightarrow> bit m k \<and> k \<noteq> 2" "bit (m AND NOT 0x0800) k \<longleftrightarrow> bit m k \<and> k \<noteq> 11" for m :: u64
proof -
  have "bit (m AND NOT (push_bit j 1)) k \<longleftrightarrow> bit m k \<and> k \<noteq> j" for j
    using bit_imp_le_length [of m k] by (auto simp: bit_simps)
  from this [of 1] this [of 4] this [of 2] this [of 11] show "bit (m AND NOT 0x0002) k \<longleftrightarrow> bit m k \<and> k \<noteq> 1"
    "bit (m AND NOT 0x0010) k \<longleftrightarrow> bit m k \<and> k \<noteq> 4" "bit (m AND NOT 0x0004) k \<longleftrightarrow> bit m k \<and> k \<noteq> 2"
    "bit (m AND NOT 0x0800) k \<longleftrightarrow> bit m k \<and> k \<noteq> 11"
    by (simp_all add: push_bit_eq_mult)
qed

definition bit_holds :: "nat \<Rightarrow> u32 \<Rightarrow> bool" where
  "bit_holds k c \<longleftrightarrow> (k = 1 \<longrightarrow> asn1_is_printable c) \<and> (k = 4 \<longrightarrow> c \<le> 127) \<and> (k = 2 \<longrightarrow> c \<le> 0xff) \<and> (k = 11 \<longrightarrow> c \<le> 0xffff)"

lemma bit_narrow: "bit (mb_narrow c m) k \<longleftrightarrow> bit m k \<and> bit_holds k c"
proof -
  note clear = if_distrib [where f = "\<lambda>x. bit x k"] bit_clear
  define m1 where "m1 = (if bit m 1 \<and> \<not> asn1_is_printable c then m AND NOT B_ASN1_PRINTABLESTRING else m)"
  define m2 where "m2 = (if bit m1 4 \<and> c > 127 then m1 AND NOT B_ASN1_IA5STRING else m1)"
  define m3 where "m3 = (if bit m2 2 \<and> c > 0xff then m2 AND NOT B_ASN1_T61STRING else m2)"
  have e: "mb_narrow c m = (if bit m3 11 \<and> c > 0xffff then m3 AND NOT B_ASN1_BMPSTRING else m3)"
    unfolding mb_narrow_def Let_def type_bits m3_def m2_def m1_def ..
  have "bit m1 k \<longleftrightarrow> bit m k \<and> (k = 1 \<longrightarrow> asn1_is_printable c)"
    unfolding m1_def clear by auto
  moreover have "bit m2 k \<longleftrightarrow> bit m1 k \<and> (k = 4 \<longrightarrow> c \<le> 127)"
    unfolding m2_def clear by auto
  moreover have "bit m3 k \<longleftrightarrow> bit m2 k \<and> (k = 2 \<longrightarrow> c \<le> 0xff)"
    unfolding m3_def clear by auto
  moreover have "bit (mb_narrow c m) k \<longleftrightarrow> bit m3 k \<and> (k = 11 \<longrightarrow> c \<le> 0xffff)"
    unfolding e clear by auto
  ultimately show ?thesis by (simp only: bit_holds_def conj_assoc)
qed

lemma bit_fold_narrow: "bit (fold mb_narrow cs m) k \<longleftrightarrow> bit m k \<and> list_all (bit_holds k) cs"
  by (induction cs arbitrary: m) (auto simp: bit_narrow)

lemma fold_narrow_zero: "fold mb_narrow cs 0 = 0"
  by (rule bit_word_eqI) (simp add: bit_fold_narrow)

lemma mb_output_choice:
  "map_option (\<lambda>(ty, g, _). (ty, g)) (mb_output (fold mb_narrow cs m) nchar utf8_len) = mb_choice m cs"
proof -
  have "bit_holds 1 = asn1_is_printable" "bit_holds 4 = (\<lambda>c. c \<le> 127)" "bit_holds 2 = (\<lambda>c. c \<le> 0xff)"
    "bit_holds 11 = (\<lambda>c. c \<le> 0xffff)" "bit_holds 8 = (\<lambda>c. True)" "bit_holds 13 = (\<lambda>c. True)"
    by (auto simp: bit_holds_def)
  then show ?thesis
    unfolding mb_output_def mb_choice_def mb_types_def by (simp add: type_bits bit_fold_narrow)
qed

section \<open>The scan\<close>

text \<open>A byte order mark in front of a text of fixed-width characters.\<close>

definition mb_bom :: "mb_form \<Rightarrow> u32 list \<Rightarrow> bool" where
  "mb_bom f cs \<longleftrightarrow> (f = Form_BMP \<or> f = Form_UNIV) \<and> cs \<noteq> [] \<and> hd cs = 0xfeff"

lemma mb_scan_Nil: "mb_scan f maxsize [] m nchar utf8_len = Inr (m, nchar, utf8_len)"
  by (subst mb_scan.simps) (simp add: CBS_len_def)

lemma mb_scan_Cons:
  assumes "mb_valid f c"
  shows "mb_scan f maxsize (mb_bytes f c @ cbs) m nchar utf8_len =
     (if nchar = 0 \<and> (f = Form_BMP \<or> f = Form_UNIV) \<and> c = 0xfeff then Inl ILLEGAL_CHARACTERS
      else if mb_narrow c m = 0 then Inl ILLEGAL_CHARACTERS
      else if maxsize > 0 \<and> size_add nchar 1 > nat maxsize then Inl STRING_TOO_LONG
      else mb_scan f maxsize cbs (mb_narrow c m) (size_add nchar 1) (size_add utf8_len (cbb_get_utf8_len c)))"
  by (subst mb_scan.simps) (simp add: CBS_len_def mb_codec.get_enc [OF assms] Let_def)

lemma length_mb_text: "length cs \<le> length (mb_text f cs)"
proof (induction cs)
  case (Cons c cs)
  then show ?case using mb_bytes_nonempty [of f c] by (cases "mb_bytes f c") simp_all
qed simp

lemma mb_scan_ok:
  assumes "list_all (mb_valid f) cs" "fold mb_narrow cs m \<noteq> 0" "n + length cs \<le> SIZE_MAX"
    and "n = 0 \<Longrightarrow> \<not> mb_bom f cs" "maxsize > 0 \<Longrightarrow> n + length cs \<le> nat maxsize"
  shows "\<exists>u'. mb_scan f maxsize (mb_text f cs) m n u = Inr (fold mb_narrow cs m, n + length cs, u') \<and> u' \<le> u + 4 * length cs"
  using assms
proof (induction cs arbitrary: m n u)
  case (Cons c cs)
  have n: "size_add n 1 = Suc n" using Cons.prems(3) by (simp add: size_add_def)
  have nz: "mb_narrow c m \<noteq> 0" using Cons.prems(2) fold_narrow_zero [of cs] by auto
  have bom: "\<not> (n = 0 \<and> (f = Form_BMP \<or> f = Form_UNIV) \<and> c = 0xfeff)"
    using Cons.prems(4) by (auto simp: mb_bom_def)
  have mx: "\<not> (maxsize > 0 \<and> Suc n > nat maxsize)" using Cons.prems(5) by auto
  obtain u' where "mb_scan f maxsize (mb_text f cs) (mb_narrow c m) (Suc n) (size_add u (cbb_get_utf8_len c)) =
      Inr (fold mb_narrow cs (mb_narrow c m), Suc n + length cs, u')" "u' \<le> size_add u (cbb_get_utf8_len c) + 4 * length cs"
    using Cons.IH [of "mb_narrow c m" "Suc n" "size_add u (cbb_get_utf8_len c)"] Cons.prems by auto
  moreover have "size_add u (cbb_get_utf8_len c) \<le> u + 4"
    using mod_less_eq_dividend [of "u + cbb_get_utf8_len c"] by (auto simp: size_add_def cbb_get_utf8_len_def intro: order_trans)
  ultimately show ?case
    using Cons.prems(1) unfolding mb_text_simps list.pred_inject conj_absorb
    by (simp only: mb_scan_Cons n if_not_P [OF bom] if_not_P [OF mx] if_not_P [OF nz] fold_simps list.size) fastforce
qed (simp add: mb_scan_Nil)

lemma mb_scan_sound:
  assumes "mb_scan f maxsize cbs m n u = Inr (m', n', u')" "m \<noteq> 0" "n + length cbs \<le> SIZE_MAX"
    "maxsize > 0 \<Longrightarrow> n \<le> nat maxsize"
  shows "\<exists>cs. list_all (mb_valid f) cs \<and> cbs = mb_text f cs \<and> fold mb_narrow cs m \<noteq> 0 \<and>
    (n = 0 \<longrightarrow> \<not> mb_bom f cs) \<and> (maxsize > 0 \<longrightarrow> n + length cs \<le> nat maxsize)"
  using assms
proof (induction cbs arbitrary: m n u rule: length_induct)
  case (1 cbs)
  show ?case
  proof (cases "cbs = []")
    case True
    with "1.prems" show ?thesis by (intro exI [of _ "[]"]) (simp add: mb_bom_def)
  next
    case False
    with "1.prems"(1) obtain c rest where d: "decode_func f cbs = (Some c, rest)"
      by (subst (asm) mb_scan.simps) (auto simp: CBS_len_def split: prod.splits option.splits)
    then have c: "mb_valid f c" "cbs = mb_bytes f c @ rest" by (simp_all add: mb_codec.get_iff)
    have len: "length rest < length cbs" using d by (rule decode_shrinks)
    with "1.prems"(3) have n: "size_add n 1 = Suc n" by (simp add: size_add_def)
    from "1.prems"(1) have s: "mb_scan f maxsize rest (mb_narrow c m) (Suc n) (size_add u (cbb_get_utf8_len c)) = Inr (m', n', u')"
      and g: "\<not> (n = 0 \<and> (f = Form_BMP \<or> f = Form_UNIV) \<and> c = 0xfeff)" "mb_narrow c m \<noteq> 0" "maxsize > 0 \<Longrightarrow> Suc n \<le> nat maxsize"
      unfolding c(2) mb_scan_Cons [OF c(1)] n by (auto split: if_splits)
    have "Suc n + length rest \<le> SIZE_MAX" using "1.prems"(3) len by simp
    then obtain cs where "list_all (mb_valid f) cs" "rest = mb_text f cs" "fold mb_narrow cs (mb_narrow c m) \<noteq> 0"
      "maxsize > 0 \<longrightarrow> Suc n + length cs \<le> nat maxsize"
      using "1.IH" len s g(2,3) by blast
    with c g(1) show ?thesis by (intro exI [of _ "c # cs"]) (auto simp: mb_bom_def)
  qed
qed

section \<open>The copy\<close>

lemma latin1_valid: "u \<le> 0xff \<Longrightarrow> is_valid_code_point u"
proof -
  assume u: "u \<le> 0xff"
  have "unat (u AND 0xfffe) \<le> unat u" by (simp add: word_and_le2 word_le_nat_alt [symmetric])
  then have "u AND 0xfffe \<noteq> 0xfffe" using u by (auto simp: word_unat_eq_iff word_le_nat_alt)
  with u show ?thesis by (simp add: is_valid_code_point_def word_less_nat_alt word_le_nat_alt)
qed

lemma mb_valid_code_point: "mb_valid f u \<Longrightarrow> is_valid_code_point u"
  by (cases f) (simp_all add: latin1_valid)

lemma choice_valid:
  assumes "mb_choice m cs = Some (ty, g)" "list_all (mb_valid f) cs"
  shows "list_all (mb_valid g) cs"
proof -
  have p: "c \<le> 0xff" if "asn1_is_printable c \<or> c \<le> 127" for c :: u32
    using that unfolding asn1_is_printable_def word_le_nat_alt word_less_nat_alt by (auto split: if_splits)
  obtain b holds where t: "(ty, b, g, holds) \<in> set mb_types" "list_all holds cs"
    using assms(1) unfolding mb_choice_def by (auto simp: find_Some_iff) (metis nth_mem)
  have "holds c \<Longrightarrow> is_valid_code_point c \<Longrightarrow> mb_valid g c" for c
    using t(1) p [of c] unfolding mb_types_def by auto
  then show ?thesis using t(2) assms(2) mb_valid_code_point by (auto simp: list_all_iff)
qed

lemma length_mb_bytes: "length (mb_bytes f u) \<le> 4"
  by (cases f) (simp_all add: utf8_bytes_def cont_bytes_def)

lemma length_mb_text_le: "length (mb_text f cs) \<le> 4 * length cs"
proof (induction cs)
  case (Cons c cs)
  then show ?case using length_mb_bytes [of f c] by simp
qed simp

lemma mb_reencode_Nil: "mb_reencode al f g [] = pret ()"
  by (rule ext, subst mb_reencode.simps) (simp add: CBS_len_def)

lemma mb_reencode_Cons:
  "mb_valid f c \<Longrightarrow> mb_reencode al f g (mb_bytes f c @ cbs) = pbind (encode_func g al 0 c) (\<lambda>_. mb_reencode al f g cbs)"
  by (rule ext, subst mb_reencode.simps) (simp add: CBS_len_def mb_codec.get_enc)

lemma builder_op_reencode:
  assumes "list_all (mb_valid f) cs" "list_all (mb_valid g) cs"
  shows "builder_op al 0 (pbind (mb_reencode al f g (mb_text f cs)) (\<lambda>_. CBB_add_u8 al 0 0)) (append_to 0 (mb_text g cs @ [0]))"
  using assms
proof (induction cs)
  case Nil
  have "pbind (pret ()) (\<lambda>_. CBB_add_u8 al 0 0) = CBB_add_u8 al 0 0" by (rule ext) (simp add: op_simps)
  then show ?case using add_u8.builder_op_axioms [of al 0 0] by (simp add: mb_reencode_Nil)
next
  case (Cons c cs)
  then have v: "mb_valid f c" "mb_valid g c" by simp_all
  from builder_op_append_then [OF builder_op_encode [OF v(2)] Cons.IH] Cons.prems show ?case
    by (simp add: mb_reencode_Cons [OF v(1)] pbind_assoc)
qed

lemma CBB_init_ok: "al_total al \<Longrightarrow> cap + 8 \<le> SIZE_MAX \<Longrightarrow> \<exists>cbb. CBB_init al cap = Some cbb"
  using OPENSSL_malloc_total [of al cap] by (auto simp: CBB_init_def split: option.splits)

lemma finish_length:
  assumes op: "builder_op al 0 f e" and init: "CBB_init al cap = Some cbb" "cap \<le> SIZE_MAX"
    and run: "pbind f (\<lambda>_. CBB_finish al 0) cbb = (Some (buf, n), cbb')"
  shows "n \<le> length buf"
proof -
  obtain v c where c: "f cbb = (Some v, c)" "CBB_finish al 0 c = (Some (buf, n), cbb')"
    using run by (auto simp: pbind_eq_Some)
  have "cbb_wf c" using builder_op.op_Some [OF op _ c(1)] CBB_init_spec [OF init] by (auto simp: cbb_le_def)
  from CBB_finish_spec [OF this c(2)] show ?thesis by (metis length_take min.absorb_iff2)
qed

text \<open>Storing the text: what both ways of filling the object achieve.\<close>

lemma mb_store_reencoded:
  assumes al: "al_total al" and v: "list_all (mb_valid f) cs" "list_all (mb_valid g) cs"
    and len: "length cs \<le> 2 ^ 24" and cap: "cap \<le> 2 ^ 27"
  shows "\<exists>cbb data n cbb'. CBB_init al cap = Some cbb \<and>
    pbind (pbind (mb_reencode al f g (mb_text f cs)) (\<lambda>_. CBB_add_u8 al 0 0)) (\<lambda>_. CBB_finish al 0) cbb = (Some (data, n), cbb') \<and>
    \<not> (n < 1 \<or> n > INT_MAX) \<and> str_wf (ASN1_STRING_set0 (Some data) (n - 1) s) \<and>
    str_bytes (ASN1_STRING_set0 (Some data) (n - 1) s) = mb_text g cs"
proof -
  obtain cbb where cbb: "CBB_init al cap = Some cbb" using CBB_init_ok [OF al] cap by force
  have l: "length (mb_text g cs @ [0]) \<le> 2 ^ 26 + 1" using length_mb_text_le [of g cs] len by simp
  then have "length (mb_text g cs @ [0]) \<le> 2 ^ 62" by simp
  from build [OF builder_op_reencode [OF v] cbb _ al this] cap obtain data n cbb' where
    run: "pbind (pbind (mb_reencode al f g (mb_text f cs)) (\<lambda>_. CBB_add_u8 al 0 0)) (\<lambda>_. CBB_finish al 0) cbb = (Some (data, n), cbb')"
    and out: "take n data = mb_text g cs @ [0]" by (auto simp: CBS_init_def)
  have "n \<le> length data" using finish_length [OF builder_op_reencode [OF v] cbb _ run] cap by simp
  then have n: "n = Suc (length (mb_text g cs))" using arg_cong [OF out, of length] by simp
  then have "take (n - 1) data = mb_text g cs" using arg_cong [OF out, of "take (n - 1)"] by simp
  with n \<open>n \<le> length data\<close> l have "\<not> (n < 1 \<or> n > INT_MAX) \<and> str_wf (ASN1_STRING_set0 (Some data) (n - 1) s) \<and>
      str_bytes (ASN1_STRING_set0 (Some data) (n - 1) s) = mb_text g cs"
    by (simp add: ASN1_STRING_set0_def str_wf_def str_bytes_def)
  with cbb run show ?thesis by blast
qed

text \<open>The input, and what the function asks of its characters.\<close>

definition mb_input :: "u8 list \<Rightarrow> int \<Rightarrow> u8 list" where
  "mb_input inp len = take (if len = -1 then strlen inp else nat len) inp"

definition mb_accepts :: "mb_form \<Rightarrow> u32 list \<Rightarrow> int \<Rightarrow> int \<Rightarrow> bool" where
  "mb_accepts f cs minsize maxsize \<longleftrightarrow>
     list_all (mb_valid f) cs \<and> \<not> mb_bom f cs \<and>
     (minsize > 0 \<longrightarrow> nat minsize \<le> length cs) \<and> (maxsize > 0 \<longrightarrow> length cs \<le> nat maxsize)"

text \<open>What a successful call leaves in \<open>*out\<close>.\<close>

definition mb_stored :: "ASN1_STRING option option \<Rightarrow> ASN1_STRING option option \<Rightarrow> int \<Rightarrow> u8 list \<Rightarrow> bool" where
  "mb_stored out out' ty bytes \<longleftrightarrow>
     (case out of
        None \<Rightarrow> out' = None
      | Some _ \<Rightarrow> (case out' of Some (Some s) \<Rightarrow> str_wf s \<and> str_type s = ty \<and> str_bytes s = bytes | _ \<Rightarrow> False))"

lemma mb_choice_nonzero: "mb_choice m cs = Some r \<Longrightarrow> fold mb_narrow cs m \<noteq> 0"
  using mb_output_choice [of cs m 0 0] by (auto simp: mb_output_def)

lemma mb_output_size:
  assumes "mb_output m nchar u = Some (ty, g, est)" "nchar \<le> k" "u \<le> 4 * k"
  shows "est \<le> 4 * k"
proof -
  have "size_mul c nchar \<le> 4 * k" if "c \<le> 4" for c
    using mult_le_mono [OF that assms(2)] mod_less_eq_dividend [of "c * nchar"] unfolding size_mul_def by (rule order_trans [rotated])
  from this [of 2] this [of 4] show ?thesis using assms by (auto simp: mb_output_def split: if_splits)
qed

lemma ncopy_succeeds:
  assumes al: "al_total al" and len: "-1 \<le> len" "nat len \<le> length inp" "length (mb_input inp len) \<le> 2 ^ 24"
    and wf: "\<And>s. out = Some (Some s) \<Longrightarrow> str_wf s"
    and f: "mb_form_of inform = Some f" and cs: "mb_input inp len = mb_text f cs"
    and ok: "mb_accepts f cs minsize maxsize" and ty: "mb_choice (if m = 0 then DIRSTRING_TYPE else m) cs = Some (ty, g)"
  shows "\<exists>out'. ASN1_mbstring_ncopy al out inp len inform m minsize maxsize = (Inr ty, out') \<and> mb_stored out out' ty (mb_text g cs)"
proof -
  let ?len = "if len = -1 then strlen inp else nat len" and ?m = "if m = 0 then DIRSTRING_TYPE else m"
  have i: "CBS_init inp ?len = mb_text f cs" using cs by (simp add: mb_input_def CBS_init_def)
  have n: "length cs \<le> 2 ^ 24" using length_mb_text [of cs f] len(3) cs by simp
  obtain u where scan: "mb_scan f maxsize (mb_text f cs) ?m 0 0 = Inr (fold mb_narrow cs ?m, length cs, u)" and u: "u \<le> 4 * length cs"
    using mb_scan_ok [of f cs ?m 0 maxsize 0] ok n mb_choice_nonzero [OF ty] by (auto simp: mb_accepts_def)
  obtain est where o: "mb_output (fold mb_narrow cs ?m) (length cs) u = Some (ty, g, est)"
    using mb_output_choice [of cs ?m "length cs" u] ty by auto
  have est: "est \<le> 2 ^ 26" using mb_output_size [OF o order_refl u] n by simp
  then have cap: "size_add est 1 \<le> 2 ^ 27" by (subst size_add_exact) simp_all
  have mn: "\<not> (minsize > 0 \<and> length cs < nat minsize)" using ok by (auto simp: mb_accepts_def)
  have vf: "list_all (mb_valid f) cs" using ok by (simp add: mb_accepts_def)
  note vg = choice_valid [OF ty vf]
  note run = ASN1_mbstring_ncopy_def Let_def i f scan o if_not_P [OF mn]
  have l1: "\<not> len < -1" using len(1) by simp
  show ?thesis
  proof (cases out)
    case None
    then show ?thesis using l1 by (simp add: run mb_stored_def)
  next
    case (Some old)
    have "\<exists>dest. (case old of None \<Rightarrow> ASN1_STRING_type_new al ty | Some dest \<Rightarrow> Some dest) = Some dest \<and> str_wf dest"
      using type_new_total [OF al, of ty] new_wf [of al ty] wf Some by (cases old) auto
    then obtain dest where dest: "(case old of None \<Rightarrow> ASN1_STRING_type_new al ty | Some dest \<Rightarrow> Some dest) = Some dest" "str_wf dest" by blast
    show ?thesis
    proof (cases "f = g")
      case True
      have "strlen inp \<le> length inp" by (simp add: strlen_def length_takeWhile_le)
      with len have l: "?len \<le> length inp" "?len \<le> ASN1_STRING_MAX" by (auto simp: mb_input_def)
      obtain s where s: "ASN1_STRING_set al (Some inp) (int ?len) dest = (True, s)"
        using ASN1_STRING_set_total [OF al l(2)] by blast
      note set = ASN1_STRING_set_spec [OF dest(2) s l(1)]
      have "mb_stored out (Some (Some (s\<lparr>str_type := ty\<rparr>))) ty (mb_text g cs)"
        using set(1,2) cs True by (simp add: Some mb_stored_def str_wf_def str_bytes_def mb_input_def split: option.splits)
      moreover have "ASN1_mbstring_ncopy al out inp len inform m minsize maxsize = (Inr ty, Some (Some (s\<lparr>str_type := ty\<rparr>)))"
        unfolding run if_not_P [OF l1] Some option.case dest(1) if_P [OF True] s sum.case prod.case bool.case ..
      ultimately show ?thesis by blast
    next
      case False
      obtain cbb data n cbb' where c: "CBB_init al (size_add est 1) = Some cbb"
        "pbind (pbind (mb_reencode al f g (mb_text f cs)) (\<lambda>_. CBB_add_u8 al 0 0)) (\<lambda>_. CBB_finish al 0) cbb = (Some (data, n), cbb')"
        and nn: "\<not> (n < 1 \<or> n > INT_MAX)"
        and s: "str_wf (ASN1_STRING_set0 (Some data) (n - 1) (dest\<lparr>str_type := ty\<rparr>))"
          "str_bytes (ASN1_STRING_set0 (Some data) (n - 1) (dest\<lparr>str_type := ty\<rparr>)) = mb_text g cs"
        using mb_store_reencoded [OF al vf vg n cap] by blast
      have "mb_stored out (Some (Some (ASN1_STRING_set0 (Some data) (n - 1) (dest\<lparr>str_type := ty\<rparr>)))) ty (mb_text g cs)"
        using s by (simp add: Some mb_stored_def) (simp add: ASN1_STRING_set0_def)
      moreover have "ASN1_mbstring_ncopy al out inp len inform m minsize maxsize =
          (Inr ty, Some (Some (ASN1_STRING_set0 (Some data) (n - 1) (dest\<lparr>str_type := ty\<rparr>))))"
        unfolding run if_not_P [OF l1] Some option.case dest(1) if_not_P [OF False] sum.case prod.case c if_not_P [OF nn] ..
      ultimately show ?thesis by blast
    qed
  qed
qed

lemma ncopy_fails:
  assumes len: "-1 \<le> len" "length (mb_input inp len) \<le> 2 ^ 24"
    and no: "\<nexists>f cs r. mb_form_of inform = Some f \<and> mb_input inp len = mb_text f cs \<and> mb_accepts f cs minsize maxsize \<and>
      mb_choice (if m = 0 then DIRSTRING_TYPE else m) cs = Some r"
  shows "\<exists>e. ASN1_mbstring_ncopy al out inp len inform m minsize maxsize = (Inl e, out)"
proof (cases "mb_form_of inform")
  case None
  then show ?thesis by (simp add: ASN1_mbstring_ncopy_def Let_def)
next
  case (Some f)
  let ?m = "if m = 0 then DIRSTRING_TYPE else m"
  have i: "CBS_init inp (if len = -1 then strlen inp else nat len) = mb_input inp len" by (simp add: mb_input_def CBS_init_def)
  have l1: "\<not> len < -1" using len(1) by simp
  note run = ASN1_mbstring_ncopy_def Let_def i if_not_P [OF l1] Some option.case
  show ?thesis
  proof (cases "mb_scan f maxsize (mb_input inp len) ?m 0 0")
    case (Inl e)
    then show ?thesis unfolding run by simp
  next
    case (Inr r)
    obtain m' n' u' where r: "r = (m', n', u')" by (cases r)
    have "?m \<noteq> 0" by (simp add: DIRSTRING_TYPE_def)
    then obtain cs where cs: "list_all (mb_valid f) cs" "mb_input inp len = mb_text f cs" "fold mb_narrow cs ?m \<noteq> 0"
      "\<not> mb_bom f cs" "maxsize > 0 \<longrightarrow> length cs \<le> nat maxsize"
      using mb_scan_sound [OF Inr [unfolded r]] len(2) by auto
    have n: "length cs \<le> SIZE_MAX" using length_mb_text [of cs f] len(2) cs(2) by simp
    obtain u where scan: "mb_scan f maxsize (mb_input inp len) ?m 0 0 = Inr (fold mb_narrow cs ?m, length cs, u)"
      using mb_scan_ok [of f cs ?m 0 maxsize 0] cs n by auto
    show ?thesis
    proof (cases "minsize > 0 \<and> length cs < nat minsize")
      case True
      then show ?thesis unfolding run scan by simp
    next
      case False
      then have "mb_accepts f cs minsize maxsize" using cs by (auto simp: mb_accepts_def)
      then have "mb_choice ?m cs = None" using no Some cs(2) by (cases "mb_choice ?m cs") blast+
      then have "mb_output (fold mb_narrow cs ?m) (length cs) u = None"
        using mb_output_choice [of cs ?m "length cs" u] by simp
      with False show ?thesis unfolding run scan by simp
    qed
  qed
qed

section \<open>Properties\<close>

text \<open>
  C40. \<^verbatim>\<open>ASN1_mbstring_ncopy\<close> stores the text in the first type that can hold it. With memory available and
  at most 16 MB of input, it succeeds when the input is a sequence of characters that are valid in its
  encoding, has no byte order mark in front, respects the size limits and some permitted type holds all
  its characters; it then returns the first such type in the order Printable, IA5, T61, BMP, Universal,
  UTF8, and the object in \<open>*out\<close> has this type and the same characters in the type's encoding. In every
  other case it fails and leaves \<open>*out\<close> as it was.
\<close>

theorem ASN1_mbstring_ncopy_exact:
  assumes "al_total al" "-1 \<le> len" "nat len \<le> length inp" "length (mb_input inp len) \<le> 2 ^ 24"
    and "\<And>s. out = Some (Some s) \<Longrightarrow> str_wf s"
  shows "(\<forall>f cs ty g. mb_form_of inform = Some f \<and> mb_input inp len = mb_text f cs \<and> mb_accepts f cs minsize maxsize \<and>
            mb_choice (if m = 0 then DIRSTRING_TYPE else m) cs = Some (ty, g) \<longrightarrow>
            (\<exists>out'. ASN1_mbstring_ncopy al out inp len inform m minsize maxsize = (Inr ty, out') \<and> mb_stored out out' ty (mb_text g cs))) \<and>
         ((\<nexists>f cs r. mb_form_of inform = Some f \<and> mb_input inp len = mb_text f cs \<and> mb_accepts f cs minsize maxsize \<and>
            mb_choice (if m = 0 then DIRSTRING_TYPE else m) cs = Some r) \<longrightarrow>
            (\<exists>e. ASN1_mbstring_ncopy al out inp len inform m minsize maxsize = (Inl e, out)))"
  using ncopy_succeeds [OF assms(1-5)] ncopy_fails [OF assms(2,4)] by blast

theorem ASN1_mbstring_ncopy_exact_witness:
  "\<exists>out'. ASN1_mbstring_ncopy (\<lambda>_. Some (\<lambda>_. 0)) (Some None) [0xc3, 0xa9] 2 MBSTRING_UTF8 0 1 4 = (Inr V_ASN1_T61STRING, out') \<and>
     mb_stored (Some None) out' V_ASN1_T61STRING [0xe9]"
proof -
  have t: "mb_input [0xc3, 0xa9] 2 = mb_text Form_UTF8 [0xe9]"
    by (simp add: mb_input_def utf8_bytes_def cont_bytes_def)
  have a: "mb_accepts Form_UTF8 [0xe9] 1 4" by (simp add: mb_accepts_def mb_bom_def is_valid_code_point_def)
  have c: "mb_choice DIRSTRING_TYPE [0xe9] = Some (V_ASN1_T61STRING, Form_ASC)"
    by (simp add: mb_choice_def mb_types_def DIRSTRING_TYPE_def asn1_is_printable_def)
  have l: "length (mb_input [0xc3, 0xa9] 2) \<le> 2 ^ 24" by (simp add: mb_input_def)
  have "\<exists>out'. ASN1_mbstring_ncopy (\<lambda>_. Some (\<lambda>_. 0)) (Some None) [0xc3, 0xa9] 2 MBSTRING_UTF8 0 1 4 = (Inr V_ASN1_T61STRING, out') \<and>
     mb_stored (Some None) out' V_ASN1_T61STRING (mb_text Form_ASC [0xe9])"
    by (rule ASN1_mbstring_ncopy_exact [THEN conjunct1, rule_format, where f = Form_UTF8])
      (use l t a c in \<open>simp_all add: mb_form_of_def\<close>)
  then show ?thesis by simp
qed

end
