(* ===== verification/CbsTime.thy ===== *)
theory CbsTime
  imports CbsCodec PosixTime
begin

text \<open>
  Parsing of ASN.1 times, the last part of \<^verbatim>\<open>crypto/bytestring/cbs.c\<close>: \<^verbatim>\<open>CBS_parse_utc_time\<close> and
  \<^verbatim>\<open>CBS_parse_generalized_time\<close>, with the proof that they accept exactly the texts RFC 5280 allows
  (and, if asked to, the ones with a time zone offset).
\<close>

section \<open>The code\<close>

definition cbs_get_two_digits :: "(CBS, int) op" where
  "cbs_get_two_digits = pbind CBS_get_u8 (\<lambda>first_digit.
     pbind (pguard (OPENSSL_isdigit (uint first_digit))) (\<lambda>_.
     pbind CBS_get_u8 (\<lambda>second_digit.
     pbind (pguard (OPENSSL_isdigit (uint second_digit))) (\<lambda>_.
     pret ((uint first_digit - 48) * 10 + (uint second_digit - 48))))))"

definition is_valid_day :: "int \<Rightarrow> int \<Rightarrow> int \<Rightarrow> bool" where
  "is_valid_day year month day =
     (if day < 1 then False
      else if month \<in> {1, 3, 5, 7, 8, 10, 12} then day \<le> 31
      else if month \<in> {4, 6, 9, 11} then day \<le> 30
      else if month = 2
      then (if (year smod 4 = 0 \<and> year smod 100 \<noteq> 0) \<or> year smod 400 = 0 then day \<le> 29 else day \<le> 28)
      else False)"

text \<open>
  The reading part of \<^verbatim>\<open>CBS_parse_rfc5280_time_internal\<close> on its copy of the input; the result is
  \<open>(year, month, day, hour, min, sec, offset_seconds)\<close>.
\<close>

definition rfc5280_year :: "bool \<Rightarrow> (CBS, int) op" where
  "rfc5280_year is_gentime =
     (if is_gentime
      then pbind cbs_get_two_digits (\<lambda>tmp. let year = tmp * 100 in pbind cbs_get_two_digits (\<lambda>tmp. pret (year + tmp)))
      else pbind cbs_get_two_digits (\<lambda>tmp.
             let year = 1900 + tmp; year = (if year < 1950 then year + 100 else year)
             in pbind (pguard (\<not> year \<ge> 2050)) (\<lambda>_. pret year)))"

definition rfc5280_offset :: "bool \<Rightarrow> (CBS, int) op" where
  "rfc5280_offset allow_timezone_offset = pbind CBS_get_u8 (\<lambda>tz.
     pbind (if tz = 90 then pret 0 else if tz = 43 then pret 1 else if tz = 45 then pret (- 1) else pfail) (\<lambda>offset_sign.
     if offset_sign \<noteq> 0
     then pbind (pguard allow_timezone_offset) (\<lambda>_.
          pbind cbs_get_two_digits (\<lambda>offset_hours. pbind (pguard (\<not> offset_hours > 23)) (\<lambda>_.
          pbind cbs_get_two_digits (\<lambda>offset_minutes. pbind (pguard (\<not> offset_minutes > 59)) (\<lambda>_.
          pret (offset_sign * (offset_hours * 3600 + offset_minutes * 60)))))))
     else pret 0))"

definition rfc5280_fields :: "bool \<Rightarrow> bool \<Rightarrow> (CBS, int \<times> int \<times> int \<times> int \<times> int \<times> int \<times> int) op" where
  "rfc5280_fields is_gentime allow_timezone_offset =
     pbind (rfc5280_year is_gentime) (\<lambda>year.
     pbind cbs_get_two_digits (\<lambda>month. pbind (pguard (\<not> (month < 1 \<or> month > 12))) (\<lambda>_.
     pbind cbs_get_two_digits (\<lambda>day. pbind (pguard (is_valid_day year month day)) (\<lambda>_.
     pbind cbs_get_two_digits (\<lambda>hour. pbind (pguard (\<not> hour > 23)) (\<lambda>_.
     pbind cbs_get_two_digits (\<lambda>minute. pbind (pguard (\<not> minute > 59)) (\<lambda>_.
     pbind cbs_get_two_digits (\<lambda>sec. pbind (pguard (\<not> sec > 59)) (\<lambda>_.
     pbind (rfc5280_offset allow_timezone_offset) (\<lambda>offset_seconds.
     pret (year, month, day, hour, minute, sec, offset_seconds)))))))))))))"

text \<open>The flag is the return value; \<open>out_tm\<close> is \<open>None\<close> for NULL and is returned as the call leaves it.\<close>

definition CBS_parse_rfc5280_time_internal :: "CBS \<Rightarrow> bool \<Rightarrow> bool \<Rightarrow> tm option \<Rightarrow> bool \<times> tm option" where
  "CBS_parse_rfc5280_time_internal cbs is_gentime allow_timezone_offset out_tm =
     (case rfc5280_fields is_gentime allow_timezone_offset cbs of
        (None, _) \<Rightarrow> (False, out_tm)
      | (Some (year, month, day, hour, minute, sec, offset_seconds), copy) \<Rightarrow>
          if CBS_len copy \<noteq> 0 then (False, out_tm)
          else case out_tm of
                 None \<Rightarrow> (True, None)
               | Some tm \<Rightarrow>
                   (let tm = tm\<lparr>tm_year := year - 1900, tm_mon := month - 1, tm_mday := day, tm_hour := hour,
                                tm_min := minute, tm_sec := sec\<rparr>
                    in if offset_seconds \<noteq> 0
                       then (case OPENSSL_gmtime_adj tm 0 offset_seconds of (ok, tm) \<Rightarrow> (ok, Some tm))
                       else (True, Some tm)))"

definition CBS_parse_generalized_time :: "CBS \<Rightarrow> tm option \<Rightarrow> bool \<Rightarrow> bool \<times> tm option" where
  "CBS_parse_generalized_time cbs out_tm allow_timezone_offset = CBS_parse_rfc5280_time_internal cbs True allow_timezone_offset out_tm"

definition CBS_parse_utc_time :: "CBS \<Rightarrow> tm option \<Rightarrow> bool \<Rightarrow> bool \<times> tm option" where
  "CBS_parse_utc_time cbs out_tm allow_timezone_offset = CBS_parse_rfc5280_time_internal cbs False allow_timezone_offset out_tm"

section \<open>The texts\<close>

definition two_digits :: "int \<Rightarrow> u8 list" where
  "two_digits n = [of_int (48 + n div 10), of_int (48 + n mod 10)]"

lemma uint_digit: "0 \<le> k \<Longrightarrow> k < 10 \<Longrightarrow> uint (48 + of_int k :: u8) = 48 + k"
proof -
  assume k: "0 \<le> k" "k < 10"
  have "uint (of_int (48 + k) :: u8) = (48 + k) mod 256" by (simp only: uint_word_of_int) simp
  with k show ?thesis by simp
qed

interpretation two_digits_codec: codec two_digits "\<lambda>n. 0 \<le> n \<and> n < 100" cbs_get_two_digits
proof
  show "cbs_get_two_digits (two_digits n @ rest) = (Some n, rest)" if "0 \<le> n \<and> n < 100" for n rest
  proof -
    have "0 \<le> n div 10" "n div 10 < 10" using that div_bound [of 10 n 10] by (simp_all add: pos_imp_zdiv_nonneg_iff)
    then show ?thesis
      using uint_digit [of "n div 10"] uint_digit [of "n mod 10"]
      by (simp add: cbs_get_two_digits_def two_digits_def op_simps OPENSSL_isdigit_def)
  qed
  show "(0 \<le> n \<and> n < 100) \<and> cbs = two_digits n @ rest" if "cbs_get_two_digits cbs = (Some n, rest)" for cbs n rest
  proof -
    from that obtain a b where cbs: "cbs = a # b # rest" and d: "48 \<le> uint a" "uint a \<le> 57" "48 \<le> uint b" "uint b \<le> 57"
      and n: "n = (uint a - 48) * 10 + (uint b - 48)"
      by (cases cbs; cases "tl cbs") (auto simp: cbs_get_two_digits_def pbind_eq_Some OPENSSL_isdigit_def)
    from d have "0 \<le> uint b - 48" "uint b - 48 < 10" by auto
    with n have "n div 10 = uint a - 48" "n mod 10 = uint b - 48" by (simp_all only: div_mult_self3 mod_mult_self3) simp_all
    with cbs d n show ?thesis by (simp add: two_digits_def)
  qed
qed

text \<open>The zone designator: \<open>Z\<close>, or a sign with hours and minutes, and its signed number of seconds.\<close>

definition zone_text :: "bool \<Rightarrow> u8 list \<Rightarrow> int \<Rightarrow> bool" where
  "zone_text allow zone off \<longleftrightarrow> zone = [90] \<and> off = 0 \<or>
     allow \<and> (\<exists>sg hh mm. 0 \<le> hh \<and> hh < 24 \<and> 0 \<le> mm \<and> mm < 60 \<and>
       (sg = 43 \<and> off = hh * 3600 + mm * 60 \<or> sg = 45 \<and> off = - (hh * 3600 + mm * 60)) \<and>
       zone = sg # two_digits hh @ two_digits mm)"

text \<open>
  \<open>time_text gen allow cbs f\<close>: the text \<open>cbs\<close> denotes the fields \<open>f\<close> as a GeneralizedTime
  or, if not \<open>gen\<close>, as a UTCTime, whose two-digit year stands for 1950 to 2049.
\<close>

fun time_text :: "bool \<Rightarrow> bool \<Rightarrow> u8 list \<Rightarrow> int \<times> int \<times> int \<times> int \<times> int \<times> int \<times> int \<Rightarrow> bool" where
  "time_text gen allow cbs (y, mo, d, h, mi, s, off) \<longleftrightarrow>
     valid_date y mo d \<and> 0 \<le> h \<and> h < 24 \<and> 0 \<le> mi \<and> mi < 60 \<and> 0 \<le> s \<and> s < 60 \<and> (gen \<or> 1950 \<le> y \<and> y < 2050) \<and>
     (\<exists>zone. zone_text allow zone off \<and>
       cbs = (if gen then two_digits (y div 100) else []) @ two_digits (y mod 100) @ two_digits mo @ two_digits d @
         two_digits h @ two_digits mi @ two_digits s @ zone)"

section \<open>Reading the fields\<close>

lemma is_valid_day_iff: "0 \<le> y \<Longrightarrow> y \<le> 9999 \<Longrightarrow> 1 \<le> m \<Longrightarrow> m \<le> 12 \<Longrightarrow> is_valid_day y m d \<longleftrightarrow> valid_date y m d"
  unfolding is_valid_date_iff [symmetric] by (auto simp: is_valid_day_def is_valid_date_def)

lemma pguard_then: "b \<Longrightarrow> pbind (pguard b) f s = f () s"
  by (simp add: pbind_def pguard_def)

lemmas field_run = two_digits_codec.get_then pguard_then

lemma rfc5280_year_iff:
  "rfc5280_year gen cbs = (Some y, rest) \<longleftrightarrow> 0 \<le> y \<and> y \<le> 9999 \<and> (gen \<or> 1950 \<le> y \<and> y < 2050) \<and>
     cbs = (if gen then two_digits (y div 100) else []) @ two_digits (y mod 100) @ rest" (is "?l \<longleftrightarrow> ?r")
proof
  assume ?l
  moreover have "(2000 + v) mod 100 = v" if "0 \<le> v" "v < 50" for v :: int using that mod_mult_self3 [of 20 100 v] by simp
  moreover have "(1900 + v) mod 100 = v" if "50 \<le> v" "v < 100" for v :: int using that mod_mult_self3 [of 19 100 v] by simp
  ultimately show ?r
    by (cases gen) (auto simp: rfc5280_year_def pbind_eq_Some two_digits_codec.get_iff Let_def split: if_splits)
next
  assume r: ?r
  show ?l
  proof (cases gen)
    case True
    have "0 \<le> y div 100" "y div 100 < 100" using r div_bound [of 100 y 100] by (simp_all add: pos_imp_zdiv_nonneg_iff)
    with r True show ?thesis
      by (simp add: rfc5280_year_def two_digits_codec.get_then Let_def)
  next
    case False
    with r have y: "1950 \<le> y" "y < 2050" by auto
    then have yy: "y mod 100 < 50 \<Longrightarrow> 2000 + y mod 100 = y" "\<not> y mod 100 < 50 \<Longrightarrow> 1900 + y mod 100 = y" by presburger+
    from r False y show ?thesis
      by (simp add: rfc5280_year_def field_run Let_def yy)
  qed
qed

text \<open>One field: two digits and a test of their value.\<close>

lemma field_then:
  "pbind cbs_get_two_digits (\<lambda>v. pbind (pguard (P v)) (\<lambda>_. f v)) cbs = (Some w, t) \<longleftrightarrow>
     (\<exists>v rest. 0 \<le> v \<and> v < 100 \<and> P v \<and> cbs = two_digits v @ rest \<and> f v rest = (Some w, t))"
  by (auto simp: pbind_eq_Some two_digits_codec.get_iff)

lemma rfc5280_offset_iff:
  "rfc5280_offset allow cbs = (Some off, rest) \<longleftrightarrow> (\<exists>zone. zone_text allow zone off \<and> cbs = zone @ rest)"
proof (cases cbs)
  case (Cons c cs)
  let ?rd = "\<lambda>sg. pbind (pguard allow) (\<lambda>_. pbind cbs_get_two_digits (\<lambda>hh. pbind (pguard (\<not> hh > 23)) (\<lambda>_.
      pbind cbs_get_two_digits (\<lambda>mm. pbind (pguard (\<not> mm > 59)) (\<lambda>_. pret (sg * (hh * 3600 + mm * 60)))))))"
  have rd: "?rd sg cs = (Some off, rest) \<longleftrightarrow> allow \<and> (\<exists>hh mm. 0 \<le> hh \<and> hh < 24 \<and> 0 \<le> mm \<and> mm < 60 \<and>
      off = sg * (hh * 3600 + mm * 60) \<and> cs = two_digits hh @ two_digits mm @ rest)" (is "_ = ?r sg") for sg :: int
  proof
    assume "?r sg"
    then show "?rd sg cs = (Some off, rest)" by (auto simp: field_run)
  next
    assume "?rd sg cs = (Some off, rest)"
    then show "?r sg" unfolding pbind_eq_Some [of "pguard allow"] field_then not_less [symmetric]
      by (fastforce simp: not_less)
  qed
  have zt: "(\<exists>zone. zone_text allow zone off \<and> cbs = zone @ rest) \<longleftrightarrow> ?r sg" if c: "c = 43 \<and> sg = 1 \<or> c = 45 \<and> sg = - 1" for sg
  proof
    assume "\<exists>zone. zone_text allow zone off \<and> cbs = zone @ rest"
    with c show "?r sg" unfolding zone_text_def Cons by fastforce
  next
    assume "?r sg"
    then obtain hh mm where "allow" "0 \<le> hh" "hh < 24" "0 \<le> mm" "mm < 60" "off = sg * (hh * 3600 + mm * 60)"
      and cs: "cs = two_digits hh @ two_digits mm @ rest" by blast
    with c have "zone_text allow (c # two_digits hh @ two_digits mm) off" unfolding zone_text_def by fastforce
    then show "\<exists>zone. zone_text allow zone off \<and> cbs = zone @ rest" unfolding Cons cs by fastforce
  qed
  consider "c = 90" | "c = 43" | "c = 45" | "c \<noteq> 90" "c \<noteq> 43" "c \<noteq> 45" by blast
  then show ?thesis
  proof cases
    case 1
    then have "rfc5280_offset allow cbs = pret 0 cs" by (simp add: Cons rfc5280_offset_def pbind_def [of CBS_get_u8] pbind_pret_left)
    with 1 show ?thesis by (auto simp: zone_text_def Cons)
  next
    case 2
    then have "rfc5280_offset allow cbs = ?rd 1 cs" by (simp add: Cons rfc5280_offset_def pbind_def [of CBS_get_u8] pbind_pret_left)
    then have "rfc5280_offset allow cbs = (Some off, rest) \<longleftrightarrow> ?r 1" by (simp only: rd)
    with 2 show ?thesis using zt [of 1] by blast
  next
    case 3
    then have "rfc5280_offset allow cbs = ?rd (- 1) cs" by (simp add: Cons rfc5280_offset_def pbind_def [of CBS_get_u8] pbind_pret_left)
    then have "rfc5280_offset allow cbs = (Some off, rest) \<longleftrightarrow> ?r (- 1)" by (simp only: rd)
    with 3 show ?thesis using zt [of "- 1"] by blast
  next
    case 4
    then show ?thesis by (auto simp: Cons rfc5280_offset_def pbind_def pfail_def zone_text_def)
  qed
qed (auto simp: rfc5280_offset_def pbind_def zone_text_def)

lemma valid_date_fields:
  "valid_date y mo d \<longleftrightarrow> 0 \<le> y \<and> y \<le> 9999 \<and> 0 \<le> mo \<and> mo < 100 \<and> \<not> (mo < 1 \<or> mo > 12) \<and> 0 \<le> d \<and> d < 100 \<and> is_valid_day y mo d"
proof (cases "0 \<le> y \<and> y \<le> 9999 \<and> 1 \<le> mo \<and> mo \<le> 12")
  case True
  have "month_days y mo < 100" by (simp add: month_days_def)
  with True is_valid_day_iff [of y mo d] show ?thesis by (auto simp: valid_date_def)
qed (auto simp: valid_date_def)

lemma rfc5280_fields_iff:
  "rfc5280_fields gen allow cbs = (Some f, []) \<longleftrightarrow> time_text gen allow cbs f"
proof (cases f)
  case (fields y mo d h mi s off)
  show ?thesis
  proof
    assume "rfc5280_fields gen allow cbs = (Some f, [])"
    then show "time_text gen allow cbs f"
      unfolding fields rfc5280_fields_def pbind_eq_Some [of "rfc5280_year gen"] pbind_eq_Some [of "rfc5280_offset allow"]
        field_then rfc5280_year_iff rfc5280_offset_iff time_text.simps valid_date_fields
      by auto
  next
    assume tt: "time_text gen allow cbs f"
    then obtain zone where z: "zone_text allow zone off" and cbs: "cbs = (if gen then two_digits (y div 100) else []) @
        two_digits (y mod 100) @ two_digits mo @ two_digits d @ two_digits h @ two_digits mi @ two_digits s @ zone"
      by (auto simp: fields)
    let ?rest = "two_digits mo @ two_digits d @ two_digits h @ two_digits mi @ two_digits s @ zone"
    from tt z have b: "\<not> (mo < 1 \<or> mo > 12)" "is_valid_day y mo d" "0 \<le> mo" "mo < 100" "0 \<le> d" "d < 100" "0 \<le> h" "h < 100" "\<not> h > 23"
      "0 \<le> mi" "mi < 100" "\<not> mi > 59" "0 \<le> s" "s < 100" "\<not> s > 59" "rfc5280_year gen cbs = (Some y, ?rest)"
      "rfc5280_offset allow zone = (Some off, [])"
      unfolding rfc5280_year_iff rfc5280_offset_iff by (auto simp: fields cbs valid_date_fields)
    show "rfc5280_fields gen allow cbs = (Some f, [])"
      unfolding rfc5280_fields_def pbind_Some [where p = "rfc5280_year gen", OF b(16)] by (simp add: field_run b b(1) [simplified] pbind_Some fields)
  qed
qed

section \<open>Properties\<close>

lemma time_text_posix:
  assumes "time_text gen allow cbs (y, mo, d, h, mi, s, off)"
  shows "\<exists>t. posix_time_from_utc y mo d h mi s = Some t"
  using assms by (simp add: posix_time_from_utc_alt is_valid_date_iff valid_time_bounds)

text \<open>
  The result when the text denotes \<open>(y, mo, d, h, mi, s, off)\<close>. The code adds the signed number of seconds of the zone
  to the written time, although a zone of \<open>+hhmm\<close> is ahead of UTC by as much.
\<close>

lemma CBS_parse_time_cases:
  assumes "time_text gen allow cbs (y, mo, d, h, mi, s, off)"
  shows "CBS_parse_rfc5280_time_internal cbs gen allow None = (True, None)"
    and "posix_time_from_utc y mo d h mi s = Some t \<Longrightarrow>
      (if is_valid_posix_time (t + off)
       then \<exists>tm'. CBS_parse_rfc5280_time_internal cbs gen allow (Some tm) = (True, Some tm') \<and> OPENSSL_tm_to_posix tm' = Some (t + off)
       else fst (CBS_parse_rfc5280_time_internal cbs gen allow (Some tm)) = False)"
proof -
  let ?tm = "tm\<lparr>tm_year := y - 1900, tm_mon := mo - 1, tm_mday := d, tm_hour := h, tm_min := mi, tm_sec := s\<rparr>"
  note f = assms [folded rfc5280_fields_iff]
  show "CBS_parse_rfc5280_time_internal cbs gen allow None = (True, None)"
    by (simp add: CBS_parse_rfc5280_time_internal_def f CBS_len_def)
  assume t: "posix_time_from_utc y mo d h mi s = Some t"
  then have tm: "OPENSSL_tm_to_posix ?tm = Some t" by (simp add: OPENSSL_tm_to_posix_def)
  have run: "CBS_parse_rfc5280_time_internal cbs gen allow (Some tm) =
      (if off \<noteq> 0 then (case OPENSSL_gmtime_adj ?tm 0 off of (ok, tm) \<Rightarrow> (ok, Some tm)) else (True, Some ?tm))"
    by (simp add: CBS_parse_rfc5280_time_internal_def f CBS_len_def Let_def)
  show "if is_valid_posix_time (t + off)
       then \<exists>tm'. CBS_parse_rfc5280_time_internal cbs gen allow (Some tm) = (True, Some tm') \<and> OPENSSL_tm_to_posix tm' = Some (t + off)
       else fst (CBS_parse_rfc5280_time_internal cbs gen allow (Some tm)) = False"
  proof (cases "off = 0")
    case True
    moreover have "is_valid_posix_time t" using tm posix_to_tm_iff [of t ?tm] posix_to_tm_None [of t] by auto
    ultimately show ?thesis using tm by (simp add: run)
  next
    case False
    then show ?thesis
      using gmtime_adj_cases [OF tm, of 0 off] posix_to_tm_Some [of "t + off"] by (auto simp: run)
  qed
qed

lemma CBS_parse_time_refused:
  assumes "\<nexists>f. time_text gen allow cbs f"
  shows "fst (CBS_parse_rfc5280_time_internal cbs gen allow out) = False"
proof (cases "rfc5280_fields gen allow cbs")
  case (Pair r rest)
  have "r = None \<or> rest \<noteq> []"
  proof (rule ccontr)
    assume "\<not> (r = None \<or> rest \<noteq> [])"
    with Pair obtain f where "rfc5280_fields gen allow cbs = (Some f, [])" by (cases r) simp_all
    then show False unfolding rfc5280_fields_iff using assms by blast
  qed
  with Pair show ?thesis
    by (cases r) (auto simp: CBS_parse_rfc5280_time_internal_def CBS_len_def)
qed

text \<open>
  C35. The parsers of ASN.1 times accept exactly the texts of their formats. Called without an output, they accept
  a text if and only if it denotes valid calendar fields followed by \<open>Z\<close> or, when offsets are allowed, by a
  sign with hours below 24 and minutes below 60. Every other text is refused, with an output or without. A text
  in UTC, that is one with \<open>Z\<close> or an offset of zero, is also accepted with an output, and the \<open>struct tm\<close> filled
  in is the written date and time. Nothing is claimed of the \<open>struct tm\<close> for a nonzero offset.
\<close>

theorem CBS_parse_time_exact:
  "(fst (CBS_parse_rfc5280_time_internal cbs gen allow None) \<longleftrightarrow> (\<exists>f. time_text gen allow cbs f)) \<and>
   ((\<nexists>f. time_text gen allow cbs f) \<longrightarrow> \<not> fst (CBS_parse_rfc5280_time_internal cbs gen allow (Some tm))) \<and>
   (time_text gen allow cbs (y, mo, d, h, mi, s, 0) \<longrightarrow>
     (\<exists>t tm'. posix_time_from_utc y mo d h mi s = Some t \<and>
        CBS_parse_rfc5280_time_internal cbs gen allow (Some tm) = (True, Some tm') \<and> OPENSSL_tm_to_posix tm' = Some t))"
proof (intro conjI impI)
  show "fst (CBS_parse_rfc5280_time_internal cbs gen allow None) \<longleftrightarrow> (\<exists>f. time_text gen allow cbs f)"
    using CBS_parse_time_refused [of gen allow cbs None] CBS_parse_time_cases(1) [of gen allow cbs] by (metis fst_conv prod_cases7)
  show "\<not> fst (CBS_parse_rfc5280_time_internal cbs gen allow (Some tm))" if "\<nexists>f. time_text gen allow cbs f"
    using CBS_parse_time_refused [OF that] by simp
  assume f: "time_text gen allow cbs (y, mo, d, h, mi, s, 0)"
  from time_text_posix [OF f] obtain t where t: "posix_time_from_utc y mo d h mi s = Some t" ..
  then have "is_valid_posix_time t"
    using posix_to_tm_iff [of t "tm\<lparr>tm_year := y - 1900, tm_mon := mo - 1, tm_mday := d, tm_hour := h, tm_min := mi, tm_sec := s\<rparr>"] posix_to_tm_None [of t]
    by (auto simp: OPENSSL_tm_to_posix_def)
  then show "\<exists>t tm'. posix_time_from_utc y mo d h mi s = Some t \<and>
      CBS_parse_rfc5280_time_internal cbs gen allow (Some tm) = (True, Some tm') \<and> OPENSSL_tm_to_posix tm' = Some t"
    using CBS_parse_time_cases(2) [OF f t, of tm] t by simp
qed

text \<open>The texts \<^verbatim>\<open>20240229123456Z\<close> and \<^verbatim>\<open>240229123456+0130\<close>.\<close>

theorem CBS_parse_time_exact_witness:
  "(\<exists>t tm'. posix_time_from_utc 2024 2 29 12 34 56 = Some t \<and>
     CBS_parse_rfc5280_time_internal [50, 48, 50, 52, 48, 50, 50, 57, 49, 50, 51, 52, 53, 54, 90] True False (Some \<lparr>tm_sec = 0, tm_min = 0, tm_hour = 0, tm_mday = 0, tm_mon = 0, tm_year = 0, tm_wday = 0, tm_yday = 0, tm_isdst = 0\<rparr>) = (True, Some tm') \<and>
     OPENSSL_tm_to_posix tm' = Some t) \<and>
   fst (CBS_parse_rfc5280_time_internal [50, 52, 48, 50, 50, 57, 49, 50, 51, 52, 53, 54, 43, 48, 49, 51, 48] False True None)"
proof (rule conjI)
  have "time_text True False [50, 48, 50, 52, 48, 50, 50, 57, 49, 50, 51, 52, 53, 54, 90] (2024, 2, 29, 12, 34, 56, 0)"
    by (simp add: valid_date_def month_days_def leap_def zone_text_def two_digits_def)
  with CBS_parse_time_exact show "\<exists>t tm'. posix_time_from_utc 2024 2 29 12 34 56 = Some t \<and>
     CBS_parse_rfc5280_time_internal [50, 48, 50, 52, 48, 50, 50, 57, 49, 50, 51, 52, 53, 54, 90] True False (Some \<lparr>tm_sec = 0, tm_min = 0, tm_hour = 0, tm_mday = 0, tm_mon = 0, tm_year = 0, tm_wday = 0, tm_yday = 0, tm_isdst = 0\<rparr>) = (True, Some tm') \<and>
     OPENSSL_tm_to_posix tm' = Some t" by blast
  have "time_text False True [50, 52, 48, 50, 50, 57, 49, 50, 51, 52, 53, 54, 43, 48, 49, 51, 48] (2024, 2, 29, 12, 34, 56, 5400)"
    by (simp add: valid_date_def month_days_def leap_def zone_text_def two_digits_def, rule exI, rule exI [of _ 1], simp, rule exI [of _ 30], simp)
  with CBS_parse_time_exact show "fst (CBS_parse_rfc5280_time_internal [50, 52, 48, 50, 50, 57, 49, 50, 51, 52, 53, 54, 43, 48, 49, 51, 48] False True None)"
    by blast
qed

end
