(* ===== verification/Decimal.thy ===== *)
theory Decimal
  imports Cbs
begin

text \<open>
  Decimal numbers: the digits the C library's \<open>snprintf\<close> writes for \<open>%0wd\<close> and \<open>%u\<close>, and the proof that
  \<^verbatim>\<open>CBS_get_u64_decimal\<close> accepts exactly those digits.
\<close>

section \<open>Formatting\<close>

text \<open>The digits \<open>snprintf\<close> writes for \<open>%0wd\<close>.\<close>

fun dec_digits :: "nat \<Rightarrow> u8 list" where
  "dec_digits n = (if n < 10 then [of_nat (48 + n)] else dec_digits (n div 10) @ [of_nat (48 + n mod 10)])"

declare dec_digits.simps [simp del]

definition printf_0d :: "nat \<Rightarrow> int \<Rightarrow> u8 list" where
  "printf_0d w n =
     (let ds = dec_digits (nat \<bar>n\<bar>); sign = (if n < 0 then [45] else [])
      in sign @ replicate (w - length sign - length ds) 48 @ ds)"

text \<open>The last \<open>w\<close> decimal digits of a number.\<close>

fun low_digits :: "nat \<Rightarrow> nat \<Rightarrow> u8 list" where
  "low_digits 0 n = []"
| "low_digits (Suc w) n = low_digits w (n div 10) @ [of_nat (48 + n mod 10)]"

lemma low_digits_0: "low_digits w 0 = replicate w 48"
  by (induction w) (simp_all add: replicate_append_same)

lemma pad_digits: "n < 10 ^ w \<Longrightarrow> 0 < w \<Longrightarrow> replicate (w - length (dec_digits n)) 48 @ dec_digits n = low_digits w n"
proof (induction w arbitrary: n)
  case (Suc w)
  show ?case
  proof (cases "n < 10")
    case True
    then show ?thesis by (simp add: dec_digits.simps [of n] low_digits_0)
  next
    case False
    with Suc.prems have "0 < w" by (cases w) auto
    moreover have "n div 10 < 10 ^ w" using Suc.prems by (simp add: less_mult_imp_div_less mult.commute)
    ultimately show ?thesis using Suc.IH [of "n div 10"] False by (simp add: dec_digits.simps [of n])
  qed
qed simp

lemma printf_low_digits: "0 \<le> n \<Longrightarrow> n < 10 ^ w \<Longrightarrow> 0 < w \<Longrightarrow> printf_0d w n = low_digits w (nat n)"
  using pad_digits [of "nat n" w] by (simp add: printf_0d_def nat_less_iff)

section \<open>Reading a number\<close>

abbreviation is_digit :: "u8 \<Rightarrow> bool" where
  "is_digit c \<equiv> OPENSSL_isdigit (uint c)"

lemma is_digit_unat: "is_digit c \<longleftrightarrow> 48 \<le> unat c \<and> unat c \<le> 57"
proof -
  have "uint c = int (unat c)" by simp
  then show ?thesis unfolding OPENSSL_isdigit_def by linarith
qed

lemma u64_decimal_loop_Nil: "u64_decimal_loop v seen [] = (if seen then (Some v, []) else (None, []))"
  by (subst u64_decimal_loop.simps) (simp add: CBS_len_def)

lemma decimal_step:
  assumes "is_digit c"
  shows "((v :: u64) > (- 1) div 10 \<or> v * 10 > - 1 - (ucast c - 48)) \<longleftrightarrow> \<not> unat v * 10 + (unat c - 48) < 2 ^ 64"
    and "unat v * 10 + (unat c - 48) < 2 ^ 64 \<Longrightarrow> unat (v * 10 + (ucast c - 48)) = unat v * 10 + (unat c - 48)"
proof -
  have c: "48 \<le> unat c" "unat c \<le> 57" using assms by (simp_all add: is_digit_unat)
  let ?d = "ucast c - 48 :: u64"
  have uc: "unat (ucast c :: u64) = unat c" by (simp add: unsigned_ucast_eq take_bit_eq_mod order_less_trans [OF unat_byte_less])
  then have d: "unat ?d = unat c - 48" using c by (simp add: unat_sub word_le_nat_alt)
  have m: "unat (- 1 - ?d) = 18446744073709551615 - (unat c - 48)"
  proof -
    have "?d \<le> - 1" by simp
    moreover have "unat (- 1 :: u64) = 18446744073709551615" by (simp add: unsigned_minus_1_eq_mask mask_eq_exp_minus_1)
    ultimately show ?thesis by (simp only: unat_sub d)
  qed
  have q: "unat ((- 1 :: u64) div 10) = 1844674407370955161" by simp
  show "(v > (- 1) div 10 \<or> v * 10 > - 1 - ?d) \<longleftrightarrow> \<not> unat v * 10 + (unat c - 48) < 2 ^ 64"
  proof (cases "v > (- 1) div 10")
    case True
    then have "1844674407370955161 < unat v" unfolding word_less_nat_alt q .
    then have "\<not> unat v * 10 + (unat c - 48) < 2 ^ 64" by simp
    with True show ?thesis by simp
  next
    case False
    then have v: "unat v \<le> 1844674407370955161" unfolding word_less_nat_alt q by simp
    then have "unat (v * 10) = unat v * 10" by (subst unat_mult_lem [THEN iffD1]) simp_all
    then have "v * 10 > - 1 - ?d \<longleftrightarrow> 18446744073709551615 - (unat c - 48) < unat v * 10" unfolding word_less_nat_alt m by simp
    with False c show ?thesis by auto
  qed
  show "unat (v * 10 + ?d) = unat v * 10 + (unat c - 48)" if b: "unat v * 10 + (unat c - 48) < 2 ^ 64"
  proof -
    have "unat (v * 10) = unat v * 10" using b by (subst unat_mult_lem [THEN iffD1]) simp_all
    with b d show ?thesis by (subst unat_add_lem [THEN iffD1]) simp_all
  qed
qed

lemma u64_decimal_loop_Cons:
  "u64_decimal_loop v seen (c # cs) =
     (if is_digit c
      then if (v = 0 \<and> seen) \<or> \<not> unat v * 10 + (unat c - 48) < 2 ^ 64 then (None, cs)
           else u64_decimal_loop (v * 10 + (ucast c - 48)) True cs
      else if seen then (Some v, c # cs) else (None, c # cs))"
proof (cases "is_digit c")
  case True
  have skip: "snd (CBS_skip 1 (c # cs)) = cs" by (simp add: CBS_skip_def cbs_get_def CBS_len_def op_simps)
  have "CBS_len (c # cs) \<noteq> 0" by (simp add: CBS_len_def)
  with True show ?thesis
    by (subst u64_decimal_loop.simps)
      (simp only: CBS_data_def nth_Cons_0 Let_def skip simp_thms if_True decimal_step(1) [OF True])
qed (subst u64_decimal_loop.simps, simp add: CBS_len_def CBS_data_def)

lemma dec_digits_snoc:
  assumes "v \<noteq> 0" "is_digit c"
  shows "dec_digits (v * 10 + (unat c - 48)) = dec_digits v @ [c]"
proof -
  have d: "unat c - 48 < 10" "48 \<le> unat c" using assms(2) unfolding is_digit_unat by linarith+
  define n where "n = v * 10 + (unat c - 48)"
  have m: "n mod 10 = unat c - 48" unfolding n_def using d(1) by (simp only: mod_mult_self3 mod_less)
  have "n div 10 = v" "48 + n mod 10 = unat c" "\<not> n < 10" using d assms(1) unfolding m by (simp_all add: n_def)
  then show ?thesis unfolding n_def [symmetric] by (subst dec_digits.simps) simp
qed

lemma dec_digits_single: "is_digit c \<Longrightarrow> dec_digits (unat c - 48) = [c]"
  by (subst dec_digits.simps) (auto simp: is_digit_unat)

text \<open>Whatever is read is the canonical form, and it ends where no digit follows.\<close>

lemma u64_decimal_loop_sound:
  assumes "u64_decimal_loop v seen cbs = (Some w, rest)" "seen \<or> v = 0"
  shows "(rest = [] \<or> \<not> is_digit (hd rest)) \<and> (\<exists>ds. cbs = ds @ rest \<and> (if seen then dec_digits (unat v) else []) @ ds = dec_digits (unat w))"
  using assms
proof (induction cbs arbitrary: v seen)
  case Nil
  then show ?case by (auto simp: u64_decimal_loop_Nil split: if_splits)
next
  case (Cons c cs)
  show ?case
  proof (cases "is_digit c")
    case True
    let ?v = "v * 10 + (ucast c - 48)"
    from Cons.prems True have b: "\<not> (v = 0 \<and> seen)" "unat v * 10 + (unat c - 48) < 2 ^ 64"
      and run: "u64_decimal_loop ?v True cs = (Some w, rest)"
      by (auto simp: u64_decimal_loop_Cons split: if_splits)
    note u = decimal_step(2) [OF True b(2)]
    have "dec_digits (unat ?v) = (if seen then dec_digits (unat v) else []) @ [c]"
      unfolding u using True b(1) Cons.prems(2) dec_digits_snoc [of "unat v" c] dec_digits_single [OF True] by (auto simp: unat_eq_0)
    with Cons.IH [OF run] show ?thesis by auto
  next
    case False
    with Cons.prems show ?thesis by (auto simp: u64_decimal_loop_Cons split: if_splits)
  qed
qed

lemma u64_decimal_loop_digits:
  "n < 2 ^ 64 \<Longrightarrow> u64_decimal_loop 0 False (dec_digits n @ rest) = u64_decimal_loop (of_nat n) True rest"
proof (induction n arbitrary: rest rule: dec_digits.induct)
  case (1 n)
  let ?c = "of_nat (48 + n mod 10) :: u8"
  have uc: "unat ?c = 48 + n mod 10" using mod_less_divisor [of 10 n] by (simp only: unat_of_nat_byte) simp
  then have c: "is_digit ?c" "unat ?c - 48 = n mod 10" using mod_less_divisor [of 10 n] by (simp_all only: is_digit_unat) simp_all
  have step: "of_nat m * 10 + (ucast ?c - 48) = (of_nat n :: u64)" if "m * 10 + n mod 10 = n" for m
  proof -
    have "unat (of_nat m :: u64) = m" using that "1.prems" by (simp add: unat_of_nat)
    then have "unat (of_nat m * 10 + (ucast ?c - 48) :: u64) = n"
      using decimal_step(2) [OF c(1), of "of_nat m"] c(2) that "1.prems" by simp
    then show ?thesis by (metis of_nat_unat ucast_id)
  qed
  show ?case
  proof (cases "n < 10")
    case True
    then have "dec_digits n = [?c]" by (subst dec_digits.simps) simp
    then show ?thesis using c step [of 0] True by (simp add: u64_decimal_loop_Cons)
  next
    case False
    then have "dec_digits n @ rest = dec_digits (n div 10) @ (?c # rest)" by (subst dec_digits.simps) simp
    then have "u64_decimal_loop 0 False (dec_digits n @ rest) = u64_decimal_loop (of_nat (n div 10)) True (?c # rest)"
      using "1.IH" [OF False, of "?c # rest"] "1.prems" by simp
    also have "\<dots> = u64_decimal_loop (of_nat n) True rest"
    proof -
      have u: "unat (of_nat (n div 10) :: u64) = n div 10" using "1.prems" by (simp add: unat_of_nat)
      then have "(of_nat (n div 10) :: u64) \<noteq> 0" using False by (metis div_eq_0_iff less_nat_zero_code unat_0 numeral_neq_zero not_less_iff_gr_or_eq)
      then show ?thesis using c u step [of "n div 10"] "1.prems" by (simp only: u64_decimal_loop_Cons) simp
    qed
    finally show ?thesis .
  qed
qed

lemma CBS_get_u64_decimal_iff:
  "CBS_get_u64_decimal cbs = (Some v, rest) \<longleftrightarrow> cbs = dec_digits (unat v) @ rest \<and> (rest = [] \<or> \<not> is_digit (hd rest))"
proof
  assume "CBS_get_u64_decimal cbs = (Some v, rest)"
  from u64_decimal_loop_sound [OF this [unfolded CBS_get_u64_decimal_def]] show "cbs = dec_digits (unat v) @ rest \<and> (rest = [] \<or> \<not> is_digit (hd rest))" by auto
next
  assume r: "cbs = dec_digits (unat v) @ rest \<and> (rest = [] \<or> \<not> is_digit (hd rest))"
  then have "CBS_get_u64_decimal cbs = u64_decimal_loop v True rest"
    unfolding CBS_get_u64_decimal_def using u64_decimal_loop_digits [of "unat v" rest] unat_u64_less [of v] by simp
  with r show "CBS_get_u64_decimal cbs = (Some v, rest)"
    by (cases rest) (auto simp: u64_decimal_loop_Nil u64_decimal_loop_Cons)
qed

end
