(* ===== verification/Asn1Time.thy ===== *)
theory Asn1Time
  imports Asn1String CbsTime Decimal
begin

text \<open>
  ASN.1 time objects: \<^verbatim>\<open>crypto/asn1/a_utctm.c\<close>, \<^verbatim>\<open>crypto/asn1/a_gentm.c\<close> and \<^verbatim>\<open>crypto/asn1/a_time.c\<close>. They tie
  the calendar conversions, the time parser and the string objects together: a time is kept as
  its text, written by \<open>snprintf\<close> and read back by the parser.

  A local \<open>struct tm\<close> starts with arbitrary contents, the argument \<open>tm0\<close>; \<open>now\<close> is the value of
  \<open>time(NULL)\<close>.
\<close>

section \<open>The code\<close>

datatype 'a or_abort = Abort | Ret 'a

abbreviation V_ASN1_UTCTIME :: int where "V_ASN1_UTCTIME \<equiv> 23"
abbreviation V_ASN1_GENERALIZEDTIME :: int where "V_ASN1_GENERALIZEDTIME \<equiv> 24"

text \<open>The tail of the two \<open>_adj\<close> functions: store the text in \<open>s\<close> or in a fresh object.\<close>

definition asn1_time_store :: "allocator \<Rightarrow> ASN1_STRING option \<Rightarrow> int \<Rightarrow> u8 list \<Rightarrow> ASN1_STRING option" where
  "asn1_time_store al s ty buf =
     (case (case s of None \<Rightarrow> ASN1_STRING_type_new al V_ASN1_UTCTIME | Some s \<Rightarrow> Some s) of
        None \<Rightarrow> None
      | Some s \<Rightarrow>
          (case ASN1_STRING_set al (Some (buf @ [0])) (int (strlen buf)) s of
             (False, _) \<Rightarrow> None
           | (True, s) \<Rightarrow> Some (s\<lparr>str_type := ty\<rparr>)))"

definition ASN1_UTCTIME_adj :: "allocator \<Rightarrow> ASN1_STRING option \<Rightarrow> int \<Rightarrow> int \<Rightarrow> int \<Rightarrow> ASN1_STRING option or_abort" where
  "ASN1_UTCTIME_adj al s posix_time offset_day offset_sec =
     (case OPENSSL_posix_to_tm posix_time of
        None \<Rightarrow> Ret None
      | Some data \<Rightarrow>
          (case (if offset_day \<noteq> 0 \<or> offset_sec \<noteq> 0 then OPENSSL_gmtime_adj data offset_day offset_sec else (True, data)) of
             (False, _) \<Rightarrow> Ret None
           | (True, data) \<Rightarrow>
               if tm_year data < 50 \<or> tm_year data \<ge> 150 then Ret None
               else let buf = printf_0d 2 (tm_year data smod 100) @ printf_0d 2 (tm_mon data + 1) @ printf_0d 2 (tm_mday data) @
                          printf_0d 2 (tm_hour data) @ printf_0d 2 (tm_min data) @ printf_0d 2 (tm_sec data) @ [90]
                    in if length buf \<noteq> 13 then Abort else Ret (asn1_time_store al s V_ASN1_UTCTIME buf)))"

definition ASN1_GENERALIZEDTIME_adj :: "allocator \<Rightarrow> ASN1_STRING option \<Rightarrow> int \<Rightarrow> int \<Rightarrow> int \<Rightarrow> ASN1_STRING option or_abort" where
  "ASN1_GENERALIZEDTIME_adj al s posix_time offset_day offset_sec =
     (case OPENSSL_posix_to_tm posix_time of
        None \<Rightarrow> Ret None
      | Some data \<Rightarrow>
          (case (if offset_day \<noteq> 0 \<or> offset_sec \<noteq> 0 then OPENSSL_gmtime_adj data offset_day offset_sec else (True, data)) of
             (False, _) \<Rightarrow> Ret None
           | (True, data) \<Rightarrow>
               if tm_year data < 0 - 1900 \<or> tm_year data > 9999 - 1900 then Ret None
               else let buf = printf_0d 4 (tm_year data + 1900) @ printf_0d 2 (tm_mon data + 1) @ printf_0d 2 (tm_mday data) @
                          printf_0d 2 (tm_hour data) @ printf_0d 2 (tm_min data) @ printf_0d 2 (tm_sec data) @ [90]
                    in if length buf \<noteq> 15 then Abort else Ret (asn1_time_store al s V_ASN1_GENERALIZEDTIME buf)))"

definition ASN1_UTCTIME_set :: "allocator \<Rightarrow> ASN1_STRING option \<Rightarrow> int \<Rightarrow> ASN1_STRING option or_abort" where
  "ASN1_UTCTIME_set al s posix_time = ASN1_UTCTIME_adj al s posix_time 0 0"

definition ASN1_GENERALIZEDTIME_set :: "allocator \<Rightarrow> ASN1_STRING option \<Rightarrow> int \<Rightarrow> ASN1_STRING option or_abort" where
  "ASN1_GENERALIZEDTIME_set al s posix_time = ASN1_GENERALIZEDTIME_adj al s posix_time 0 0"

definition fits_in_utc_time :: "tm \<Rightarrow> bool" where
  "fits_in_utc_time tm \<longleftrightarrow> 50 \<le> tm_year tm \<and> tm_year tm < 150"

definition ASN1_TIME_adj :: "allocator \<Rightarrow> ASN1_STRING option \<Rightarrow> int \<Rightarrow> int \<Rightarrow> int \<Rightarrow> ASN1_STRING option or_abort" where
  "ASN1_TIME_adj al s posix_time offset_day offset_sec =
     (case OPENSSL_posix_to_tm posix_time of
        None \<Rightarrow> Ret None
      | Some tm \<Rightarrow>
          (case (if offset_day \<noteq> 0 \<or> offset_sec \<noteq> 0 then OPENSSL_gmtime_adj tm offset_day offset_sec else (True, tm)) of
             (False, _) \<Rightarrow> Ret None
           | (True, tm) \<Rightarrow>
               if fits_in_utc_time tm then ASN1_UTCTIME_adj al s posix_time offset_day offset_sec
               else ASN1_GENERALIZEDTIME_adj al s posix_time offset_day offset_sec))"

definition ASN1_TIME_set_posix :: "allocator \<Rightarrow> ASN1_STRING option \<Rightarrow> int \<Rightarrow> ASN1_STRING option or_abort" where
  "ASN1_TIME_set_posix al s posix_time = ASN1_TIME_adj al s posix_time 0 0"

definition ASN1_TIME_set :: "allocator \<Rightarrow> ASN1_STRING option \<Rightarrow> int \<Rightarrow> ASN1_STRING option or_abort" where
  "ASN1_TIME_set al s time = ASN1_TIME_adj al s time 0 0"

definition asn1_utctime_to_tm :: "tm option \<Rightarrow> ASN1_STRING \<Rightarrow> bool \<Rightarrow> bool \<times> tm option" where
  "asn1_utctime_to_tm tm d allow_timezone_offset =
     (if str_type d \<noteq> V_ASN1_UTCTIME then (False, tm)
      else CBS_parse_utc_time (CBS_init (data_of d) (str_length d)) tm allow_timezone_offset)"

definition asn1_generalizedtime_to_tm :: "tm option \<Rightarrow> ASN1_STRING \<Rightarrow> bool \<times> tm option" where
  "asn1_generalizedtime_to_tm tm d =
     (if str_type d \<noteq> V_ASN1_GENERALIZEDTIME then (False, tm)
      else CBS_parse_generalized_time (CBS_init (data_of d) (str_length d)) tm False)"

definition ASN1_UTCTIME_check :: "ASN1_STRING \<Rightarrow> bool" where
  "ASN1_UTCTIME_check d = fst (asn1_utctime_to_tm None d True)"

definition ASN1_GENERALIZEDTIME_check :: "ASN1_STRING \<Rightarrow> bool" where
  "ASN1_GENERALIZEDTIME_check d = fst (asn1_generalizedtime_to_tm None d)"

definition ASN1_TIME_check :: "ASN1_STRING \<Rightarrow> bool" where
  "ASN1_TIME_check t =
     (if str_type t = V_ASN1_GENERALIZEDTIME then ASN1_GENERALIZEDTIME_check t
      else if str_type t = V_ASN1_UTCTIME then ASN1_UTCTIME_check t else False)"

text \<open>Setting from a C string; \<open>s\<close> is \<open>None\<close> for NULL, when the text is only checked.\<close>

definition time_set_string :: "allocator \<Rightarrow> int \<Rightarrow> u8 list \<Rightarrow> nat \<Rightarrow> ASN1_STRING option \<Rightarrow> bool \<times> ASN1_STRING option" where
  "time_set_string al ty data len s =
     (case s of
        None \<Rightarrow> (True, None)
      | Some s \<Rightarrow>
          (case ASN1_STRING_set al (Some data) (int len) s of
             (False, s) \<Rightarrow> (False, Some s)
           | (True, s) \<Rightarrow> (True, Some (s\<lparr>str_type := ty\<rparr>))))"

definition ASN1_UTCTIME_set_string :: "allocator \<Rightarrow> ASN1_STRING option \<Rightarrow> u8 list \<Rightarrow> bool \<times> ASN1_STRING option" where
  "ASN1_UTCTIME_set_string al s str =
     (let len = strlen str
      in if \<not> fst (CBS_parse_utc_time (CBS_init str len) None False) then (False, s)
         else time_set_string al V_ASN1_UTCTIME str len s)"

definition ASN1_GENERALIZEDTIME_set_string :: "allocator \<Rightarrow> ASN1_STRING option \<Rightarrow> u8 list \<Rightarrow> bool \<times> ASN1_STRING option" where
  "ASN1_GENERALIZEDTIME_set_string al s str =
     (let len = strlen str
      in if \<not> fst (CBS_parse_generalized_time (CBS_init str len) None False) then (False, s)
         else time_set_string al V_ASN1_GENERALIZEDTIME str len s)"

definition ASN1_TIME_set_string :: "allocator \<Rightarrow> ASN1_STRING option \<Rightarrow> u8 list \<Rightarrow> bool \<times> ASN1_STRING option" where
  "ASN1_TIME_set_string al s str =
     (case ASN1_UTCTIME_set_string al s str of
        (True, s) \<Rightarrow> (True, s)
      | (False, s) \<Rightarrow> ASN1_GENERALIZEDTIME_set_string al s str)"

definition ASN1_TIME_set_string_X509 :: "allocator \<Rightarrow> tm \<Rightarrow> ASN1_STRING option \<Rightarrow> u8 list \<Rightarrow> bool \<times> ASN1_STRING option" where
  "ASN1_TIME_set_string_X509 al tm0 s str =
     (let cbs = CBS_init str (strlen str)
      in case (if fst (CBS_parse_utc_time cbs None False) then Some (V_ASN1_UTCTIME, cbs)
               else case CBS_parse_generalized_time cbs (Some tm0) False of
                      (True, Some tm) \<Rightarrow>
                        if fits_in_utc_time tm then Some (V_ASN1_UTCTIME, snd (CBS_skip 2 cbs))
                        else Some (V_ASN1_GENERALIZEDTIME, cbs)
                    | _ \<Rightarrow> None) of
           None \<Rightarrow> (False, s)
         | Some (ty, cbs) \<Rightarrow> time_set_string al ty (CBS_data cbs) (CBS_len cbs) s)"

text \<open>The result is the returned object and what \<open>*out\<close> holds afterwards; \<open>out\<close> itself is not NULL.\<close>

definition ASN1_TIME_to_generalizedtime :: "allocator \<Rightarrow> ASN1_STRING \<Rightarrow> ASN1_STRING option \<Rightarrow> ASN1_STRING option \<times> ASN1_STRING option" where
  "ASN1_TIME_to_generalizedtime al t out =
     (if \<not> ASN1_TIME_check t then (None, out)
      else case (case out of None \<Rightarrow> ASN1_STRING_type_new al V_ASN1_GENERALIZEDTIME | Some ret \<Rightarrow> Some ret) of
             None \<Rightarrow> (None, out)
           | Some ret \<Rightarrow>
               if str_type t = V_ASN1_GENERALIZEDTIME
               then (case ASN1_STRING_set al (str_data t) (int (str_length t)) ret of
                       (False, _) \<Rightarrow> (None, out)
                     | (True, ret) \<Rightarrow> (Some ret, Some ret))
               else (case ASN1_STRING_set al None (int (str_length t) + 2) ret of
                       (False, _) \<Rightarrow> (None, out)
                     | (True, ret) \<Rightarrow>
                         (let newlen = str_length t + 2 + 1;
                              century = (if data_of t ! 0 \<ge> 53 then [49, 57] else [50, 48]);
                              str = fst (OPENSSL_strlcpy (data_of ret) century newlen);
                              str = fst (OPENSSL_strlcat str (data_of t) newlen);
                              ret = ret\<lparr>str_data := Some str\<rparr>
                          in (Some ret, Some ret))))"

definition asn1_time_to_tm :: "int \<Rightarrow> tm \<Rightarrow> ASN1_STRING option \<Rightarrow> bool \<Rightarrow> tm option" where
  "asn1_time_to_tm now tm0 t allow_timezone_offset =
     (let filled = (\<lambda>r. case r of (True, Some tm) \<Rightarrow> Some tm | _ \<Rightarrow> None)
      in case t of
           None \<Rightarrow> OPENSSL_posix_to_tm now
         | Some t \<Rightarrow>
             if str_type t = V_ASN1_UTCTIME then filled (asn1_utctime_to_tm (Some tm0) t allow_timezone_offset)
             else if str_type t = V_ASN1_GENERALIZEDTIME then filled (asn1_generalizedtime_to_tm (Some tm0) t)
             else None)"

definition ASN1_TIME_diff :: "int \<Rightarrow> tm \<Rightarrow> ASN1_STRING option \<Rightarrow> ASN1_STRING option \<Rightarrow> (int \<times> int) option" where
  "ASN1_TIME_diff now tm0 from_t to_t =
     (case asn1_time_to_tm now tm0 from_t True of
        None \<Rightarrow> None
      | Some tm_from \<Rightarrow>
          (case asn1_time_to_tm now tm0 to_t True of
             None \<Rightarrow> None
           | Some tm_to \<Rightarrow> OPENSSL_gmtime_diff tm_from tm_to))"

definition ASN1_TIME_to_tm :: "int \<Rightarrow> tm \<Rightarrow> ASN1_STRING option \<Rightarrow> tm option" where
  "ASN1_TIME_to_tm now tm0 s = asn1_time_to_tm now tm0 s False"

definition ASN1_TIME_to_time_t :: "nat \<Rightarrow> int \<Rightarrow> tm \<Rightarrow> ASN1_STRING option \<Rightarrow> int option" where
  "ASN1_TIME_to_time_t time_bytes now tm0 t =
     (case asn1_time_to_tm now tm0 t False of None \<Rightarrow> None | Some tm \<Rightarrow> OPENSSL_timegm time_bytes tm)"

definition ASN1_TIME_to_posix :: "int \<Rightarrow> tm \<Rightarrow> ASN1_STRING option \<Rightarrow> int option" where
  "ASN1_TIME_to_posix now tm0 t =
     (case asn1_time_to_tm now tm0 t False of None \<Rightarrow> None | Some tm \<Rightarrow> OPENSSL_tm_to_posix tm)"

definition ASN1_UTCTIME_cmp_time_t :: "tm \<Rightarrow> ASN1_STRING \<Rightarrow> int \<Rightarrow> int" where
  "ASN1_UTCTIME_cmp_time_t tm0 s t =
     (case asn1_utctime_to_tm (Some tm0) s True of
        (True, Some stm) \<Rightarrow>
          (case OPENSSL_posix_to_tm t of
             None \<Rightarrow> - 2
           | Some ttm \<Rightarrow>
               (case OPENSSL_gmtime_diff ttm stm of
                  None \<Rightarrow> - 2
                | Some (day, sec) \<Rightarrow>
                    if day > 0 then 1 else if day < 0 then - 1 else if sec > 0 then 1 else if sec < 0 then - 1 else 0))
      | _ \<Rightarrow> - 2)"

section \<open>The text of a time\<close>

lemma low_digits_two: "low_digits 2 (nat n) = two_digits (n mod 100)" if "0 \<le> n"
proof -
  have "(of_nat (nat n div 10 mod 10) :: u8) = of_int (n mod 100 div 10)" "(of_nat (nat n mod 10) :: u8) = of_int (n mod 100 mod 10)"
  proof -
    have m: "n mod 100 = n div 10 mod 10 * 10 + n mod 10" using zmod_zmult2_eq [of 10 n 10] by simp
    have "int (nat n div 10 mod 10) = n mod 100 div 10" "int (nat n mod 10) = n mod 100 mod 10"
      using that by (simp_all add: zdiv_int zmod_int m)
    then show "(of_nat (nat n div 10 mod 10) :: u8) = of_int (n mod 100 div 10)" "(of_nat (nat n mod 10) :: u8) = of_int (n mod 100 mod 10)"
      by (metis of_int_of_nat_eq)+
  qed
  then show ?thesis by (simp add: numeral_2_eq_2 two_digits_def)
qed

lemma low_digits_append: "low_digits (w + 2) n = low_digits w (n div 100) @ low_digits 2 n"
proof -
  have "n div 10 div 10 = n div 100" by (simp flip: div_mult2_eq)
  then show ?thesis by (simp add: numeral_2_eq_2)
qed

lemma printf_two: "0 \<le> n \<Longrightarrow> n < 100 \<Longrightarrow> printf_0d 2 n = two_digits n"
  using printf_low_digits [of n 2] low_digits_two [of n] by simp

lemma printf_four:
  assumes "0 \<le> n" "n \<le> 9999"
  shows "printf_0d 4 n = two_digits (n div 100) @ two_digits (n mod 100)"
proof -
  have "n div 100 < 100" "0 \<le> n div 100" using assms div_bound [of 100 n 100] by (simp_all add: pos_imp_zdiv_nonneg_iff)
  moreover have "low_digits 4 (nat n) = low_digits 2 (nat (n div 100)) @ low_digits 2 (nat n)"
    using assms low_digits_append [of 2 "nat n"] by (simp add: nat_div_distrib)
  moreover have "n < 10 ^ 4" using assms by simp
  ultimately show ?thesis using printf_low_digits [of n 4] low_digits_two [of n] low_digits_two [of "n div 100"] assms by simp
qed

section \<open>Storing and reading back\<close>

lemma two_digits_nonzero: "0 \<le> n \<Longrightarrow> n < 100 \<Longrightarrow> 0 \<notin> set (two_digits n)"
proof -
  assume n: "0 \<le> n" "n < 100"
  have "n div 10 < 10" "0 \<le> n div 10" using n div_bound [of 10 n 10] by (simp_all add: pos_imp_zdiv_nonneg_iff)
  then have "uint (48 + of_int (n div 10) :: u8) \<noteq> 0" "uint (48 + of_int (n mod 10) :: u8) \<noteq> 0"
    using uint_digit [of "n div 10"] uint_digit [of "n mod 10"] by simp_all
  then show ?thesis by (auto simp: two_digits_def)
qed

lemma strlen_exact: "0 \<notin> set s \<Longrightarrow> strlen s = length s"
  unfolding strlen_def by (metis (mono_tags, lifting) takeWhile_eq_all_conv)

lemma asn1_time_store_spec:
  assumes "al_total al" "case s of None \<Rightarrow> True | Some s \<Rightarrow> str_wf s" "0 \<notin> set buf" "length buf \<le> 100"
  shows "\<exists>s'. asn1_time_store al s ty buf = Some s' \<and> str_wf s' \<and> str_bytes s' = buf \<and> str_type s' = ty"
proof -
  obtain r where r: "(case s of None \<Rightarrow> ASN1_STRING_type_new al V_ASN1_UTCTIME | Some s \<Rightarrow> Some s) = Some r" "str_wf r"
    using type_new_total [OF assms(1), of V_ASN1_UTCTIME] new_wf [of al V_ASN1_UTCTIME] assms(2) by (cases s) auto
  have l: "strlen buf = length buf" using assms(3) by (rule strlen_exact)
  obtain s1 where s1: "ASN1_STRING_set al (Some (buf @ [0])) (int (length buf)) r = (True, s1)"
    using ASN1_STRING_set_total [OF assms(1), of "length buf" "Some (buf @ [0])" r] assms(4) by auto
  have "str_wf s1" "str_bytes s1 = buf" using ASN1_STRING_set_spec [OF r(2) s1] by simp_all
  then have "str_wf (s1\<lparr>str_type := ty\<rparr>)" "str_bytes (s1\<lparr>str_type := ty\<rparr>) = buf"
    by (simp_all add: str_wf_def str_bytes_def split: option.splits)
  then show ?thesis using r(1) s1 l by (simp add: asn1_time_store_def)
qed

text \<open>The fields of a time the conversion returns.\<close>

lemma tm_fields:
  assumes "OPENSSL_posix_to_tm t = Some tm"
  shows "posix_time_from_utc (tm_year tm + 1900) (tm_mon tm + 1) (tm_mday tm) (tm_hour tm) (tm_min tm) (tm_sec tm) = Some t"
    "valid_date (tm_year tm + 1900) (tm_mon tm + 1) (tm_mday tm)" "0 \<le> tm_hour tm" "tm_hour tm < 24" "0 \<le> tm_min tm" "tm_min tm < 60"
    "0 \<le> tm_sec tm" "tm_sec tm < 60"
proof -
  show p: "posix_time_from_utc (tm_year tm + 1900) (tm_mon tm + 1) (tm_mday tm) (tm_hour tm) (tm_min tm) (tm_sec tm) = Some t"
    using posix_to_tm_Some [OF assms] by (simp add: OPENSSL_tm_to_posix_def)
  then show "valid_date (tm_year tm + 1900) (tm_mon tm + 1) (tm_mday tm)" "0 \<le> tm_hour tm" "tm_hour tm < 24" "0 \<le> tm_min tm" "tm_min tm < 60"
    "0 \<le> tm_sec tm" "tm_sec tm < 60"
    by (auto simp: posix_time_from_utc_alt is_valid_date_iff valid_time_bounds split: if_splits)
qed

definition time_buf :: "bool \<Rightarrow> tm \<Rightarrow> u8 list" where
  "time_buf gen data = (if gen then two_digits ((tm_year data + 1900) div 100) else []) @ two_digits ((tm_year data + 1900) mod 100) @
     two_digits (tm_mon data + 1) @ two_digits (tm_mday data) @ two_digits (tm_hour data) @ two_digits (tm_min data) @ two_digits (tm_sec data) @ [90]"

lemma time_buf_text:
  assumes "OPENSSL_posix_to_tm t = Some tm" "gen \<or> fits_in_utc_time tm"
  shows "time_text gen allow (time_buf gen tm) (tm_year tm + 1900, tm_mon tm + 1, tm_mday tm, tm_hour tm, tm_min tm, tm_sec tm, 0)"
  using tm_fields [OF assms(1)] assms(2) by (auto simp: time_buf_def zone_text_def fits_in_utc_time_def)

lemma time_buf_printf:
  assumes "OPENSSL_posix_to_tm t = Some data"
  shows "printf_0d 4 (tm_year data + 1900) @ printf_0d 2 (tm_mon data + 1) @ printf_0d 2 (tm_mday data) @
      printf_0d 2 (tm_hour data) @ printf_0d 2 (tm_min data) @ printf_0d 2 (tm_sec data) @ [90] = time_buf True data"
    and "fits_in_utc_time data \<Longrightarrow> printf_0d 2 (tm_year data smod 100) @ printf_0d 2 (tm_mon data + 1) @ printf_0d 2 (tm_mday data) @
      printf_0d 2 (tm_hour data) @ printf_0d 2 (tm_min data) @ printf_0d 2 (tm_sec data) @ [90] = time_buf False data"
    and "length (time_buf True data) = 15" "length (time_buf False data) = 13" "0 \<notin> set (time_buf gen data)"
proof -
  note f = tm_fields [OF assms]
  have b: "0 \<le> tm_year data + 1900" "tm_year data + 1900 \<le> 9999" "0 \<le> tm_mon data + 1" "tm_mon data + 1 < 100" "0 \<le> tm_mday data" "tm_mday data < 100"
    "tm_hour data < 100" "tm_min data < 100" "tm_sec data < 100"
    using f(2-8) valid_date_fields [of "tm_year data + 1900" "tm_mon data + 1" "tm_mday data"] by auto
  show "printf_0d 4 (tm_year data + 1900) @ printf_0d 2 (tm_mon data + 1) @ printf_0d 2 (tm_mday data) @
      printf_0d 2 (tm_hour data) @ printf_0d 2 (tm_min data) @ printf_0d 2 (tm_sec data) @ [90] = time_buf True data"
    using b f(3,5,7) by (simp add: time_buf_def printf_four printf_two)
  show "printf_0d 2 (tm_year data smod 100) @ printf_0d 2 (tm_mon data + 1) @ printf_0d 2 (tm_mday data) @
      printf_0d 2 (tm_hour data) @ printf_0d 2 (tm_min data) @ printf_0d 2 (tm_sec data) @ [90] = time_buf False data" if "fits_in_utc_time data"
  proof -
    have "tm_year data smod 100 = (tm_year data + 1900) mod 100"
      using that mod_mult_self2 [of "tm_year data" 100 19] by (simp add: fits_in_utc_time_def smod_nonneg)
    then show ?thesis using b f(3,5,7) by (simp add: time_buf_def printf_two)
  qed
  show "length (time_buf True data) = 15" "length (time_buf False data) = 13" by (simp_all add: time_buf_def two_digits_def)
  have "0 \<le> (tm_year data + 1900) div 100" "(tm_year data + 1900) div 100 < 100"
    using b(1,2) div_bound [of 100 "tm_year data + 1900" 100] by (simp_all add: pos_imp_zdiv_nonneg_iff)
  then show "0 \<notin> set (time_buf gen data)" using b f(3,5,7) by (simp add: time_buf_def two_digits_nonzero)
qed

text \<open>The adjusted time all three functions compute first.\<close>

lemma adjusted_cases:
  fixes days secs :: int
  assumes "OPENSSL_posix_to_tm t = Some tm"
  defines "adj \<equiv> if days \<noteq> 0 \<or> secs \<noteq> 0 then OPENSSL_gmtime_adj tm days secs else (True, tm)"
  shows "is_valid_posix_time (t + days * 86400 + secs) \<Longrightarrow> \<exists>tm'. adj = (True, tm') \<and> OPENSSL_posix_to_tm (t + days * 86400 + secs) = Some tm'"
    and "\<not> is_valid_posix_time (t + days * 86400 + secs) \<Longrightarrow> adj = (False, tm)"
  using gmtime_adj_cases [OF posix_to_tm_Some [OF assms(1)], of days secs] assms(1) posix_to_tm_None [of t]
  by (auto simp: adj_def)

lemma time_read_back:
  assumes "OPENSSL_posix_to_tm t = Some tm" "gen \<or> fits_in_utc_time tm" "str_bytes s = time_buf gen tm"
    "str_type s = (if gen then V_ASN1_GENERALIZEDTIME else V_ASN1_UTCTIME)"
  shows "ASN1_TIME_to_posix now tm0 (Some s) = Some t"
proof -
  have t: "is_valid_posix_time t" using posix_to_tm_None [of t] assms(1) by simp
  from CBS_parse_time_cases(2) [OF time_buf_text [OF assms(1,2)] tm_fields(1) [OF assms(1)], of False tm0] t
  obtain tm' where "CBS_parse_rfc5280_time_internal (time_buf gen tm) gen False (Some tm0) = (True, Some tm')" "OPENSSL_tm_to_posix tm' = Some t"
    by auto
  then show ?thesis
    using assms(3,4) by (cases gen) (simp_all add: ASN1_TIME_to_posix_def asn1_time_to_tm_def asn1_utctime_to_tm_def
        asn1_generalizedtime_to_tm_def CBS_parse_utc_time_def CBS_parse_generalized_time_def CBS_init_def str_bytes_def)
qed

section \<open>Properties\<close>

text \<open>
  C38. A time written by \<^verbatim>\<open>ASN1_TIME_adj\<close> is the time read by \<^verbatim>\<open>ASN1_TIME_to_posix\<close>. With memory
  available, if the given time and the adjusted time lie in the years 0 to 9999, the call returns an
  object that is a UTCTime for the years 1950 to 2049 and a GeneralizedTime otherwise, as RFC 5280
  asks, and that reads back as the adjusted time; otherwise it returns NULL. It never aborts.
\<close>

theorem ASN1_TIME_adj_roundtrip:
  assumes "al_total al" "case s of None \<Rightarrow> True | Some s \<Rightarrow> str_wf s"
  shows "(if is_valid_posix_time t \<and> is_valid_posix_time (t + days * 86400 + secs)
     then \<exists>s' y mo d h mi sec. ASN1_TIME_adj al s t days secs = Ret (Some s') \<and> str_wf s' \<and>
       utc_from_posix_time (t + days * 86400 + secs) = Some (y, mo, d, h, mi, sec) \<and>
       str_type s' = (if 1950 \<le> y \<and> y < 2050 then V_ASN1_UTCTIME else V_ASN1_GENERALIZEDTIME) \<and>
       ASN1_TIME_to_posix now tm0 (Some s') = Some (t + days * 86400 + secs)
     else ASN1_TIME_adj al s t days secs = Ret None)"
proof (cases "is_valid_posix_time t \<and> is_valid_posix_time (t + days * 86400 + secs)")
  case False
  show ?thesis
  proof (cases "OPENSSL_posix_to_tm t")
    case None
    then have "ASN1_TIME_adj al s t days secs = Ret None" by (simp add: ASN1_TIME_adj_def)
    with False show ?thesis by simp
  next
    case (Some tm)
    then have "is_valid_posix_time t" using posix_to_tm_None [of t] by simp
    with False adjusted_cases(2) [OF Some, of days secs] Some show ?thesis by (auto simp: ASN1_TIME_adj_def split: if_splits)
  qed
next
  case True
  let ?t = "t + days * 86400 + secs"
  obtain tm where tm: "OPENSSL_posix_to_tm t = Some tm" using True posix_to_tm_None [of t] by auto
  from adjusted_cases(1) [OF tm, of days secs] True obtain tm' where
    adj: "(if days \<noteq> 0 \<or> secs \<noteq> 0 then OPENSSL_gmtime_adj tm days secs else (True, tm)) = (True, tm')" and tm': "OPENSSL_posix_to_tm ?t = Some tm'"
    by auto
  note f = tm_fields [OF tm'] and buf = time_buf_printf [OF tm']
  let ?gen = "\<not> fits_in_utc_time tm'"
  let ?ty = "if ?gen then V_ASN1_GENERALIZEDTIME else V_ASN1_UTCTIME"
  obtain s' where s': "asn1_time_store al s ?ty (time_buf ?gen tm') = Some s'" "str_wf s'" "str_bytes s' = time_buf ?gen tm'" "str_type s' = ?ty"
    using asn1_time_store_spec [OF assms buf(5), of ?gen ?ty] buf(3,4) by (cases ?gen) auto
  have y: "0 \<le> tm_year tm' + 1900" "tm_year tm' + 1900 \<le> 9999" using f(2) by (simp_all add: valid_date_def)
  have "ASN1_TIME_adj al s t days secs = Ret (Some s')"
    using tm adj s'(1) y buf by (auto simp: ASN1_TIME_adj_def ASN1_UTCTIME_adj_def ASN1_GENERALIZEDTIME_adj_def fits_in_utc_time_def Let_def split: if_splits)
  moreover have "utc_from_posix_time ?t = Some (tm_year tm' + 1900, tm_mon tm' + 1, tm_mday tm', tm_hour tm', tm_min tm', tm_sec tm')"
    using f(1) unfolding posix_utc_iff .
  moreover have "str_type s' = (if 1950 \<le> tm_year tm' + 1900 \<and> tm_year tm' + 1900 < 2050 then V_ASN1_UTCTIME else V_ASN1_GENERALIZEDTIME)"
    using s'(4) by (auto simp: fits_in_utc_time_def)
  moreover have "ASN1_TIME_to_posix now tm0 (Some s') = Some ?t"
    using time_read_back [OF tm' _ s'(3)] s'(4) by auto
  ultimately show ?thesis using True s'(2) by auto
qed

theorem ASN1_TIME_adj_roundtrip_witness:
  "\<exists>s'. ASN1_TIME_adj (\<lambda>_. Some (\<lambda>_. 0)) None 0 1 (- 1) = Ret (Some s') \<and> str_type s' = 23 \<and>
     ASN1_TIME_to_posix 0 \<lparr>tm_sec = 7, tm_min = 7, tm_hour = 7, tm_mday = 7, tm_mon = 7, tm_year = 7, tm_wday = 7, tm_yday = 7, tm_isdst = 7\<rparr>
       (Some s') = Some 86399"
proof -
  have u: "utc_from_posix_time 86399 = Some (1970, 1, 1, 23, 59, 59)"
    unfolding posix_utc_iff [symmetric]
    by (simp add: posix_time_from_utc_def is_valid_date_def is_valid_time_def Let_def sdiv_nonneg smod_nonneg)
  show ?thesis
    using ASN1_TIME_adj_roundtrip [of "\<lambda>_. Some (\<lambda>_. 0)" None 0 1 "- 1" 0
      "\<lparr>tm_sec = 7, tm_min = 7, tm_hour = 7, tm_mday = 7, tm_mon = 7, tm_year = 7, tm_wday = 7, tm_yday = 7, tm_isdst = 7\<rparr>"]
    by (auto simp: is_valid_posix_time_def u)
qed

end
