(* ===== verification/OidText.thy ===== *)
theory OidText
  imports CbbProps Decimal
begin

text \<open>
  Object identifiers as dotted text: \<^verbatim>\<open>CBS_asn1_oid_to_text\<close> of \<^verbatim>\<open>crypto/bytestring/cbs.c\<close> and
  \<^verbatim>\<open>CBB_add_asn1_oid_from_text\<close> of \<^verbatim>\<open>crypto/bytestring/cbb.c\<close>.
\<close>

section \<open>The code\<close>

definition add_decimal :: "allocator \<Rightarrow> nat \<Rightarrow> u64 \<Rightarrow> (CBB, unit) op" where
  "add_decimal al d v = (let buf = dec_digits (unat v) in CBB_add_bytes al d (take (strlen buf) buf))"

lemma parse_base128_shrinks: "parse_base128_integer cbs = (Some v, cbs') \<Longrightarrow> length cbs' < length cbs"
  unfolding base128_codec.get_iff by (auto simp: base128_bytes_def)

function oid_text_loop :: "allocator \<Rightarrow> CBS \<Rightarrow> (CBB, unit) op" where
  "oid_text_loop al copy =
     (if CBS_len copy \<noteq> 0
      then case parse_base128_integer copy of
             (None, _) \<Rightarrow> pfail
           | (Some v, copy) \<Rightarrow>
               pbind (CBB_add_u8 al 0 46) (\<lambda>_. pbind (add_decimal al 0 v) (\<lambda>_. oid_text_loop al copy))
      else pret ())"
  by pat_completeness auto
termination
  by (relation "measure (\<lambda>(al, copy). length copy)") (auto dest: parse_base128_shrinks [OF sym])

declare oid_text_loop.simps [simp del]

text \<open>The result is the returned string with its terminating NUL.\<close>

definition CBS_asn1_oid_to_text :: "allocator \<Rightarrow> CBS \<Rightarrow> u8 list option" where
  "CBS_asn1_oid_to_text al cbs =
     (case CBB_init al 32 of
        None \<Rightarrow> None
      | Some cbb \<Rightarrow>
          (case parse_base128_integer cbs of
             (None, _) \<Rightarrow> None
           | (Some v, copy) \<Rightarrow>
               (let first = (if v \<ge> 80
                             then pbind (CBB_add_bytes al 0 [50, 46]) (\<lambda>_. add_decimal al 0 (v - 80))
                             else pbind (add_decimal al 0 (v div 40)) (\<lambda>_.
                                  pbind (CBB_add_u8 al 0 46) (\<lambda>_. add_decimal al 0 (v mod 40))))
                in case pbind (pbind first (\<lambda>_. pbind (oid_text_loop al copy) (\<lambda>_. CBB_add_u8 al 0 0))) (\<lambda>_. CBB_finish al 0) cbb of
                     (None, _) \<Rightarrow> None
                   | (Some (txt, txt_len), _) \<Rightarrow> Some (take txt_len txt))))"

definition parse_dotted_decimal :: "(CBS, u64) op" where
  "parse_dotted_decimal = pbind CBS_get_u64_decimal (\<lambda>out cbs.
     case CBS_get_u8 cbs of
       (None, cbs) \<Rightarrow> (Some out, cbs)
     | (Some dot, cbs) \<Rightarrow> (if dot = 46 \<and> CBS_len cbs > 0 then Some out else None, cbs))"

lemma dec_digits_nonempty [simp]: "dec_digits n \<noteq> []"
  by (subst dec_digits.simps) simp

lemma parse_dotted_decimal_iff:
  "parse_dotted_decimal cbs = (Some v, rest) \<longleftrightarrow>
     cbs = dec_digits (unat v) \<and> rest = [] \<or> rest \<noteq> [] \<and> cbs = dec_digits (unat v) @ 46 # rest"
proof -
  let ?f = "\<lambda>(out :: u64) cbs. case CBS_get_u8 cbs of (None, cbs) \<Rightarrow> (Some out, cbs)
      | (Some dot, cbs) \<Rightarrow> (if dot = 46 \<and> CBS_len cbs > 0 then Some out else None, cbs)"
  have f: "?f out r = (Some v, rest) \<longleftrightarrow> out = v \<and> (r = [] \<and> rest = [] \<or> r = 46 # rest \<and> rest \<noteq> [])" for out r
    by (cases r) (auto simp: CBS_len_def)
  have "\<not> is_digit 46" by (simp add: OPENSSL_isdigit_def)
  then show ?thesis unfolding parse_dotted_decimal_def pbind_eq_Some f CBS_get_u64_decimal_iff by auto
qed

lemma parse_dotted_shrinks: "parse_dotted_decimal cbs = (Some v, cbs') \<Longrightarrow> length cbs' < length cbs"
  unfolding parse_dotted_decimal_iff by (auto simp: neq_Nil_conv)

function oid_from_text_loop :: "allocator \<Rightarrow> nat \<Rightarrow> CBS \<Rightarrow> (CBB, unit) op" where
  "oid_from_text_loop al d cbs =
     (if CBS_len cbs > 0
      then case parse_dotted_decimal cbs of
             (None, _) \<Rightarrow> pfail
           | (Some a, cbs) \<Rightarrow> pbind (add_base128_integer al d a) (\<lambda>_. oid_from_text_loop al d cbs)
      else pret ())"
  by pat_completeness auto
termination
  by (relation "measure (\<lambda>(al, d, cbs). length cbs)") (auto dest: parse_dotted_shrinks [OF sym])

declare oid_from_text_loop.simps [simp del]

definition CBB_add_asn1_oid_from_text :: "allocator \<Rightarrow> nat \<Rightarrow> u8 list \<Rightarrow> nat \<Rightarrow> (CBB, unit) op" where
  "CBB_add_asn1_oid_from_text al d text len = pbind (CBB_flush al d) (\<lambda>_.
     if len > 32767 then pfail
     else case parse_dotted_decimal (CBS_init text len) of
            (None, _) \<Rightarrow> pfail
          | (Some a, cbs) \<Rightarrow>
              (case parse_dotted_decimal cbs of
                 (None, _) \<Rightarrow> pfail
               | (Some b, cbs) \<Rightarrow>
                   if a > 2 \<or> (a < 2 \<and> b > 39) \<or> b > - 1 - 80 then pfail
                   else pbind (add_base128_integer al d (40 * a + b)) (\<lambda>_. oid_from_text_loop al d cbs)))"

section \<open>Arcs, text and encoding\<close>

text \<open>The arcs of an identifier: the first two, with the limits their joint encoding imposes, and the rest.\<close>

fun valid_arcs :: "nat \<times> nat \<times> u64 list \<Rightarrow> bool" where
  "valid_arcs (a, b, rest) \<longleftrightarrow> a \<le> 2 \<and> (a < 2 \<longrightarrow> b \<le> 39) \<and> 40 * a + b < 2 ^ 64"

definition dotted :: "u64 list \<Rightarrow> u8 list" where
  "dotted rest = concat (map (\<lambda>c. 46 # dec_digits (unat c)) rest)"

fun oid_text :: "nat \<times> nat \<times> u64 list \<Rightarrow> u8 list" where
  "oid_text (a, b, rest) = dec_digits a @ 46 # dec_digits b @ dotted rest"

definition arc_bytes :: "u64 list \<Rightarrow> u8 list" where
  "arc_bytes arcs = concat (map (\<lambda>c. base128_bytes (unat c)) arcs)"

fun oid_der :: "nat \<times> nat \<times> u64 list \<Rightarrow> u8 list" where
  "oid_der (a, b, rest) = base128_bytes (40 * a + b) @ arc_bytes rest"

lemma dotted_simps [simp]: "dotted [] = []" "dotted (c # rest) = 46 # dec_digits (unat c) @ dotted rest"
  by (simp_all add: dotted_def)

lemma arc_bytes_simps [simp]: "arc_bytes [] = []" "arc_bytes (c # rest) = base128_bytes (unat c) @ arc_bytes rest"
  by (simp_all add: arc_bytes_def)

lemma base128_bytes_nonempty [simp]: "base128_bytes n \<noteq> []"
  by (simp add: base128_bytes_def)

lemma dec_digits_nonzero: "0 \<notin> set (dec_digits n)"
proof (induction n rule: dec_digits.induct)
  case (1 n)
  have "(of_nat (48 + n mod 10) :: u8) \<noteq> 0"
  proof -
    have "unat (of_nat (48 + n mod 10) :: u8) = 48 + n mod 10" using mod_less_divisor [of 10 n] by (simp only: unat_of_nat_byte) simp
    then show ?thesis by (metis add_is_0 unat_0 numeral_neq_zero)
  qed
  with 1 show ?case by (subst dec_digits.simps) (auto simp: mod_less)
qed

lemma length_dec_digits: "n < 10 ^ k \<Longrightarrow> 0 < k \<Longrightarrow> length (dec_digits n) \<le> k"
proof (induction k arbitrary: n)
  case (Suc k)
  show ?case
  proof (cases "n < 10")
    case False
    with Suc.prems have "0 < k" by (cases k) auto
    moreover have "n div 10 < 10 ^ k" using Suc.prems by (simp add: less_mult_imp_div_less mult.commute)
    ultimately show ?thesis using Suc.IH [of "n div 10"] False by (subst dec_digits.simps) simp
  qed (subst dec_digits.simps, simp)
qed simp

lemma length_dec_u64: "length (dec_digits (unat (v :: u64))) \<le> 20"
  using unat_u64_less [of v] by (intro length_dec_digits) simp_all

lemma length_dotted: "length (dotted rest) \<le> 21 * length rest"
proof (induction rest)
  case (Cons c rest)
  then show ?case using length_dec_u64 [of c] by simp
qed simp

lemma length_arc_bytes: "length rest \<le> length (arc_bytes rest)"
proof (induction rest)
  case (Cons c rest)
  then show ?case by (cases "base128_bytes (unat c)") auto
qed simp

section \<open>To text\<close>

lemma builder_op_add_decimal: "builder_op al d (add_decimal al d v) (append_to d (dec_digits (unat v)))"
proof -
  have e: "takeWhile (\<lambda>c. c \<noteq> 0) (dec_digits (unat v)) = dec_digits (unat v)"
    unfolding takeWhile_eq_all_conv using dec_digits_nonzero by metis
  have "add_decimal al d v = CBB_add_bytes al d (dec_digits (unat v))"
    unfolding add_decimal_def strlen_def Let_def e by simp
  moreover have "length (dec_digits (unat v)) \<le> SIZE_MAX" using length_dec_u64 [of v] by simp
  ultimately show ?thesis using builder_op_add_bytes by simp
qed

lemma oid_text_loop_Nil: "oid_text_loop al [] = pret ()"
  by (rule ext, subst oid_text_loop.simps) (simp add: CBS_len_def)

lemma oid_text_loop_Cons:
  "oid_text_loop al (base128_bytes (unat v) @ copy) =
     pbind (CBB_add_u8 al 0 46) (\<lambda>_. pbind (add_decimal al 0 v) (\<lambda>_. oid_text_loop al copy))"
  by (rule ext, subst oid_text_loop.simps) (simp add: CBS_len_def base128_codec.get_enc)

text \<open>Appending something and then the remaining arcs.\<close>

lemma builder_op_text_loop:
  fixes f :: "(CBB, unit) op"
  assumes "builder_op al 0 f (append_to 0 xs)"
  shows "builder_op al 0 (pbind f (\<lambda>_. oid_text_loop al (arc_bytes rest))) (append_to 0 (xs @ dotted rest))"
  using assms
proof (induction rest arbitrary: f xs)
  case Nil
  then show ?case by (simp add: oid_text_loop_Nil pbind_pret)
next
  case (Cons c rest)
  have "builder_op al 0 (pbind (CBB_add_u8 al 0 46) (\<lambda>_. add_decimal al 0 c)) (append_to 0 ([46] @ dec_digits (unat c)))"
    by (rule builder_op_append_then [OF add_u8.builder_op_axioms builder_op_add_decimal])
  from Cons.IH [OF builder_op_append_then [OF Cons.prems this]] show ?case
    by (simp add: oid_text_loop_Cons pbind_assoc)
qed

lemma oid_text_loop_bad:
  assumes "\<nexists>arcs. copy = arc_bytes arcs"
  shows "fst (oid_text_loop al copy cbb) = None"
  using assms
proof (induction copy arbitrary: cbb rule: length_induct)
  case (1 copy)
  have ne: "copy \<noteq> []" using "1.prems" arc_bytes_simps(1) by metis
  show ?case
  proof (cases "parse_base128_integer copy")
    case (Pair r copy')
    show ?thesis
    proof (cases r)
      case None
      with Pair ne show ?thesis by (subst oid_text_loop.simps) (simp add: CBS_len_def pfail_def)
    next
      case (Some v)
      with Pair have c: "copy = base128_bytes (unat v) @ copy'" by (simp add: base128_codec.get_iff)
      have "length copy' < length copy" unfolding c by simp
      moreover have "\<nexists>arcs. copy' = arc_bytes arcs" using "1.prems" c by (metis arc_bytes_simps(2))
      ultimately have "fst (oid_text_loop al copy' cbb) = None" for cbb using "1.IH" by blast
      then show ?thesis unfolding c oid_text_loop_Cons by (auto simp: pbind_def split: prod.splits option.splits)
    qed
  qed
qed

lemma first_arcs:
  assumes "valid_arcs (a, b, rest)"
  defines "v \<equiv> of_nat (40 * a + b) :: u64"
  shows "builder_op al 0 (if v \<ge> 80
       then pbind (CBB_add_bytes al 0 [50, 46]) (\<lambda>_. add_decimal al 0 (v - 80))
       else pbind (add_decimal al 0 (v div 40)) (\<lambda>_. pbind (CBB_add_u8 al 0 46) (\<lambda>_. add_decimal al 0 (v mod 40))))
     (append_to 0 (dec_digits a @ 46 # dec_digits b))"
proof -
  have ab: "a \<le> 2" "a < 2 \<Longrightarrow> b \<le> 39" "40 * a + b < 2 ^ 64" using assms(1) by auto
  have uv: "unat v = 40 * a + b" unfolding v_def using ab(3) by (simp only: unat_of_nat) simp
  have le: "v \<ge> 80 \<longleftrightarrow> a = 2" unfolding word_le_nat_alt uv using ab(1,2) by (cases "a < 2") auto
  show ?thesis
  proof (cases "a = 2")
    case True
    then have "unat (v - 80) = b" using le uv by (simp add: unat_sub)
    moreover have "dec_digits 2 = [50]" by (subst dec_digits.simps) simp
    ultimately show ?thesis
      using True le builder_op_append_then [OF builder_op_add_bytes [of "[50, 46]" al 0] builder_op_add_decimal, of "v - 80"] by simp
  next
    case False
    with ab have "b \<le> 39" "a < 2" by auto
    then have "unat (v div 40) = a" "unat (v mod 40) = b" unfolding unat_div unat_mod uv by simp_all
    then show ?thesis
      using False le builder_op_append_then [OF builder_op_add_decimal [of al 0 "v div 40"]
          builder_op_append_then [OF add_u8.builder_op_axioms [of al 0 46] builder_op_add_decimal [of al 0 "v mod 40"]]] by simp
  qed
qed

lemma arcs_of_value: "\<exists>a b. valid_arcs (a, b, rest) \<and> unat (v :: u64) = 40 * a + b"
proof (cases "unat v < 80")
  case True
  then have "valid_arcs (unat v div 40, unat v mod 40, rest)" by auto
  then show ?thesis by (metis mult_div_mod_eq)
next
  case False
  then have "valid_arcs (2, unat v - 80, rest)" "unat v = 40 * 2 + (unat v - 80)" using unat_u64_less [of v] by auto
  then show ?thesis by blast
qed

lemma CBB_init_total: "al_total al \<Longrightarrow> \<exists>cbb. CBB_init al 32 = Some cbb"
  using OPENSSL_malloc_total [of al 32] by (auto simp: CBB_init_def split: option.splits)

lemma oid_to_text_valid:
  assumes "al_total al" "valid_arcs (a, b, rest)" "length rest \<le> 2 ^ 40"
  shows "CBS_asn1_oid_to_text al (oid_der (a, b, rest)) = Some (oid_text (a, b, rest) @ [0])"
proof -
  define v where "v = (of_nat (40 * a + b) :: u64)"
  have uv: "unat v = 40 * a + b" using assms(2) by (simp only: v_def unat_of_nat) simp
  obtain cbb where cbb: "CBB_init al 32 = Some cbb" using CBB_init_total [OF assms(1)] by blast
  note op = builder_op_append_then [OF builder_op_text_loop [OF first_arcs [OF assms(2), folded v_def]] add_u8.builder_op_axioms [of al 0 0], of rest]
  have b: "b < 2 ^ 64" using assms(2) by simp
  have "length (dec_digits a) \<le> 1" "length (dec_digits b) \<le> 20" using assms(2) b by (intro length_dec_digits; simp)+
  then have "length ((dec_digits a @ 46 # dec_digits b) @ dotted rest @ [0]) \<le> 2 ^ 62" using length_dotted [of rest] assms(3) by simp
  then have len: "length (((dec_digits a @ 46 # dec_digits b) @ dotted rest) @ [0]) \<le> 2 ^ 62" by simp
  from build [OF op cbb _ assms(1) len] obtain buf n cbb' where
    run: "pbind (pbind (pbind (if v \<ge> 80
       then pbind (CBB_add_bytes al 0 [50, 46]) (\<lambda>_. add_decimal al 0 (v - 80))
       else pbind (add_decimal al 0 (v div 40)) (\<lambda>_. pbind (CBB_add_u8 al 0 46) (\<lambda>_. add_decimal al 0 (v mod 40))))
      (\<lambda>_. oid_text_loop al (arc_bytes rest))) (\<lambda>_. CBB_add_u8 al 0 0)) (\<lambda>_. CBB_finish al 0) cbb = (Some (buf, n), cbb')"
    and out: "CBS_init buf n = ((dec_digits a @ 46 # dec_digits b) @ dotted rest) @ [0]" by auto
  have "parse_base128_integer (oid_der (a, b, rest)) = (Some v, arc_bytes rest)"
    using base128_codec.get_enc [of v "arc_bytes rest"] uv by simp
  then show ?thesis
    using cbb run out unfolding CBS_asn1_oid_to_text_def Let_def by (simp add: pbind_assoc CBS_init_def)
qed

lemma pbind_fails:
  "(\<And>s. fst (f s) = None) \<Longrightarrow> fst (pbind f g s) = None"
  "(\<And>v s. fst (g v s) = None) \<Longrightarrow> fst (pbind f g s) = None"
  by (auto simp: pbind_def split: prod.splits option.splits) (metis fst_conv option.distinct(1))

lemma case_fst_None: "fst p = None \<Longrightarrow> (case p of (None, _) \<Rightarrow> None | (Some (a, b), _) \<Rightarrow> F a b) = None"
  by (cases p) auto

lemma oid_to_text_bad:
  assumes "\<nexists>arcs. valid_arcs arcs \<and> cbs = oid_der arcs"
  shows "CBS_asn1_oid_to_text al cbs = None"
proof (cases "parse_base128_integer cbs")
  case (Pair r copy)
  show ?thesis
  proof (cases r)
    case None
    with Pair show ?thesis by (simp add: CBS_asn1_oid_to_text_def split: option.splits)
  next
    case (Some v)
    then have cbs: "cbs = base128_bytes (unat v) @ copy" using Pair by (simp add: base128_codec.get_iff)
    have "\<nexists>rest. copy = arc_bytes rest"
    proof
      assume "\<exists>rest. copy = arc_bytes rest"
      then obtain rest where "copy = arc_bytes rest" ..
      moreover obtain a b where "valid_arcs (a, b, rest)" "unat v = 40 * a + b" using arcs_of_value by blast
      ultimately show False using assms cbs by (metis oid_der.simps)
    qed
    then have bad: "fst (oid_text_loop al copy cbb) = None" for cbb by (rule oid_text_loop_bad)
    have f: "fst (pbind (pbind f (\<lambda>_. pbind (oid_text_loop al copy) g)) h cbb) = None" for f g h and cbb :: CBB
      by (intro pbind_fails(1) pbind_fails(2) bad)
    show ?thesis
      unfolding CBS_asn1_oid_to_text_def Let_def Pair Some prod.case option.case case_fst_None [OF f] by (simp split: option.split)
  qed
qed

section \<open>From text\<close>

lemma oid_from_text_loop_Nil: "oid_from_text_loop al d [] = pret ()"
  by (rule ext, subst oid_from_text_loop.simps) (simp add: CBS_len_def)

text \<open>The text of the remaining arcs, without the dot in front.\<close>

definition dotted_tail :: "u64 list \<Rightarrow> u8 list" where
  "dotted_tail rest = drop 1 (dotted rest)"

lemma parse_dotted_arc:
  "parse_dotted_decimal (dec_digits (unat c) @ dotted rest) = (Some c, dotted_tail rest)"
  unfolding parse_dotted_decimal_iff dotted_tail_def by (cases rest) auto

lemma dotted_tail_Cons: "dotted_tail (c # rest) = dec_digits (unat c) @ dotted rest"
  by (simp add: dotted_tail_def)

lemma oid_from_text_loop_Cons:
  "oid_from_text_loop al d (dotted_tail (c # rest)) = pbind (add_base128_integer al d c) (\<lambda>_. oid_from_text_loop al d (dotted_tail rest))"
  by (rule ext, subst oid_from_text_loop.simps) (simp add: CBS_len_def dotted_tail_Cons parse_dotted_arc)

lemma builder_op_from_text_loop:
  fixes f :: "(CBB, unit) op"
  assumes "builder_op al d f (append_to d xs)"
  shows "builder_op al d (pbind f (\<lambda>_. oid_from_text_loop al d (dotted_tail rest))) (append_to d (xs @ arc_bytes rest))"
  using assms
proof (induction rest arbitrary: f xs)
  case Nil
  then show ?case by (simp add: dotted_tail_def oid_from_text_loop_Nil pbind_pret)
next
  case (Cons c rest)
  from Cons.IH [OF builder_op_append_then [OF Cons.prems add_base128.builder_op_axioms [of al d c]]] show ?case
    by (simp add: oid_from_text_loop_Cons pbind_assoc)
qed

lemma builder_op_oid_from_text:
  assumes "valid_arcs (a, b, rest)" "length (oid_text (a, b, rest)) \<le> 32767"
  shows "builder_op al d (CBB_add_asn1_oid_from_text al d (oid_text (a, b, rest)) (length (oid_text (a, b, rest)))) (append_to d (oid_der (a, b, rest)))"
proof -
  define wa wb where "wa = (of_nat a :: u64)" and "wb = (of_nat b :: u64)"
  have ab: "a \<le> 2" "a < 2 \<longrightarrow> b \<le> 39" "40 * a + b < 2 ^ 64" using assms(1) by auto
  have u: "unat wa = a" "unat wb = b" unfolding wa_def wb_def using ab by (simp_all only: unat_of_nat) simp_all
  have p: "parse_dotted_decimal (oid_text (a, b, rest)) = (Some wa, dec_digits b @ dotted rest)"
    "parse_dotted_decimal (dec_digits b @ dotted rest) = (Some wb, dotted_tail rest)"
    using parse_dotted_arc [of wb rest] by (simp_all add: parse_dotted_decimal_iff u)
  have m: "unat (- 1 - 80 :: u64) = 18446744073709551535" by simp
  have g: "\<not> (wa > 2 \<or> (wa < 2 \<and> wb > 39) \<or> wb > - 1 - 80)"
    unfolding word_less_nat_alt m using ab by (auto simp: u)
  have s: "unat (40 * wa + wb) = 40 * a + b"
  proof -
    have "unat (40 * wa) = 40 * a" using ab(1) u(1) by (subst unat_mult_lem [THEN iffD1]) simp_all
    then show ?thesis using ab(3) u(2) by (subst unat_add_lem [THEN iffD1]) simp_all
  qed
  have t: "CBS_init (oid_text (a, b, rest)) (length (oid_text (a, b, rest))) = oid_text (a, b, rest)"
    by (simp only: CBS_init_def take_all order_refl)
  have l: "\<not> 32767 < length (oid_text (a, b, rest))" using assms(2) by linarith
  have "CBB_add_asn1_oid_from_text al d (oid_text (a, b, rest)) (length (oid_text (a, b, rest))) =
      pbind (CBB_flush al d) (\<lambda>_. pbind (add_base128_integer al d (40 * wa + wb)) (\<lambda>_. oid_from_text_loop al d (dotted_tail rest)))"
    unfolding CBB_add_asn1_oid_from_text_def t p prod.case option.case if_not_P [OF g] if_not_P [OF l] ..
  moreover have "builder_op al d (pbind (add_base128_integer al d (40 * wa + wb)) (\<lambda>_. oid_from_text_loop al d (dotted_tail rest)))
      (append_to d (oid_der (a, b, rest)))"
    using builder_op_from_text_loop [OF add_base128.builder_op_axioms [of al d "40 * wa + wb"], of rest] by (simp add: s)
  ultimately show ?thesis using builder_op_flush_first by (simp del: oid_der.simps oid_text.simps)
qed

section \<open>Properties\<close>

text \<open>
  C39. Object identifiers survive the way to text and back. \<^verbatim>\<open>CBS_asn1_oid_to_text\<close> succeeds, with
  memory available, exactly on the encodings of identifiers whose arcs fit 64 bits, and returns the
  NUL-terminated decimal arcs joined by dots; and \<^verbatim>\<open>CBB_add_asn1_oid_from_text\<close> of that text, unless it
  is longer than \<open>SHRT_MAX\<close>, writes the same encoding again.
\<close>

theorem oid_text_roundtrip:
  assumes "al_total al" "length cbs \<le> 2 ^ 40" "CBB_init al cap = Some cbb" "cap \<le> SIZE_MAX"
  shows "(\<exists>arcs. valid_arcs arcs \<and> cbs = oid_der arcs \<and> CBS_asn1_oid_to_text al cbs = Some (oid_text arcs @ [0]) \<and>
       (length (oid_text arcs) \<le> 32767 \<longrightarrow>
         (\<exists>buf n cbb'. pbind (CBB_add_asn1_oid_from_text al 0 (oid_text arcs) (length (oid_text arcs))) (\<lambda>_. CBB_finish al 0) cbb =
           (Some (buf, n), cbb') \<and> CBS_init buf n = cbs))) \<or>
     (\<nexists>arcs. valid_arcs arcs \<and> cbs = oid_der arcs) \<and> CBS_asn1_oid_to_text al cbs = None"
proof (cases "\<exists>arcs. valid_arcs arcs \<and> cbs = oid_der arcs")
  case True
  then obtain a b rest where arcs: "valid_arcs (a, b, rest)" "cbs = oid_der (a, b, rest)" by (metis prod_cases3)
  have "length rest \<le> 2 ^ 40" using assms(2) arcs(2) length_arc_bytes [of rest] by simp
  from oid_to_text_valid [OF assms(1) arcs(1) this] have "CBS_asn1_oid_to_text al cbs = Some (oid_text (a, b, rest) @ [0])"
    unfolding arcs(2) .
  moreover have "\<exists>buf n cbb'. pbind (CBB_add_asn1_oid_from_text al 0 (oid_text (a, b, rest)) (length (oid_text (a, b, rest)))) (\<lambda>_. CBB_finish al 0) cbb =
      (Some (buf, n), cbb') \<and> CBS_init buf n = cbs" if "length (oid_text (a, b, rest)) \<le> 32767"
    using build [OF builder_op_oid_from_text [OF arcs(1) that] assms(3,4,1)] assms(2) arcs(2) by (simp del: oid_der.simps oid_text.simps)
  ultimately show ?thesis using arcs by blast
next
  case False
  then show ?thesis using oid_to_text_bad by blast
qed

theorem oid_text_roundtrip_witness:
  "\<exists>arcs. valid_arcs arcs \<and> [42, 3] = oid_der arcs \<and> CBS_asn1_oid_to_text (\<lambda>_. Some (\<lambda>_. 0)) [42, 3] = Some (oid_text arcs @ [0])"
proof -
  have a: "valid_arcs (1, 2, [3])" "[42, 3] = oid_der (1, 2, [3])" by (simp_all add: base128_bytes_def b128_cont_def)
  have i: "CBB_init (\<lambda>_. Some (\<lambda>_. 0)) 0 = Some (cbb_init [] 0 True)" by (simp add: CBB_init_def OPENSSL_malloc_def size_add_def)
  have "length [42, 3 :: u8] \<le> 2 ^ 40" by simp
  from oid_text_roundtrip [OF _ this i] a show ?thesis by blast
qed

end
