(* ===== verification/CbbCalls.thy ===== *)
theory CbbCalls
  imports OidText
begin

text \<open>
  Sequences of calls on a builder. \<open>cbb_call\<close> has one constructor for every function of
  \<^verbatim>\<open>crypto/bytestring/cbb.c\<close> that changes a \<open>CBB\<close>, except initialisation, \<open>CBB_finish\<close> and
  \<open>CBB_cleanup\<close>; \<open>cbb_run\<close> makes the call on the \<open>CBB\<close> at depth \<open>d\<close>. The properties speak
  of every call, of every builder that calls can reach, and of everything that can be done to a child before it is discarded.
\<close>

section \<open>Calls\<close>

datatype cbb_call =
    Flush | Add_space nat | Reserve nat | Did_write nat | Add_bytes "u8 list" | Add_zeros nat
  | Add_u8 u8 | Add_u16 u16 | Add_u16le u16 | Add_u24 u32 | Add_u32 u32 | Add_u32le u32 | Add_u64 u64 | Add_u64le u64
  | U8_length_prefixed | U16_length_prefixed | U24_length_prefixed | Add_asn1 CBS_ASN1_TAG
  | Add_asn1_uint64 u64 | Add_asn1_uint64_with_tag u64 CBS_ASN1_TAG | Add_asn1_int64 u64 | Add_asn1_int64_with_tag u64 CBS_ASN1_TAG
  | Add_asn1_octet_string "u8 list" | Add_asn1_bool bool | Add_asn1_oid_from_text "u8 list" nat
  | Flush_asn1_set_of | Discard_child

type_synonym qsort_fun = "(CBS \<Rightarrow> CBS \<Rightarrow> int) \<Rightarrow> CBS list \<Rightarrow> CBS list"

fun cbb_run :: "qsort_fun \<Rightarrow> allocator \<Rightarrow> nat \<Rightarrow> cbb_call \<Rightarrow> (CBB, unit) op" where
  "cbb_run qsort al d Flush = CBB_flush al d"
| "cbb_run qsort al d (Add_space n) = pbind (CBB_add_space al d n) (\<lambda>_. pret ())"
| "cbb_run qsort al d (Reserve n) = pbind (CBB_reserve al d n) (\<lambda>_. pret ())"
| "cbb_run qsort al d (Did_write n) = CBB_did_write d n"
| "cbb_run qsort al d (Add_bytes data) = CBB_add_bytes al d data"
| "cbb_run qsort al d (Add_zeros n) = CBB_add_zeros al d n"
| "cbb_run qsort al d (Add_u8 v) = CBB_add_u8 al d v"
| "cbb_run qsort al d (Add_u16 v) = CBB_add_u16 al d v"
| "cbb_run qsort al d (Add_u16le v) = CBB_add_u16le al d v"
| "cbb_run qsort al d (Add_u24 w) = CBB_add_u24 al d w"
| "cbb_run qsort al d (Add_u32 w) = CBB_add_u32 al d w"
| "cbb_run qsort al d (Add_u32le w) = CBB_add_u32le al d w"
| "cbb_run qsort al d (Add_u64 x) = CBB_add_u64 al d x"
| "cbb_run qsort al d (Add_u64le x) = CBB_add_u64le al d x"
| "cbb_run qsort al d U8_length_prefixed = CBB_add_u8_length_prefixed al d"
| "cbb_run qsort al d U16_length_prefixed = CBB_add_u16_length_prefixed al d"
| "cbb_run qsort al d U24_length_prefixed = CBB_add_u24_length_prefixed al d"
| "cbb_run qsort al d (Add_asn1 tag) = CBB_add_asn1 al d tag"
| "cbb_run qsort al d (Add_asn1_uint64 x) = CBB_add_asn1_uint64 al d x"
| "cbb_run qsort al d (Add_asn1_uint64_with_tag x tag) = CBB_add_asn1_uint64_with_tag al d x tag"
| "cbb_run qsort al d (Add_asn1_int64 x) = CBB_add_asn1_int64 al d x"
| "cbb_run qsort al d (Add_asn1_int64_with_tag x tag) = CBB_add_asn1_int64_with_tag al d x tag"
| "cbb_run qsort al d (Add_asn1_octet_string data) = CBB_add_asn1_octet_string al d data"
| "cbb_run qsort al d (Add_asn1_bool b) = CBB_add_asn1_bool al d b"
| "cbb_run qsort al d (Add_asn1_oid_from_text text len) = CBB_add_asn1_oid_from_text al d text len"
| "cbb_run qsort al d Flush_asn1_set_of = CBB_flush_asn1_set_of qsort al d"
| "cbb_run qsort al d Discard_child = (\<lambda>cbb. (Some (), CBB_discard_child d cbb))"

text \<open>The sizes a caller passes are representable.\<close>

fun call_sized :: "cbb_call \<Rightarrow> bool" where
  "call_sized (Add_space n) = (n \<le> SIZE_MAX)"
| "call_sized (Reserve n) = (n \<le> SIZE_MAX)"
| "call_sized (Did_write n) = (n \<le> SIZE_MAX)"
| "call_sized (Add_bytes data) = (length data \<le> SIZE_MAX)"
| "call_sized (Add_zeros n) = (n \<le> SIZE_MAX)"
| "call_sized (Add_asn1_octet_string data) = (length data \<le> SIZE_MAX)"
| "call_sized _ = True"

section \<open>Operations that keep the invariant\<close>

definition keeps_wf :: "(CBB, 'a) op \<Rightarrow> bool" where
  "keeps_wf f \<longleftrightarrow> (\<forall>cbb. cbb_wf cbb \<longrightarrow> cbb_wf (snd (f cbb)))"

lemma keeps_wf_builder: "builder_op al d f e \<Longrightarrow> keeps_wf f"
  by (simp add: keeps_wf_def builder_op.keeps_wf)

lemma keeps_wf_bind:
  assumes "keeps_wf f" "\<And>v. keeps_wf (g v)"
  shows "keeps_wf (pbind f g)"
  unfolding keeps_wf_def
proof (intro allI impI)
  fix cbb assume "cbb_wf cbb"
  then have w: "cbb_wf (snd (f cbb))" using assms(1) by (simp add: keeps_wf_def)
  obtain r c where f: "f cbb = (r, c)" by fastforce
  show "cbb_wf (snd (pbind f g cbb))"
    using w f assms(2) by (cases r) (simp_all add: pbind_def keeps_wf_def)
qed

lemma keeps_wf_pret: "keeps_wf (pret v)" "keeps_wf pfail"
  by (simp_all add: keeps_wf_def pret_def pfail_def)

lemma keeps_wf_add_space: "n \<le> SIZE_MAX \<Longrightarrow> keeps_wf (CBB_add_space al d n)"
  unfolding CBB_add_space_def
proof (rule keeps_wf_bind [OF keeps_wf_builder [OF flush.builder_op_axioms]])
  assume n: "n \<le> SIZE_MAX"
  show "keeps_wf (on_base (cbb_buffer_add al n))"
    unfolding keeps_wf_def
  proof (intro allI impI)
    fix c assume wf: "cbb_wf c"
    obtain q b where a: "cbb_buffer_add al n (cbb_base c) = (q, b)" by fastforce
    show "cbb_wf (snd (on_base (cbb_buffer_add al n) c))"
    proof (cases q)
      case None
      then show ?thesis using a wf by (auto simp: on_base_def cbb_wf_def dest!: buffer_add_None)
    next
      case (Some off)
      then show ?thesis using a wf buffer_add_Some [OF _ n, of "cbb_base c" al off b]
        by (auto simp: on_base_def cbb_wf_def buffer_le_def elim: chain_wf_mono)
    qed
  qed
qed

lemma keeps_wf_add_u24: "keeps_wf (CBB_add_u24 al d v)"
proof (cases "unat v < 2 ^ 24")
  case True
  then show ?thesis using keeps_wf_builder [OF builder_op_add_u24] by blast
next
  case False
  have "256 ^ 3 \<le> unat (ucast v :: u64)"
    using False unat_u32_less [of v] by (simp add: unsigned_ucast_eq take_bit_eq_mod)
  then have "cbb_wf (snd (cbb_add_u al d (ucast v) 3 cbb))" if "cbb_wf cbb" for cbb
    using cbb_add_u_overflow [OF that, of 3 "ucast v" d al] CBB_flush_stuck [of d cbb al] that
    by (cases "cbb_attached d cbb") (auto simp: cbb_add_u_def CBB_add_space_def pbind_def)
  then show ?thesis by (simp add: keeps_wf_def CBB_add_u24_def)
qed

lemma keeps_wf_oid_loop: "keeps_wf (oid_from_text_loop al d cbs)"
proof (induction al d cbs rule: oid_from_text_loop.induct)
  case (1 al d cbs)
  show ?case
    by (subst oid_from_text_loop.simps)
      (use 1 in \<open>auto split: prod.splits option.splits intro!: keeps_wf_pret keeps_wf_bind [OF keeps_wf_builder [OF add_base128.builder_op_axioms]]\<close>)
qed

lemma keeps_wf_oid: "keeps_wf (CBB_add_asn1_oid_from_text al d text len)"
  unfolding CBB_add_asn1_oid_from_text_def
  by (rule keeps_wf_bind [OF keeps_wf_builder [OF flush.builder_op_axioms]])
    (auto split: prod.splits option.splits intro!: keeps_wf_pret keeps_wf_oid_loop keeps_wf_bind [OF keeps_wf_builder [OF add_base128.builder_op_axioms]])

text \<open>After the flush the SET OF is either left alone or its contents are replaced by as many bytes.\<close>

lemma set_of_cases:
  assumes q: "\<And>cmp xs. mset (qsort cmp xs) = mset xs" and wf: "cbb_wf cbb"
    and run: "CBB_flush_asn1_set_of qsort al d cbb = (x, cbb')"
  shows "\<exists>r c. CBB_flush al d cbb = (r, c) \<and> (r = None \<longrightarrow> x = None \<and> cbb' = c) \<and>
    (cbb' = c \<or> (\<exists>z. r = Some () \<and> length z = CBB_len d c \<and> cbb' = cbb_store (CBB_data d c) z c))"
proof -
  obtain r c where f: "CBB_flush al d cbb = (r, c)" by fastforce
  show ?thesis
  proof (cases r)
    case None
    then show ?thesis using f run by (simp add: CBB_flush_asn1_set_of_def pbind_def)
  next
    case (Some u)
    have wfc: "cbb_wf c" and d: "length (cbb_children c) = d"
      using flush.op_Some [OF wf f [unfolded Some]] flush_depth [OF wf f [unfolded Some]] by (auto simp: cbb_le_def)
    note sl = innermost_slice [OF wfc d]
    have ly: "length (CBS_init (drop (CBB_data d c) (cbb_buf (cbb_base c))) (CBB_len d c)) = CBB_len d c"
      using sl(1,2) wfc by (simp add: CBS_init_def cbb_wf_def buffer_wf_def min_absorb2 diff_le_mono)
    have z: "length (concat (qsort compare_set_of_element es)) = length cbs" if "set_of_elements cbs = Some es" for cbs es
    proof -
      have "length (concat (qsort compare_set_of_element es)) = length (concat es)"
        using q [of compare_set_of_element es] by (metis length_concat mset_map sum_mset_sum_list)
      then show ?thesis using set_of_elements_Some [OF that] by simp
    qed
    have dup: "b = cbs" if "OPENSSL_memdup al cbs n = Some b" "length cbs = n" for b cbs n
      using that OPENSSL_malloc_length [of al n] by (auto simp: OPENSSL_memdup_def buf_write_def split: if_splits option.splits)
    define cbs where "cbs = CBS_init (drop (CBB_data d c) (cbb_buf (cbb_base c))) (CBB_len d c)"
    have len: "length (concat (qsort compare_set_of_element es)) = CBB_len d c"
      if "OPENSSL_memdup al cbs (CBB_len d c) = Some b" "set_of_elements (CBS_init b (CBB_len d c)) = Some es" for b es
      using dup [OF that(1)] z [OF that(2)] ly by (simp add: cbs_def CBS_init_def)
    have "cbb' = c \<or> (\<exists>z. length z = CBB_len d c \<and> cbb' = cbb_store (CBB_data d c) z c)"
      using f Some run unfolding CBB_flush_asn1_set_of_def pbind_def Let_def
      by (simp add: cbs_def [symmetric] split: option.splits if_splits) (use len in blast)
    then show ?thesis using f Some by auto
  qed
qed


lemma cbb_wf_store: "cbb_wf cbb \<Longrightarrow> off + length bs \<le> cbb_cap (cbb_base cbb) \<Longrightarrow> cbb_wf (cbb_store off bs cbb)"
  by (simp add: cbb_wf_def cbb_store_def buffer_wf_def)

lemma keeps_wf_set_of:
  assumes "\<And>cmp xs. mset (qsort cmp xs) = mset xs"
  shows "keeps_wf (CBB_flush_asn1_set_of qsort al d)"
  unfolding keeps_wf_def
proof (intro allI impI)
  fix cbb assume wf: "cbb_wf cbb"
  obtain x cbb' where run: "CBB_flush_asn1_set_of qsort al d cbb = (x, cbb')" by fastforce
  from set_of_cases [OF assms wf run] obtain r c where f: "CBB_flush al d cbb = (r, c)"
    and c: "cbb' = c \<or> (\<exists>z. r = Some () \<and> length z = CBB_len d c \<and> cbb' = cbb_store (CBB_data d c) z c)" by blast
  have wfc: "cbb_wf c" using flush.keeps_wf [OF wf, of al d] f by simp
  have "cbb_wf cbb'" if "r = Some ()" "length z = CBB_len d c" "cbb' = cbb_store (CBB_data d c) z c" for z
    using innermost_slice(4) [OF wfc flush_depth [OF wf f [unfolded that(1)]] that(2)] that(3) by simp
  then show "cbb_wf (snd (CBB_flush_asn1_set_of qsort al d cbb))" using run c wfc by auto
qed

lemma cbb_run_keeps_wf:
  assumes q: "\<And>cmp xs. mset (qsort cmp xs) = mset xs" and c: "call_sized c"
  shows "keeps_wf (cbb_run qsort al d c)"
proof -
  note b = keeps_wf_builder [OF flush.builder_op_axioms] keeps_wf_builder [OF builder_op_add_bytes] keeps_wf_builder [OF builder_op_add_zeros]
    keeps_wf_builder [OF add_u8.builder_op_axioms] keeps_wf_builder [OF add_u16.builder_op_axioms] keeps_wf_builder [OF add_u32.builder_op_axioms]
    keeps_wf_builder [OF add_u64.builder_op_axioms] keeps_wf_builder [OF add_u8_prefixed.builder_op_axioms]
    keeps_wf_builder [OF add_u16_prefixed.builder_op_axioms] keeps_wf_builder [OF add_u24_prefixed.builder_op_axioms]
    keeps_wf_builder [OF add_asn1.builder_op_axioms] keeps_wf_builder [OF add_uint64.builder_op_axioms]
    keeps_wf_builder [OF add_uint64_tag.builder_op_axioms] keeps_wf_builder [OF add_int64.builder_op_axioms]
    keeps_wf_builder [OF add_int64_tag.builder_op_axioms] keeps_wf_builder [OF builder_op_octet_string]
    keeps_wf_builder [OF add_bool.builder_op_axioms] keeps_wf_add_u24 keeps_wf_oid keeps_wf_set_of [OF q]
  have r: "keeps_wf (CBB_reserve al d n)" if "n \<le> SIZE_MAX" for n using CBB_reserve_wf [OF _ that] by (simp add: keeps_wf_def)
  have w: "keeps_wf (CBB_did_write d n)" for n using CBB_did_write_wf by (simp add: keeps_wf_def)
  have dc: "keeps_wf (\<lambda>cbb. (Some (), CBB_discard_child d cbb))" using discard_child_refines by (simp add: keeps_wf_def)
  show ?thesis
    using c by (cases c) (simp_all add: b r w dc keeps_wf_bind keeps_wf_add_space keeps_wf_pret
        CBB_add_u16le_def CBB_add_u32le_def CBB_add_u64le_def)
qed

section \<open>Operations on a child keep what is below it\<close>

text \<open>A successful call leaves the strings up to depth \<open>d\<close>, as discarding would uncover them, as they are.\<close>

definition keeps_below :: "nat \<Rightarrow> (CBB, 'a) op \<Rightarrow> bool" where
  "keeps_below d f \<longleftrightarrow> (\<forall>cbb v cbb'. cbb_wf cbb \<and> f cbb = (Some v, cbb') \<longrightarrow>
     cbb_wf cbb' \<and> discard_to d (cbb_abs cbb') = discard_to d (cbb_abs cbb))"

lemma discard_to_nth:
  assumes "d < length r"
  shows "discard_to d (y, r) = (snd (r ! (length r - Suc d)), drop (length r - d) r)"
proof -
  have "drop (length r - Suc d) r = r ! (length r - Suc d) # drop (Suc (length r - Suc d)) r" using assms by (intro Cons_nth_drop_Suc [symmetric]) simp
  moreover have "Suc (length r - Suc d) = length r - d" using assms by simp
  ultimately show ?thesis using assms by (cases "r ! (length r - Suc d)") (simp add: discard_to_def)
qed

lemma discard_to_top: "d < length r \<Longrightarrow> discard_to d (y, r) = discard_to d (z, r)"
  by (simp add: discard_to_nth)

lemma discard_to_push: "d < length r \<Longrightarrow> discard_to d (z, k # r) = discard_to d (y, r)"
  by (simp add: discard_to_nth Suc_diff_Suc [symmetric] Suc_diff_le)

lemma flush_to_below: "flush_to e st = Some st' \<Longrightarrow> d < e \<Longrightarrow> discard_to d st' = discard_to d st"
proof (induction e st rule: flush_to.induct)
  case (2 e y k x r)
  show ?case
  proof (cases "e = Suc (length r)")
    case False
    with 2 obtain z where z: "close_prefix k y = Some z" "flush_to e (x @ z, r) = Some st'" "\<not> Suc (length r) < e"
      by (auto simp: bind_eq_Some_conv split: if_splits)
    then have "d < length r" using False 2(3) by simp
    then show ?thesis using 2(1) [OF False z(3)] z 2(3) discard_to_push [of d r y "(k, x)" "x @ z"] by auto
  qed (use 2 in auto)
qed (auto split: if_splits)

lemma append_to_below:
  assumes "append_to e bs st = Some st'" "d < e"
  shows "discard_to d st' = discard_to d st"
proof -
  from assms(1) obtain y r where f: "flush_to e st = Some (y, r)" "st' = (y @ bs, r)" by (auto simp: append_to_def)
  have "d < length r" using flush_to_depth [OF f(1)] assms(2) by simp
  then have "discard_to d st' = discard_to d (y, r)" unfolding f(2) by (rule discard_to_top)
  then show ?thesis using flush_to_below [OF f(1) assms(2)] by (rule trans)
qed

lemma push_to_below:
  assumes "push_to e k st = Some st'" "d < e"
  shows "discard_to d st' = discard_to d st"
proof -
  from assms(1) obtain y r where f: "flush_to e st = Some (y, r)" "st' = ([], (k, y) # r)" by (auto simp: push_to_def)
  have "d < length r" using flush_to_depth [OF f(1)] assms(2) by simp
  then have "discard_to d st' = discard_to d (y, r)" unfolding f(2) by (rule discard_to_push)
  then show ?thesis using flush_to_below [OF f(1) assms(2)] by (rule trans)
qed

lemma keeps_below_builder:
  assumes "builder_op al e f g" "\<And>st st'. g st = Some st' \<Longrightarrow> discard_to d st' = discard_to d st"
  shows "keeps_below d f"
  using builder_op.op_Some [OF assms(1)] assms(2) unfolding keeps_below_def cbb_le_def by blast

lemma keeps_below_append: "builder_op al e f (append_to e bs) \<Longrightarrow> d < e \<Longrightarrow> keeps_below d f"
  by (rule keeps_below_builder) (auto dest: append_to_below)

lemma keeps_below_element: "builder_op al e f (add_element e tag bs) \<Longrightarrow> d < e \<Longrightarrow> keeps_below d f"
  by (rule keeps_below_builder) (auto simp: add_element_def dest: append_to_below split: if_splits)

lemma keeps_below_bind: "keeps_below d f \<Longrightarrow> (\<And>v. keeps_below d (g v)) \<Longrightarrow> keeps_below d (pbind f g)"
  unfolding keeps_below_def pbind_eq_Some by metis

lemma keeps_below_pret: "keeps_below d (pret v)" "keeps_below d pfail"
  by (simp_all add: keeps_below_def pret_def pfail_def)

lemma keeps_below_open: "d < e \<Longrightarrow> keeps_below d (CBB_add_asn1 al e tag)"
proof (rule keeps_below_builder [OF add_asn1.builder_op_axioms])
  fix st st' assume d: "d < e" and "open_element e tag st = Some st'"
  then obtain s where s: "append_to e (der_tag tag) st = Some s" "push_to e Asn1_prefix s = Some st'"
    by (auto simp: open_element_def bind_eq_Some_conv)
  show "discard_to d st' = discard_to d st" using push_to_below [OF s(2) d] append_to_below [OF s(1) d] by (rule trans)
qed

lemma keeps_below_push: "builder_op al e f (push_to e k) \<Longrightarrow> d < e \<Longrightarrow> keeps_below d f"
  by (rule keeps_below_builder) (auto dest: push_to_below)

lemma keeps_below_flush: "d < e \<Longrightarrow> keeps_below d (CBB_flush al e)"
  by (rule keeps_below_builder [OF flush.builder_op_axioms]) (auto dest: flush_to_below)

lemma keeps_below_base:
  assumes "d < e" "\<And>b off b'. buffer_wf b \<Longrightarrow> g b = (Some off, b') \<Longrightarrow> (\<exists>bs. buffer_out b' = buffer_out b @ bs) \<and> buffer_le b b' \<and> cbb_len b \<le> cbb_len b'"
  shows "keeps_below d (pbind (CBB_flush al e) (\<lambda>_. on_base g))"
  unfolding keeps_below_def
proof (intro allI impI)
  fix cbb v cbb' assume a: "cbb_wf cbb \<and> pbind (CBB_flush al e) (\<lambda>_. on_base g) cbb = (Some v, cbb')"
  then obtain c b where f: "CBB_flush al e cbb = (Some (), c)" and b: "g (cbb_base c) = (Some v, b)" "cbb' = c\<lparr>cbb_base := b\<rparr>"
    by (auto simp: pbind_eq_Some on_base_eq)
  have wf: "cbb_wf c" "discard_to d (cbb_abs c) = discard_to d (cbb_abs cbb)"
    using keeps_below_flush [OF assms(1), of al] a f unfolding keeps_below_def by blast+
  then obtain bs where o: "buffer_out b = buffer_out (cbb_base c) @ bs" "buffer_le (cbb_base c) b" "cbb_len (cbb_base c) \<le> cbb_len b"
    using assms(2) [OF _ b(1)] by (auto simp: cbb_wf_def)
  have "cbb_abs cbb' = (case cbb_abs c of (y, r) \<Rightarrow> (y @ bs, r))" by (rule cbb_abs_append [OF wf(1)]) (simp_all add: b(2) o(1))
  moreover have "d < length (snd (cbb_abs c))" using flush_depth [OF _ f] a assms(1) by (simp add: depth_cbb_abs)
  ultimately have "discard_to d (cbb_abs cbb') = discard_to d (cbb_abs c)" using discard_to_top by (cases "cbb_abs c") simp
  moreover have "cbb_wf cbb'" using wf(1) o b(2) by (auto simp: cbb_wf_def buffer_le_def elim: chain_wf_mono)
  ultimately show "cbb_wf cbb' \<and> discard_to d (cbb_abs cbb') = discard_to d (cbb_abs cbb)" using wf(2) by simp
qed

lemma keeps_below_did_write:
  assumes "d < e" "n \<le> SIZE_MAX"
  shows "keeps_below d (CBB_did_write e n)"
  unfolding keeps_below_def
proof (intro allI impI)
  fix cbb v cbb' assume a: "cbb_wf cbb \<and> CBB_did_write e n cbb = (Some v, cbb')"
  then have e: "length (cbb_children cbb) = e" and s: "\<not> size_add (cbb_len (cbb_base cbb)) n < cbb_len (cbb_base cbb)"
    "size_add (cbb_len (cbb_base cbb)) n \<le> cbb_cap (cbb_base cbb)" by (auto simp: CBB_did_write_def Let_def split: if_splits)
  have "cbb_len (cbb_base cbb) \<le> SIZE_MAX" using a by (auto simp: cbb_wf_def buffer_wf_def)
  then have "cbb_len (cbb_base cbb) + n \<le> SIZE_MAX" using s(1) size_add_overflow_iff [OF _ assms(2)] by (meson not_le)
  then have "cbb_len (cbb_base cbb) + n \<le> cbb_cap (cbb_base cbb)" using s(2) by (simp add: size_add_exact)
  from CBB_did_write_spec [OF _ assms(2) e this] a obtain bs where "cbb_wf cbb'" "cbb_abs cbb' = (case cbb_abs cbb of (y, r) \<Rightarrow> (y @ bs, r))" by auto
  moreover have "d < length (snd (cbb_abs cbb))" using e assms(1) by (simp add: depth_cbb_abs)
  ultimately show "cbb_wf cbb' \<and> discard_to d (cbb_abs cbb') = discard_to d (cbb_abs cbb)" using discard_to_top by (cases "cbb_abs cbb") simp
qed

lemma discard_to_discard_to:
  assumes "d < e"
  shows "discard_to d (discard_to e st) = discard_to d st"
proof -
  obtain y r where st: "st = (y, r)" by fastforce
  show ?thesis
  proof (cases "length r \<le> e")
    case True
    then show ?thesis by (simp add: st discard_to_def)
  next
    case False
    let ?r = "drop (length r - e) r"
    have l: "length ?r = e" using False by simp
    have "discard_to d (x, ?r) = (snd (?r ! (e - Suc d)), drop (e - d) ?r)" for x using discard_to_nth [of d ?r x] assms unfolding l by simp
    moreover have "?r ! (e - Suc d) = r ! (length r - Suc d)" "drop (e - d) ?r = drop (length r - d) r" using False assms by simp_all
    ultimately show ?thesis using False assms discard_to_nth [of e r y] discard_to_nth [of d r y] by (simp add: st)
  qed
qed


lemma keeps_below_discard: "d < e \<Longrightarrow> keeps_below d (\<lambda>cbb. (Some (), CBB_discard_child e cbb))"
  unfolding keeps_below_def by (simp add: discard_child_refines discard_to_discard_to)

lemma keeps_below_set_of:
  assumes q: "\<And>cmp xs. mset (qsort cmp xs) = mset xs" and d: "d < e"
  shows "keeps_below d (CBB_flush_asn1_set_of qsort al e)"
  unfolding keeps_below_def
proof (intro allI impI)
  fix cbb v cbb' assume a: "cbb_wf cbb \<and> CBB_flush_asn1_set_of qsort al e cbb = (Some v, cbb')"
  then obtain c where f: "CBB_flush al e cbb = (Some (), c)"
    and c: "cbb' = c \<or> (\<exists>z. length z = CBB_len e c \<and> cbb' = cbb_store (CBB_data e c) z c)"
    using set_of_cases [where qsort = qsort, OF q, of cbb al e "Some v" cbb'] by fastforce
  have k: "cbb_wf c" "discard_to d (cbb_abs c) = discard_to d (cbb_abs cbb)"
    using keeps_below_flush [OF d, of al] a f unfolding keeps_below_def by blast+
  have l: "length (cbb_children c) = e" using flush_depth [OF _ f] a by blast
  have "cbb_wf cbb' \<and> discard_to d (cbb_abs cbb') = discard_to d (cbb_abs c)"
    if z: "length z = CBB_len e c" "cbb' = cbb_store (CBB_data e c) z c" for z
  proof -
    have "d < length (snd (cbb_abs c))" using l d by (simp add: depth_cbb_abs)
    then have "discard_to d (z, snd (cbb_abs c)) = discard_to d (fst (cbb_abs c), snd (cbb_abs c))" by (rule discard_to_top)
    then show ?thesis using innermost_slice(4) [OF k(1) l z(1)] z(2) by simp
  qed
  then show "cbb_wf cbb' \<and> discard_to d (cbb_abs cbb') = discard_to d (cbb_abs cbb)" using c k by auto
qed

lemma keeps_below_oid_loop: "d < e \<Longrightarrow> keeps_below d (oid_from_text_loop al e cbs)"
proof (induction al e cbs rule: oid_from_text_loop.induct)
  case (1 al e cbs)
  show ?case
    by (subst oid_from_text_loop.simps)
      (use 1 in \<open>auto split: prod.splits option.splits intro!: keeps_below_pret keeps_below_bind [OF keeps_below_append [OF add_base128.builder_op_axioms]]\<close>)
qed

lemma keeps_below_oid: "d < e \<Longrightarrow> keeps_below d (CBB_add_asn1_oid_from_text al e text len)"
  unfolding CBB_add_asn1_oid_from_text_def
  by (rule keeps_below_bind [OF keeps_below_flush])
    (auto split: prod.splits option.splits intro!: keeps_below_pret keeps_below_oid_loop keeps_below_bind [OF keeps_below_append [OF add_base128.builder_op_axioms]])

lemma keeps_below_add_u24: "d < e \<Longrightarrow> keeps_below d (CBB_add_u24 al e v)"
proof (cases "unat v < 2 ^ 24")
  case True
  then show "d < e \<Longrightarrow> keeps_below d (CBB_add_u24 al e v)" using keeps_below_append [OF builder_op_add_u24] by blast
next
  case False
  have "256 ^ 3 \<le> unat (ucast v :: u64)"
    using False unat_u32_less [of v] by (simp add: unsigned_ucast_eq take_bit_eq_mod)
  then have "fst (cbb_add_u al e (ucast v) 3 cbb) = None" if "cbb_wf cbb" for cbb
    using cbb_add_u_overflow [OF that, of 3 "ucast v" e al] CBB_flush_stuck [of e cbb al]
    by (cases "cbb_attached e cbb") (auto simp: cbb_add_u_def CBB_add_space_def pbind_def)
  then show ?thesis unfolding keeps_below_def CBB_add_u24_def by (metis fst_conv option.distinct(1))
qed

lemma keeps_below_add_space: "d < e \<Longrightarrow> n \<le> SIZE_MAX \<Longrightarrow> keeps_below d (CBB_add_space al e n)"
  unfolding CBB_add_space_def
proof (erule keeps_below_base)
  fix b :: cbb_buffer and off b' assume n: "n \<le> SIZE_MAX" and b: "buffer_wf b" "cbb_buffer_add al n b = (Some off, b')"
  note s = buffer_add_Some [OF b(1) n b(2)]
  have "buffer_out b' = take (cbb_len b) (buffer_out b') @ drop (cbb_len b) (buffer_out b')" by simp
  also have "take (cbb_len b) (buffer_out b') = buffer_out b" using s by (simp add: buffer_out_def [of b'] min_def)
  finally show "(\<exists>bs. buffer_out b' = buffer_out b @ bs) \<and> buffer_le b b' \<and> cbb_len b \<le> cbb_len b'" using s by auto
qed

lemma keeps_below_reserve: "d < e \<Longrightarrow> n \<le> SIZE_MAX \<Longrightarrow> keeps_below d (CBB_reserve al e n)"
  unfolding CBB_reserve_def by (erule keeps_below_base) (use buffer_reserve_Some in fastforce)

lemma cbb_run_keeps_below:
  assumes q: "\<And>cmp xs. mset (qsort cmp xs) = mset xs" and c: "call_sized c" and d: "d < e"
  shows "keeps_below d (cbb_run qsort al e c)"
proof -
  note a = keeps_below_append [OF builder_op_add_bytes d] keeps_below_append [OF builder_op_add_zeros d]
    keeps_below_append [OF add_u8.builder_op_axioms d] keeps_below_append [OF add_u16.builder_op_axioms d]
    keeps_below_append [OF add_u32.builder_op_axioms d] keeps_below_append [OF add_u64.builder_op_axioms d]
    keeps_below_push [OF add_u8_prefixed.builder_op_axioms d] keeps_below_push [OF add_u16_prefixed.builder_op_axioms d]
    keeps_below_push [OF add_u24_prefixed.builder_op_axioms d] keeps_below_element [OF add_uint64.builder_op_axioms d]
    keeps_below_element [OF add_uint64_tag.builder_op_axioms d] keeps_below_element [OF add_int64.builder_op_axioms d]
    keeps_below_element [OF add_int64_tag.builder_op_axioms d] keeps_below_element [OF builder_op_octet_string d]
    keeps_below_element [OF add_bool.builder_op_axioms d]
  note b = keeps_below_flush [OF d] keeps_below_open [OF d] keeps_below_did_write [OF d] keeps_below_discard [OF d]
    keeps_below_set_of [OF q d] keeps_below_oid [OF d] keeps_below_add_u24 [OF d] keeps_below_add_space [OF d] keeps_below_reserve [OF d]
  show ?thesis
    using c by (cases c) (simp_all add: a b keeps_below_bind keeps_below_pret CBB_add_u16le_def CBB_add_u32le_def CBB_add_u64le_def)
qed

text \<open>The caller writes through a pointer into the contents of the innermost \<open>CBB\<close> or the space behind them.\<close>

lemma store_below:
  assumes wf: "cbb_wf cbb" and e: "length (cbb_children cbb) = e" and d: "d < e"
    and off: "CBB_data e cbb \<le> off" "off + length bs \<le> cbb_cap (cbb_base cbb)"
  shows "discard_to d (cbb_abs (cbb_store off bs cbb)) = discard_to d (cbb_abs cbb)"
proof (cases "cbb_children cbb" rule: rev_cases)
  case (snoc cs c)
  let ?b = "cbb_base cbb" and ?b' = "cbb_base (cbb_store off bs cbb)"
  have start: "child_start c \<le> off" using off(1) e snoc by (auto simp: CBB_data_def)
  then have "take (child_offset c) (buffer_out ?b') = take (child_offset c) (buffer_out ?b)"
    using wf off(2) by (simp add: cbb_store_def buffer_out_def buf_write_def cbb_wf_def buffer_wf_def min_def)
  then have "snd (cbb_abs (cbb_store off bs cbb)) = snd (cbb_abs cbb)"
    unfolding cbb_abs_def by (simp add: snoc cbb_store_def split: prod.splits)
  moreover have "d < length (snd (cbb_abs cbb))" using e d by (simp add: depth_cbb_abs)
  ultimately show ?thesis using discard_to_top [of d "snd (cbb_abs cbb)"] by (metis prod.collapse)
qed (use e d in simp)


section \<open>Reachable builders\<close>

text \<open>
  The builders that initialisation and any calls lead to, each call with an allocator of its own and on any \<open>CBB\<close> of
  the chain, successful or not; the caller may also write into the buffer through the pointers it was given. A
  successful \<open>CBB_finish\<close> ends the life of a builder.
\<close>

inductive builder_reachable :: "qsort_fun \<Rightarrow> CBB \<Rightarrow> bool" for qsort where
  init: "CBB_init al cap = Some cbb \<Longrightarrow> cap \<le> SIZE_MAX \<Longrightarrow> builder_reachable qsort cbb"
| init_fixed: "len \<le> length buf \<Longrightarrow> len \<le> SIZE_MAX \<Longrightarrow> builder_reachable qsort (CBB_init_fixed buf len)"
| call: "builder_reachable qsort cbb \<Longrightarrow> call_sized c \<Longrightarrow> cbb_run qsort al d c cbb = (ret, cbb') \<Longrightarrow> builder_reachable qsort cbb'"
| fill: "builder_reachable qsort cbb \<Longrightarrow> off + length bs \<le> cbb_cap (cbb_base cbb) \<Longrightarrow> builder_reachable qsort (cbb_store off bs cbb)"
| finish_fails: "builder_reachable qsort cbb \<Longrightarrow> CBB_finish_to out_data out_len al d cbb = (None, cbb') \<Longrightarrow> builder_reachable qsort cbb'"

lemma finish_to_None: "CBB_finish_to out_data out_len al d cbb = (None, cbb') \<Longrightarrow> cbb' = cbb \<or> cbb' = snd (CBB_flush al d cbb)"
  by (auto simp: CBB_finish_to_def pbind_def split: if_splits prod.splits option.splits)

text \<open>What can be done to a child of the \<open>CBB\<close> at depth \<open>d\<close> and its descendants by calls that succeed.\<close>

inductive in_child :: "qsort_fun \<Rightarrow> nat \<Rightarrow> CBB \<Rightarrow> CBB \<Rightarrow> bool" for qsort d cbb where
  here: "in_child qsort d cbb cbb"
| call: "in_child qsort d cbb cbb1 \<Longrightarrow> d < e \<Longrightarrow> call_sized c \<Longrightarrow> cbb_run qsort al e c cbb1 = (Some (), cbb2) \<Longrightarrow> in_child qsort d cbb cbb2"
| fill: "in_child qsort d cbb cbb1 \<Longrightarrow> d < e \<Longrightarrow> length (cbb_children cbb1) = e \<Longrightarrow> CBB_data e cbb1 \<le> off \<Longrightarrow>
    off + length bs \<le> cbb_cap (cbb_base cbb1) \<Longrightarrow> in_child qsort d cbb (cbb_store off bs cbb1)"

lemma in_child_below:
  assumes "in_child qsort d cbb cbb'" "\<And>cmp xs. mset (qsort cmp xs) = mset xs" "cbb_wf cbb"
  shows "cbb_wf cbb' \<and> discard_to d (cbb_abs cbb') = discard_to d (cbb_abs cbb)"
  using assms(1)
proof induction
  case (call cbb1 e c al cbb2)
  then show ?case using cbb_run_keeps_below [where qsort = qsort, OF assms(2), of c d e al] unfolding keeps_below_def by metis
next
  case (fill cbb1 e off bs)
  then show ?case using store_below [of cbb1 e d off bs] cbb_wf_store by metis
qed (use assms(3) in simp)

text \<open>The calls that open a child, with the octets they write before its length octets.\<close>

fun child_header :: "cbb_call \<Rightarrow> u8 list option" where
  "child_header U8_length_prefixed = Some []"
| "child_header U16_length_prefixed = Some []"
| "child_header U24_length_prefixed = Some []"
| "child_header (Add_asn1 tag) = Some (der_tag tag)"
| "child_header _ = None"

lemma push_to_flushed: "Option.bind (flush_to d st) (push_to d k) = push_to d k st"
proof (cases "flush_to d st")
  case (Some z)
  then show ?thesis using flush_to_depth [of d st "fst z" "snd z"] flush_to_id [of "snd z" "fst z"] by (simp add: push_to_def)
qed (simp add: push_to_def)

lemma child_header_push:
  assumes "child_header c = Some hdr" "cbb_wf cbb" "cbb_run qsort al d c cbb = (Some (), cbb')"
  shows "cbb_wf cbb' \<and> (\<exists>k. Option.bind (append_to d hdr (cbb_abs cbb)) (push_to d k) = Some (cbb_abs cbb'))"
proof (cases c)
  case U8_length_prefixed
  then show ?thesis using assms add_u8_prefixed.op_Some [OF assms(2)] by (fastforce simp: cbb_le_def append_to_Nil push_to_flushed)
next
  case U16_length_prefixed
  then show ?thesis using assms add_u16_prefixed.op_Some [OF assms(2)] by (fastforce simp: cbb_le_def append_to_Nil push_to_flushed)
next
  case U24_length_prefixed
  then show ?thesis using assms add_u24_prefixed.op_Some [OF assms(2)] by (fastforce simp: cbb_le_def append_to_Nil push_to_flushed)
next
  case (Add_asn1 tag)
  then show ?thesis using assms add_asn1.op_Some [OF assms(2), of al d tag "()" cbb'] by (auto simp: cbb_le_def open_element_def)
qed (use assms(1) in simp_all)

section \<open>Properties\<close>

text \<open>
  C4. The builder invariant. In every builder that initialisation and any sequence of calls of the functions of
  \<^verbatim>\<open>cbb.c\<close> lead to, whether the calls succeed or fail, on any \<^verbatim>\<open>CBB\<close> of the chain, with allocations that may
  fail, and with anything written by the caller into the buffer, the buffer has its capacity, the output fits it, the
  pending children lie in order inside the output, and an ASN.1 child has reserved one length octet. Only a
  successful \<^verbatim>\<open>CBB_finish\<close> ends this: it takes the buffer away. Of \<^verbatim>\<open>qsort\<close> it is assumed that it permutes.
\<close>

theorem CBB_invariant:
  assumes "\<And>cmp xs. mset (qsort cmp xs) = mset xs" "builder_reachable qsort cbb"
  shows "cbb_wf cbb"
  using assms(2)
proof induction
  case (call cbb c al d ret cbb')
  then show ?case using cbb_run_keeps_wf [where qsort = qsort, OF assms(1), of c al d] unfolding keeps_wf_def by (metis snd_conv)
next
  case (finish_fails cbb out_data out_len al d cbb')
  then show ?case using finish_to_None flush.keeps_wf by metis
qed (simp_all add: CBB_init_spec CBB_init_fixed_spec cbb_wf_store)

theorem CBB_invariant_witness:
  "cbb_wf (snd (cbb_run (\<lambda>_ xs. xs) (\<lambda>_. None) 1 (Add_u24 0) (snd (cbb_run (\<lambda>_ xs. xs) (\<lambda>_. None) 0 U8_length_prefixed (CBB_init_fixed [0, 0] 2)))))"
proof -
  have "builder_reachable (\<lambda>_ xs. xs) (CBB_init_fixed [0, 0] 2)" by (rule init_fixed) simp_all
  then have "builder_reachable (\<lambda>_ xs. xs) (snd (cbb_run (\<lambda>_ xs. xs) (\<lambda>_. None) 0 U8_length_prefixed (CBB_init_fixed [0, 0] 2)))"
    by (rule builder_reachable.call [where c = U8_length_prefixed and al = "\<lambda>_. None" and d = 0, OF _ _ surjective_pairing]) simp
  then have "builder_reachable (\<lambda>_ xs. xs) (snd (cbb_run (\<lambda>_ xs. xs) (\<lambda>_. None) 1 (Add_u24 0)
      (snd (cbb_run (\<lambda>_ xs. xs) (\<lambda>_. None) 0 U8_length_prefixed (CBB_init_fixed [0, 0] 2)))))"
    by (rule builder_reachable.call [where c = "Add_u24 0" and al = "\<lambda>_. None" and d = 1, OF _ _ surjective_pairing]) simp
  then show ?thesis by (rule CBB_invariant [rotated]) (rule refl)
qed

text \<open>
  C5. Errors are sticky. Once the error bit of the underlying buffer is set, every call on any \<^verbatim>\<open>CBB\<close> of the chain
  other than \<^verbatim>\<open>CBB_did_write\<close> and \<^verbatim>\<open>CBB_discard_child\<close>, which do not look at the bit, fails and leaves the buffer
  as it is (the writers of whole elements drop their pending child), \<^verbatim>\<open>CBB_finish\<close> hands out nothing whichever pointers
  it is given, and no call clears the bit.
\<close>

theorem CBB_error_sticky:
  assumes "cbb_error (cbb_base cbb)"
  shows "((\<forall>n. c \<noteq> Did_write n) \<and> c \<noteq> Discard_child \<longrightarrow>
      (\<exists>cbb'. cbb_run qsort al d c cbb = (None, cbb') \<and> (cbb' = cbb \<or> cbb' = cbb\<lparr>cbb_children := take d (cbb_children cbb)\<rparr>))) \<and>
    cbb_error (cbb_base (snd (cbb_run qsort al d c cbb))) \<and>
    CBB_finish_to out_data out_len al d cbb = (None, cbb) \<and> CBB_finish al d cbb = (None, cbb)"
proof -
  have f: "CBB_flush al e cbb = (None, cbb)" for e using assms by (simp add: CBB_flush_stuck)
  have o: "cbb_on_error d cbb = cbb\<lparr>cbb_children := take d (cbb_children cbb)\<rparr>" using assms by (cases cbb) (simp add: cbb_on_error_def)
  have a: "CBB_add_asn1 al d tag cbb = (None, cbb)" "cbb_add_u al d v n cbb = (None, cbb)" "cbb_add_length_prefixed al d n cbb = (None, cbb)" for tag v n
    by (simp_all add: CBB_add_asn1_def cbb_add_u_def CBB_add_space_def cbb_add_length_prefixed_def pbind_def f)
  note defs = CBB_add_space_def CBB_reserve_def CBB_add_bytes_def CBB_add_zeros_def CBB_add_u8_def CBB_add_u16_def CBB_add_u16le_def CBB_add_u24_def
    CBB_add_u32_def CBB_add_u32le_def CBB_add_u64_def CBB_add_u64le_def CBB_add_u8_length_prefixed_def CBB_add_u16_length_prefixed_def
    CBB_add_u24_length_prefixed_def CBB_add_asn1_uint64_def CBB_add_asn1_uint64_with_tag_def CBB_add_asn1_int64_def CBB_add_asn1_int64_with_tag_def
    CBB_add_asn1_octet_string_def CBB_add_asn1_bool_def CBB_add_asn1_oid_from_text_def CBB_flush_asn1_set_of_def or_on_error_def
  have r: "\<exists>cbb'. cbb_run qsort al d c cbb = (None, cbb') \<and> (cbb' = cbb \<or> cbb' = cbb\<lparr>cbb_children := take d (cbb_children cbb)\<rparr>)"
    if "\<forall>n. c \<noteq> Did_write n" "c \<noteq> Discard_child"
    using that by (cases c) (simp_all add: defs Let_def pbind_def f a o)
  moreover have "cbb_error (cbb_base (snd (cbb_run qsort al d c cbb)))"
  proof (cases "(\<exists>n. c = Did_write n) \<or> c = Discard_child")
    case True
    then show ?thesis using assms by (auto simp: CBB_did_write_def CBB_discard_child_def Let_def)
  next
    case False
    then show ?thesis using r assms by auto
  qed
  moreover have "CBB_finish_to out_data out_len al d cbb = (None, cbb)" "CBB_finish al d cbb = (None, cbb)"
    by (simp_all add: CBB_finish_to_def CBB_finish_eq pbind_def f)
  ultimately show ?thesis by blast
qed

theorem CBB_error_sticky_witness:
  "\<exists>cbb'. cbb_run (\<lambda>_ xs. xs) (\<lambda>_. None) 0 (Add_asn1_bool True) (cbb_on_error 0 (CBB_init_fixed [0, 0, 0] 3)) = (None, cbb') \<and>
     cbb_error (cbb_base (snd (cbb_run (\<lambda>_ xs. xs) (\<lambda>_. None) 0 (Add_asn1_bool True) (cbb_on_error 0 (CBB_init_fixed [0, 0, 0] 3)))))"
proof -
  have "cbb_error (cbb_base (cbb_on_error 0 (CBB_init_fixed [0, 0, 0] 3)))" by (simp add: cbb_on_error_def)
  from CBB_error_sticky [OF this, of "Add_asn1_bool True"] show ?thesis by blast
qed

text \<open>
  C7. \<^verbatim>\<open>CBB_discard_child\<close> drops the pending child. Open a child of the \<^verbatim>\<open>CBB\<close> at depth \<open>d\<close> with any of the four
  functions that do, make any successful calls on the child and its descendants, write anything into their
  space, and discard the child: neither its length octets nor any of its contents are left. The parent holds what it
  held when its earlier children were closed, followed by the identifier octets when the child was an ASN.1
  element, and the strings around it are unchanged.
\<close>

theorem CBB_discard_child_restores:
  assumes "\<And>cmp xs. mset (qsort cmp xs) = mset xs" "cbb_wf cbb" "child_header c = Some hdr"
    and "cbb_run qsort al d c cbb = (Some (), cbb1)" "in_child qsort d cbb1 cbb2"
  shows "cbb_wf (CBB_discard_child d cbb2) \<and> append_to d hdr (cbb_abs cbb) = Some (cbb_abs (CBB_discard_child d cbb2))"
proof -
  from child_header_push [OF assms(3,2,4)] obtain k y r where wf: "cbb_wf cbb1" and r: "append_to d hdr (cbb_abs cbb) = Some (y, r)"
    and p: "push_to d k (y, r) = Some (cbb_abs cbb1)" by (auto simp: bind_eq_Some_conv)
  have l: "length r = d" using append_to_depth [OF r] by simp
  then have "cbb_abs cbb1 = ([], (k, y) # r)" using p flush_to_id [of r y] by (auto simp: push_to_def)
  then have "discard_to d (cbb_abs cbb1) = (y, r)" using l by (simp add: discard_to_def)
  moreover note in_child_below [OF assms(5,1) wf]
  ultimately show ?thesis using discard_child_refines [of cbb2 d] r by simp
qed

theorem CBB_discard_child_restores_witness:
  "\<exists>cbb1 cbb2. CBB_add_asn1 (\<lambda>_. None) 0 2 (CBB_init_fixed [0, 0, 0, 0] 4) = (Some (), cbb1) \<and>
     CBB_add_bytes (\<lambda>_. None) 1 [9] cbb1 = (Some (), cbb2) \<and>
     append_to 0 (der_tag 2) (cbb_abs (CBB_init_fixed [0, 0, 0, 0] 4)) = Some (cbb_abs (CBB_discard_child 0 cbb2))"
proof -
  let ?al = "\<lambda>_. None" and ?cbb = "CBB_init_fixed [0, 0, 0, 0] 4" and ?qsort = "\<lambda>_ xs. xs"
  have i: "cbb_wf ?cbb" "\<not> cbb_failed ?cbb" "cbb_abs ?cbb = ([], [])" "cbb_cap (cbb_base ?cbb) = 4"
    by (simp_all add: CBB_init_fixed_spec)
  have "open_element 0 2 (cbb_abs ?cbb) = Some ([], [(Asn1_prefix, [2])])"
    by (simp add: i open_element_def append_then_push der_tag_def)
  then obtain c1 where c1: "CBB_add_asn1 ?al 0 2 ?cbb = (Some (), c1)" "cbb_le ?cbb c1" "\<not> cbb_failed c1"
    "cbb_abs c1 = ([], [(Asn1_prefix, [2])])"
    using add_asn1.runs [OF i(1,2), of 0 2 _ ?al] i(4) by (auto simp: fits_def)
  have "append_to 1 [9] (cbb_abs c1) = Some ([9], [(Asn1_prefix, [2])])" by (simp add: c1 append_to_def)
  moreover have "fits ?al (cbb_base c1) (stack_size ([9], [(Asn1_prefix, [2])]))"
    using c1(2) i(4) by (simp add: fits_def cbb_le_def buffer_le_def)
  ultimately obtain c2 where c2: "CBB_add_bytes ?al (Suc 0) [9] c1 = (Some (), c2)"
    using builder_op.runs [OF builder_op_add_bytes, of "[9]" c1 1 _ ?al] c1(2,3) by (auto simp: cbb_le_def)
  have n: "in_child ?qsort 0 c1 c2"
    by (rule in_child.call [OF in_child.here, of 0 1 "Add_bytes [9]" ?qsort ?al]) (simp_all add: c2)
  have "cbb_run ?qsort ?al 0 (Add_asn1 2) ?cbb = (Some (), c1)" using c1(1) by simp
  from CBB_discard_child_restores [OF refl i(1) _ this n, of "der_tag 2"] c1(1) c2 show ?thesis by auto
qed

end
