(* ===== verification/Lhash.thy ===== *)
theory Lhash
  imports Mem "HOL-Library.Multiset"
begin

text \<open>
  The chained hash table of \<^verbatim>\<open>crypto/lhash/lhash.c\<close>.

  A chain is the list of its items. A pointer to the pointer to an item is the position of the item
  in its chain; the position past the end stands for the pointer to the terminating NULL. The hash
  and comparison functions stored in the table, called through the typed helpers, are arguments.
\<close>

section \<open>The table\<close>

record 'p LHASH_ITEM =
  item_data :: 'p
  item_hash :: u32

record 'p lhash_st =
  num_items :: nat
  buckets :: "'p LHASH_ITEM list list"
  num_buckets :: nat
  callback_depth :: u32

abbreviation (input) kMinNumBuckets :: nat where "kMinNumBuckets \<equiv> 16"
abbreviation (input) kMaxAverageChainLength :: nat where "kMaxAverageChainLength \<equiv> 2"
abbreviation (input) kMinAverageChainLength :: nat where "kMinAverageChainLength \<equiv> 1"

definition OPENSSL_lh_new :: "allocator \<Rightarrow> 'p lhash_st option" where
  "OPENSSL_lh_new al =
     (case OPENSSL_zalloc al 48 of
        None \<Rightarrow> None
      | Some _ \<Rightarrow>
          (case OPENSSL_calloc al kMinNumBuckets 8 of
             None \<Rightarrow> None
           | Some _ \<Rightarrow> Some \<lparr>num_items = 0, buckets = replicate kMinNumBuckets [], num_buckets = kMinNumBuckets, callback_depth = 0\<rparr>))"

definition OPENSSL_lh_num_items :: "'p lhash_st \<Rightarrow> nat" where
  "OPENSSL_lh_num_items lh = num_items lh"

fun chain_walk :: "('p \<Rightarrow> bool) \<Rightarrow> 'p LHASH_ITEM list \<Rightarrow> nat" where
  "chain_walk stop [] = 0"
| "chain_walk stop (cur # chain) = (if stop (item_data cur) then 0 else Suc (chain_walk stop chain))"

text \<open>The result is the hash, and the pointer as a bucket and a position in its chain.\<close>

definition get_next_ptr_and_hash :: "('p \<Rightarrow> u32) \<Rightarrow> ('p \<Rightarrow> 'p \<Rightarrow> int) \<Rightarrow> 'p lhash_st \<Rightarrow> 'p \<Rightarrow> u32 \<times> nat \<times> nat" where
  "get_next_ptr_and_hash call_hash call_cmp lh data =
     (let hash = call_hash data; b = unat hash mod num_buckets lh
      in (hash, b, chain_walk (\<lambda>d. call_cmp d data = 0) (buckets lh ! b)))"

definition get_next_ptr_by_key :: "('k \<Rightarrow> 'p \<Rightarrow> int) \<Rightarrow> 'p lhash_st \<Rightarrow> 'k \<Rightarrow> u32 \<Rightarrow> nat \<times> nat" where
  "get_next_ptr_by_key cmp_key lh key key_hash =
     (let b = unat key_hash mod num_buckets lh in (b, chain_walk (\<lambda>d. cmp_key key d = 0) (buckets lh ! b)))"

definition OPENSSL_lh_retrieve :: "('p \<Rightarrow> u32) \<Rightarrow> ('p \<Rightarrow> 'p \<Rightarrow> int) \<Rightarrow> 'p lhash_st \<Rightarrow> 'p \<Rightarrow> 'p option" where
  "OPENSSL_lh_retrieve call_hash call_cmp lh data =
     (case get_next_ptr_and_hash call_hash call_cmp lh data of
        (_, b, i) \<Rightarrow> if i = length (buckets lh ! b) then None else Some (item_data (buckets lh ! b ! i)))"

definition OPENSSL_lh_retrieve_key :: "('k \<Rightarrow> 'p \<Rightarrow> int) \<Rightarrow> 'p lhash_st \<Rightarrow> 'k \<Rightarrow> u32 \<Rightarrow> 'p option" where
  "OPENSSL_lh_retrieve_key cmp_key lh key key_hash =
     (case get_next_ptr_by_key cmp_key lh key key_hash of
        (b, i) \<Rightarrow> if i = length (buckets lh ! b) then None else Some (item_data (buckets lh ! b ! i)))"

text \<open>Moving the items: every item, in the order of the old buckets, becomes the head of its new chain.\<close>

fun rebucket_items :: "nat \<Rightarrow> 'p LHASH_ITEM list \<Rightarrow> 'p LHASH_ITEM list list \<Rightarrow> 'p LHASH_ITEM list list" where
  "rebucket_items n [] new_buckets = new_buckets"
| "rebucket_items n (cur # items) new_buckets =
     (let new_bucket = unat (item_hash cur) mod n
      in rebucket_items n items (new_buckets[new_bucket := cur # new_buckets ! new_bucket]))"

definition lh_rebucket :: "allocator \<Rightarrow> nat \<Rightarrow> 'p lhash_st \<Rightarrow> 'p lhash_st" where
  "lh_rebucket al new_num_buckets lh =
     (let alloc_size = size_mul 8 new_num_buckets
      in if alloc_size div 8 \<noteq> new_num_buckets then lh
         else case OPENSSL_zalloc al alloc_size of
                None \<Rightarrow> lh
              | Some _ \<Rightarrow>
                  lh\<lparr>buckets := rebucket_items new_num_buckets (concat (buckets lh)) (replicate new_num_buckets []),
                     num_buckets := new_num_buckets\<rparr>)"

definition lh_maybe_resize :: "allocator \<Rightarrow> 'p lhash_st \<Rightarrow> 'p lhash_st" where
  "lh_maybe_resize al lh =
     (if callback_depth lh > 0 then lh
      else let avg_chain_length = num_items lh div num_buckets lh
           in if avg_chain_length > kMaxAverageChainLength
              then let new_num_buckets = size_mul (num_buckets lh) 2
                   in if new_num_buckets > num_buckets lh then lh_rebucket al new_num_buckets lh else lh
              else if avg_chain_length < kMinAverageChainLength \<and> num_buckets lh > kMinNumBuckets
              then let new_num_buckets = num_buckets lh div 2;
                       new_num_buckets = (if new_num_buckets < kMinNumBuckets then kMinNumBuckets else new_num_buckets)
                   in lh_rebucket al new_num_buckets lh
              else lh)"

text \<open>The result is the return value, \<open>*old_data\<close> (\<open>None\<close> for NULL) and the table.\<close>

definition OPENSSL_lh_insert ::
  "allocator \<Rightarrow> ('p \<Rightarrow> u32) \<Rightarrow> ('p \<Rightarrow> 'p \<Rightarrow> int) \<Rightarrow> 'p lhash_st \<Rightarrow> 'p \<Rightarrow> bool \<times> 'p option \<times> 'p lhash_st" where
  "OPENSSL_lh_insert al call_hash call_cmp lh data =
     (case get_next_ptr_and_hash call_hash call_cmp lh data of
        (hash, b, i) \<Rightarrow>
          (let chain = buckets lh ! b
           in if i \<noteq> length chain
              then (True, Some (item_data (chain ! i)),
                    lh\<lparr>buckets := (buckets lh)[b := chain[i := (chain ! i)\<lparr>item_data := data\<rparr>]]\<rparr>)
              else case OPENSSL_zalloc al 24 of
                     None \<Rightarrow> (False, None, lh)
                   | Some _ \<Rightarrow>
                       (let item = \<lparr>item_data = data, item_hash = hash\<rparr>;
                            lh = lh\<lparr>buckets := (buckets lh)[b := chain @ [item]], num_items := size_add (num_items lh) 1\<rparr>
                        in (True, None, lh_maybe_resize al lh))))"

definition OPENSSL_lh_delete ::
  "allocator \<Rightarrow> ('p \<Rightarrow> u32) \<Rightarrow> ('p \<Rightarrow> 'p \<Rightarrow> int) \<Rightarrow> 'p lhash_st \<Rightarrow> 'p \<Rightarrow> 'p option \<times> 'p lhash_st" where
  "OPENSSL_lh_delete al call_hash call_cmp lh data =
     (case get_next_ptr_and_hash call_hash call_cmp lh data of
        (_, b, i) \<Rightarrow>
          (let chain = buckets lh ! b
           in if i = length chain then (None, lh)
              else let lh = lh\<lparr>buckets := (buckets lh)[b := take i chain @ drop (Suc i) chain], num_items := num_items lh - 1\<rparr>
                   in (Some (item_data (chain ! i)), lh_maybe_resize al lh)))"

text \<open>A callback that works on its argument and does not change the table.\<close>

definition OPENSSL_lh_doall_arg :: "allocator \<Rightarrow> 'p lhash_st option \<Rightarrow> ('p \<Rightarrow> 'a \<Rightarrow> 'a) \<Rightarrow> 'a \<Rightarrow> 'a \<times> 'p lhash_st option" where
  "OPENSSL_lh_doall_arg al lh func arg =
     (case lh of
        None \<Rightarrow> (arg, None)
      | Some lh \<Rightarrow>
          (let lh = (if callback_depth lh < - 1 then lh\<lparr>callback_depth := callback_depth lh + 1\<rparr> else lh);
               arg = fold (\<lambda>cur arg. func (item_data cur) arg) (concat (buckets lh)) arg;
               lh = (if callback_depth lh < - 1 then lh\<lparr>callback_depth := callback_depth lh - 1\<rparr> else lh)
           in (arg, Some (lh_maybe_resize al lh))))"

section \<open>Keys\<close>

text \<open>
  What the table needs of its two functions: equality by the comparison function is an
  equivalence, and equal data have equal hashes.
\<close>

locale lh_functions =
  fixes hash :: "'p \<Rightarrow> u32" and cmp :: "'p \<Rightarrow> 'p \<Rightarrow> int"
  assumes cmp_refl: "cmp x x = 0"
    and cmp_sym: "cmp x y = 0 \<Longrightarrow> cmp y x = 0"
    and cmp_trans: "cmp x y = 0 \<Longrightarrow> cmp y z = 0 \<Longrightarrow> cmp x z = 0"
    and hash_cmp: "cmp x y = 0 \<Longrightarrow> hash x = hash y"

text \<open>A pairwise symmetric relation does not depend on the order.\<close>

lemma sorted_wrt_mset:
  assumes "\<And>x y. R x y \<Longrightarrow> R y x" "mset xs = mset ys"
  shows "sorted_wrt R xs \<Longrightarrow> sorted_wrt R ys"
  using assms(2)
proof (induction xs arbitrary: ys)
  case (Cons x xs)
  from Cons.prems(2) have "x \<in> set ys" by (metis list.set_intros(1) set_mset_mset)
  then obtain as bs where ys: "ys = as @ x # bs" by (auto simp: in_set_conv_decomp)
  with Cons.prems(2) have m: "mset xs = mset (as @ bs)" by simp
  then have s: "set xs = set as \<union> set bs" by (metis set_append set_mset_mset)
  from Cons.IH [OF _ m] Cons.prems(1) have "sorted_wrt R (as @ bs)" by simp
  with Cons.prems(1) s assms(1) show ?case unfolding ys by (auto simp: sorted_wrt_append)
qed simp

lemma chain_walk_le: "chain_walk stop chain \<le> length chain"
  by (induction chain) auto

lemma chain_walk_stop: "chain_walk stop chain < length chain \<Longrightarrow> stop (item_data (chain ! chain_walk stop chain))"
  by (induction chain) (auto split: if_splits)

lemma chain_walk_before: "j < chain_walk stop chain \<Longrightarrow> \<not> stop (item_data (chain ! j))"
  by (induction chain arbitrary: j) (auto simp: nth_Cons' split: if_splits)

lemma chain_walk_end: "chain_walk stop chain = length chain \<longleftrightarrow> (\<forall>it \<in> set chain. \<not> stop (item_data it))"
  by (induction chain) auto

lemma mset_concat_update:
  assumes "b < length bs" "mset (bs ! b) = m + r" "mset chain = m' + r"
  shows "mset (concat (bs[b := chain])) + m = mset (concat bs) + m'"
proof -
  have "concat bs = concat (take b bs) @ bs ! b @ concat (drop (Suc b) bs)"
    using assms(1) by (metis id_take_nth_drop concat.simps(2) concat_append)
  moreover have "mset (concat (bs[b := chain])) = mset (concat (take b bs)) + mset chain + mset (concat (drop (Suc b) bs))"
    using assms(1) by (simp add: upd_conv_take_nth_drop)
  ultimately show ?thesis using assms(2,3) by (simp add: ac_simps)
qed

section \<open>Rebucketing\<close>

lemma rebucket_items_mset:
  assumes "0 < n" "length nb = n"
  shows "length (rebucket_items n items nb) = n"
    and "mset (concat (rebucket_items n items nb)) = mset items + mset (concat nb)"
    and "\<forall>b < n. \<forall>it \<in> set (nb ! b). unat (item_hash it) mod n = b \<Longrightarrow>
      \<forall>b < n. \<forall>it \<in> set (rebucket_items n items nb ! b). unat (item_hash it) mod n = b"
proof -
  show "length (rebucket_items n items nb) = n" using assms(2)
    by (induction items arbitrary: nb) (simp_all add: Let_def)
  show "mset (concat (rebucket_items n items nb)) = mset items + mset (concat nb)" using assms(2)
  proof (induction items arbitrary: nb)
    case (Cons it items)
    let ?b = "unat (item_hash it) mod n"
    have "?b < length nb" using assms(1) Cons.prems by simp
    from mset_concat_update [OF this, of "{#}" "mset (nb ! ?b)" "it # nb ! ?b" "{#it#}"] Cons show ?case
      by (simp add: Let_def)
  qed simp
  show "\<forall>b < n. \<forall>it \<in> set (rebucket_items n items nb ! b). unat (item_hash it) mod n = b"
    if "\<forall>b < n. \<forall>it \<in> set (nb ! b). unat (item_hash it) mod n = b" using assms(2) that
  proof (induction items arbitrary: nb)
    case (Cons it items)
    let ?b = "unat (item_hash it) mod n"
    have "\<forall>b < n. \<forall>x \<in> set (nb[?b := it # nb ! ?b] ! b). unat (item_hash x) mod n = b"
      using Cons.prems by (auto simp: nth_list_update)
    moreover have "length (nb[?b := it # nb ! ?b]) = n" using Cons.prems(1) by simp
    ultimately show ?case unfolding rebucket_items.simps Let_def by (intro Cons.IH)
  qed simp
qed

text \<open>The part of the invariant that does not depend on how the items are spread.\<close>

definition items_ok :: "('p \<Rightarrow> u32) \<Rightarrow> ('p \<Rightarrow> 'p \<Rightarrow> int) \<Rightarrow> 'p LHASH_ITEM multiset \<Rightarrow> bool" where
  "items_ok hash cmp M \<longleftrightarrow> (\<forall>it \<in># M. item_hash it = hash (item_data it)) \<and>
     (\<exists>xs. mset xs = M \<and> sorted_wrt (\<lambda>x y. cmp (item_data x) (item_data y) \<noteq> 0) xs)"

definition spread_ok :: "'p LHASH_ITEM list list \<Rightarrow> bool" where
  "spread_ok bs \<longleftrightarrow> kMinNumBuckets \<le> length bs \<and> length bs \<le> SIZE_MAX \<and>
     (\<forall>b < length bs. \<forall>it \<in> set (bs ! b). unat (item_hash it) mod length bs = b)"

definition lh_wf :: "('p \<Rightarrow> u32) \<Rightarrow> ('p \<Rightarrow> 'p \<Rightarrow> int) \<Rightarrow> 'p lhash_st \<Rightarrow> bool" where
  "lh_wf hash cmp lh \<longleftrightarrow> length (buckets lh) = num_buckets lh \<and> spread_ok (buckets lh) \<and>
     items_ok hash cmp (mset (concat (buckets lh))) \<and> num_items lh = length (concat (buckets lh))"

definition lh_data :: "'p lhash_st \<Rightarrow> 'p set" where
  "lh_data lh = item_data ` set (concat (buckets lh))"

lemma rebucket_keeps:
  assumes "lh_wf hash cmp lh" "kMinNumBuckets \<le> n" "n \<le> SIZE_MAX"
  shows "lh_wf hash cmp (lh_rebucket al n lh)" "lh_data (lh_rebucket al n lh) = lh_data lh"
proof -
  have n: "0 < n" using assms(2) by simp
  let ?bs = "rebucket_items n (concat (buckets lh)) (replicate n [])"
  have empty: "concat (replicate n []) = ([] :: 'a LHASH_ITEM list)" by (induction n) auto
  note r = rebucket_items_mset [of n "replicate n []" "concat (buckets lh)", OF n length_replicate, unfolded empty]
  have m: "mset (concat ?bs) = mset (concat (buckets lh))" using r(2) by simp
  have "spread_ok ?bs" using r(1,3) assms(2,3) by (simp add: spread_ok_def)
  moreover have "length (concat ?bs) = length (concat (buckets lh))" using m by (metis size_mset)
  ultimately have wf: "lh_wf hash cmp (lh\<lparr>buckets := ?bs, num_buckets := n\<rparr>)"
    using assms(1) r(1) m by (simp add: lh_wf_def)
  have "set (concat ?bs) = set (concat (buckets lh))" using m by (metis set_mset_mset)
  then have "lh_data (lh\<lparr>buckets := ?bs, num_buckets := n\<rparr>) = lh_data lh" by (simp add: lh_data_def)
  with wf assms(1) show "lh_wf hash cmp (lh_rebucket al n lh)" "lh_data (lh_rebucket al n lh) = lh_data lh"
    by (auto simp: lh_rebucket_def Let_def split: option.split)
qed

lemma resize_keeps:
  assumes "lh_wf hash cmp lh"
  shows "lh_wf hash cmp (lh_maybe_resize al lh)" "lh_data (lh_maybe_resize al lh) = lh_data lh"
    "callback_depth (lh_maybe_resize al lh) = callback_depth lh" "num_items (lh_maybe_resize al lh) = num_items lh"
proof -
  have nb: "16 \<le> num_buckets lh" "num_buckets lh \<le> SIZE_MAX" using assms by (auto simp: lh_wf_def spread_ok_def)
  have d: "size_mul (num_buckets lh) 2 \<le> SIZE_MAX" by (simp add: size_mul_def)
  show "lh_wf hash cmp (lh_maybe_resize al lh)" "lh_data (lh_maybe_resize al lh) = lh_data lh"
    using nb d rebucket_keeps [OF assms, of "size_mul (num_buckets lh) 2" al] assms
      rebucket_keeps [OF assms, of "if num_buckets lh div 2 < 16 then 16 else num_buckets lh div 2" al]
    by (auto simp: lh_maybe_resize_def Let_def)
  show "callback_depth (lh_maybe_resize al lh) = callback_depth lh" "num_items (lh_maybe_resize al lh) = num_items lh"
    by (simp_all add: lh_maybe_resize_def lh_rebucket_def Let_def split: option.split)
qed

section \<open>Lookup, insertion and deletion\<close>

lemma lh_wf_bucket:
  assumes "lh_wf hash cmp lh"
  shows "unat (h :: u32) mod num_buckets lh < length (buckets lh)"
  using assms by (simp add: lh_wf_def spread_ok_def)

context lh_functions
begin

lemma items_pairwise:
  assumes "items_ok hash cmp (mset xs)"
  shows "sorted_wrt (\<lambda>x y. cmp (item_data x) (item_data y) \<noteq> 0) xs"
proof -
  from assms obtain ys where "mset ys = mset xs" "sorted_wrt (\<lambda>x y. cmp (item_data x) (item_data y) \<noteq> 0) ys"
    by (auto simp: items_ok_def)
  then show ?thesis using cmp_sym by (elim sorted_wrt_mset [rotated 2]) auto
qed

text \<open>At most one item of the table is equal to a given one.\<close>

lemma items_unique:
  assumes "items_ok hash cmp M" "x \<in># M" "y \<in># M - {#x#}"
  shows "cmp (item_data x) (item_data y) \<noteq> 0"
proof -
  from assms(2,3) obtain zs where M: "M = mset (x # y # zs)"
    by (metis ex_mset insert_DiffM mset.simps(2))
  from items_pairwise [OF assms(1) [unfolded M]] show ?thesis by simp
qed

lemma items_ok_minus: "items_ok hash cmp (add_mset x M) \<Longrightarrow> items_ok hash cmp M"
proof -
  assume ok: "items_ok hash cmp (add_mset x M)"
  obtain zs where M: "M = mset zs" by (metis ex_mset)
  from items_pairwise [of "x # zs"] ok have "sorted_wrt (\<lambda>x y. cmp (item_data x) (item_data y) \<noteq> 0) zs" by (simp add: M)
  with ok show ?thesis unfolding items_ok_def M by auto
qed

lemma items_ok_add:
  assumes "items_ok hash cmp M" "item_hash it = hash (item_data it)" "\<And>x. x \<in># M \<Longrightarrow> cmp (item_data x) (item_data it) \<noteq> 0"
  shows "items_ok hash cmp (add_mset it M)"
proof -
  obtain zs where M: "M = mset zs" by (metis ex_mset)
  have "\<forall>z \<in> set zs. cmp (item_data it) (item_data z) \<noteq> 0" using assms(3) cmp_sym by (auto simp: M)
  moreover note items_pairwise [OF assms(1) [unfolded M]]
  ultimately have "sorted_wrt (\<lambda>x y. cmp (item_data x) (item_data y) \<noteq> 0) (it # zs)" by simp
  moreover have "mset (it # zs) = add_mset it M" by (simp add: M)
  moreover have "\<forall>x \<in># add_mset it M. item_hash x = hash (item_data x)" using assms(1,2) by (auto simp: items_ok_def)
  ultimately show ?thesis unfolding items_ok_def by blast
qed

text \<open>Data equal to \<open>x\<close> can only be in the bucket that is searched.\<close>

lemma in_bucket:
  assumes "lh_wf hash cmp lh" "it \<in> set (concat (buckets lh))" "cmp (item_data it) x = 0"
  shows "it \<in> set (buckets lh ! (unat (hash x) mod num_buckets lh))"
proof -
  from assms(2) obtain c where "c \<in> set (buckets lh)" "it \<in> set c" by auto
  then obtain b where b: "b < length (buckets lh)" "it \<in> set (buckets lh ! b)" by (metis in_set_conv_nth)
  have "item_hash it = hash x" using assms hash_cmp by (auto simp: lh_wf_def items_ok_def)
  moreover have "unat (item_hash it) mod num_buckets lh = b" using assms(1) b by (auto simp: lh_wf_def spread_ok_def)
  ultimately show ?thesis using b by simp
qed

lemma retrieve_iff:
  assumes "lh_wf hash cmp lh"
  shows "OPENSSL_lh_retrieve hash cmp lh x = Some d \<longleftrightarrow> d \<in> lh_data lh \<and> cmp d x = 0"
proof -
  let ?b = "unat (hash x) mod num_buckets lh"
  let ?chain = "buckets lh ! ?b" and ?stop = "\<lambda>d. cmp d x = 0"
  let ?i = "chain_walk ?stop ?chain"
  have ret: "OPENSSL_lh_retrieve hash cmp lh x = (if ?i = length ?chain then None else Some (item_data (?chain ! ?i)))"
    by (simp add: OPENSSL_lh_retrieve_def get_next_ptr_and_hash_def Let_def)
  have sub: "set ?chain \<subseteq> set (concat (buckets lh))" using nth_mem [OF lh_wf_bucket [OF assms, of "hash x"]] by auto
  show ?thesis
  proof (cases "?i = length ?chain")
    case True
    then have "\<forall>it \<in> set ?chain. cmp (item_data it) x \<noteq> 0" unfolding chain_walk_end .
    then have "\<not> (d \<in> lh_data lh \<and> cmp d x = 0)" using in_bucket [OF assms, of _ x] unfolding lh_data_def by blast
    with True ret show ?thesis by simp
  next
    case False
    then have i: "?i < length ?chain" using chain_walk_le [of ?stop ?chain] by simp
    let ?it = "?chain ! ?i"
    have it: "?it \<in> set (concat (buckets lh))" "cmp (item_data ?it) x = 0"
      using i sub chain_walk_stop [OF i] by (auto simp del: set_concat)
    have "item_data y = item_data ?it" if y: "y \<in> set (concat (buckets lh))" "cmp (item_data y) x = 0" for y
    proof (rule ccontr)
      assume "item_data y \<noteq> item_data ?it"
      then have "y \<noteq> ?it" by auto
      then have "y \<in># mset (concat (buckets lh)) - {#?it#}" using y(1) by (simp add: in_diff_count del: set_concat mset_concat)
      then have "cmp (item_data ?it) (item_data y) \<noteq> 0"
        using assms it(1) by (intro items_unique) (auto simp: lh_wf_def simp del: set_concat)
      with it(2) y(2) show False using cmp_sym cmp_trans by blast
    qed
    then have "d \<in> lh_data lh \<and> cmp d x = 0 \<longleftrightarrow> d = item_data ?it" using it unfolding lh_data_def by blast
    with False ret show ?thesis by auto
  qed
qed

lemma retrieve_None_iff:
  assumes "lh_wf hash cmp lh"
  shows "OPENSSL_lh_retrieve hash cmp lh x = None \<longleftrightarrow> (\<forall>d \<in> lh_data lh. cmp d x \<noteq> 0)"
  using retrieve_iff [OF assms, of x] by (cases "OPENSSL_lh_retrieve hash cmp lh x") auto

text \<open>
  Replacing the chain of a bucket: the items \<open>out\<close> leave it, the items \<open>new\<close> enter it, and the
  table with the new number of items stays well formed.
\<close>

lemma lh_update:
  assumes wf: "lh_wf hash cmp lh" and b: "b < num_buckets lh"
    and chain: "mset (buckets lh ! b) = out + r" "mset chain = new + r"
    and spread: "\<forall>it \<in># new. unat (item_hash it) mod num_buckets lh = b"
    and ok: "\<And>R. items_ok hash cmp (out + R) \<Longrightarrow> mset (concat (buckets lh)) = out + R \<Longrightarrow> items_ok hash cmp (new + R)"
    and n: "n + size out = num_items lh + size new"
  defines "lh' \<equiv> lh\<lparr>buckets := (buckets lh)[b := chain], num_items := n\<rparr>"
  shows "lh_wf hash cmp lh'" "mset (concat (buckets lh')) + out = mset (concat (buckets lh)) + new"
proof -
  have lb: "b < length (buckets lh)" using wf b by (simp add: lh_wf_def)
  show m: "mset (concat (buckets lh')) + out = mset (concat (buckets lh)) + new"
    using mset_concat_update [OF lb chain] by (simp add: lh'_def)
  have "out \<subseteq># mset (concat (buckets lh))"
  proof -
    have "mset (buckets lh ! b) \<subseteq># mset (concat (buckets lh))"
      using lb by (metis concat.simps(2) concat_append id_take_nth_drop mset_append mset_subset_eq_add_left subset_mset.add_increasing subset_mset.zero_le)
    then show ?thesis using chain(1) by (metis mset_subset_eq_add_left subset_mset.order_trans)
  qed
  then obtain R where R: "mset (concat (buckets lh)) = out + R" by (metis subset_mset.le_iff_add)
  with m have R': "mset (concat (buckets lh')) = new + R" by (simp add: ac_simps)
  have "items_ok hash cmp (mset (concat (buckets lh')))" unfolding R' using wf R by (intro ok) (auto simp: lh_wf_def)
  moreover have "length (concat (buckets lh')) = n"
  proof -
    have "size (mset (concat (buckets lh'))) + size out = size (mset (concat (buckets lh))) + size new"
      using arg_cong [OF m, of size] by simp
    with wf n show ?thesis by (simp add: lh_wf_def size_mset)
  qed
  moreover have "spread_ok (buckets lh')"
  proof -
    have "set chain \<subseteq> set_mset new \<union> set (buckets lh ! b)"
      using chain by (metis Un_iff set_mset_mset set_mset_union subsetI)
    then show ?thesis using wf spread lb by (auto simp: lh'_def spread_ok_def lh_wf_def nth_list_update)
  qed
  ultimately show "lh_wf hash cmp lh'" using wf by (simp add: lh_wf_def lh'_def)
qed

lemma lh_data_mset: "mset (concat (buckets lh)) = M \<Longrightarrow> lh_data lh = item_data ` set_mset M"
  unfolding lh_data_def by (metis set_mset_mset)

text \<open>The data other than those equal to \<open>x\<close>, once the item found for \<open>x\<close> is taken out.\<close>

lemma data_without:
  assumes "lh_wf hash cmp lh" "mset (concat (buckets lh)) = add_mset it R" "cmp (item_data it) x = 0"
  shows "{d \<in> lh_data lh. cmp d x \<noteq> 0} = item_data ` set_mset R"
proof -
  have "items_ok hash cmp (add_mset it R)" using assms(1,2) by (simp add: lh_wf_def)
  then have "cmp (item_data it) (item_data y) \<noteq> 0" if "y \<in># R" for y using items_unique [of "add_mset it R" it y] that by simp
  then have "cmp (item_data y) x \<noteq> 0" if "y \<in># R" for y using that assms(3) cmp_sym cmp_trans by blast
  then show ?thesis using assms(3) unfolding lh_data_mset [OF assms(2)] by auto
qed

lemma found_item:
  assumes "lh_wf hash cmp lh" "get_next_ptr_and_hash hash cmp lh x = (h, b, i)"
  shows "h = hash x" "b = unat (hash x) mod num_buckets lh" "b < num_buckets lh" "i \<le> length (buckets lh ! b)"
    "i < length (buckets lh ! b) \<Longrightarrow> cmp (item_data (buckets lh ! b ! i)) x = 0"
    "OPENSSL_lh_retrieve hash cmp lh x = (if i = length (buckets lh ! b) then None else Some (item_data (buckets lh ! b ! i)))"
    "mset (concat (buckets lh)) = mset (buckets lh ! b) + (mset (concat (buckets lh)) - mset (buckets lh ! b))"
proof -
  have e: "h = hash x" "b = unat (hash x) mod num_buckets lh" "i = chain_walk (\<lambda>d. cmp d x = 0) (buckets lh ! b)"
    using assms(2) by (auto simp: get_next_ptr_and_hash_def Let_def)
  show "h = hash x" "b = unat (hash x) mod num_buckets lh" by fact+
  show b: "b < num_buckets lh" using assms(1) lh_wf_bucket [OF assms(1), of "hash x"] by (simp add: e(2) lh_wf_def)
  show "i \<le> length (buckets lh ! b)" unfolding e(3) by (rule chain_walk_le)
  show "cmp (item_data (buckets lh ! b ! i)) x = 0" if "i < length (buckets lh ! b)"
    using that chain_walk_stop [of "\<lambda>d. cmp d x = 0" "buckets lh ! b"] unfolding e(3) by simp
  show "OPENSSL_lh_retrieve hash cmp lh x = (if i = length (buckets lh ! b) then None else Some (item_data (buckets lh ! b ! i)))"
    by (simp add: OPENSSL_lh_retrieve_def assms(2))
  have "buckets lh ! b \<in> set (buckets lh)" using b assms(1) by (simp add: lh_wf_def)
  then have "mset (buckets lh ! b) \<subseteq># mset (concat (buckets lh))"
    by (metis concat.simps(2) concat_append in_set_conv_decomp mset_append mset_subset_eq_add_left subset_mset.add_increasing subset_mset.zero_le)
  then show "mset (concat (buckets lh)) = mset (buckets lh ! b) + (mset (concat (buckets lh)) - mset (buckets lh ! b))" by simp
qed

lemma found_split:
  assumes wf: "lh_wf hash cmp lh" and g: "get_next_ptr_and_hash hash cmp lh x = (h, b, i)" and i: "i < length (buckets lh ! b)"
  obtains R where "mset (buckets lh ! b) = {#buckets lh ! b ! i#} + mset (take i (buckets lh ! b) @ drop (Suc i) (buckets lh ! b))"
    "mset (concat (buckets lh)) = add_mset (buckets lh ! b ! i) R" "num_items lh = Suc (size R)"
proof -
  let ?chain = "buckets lh ! b"
  let ?it = "?chain ! i" and ?c = "take i ?chain @ drop (Suc i) ?chain"
  have "mset ?chain = mset (take i ?chain @ ?it # drop (Suc i) ?chain)" using i by (intro arg_cong [where f = mset] id_take_nth_drop)
  also have "\<dots> = {#?it#} + mset ?c" by simp
  finally have c: "mset ?chain = {#?it#} + mset ?c" .
  obtain X where X: "mset (concat (buckets lh)) = mset ?chain + X" using found_item(7) [OF wf g] by blast
  define R where "R = mset ?c + X"
  have R: "mset (concat (buckets lh)) = add_mset ?it R" using X unfolding c R_def by simp
  have "length (concat (buckets lh)) = Suc (size R)" using arg_cong [OF R, of size] by (simp only: size_mset size_add_mset)
  then have "num_items lh = Suc (size R)" using wf by (simp only: lh_wf_def)
  with c R that show thesis by blast
qed

lemma delete_spec:
  assumes wf: "lh_wf hash cmp lh" and run: "OPENSSL_lh_delete al hash cmp lh x = (d, lh')"
  shows "d = OPENSSL_lh_retrieve hash cmp lh x" "lh_wf hash cmp lh'" "lh_data lh' = {d \<in> lh_data lh. cmp d x \<noteq> 0}"
    "num_items lh' = (if d = None then num_items lh else num_items lh - 1)"
proof -
  obtain h b i where g: "get_next_ptr_and_hash hash cmp lh x = (h, b, i)" by (metis prod_cases3)
  note f = found_item [OF wf g]
  let ?chain = "buckets lh ! b"
  have "d = OPENSSL_lh_retrieve hash cmp lh x \<and> lh_wf hash cmp lh' \<and> lh_data lh' = {d \<in> lh_data lh. cmp d x \<noteq> 0} \<and>
    num_items lh' = (if d = None then num_items lh else num_items lh - 1)"
  proof (cases "i = length ?chain")
    case True
    with run g have "d = None" "lh' = lh" by (auto simp: OPENSSL_lh_delete_def)
    with True f(6) wf retrieve_None_iff [OF wf, of x] show ?thesis by auto
  next
    case False
    then have i: "i < length ?chain" using f(4) by simp
    let ?it = "?chain ! i" and ?c = "take i ?chain @ drop (Suc i) ?chain"
    let ?lh = "lh\<lparr>buckets := (buckets lh)[b := ?c], num_items := num_items lh - 1\<rparr>"
    obtain R where c: "mset ?chain = {#?it#} + mset ?c" and R: "mset (concat (buckets lh)) = add_mset ?it R"
      and "num_items lh = Suc (size R)" using found_split [OF wf g i] .
    then have "0 < num_items lh" by simp
    then have n: "num_items lh - 1 + size {#?it#} = num_items lh + size {#}" by simp
    have "mset ?c = {#} + mset ?c" by simp
    note u = lh_update [OF wf f(3) c this _ _ n]
    have wf': "lh_wf hash cmp ?lh" by (rule u(1)) (auto intro: items_ok_minus)
    have "mset (concat (buckets ?lh)) + {#?it#} = mset (concat (buckets lh)) + {#}"
      by (rule u(2)) (auto intro: items_ok_minus)
    then have "mset (concat (buckets ?lh)) = R" using R by simp
    from lh_data_mset [OF this] data_without [OF wf R f(5) [OF i]] have "lh_data ?lh = {d \<in> lh_data lh. cmp d x \<noteq> 0}" by simp
    moreover have "d = Some (item_data ?it)" "lh' = lh_maybe_resize al ?lh"
      using run g False by (auto simp: OPENSSL_lh_delete_def Let_def)
    ultimately show ?thesis using f(6) False resize_keeps [OF wf', of al] by simp
  qed
  then show "d = OPENSSL_lh_retrieve hash cmp lh x" "lh_wf hash cmp lh'" "lh_data lh' = {d \<in> lh_data lh. cmp d x \<noteq> 0}"
    "num_items lh' = (if d = None then num_items lh else num_items lh - 1)" by blast+
qed

lemma insert_spec:
  assumes wf: "lh_wf hash cmp lh" and run: "OPENSSL_lh_insert al hash cmp lh x = (ok, old, lh')" and n: "num_items lh < SIZE_MAX"
  shows "old = OPENSSL_lh_retrieve hash cmp lh x"
    "ok \<Longrightarrow> lh_wf hash cmp lh' \<and> lh_data lh' = insert x {d \<in> lh_data lh. cmp d x \<noteq> 0} \<and>
      num_items lh' = (if old = None then num_items lh + 1 else num_items lh)"
    "\<not> ok \<Longrightarrow> lh' = lh \<and> old = None \<and> OPENSSL_zalloc al 24 = None"
proof -
  obtain h b i where g: "get_next_ptr_and_hash hash cmp lh x = (h, b, i)" by (metis prod_cases3)
  note f = found_item [OF wf g]
  let ?chain = "buckets lh ! b"
  have "old = OPENSSL_lh_retrieve hash cmp lh x \<and>
    (ok \<longrightarrow> lh_wf hash cmp lh' \<and> lh_data lh' = insert x {d \<in> lh_data lh. cmp d x \<noteq> 0} \<and>
      num_items lh' = (if old = None then num_items lh + 1 else num_items lh)) \<and>
    (\<not> ok \<longrightarrow> lh' = lh \<and> old = None \<and> OPENSSL_zalloc al 24 = None)"
  proof (cases "i = length ?chain")
    case False
    then have i: "i < length ?chain" using f(4) by simp
    let ?it = "?chain ! i" and ?c = "take i ?chain @ drop (Suc i) ?chain"
    let ?new = "?it\<lparr>item_data := x\<rparr>"
    let ?lh = "lh\<lparr>buckets := (buckets lh)[b := ?chain[i := ?new]]\<rparr>"
    obtain R where c: "mset ?chain = {#?it#} + mset ?c" and R: "mset (concat (buckets lh)) = add_mset ?it R"
      using found_split [OF wf g i] .
    have c': "mset (?chain[i := ?new]) = {#?new#} + mset ?c" using i c by (simp add: mset_update)
    have itm: "?it \<in> set (concat (buckets lh))" using R by (metis set_mset_mset union_single_eq_member)
    have hash: "item_hash ?it = hash x" using wf itm hash_cmp [OF f(5) [OF i]] by (auto simp: lh_wf_def items_ok_def)
    have ok': "items_ok hash cmp ({#?new#} + M)" if M: "items_ok hash cmp ({#?it#} + M)" for M
    proof -
      have "cmp (item_data y) x \<noteq> 0" if "y \<in># M" for y
      proof -
        have "cmp (item_data ?it) (item_data y) \<noteq> 0" using items_unique [OF M, of ?it y] that by simp
        with f(5) [OF i] show ?thesis using cmp_sym cmp_trans by blast
      qed
      then show ?thesis using M hash items_ok_add [OF items_ok_minus, of ?it M ?new] by simp
    qed
    have s: "\<forall>it \<in># {#?new#}. unat (item_hash it) mod num_buckets lh = b" using hash f(2) by simp
    have "num_items lh + size {#?it#} = num_items lh + size {#?new#}" by simp
    note u = lh_update [OF wf f(3) c c' s ok' this]
    let ?lh' = "lh\<lparr>buckets := (buckets lh)[b := ?chain[i := ?new]], num_items := num_items lh\<rparr>"
    have eq: "?lh' = ?lh" by simp
    have "lh_wf hash cmp ?lh'" by (rule u(1)) assumption
    then have wf': "lh_wf hash cmp ?lh" unfolding eq .
    have "mset (concat (buckets ?lh')) + {#?it#} = mset (concat (buckets lh)) + {#?new#}" by (rule u(2)) assumption
    then have "mset (concat (buckets ?lh)) + {#?it#} = mset (concat (buckets lh)) + {#?new#}" unfolding eq .
    then have "mset (concat (buckets ?lh)) = add_mset ?new R" using R by simp
    from lh_data_mset [OF this] data_without [OF wf R f(5) [OF i]] have "lh_data ?lh = insert x {d \<in> lh_data lh. cmp d x \<noteq> 0}" by simp
    moreover have "ok" "old = Some (item_data ?it)" "lh' = ?lh" using run g False by (auto simp: OPENSSL_lh_insert_def Let_def)
    ultimately show ?thesis using f(6) False wf' by simp
  next
    case True
    then have none: "OPENSSL_lh_retrieve hash cmp lh x = None" using f(6) by simp
    let ?new = "\<lparr>item_data = x, item_hash = h\<rparr>"
    let ?lh = "lh\<lparr>buckets := (buckets lh)[b := ?chain @ [?new]], num_items := size_add (num_items lh) 1\<rparr>"
    have n': "size_add (num_items lh) 1 = num_items lh + 1" using n by (simp add: size_add_def)
    have c: "mset ?chain = {#} + mset ?chain" "mset (?chain @ [?new]) = {#?new#} + mset ?chain" by simp_all
    have s: "\<forall>it \<in># {#?new#}. unat (item_hash it) mod num_buckets lh = b" using f(1,2) by simp
    have all: "\<forall>it \<in># mset (concat (buckets lh)). cmp (item_data it) x \<noteq> 0"
      using none retrieve_None_iff [OF wf, of x] by (auto simp: lh_data_def simp del: set_concat)
    have ok': "items_ok hash cmp ({#?new#} + M)" if "items_ok hash cmp ({#} + M)" "mset (concat (buckets lh)) = {#} + M" for M
      using items_ok_add [of M ?new] that all f(1) by simp
    have "size_add (num_items lh) 1 + size {#} = num_items lh + size {#?new#}" unfolding n' by simp
    note u = lh_update [OF wf f(3) c s ok' this]
    have wf': "lh_wf hash cmp ?lh" by (rule u(1)) assumption+
    have "mset (concat (buckets ?lh)) + {#} = mset (concat (buckets lh)) + {#?new#}" by (rule u(2)) assumption+
    then have "mset (concat (buckets ?lh)) = add_mset ?new (mset (concat (buckets lh)))" by simp
    from lh_data_mset [OF this] have "lh_data ?lh = insert x (lh_data lh)" by (simp add: lh_data_def)
    moreover have "{d \<in> lh_data lh. cmp d x \<noteq> 0} = lh_data lh" using none retrieve_None_iff [OF wf, of x] by auto
    ultimately show ?thesis
      using run g True none resize_keeps [OF wf', of al] n' [unfolded One_nat_def] by (auto simp: OPENSSL_lh_insert_def Let_def split: option.splits)
  qed
  then show "old = OPENSSL_lh_retrieve hash cmp lh x"
    "ok \<Longrightarrow> lh_wf hash cmp lh' \<and> lh_data lh' = insert x {d \<in> lh_data lh. cmp d x \<noteq> 0} \<and>
      num_items lh' = (if old = None then num_items lh + 1 else num_items lh)"
    "\<not> ok \<Longrightarrow> lh' = lh \<and> old = None \<and> OPENSSL_zalloc al 24 = None" by blast+
qed

end

lemma lh_new_spec:
  "OPENSSL_lh_new al = Some lh \<Longrightarrow> lh_wf hash cmp lh \<and> lh_data lh = {} \<and> num_items lh = 0"
  by (auto simp: OPENSSL_lh_new_def lh_wf_def spread_ok_def items_ok_def lh_data_def split: option.splits)

lemma doall_keeps:
  assumes "lh_wf hash cmp lh" "OPENSSL_lh_doall_arg al (Some lh) func arg = (arg', lh')"
  shows "\<exists>lh''. lh' = Some lh'' \<and> lh_wf hash cmp lh'' \<and> lh_data lh'' = lh_data lh"
proof -
  let ?lh = "\<lambda>d. lh\<lparr>callback_depth := d\<rparr>"
  have wf: "lh_wf hash cmp (?lh d)" "lh_data (?lh d) = lh_data lh" for d
    using assms(1) by (simp_all add: lh_wf_def lh_data_def)
  from assms(2) obtain d where "lh' = Some (lh_maybe_resize al (?lh d))"
    by (auto simp: OPENSSL_lh_doall_arg_def Let_def split: if_splits) (metis lhash_st.surjective lhash_st.update_convs(4))+
  with resize_keeps [OF wf(1)] wf(2) show ?thesis by auto
qed

section \<open>The table as a map\<close>

text \<open>
  \<open>lh_reach hash cmp lh m\<close>: the table \<open>lh\<close> comes from a sequence of calls, in which allocations may
  fail at any point, and \<open>m\<close> is the map those calls describe: looking up \<open>y\<close> gives the last datum
  equal to \<open>y\<close> that was inserted and not deleted since.
\<close>

inductive lh_reach :: "('p \<Rightarrow> u32) \<Rightarrow> ('p \<Rightarrow> 'p \<Rightarrow> int) \<Rightarrow> 'p lhash_st \<Rightarrow> ('p \<Rightarrow> 'p option) \<Rightarrow> bool"
  for hash :: "'p \<Rightarrow> u32" and cmp :: "'p \<Rightarrow> 'p \<Rightarrow> int" where
  new: "OPENSSL_lh_new al = Some lh \<Longrightarrow> lh_reach hash cmp lh (\<lambda>_. None)"
| ins: "lh_reach hash cmp lh m \<Longrightarrow> num_items lh < SIZE_MAX \<Longrightarrow> OPENSSL_lh_insert al hash cmp lh x = (True, old, lh') \<Longrightarrow>
    lh_reach hash cmp lh' (\<lambda>y. if cmp x y = 0 then Some x else m y)"
| ins_fails: "lh_reach hash cmp lh m \<Longrightarrow> num_items lh < SIZE_MAX \<Longrightarrow> OPENSSL_lh_insert al hash cmp lh x = (False, old, lh') \<Longrightarrow>
    lh_reach hash cmp lh' m"
| del: "lh_reach hash cmp lh m \<Longrightarrow> OPENSSL_lh_delete al hash cmp lh x = (d, lh') \<Longrightarrow>
    lh_reach hash cmp lh' (\<lambda>y. if cmp x y = 0 then None else m y)"
| doall: "lh_reach hash cmp lh m \<Longrightarrow> OPENSSL_lh_doall_arg al (Some lh) (func :: 'p \<Rightarrow> nat \<Rightarrow> nat) arg = (arg', Some lh') \<Longrightarrow>
    lh_reach hash cmp lh' m"

context lh_functions
begin

lemma retrieve_eqI:
  assumes "lh_wf hash cmp lh" "\<And>d. m = Some d \<longleftrightarrow> d \<in> lh_data lh \<and> cmp d y = 0"
  shows "OPENSSL_lh_retrieve hash cmp lh y = m"
  using retrieve_iff [OF assms(1), of y] assms(2) by (metis option.exhaust)

lemma same_class:
  "cmp x y = 0 \<Longrightarrow> cmp d x = 0 \<longleftrightarrow> cmp d y = 0" "cmp x y \<noteq> 0 \<Longrightarrow> cmp d y = 0 \<Longrightarrow> cmp d x \<noteq> 0"
  using cmp_sym cmp_trans by blast+

lemma reach_refines: "lh_reach hash cmp lh m \<Longrightarrow> lh_wf hash cmp lh \<and> (\<forall>y. OPENSSL_lh_retrieve hash cmp lh y = m y)"
proof (induction rule: lh_reach.induct)
  case (new al lh)
  then show ?case using lh_new_spec [OF new, of hash cmp] retrieve_None_iff [of lh] by auto
next
  case (ins lh m al x old lh')
  then have wf: "lh_wf hash cmp lh" and m: "\<And>y. OPENSSL_lh_retrieve hash cmp lh y = m y" by auto
  from insert_spec(2) [OF wf ins.hyps(3,2)] have wf': "lh_wf hash cmp lh'"
    and d: "lh_data lh' = insert x {d \<in> lh_data lh. cmp d x \<noteq> 0}" by auto
  have "OPENSSL_lh_retrieve hash cmp lh' y = (if cmp x y = 0 then Some x else m y)" for y
  proof (rule retrieve_eqI [OF wf'])
    show "(if cmp x y = 0 then Some x else m y) = Some d \<longleftrightarrow> d \<in> lh_data lh' \<and> cmp d y = 0" for d
      unfolding d m [symmetric] using retrieve_iff [OF wf, of y d] same_class [of x y d] by (cases "cmp x y = 0") auto
  qed
  with wf' show ?case by blast
next
  case (ins_fails lh m al x old lh')
  then show ?case using insert_spec(3) [of lh al x False old lh'] by auto
next
  case (del lh m al x d lh')
  then have wf: "lh_wf hash cmp lh" and m: "\<And>y. OPENSSL_lh_retrieve hash cmp lh y = m y" by auto
  note s = delete_spec [OF wf del.hyps(2)]
  have "OPENSSL_lh_retrieve hash cmp lh' y = (if cmp x y = 0 then None else m y)" for y
  proof (rule retrieve_eqI [OF s(2)])
    show "(if cmp x y = 0 then None else m y) = Some d \<longleftrightarrow> d \<in> lh_data lh' \<and> cmp d y = 0" for d
      unfolding s(3) m [symmetric] using retrieve_iff [OF wf, of y d] same_class [of x y d] by (cases "cmp x y = 0") auto
  qed
  with s(2) show ?case by blast
next
  case (doall lh m al func arg arg' lh')
  then have wf: "lh_wf hash cmp lh" and m: "\<And>y. OPENSSL_lh_retrieve hash cmp lh y = m y" by auto
  from doall_keeps [OF wf doall.hyps(2)] have wf': "lh_wf hash cmp lh'" "lh_data lh' = lh_data lh" by auto
  then show ?case using retrieve_eqI [OF wf'(1)] retrieve_iff [OF wf] m by auto
qed

end

end
