(* ===== verification/Conf.thy ===== *)
theory Conf
  imports Lhash
begin

text \<open>
  Configuration values, from \<^verbatim>\<open>crypto/conf/conf.c\<close>: the hash table of values that the configuration keeps,
  its lookup, and the list parser \<^verbatim>\<open>CONF_parse_list\<close>.

  A \<open>CONF_VALUE\<close> is the record of its strings, without their terminating NUL. Comparing the two
  section pointers only avoids a \<open>strcmp\<close> of a string with itself and is not represented.
\<close>

section \<open>Values\<close>

record CONF_VALUE =
  cv_section :: "u8 list"
  cv_name :: "u8 list option"
  cv_value :: "u8 list"

fun strcmp_from :: "u8 list \<Rightarrow> u8 list \<Rightarrow> int" where
  "strcmp_from [] [] = 0"
| "strcmp_from [] (b # bs) = - uint b"
| "strcmp_from (a # as) [] = uint a"
| "strcmp_from (a # as) (b # bs) = (if a = b then strcmp_from as bs else uint a - uint b)"

definition strcmp :: "u8 list \<Rightarrow> u8 list \<Rightarrow> int" where
  "strcmp a b = strcmp_from (takeWhile (\<lambda>c. c \<noteq> 0) a) (takeWhile (\<lambda>c. c \<noteq> 0) b)"

definition conf_value_hash :: "CONF_VALUE \<Rightarrow> u32" where
  "conf_value_hash v =
     (let section_hash = OPENSSL_strhash (cv_section v);
          name_hash = (case cv_name v of None \<Rightarrow> 0 | Some n \<Rightarrow> OPENSSL_strhash n)
      in push_bit 2 section_hash XOR name_hash)"

definition conf_value_cmp :: "CONF_VALUE \<Rightarrow> CONF_VALUE \<Rightarrow> int" where
  "conf_value_cmp a b =
     (let i = strcmp (cv_section a) (cv_section b)
      in if i \<noteq> 0 then i
         else case (cv_name a, cv_name b) of
                (Some n, Some n') \<Rightarrow> strcmp n n'
              | (None, None) \<Rightarrow> 0
              | (None, Some _) \<Rightarrow> - 1
              | (Some _, None) \<Rightarrow> 1)"

text \<open>The string \<open>default\<close>.\<close>

definition kDefaultSectionName :: "u8 list" where
  "kDefaultSectionName = [100, 101, 102, 97, 117, 108, 116]"

definition get_section :: "CONF_VALUE lhash_st \<Rightarrow> u8 list \<Rightarrow> CONF_VALUE option" where
  "get_section conf section =
     OPENSSL_lh_retrieve conf_value_hash conf_value_cmp conf \<lparr>cv_section = section, cv_name = None, cv_value = []\<rparr>"

definition NCONF_get_string :: "CONF_VALUE lhash_st \<Rightarrow> u8 list option \<Rightarrow> u8 list \<Rightarrow> u8 list option" where
  "NCONF_get_string conf section name =
     (let find = (\<lambda>s. map_option cv_value (OPENSSL_lh_retrieve conf_value_hash conf_value_cmp conf
            \<lparr>cv_section = s, cv_name = Some name, cv_value = []\<rparr>));
          default_value = find kDefaultSectionName
      in case section of
           None \<Rightarrow> default_value
         | Some s \<Rightarrow> (case find s of Some v \<Rightarrow> Some v | None \<Rightarrow> default_value))"

section \<open>Lists\<close>

text \<open>
  The position of the first \<open>c\<close> in the string, as \<open>strchr\<close> finds it: the terminator counts as part of the string, so
  a search for NUL finds it at the end.
\<close>

fun strchr :: "u8 list \<Rightarrow> u8 \<Rightarrow> nat option" where
  "strchr [] c = (if c = 0 then Some 0 else None)"
| "strchr (a # as) c = (if a = c then Some 0 else map_option Suc (strchr as c))"

lemma strchr_less: "strchr s c = Some k \<Longrightarrow> c \<noteq> 0 \<Longrightarrow> k < length s"
  by (induction s arbitrary: k) (auto split: if_splits)

lemma strchr_le: "strchr s c = Some k \<Longrightarrow> k \<le> length s"
  by (induction s arbitrary: k) (auto split: if_splits)

abbreviation is_space :: "u8 \<Rightarrow> bool" where
  "is_space c \<equiv> OPENSSL_isspace (uint c)"

text \<open>The loop that moves \<open>tmpend\<close> back over white space; the number is \<open>tmpend - lstart + 1\<close>.\<close>

fun trim_back :: "u8 list \<Rightarrow> nat \<Rightarrow> nat" where
  "trim_back s 0 = 0"
| "trim_back s (Suc n) = (if is_space (s ! n) then trim_back s n else Suc n)"

text \<open>
  The callback works on a state; it gets \<open>None\<close> for an empty member, and stops the loop with a
  result that is not positive. The value is \<open>None\<close> when \<open>lstart\<close> moves past the terminator of the list, which happens when
  the separator is NUL: what the code reads from there on is not determined by the list.
\<close>

function parse_list_loop :: "u8 \<Rightarrow> bool \<Rightarrow> (u8 list option \<Rightarrow> 'a \<Rightarrow> int \<times> 'a) \<Rightarrow> u8 list \<Rightarrow> 'a \<Rightarrow> (int \<times> 'a) option" where
  "parse_list_loop sep remove_whitespace list_cb lstart arg =
     (let lstart = (if remove_whitespace then dropWhile is_space lstart else lstart);
          p = strchr lstart sep;
          (ret, arg) =
            (if p = Some 0 \<or> lstart = [] then list_cb None arg
             else let n = (case p of Some k \<Rightarrow> k | None \<Rightarrow> length lstart);
                      n = (if remove_whitespace then trim_back lstart n else n)
                  in list_cb (Some (take n lstart)) arg)
      in if ret \<le> 0 then Some (ret, arg)
         else case p of
                None \<Rightarrow> Some (1, arg)
              | Some k \<Rightarrow>
                  if k = length lstart then None
                  else parse_list_loop sep remove_whitespace list_cb (drop (k + 1) lstart) arg)"
  by pat_completeness auto
termination
proof (relation "measure (\<lambda>(sep, rm, cb, lstart, arg). length lstart)", simp)
  fix sep rm list_cb lstart arg lstart' p x ret arg' k
  assume "lstart' = (if rm then dropWhile is_space lstart else lstart)" "p = strchr lstart' sep" "p = Some (k :: nat)" "k \<noteq> length lstart'"
  then have "k < length lstart'" "length lstart' \<le> length lstart" using strchr_le [of lstart' sep k] by (auto simp: length_dropWhile_le)
  then show "((sep, rm, list_cb, drop (k + 1) lstart', arg'), sep, rm, list_cb, lstart, arg) \<in> measure (\<lambda>(sep, rm, cb, lstart, arg). length lstart)"
    by simp
qed

declare parse_list_loop.simps [simp del]

definition CONF_parse_list :: "u8 list option \<Rightarrow> u8 \<Rightarrow> bool \<Rightarrow> (u8 list option \<Rightarrow> 'a \<Rightarrow> int \<times> 'a) \<Rightarrow> 'a \<Rightarrow> (int \<times> 'a) option" where
  "CONF_parse_list lst sep remove_whitespace list_cb arg =
     (case lst of
        None \<Rightarrow> Some (0, arg)
      | Some l \<Rightarrow> parse_list_loop sep remove_whitespace list_cb (takeWhile (\<lambda>c. c \<noteq> 0) l) arg)"

section \<open>Values in a hash table\<close>

lemma strcmp_from_eq: "strcmp_from a b = 0 \<longleftrightarrow> a = b" if "0 \<notin> set a" "0 \<notin> set b"
proof -
  have "uint x - uint y = 0 \<longleftrightarrow> x = y" for x y :: u8 by (simp add: word_uint_eq_iff [symmetric])
  then show ?thesis using that by (induction a b rule: strcmp_from.induct) (auto simp: uint_0_iff)
qed

lemma strcmp_eq: "strcmp a b = 0 \<longleftrightarrow> takeWhile (\<lambda>c. c \<noteq> 0) a = takeWhile (\<lambda>c. c \<noteq> 0) b"
  unfolding strcmp_def by (rule strcmp_from_eq) (auto dest: set_takeWhileD)

lemma strhash_takeWhile: "OPENSSL_strhash a = OPENSSL_hash32 (takeWhile (\<lambda>c. c \<noteq> 0) a) (length (takeWhile (\<lambda>c. c \<noteq> 0) a))"
  unfolding OPENSSL_strhash_def strlen_def OPENSSL_hash32_def
  by (rule fold_cong) (auto simp: takeWhile_nth)

lemma strhash_cong: "strcmp a b = 0 \<Longrightarrow> OPENSSL_strhash a = OPENSSL_strhash b"
  unfolding strcmp_eq strhash_takeWhile by simp

lemma conf_value_cmp_eq:
  "conf_value_cmp a b = 0 \<longleftrightarrow> strcmp (cv_section a) (cv_section b) = 0 \<and>
     (case (cv_name a, cv_name b) of (Some n, Some n') \<Rightarrow> strcmp n n' = 0 | (None, None) \<Rightarrow> True | _ \<Rightarrow> False)"
  by (auto simp: conf_value_cmp_def Let_def split: option.splits)

interpretation conf_values: lh_functions conf_value_hash conf_value_cmp
proof
  show "conf_value_cmp x x = 0" for x by (auto simp: conf_value_cmp_eq strcmp_eq split: option.splits)
  show "conf_value_cmp y x = 0" if "conf_value_cmp x y = 0" for x y
    using that by (auto simp: conf_value_cmp_eq strcmp_eq split: option.splits)
  show "conf_value_cmp x z = 0" if "conf_value_cmp x y = 0" "conf_value_cmp y z = 0" for x y z
    using that by (auto simp: conf_value_cmp_eq strcmp_eq split: option.splits)
  show "conf_value_hash x = conf_value_hash y" if "conf_value_cmp x y = 0" for x y
    using that by (auto simp: conf_value_cmp_eq conf_value_hash_def dest!: strhash_cong split: option.splits)
qed

section \<open>Members of a list\<close>

text \<open>The members by definition: the text is cut at every separator, and each piece is stripped if asked for.\<close>

fun split_at :: "u8 \<Rightarrow> u8 list \<Rightarrow> u8 list list" where
  "split_at c [] = [[]]"
| "split_at c (a # as) = (if a = c then [] # split_at c as else case split_at c as of [] \<Rightarrow> [[a]] | x # xs \<Rightarrow> (a # x) # xs)"

definition strip :: "u8 list \<Rightarrow> u8 list" where
  "strip s = rev (dropWhile is_space (rev (dropWhile is_space s)))"

definition member_of :: "bool \<Rightarrow> u8 list \<Rightarrow> u8 list option" where
  "member_of rm s = (let s = (if rm then strip s else s) in if s = [] then None else Some s)"

text \<open>Calling back on each member until one call returns a number that is not positive.\<close>

fun call_each :: "(u8 list option \<Rightarrow> 'a \<Rightarrow> int \<times> 'a) \<Rightarrow> u8 list option list \<Rightarrow> 'a \<Rightarrow> int \<times> 'a" where
  "call_each cb [] arg = (1, arg)"
| "call_each cb (m # ms) arg = (case cb m arg of (ret, arg) \<Rightarrow> if ret \<le> 0 then (ret, arg) else call_each cb ms arg)"

lemma split_at_strchr:
  "c \<noteq> 0 \<Longrightarrow> split_at c s = (case strchr s c of None \<Rightarrow> [s] | Some k \<Rightarrow> take k s # split_at c (drop (k + 1) s))"
  by (induction s) (auto split: option.splits)

lemma split_at_nonempty [simp]: "split_at c s \<noteq> []"
  by (induction s) (auto split: list.splits)

lemma split_at_dropWhile:
  "\<not> P c \<Longrightarrow> split_at c (dropWhile P s) = dropWhile P (hd (split_at c s)) # tl (split_at c s)"
proof (induction s)
  case (Cons a s)
  then show ?case by (cases "split_at c s") (auto split: list.splits)
qed simp

lemma take_trim_back: "n \<le> length s \<Longrightarrow> take (trim_back s n) s = rev (dropWhile is_space (rev (take n s)))"
  by (induction n) (auto simp: take_Suc_conv_app_nth)

lemma parse_list_loop_members:
  assumes "rm \<Longrightarrow> \<not> is_space sep" and sep: "sep \<noteq> 0"
  shows "parse_list_loop sep rm cb s arg = Some (call_each cb (map (member_of rm) (split_at sep s)) arg)"
proof (induction s arbitrary: arg rule: length_induct)
  case (1 s)
  define s' where "s' = (if rm then dropWhile is_space s else s)"
  define n where "n = (case strchr s' sep of Some k \<Rightarrow> k | None \<Rightarrow> length s')"
  have n: "n \<le> length s'" using strchr_less [of s' sep, OF _ sep] by (auto simp: n_def split: option.splits dest: less_imp_le)
  have hd: "hd (split_at sep s') = take n s'"
    unfolding split_at_strchr [OF sep, of s'] by (simp add: n_def split: option.splits)
  have tl: "tl (split_at sep s') = (case strchr s' sep of None \<Rightarrow> [] | Some k \<Rightarrow> split_at sep (drop (k + 1) s'))"
    unfolding split_at_strchr [OF sep, of s'] by (simp split: option.splits)
  have s: "hd (split_at sep s') = (if rm then dropWhile is_space (hd (split_at sep s)) else hd (split_at sep s))"
    "tl (split_at sep s') = tl (split_at sep s)"
    using split_at_dropWhile [of is_space sep s] assms by (auto simp: s'_def)
  have first: "member_of rm (hd (split_at sep s)) =
      (if strchr s' sep = Some 0 \<or> s' = [] then None else Some (take (if rm then trim_back s' n else n) s'))"
  proof -
    have m: "member_of rm (hd (split_at sep s)) = (let x = take (if rm then trim_back s' n else n) s' in if x = [] then None else Some x)"
    proof (cases rm)
      case True
      then have "dropWhile is_space (hd (split_at sep s)) = take n s'" using s(1) hd by simp
      then have "strip (hd (split_at sep s)) = take (trim_back s' n) s'" unfolding strip_def take_trim_back [OF n] by (rule arg_cong)
      with True show ?thesis by (simp add: member_of_def)
    next
      case False
      then have "hd (split_at sep s) = take n s'" using s(1) hd by simp
      with False show ?thesis by (simp add: member_of_def)
    qed
    have "n = 0 \<longleftrightarrow> strchr s' sep = Some 0 \<or> s' = []" using strchr_less [of s' sep, OF _ sep] by (auto simp: n_def split: option.splits)
    moreover have "trim_back s' n \<noteq> 0" if "rm" "n \<noteq> 0"
    proof -
      have "s' \<noteq> []" using n that(2) by auto
      then have "\<not> is_space (s' ! 0)" using that(1) hd_dropWhile [of is_space s] by (auto simp: s'_def hd_conv_nth)
      then have "trim_back s' (Suc k) \<noteq> 0" for k by (induction k) auto
      with that(2) show ?thesis by (cases n) auto
    qed
    ultimately show ?thesis using n unfolding m by (auto simp: Let_def)
  qed
  have rest: "k \<noteq> length s' \<and> parse_list_loop sep rm cb (drop (k + 1) s') arg = Some (call_each cb (map (member_of rm) (split_at sep (drop (k + 1) s'))) arg)"
    if "strchr s' sep = Some k" for k arg
  proof -
    have "length (drop (k + 1) s') < length s" using strchr_less [OF that sep] length_dropWhile_le [of is_space s] by (auto simp: s'_def split: if_splits)
    then show ?thesis using 1 strchr_less [OF that sep] by blast
  qed
  have "parse_list_loop sep rm cb s arg = (case cb (member_of rm (hd (split_at sep s))) arg of (ret, arg) \<Rightarrow>
      if ret \<le> 0 then Some (ret, arg) else case strchr s' sep of None \<Rightarrow> Some (1, arg) | Some k \<Rightarrow>
        if k = length s' then None else parse_list_loop sep rm cb (drop (k + 1) s') arg)"
    unfolding first by (subst parse_list_loop.simps) (simp add: s'_def [symmetric] n_def [symmetric] Let_def)
  also have "\<dots> = Some (call_each cb (map (member_of rm) (hd (split_at sep s) # tl (split_at sep s))) arg)"
    unfolding s(2) [symmetric] tl using rest by (auto split: prod.splits option.splits)
  finally show ?case by simp
qed

section \<open>Properties\<close>

text \<open>
  C36. The hash table is a map. If the comparison function is an equivalence and equal data hash
  alike, then after any sequence of insertions, deletions and walks, with allocation failures at any
  point, the table is well formed (every item in the bucket of its hash, no two items equal, the
  count right) and looking up \<open>y\<close> returns what the sequence says: resizing loses and duplicates nothing.
\<close>

theorem lh_refines_map:
  assumes "lh_functions hash cmp" "lh_reach hash cmp lh m"
  shows "lh_wf hash cmp lh \<and> OPENSSL_lh_retrieve hash cmp lh y = m y"
  using lh_functions.reach_refines [OF assms] by blast


theorem lh_refines_map_witness:
  "\<exists>lh. lh_wf conf_value_hash conf_value_cmp lh \<and> num_items lh = 1 \<and>
     NCONF_get_string lh (Some [97]) [120] = Some [49] \<and> NCONF_get_string lh (Some [98]) [120] = None"
proof -
  let ?al = "\<lambda>_. Some (\<lambda>_. 0)" and ?v = "\<lparr>cv_section = [97], cv_name = Some [120], cv_value = [49]\<rparr>"
  obtain lh :: "CONF_VALUE lhash_st" where lh: "OPENSSL_lh_new ?al = Some lh" "num_items lh = 0"
    by (simp add: OPENSSL_lh_new_def OPENSSL_zalloc_def OPENSSL_calloc_def OPENSSL_malloc_def size_add_def size_mul_def)
  have z: "OPENSSL_zalloc ?al 24 \<noteq> None" by (simp add: OPENSSL_zalloc_def OPENSSL_malloc_def size_add_def)
  obtain ok old lh' where ins: "OPENSSL_lh_insert ?al conf_value_hash conf_value_cmp lh ?v = (ok, old, lh')" by (metis prod_cases3)
  note r = lh_reach.new [OF lh(1), of conf_value_hash conf_value_cmp]
  have wf: "lh_wf conf_value_hash conf_value_cmp lh" using lh_new_spec [OF lh(1)] by blast
  have n: "num_items lh < SIZE_MAX" by (simp add: lh(2))
  note sp = conf_values.insert_spec [OF wf ins n]
  have ok: "ok" using sp(3) z by blast
  have "old = None" using sp(1) conf_values.retrieve_None_iff [OF wf, of ?v] lh_new_spec [OF lh(1)] by auto
  then have n': "num_items lh' = 1" using sp(2) [OF ok] lh(2) by simp
  have reach: "lh_reach conf_value_hash conf_value_cmp lh' (\<lambda>y. if conf_value_cmp ?v y = 0 then Some ?v else None)"
    using lh_reach.ins [OF r n, of ?al ?v old lh'] ins ok by simp
  note look = lh_refines_map [OF conf_values.lh_functions_axioms reach]
  have "NCONF_get_string lh' (Some [97]) [120] = Some [49]" "NCONF_get_string lh' (Some [98]) [120] = None"
    by (simp_all add: NCONF_get_string_def look conf_value_cmp_eq strcmp_eq kDefaultSectionName_def Let_def)
  with look n' show ?thesis by blast
qed

text \<open>
  C37. \<^verbatim>\<open>CONF_parse_list\<close> with a separator other than NUL, which is not white space if white space is to be
  removed, calls back once for every piece of the text between separators, in order,
  the pieces stripped of white space on both sides if asked for, with the empty member where nothing is
  left; it stops at the first call that returns a number that is not positive and returns it, and otherwise returns 1.
\<close>

theorem CONF_parse_list_members:
  assumes "sep \<noteq> 0" "rm \<Longrightarrow> \<not> is_space sep" "0 \<notin> set s"
  shows "CONF_parse_list (Some s) sep rm cb arg = Some (call_each cb (map (member_of rm) (split_at sep s)) arg)"
proof -
  have s: "takeWhile (\<lambda>c. c \<noteq> 0) s = s" unfolding takeWhile_eq_all_conv using assms(3) by blast
  show ?thesis unfolding CONF_parse_list_def option.case s by (rule parse_list_loop_members) (use assms(1,2) in simp_all)
qed

theorem CONF_parse_list_members_witness:
  "CONF_parse_list (Some [32, 97, 32, 44, 32, 44, 98]) 44 True (\<lambda>m ms. (1, ms @ [m])) [] = Some (1, [Some [97], None, Some [98]])"
  by (subst CONF_parse_list_members) (simp_all add: OPENSSL_isspace_def member_of_def strip_def)

end
