(* ===== verification/BnWords.thy ===== *)
theory BnWords
  imports ConstTime
begin

text \<open>
  Arrays of 64-bit words as natural numbers, \<^verbatim>\<open>crypto/fipsmodule/bn/generic.c\<close>, the carry helpers of
  \<^verbatim>\<open>crypto/internal.h\<close> and the word-array parts of \<^verbatim>\<open>bn/cmp.c\<close> and \<^verbatim>\<open>bn/mul.c\<close>.

  A routine that fills an array \<open>r\<close> of \<open>n\<close> words from arrays \<open>a\<close> and \<open>b\<close> returns the words it stores
  and the final carry. Every iteration reads the words of its own index before it stores there, so
  the result is the same when \<open>r\<close> is one of the operands, as the callers use it.
\<close>

type_synonym BN_ULONG = "64 word"

section \<open>Carries and products\<close>

definition CRYPTO_addc_w :: "BN_ULONG \<Rightarrow> BN_ULONG \<Rightarrow> BN_ULONG \<Rightarrow> BN_ULONG \<times> BN_ULONG" where
  "CRYPTO_addc_w x y carry = (let ret = (ucast carry + (ucast x + ucast y) :: 128 word) in (ucast ret, ucast (drop_bit 64 ret)))"

definition CRYPTO_subc_w :: "BN_ULONG \<Rightarrow> BN_ULONG \<Rightarrow> BN_ULONG \<Rightarrow> BN_ULONG \<times> BN_ULONG" where
  "CRYPTO_subc_w x y borrow =
     (x - y - borrow, (if x < y then 1 else 0) OR ((if x = y then 1 else 0) AND borrow))"

text \<open>The macros \<open>mul_add\<close> and \<open>mul\<close>: the new word and the new carry.\<close>

definition mul_add :: "BN_ULONG \<Rightarrow> BN_ULONG \<Rightarrow> BN_ULONG \<Rightarrow> BN_ULONG \<Rightarrow> BN_ULONG \<times> BN_ULONG" where
  "mul_add r a w c = (let t = (ucast w * ucast a + ucast r + ucast c :: 128 word) in (ucast t, ucast (drop_bit 64 t)))"

definition mul_w :: "BN_ULONG \<Rightarrow> BN_ULONG \<Rightarrow> BN_ULONG \<Rightarrow> BN_ULONG \<times> BN_ULONG" where
  "mul_w a w c = (let t = (ucast w * ucast a + ucast c :: 128 word) in (ucast t, ucast (drop_bit 64 t)))"

section \<open>Loops over words\<close>

text \<open>The loop \<open>while (n)\<close> that stores one word, and the one before it, \<open>while (n & ~3)\<close>, that stores four.\<close>

fun words_tail :: "(nat \<Rightarrow> 'c \<Rightarrow> BN_ULONG \<times> 'c) \<Rightarrow> nat \<Rightarrow> nat \<Rightarrow> 'c \<Rightarrow> BN_ULONG list \<times> 'c" where
  "words_tail step i 0 c = ([], c)"
| "words_tail step i (Suc n) c =
     (let (r, c) = step i c; (rs, c) = words_tail step (Suc i) n c in (r # rs, c))"

fun words_blocks :: "(nat \<Rightarrow> 'c \<Rightarrow> BN_ULONG \<times> 'c) \<Rightarrow> nat \<Rightarrow> nat \<Rightarrow> 'c \<Rightarrow> BN_ULONG list \<times> 'c" where
  "words_blocks step i n c =
     (if n < 4 then words_tail step i n c
      else let (r0, c) = step i c; (r1, c) = step (i + 1) c; (r2, c) = step (i + 2) c; (r3, c) = step (i + 3) c;
               (rs, c) = words_blocks step (i + 4) (n - 4) c
           in (r0 # r1 # r2 # r3 # rs, c))"

declare words_blocks.simps [simp del]

definition bn_add_words :: "BN_ULONG list \<Rightarrow> BN_ULONG list \<Rightarrow> nat \<Rightarrow> BN_ULONG list \<times> BN_ULONG" where
  "bn_add_words a b n = (if n = 0 then ([], 0) else words_blocks (\<lambda>i. CRYPTO_addc_w (a ! i) (b ! i)) 0 n 0)"

definition bn_sub_words :: "BN_ULONG list \<Rightarrow> BN_ULONG list \<Rightarrow> nat \<Rightarrow> BN_ULONG list \<times> BN_ULONG" where
  "bn_sub_words a b n = (if n = 0 then ([], 0) else words_blocks (\<lambda>i. CRYPTO_subc_w (a ! i) (b ! i)) 0 n 0)"

definition bn_mul_words :: "BN_ULONG list \<Rightarrow> nat \<Rightarrow> BN_ULONG \<Rightarrow> BN_ULONG list \<times> BN_ULONG" where
  "bn_mul_words a n w = (if n = 0 then ([], 0) else words_blocks (\<lambda>i. mul_w (a ! i) w) 0 n 0)"

definition bn_mul_add_words :: "BN_ULONG list \<Rightarrow> BN_ULONG list \<Rightarrow> nat \<Rightarrow> BN_ULONG \<Rightarrow> BN_ULONG list \<times> BN_ULONG" where
  "bn_mul_add_words r a n w = (if n = 0 then ([], 0) else words_blocks (\<lambda>i. mul_add (r ! i) (a ! i) w) 0 n 0)"

section \<open>The number an array stands for\<close>

definition words_val :: "BN_ULONG list \<Rightarrow> nat" where
  "words_val ws = foldr (\<lambda>w v. unat w + 2 ^ 64 * v) ws 0"

lemma words_val_simps [simp]: "words_val [] = 0" "words_val (w # ws) = unat w + 2 ^ 64 * words_val ws"
  by (simp_all add: words_val_def)

lemma words_val_append: "words_val (xs @ ys) = words_val xs + 2 ^ (64 * length xs) * words_val ys"
  by (induction xs) (simp_all add: algebra_simps power_add)

lemma words_val_zeros [simp]: "words_val (replicate n 0) = 0"
  by (induction n) simp_all

lemma words_val_less: "words_val ws < 2 ^ (64 * length ws)"
proof (induction ws)
  case (Cons w ws)
  then have "2 ^ 64 * Suc (words_val ws) \<le> 2 ^ 64 * 2 ^ (64 * length ws)" by (intro mult_le_mono2) simp
  with unat_u64_less [of w] show ?case by (simp add: power_add)
qed simp

lemma words_val_eq_0: "words_val ws = 0 \<longleftrightarrow> (\<forall>w\<in>set ws. w = 0)"
  by (induction ws) (auto simp: unat_eq_zero)

lemma words_val_sum: "n \<le> length ws \<Longrightarrow> words_val (take n ws) = (\<Sum>k<n. unat (ws ! k) * 2 ^ (64 * k))"
proof (induction n)
  case (Suc n)
  then show ?case by (simp add: take_Suc_conv_app_nth words_val_append)
qed simp

section \<open>The loops are sums with a carry\<close>

lemma words_blocks_eq: "words_blocks step i n c = words_tail step i n c"
proof (induction n arbitrary: i c rule: less_induct)
  case (less n)
  show ?case
  proof (cases "n < 4")
    case False
    then have n: "n = Suc (Suc (Suc (Suc (n - 4))))" by simp
    have IH: "words_blocks step (Suc (Suc (Suc (Suc i)))) (n - 4) c = words_tail step (Suc (Suc (Suc (Suc i)))) (n - 4) c" for c
      using False by (intro less.IH) simp
    have i: "i + 1 = Suc i" "i + 2 = Suc (Suc i)" "i + 3 = Suc (Suc (Suc i))" "i + 4 = Suc (Suc (Suc (Suc i)))" by simp_all
    show ?thesis
      unfolding words_blocks.simps [of step i n] if_not_P [OF False] i IH by (subst (2) n) (simp add: split_beta)
  qed (simp add: words_blocks.simps)
qed

text \<open>
  The law of a loop whose step satisfies \<open>r + s * B * c' = f i + s * c\<close>, with \<open>s = 1\<close> for a carry and
  \<open>s = -1\<close> for a borrow. \<open>P\<close> is what the step needs of its carry.
\<close>

lemma words_tail_val:
  assumes step: "\<And>j c r c'. i \<le> j \<Longrightarrow> j < i + n \<Longrightarrow> P c \<Longrightarrow> step j c = (r, c') \<Longrightarrow>
      P c' \<and> int (unat r) + s * 2 ^ 64 * int (unat (c' :: BN_ULONG)) = f j + s * int (unat c)"
    and "P c" "words_tail step i n c = (rs, c')"
  shows "P c' \<and> length rs = n \<and> int (words_val rs) + s * 2 ^ (64 * n) * int (unat c') = (\<Sum>k<n. f (i + k) * 2 ^ (64 * k)) + s * int (unat c)"
  using assms
proof (induction n arbitrary: i c rs)
  case (Suc n)
  obtain r c1 where r: "step i c = (r, c1)" by force
  obtain rs1 where rs: "words_tail step (Suc i) n c1 = (rs1, c')" "rs = r # rs1"
    using Suc.prems(3) r by (auto split: prod.splits)
  have s1: "P c1" "int (unat r) + s * 2 ^ 64 * int (unat c1) = f i + s * int (unat c)"
    using Suc.prems(1) [OF _ _ Suc.prems(2) r] by simp_all
  have "P c' \<and> length rs1 = n \<and> int (words_val rs1) + s * 2 ^ (64 * n) * int (unat c') =
      (\<Sum>k<n. f (Suc i + k) * 2 ^ (64 * k)) + s * int (unat c1)"
    by (rule Suc.IH [OF Suc.prems(1) s1(1) rs(1)]) simp_all
  moreover have "(\<Sum>k<Suc n. f (i + k) * 2 ^ (64 * k)) = f i + 2 ^ 64 * (\<Sum>k<n. f (Suc i + k) * 2 ^ (64 * k))"
    unfolding sum.lessThan_Suc_shift sum_distrib_left by (simp add: ac_simps power_add)
  ultimately show ?case using s1(2) rs(2) by (simp add: algebra_simps power_add)
qed simp

text \<open>Splitting a double word: its low and its high word determine it.\<close>

lemma double_word:
  fixes t :: "128 word"
  shows "unat (ucast t :: BN_ULONG) + 2 ^ 64 * unat (ucast (drop_bit 64 t) :: BN_ULONG) = unat t"
proof -
  have "unat t < 2 ^ 128" using unsigned_less [of t] by simp
  then have "unat t div 2 ^ 64 < 2 ^ 64" by (simp add: less_mult_imp_div_less)
  then have "unat (ucast (drop_bit 64 t) :: BN_ULONG) = unat t div 2 ^ 64"
    by (simp add: unsigned_ucast_eq take_bit_eq_mod unat_drop_bit_eq drop_bit_eq_div unat_div)
  moreover have "unat (ucast t :: BN_ULONG) = unat t mod 2 ^ 64"
    by (simp add: unsigned_ucast_eq take_bit_eq_mod unat_mod)
  ultimately show ?thesis by (metis mod_mult_div_eq)
qed

lemma unat_ucast_128: "unat (ucast (x :: BN_ULONG) :: 128 word) = unat x"
  using unat_u64_less [of x] by (simp add: unsigned_ucast_eq take_bit_eq_mod)

lemma mul_add_bound: "unat (w :: BN_ULONG) * unat (a :: BN_ULONG) + unat (r :: BN_ULONG) + unat (c :: BN_ULONG) < 2 ^ 128"
proof -
  have "unat w * unat a \<le> (2 ^ 64 - 1) * (2 ^ 64 - 1)"
    using unat_u64_less [of w] unat_u64_less [of a] by (intro mult_le_mono) simp_all
  then show ?thesis using unat_u64_less [of r] unat_u64_less [of c] by simp
qed

lemma unat_sum_128:
  assumes "a + b < 2 ^ 128" "unat (x :: 128 word) = a" "unat y = b"
  shows "unat (x + y) = a + b"
  using assms by (subst unat_add_lem [THEN iffD1]) simp_all

lemma CRYPTO_addc_w_val:
  assumes "CRYPTO_addc_w x y c = (r, c')"
  shows "unat r + 2 ^ 64 * unat c' = unat x + unat y + unat c" "unat c \<le> 1 \<Longrightarrow> unat c' \<le> 1"
proof -
  note lt = unat_u64_less [of x] unat_u64_less [of y] unat_u64_less [of c] unat_u64_less [of r]
  have "unat (ucast c + (ucast x + ucast y) :: 128 word) = unat c + (unat x + unat y)"
    using lt by (intro unat_sum_128) (simp_all add: unat_ucast_128)
  then show v: "unat r + 2 ^ 64 * unat c' = unat x + unat y + unat c"
    using assms double_word [of "ucast c + (ucast x + ucast y)"] by (auto simp: CRYPTO_addc_w_def Let_def)
  show "unat c' \<le> 1" if "unat c \<le> 1" using that v lt by simp
qed

lemma mul_add_val:
  assumes "mul_add r a w c = (r', c')"
  shows "unat r' + 2 ^ 64 * unat c' = unat w * unat a + unat r + unat c"
proof -
  have "unat (ucast w * ucast a :: 128 word) = unat w * unat a"
    using mul_add_bound [of w a r c] by (subst unat_mult_lem [THEN iffD1]) (simp_all add: unat_ucast_128)
  then have "unat (ucast w * ucast a + ucast r + ucast c :: 128 word) = unat w * unat a + unat r + unat c"
    using mul_add_bound [of w a r c] by (intro unat_sum_128) (simp_all add: unat_ucast_128)
  then show ?thesis using assms double_word [of "ucast w * ucast a + ucast r + ucast c"] by (auto simp: mul_add_def Let_def)
qed

lemma mul_w_eq: "mul_w a w = mul_add 0 a w"
  by (rule ext) (simp add: mul_w_def mul_add_def)

lemma CRYPTO_subc_w_val:
  assumes "CRYPTO_subc_w x y b = (r, b')" "unat b \<le> 1"
  shows "unat r + unat y + unat b = unat x + 2 ^ 64 * unat b'" "unat b' \<le> 1"
proof -
  have b: "b = 0 \<or> b = 1" using assms(2) by (metis le_Suc_eq le_zero_eq One_nat_def unat_1 unat_0 word_unat_eq_iff)
  have r: "r = x - y - b" "b' = (if x < y \<or> x = y \<and> b = 1 then 1 else 0)"
    using assms(1) b by (auto simp: CRYPTO_subc_w_def)
  then show "unat b' \<le> 1" by simp
  note lt = unat_u64_less [of x] unat_u64_less [of y]
  show "unat r + unat y + unat b = unat x + 2 ^ 64 * unat b'"
    using b lt unfolding r unat_sub_wrap word_le_nat_alt word_less_nat_alt word_unat_eq_iff [of x y]
    by (auto simp: unat_sub_wrap word_le_nat_alt)
qed

text \<open>A window of an array as a sum.\<close>

lemma words_window: "i + n \<le> length ws \<Longrightarrow> words_val (take n (drop i ws)) = (\<Sum>k<n. unat (ws ! (i + k)) * 2 ^ (64 * k))"
  by (subst words_val_sum) simp_all

text \<open>The loops of the four routines.\<close>

lemma addc_tail:
  assumes "words_tail (\<lambda>i. CRYPTO_addc_w (x i) (y i)) i n c = (rs, c')" "unat c \<le> 1"
  shows "length rs = n \<and> unat c' \<le> 1 \<and>
    words_val rs + 2 ^ (64 * n) * unat c' = (\<Sum>k<n. unat (x (i + k)) * 2 ^ (64 * k)) + (\<Sum>k<n. unat (y (i + k)) * 2 ^ (64 * k)) + unat c"
proof -
  have "unat c' \<le> 1 \<and> length rs = n \<and> int (words_val rs) + 1 * 2 ^ (64 * n) * int (unat c') =
      (\<Sum>k<n. int (unat (x (i + k)) + unat (y (i + k))) * 2 ^ (64 * k)) + 1 * int (unat c)"
  proof (rule words_tail_val [where P = "\<lambda>c. unat c \<le> 1", OF _ assms(2,1)])
    fix j c r c' assume "unat c \<le> 1" "CRYPTO_addc_w (x j) (y j) c = (r, c')"
    note v = CRYPTO_addc_w_val [OF this(2)] and this(1)
    moreover have "int (unat r) + 2 ^ 64 * int (unat c') = int (unat (x j)) + int (unat (y j)) + int (unat c)"
      using arg_cong [OF v(1), of int] by (simp only: of_nat_add of_nat_mult of_nat_power of_nat_numeral)
    ultimately show "unat c' \<le> 1 \<and> int (unat r) + 1 * 2 ^ 64 * int (unat c') = int (unat (x j) + unat (y j)) + 1 * int (unat c)"
      by (intro conjI) linarith+
  qed
  then have "length rs = n \<and> unat c' \<le> 1 \<and> int (words_val rs + 2 ^ (64 * n) * unat c') =
      int ((\<Sum>k<n. unat (x (i + k)) * 2 ^ (64 * k)) + (\<Sum>k<n. unat (y (i + k)) * 2 ^ (64 * k)) + unat c)"
    by (simp add: sum.distrib distrib_right)
  then show ?thesis unfolding of_nat_eq_iff .
qed

lemma subc_tail:
  assumes "words_tail (\<lambda>i. CRYPTO_subc_w (x i) (y i)) i n c = (rs, c')" "unat c \<le> 1"
  shows "length rs = n \<and> unat c' \<le> 1 \<and>
    words_val rs + (\<Sum>k<n. unat (y (i + k)) * 2 ^ (64 * k)) + unat c = (\<Sum>k<n. unat (x (i + k)) * 2 ^ (64 * k)) + 2 ^ (64 * n) * unat c'"
proof -
  have "unat c' \<le> 1 \<and> length rs = n \<and> int (words_val rs) + (-1) * 2 ^ (64 * n) * int (unat c') =
      (\<Sum>k<n. (int (unat (x (i + k))) - int (unat (y (i + k)))) * 2 ^ (64 * k)) + (-1) * int (unat c)"
  proof (rule words_tail_val [where P = "\<lambda>c. unat c \<le> 1", OF _ assms(2,1)])
    fix j c r c' assume "unat c \<le> 1" "CRYPTO_subc_w (x j) (y j) c = (r, c')"
    note v = CRYPTO_subc_w_val [OF this(2,1)]
    have "int (unat r) + int (unat (y j)) + int (unat c) = int (unat (x j)) + 2 ^ 64 * int (unat c')"
      using arg_cong [OF v(1), of int] by (simp only: of_nat_add of_nat_mult of_nat_power of_nat_numeral)
    with v(2) show "unat c' \<le> 1 \<and> int (unat r) + (-1) * 2 ^ 64 * int (unat c') = (int (unat (x j)) - int (unat (y j))) + (-1) * int (unat c)"
      by (intro conjI) linarith+
  qed
  then have "length rs = n \<and> unat c' \<le> 1 \<and> int (words_val rs + (\<Sum>k<n. unat (y (i + k)) * 2 ^ (64 * k)) + unat c) =
      int ((\<Sum>k<n. unat (x (i + k)) * 2 ^ (64 * k)) + 2 ^ (64 * n) * unat c')"
    by (simp add: sum_subtractf left_diff_distrib)
  then show ?thesis unfolding of_nat_eq_iff .
qed

lemma mul_add_tail:
  assumes "words_tail (\<lambda>i. mul_add (x i) (y i) w) i n c = (rs, c')"
  shows "length rs = n \<and>
    words_val rs + 2 ^ (64 * n) * unat c' = (\<Sum>k<n. unat (x (i + k)) * 2 ^ (64 * k)) + unat w * (\<Sum>k<n. unat (y (i + k)) * 2 ^ (64 * k)) + unat c"
proof -
  have "True \<and> length rs = n \<and> int (words_val rs) + 1 * 2 ^ (64 * n) * int (unat c') =
      (\<Sum>k<n. int (unat (x (i + k)) + unat w * unat (y (i + k))) * 2 ^ (64 * k)) + 1 * int (unat c)"
  proof (rule words_tail_val [where P = "\<lambda>_. True", OF _ TrueI assms])
    fix j c r c' assume "mul_add (x j) (y j) w c = (r, c')"
    from mul_add_val [OF this] have "int (unat r + 2 ^ 64 * unat c') = int (unat w * unat (y j) + unat (x j) + unat c)" by simp
    then show "True \<and> int (unat r) + 1 * 2 ^ 64 * int (unat c') = int (unat (x j) + unat w * unat (y j)) + 1 * int (unat c)"
      by simp
  qed
  then have "length rs = n \<and> int (words_val rs + 2 ^ (64 * n) * unat c') =
      int ((\<Sum>k<n. unat (x (i + k)) * 2 ^ (64 * k)) + unat w * (\<Sum>k<n. unat (y (i + k)) * 2 ^ (64 * k)) + unat c)"
    by (simp add: sum.distrib distrib_right sum_distrib_left mult.assoc)
  then show ?thesis unfolding of_nat_eq_iff .
qed

lemma bn_add_words_val:
  assumes "bn_add_words a b n = (rs, c)" "n \<le> length a" "n \<le> length b"
  shows "length rs = n" "unat c \<le> 1" "words_val rs + 2 ^ (64 * n) * unat c = words_val (take n a) + words_val (take n b)"
proof -
  have "words_tail (\<lambda>i. CRYPTO_addc_w (a ! i) (b ! i)) 0 n 0 = (rs, c)"
    using assms(1) by (auto simp: bn_add_words_def words_blocks_eq split: if_splits)
  from addc_tail [OF this] show "length rs = n" "unat c \<le> 1"
    "words_val rs + 2 ^ (64 * n) * unat c = words_val (take n a) + words_val (take n b)"
    using assms(2,3) by (simp_all add: words_val_sum)
qed

lemma bn_sub_words_val:
  assumes "bn_sub_words a b n = (rs, c)" "n \<le> length a" "n \<le> length b"
  shows "length rs = n" "unat c \<le> 1" "words_val rs + words_val (take n b) = words_val (take n a) + 2 ^ (64 * n) * unat c"
proof -
  have "words_tail (\<lambda>i. CRYPTO_subc_w (a ! i) (b ! i)) 0 n 0 = (rs, c)"
    using assms(1) by (auto simp: bn_sub_words_def words_blocks_eq split: if_splits)
  from subc_tail [OF this] show "length rs = n" "unat c \<le> 1"
    "words_val rs + words_val (take n b) = words_val (take n a) + 2 ^ (64 * n) * unat c"
    using assms(2,3) by (simp_all add: words_val_sum)
qed

lemma bn_mul_words_val:
  assumes "bn_mul_words a n w = (rs, c)" "n \<le> length a"
  shows "length rs = n" "words_val rs + 2 ^ (64 * n) * unat c = unat w * words_val (take n a)"
proof -
  have "words_tail (\<lambda>i. mul_add 0 (a ! i) w) 0 n 0 = (rs, c)"
    using assms(1) by (auto simp: bn_mul_words_def mul_w_eq words_blocks_eq split: if_splits)
  from mul_add_tail [OF this] show "length rs = n" "words_val rs + 2 ^ (64 * n) * unat c = unat w * words_val (take n a)"
    using assms(2) by (simp_all add: words_val_sum)
qed

lemma bn_mul_add_words_val:
  assumes "bn_mul_add_words r a n w = (rs, c)" "n \<le> length a" "n \<le> length r"
  shows "length rs = n" "words_val rs + 2 ^ (64 * n) * unat c = words_val (take n r) + unat w * words_val (take n a)"
proof -
  have "words_tail (\<lambda>i. mul_add (r ! i) (a ! i) w) 0 n 0 = (rs, c)"
    using assms(1) by (auto simp: bn_mul_add_words_def words_blocks_eq split: if_splits)
  from mul_add_tail [OF this] show "length rs = n"
    "words_val rs + 2 ^ (64 * n) * unat c = words_val (take n r) + unat w * words_val (take n a)"
    using assms(2,3) by (simp_all add: words_val_sum)
qed

section \<open>Comparison\<close>

text \<open>The loop \<open>mask |= w[i]\<close> over the words from \<open>lo\<close> up to \<open>hi\<close>.\<close>

definition words_or :: "BN_ULONG list \<Rightarrow> nat \<Rightarrow> nat \<Rightarrow> BN_ULONG" where
  "words_or ws lo hi = fold (\<lambda>i m. m OR ws ! i) [lo..<hi] 0"

definition bn_cmp_words_consttime :: "BN_ULONG list \<Rightarrow> nat \<Rightarrow> BN_ULONG list \<Rightarrow> nat \<Rightarrow> 32 word" where
  "bn_cmp_words_consttime a a_len b b_len =
     (let n = (if a_len < b_len then a_len else b_len);
          ret = fold (\<lambda>i ret.
                  let eq = constant_time_eq_w (a ! i) (b ! i); lt = constant_time_lt_w (a ! i) (b ! i)
                  in constant_time_select_int eq ret (constant_time_select_int lt (- 1) 1)) [0..<n] 0
      in if a_len < b_len then constant_time_select_int (constant_time_is_zero_w (words_or b a_len b_len)) ret (- 1)
         else if b_len < a_len then constant_time_select_int (constant_time_is_zero_w (words_or a b_len a_len)) ret 1
         else ret)"

definition bn_less_than_words :: "BN_ULONG list \<Rightarrow> BN_ULONG list \<Rightarrow> nat \<Rightarrow> bool" where
  "bn_less_than_words a b len \<longleftrightarrow> sint (bn_cmp_words_consttime a len b len) < 0"

definition bn_select_words :: "BN_ULONG \<Rightarrow> BN_ULONG list \<Rightarrow> BN_ULONG list \<Rightarrow> nat \<Rightarrow> BN_ULONG list" where
  "bn_select_words m a b num = map (\<lambda>i. constant_time_select_w m (a ! i) (b ! i)) [0..<num]"

lemma words_or_fold: "fold (\<lambda>i m. m OR ws ! i) is (m :: BN_ULONG) = 0 \<longleftrightarrow> m = 0 \<and> (\<forall>i\<in>set is. ws ! i = 0)"
  by (induction "is" arbitrary: m) (auto simp: bit_eq_iff bit_simps)

lemma words_or_zero:
  assumes "hi \<le> length ws"
  shows "words_or ws lo hi = 0 \<longleftrightarrow> words_val (drop lo (take hi ws)) = 0"
proof -
  have "words_or ws lo hi = 0 \<longleftrightarrow> (\<forall>i\<in>{lo..<hi}. ws ! i = 0)" by (simp add: words_or_def words_or_fold)
  also have "\<dots> \<longleftrightarrow> (\<forall>w\<in>set (drop lo (take hi ws)). w = 0)"
  proof -
    have "drop lo (take hi ws) = map ((!) ws) [lo..<hi]"
      using assms by (intro nth_equalityI) simp_all
    then show ?thesis by simp
  qed
  finally show ?thesis by (simp add: words_val_eq_0)
qed

definition cmp3 :: "nat \<Rightarrow> nat \<Rightarrow> 32 word" where
  "cmp3 x y = (if x < y then - 1 else if x = y then 0 else 1)"

lemma sint_cmp3: "sint (cmp3 x y) = sgn (int x - int y)"
  by (simp add: cmp3_def sgn_if)

lemma cmp3_top:
  assumes "x < m" "y < m"
  shows "cmp3 (x + m * u) (y + m * v) = (if u = v then cmp3 x y else if u < v then - 1 else 1)"
proof -
  have lt: "x + m * u < y + m * v" if "u < v" "x < m" for x y u v
  proof -
    have "m * Suc u \<le> m * v" using that by (intro mult_le_mono2) simp
    then show ?thesis using that(2) by simp
  qed
  show ?thesis
  proof (cases u v rule: linorder_cases)
    case less
    with lt [OF this assms(1), of y] show ?thesis by (simp add: cmp3_def)
  next
    case greater
    with lt [OF this assms(2), of x] show ?thesis by (simp add: cmp3_def)
  qed (simp add: cmp3_def)
qed

lemma cmp_loop:
  assumes "n \<le> length a" "n \<le> length b"
  shows "fold (\<lambda>i ret. let eq = constant_time_eq_w (a ! i) (b ! i); lt = constant_time_lt_w (a ! i) (b ! i)
      in constant_time_select_int eq ret (constant_time_select_int lt (- 1) 1)) [0..<n] 0 = cmp3 (words_val (take n a)) (words_val (take n b))"
  using assms
proof (induction n)
  case (Suc n)
  have less: "words_val (take n a) < 2 ^ (64 * n)" "words_val (take n b) < 2 ^ (64 * n)"
    using words_val_less [of "take n a"] words_val_less [of "take n b"] Suc.prems by (simp_all add: min_absorb2)
  have "cmp3 (words_val (take (Suc n) a)) (words_val (take (Suc n) b)) =
      (if a ! n = b ! n then cmp3 (words_val (take n a)) (words_val (take n b)) else if a ! n < b ! n then - 1 else 1)"
    using Suc.prems cmp3_top [OF less, of "unat (a ! n)" "unat (b ! n)"]
    by (simp add: take_Suc_conv_app_nth words_val_append min_absorb2 word_less_nat_alt word_unat_eq_iff [of "a ! n"])
  moreover have "fold (\<lambda>i ret. let eq = constant_time_eq_w (a ! i) (b ! i); lt = constant_time_lt_w (a ! i) (b ! i)
      in constant_time_select_int eq ret (constant_time_select_int lt (- 1) 1)) [0..<n] 0 = cmp3 (words_val (take n a)) (words_val (take n b))"
    using Suc by simp
  ultimately show ?case by (simp add: ct_mask)
qed (simp add: cmp3_def)

text \<open>The loop over the common words, then the precedence of the words the other operand lacks.\<close>

lemma bn_cmp_words_val:
  assumes "a_len \<le> length a" "b_len \<le> length b"
  shows "bn_cmp_words_consttime a a_len b b_len = cmp3 (words_val (take a_len a)) (words_val (take b_len b))"
proof -
  have split: "words_val (take hi ws) = words_val (take lo ws) + 2 ^ (64 * lo) * words_val (drop lo (take hi ws))"
    if "lo \<le> hi" "hi \<le> length ws" for lo hi ws
    using that words_val_append [of "take lo (take hi ws)" "drop lo (take hi ws)"]
    unfolding append_take_drop_id by (simp add: min_absorb2 min_absorb1)
  have bound: "words_val (take n ws) < 2 ^ (64 * n)" if "n \<le> length ws" for n ws
    using that words_val_less [of "take n ws"] by (simp add: min_absorb2)
  show ?thesis
  proof (cases a_len b_len rule: linorder_cases)
    case less
    with assms show ?thesis
      using split [of a_len b_len b] cmp3_top [OF bound [of a_len a] bound [of a_len b], where u = 0] cmp_loop [of a_len a b] words_or_zero [of b_len b a_len]
      by (simp add: bn_cmp_words_consttime_def ct_mask)
  next
    case equal
    with assms show ?thesis using cmp_loop [of a_len a b] by (simp add: bn_cmp_words_consttime_def)
  next
    case greater
    with assms show ?thesis
      using split [of b_len a_len a] cmp3_top [OF bound [of b_len a] bound [of b_len b], where v = 0] cmp_loop [of b_len a b] words_or_zero [of a_len a b_len]
      by (simp add: bn_cmp_words_consttime_def ct_mask)
  qed
qed

lemma bn_select_words_mask:
  "num \<le> length a \<Longrightarrow> num \<le> length b \<Longrightarrow> bn_select_words (if s then - 1 else 0) a b num = take num (if s then a else b)"
  by (simp add: bn_select_words_def ct_mask map_nth_prefix)

end
