(* ===== verification/Bn.thy ===== *)
theory Bn
  imports BnWords Mem
begin

text \<open>
  Multi-precision integers: \<^verbatim>\<open>crypto/fipsmodule/bn/bn.c\<close>, \<^verbatim>\<open>cmp.c\<close> and \<^verbatim>\<open>add.c\<close>, on a 64-bit platform.

  A \<open>BIGNUM\<close> is the record of its fields; \<open>d\<close> is the whole allocated array (the empty list for NULL) and
  the words of the number are its first \<open>width\<close> ones. A function that writes to a destination takes the
  destination as its last argument and returns it changed, on failure as well. Operands are other
  objects than the destination or the destination itself with the value it has on entry.
\<close>

record BIGNUM =
  bn_d :: "BN_ULONG list"
  bn_width :: nat
  bn_dmax :: nat
  bn_neg :: bool
  bn_flags :: "32 word"

abbreviation (input) BN_FLG_MALLOCED :: "32 word" where "BN_FLG_MALLOCED \<equiv> 1"
abbreviation (input) BN_FLG_STATIC_DATA :: "32 word" where "BN_FLG_STATIC_DATA \<equiv> 2"

definition BN_MAX_WORDS :: nat where
  "BN_MAX_WORDS = INT_MAX div (4 * 64)"

section \<open>Objects\<close>

definition BN_init :: BIGNUM where
  "BN_init = \<lparr>bn_d = [], bn_width = 0, bn_dmax = 0, bn_neg = False, bn_flags = 0\<rparr>"

definition BN_new :: "allocator \<Rightarrow> BIGNUM option" where
  "BN_new al = (case OPENSSL_zalloc al 24 of None \<Rightarrow> None | Some _ \<Rightarrow> Some (BN_init\<lparr>bn_flags := BN_FLG_MALLOCED\<rparr>))"

definition bn_wexpand :: "allocator \<Rightarrow> nat \<Rightarrow> (BIGNUM, unit) op" where
  "bn_wexpand al words bn =
     (if words \<le> bn_dmax bn then (Some (), bn)
      else if words > BN_MAX_WORDS then (None, bn)
      else if bn_flags bn AND BN_FLG_STATIC_DATA \<noteq> 0 then (None, bn)
      else case OPENSSL_calloc al words 8 of
             None \<Rightarrow> (None, bn)
           | Some _ \<Rightarrow> (Some (), bn\<lparr>bn_d := buf_write (replicate words 0) 0 (take (bn_width bn) (bn_d bn)), bn_dmax := words\<rparr>))"

definition bn_expand :: "allocator \<Rightarrow> nat \<Rightarrow> (BIGNUM, unit) op" where
  "bn_expand al bits bn = (if size_add bits 63 < bits then (None, bn) else bn_wexpand al (size_add bits 63 div 64) bn)"

definition BN_copy :: "allocator \<Rightarrow> BIGNUM \<Rightarrow> (BIGNUM, unit) op" where
  "BN_copy al src = pbind (bn_wexpand al (bn_width src)) (\<lambda>_ dest.
     (Some (), dest\<lparr>bn_d := buf_write (bn_d dest) 0 (take (bn_width src) (bn_d src)), bn_width := bn_width src, bn_neg := bn_neg src\<rparr>))"

definition BN_dup :: "allocator \<Rightarrow> BIGNUM option \<Rightarrow> BIGNUM option" where
  "BN_dup al src =
     (case src of
        None \<Rightarrow> None
      | Some s \<Rightarrow>
          (case BN_new al of
             None \<Rightarrow> None
           | Some copy \<Rightarrow> (case BN_copy al s copy of (None, _) \<Rightarrow> None | (Some _, copy) \<Rightarrow> Some copy)))"

definition BN_clear :: "BIGNUM \<Rightarrow> BIGNUM" where
  "BN_clear bn =
     (let bn = (if bn_d bn \<noteq> [] then bn\<lparr>bn_d := buf_write (bn_d bn) 0 (replicate (bn_dmax bn) 0)\<rparr> else bn)
      in bn\<lparr>bn_width := 0, bn_neg := False\<rparr>)"

definition BN_value_one :: BIGNUM where
  "BN_value_one = \<lparr>bn_d = [1], bn_width = 1, bn_dmax = 1, bn_neg = False, bn_flags = BN_FLG_STATIC_DATA\<rparr>"

definition BN_zero :: "BIGNUM \<Rightarrow> BIGNUM" where
  "BN_zero bn = bn\<lparr>bn_width := 0, bn_neg := False\<rparr>"

definition BN_set_word :: "allocator \<Rightarrow> BN_ULONG \<Rightarrow> (BIGNUM, unit) op" where
  "BN_set_word al v bn =
     (if v = 0 then (Some (), BN_zero bn)
      else pbind (bn_wexpand al 1) (\<lambda>_ bn. (Some (), bn\<lparr>bn_neg := False, bn_d := (bn_d bn)[0 := v], bn_width := 1\<rparr>)) bn)"

definition BN_one :: "allocator \<Rightarrow> (BIGNUM, unit) op" where
  "BN_one al = BN_set_word al 1"

definition BN_set_u64 :: "allocator \<Rightarrow> u64 \<Rightarrow> (BIGNUM, unit) op" where
  "BN_set_u64 al v = BN_set_word al v"

definition bn_set_words :: "allocator \<Rightarrow> BN_ULONG list \<Rightarrow> nat \<Rightarrow> (BIGNUM, unit) op" where
  "bn_set_words al words num = pbind (bn_wexpand al num) (\<lambda>_ bn.
     (Some (), bn\<lparr>bn_d := buf_write (bn_d bn) 0 (take num words), bn_width := num, bn_neg := False\<rparr>))"

definition bn_set_static_words :: "BN_ULONG list \<Rightarrow> nat \<Rightarrow> BIGNUM \<Rightarrow> BIGNUM" where
  "bn_set_static_words words num bn =
     bn\<lparr>bn_d := take num words, bn_width := num, bn_dmax := num, bn_neg := False, bn_flags := bn_flags bn OR BN_FLG_STATIC_DATA\<rparr>"

definition bn_fits_in_words :: "BIGNUM \<Rightarrow> nat \<Rightarrow> bool" where
  "bn_fits_in_words bn num \<longleftrightarrow> words_or (bn_d bn) num (bn_width bn) = 0"

definition bn_copy_words :: "nat \<Rightarrow> BIGNUM \<Rightarrow> BN_ULONG list option" where
  "bn_copy_words num bn =
     (if bn_neg bn then None
      else if bn_width bn > num \<and> \<not> bn_fits_in_words bn num then None
      else let width = (if bn_width bn > num then num else bn_width bn)
           in Some (buf_write (replicate num 0) 0 (take width (bn_d bn))))"

definition BN_is_zero :: "BIGNUM \<Rightarrow> bool" where
  "BN_is_zero bn \<longleftrightarrow> bn_fits_in_words bn 0"

definition BN_is_negative :: "BIGNUM \<Rightarrow> bool" where
  "BN_is_negative bn \<longleftrightarrow> bn_neg bn"

definition BN_set_negative :: "bool \<Rightarrow> BIGNUM \<Rightarrow> BIGNUM" where
  "BN_set_negative sign bn = (if sign \<and> \<not> BN_is_zero bn then bn\<lparr>bn_neg := True\<rparr> else bn\<lparr>bn_neg := False\<rparr>)"

fun minimal_width :: "BN_ULONG list \<Rightarrow> nat \<Rightarrow> nat" where
  "minimal_width d 0 = 0"
| "minimal_width d (Suc n) = (if d ! n = 0 then minimal_width d n else Suc n)"

definition bn_minimal_width :: "BIGNUM \<Rightarrow> nat" where
  "bn_minimal_width bn = minimal_width (bn_d bn) (bn_width bn)"

definition bn_set_minimal_width :: "BIGNUM \<Rightarrow> BIGNUM" where
  "bn_set_minimal_width bn =
     (let bn = bn\<lparr>bn_width := bn_minimal_width bn\<rparr>
      in if bn_width bn = 0 then bn\<lparr>bn_neg := False\<rparr> else bn)"

definition bn_resize_words :: "allocator \<Rightarrow> nat \<Rightarrow> (BIGNUM, unit) op" where
  "bn_resize_words al words bn =
     (if bn_width bn \<le> words
      then pbind (bn_wexpand al words) (\<lambda>_ bn.
             (Some (), bn\<lparr>bn_d := buf_write (bn_d bn) (bn_width bn) (replicate (words - bn_width bn) 0), bn_width := words\<rparr>)) bn
      else if \<not> bn_fits_in_words bn words then (None, bn)
      else (Some (), bn\<lparr>bn_width := words\<rparr>))"

text \<open>One round of \<open>BN_num_bits_word\<close>: the upper half is kept when it is not zero.\<close>

definition num_bits_round :: "nat \<Rightarrow> BN_ULONG \<times> nat \<Rightarrow> BN_ULONG \<times> nat" where
  "num_bits_round k = (\<lambda>(l, bits).
     let x = drop_bit k l; m = 0 - x; m = 0 - drop_bit 63 m
     in (l XOR ((x XOR l) AND m), bits + unat (of_nat k AND m)))"

definition BN_num_bits_word :: "BN_ULONG \<Rightarrow> nat" where
  "BN_num_bits_word l = snd (fold num_bits_round [32, 16, 8, 4, 2, 1] (l, if l \<noteq> 0 then 1 else 0))"

definition BN_num_bits :: "BIGNUM \<Rightarrow> nat" where
  "BN_num_bits bn =
     (let width = bn_minimal_width bn
      in if width = 0 then 0 else (width - 1) * 64 + BN_num_bits_word (bn_d bn ! (width - 1)))"

definition BN_num_bytes :: "BIGNUM \<Rightarrow> nat" where
  "BN_num_bytes bn = (BN_num_bits bn + 7) div 8"

section \<open>Comparison\<close>

definition BN_ucmp :: "BIGNUM \<Rightarrow> BIGNUM \<Rightarrow> int" where
  "BN_ucmp a b = sint (bn_cmp_words_consttime (bn_d a) (bn_width a) (bn_d b) (bn_width b))"

definition BN_cmp :: "BIGNUM option \<Rightarrow> BIGNUM option \<Rightarrow> int" where
  "BN_cmp a b =
     (case (a, b) of
        (Some _, None) \<Rightarrow> - 1
      | (None, Some _) \<Rightarrow> 1
      | (None, None) \<Rightarrow> 0
      | (Some a, Some b) \<Rightarrow>
          if bn_neg a \<noteq> bn_neg b then (if bn_neg a then - 1 else 1)
          else let ret = BN_ucmp a b in if bn_neg a then - ret else ret)"

definition BN_abs_is_word :: "BIGNUM \<Rightarrow> BN_ULONG \<Rightarrow> bool" where
  "BN_abs_is_word bn w \<longleftrightarrow>
     (if bn_width bn = 0 then w = 0
      else fold (\<lambda>i m. m OR bn_d bn ! i) [1..<bn_width bn] (bn_d bn ! 0 XOR w) = 0)"

definition BN_cmp_word :: "BIGNUM \<Rightarrow> BN_ULONG \<Rightarrow> int" where
  "BN_cmp_word a b =
     BN_cmp (Some a) (Some (BN_init\<lparr>bn_d := [b], bn_width := (if b > 0 then 1 else 0), bn_dmax := 1, bn_flags := BN_FLG_STATIC_DATA\<rparr>))"

definition BN_is_one :: "BIGNUM \<Rightarrow> bool" where
  "BN_is_one bn \<longleftrightarrow> \<not> bn_neg bn \<and> BN_abs_is_word bn 1"

definition BN_is_word :: "BIGNUM \<Rightarrow> BN_ULONG \<Rightarrow> bool" where
  "BN_is_word bn w \<longleftrightarrow> BN_abs_is_word bn w \<and> (w = 0 \<or> \<not> bn_neg bn)"

definition BN_is_odd :: "BIGNUM \<Rightarrow> bool" where
  "BN_is_odd bn \<longleftrightarrow> bn_width bn > 0 \<and> bn_d bn ! 0 AND 1 = 1"

definition BN_is_pow2 :: "BIGNUM \<Rightarrow> bool" where
  "BN_is_pow2 bn =
     (let width = bn_minimal_width bn
      in if width = 0 \<or> bn_neg bn then False
         else if \<exists>i<width - 1. bn_d bn ! i \<noteq> 0 then False
         else bn_d bn ! (width - 1) AND (bn_d bn ! (width - 1) - 1) = 0)"

definition BN_equal_consttime :: "BIGNUM \<Rightarrow> BIGNUM \<Rightarrow> bool" where
  "BN_equal_consttime a b =
     (let m = words_or (bn_d b) (bn_width a) (bn_width b);
          m = fold (\<lambda>i m. m OR bn_d a ! i) [bn_width b..<bn_width a] m;
          n = (if bn_width a < bn_width b then bn_width a else bn_width b);
          m = fold (\<lambda>i m. m OR (bn_d a ! i XOR bn_d b ! i)) [0..<n] m;
          m = m OR (if bn_neg a \<noteq> bn_neg b then 1 else 0)
      in m = 0)"

section \<open>Addition and subtraction\<close>

definition bn_uadd_consttime :: "allocator \<Rightarrow> BIGNUM \<Rightarrow> BIGNUM \<Rightarrow> (BIGNUM, unit) op" where
  "bn_uadd_consttime al a b =
     (let (a, b) = (if bn_width a < bn_width b then (b, a) else (a, b)); mx = bn_width a; mn = bn_width b
      in pbind (bn_wexpand al (mx + 1)) (\<lambda>_ r.
           let r = r\<lparr>bn_width := mx + 1\<rparr>;
               (lo, carry) = bn_add_words (bn_d a) (bn_d b) mn;
               (hi, carry) = words_tail (\<lambda>i. CRYPTO_addc_w (bn_d a ! i) 0) mn (mx - mn) carry
           in (Some (), r\<lparr>bn_d := buf_write (bn_d r) 0 (lo @ hi @ [carry])\<rparr>)))"

definition BN_uadd :: "allocator \<Rightarrow> BIGNUM \<Rightarrow> BIGNUM \<Rightarrow> (BIGNUM, unit) op" where
  "BN_uadd al a b = pbind (bn_uadd_consttime al a b) (\<lambda>_ r. (Some (), bn_set_minimal_width r))"

definition bn_usub_consttime :: "allocator \<Rightarrow> BIGNUM \<Rightarrow> BIGNUM \<Rightarrow> (BIGNUM, unit) op" where
  "bn_usub_consttime al a b r =
     (if bn_width b > bn_width a \<and> \<not> bn_fits_in_words b (bn_width a) then (None, r)
      else let b_width = (if bn_width b > bn_width a then bn_width a else bn_width b)
           in pbind (bn_wexpand al (bn_width a)) (\<lambda>_ r.
                let (lo, borrow) = bn_sub_words (bn_d a) (bn_d b) b_width;
                    (hi, borrow) = words_tail (\<lambda>i. CRYPTO_subc_w (bn_d a ! i) 0) b_width (bn_width a - b_width) borrow;
                    r = r\<lparr>bn_d := buf_write (bn_d r) 0 (lo @ hi)\<rparr>
                in if borrow \<noteq> 0 then (None, r)
                   else (Some (), r\<lparr>bn_width := bn_width a, bn_neg := False\<rparr>)) r)"

definition BN_usub :: "allocator \<Rightarrow> BIGNUM \<Rightarrow> BIGNUM \<Rightarrow> (BIGNUM, unit) op" where
  "BN_usub al a b = pbind (bn_usub_consttime al a b) (\<lambda>_ r. (Some (), bn_set_minimal_width r))"

text \<open>The difference of two magnitudes with its sign, the common end of \<open>BN_add\<close> and \<open>BN_sub\<close>.\<close>

definition signed_usub :: "allocator \<Rightarrow> BIGNUM \<Rightarrow> BIGNUM \<Rightarrow> (BIGNUM, unit) op" where
  "signed_usub al a b =
     (if BN_ucmp a b < 0 then pbind (BN_usub al b a) (\<lambda>_ r. (Some (), r\<lparr>bn_neg := True\<rparr>))
      else pbind (BN_usub al a b) (\<lambda>_ r. (Some (), r\<lparr>bn_neg := False\<rparr>)))"

definition BN_add :: "allocator \<Rightarrow> BIGNUM \<Rightarrow> BIGNUM \<Rightarrow> (BIGNUM, unit) op" where
  "BN_add al a b r =
     (if bn_neg a \<noteq> bn_neg b
      then let (x, y) = (if bn_neg a then (b, a) else (a, b)) in signed_usub al x y r
      else case BN_uadd al a b r of (ret, r) \<Rightarrow> (ret, r\<lparr>bn_neg := bn_neg a\<rparr>))"

definition BN_sub :: "allocator \<Rightarrow> BIGNUM \<Rightarrow> BIGNUM \<Rightarrow> (BIGNUM, unit) op" where
  "BN_sub al a b =
     (if bn_neg a \<and> \<not> bn_neg b then pbind (BN_uadd al a b) (\<lambda>_ r. (Some (), r\<lparr>bn_neg := True\<rparr>))
      else if \<not> bn_neg a \<and> bn_neg b then pbind (BN_uadd al a b) (\<lambda>_ r. (Some (), r\<lparr>bn_neg := False\<rparr>))
      else let (x, y) = (if bn_neg a then (b, a) else (a, b)) in signed_usub al x y)"

text \<open>The loops of \<open>BN_add_word\<close> and \<open>BN_sub_word\<close>. A borrow cannot leave the array: the caller has ruled it out.\<close>

function add_word_loop :: "BN_ULONG list \<Rightarrow> nat \<Rightarrow> nat \<Rightarrow> BN_ULONG \<Rightarrow> BN_ULONG list \<times> nat \<times> BN_ULONG" where
  "add_word_loop d width i w =
     (if w \<noteq> 0 \<and> i < width
      then let l = d ! i + w in add_word_loop (d[i := l]) width (Suc i) (if w > l then 1 else 0)
      else (d, i, w))"
  by pat_completeness auto
termination by (relation "measure (\<lambda>(d, width, i, w). width - i)") auto

function sub_word_loop :: "BN_ULONG list \<Rightarrow> nat \<Rightarrow> BN_ULONG \<Rightarrow> BN_ULONG list \<times> nat" where
  "sub_word_loop d i w =
     (if i < length d
      then if d ! i \<ge> w then (d[i := d ! i - w], i) else sub_word_loop (d[i := d ! i - w]) (Suc i) 1
      else (d, i))"
  by pat_completeness auto
termination by (relation "measure (\<lambda>(d, i, w). length d - i)") auto

declare add_word_loop.simps [simp del] sub_word_loop.simps [simp del]

function BN_add_word :: "allocator \<Rightarrow> BN_ULONG \<Rightarrow> (BIGNUM, unit) op"
  and BN_sub_word :: "allocator \<Rightarrow> BN_ULONG \<Rightarrow> (BIGNUM, unit) op" where
  "BN_add_word al w a =
     (if w = 0 then (Some (), a)
      else if BN_is_zero a then BN_set_word al w a
      else if bn_neg a
      then case BN_sub_word al w (a\<lparr>bn_neg := False\<rparr>) of
             (i, a) \<Rightarrow> (i, if \<not> BN_is_zero a then a\<lparr>bn_neg := \<not> bn_neg a\<rparr> else a)
      else case add_word_loop (bn_d a) (bn_width a) 0 w of
             (d, i, w) \<Rightarrow>
               (let a = a\<lparr>bn_d := d\<rparr>
                in if w \<noteq> 0 \<and> i = bn_width a
                   then pbind (bn_wexpand al (bn_width a + 1)) (\<lambda>_ a.
                          (Some (), a\<lparr>bn_width := bn_width a + 1, bn_d := (bn_d a)[i := w]\<rparr>)) a
                   else (Some (), a)))"
| "BN_sub_word al w a =
     (if w = 0 then (Some (), a)
      else if BN_is_zero a
      then pbind (BN_set_word al w) (\<lambda>_ a. (Some (), BN_set_negative True a)) a
      else if bn_neg a
      then case BN_add_word al w (a\<lparr>bn_neg := False\<rparr>) of (i, a) \<Rightarrow> (i, a\<lparr>bn_neg := True\<rparr>)
      else if bn_minimal_width a = 1 \<and> bn_d a ! 0 < w
      then (Some (), a\<lparr>bn_d := (bn_d a)[0 := w - bn_d a ! 0], bn_neg := True\<rparr>)
      else case sub_word_loop (bn_d a) 0 w of
             (d, i) \<Rightarrow>
               (let a = a\<lparr>bn_d := d\<rparr>
                in (Some (), if d ! i = 0 \<and> i + 1 = bn_width a then a\<lparr>bn_width := bn_width a - 1\<rparr> else a)))"
  by pat_completeness auto
termination
  by (relation "measure (\<lambda>x. case x of Inl (al, w, a) \<Rightarrow> (if bn_neg a then 1 else 0) | Inr (al, w, a) \<Rightarrow> (if bn_neg a then 1 else 0))") auto

declare BN_add_word.simps [simp del] BN_sub_word.simps [simp del]

end
