(* ===== verification/BnProps.thy ===== *)
theory BnProps
  imports Bn
begin

text \<open>
  The integers that \<open>BIGNUM\<close> objects stand for, and the proof that comparison, addition and subtraction
  compute them.
\<close>

section \<open>Representation\<close>

definition bn_wf :: "BIGNUM \<Rightarrow> bool" where
  "bn_wf bn \<longleftrightarrow> length (bn_d bn) = bn_dmax bn \<and> bn_width bn \<le> bn_dmax bn \<and> bn_dmax bn \<le> BN_MAX_WORDS"

definition bn_mag :: "BIGNUM \<Rightarrow> nat" where
  "bn_mag bn = words_val (take (bn_width bn) (bn_d bn))"

definition bn_val :: "BIGNUM \<Rightarrow> int" where
  "bn_val bn = (if bn_neg bn then - int (bn_mag bn) else int (bn_mag bn))"

text \<open>There is no negative zero.\<close>

definition bn_ok :: "BIGNUM \<Rightarrow> bool" where
  "bn_ok bn \<longleftrightarrow> bn_wf bn \<and> (bn_neg bn \<longrightarrow> bn_mag bn \<noteq> 0)"

definition bn_minimal :: "BIGNUM \<Rightarrow> bool" where
  "bn_minimal bn \<longleftrightarrow> bn_width bn = 0 \<or> bn_d bn ! (bn_width bn - 1) \<noteq> 0"

text \<open>A destination that can be given \<open>words\<close> words.\<close>

definition bn_dest :: "allocator \<Rightarrow> nat \<Rightarrow> BIGNUM \<Rightarrow> bool" where
  "bn_dest al words r \<longleftrightarrow>
     bn_wf r \<and> (words \<le> bn_dmax r \<or> al_total al \<and> words \<le> BN_MAX_WORDS \<and> bn_flags r AND BN_FLG_STATIC_DATA = 0)"

lemma bn_wfD: "bn_wf bn \<Longrightarrow> bn_width bn \<le> length (bn_d bn)"
  by (simp add: bn_wf_def)

lemma length_bn_words [simp]: "bn_wf bn \<Longrightarrow> length (take (bn_width bn) (bn_d bn)) = bn_width bn"
  by (simp add: bn_wf_def)

lemma bn_mag_less: "bn_wf bn \<Longrightarrow> bn_mag bn < 2 ^ (64 * bn_width bn)"
  unfolding bn_mag_def using words_val_less [of "take (bn_width bn) (bn_d bn)"] by (simp add: bn_wf_def)

lemma bn_mag_neg [simp]: "bn_mag (bn\<lparr>bn_neg := s\<rparr>) = bn_mag bn"
  by (simp add: bn_mag_def)

lemma bn_wf_neg [simp]: "bn_wf (bn\<lparr>bn_neg := s\<rparr>) = bn_wf bn"
  by (simp add: bn_wf_def)

lemma bn_minimal_neg [simp]: "bn_minimal (bn\<lparr>bn_neg := s\<rparr>) = bn_minimal bn"
  by (simp add: bn_minimal_def)

lemma bn_dest_neg [simp]: "bn_dest al words (bn\<lparr>bn_neg := s\<rparr>) = bn_dest al words bn"
  by (simp add: bn_dest_def)

lemma bn_wexpand_ok:
  assumes "bn_dest al words r"
  shows "\<exists>r'. bn_wexpand al words r = (Some (), r') \<and> bn_wf r' \<and> words \<le> bn_dmax r' \<and> bn_width r' = bn_width r \<and>
    bn_neg r' = bn_neg r \<and> bn_flags r' = bn_flags r \<and> take (bn_width r) (bn_d r') = take (bn_width r) (bn_d r)"
proof (cases "words \<le> bn_dmax r")
  case False
  with assms have g: "bn_wf r" "al_total al" "words \<le> BN_MAX_WORDS" "bn_flags r AND BN_FLG_STATIC_DATA = 0"
    by (auto simp: bn_dest_def)
  have "words * 8 + 8 \<le> SIZE_MAX" using g(3) by (simp add: BN_MAX_WORDS_def)
  from OPENSSL_calloc_total [OF g(2) this] False g show ?thesis
    by (auto simp: bn_wexpand_def bn_wf_def buf_write_def)
qed (use assms in \<open>auto simp: bn_wexpand_def bn_dest_def\<close>)

lemma minimal_width_le: "minimal_width d n \<le> n"
  by (induction n) auto

lemma minimal_width_top: "minimal_width d n \<noteq> 0 \<Longrightarrow> d ! (minimal_width d n - 1) \<noteq> 0"
  by (induction n) auto

lemma minimal_width_val: "n \<le> length d \<Longrightarrow> words_val (take (minimal_width d n) d) = words_val (take n d)"
  by (induction n) (simp_all add: take_Suc_conv_app_nth words_val_append)

lemma minimal_width_zero: "n \<le> length d \<Longrightarrow> minimal_width d n = 0 \<longleftrightarrow> words_val (take n d) = 0"
  by (induction n) (auto simp: take_Suc_conv_app_nth words_val_append unat_eq_zero)

lemma bn_set_minimal_width_ok:
  assumes "bn_wf bn"
  shows "bn_ok (bn_set_minimal_width bn)" "bn_mag (bn_set_minimal_width bn) = bn_mag bn" "bn_minimal (bn_set_minimal_width bn)"
    "bn_neg (bn_set_minimal_width bn) = (bn_neg bn \<and> bn_mag bn \<noteq> 0)" "bn_flags (bn_set_minimal_width bn) = bn_flags bn"
proof -
  note w = minimal_width_le [of "bn_d bn" "bn_width bn"] minimal_width_val [OF bn_wfD [OF assms]]
    minimal_width_zero [OF bn_wfD [OF assms]]
  show m: "bn_mag (bn_set_minimal_width bn) = bn_mag bn"
    using w by (simp add: bn_set_minimal_width_def bn_minimal_width_def Let_def bn_mag_def)
  show n: "bn_neg (bn_set_minimal_width bn) = (bn_neg bn \<and> bn_mag bn \<noteq> 0)"
    using w by (simp add: bn_set_minimal_width_def bn_minimal_width_def Let_def bn_mag_def)
  show "bn_ok (bn_set_minimal_width bn)"
    unfolding bn_ok_def m n using assms w by (simp add: bn_set_minimal_width_def bn_minimal_width_def Let_def bn_wf_def)
  show "bn_minimal (bn_set_minimal_width bn)"
    using minimal_width_top [of "bn_d bn" "bn_width bn"]
    by (auto simp: bn_set_minimal_width_def bn_minimal_width_def Let_def bn_minimal_def)
  show "bn_flags (bn_set_minimal_width bn) = bn_flags bn" by (simp add: bn_set_minimal_width_def Let_def)
qed

section \<open>Comparison\<close>

lemma BN_ucmp_val: "bn_wf a \<Longrightarrow> bn_wf b \<Longrightarrow> BN_ucmp a b = sgn (int (bn_mag a) - int (bn_mag b))"
  by (simp add: BN_ucmp_def bn_cmp_words_val bn_wfD sint_cmp3 bn_mag_def)

lemma BN_cmp_val:
  assumes "bn_ok a" "bn_ok b"
  shows "BN_cmp (Some a) (Some b) = sgn (bn_val a - bn_val b)"
proof -
  have "BN_ucmp a b = sgn (int (bn_mag a) - int (bn_mag b))" using assms by (simp add: BN_ucmp_val bn_ok_def)
  then show ?thesis using assms by (auto simp: BN_cmp_def bn_val_def bn_ok_def sgn_if)
qed

lemma bn_fits_iff: "bn_wf bn \<Longrightarrow> bn_fits_in_words bn num \<longleftrightarrow> words_val (drop num (take (bn_width bn) (bn_d bn))) = 0"
  by (simp add: bn_fits_in_words_def words_or_zero bn_wfD)

lemma BN_is_zero_iff: "bn_wf bn \<Longrightarrow> BN_is_zero bn \<longleftrightarrow> bn_mag bn = 0"
  by (simp add: BN_is_zero_def bn_fits_iff bn_mag_def)

text \<open>The words up to \<open>num\<close> and the rest.\<close>

lemma bn_mag_split:
  assumes "bn_wf bn" "num \<le> bn_width bn"
  shows "bn_mag bn = words_val (take num (bn_d bn)) + 2 ^ (64 * num) * words_val (drop num (take (bn_width bn) (bn_d bn)))"
  using words_val_append [of "take num (take (bn_width bn) (bn_d bn))" "drop num (take (bn_width bn) (bn_d bn))"] assms bn_wfD [OF assms(1)]
  unfolding append_take_drop_id bn_mag_def by (simp add: min_absorb1 min_absorb2)

section \<open>Addition and subtraction of magnitudes\<close>

lemma uadd_words:
  assumes "bn_wf a" "bn_wf b" "bn_width b \<le> bn_width a"
    and "bn_add_words (bn_d a) (bn_d b) (bn_width b) = (lo, c)"
    and "words_tail (\<lambda>i. CRYPTO_addc_w (bn_d a ! i) 0) (bn_width b) (bn_width a - bn_width b) c = (hi, c')"
  shows "length (lo @ hi @ [c']) = bn_width a + 1" "words_val (lo @ hi @ [c']) = bn_mag a + bn_mag b"
proof -
  let ?n = "bn_width b" and ?m = "bn_width a - bn_width b"
  have l: "?n \<le> length (bn_d a)" "?n \<le> length (bn_d b)" "?n + ?m \<le> length (bn_d a)" using assms(1-3) by (auto simp: bn_wf_def)
  note lo = bn_add_words_val [OF assms(4) l(1,2)]
  note hi = addc_tail [OF assms(5) lo(2)]
  let ?w = "words_val (drop ?n (take (bn_width a) (bn_d a)))"
  have "drop ?n (take (bn_width a) (bn_d a)) = take ?m (drop ?n (bn_d a))" by (simp add: drop_take)
  then have h: "words_val hi + 2 ^ (64 * ?m) * unat c' = ?w + unat c"
    using hi words_window [OF l(3)] by simp
  have "words_val (lo @ hi @ [c']) = words_val lo + 2 ^ (64 * ?n) * (words_val hi + 2 ^ (64 * ?m) * unat c')"
    using lo(1) hi by (simp add: words_val_append)
  also have "\<dots> = (words_val lo + 2 ^ (64 * ?n) * unat c) + 2 ^ (64 * ?n) * ?w"
    unfolding h by (simp add: algebra_simps)
  also have "\<dots> = bn_mag a + bn_mag b"
    unfolding lo(3) bn_mag_split [OF assms(1,3)] by (simp add: bn_mag_def)
  finally show "words_val (lo @ hi @ [c']) = bn_mag a + bn_mag b" .
  show "length (lo @ hi @ [c']) = bn_width a + 1" using lo(1) hi assms(3) by simp
qed

lemma bn_uadd_consttime_ok:
  assumes "bn_wf a" "bn_wf b" "bn_dest al (max (bn_width a) (bn_width b) + 1) r"
  shows "\<exists>r'. bn_uadd_consttime al a b r = (Some (), r') \<and> bn_wf r' \<and> bn_mag r' = bn_mag a + bn_mag b \<and>
    bn_width r' = max (bn_width a) (bn_width b) + 1 \<and> bn_flags r' = bn_flags r"
proof -
  define x y where "x = (if bn_width a < bn_width b then b else a)" and "y = (if bn_width a < bn_width b then a else b)"
  have xy: "bn_wf x" "bn_wf y" "bn_width y \<le> bn_width x" "max (bn_width a) (bn_width b) = bn_width x" "bn_mag a + bn_mag b = bn_mag x + bn_mag y"
    using assms(1,2) by (auto simp: x_def y_def)
  obtain lo c where lo: "bn_add_words (bn_d x) (bn_d y) (bn_width y) = (lo, c)" by force
  obtain hi c' where hi: "words_tail (\<lambda>i. CRYPTO_addc_w (bn_d x ! i) 0) (bn_width y) (bn_width x - bn_width y) c = (hi, c')" by force
  note w = uadd_words [OF xy(1-3) lo hi]
  obtain r1 where r1: "bn_wexpand al (bn_width x + 1) r = (Some (), r1)" "bn_wf r1" "bn_width x + 1 \<le> bn_dmax r1" "bn_flags r1 = bn_flags r"
    using bn_wexpand_ok [OF assms(3) [unfolded xy(4)]] by blast
  have p: "(if bn_width a < bn_width b then (b, a) else (a, b)) = (x, y)" by (simp add: x_def y_def)
  have "bn_uadd_consttime al a b r =
      (Some (), r1\<lparr>bn_width := bn_width x + 1, bn_d := buf_write (bn_d r1) 0 (lo @ hi @ [c'])\<rparr>)"
    unfolding bn_uadd_consttime_def p by (simp add: pbind_def r1(1) [unfolded Suc_eq_plus1 [symmetric]] lo hi Let_def)
  moreover have "take (bn_width x + 1) (buf_write (bn_d r1) 0 (lo @ hi @ [c'])) = lo @ hi @ [c']"
    using take_buf_write_exact [of 0 "bn_d r1" "lo @ hi @ [c']"] w(1) by simp
  moreover have "length (buf_write (bn_d r1) 0 (lo @ hi @ [c'])) = bn_dmax r1"
    using w(1) r1(2,3) by (subst length_buf_write) (simp_all add: bn_wf_def)
  ultimately show ?thesis
    using r1 w(2) xy by (simp add: bn_wf_def bn_mag_def)
qed

lemma BN_uadd_ok:
  assumes "bn_wf a" "bn_wf b" "bn_dest al (max (bn_width a) (bn_width b) + 1) r"
  shows "\<exists>r'. BN_uadd al a b r = (Some (), r') \<and> bn_ok r' \<and> bn_mag r' = bn_mag a + bn_mag b \<and> bn_minimal r' \<and> bn_flags r' = bn_flags r"
  using bn_uadd_consttime_ok [OF assms] bn_set_minimal_width_ok by (force simp: BN_uadd_def pbind_def)

text \<open>The words of a difference, with the borrow that tells whether the subtrahend is larger.\<close>

lemma usub_words:
  assumes "bn_wf a" "bn_wf b" "w \<le> bn_width a" "w \<le> bn_width b"
    and "bn_sub_words (bn_d a) (bn_d b) w = (lo, c)"
    and "words_tail (\<lambda>i. CRYPTO_subc_w (bn_d a ! i) 0) w (bn_width a - w) c = (hi, c')"
  shows "length (lo @ hi) = bn_width a" "unat c' \<le> 1"
    "words_val (lo @ hi) + words_val (take w (bn_d b)) = bn_mag a + 2 ^ (64 * bn_width a) * unat c'"
proof -
  let ?m = "bn_width a - w"
  have l: "w \<le> length (bn_d a)" "w \<le> length (bn_d b)" "w + ?m \<le> length (bn_d a)" using assms(1-4) by (auto simp: bn_wf_def)
  note lo = bn_sub_words_val [OF assms(5) l(1,2)]
  note hi = subc_tail [OF assms(6) lo(2)]
  let ?w = "words_val (drop w (take (bn_width a) (bn_d a)))"
  have "drop w (take (bn_width a) (bn_d a)) = take ?m (drop w (bn_d a))" by (simp add: drop_take)
  then have h: "words_val hi + unat c = ?w + 2 ^ (64 * ?m) * unat c'"
    using hi words_window [OF l(3)] by simp
  have e: "2 ^ (64 * w) * 2 ^ (64 * ?m) = (2 :: nat) ^ (64 * bn_width a)"
    using assms(3) by (simp add: power_add [symmetric])
  have "words_val (lo @ hi) + words_val (take w (bn_d b)) = words_val (take w (bn_d a)) + 2 ^ (64 * w) * (words_val hi + unat c)"
    using lo(1,3) by (simp add: words_val_append distrib_left)
  also have "\<dots> = words_val (take w (bn_d a)) + 2 ^ (64 * w) * ?w + 2 ^ (64 * w) * 2 ^ (64 * ?m) * unat c'"
    unfolding h by (simp add: distrib_left)
  also have "\<dots> = bn_mag a + 2 ^ (64 * bn_width a) * unat c'"
    unfolding e bn_mag_split [OF assms(1,3)] ..
  finally show "words_val (lo @ hi) + words_val (take w (bn_d b)) = bn_mag a + 2 ^ (64 * bn_width a) * unat c'" .
  show "length (lo @ hi) = bn_width a" "unat c' \<le> 1" using lo(1) hi assms(3) by simp_all
qed

lemma bn_usub_consttime_ok:
  assumes "bn_wf a" "bn_wf b" "bn_dest al (bn_width a) r" "bn_mag b \<le> bn_mag a"
  shows "\<exists>r'. bn_usub_consttime al a b r = (Some (), r') \<and> bn_ok r' \<and> bn_mag r' = bn_mag a - bn_mag b \<and> \<not> bn_neg r' \<and>
    bn_width r' = bn_width a \<and> bn_flags r' = bn_flags r"
proof -
  define w where "w = (if bn_width b > bn_width a then bn_width a else bn_width b)"
  have w: "w \<le> bn_width a" "w \<le> bn_width b" by (auto simp: w_def)
  have fits: "bn_fits_in_words b (bn_width a)" and mb: "words_val (take w (bn_d b)) = bn_mag b"
  proof -
    show "bn_fits_in_words b (bn_width a)"
    proof (cases "bn_width a < bn_width b")
      case True
      have "2 ^ (64 * bn_width a) * words_val (drop (bn_width a) (take (bn_width b) (bn_d b))) < 2 ^ (64 * bn_width a) * 1"
        using bn_mag_split [OF assms(2), of "bn_width a"] True bn_mag_less [OF assms(1)] assms(4) by linarith
      then show ?thesis by (simp add: bn_fits_iff [OF assms(2)])
    qed (simp add: bn_fits_iff [OF assms(2)])
    then show "words_val (take w (bn_d b)) = bn_mag b"
      using bn_mag_split [OF assms(2), of "bn_width a"] by (auto simp: bn_fits_iff [OF assms(2)] w_def bn_mag_def)
  qed
  obtain lo c where lo: "bn_sub_words (bn_d a) (bn_d b) w = (lo, c)" by force
  obtain hi c' where hi: "words_tail (\<lambda>i. CRYPTO_subc_w (bn_d a ! i) 0) w (bn_width a - w) c = (hi, c')" by force
  note u = usub_words [OF assms(1,2) w lo hi, unfolded mb]
  have "words_val (lo @ hi) < 2 ^ (64 * bn_width a)" using words_val_less [of "lo @ hi"] unfolding u(1) .
  then have "2 ^ (64 * bn_width a) * unat c' < 2 ^ (64 * bn_width a) * 1" using u(3) assms(4) by linarith
  then have c: "c' = 0" by (simp add: unat_eq_zero)
  obtain r1 where r1: "bn_wexpand al (bn_width a) r = (Some (), r1)" "bn_wf r1" "bn_width a \<le> bn_dmax r1" "bn_flags r1 = bn_flags r"
    using bn_wexpand_ok [OF assms(3)] by blast
  have "bn_usub_consttime al a b r =
      (Some (), r1\<lparr>bn_d := buf_write (bn_d r1) 0 (lo @ hi), bn_width := bn_width a, bn_neg := False\<rparr>)"
    unfolding bn_usub_consttime_def w_def [symmetric] using fits by (simp add: pbind_def r1(1) lo hi Let_def c)
  moreover have "take (bn_width a) (buf_write (bn_d r1) 0 (lo @ hi)) = lo @ hi"
    using take_buf_write_exact [of 0 "bn_d r1" "lo @ hi"] u(1) by simp
  moreover have "length (buf_write (bn_d r1) 0 (lo @ hi)) = bn_dmax r1"
    using u(1) r1(2,3) by (subst length_buf_write) (simp_all add: bn_wf_def)
  moreover have "words_val (lo @ hi) = bn_mag a - bn_mag b" using u(3) c by simp
  ultimately show ?thesis using r1 by (simp add: bn_ok_def bn_wf_def bn_mag_def)
qed

lemma bn_usub_consttime_less:
  assumes "bn_wf a" "bn_wf b" "bn_mag a < bn_mag b"
  shows "fst (bn_usub_consttime al a b r) = None"
proof (cases "bn_width a < bn_width b \<and> \<not> bn_fits_in_words b (bn_width a)")
  case False
  define w where "w = (if bn_width b > bn_width a then bn_width a else bn_width b)"
  have w: "w \<le> bn_width a" "w \<le> bn_width b" by (auto simp: w_def)
  have mb: "words_val (take w (bn_d b)) = bn_mag b"
    using bn_mag_split [OF assms(2), of "bn_width a"] False by (auto simp: bn_fits_iff [OF assms(2)] w_def bn_mag_def)
  obtain lo c where lo: "bn_sub_words (bn_d a) (bn_d b) w = (lo, c)" by force
  obtain hi c' where hi: "words_tail (\<lambda>i. CRYPTO_subc_w (bn_d a ! i) 0) w (bn_width a - w) c = (hi, c')" by force
  have "c' \<noteq> 0" using usub_words(3) [OF assms(1,2) w lo hi, unfolded mb] assms(3) by auto
  then show ?thesis unfolding bn_usub_consttime_def w_def [symmetric] if_not_P [OF False]
    by (simp add: pbind_def lo hi Let_def split: prod.split option.split)
qed (simp add: bn_usub_consttime_def)

lemma BN_usub_ok:
  assumes "bn_wf a" "bn_wf b" "bn_dest al (bn_width a) r" "bn_mag b \<le> bn_mag a"
  shows "\<exists>r'. BN_usub al a b r = (Some (), r') \<and> bn_ok r' \<and> bn_mag r' = bn_mag a - bn_mag b \<and> \<not> bn_neg r' \<and> bn_minimal r' \<and> bn_flags r' = bn_flags r"
proof -
  obtain r1 where r1: "bn_usub_consttime al a b r = (Some (), r1)" "bn_ok r1" "bn_mag r1 = bn_mag a - bn_mag b" "\<not> bn_neg r1" "bn_flags r1 = bn_flags r"
    using bn_usub_consttime_ok [OF assms] by blast
  from bn_set_minimal_width_ok [of r1] r1 show ?thesis by (simp add: BN_usub_def pbind_def bn_ok_def)
qed

section \<open>Signed addition and subtraction\<close>

lemma bn_dest_mono: "bn_dest al n r \<Longrightarrow> m \<le> n \<Longrightarrow> bn_dest al m r"
  by (auto simp: bn_dest_def)

text \<open>What a successful operation leaves in its destination.\<close>

definition bn_result :: "BIGNUM \<Rightarrow> int \<Rightarrow> bool" where
  "bn_result r v \<longleftrightarrow> bn_ok r \<and> bn_val r = v \<and> bn_minimal r"

lemma signed_usub_ok:
  assumes "bn_wf a" "bn_wf b" "bn_dest al (max (bn_width a) (bn_width b)) r"
  shows "\<exists>r'. signed_usub al a b r = (Some (), r') \<and> bn_result r' (int (bn_mag a) - int (bn_mag b))"
proof (cases "bn_mag a < bn_mag b")
  case True
  then have u: "BN_ucmp a b < 0" using assms by (simp add: BN_ucmp_val)
  obtain r1 where "BN_usub al b a r = (Some (), r1)" "bn_ok r1" "bn_mag r1 = bn_mag b - bn_mag a" "bn_minimal r1"
    using BN_usub_ok [OF assms(2,1) bn_dest_mono [OF assms(3)]] True by auto
  with True u show ?thesis by (simp add: signed_usub_def pbind_def bn_result_def bn_ok_def bn_val_def)
next
  case False
  then have u: "\<not> BN_ucmp a b < 0" using assms by (simp add: BN_ucmp_val sgn_if)
  obtain r1 where "BN_usub al a b r = (Some (), r1)" "bn_ok r1" "bn_mag r1 = bn_mag a - bn_mag b" "bn_minimal r1" "\<not> bn_neg r1"
    using BN_usub_ok [OF assms(1,2) bn_dest_mono [OF assms(3)]] False by auto
  with False u show ?thesis by (simp add: signed_usub_def pbind_def bn_result_def bn_ok_def bn_val_def)
qed

lemma BN_add_ok:
  assumes "bn_ok a" "bn_ok b" "bn_dest al (max (bn_width a) (bn_width b) + 1) r"
  shows "\<exists>r'. BN_add al a b r = (Some (), r') \<and> bn_result r' (bn_val a + bn_val b)"
proof -
  have wf: "bn_wf a" "bn_wf b" using assms by (simp_all add: bn_ok_def)
  have d: "bn_dest al (max (bn_width a) (bn_width b)) r" "bn_dest al (max (bn_width b) (bn_width a)) r"
    by (rule bn_dest_mono [OF assms(3)], linarith)+
  show ?thesis
  proof (cases "bn_neg a = bn_neg b")
    case True
    obtain r1 where "BN_uadd al a b r = (Some (), r1)" "bn_ok r1" "bn_mag r1 = bn_mag a + bn_mag b" "bn_minimal r1"
      using BN_uadd_ok [OF wf assms(3)] by blast
    with True assms(1,2) show ?thesis by (auto simp: BN_add_def bn_result_def bn_ok_def bn_val_def)
  next
    case False
    with signed_usub_ok [OF wf d(1)] signed_usub_ok [OF wf(2,1) d(2)] show ?thesis
      by (cases "bn_neg a") (simp_all add: BN_add_def bn_val_def)
  qed
qed

lemma BN_sub_ok:
  assumes "bn_ok a" "bn_ok b" "bn_dest al (max (bn_width a) (bn_width b) + 1) r"
  shows "\<exists>r'. BN_sub al a b r = (Some (), r') \<and> bn_result r' (bn_val a - bn_val b)"
proof -
  have wf: "bn_wf a" "bn_wf b" using assms by (simp_all add: bn_ok_def)
  have d: "bn_dest al (max (bn_width a) (bn_width b)) r" "bn_dest al (max (bn_width b) (bn_width a)) r"
    by (rule bn_dest_mono [OF assms(3)], linarith)+
  show ?thesis
  proof (cases "bn_neg a = bn_neg b")
    case False
    obtain r1 where "BN_uadd al a b r = (Some (), r1)" "bn_ok r1" "bn_mag r1 = bn_mag a + bn_mag b" "bn_minimal r1"
      using BN_uadd_ok [OF wf assms(3)] by blast
    with False assms(1,2) show ?thesis by (auto simp: BN_sub_def pbind_def bn_result_def bn_ok_def bn_val_def)
  next
    case True
    with signed_usub_ok [OF wf d(1)] signed_usub_ok [OF wf(2,1) d(2)] show ?thesis
      by (cases "bn_neg a") (simp_all add: BN_sub_def bn_val_def)
  qed
qed

section \<open>Adding and subtracting a word\<close>

lemma words_val_update:
  assumes "i < length d"
  shows "words_val (d[i := x]) + 2 ^ (64 * i) * unat (d ! i) = words_val d + 2 ^ (64 * i) * unat x"
proof -
  have "d = take i d @ d ! i # drop (Suc i) d" using assms by (rule id_take_nth_drop)
  then have "words_val d = words_val (take i d) + 2 ^ (64 * i) * (unat (d ! i) + 2 ^ 64 * words_val (drop (Suc i) d))"
    using assms words_val_append [of "take i d" "d ! i # drop (Suc i) d"] by (simp add: min_absorb2)
  moreover have "words_val (d[i := x]) = words_val (take i d) + 2 ^ (64 * i) * (unat x + 2 ^ 64 * words_val (drop (Suc i) d))"
    using assms words_val_append [of "take i d" "x # drop (Suc i) d"] by (simp add: upd_conv_take_nth_drop min_absorb2)
  ultimately show ?thesis by (simp add: algebra_simps)
qed

lemma add_word_step:
  fixes x w :: BN_ULONG
  shows "unat (x + w) + 2 ^ 64 * unat ((if w > x + w then 1 else 0) :: BN_ULONG) = unat x + unat w"
  using unat_u64_less [of x] unat_u64_less [of w] unat_add_lem [of x w]
  by (cases "unat x + unat w < 2 ^ 64") (auto simp: word_less_nat_alt unat_word_ariths(1) mod_if)

lemma add_word_loop_val:
  assumes "add_word_loop d n i w = (d', i', w')" "i \<le> n" "n \<le> length d"
  shows "length d' = length d \<and> i' \<le> n \<and> (w' \<noteq> 0 \<longrightarrow> i' = n) \<and>
    words_val (take n d') + 2 ^ (64 * n) * unat w' = words_val (take n d) + 2 ^ (64 * i) * unat w"
  using assms
proof (induction d n i w rule: add_word_loop.induct)
  case (1 d n i w)
  show ?case
  proof (cases "w \<noteq> 0 \<and> i < n")
    case True
    let ?l = "d ! i + w" and ?w = "(if w > d ! i + w then 1 else 0) :: BN_ULONG"
    have "add_word_loop (d[i := ?l]) n (Suc i) ?w = (d', i', w')"
      using "1.prems"(1) True by (subst (asm) add_word_loop.simps) (simp add: Let_def)
    from "1.IH" [OF True refl this] True "1.prems"
    have r: "length d' = length d" "i' \<le> n" "w' \<noteq> 0 \<longrightarrow> i' = n"
      "words_val (take n d') + 2 ^ (64 * n) * unat w' = words_val (take n (d[i := ?l])) + 2 ^ (64 * Suc i) * unat ?w"
      by simp_all
    have "words_val ((take n d)[i := ?l]) + 2 ^ (64 * i) * unat (d ! i) = words_val (take n d) + 2 ^ (64 * i) * unat ?l"
      using words_val_update [of i "take n d" ?l] True "1.prems" by (simp add: min_absorb2)
    moreover have "2 ^ (64 * i) * unat ?l + 2 ^ (64 * Suc i) * unat ?w = 2 ^ (64 * i) * (unat (d ! i) + unat w)"
      unfolding add_word_step [symmetric] by (simp add: algebra_simps power_add)
    ultimately have "words_val (take n (d[i := ?l])) + 2 ^ (64 * Suc i) * unat ?w = words_val (take n d) + 2 ^ (64 * i) * unat w"
      unfolding take_update_swap distrib_left by linarith
    with r show ?thesis by simp
  next
    case False
    with "1.prems" show ?thesis by (subst (asm) add_word_loop.simps) auto
  qed
qed

lemma sub_word_loop_val:
  assumes "sub_word_loop d i w = (d', i')" "2 ^ (64 * i) * unat w \<le> words_val (drop i (take n d)) * 2 ^ (64 * i)" "i < n" "n \<le> length d" "w \<noteq> 0"
  shows "length d' = length d \<and> i' < n \<and> words_val (take n d') + 2 ^ (64 * i) * unat w = words_val (take n d)"
  using assms
proof (induction d i w rule: sub_word_loop.induct)
  case (1 d i w)
  have i: "i < length d" using "1.prems" by simp
  have D: "drop i (take n d) = d ! i # drop (Suc i) (take n d)" using "1.prems" by (subst Cons_nth_drop_Suc [symmetric]) simp_all
  have up: "words_val (take n (d[i := x])) + 2 ^ (64 * i) * unat (d ! i) = words_val (take n d) + 2 ^ (64 * i) * unat x" for x
    using words_val_update [of i "take n d" x] "1.prems" unfolding take_update_swap by (simp add: min_absorb2)
  show ?case
  proof (cases "d ! i \<ge> w")
    case True
    then have "d' = d[i := d ! i - w]" "i' = i" using "1.prems"(1) i by (subst (asm) sub_word_loop.simps, simp)+
    moreover have "2 ^ (64 * i) * unat (d ! i - w) + 2 ^ (64 * i) * unat w = 2 ^ (64 * i) * unat (d ! i)"
      using True by (simp add: unat_sub word_le_nat_alt distrib_left [symmetric])
    ultimately show ?thesis using up [of "d ! i - w"] "1.prems" by simp
  next
    case False
    let ?d = "d[i := d ! i - w]"
    have run: "sub_word_loop ?d (Suc i) 1 = (d', i')"
      using "1.prems"(1) i False by (subst (asm) sub_word_loop.simps) simp
    have nz: "1 \<le> words_val (drop (Suc i) (take n d))"
      using "1.prems"(2) False unfolding D by (cases "words_val (drop (Suc i) (take n d))") (simp_all add: word_le_nat_alt mult.commute)
    then have n: "Suc i < n" using "1.prems"(3) by (cases "Suc i < n") simp_all
    have "drop (Suc i) (take n ?d) = drop (Suc i) (take n d)" by (simp add: drop_take)
    then have r: "length d' = length d" "i' < n" "words_val (take n d') + 2 ^ (64 * Suc i) * unat (1 :: BN_ULONG) = words_val (take n ?d)"
      using "1.IH" [OF i False run] nz n "1.prems"(4) by simp_all
    have "unat (d ! i - w) + unat w = unat (d ! i) + 2 ^ 64"
      using False unat_u64_less [of w] by (simp add: unat_sub_wrap word_le_nat_alt)
    then have "2 ^ (64 * i) * unat (d ! i - w) + 2 ^ (64 * i) * unat w = 2 ^ (64 * i) * unat (d ! i) + 2 ^ (64 * Suc i)"
      unfolding distrib_left [symmetric] by (simp add: power_add algebra_simps)
    with up [of "d ! i - w"] r show ?thesis by simp
  qed
qed

lemma BN_set_word_ok:
  assumes "bn_dest al 1 bn"
  shows "\<exists>bn'. BN_set_word al v bn = (Some (), bn') \<and> bn_ok bn' \<and> \<not> bn_neg bn' \<and> bn_mag bn' = unat v \<and> bn_minimal bn'"
proof (cases "v = 0")
  case True
  then show ?thesis using assms by (simp add: BN_set_word_def BN_zero_def bn_ok_def bn_wf_def bn_dest_def bn_mag_def bn_minimal_def)
next
  case False
  obtain b where b: "bn_wexpand al 1 bn = (Some (), b)" "bn_wf b" "1 \<le> bn_dmax b"
    using bn_wexpand_ok [OF assms] by blast
  then have "take 1 ((bn_d b)[0 := v]) = [v]" by (cases "bn_d b") (simp_all add: bn_wf_def)
  with b False show ?thesis
    by (cases "bn_d b") (simp_all add: BN_set_word_def pbind_def bn_ok_def bn_wf_def bn_mag_def bn_minimal_def)
qed

lemma BN_add_word_pos:
  assumes "bn_wf a" "\<not> bn_neg a" "bn_mag a \<noteq> 0" "w \<noteq> 0" "bn_dest al (bn_width a + 1) a"
  shows "\<exists>a'. BN_add_word al w a = (Some (), a') \<and> bn_wf a' \<and> \<not> bn_neg a' \<and> bn_mag a' = bn_mag a + unat w"
proof -
  obtain d i w' where loop: "add_word_loop (bn_d a) (bn_width a) 0 w = (d, i, w')" by (metis prod_cases3)
  from add_word_loop_val [OF loop _ bn_wfD [OF assms(1)]]
  have l: "length d = length (bn_d a)" "w' \<noteq> 0 \<longrightarrow> i = bn_width a"
    "words_val (take (bn_width a) d) + 2 ^ (64 * bn_width a) * unat w' = bn_mag a + unat w" by (simp_all add: bn_mag_def)
  have z: "\<not> BN_is_zero a" using assms by (simp add: BN_is_zero_iff)
  show ?thesis
  proof (cases "w' = 0")
    case True
    with l z assms loop show ?thesis
      by (subst BN_add_word.simps) (simp add: bn_wf_def bn_mag_def)
  next
    case False
    let ?a = "a\<lparr>bn_d := d\<rparr>"
    have "bn_dest al (bn_width a + 1) ?a" using assms(5) l(1) by (simp add: bn_dest_def bn_wf_def)
    then obtain b where b: "bn_wexpand al (bn_width a + 1) ?a = (Some (), b)" "bn_wf b" "bn_width a + 1 \<le> bn_dmax b"
      "bn_width b = bn_width a" "bn_neg b = bn_neg a" "take (bn_width a) (bn_d b) = take (bn_width a) d"
      using bn_wexpand_ok [of al "bn_width a + 1" ?a] by auto
    have i: "i = bn_width a" using False l(2) by simp
    have "BN_add_word al w a = (Some (), b\<lparr>bn_width := bn_width b + 1, bn_d := (bn_d b)[bn_width a := w']\<rparr>)"
      using assms z False loop i b(1)
      by (subst BN_add_word.simps) (simp add: pbind_def)
    moreover have "take (bn_width a + 1) ((bn_d b)[bn_width a := w']) = take (bn_width a) d @ [w']"
      using b(2,3,6) by (simp add: take_Suc_conv_app_nth bn_wf_def)
    moreover have "length (take (bn_width a) d) = bn_width a" using l(1) assms(1) by (simp add: bn_wf_def)
    ultimately show ?thesis using b l(3) assms(2) by (simp add: bn_wf_def bn_mag_def words_val_append)
  qed
qed

lemma minimal_width_1:
  assumes "bn_wf a" "bn_mag a \<noteq> 0" "bn_mag a < 2 ^ 64"
  shows "bn_minimal_width a = 1" "bn_mag a = unat (bn_d a ! 0)" "0 < length (bn_d a)"
proof -
  let ?m = "bn_minimal_width a"
  note w = minimal_width_le [of "bn_d a" "bn_width a"] minimal_width_val [OF bn_wfD [OF assms(1)]]
    minimal_width_zero [OF bn_wfD [OF assms(1)]] minimal_width_top [of "bn_d a" "bn_width a"]
  have m0: "?m \<noteq> 0" using w(3) assms(2) by (simp add: bn_minimal_width_def bn_mag_def)
  then have top: "bn_d a ! (?m - 1) \<noteq> 0" using w(4) by (simp add: bn_minimal_width_def)
  have le: "?m \<le> length (bn_d a)" using w(1) bn_wfD [OF assms(1)] by (simp add: bn_minimal_width_def)
  have v: "bn_mag a = words_val (take (?m - 1) (bn_d a)) + 2 ^ (64 * (?m - 1)) * unat (bn_d a ! (?m - 1))"
    using w(2) m0 le take_Suc_conv_app_nth [of "?m - 1" "bn_d a"] words_val_append [of "take (?m - 1) (bn_d a)" "[bn_d a ! (?m - 1)]"]
    by (simp add: bn_mag_def bn_minimal_width_def min_absorb2)
  show m1: "?m = 1"
  proof (rule ccontr)
    assume "?m \<noteq> 1"
    then have "(2 :: nat) ^ 64 \<le> 2 ^ (64 * (?m - 1))" using m0 by (intro power_increasing) simp_all
    moreover have "(2 :: nat) ^ (64 * (?m - 1)) * 1 \<le> 2 ^ (64 * (?m - 1)) * unat (bn_d a ! (?m - 1))"
      using top by (intro mult_le_mono2) (simp add: unat_gt_0 Suc_leI)
    ultimately show False using v assms(3) by linarith
  qed
  show "bn_mag a = unat (bn_d a ! 0)" using v m1 by simp
  show "0 < length (bn_d a)" using le m1 by linarith
qed

lemma BN_sub_word_pos:
  assumes "bn_wf a" "\<not> bn_neg a" "bn_mag a \<noteq> 0" "w \<noteq> 0"
  shows "\<exists>a'. BN_sub_word al w a = (Some (), a') \<and> bn_ok a' \<and> bn_val a' = int (bn_mag a) - int (unat w)"
proof -
  have z: "\<not> BN_is_zero a" using assms by (simp add: BN_is_zero_iff)
  show ?thesis
  proof (cases "bn_mag a < unat w")
    case True
    then have lt: "bn_mag a < 2 ^ 64" using unat_u64_less [of w] by simp
    note m = minimal_width_1 [OF assms(1,3) lt]
    have less: "bn_d a ! 0 < w" using True m(2) by (simp add: word_less_nat_alt)
    let ?a = "a\<lparr>bn_d := (bn_d a)[0 := w - bn_d a ! 0], bn_neg := True\<rparr>"
    have w: "0 < bn_width a" using assms(3) by (cases "bn_width a") (simp_all add: bn_mag_def)
    have "words_val ((take (bn_width a) (bn_d a))[0 := w - bn_d a ! 0]) + unat (bn_d a ! 0) = bn_mag a + unat (w - bn_d a ! 0)"
      using words_val_update [of 0 "take (bn_width a) (bn_d a)" "w - bn_d a ! 0"] w m(3) by (simp add: bn_mag_def)
    then have "bn_mag ?a = unat w - bn_mag a"
      using m(2) less by (simp add: bn_mag_def take_update_swap unat_sub word_less_nat_alt word_le_nat_alt)
    moreover have "BN_sub_word al w a = (Some (), ?a)"
      using assms z m(1) less by (subst BN_sub_word.simps) simp
    ultimately show ?thesis using assms(1) True by (simp add: bn_ok_def bn_wf_def bn_val_def)
  next
    case False
    have g: "\<not> (bn_minimal_width a = 1 \<and> bn_d a ! 0 < w)"
    proof
      assume *: "bn_minimal_width a = 1 \<and> bn_d a ! 0 < w"
      have "0 < length (bn_d a)"
        using * minimal_width_le [of "bn_d a" "bn_width a"] bn_wfD [OF assms(1)] unfolding bn_minimal_width_def by linarith
      then have "bn_mag a = unat (bn_d a ! 0)"
        using * minimal_width_val [OF bn_wfD [OF assms(1)]] by (cases "bn_d a") (simp_all add: bn_minimal_width_def bn_mag_def)
      with * False show False by (simp add: word_less_nat_alt)
    qed
    obtain d i where loop: "sub_word_loop (bn_d a) 0 w = (d, i)" by force
    have w: "0 < bn_width a" using assms(3) by (cases "bn_width a") (simp_all add: bn_mag_def)
    have l: "length d = length (bn_d a)" "i < bn_width a" "words_val (take (bn_width a) d) + unat w = bn_mag a"
      using sub_word_loop_val [OF loop _ w bn_wfD [OF assms(1)] assms(4)] False by (simp_all add: bn_mag_def)
    let ?a = "a\<lparr>bn_d := d\<rparr>"
    have run: "BN_sub_word al w a = (Some (), if d ! i = 0 \<and> i + 1 = bn_width a then ?a\<lparr>bn_width := bn_width a - 1\<rparr> else ?a)"
      using assms(2,4) z loop unfolding BN_sub_word.simps [of al w a] if_not_P [OF g] by (simp add: Let_def)
    have "words_val (take (bn_width a - 1) d) = words_val (take (bn_width a) d)" if "d ! i = 0" "i + 1 = bn_width a"
      using that l(1) assms(1) take_Suc_conv_app_nth [of i d] by (auto simp: words_val_append bn_wf_def simp flip: that(2))
    then have "bn_mag (if d ! i = 0 \<and> i + 1 = bn_width a then ?a\<lparr>bn_width := bn_width a - 1\<rparr> else ?a) = bn_mag a - unat w"
      using l(3) by (auto simp: bn_mag_def)
    with run l assms(1,2) False show ?thesis by (auto simp: bn_ok_def bn_wf_def bn_val_def)
  qed
qed

lemma BN_add_word_ok:
  assumes "bn_ok a" "bn_dest al (bn_width a + 1) a"
  shows "\<exists>a'. BN_add_word al w a = (Some (), a') \<and> bn_ok a' \<and> bn_val a' = bn_val a + int (unat w)"
proof -
  have wf: "bn_wf a" using assms(1) by (simp add: bn_ok_def)
  consider "w = 0" | "w \<noteq> 0" "bn_mag a = 0" | "w \<noteq> 0" "bn_mag a \<noteq> 0" "bn_neg a" | "w \<noteq> 0" "bn_mag a \<noteq> 0" "\<not> bn_neg a" by blast
  then show ?thesis
  proof cases
    case 1
    then show ?thesis using assms(1) by (subst BN_add_word.simps) simp
  next
    case 2
    obtain b where "BN_set_word al w a = (Some (), b)" "bn_ok b" "\<not> bn_neg b" "bn_mag b = unat w"
      using BN_set_word_ok [OF bn_dest_mono [OF assms(2)]] by auto
    with 2 wf show ?thesis by (subst BN_add_word.simps) (simp add: BN_is_zero_iff bn_val_def)
  next
    case 3
    then obtain b where b: "BN_sub_word al w (a\<lparr>bn_neg := False\<rparr>) = (Some (), b)" "bn_ok b" "bn_val b = int (bn_mag a) - int (unat w)"
      using BN_sub_word_pos [of "a\<lparr>bn_neg := False\<rparr>" w al] wf by auto
    have z: "BN_is_zero b \<longleftrightarrow> bn_mag b = 0" using b(2) by (simp add: BN_is_zero_iff bn_ok_def)
    have "BN_add_word al w a = (Some (), if \<not> BN_is_zero b then b\<lparr>bn_neg := \<not> bn_neg b\<rparr> else b)"
      using 3 wf b(1) by (subst BN_add_word.simps) (simp add: BN_is_zero_iff)
    with b(2,3) 3(3) show ?thesis by (auto simp: z bn_ok_def bn_val_def split: if_splits)
  next
    case 4
    then obtain b where "BN_add_word al w a = (Some (), b)" "bn_wf b" "\<not> bn_neg b" "bn_mag b = bn_mag a + unat w"
      using BN_add_word_pos [OF wf _ _ _ assms(2)] by blast
    with 4 show ?thesis by (simp add: bn_ok_def bn_val_def)
  qed
qed

lemma BN_sub_word_ok:
  assumes "bn_ok a" "bn_dest al (bn_width a + 1) a"
  shows "\<exists>a'. BN_sub_word al w a = (Some (), a') \<and> bn_ok a' \<and> bn_val a' = bn_val a - int (unat w)"
proof -
  have wf: "bn_wf a" using assms(1) by (simp add: bn_ok_def)
  consider "w = 0" | "w \<noteq> 0" "bn_mag a = 0" | "w \<noteq> 0" "bn_mag a \<noteq> 0" "bn_neg a" | "w \<noteq> 0" "bn_mag a \<noteq> 0" "\<not> bn_neg a" by blast
  then show ?thesis
  proof cases
    case 1
    then show ?thesis using assms(1) by (subst BN_sub_word.simps) simp
  next
    case 2
    obtain b where b: "BN_set_word al w a = (Some (), b)" "bn_ok b" "\<not> bn_neg b" "bn_mag b = unat w"
      using BN_set_word_ok [OF bn_dest_mono [OF assms(2)]] by auto
    moreover have "\<not> BN_is_zero b" using b 2 by (simp add: BN_is_zero_iff bn_ok_def unat_eq_zero)
    ultimately show ?thesis using 2 wf
      by (subst BN_sub_word.simps) (simp add: BN_is_zero_iff pbind_def BN_set_negative_def bn_val_def bn_ok_def unat_gt_0)
  next
    case 3
    let ?a = "a\<lparr>bn_neg := False\<rparr>"
    obtain b where "BN_add_word al w ?a = (Some (), b)" "bn_wf b" "bn_mag b = bn_mag a + unat w"
      using BN_add_word_pos [of ?a w al] wf 3 assms(2) by auto
    with 3 wf show ?thesis by (subst BN_sub_word.simps) (simp add: BN_is_zero_iff bn_ok_def bn_val_def)
  next
    case 4
    then show ?thesis using BN_sub_word_pos [OF wf] by (simp add: bn_val_def)
  qed
qed

section \<open>Bit lengths\<close>

fun bit_length :: "nat \<Rightarrow> nat" where
  "bit_length n = (if n = 0 then 0 else Suc (bit_length (n div 2)))"

declare bit_length.simps [simp del]

lemma bit_length_0 [simp]: "bit_length 0 = 0"
  by (simp add: bit_length.simps)

lemma bit_length_le: "bit_length n \<le> k \<longleftrightarrow> n < 2 ^ k"
proof (induction n arbitrary: k rule: bit_length.induct)
  case (1 n)
  show ?case
  proof (cases "n = 0")
    case False
    show ?thesis
    proof (cases k)
      case 0
      then show ?thesis using False by (subst bit_length.simps) simp
    next
      case (Suc j)
      have "n div 2 < 2 ^ j \<longleftrightarrow> n < 2 ^ Suc j" by (simp add: div_less_iff_less_mult mult.commute)
      then show ?thesis using "1.IH" [OF False, of j] False Suc by (subst bit_length.simps) simp
    qed
  qed simp
qed

lemma bit_length_shift: "2 ^ k \<le> n \<Longrightarrow> bit_length n = k + bit_length (n div 2 ^ k)"
proof (induction k arbitrary: n)
  case (Suc k)
  from Suc.prems have n: "n \<noteq> 0" "2 ^ k \<le> n div 2" by (auto simp: less_eq_div_iff_mult_less_eq mult.commute intro: ccontr)
  have "bit_length n = Suc (bit_length (n div 2))" using n(1) by (subst bit_length.simps) simp
  also have "\<dots> = Suc k + bit_length (n div 2 div 2 ^ k)" using Suc.IH [OF n(2)] by simp
  also have "n div 2 div 2 ^ k = n div 2 ^ Suc k" by (simp add: div_mult2_eq)
  finally show ?case .
qed simp

lemma num_bits_round_eq:
  assumes "unat l < 2 ^ 64" "0 < k" "k < 64"
  shows "num_bits_round k (l, bits) = (if unat l < 2 ^ k then (l, bits) else (drop_bit k l, bits + k))"
proof -
  let ?x = "drop_bit k l"
  have x: "unat ?x = unat l div 2 ^ k" by (simp add: unat_drop_bit)
  have "drop_bit 63 (0 - ?x) = (if ?x = 0 then 0 else 1)"
  proof (cases "?x = 0")
    case False
    have "unat ?x \<le> unat l div 2" unfolding x using assms(2) by (intro div_le_mono2) (simp_all add: self_le_power)
    then have "unat ?x \<le> 2 ^ 63 - 1" using assms(1) by simp
    moreover have "unat (0 - ?x) = 2 ^ 64 - unat ?x"
      using False unfolding unat_sub_wrap word_le_nat_alt by (simp add: unat_eq_zero)
    ultimately have "2 ^ 63 \<le> unat (0 - ?x)" by simp
    then have "unat (0 - ?x) div 2 ^ 63 = 1" using unat_u64_less [of "0 - ?x"] by (intro div_nat_eqI) simp_all
    then have "unat (drop_bit 63 (0 - ?x)) = 1" by (simp add: unat_drop_bit)
    with False show ?thesis by (metis unat_1 word_unat_eq_iff)
  qed simp
  then have m: "0 - drop_bit 63 (0 - ?x) = (if ?x = 0 then 0 else - 1)" by simp
  have z: "?x = 0 \<longleftrightarrow> unat l < 2 ^ k" using x by (simp add: unat_eq_zero [symmetric] div_eq_0_iff)
  have k: "unat (of_nat k :: BN_ULONG) = k" using assms(3) by (simp add: unat_of_nat)
  have "l XOR ?x XOR l = ?x" by (simp add: bit_eq_iff bit_simps) blast
  then have "l XOR (?x XOR l) = ?x" by (simp only: xor.assoc)
  then show ?thesis
    unfolding num_bits_round_def Let_def prod.case m using z k by (simp add: split del: if_split) simp
qed

lemma num_bits_round_step:
  assumes "num_bits_round k (l, n) = (l', n')" "unat l < 2 ^ (2 * k)" "0 < k" "k < 64" "l \<noteq> 0"
  shows "unat l' < 2 ^ k \<and> l' \<noteq> 0 \<and> bit_length (unat l') + n' = bit_length (unat l) + n"
proof (cases "unat l < 2 ^ k")
  case True
  then show ?thesis using assms unat_u64_less [of l] by (simp add: num_bits_round_eq)
next
  case False
  then have e: "l' = drop_bit k l" "n' = n + k" using assms(1,3,4) unat_u64_less [of l] by (simp_all add: num_bits_round_eq)
  have u: "unat l' = unat l div 2 ^ k" unfolding e(1) by (rule unat_drop_bit)
  have "unat l div 2 ^ k < 2 ^ k" using assms(2) by (simp add: less_mult_imp_div_less mult_2 power_add)
  moreover have "unat l' \<noteq> 0" using False by (simp add: u div_eq_0_iff)
  then have "l' \<noteq> 0" by auto
  ultimately show ?thesis using u e(2) bit_length_shift [of k "unat l"] False by simp
qed

lemma BN_num_bits_word_eq: "BN_num_bits_word l = bit_length (unat l)"
proof (cases "l = 0")
  case True
  have "num_bits_round k (0, n) = (0, n)" if "0 < k" "k < 64" for k n using that by (simp add: num_bits_round_eq)
  with True show ?thesis by (simp add: BN_num_bits_word_def)
next
  case False
  obtain l1 n1 where 1: "num_bits_round 32 (l, 1) = (l1, n1)" by force
  obtain l2 n2 where 2: "num_bits_round 16 (l1, n1) = (l2, n2)" by force
  obtain l3 n3 where 3: "num_bits_round 8 (l2, n2) = (l3, n3)" by force
  obtain l4 n4 where 4: "num_bits_round 4 (l3, n3) = (l4, n4)" by force
  obtain l5 n5 where 5: "num_bits_round 2 (l4, n4) = (l5, n5)" by force
  obtain l6 n6 where 6: "num_bits_round 1 (l5, n5) = (l6, n6)" by force
  note s1 = num_bits_round_step [OF 1 _ _ _ False]
  have s1: "unat l1 < 2 ^ 32" "l1 \<noteq> 0" "bit_length (unat l1) + n1 = bit_length (unat l) + 1" using s1 unat_u64_less [of l] by simp_all
  have s2: "unat l2 < 2 ^ 16" "l2 \<noteq> 0" "bit_length (unat l2) + n2 = bit_length (unat l1) + n1"
    using num_bits_round_step [OF 2 _ _ _ s1(2)] s1(1) by simp_all
  have s3: "unat l3 < 2 ^ 8" "l3 \<noteq> 0" "bit_length (unat l3) + n3 = bit_length (unat l2) + n2"
    using num_bits_round_step [OF 3 _ _ _ s2(2)] s2(1) by simp_all
  have s4: "unat l4 < 2 ^ 4" "l4 \<noteq> 0" "bit_length (unat l4) + n4 = bit_length (unat l3) + n3"
    using num_bits_round_step [OF 4 _ _ _ s3(2)] s3(1) by simp_all
  have s5: "unat l5 < 2 ^ 2" "l5 \<noteq> 0" "bit_length (unat l5) + n5 = bit_length (unat l4) + n4"
    using num_bits_round_step [OF 5 _ _ _ s4(2)] s4(1) by simp_all
  have s6: "unat l6 < 2 ^ 1" "l6 \<noteq> 0" "bit_length (unat l6) + n6 = bit_length (unat l5) + n5"
    using num_bits_round_step [OF 6 _ _ _ s5(2)] s5(1) by simp_all
  have "0 < unat l6" using s6(2) by (simp add: unat_gt_0)
  then have "unat l6 = 1" using s6(1) by simp
  then have "bit_length (unat l6) = 1" by (simp add: bit_length.simps)
  then have "n6 = bit_length (unat l)" using s1(3) s2(3) s3(3) s4(3) s5(3) s6(3) by linarith
  with False 1 2 3 4 5 6 show ?thesis by (simp add: BN_num_bits_word_def)
qed

lemma BN_num_bits_eq:
  assumes "bn_wf bn"
  shows "BN_num_bits bn = bit_length (bn_mag bn)"
proof -
  let ?m = "bn_minimal_width bn"
  note w = minimal_width_le [of "bn_d bn" "bn_width bn"] minimal_width_val [OF bn_wfD [OF assms]]
    minimal_width_zero [OF bn_wfD [OF assms]] minimal_width_top [of "bn_d bn" "bn_width bn"]
  show ?thesis
  proof (cases "?m = 0")
    case True
    then show ?thesis using w(3) by (simp add: BN_num_bits_def bn_minimal_width_def bn_mag_def)
  next
    case False
    let ?k = "64 * (?m - 1)" and ?w = "bn_d bn ! (?m - 1)" and ?lo = "words_val (take (?m - 1) (bn_d bn))"
    have nz: "?w \<noteq> 0" using w(4) False by (simp add: bn_minimal_width_def)
    have le: "?m \<le> length (bn_d bn)" using w(1) bn_wfD [OF assms] by (simp add: bn_minimal_width_def)
    have v: "bn_mag bn = ?lo + 2 ^ ?k * unat ?w"
      using w(2) False le take_Suc_conv_app_nth [of "?m - 1" "bn_d bn"] words_val_append [of "take (?m - 1) (bn_d bn)" "[?w]"]
      by (simp add: bn_mag_def bn_minimal_width_def min_absorb2)
    have lo: "?lo < 2 ^ ?k" using words_val_less [of "take (?m - 1) (bn_d bn)"] le by (simp add: min_absorb2)
    have "(2 :: nat) ^ ?k * 1 \<le> 2 ^ ?k * unat ?w" using nz by (intro mult_le_mono2) (simp add: unat_gt_0 Suc_leI)
    then have "bit_length (bn_mag bn) = ?k + bit_length (bn_mag bn div 2 ^ ?k)" using v by (intro bit_length_shift) linarith
    moreover have "bn_mag bn div 2 ^ ?k = unat ?w" using v lo by simp
    ultimately show ?thesis using False by (simp add: BN_num_bits_def Let_def BN_num_bits_word_eq)
  qed
qed

section \<open>Properties\<close>

text \<open>
  C14. \<^verbatim>\<open>BN_add\<close>, \<^verbatim>\<open>BN_sub\<close>, \<^verbatim>\<open>BN_add_word\<close> and \<^verbatim>\<open>BN_sub_word\<close> compute integer sums and differences: for
  well-formed operands of any width and sign, and a destination that can be grown, they succeed and
  the destination is well formed, has no negative zero and stands for the exact result (with the
  fewest possible words for the first two).
\<close>

theorem bn_add_sub_exact:
  assumes "bn_ok a" "bn_ok b" "bn_dest al (max (bn_width a) (bn_width b) + 1) r" "bn_dest al (bn_width a + 1) a"
  shows "(\<exists>r'. BN_add al a b r = (Some (), r') \<and> bn_ok r' \<and> bn_minimal r' \<and> bn_val r' = bn_val a + bn_val b) \<and>
         (\<exists>r'. BN_sub al a b r = (Some (), r') \<and> bn_ok r' \<and> bn_minimal r' \<and> bn_val r' = bn_val a - bn_val b) \<and>
         (\<exists>a'. BN_add_word al w a = (Some (), a') \<and> bn_ok a' \<and> bn_val a' = bn_val a + uint w) \<and>
         (\<exists>a'. BN_sub_word al w a = (Some (), a') \<and> bn_ok a' \<and> bn_val a' = bn_val a - uint w)"
  using BN_add_ok [OF assms(1-3)] BN_sub_ok [OF assms(1-3)] BN_add_word_ok [OF assms(1,4), of w] BN_sub_word_ok [OF assms(1,4), of w]
  unfolding bn_result_def by (simp add: conj_ac)

theorem bn_add_sub_exact_witness:
  "\<exists>r. BN_add (\<lambda>_. Some (\<lambda>_. 0)) \<lparr>bn_d = [0xffffffffffffffff, 0xffffffffffffffff], bn_width = 2, bn_dmax = 2, bn_neg = False, bn_flags = 0\<rparr>
        \<lparr>bn_d = [1, 0], bn_width = 2, bn_dmax = 2, bn_neg = False, bn_flags = 0\<rparr> BN_init = (Some (), r) \<and>
     bn_ok r \<and> bn_minimal r \<and> bn_val r = 2 ^ 128"
proof -
  let ?a = "\<lparr>bn_d = [0xffffffffffffffff, 0xffffffffffffffff], bn_width = 2, bn_dmax = 2, bn_neg = False, bn_flags = 0\<rparr>"
  let ?b = "\<lparr>bn_d = [1, 0], bn_width = 2, bn_dmax = 2, bn_neg = False, bn_flags = 0\<rparr>"
  have ok: "bn_ok ?a" "bn_ok ?b" by (simp_all add: bn_ok_def bn_wf_def BN_MAX_WORDS_def)
  have d: "bn_dest (\<lambda>_. Some (\<lambda>_. 0)) (max (bn_width ?a) (bn_width ?b) + 1) BN_init"
    "bn_dest (\<lambda>_. Some (\<lambda>_. 0)) (bn_width ?a + 1) ?a"
    by (simp_all add: bn_dest_def bn_wf_def BN_MAX_WORDS_def BN_init_def)
  have "bn_val ?a + bn_val ?b = 2 ^ 128" by (simp add: bn_val_def bn_mag_def)
  with bn_add_sub_exact [OF ok d, THEN conjunct1] show ?thesis by simp
qed

end
