(* ===== verification/BnBytes.thy ===== *)
theory BnBytes
  imports BnProps
begin

text \<open>
  Multi-precision integers as byte strings, \<^verbatim>\<open>crypto/fipsmodule/bn/bytes.c\<close> on a little-endian platform.
  An array of words is the concatenation of its words' bytes, least significant first.
\<close>

section \<open>The code\<close>

definition word_bytes :: "BN_ULONG \<Rightarrow> u8 list" where
  "word_bytes w = map (\<lambda>j. ucast (drop_bit (8 * j) w)) [0..<8]"

definition mem_bytes :: "BN_ULONG list \<Rightarrow> u8 list" where
  "mem_bytes ws = concat (map word_bytes ws)"

text \<open>The word whose bytes in memory are given, and the load with the byte swap.\<close>

definition load_word_le :: "u8 list \<Rightarrow> BN_ULONG" where
  "load_word_le bs = foldr (\<lambda>b w. push_bit 8 w OR ucast b) bs 0"

definition CRYPTO_load_word_be :: "u8 list \<Rightarrow> BN_ULONG" where
  "CRYPTO_load_word_be bs = load_word_le (rev (take 8 bs))"

text \<open>The loop over whole words from the end of the input, and the last partial word.\<close>

function be_words :: "u8 list \<Rightarrow> BN_ULONG list" where
  "be_words bs =
     (if length bs \<ge> 8
      then CRYPTO_load_word_be (drop (length bs - 8) bs) # be_words (take (length bs - 8) bs)
      else if bs \<noteq> [] then [foldl (\<lambda>word b. push_bit 8 word OR ucast b) 0 bs]
      else [])"
  by pat_completeness auto
termination by (relation "measure length") auto

declare be_words.simps [simp del]

text \<open>A \<open>None\<close> is the abort of \<open>BSSL_CHECK\<close>.\<close>

definition bn_big_endian_to_words :: "nat \<Rightarrow> u8 list \<Rightarrow> BN_ULONG list option" where
  "bn_big_endian_to_words out_len inp =
     (if \<not> length inp \<le> out_len * 8 then None
      else let ws = be_words inp in Some (ws @ replicate (out_len - length ws) 0))"

text \<open>Whole words of the memory that the copied bytes and the zeros after them fill.\<close>

definition bn_little_endian_to_words :: "nat \<Rightarrow> u8 list \<Rightarrow> BN_ULONG list" where
  "bn_little_endian_to_words out_len inp =
     (let m = inp @ replicate (8 * out_len - length inp) 0
      in map (\<lambda>i. load_word_le (take 8 (drop (8 * i) m))) [0..<out_len])"

definition BN_bin2bn :: "allocator \<Rightarrow> u8 list \<Rightarrow> BIGNUM option \<Rightarrow> BIGNUM option" where
  "BN_bin2bn al inp ret =
     (case (case ret of None \<Rightarrow> BN_new al | Some r \<Rightarrow> Some r) of
        None \<Rightarrow> None
      | Some r \<Rightarrow>
          if length inp = 0 then Some (r\<lparr>bn_width := 0\<rparr>)
          else let num_words = (length inp - 1) div 8 + 1
               in case bn_wexpand al num_words r of
                    (None, _) \<Rightarrow> None
                  | (Some _, r) \<Rightarrow>
                      (case bn_big_endian_to_words num_words inp of
                         None \<Rightarrow> None
                       | Some ws \<Rightarrow> Some (r\<lparr>bn_width := num_words, bn_neg := False, bn_d := buf_write (bn_d r) 0 ws\<rparr>)))"

definition BN_le2bn :: "allocator \<Rightarrow> u8 list \<Rightarrow> BIGNUM option \<Rightarrow> BIGNUM option" where
  "BN_le2bn al inp ret =
     (case (case ret of None \<Rightarrow> BN_new al | Some r \<Rightarrow> Some r) of
        None \<Rightarrow> None
      | Some r \<Rightarrow>
          if length inp = 0 then Some (r\<lparr>bn_width := 0, bn_neg := False\<rparr>)
          else let num_words = (length inp - 1) div 8 + 1
               in case bn_wexpand al num_words r of
                    (None, _) \<Rightarrow> None
                  | (Some _, r) \<Rightarrow>
                      Some (r\<lparr>bn_width := num_words, bn_neg := False,
                              bn_d := buf_write (bn_d r) 0 (bn_little_endian_to_words num_words inp)\<rparr>))"

definition fits_in_bytes :: "BN_ULONG list \<Rightarrow> nat \<Rightarrow> nat \<Rightarrow> bool" where
  "fits_in_bytes words num_words num_bytes \<longleftrightarrow>
     fold (\<lambda>i m. m OR mem_bytes words ! i) [num_bytes..<num_words * 8] 0 = 0"

definition bn_words_to_big_endian :: "nat \<Rightarrow> BN_ULONG list \<Rightarrow> nat \<Rightarrow> u8 list" where
  "bn_words_to_big_endian out_len inp in_len =
     (let num_bytes = (if out_len < in_len * 8 then out_len else in_len * 8)
      in replicate (out_len - num_bytes) 0 @ rev (take num_bytes (mem_bytes inp)))"

definition BN_bn2bin :: "BIGNUM \<Rightarrow> u8 list" where
  "BN_bn2bin bn = bn_words_to_big_endian (BN_num_bytes bn) (bn_d bn) (bn_width bn)"

definition bn_words_to_little_endian :: "nat \<Rightarrow> BN_ULONG list \<Rightarrow> nat \<Rightarrow> u8 list" where
  "bn_words_to_little_endian out_len inp in_len =
     (let num_bytes = (if out_len < in_len * 8 then out_len else in_len * 8)
      in take num_bytes (mem_bytes inp) @ replicate (out_len - num_bytes) 0)"

definition BN_bn2le_padded :: "nat \<Rightarrow> BIGNUM \<Rightarrow> u8 list option" where
  "BN_bn2le_padded len bn =
     (if \<not> fits_in_bytes (bn_d bn) (bn_width bn) len then None
      else Some (bn_words_to_little_endian len (bn_d bn) (bn_width bn)))"

definition BN_bn2bin_padded :: "nat \<Rightarrow> BIGNUM \<Rightarrow> u8 list option" where
  "BN_bn2bin_padded len bn =
     (if \<not> fits_in_bytes (bn_d bn) (bn_width bn) len then None
      else Some (bn_words_to_big_endian len (bn_d bn) (bn_width bn)))"

definition BN_get_word :: "BIGNUM \<Rightarrow> BN_ULONG" where
  "BN_get_word bn =
     (let w = bn_minimal_width bn in if w = 0 then 0 else if w = 1 then bn_d bn ! 0 else 0xffffffffffffffff)"

definition BN_get_u64 :: "BIGNUM \<Rightarrow> u64 option" where
  "BN_get_u64 bn =
     (let w = bn_minimal_width bn in if w = 0 then Some 0 else if w = 1 then Some (bn_d bn ! 0) else None)"

section \<open>Memory\<close>

lemma word_bytes_rev: "rev (word_bytes w) = be_bytes 8 (unat w)"
proof -
  have "(ucast (drop_bit (8 * j) w) :: u8) = of_nat (unat w div 256 ^ j)" for j
    by (simp add: word_unat_eq_iff unsigned_ucast_eq take_bit_eq_mod unat_drop_bit power_mult unat_of_nat unat_mod)
  then show ?thesis by (simp add: be_bytes_map word_bytes_def rev_map)
qed

lemma length_word_bytes [simp]: "length (word_bytes w) = 8"
  by (simp add: word_bytes_def)

lemma mem_bytes_simps [simp]: "mem_bytes [] = []" "mem_bytes (w # ws) = word_bytes w @ mem_bytes ws"
  by (simp_all add: mem_bytes_def)

lemma length_mem_bytes [simp]: "length (mem_bytes ws) = 8 * length ws"
  by (induction ws) simp_all

lemma mem_bytes_append [simp]: "mem_bytes (xs @ ys) = mem_bytes xs @ mem_bytes ys"
  by (simp add: mem_bytes_def)

lemma mem_bytes_val: "be_val (rev (mem_bytes ws)) = words_val ws"
proof (induction ws)
  case (Cons w ws)
  have "be_val (be_bytes 8 (unat w)) = unat w" using unat_u64_less [of w] by (simp add: be_val_be_bytes)
  with Cons show ?case by (simp add: be_val_append word_bytes_rev)
qed simp

lemma take_mem_bytes: "n \<le> length ws \<Longrightarrow> take (8 * n) (mem_bytes ws) = mem_bytes (take n ws)"
  using mem_bytes_append [of "take n ws" "drop n ws"] unfolding append_take_drop_id by simp

lemma acc_be_val: "length bs \<le> 8 \<Longrightarrow> unat (foldl (\<lambda>word b. push_bit 8 word OR ucast b) (0 :: BN_ULONG) bs) = be_val bs"
proof (induction bs rule: rev_induct)
  case (snoc b bs)
  have "be_val bs < 256 ^ length bs" by (rule be_val_less)
  also have "(256 :: nat) ^ length bs \<le> 256 ^ 7" using snoc.prems by (intro power_increasing) simp_all
  finally have "be_val bs * 256 + 255 \<le> SIZE_MAX" by simp
  with snoc show ?case by (simp add: unat_shift_in_byte_64)
qed simp

lemma load_word_le_val: "length bs \<le> 8 \<Longrightarrow> unat (load_word_le bs) = be_val (rev bs)"
  using acc_be_val [of "rev bs"] by (simp add: load_word_le_def foldr_conv_foldl)

lemma CRYPTO_load_word_be_val: "unat (CRYPTO_load_word_be bs) = be_val (take 8 bs)"
  by (simp add: CRYPTO_load_word_be_def load_word_le_val)

lemma be_words_val: "words_val (be_words bs) = be_val bs" "length (be_words bs) = (length bs + 7) div 8"
proof -
  have "words_val (be_words bs) = be_val bs \<and> length (be_words bs) = (length bs + 7) div 8"
  proof (induction bs rule: be_words.induct)
    case (1 bs)
    show ?case
    proof (cases "length bs \<ge> 8")
      case True
      let ?k = "length bs - 8"
      have "be_val bs = be_val (take ?k bs) * 256 ^ 8 + be_val (drop ?k bs)"
        using be_val_append [of "take ?k bs" "drop ?k bs"] True by simp
      moreover have "(length bs - 1) div 8 + 1 = (length bs + 7) div 8" using True by (cases "length bs") simp_all
      ultimately show ?thesis using True "1.IH" [OF True]
        by (subst (1 2) be_words.simps) (simp add: CRYPTO_load_word_be_val)
    next
      case False
      then have "(length bs + 7) div 8 = 1" if "bs \<noteq> []"
        using that by (intro div_nat_eqI) (auto simp: Suc_le_eq)
      with False show ?thesis using acc_be_val [of bs] by (cases "bs = []"; subst (1 2) be_words.simps) simp_all
    qed
  qed
  then show "words_val (be_words bs) = be_val bs" "length (be_words bs) = (length bs + 7) div 8" by simp_all
qed

lemma be_val_zeros: "be_val (replicate k 0 @ bs) = be_val bs"
proof -
  have "be_val (replicate k 0) = 0" by (induction k) (simp_all add: be_val_Cons)
  then show ?thesis by (simp add: be_val_append)
qed

lemma be_val_eq_0: "be_val bs = 0 \<longleftrightarrow> (\<forall>b\<in>set bs. b = 0)"
  by (induction bs) (auto simp: be_val_Cons unat_eq_zero)

lemma mem_of_le_words:
  assumes "length inp \<le> 8 * n"
  shows "mem_bytes (bn_little_endian_to_words n inp) = inp @ replicate (8 * n - length inp) 0"
proof -
  define m where "m = inp @ replicate (8 * n - length inp) 0"
  have len: "length m = 8 * n" using assms by (simp add: m_def)
  have wb: "word_bytes (load_word_le bs) = bs" if "length bs = 8" for bs
  proof -
    have "rev (word_bytes (load_word_le bs)) = rev bs"
      using be_bytes_be_val [of "rev bs"] that by (simp add: word_bytes_rev load_word_le_val)
    then show ?thesis by simp
  qed
  have "mem_bytes (map (\<lambda>i. load_word_le (take 8 (drop (8 * i) m))) [0..<k]) = take (8 * k) m" if "k \<le> n" for k
    using that
  proof (induction k)
    case (Suc k)
    have "word_bytes (load_word_le (take 8 (drop (8 * k) m))) = take 8 (drop (8 * k) m)" using Suc.prems len by (intro wb) simp
    then show ?case using Suc by (simp add: take_add [symmetric] add.commute)
  qed simp
  from this [of n] len show ?thesis by (simp add: bn_little_endian_to_words_def Let_def m_def)
qed

lemma fits_in_bytes_iff:
  assumes "num_words \<le> length ws"
  shows "fits_in_bytes ws num_words n \<longleftrightarrow> words_val (take num_words ws) < 256 ^ n"
proof -
  let ?m = "mem_bytes (take num_words ws)"
  have or: "fold (\<lambda>i m. m OR bs ! i) is (m :: u8) = 0 \<longleftrightarrow> m = 0 \<and> (\<forall>i\<in>set is. bs ! i = 0)" for bs "is" m
    by (induction "is" arbitrary: m) (auto simp: bit_eq_iff bit_simps)
  have len: "length ?m = num_words * 8" using assms by simp
  have nth: "mem_bytes ws ! i = ?m ! i" if "i < num_words * 8" for i
    using that take_mem_bytes [OF assms] assms by (metis mult.commute nth_take)
  have "fits_in_bytes ws num_words n \<longleftrightarrow> (\<forall>i\<in>{n..<num_words * 8}. ?m ! i = 0)"
    unfolding fits_in_bytes_def or by (simp add: nth)
  also have "\<dots> \<longleftrightarrow> (\<forall>b\<in>set (drop n ?m). b = 0)"
  proof -
    have "drop n ?m = map ((!) ?m) [n..<num_words * 8]" using len by (intro nth_equalityI) simp_all
    then show ?thesis by simp
  qed
  also have "\<dots> \<longleftrightarrow> be_val (rev (drop n ?m)) = 0" by (simp add: be_val_eq_0)
  also have "\<dots> \<longleftrightarrow> words_val (take num_words ws) < 256 ^ n"
  proof (cases "n \<le> num_words * 8")
    case True
    have "be_val (rev ?m) = be_val (rev (drop n ?m)) * 256 ^ n + be_val (rev (take n ?m))"
      using be_val_append [of "rev (drop n ?m)" "rev (take n ?m)"] True len by (simp add: min_absorb2 flip: rev_append)
    moreover have "be_val (rev (take n ?m)) < 256 ^ n" using be_val_less [of "rev (take n ?m)"] True len by (simp add: min_absorb2)
    ultimately show ?thesis unfolding mem_bytes_val by (cases "be_val (rev (drop n ?m))") simp_all
  next
    case False
    have "words_val (take num_words ws) < 256 ^ (num_words * 8)"
      using be_val_less [of "rev ?m"] len by (simp add: mem_bytes_val mult.commute)
    also have "(256 :: nat) ^ (num_words * 8) \<le> 256 ^ n" using False by (intro power_increasing) simp_all
    finally show ?thesis using False len by simp
  qed
  finally show ?thesis .
qed

lemma words_to_big_endian_val:
  assumes "in_len \<le> length ws" "words_val (take in_len ws) < 256 ^ n"
  shows "bn_words_to_big_endian n ws in_len = be_bytes n (words_val (take in_len ws))"
proof (rule be_val_inj)
  let ?m = "mem_bytes (take in_len ws)"
  have len: "length ?m = in_len * 8" using assms by simp
  have m: "take k (mem_bytes ws) = take k ?m" if "k \<le> in_len * 8" for k
    using that unfolding take_mem_bytes [OF assms(1), symmetric] by (simp add: min_absorb1)
  show l: "length (bn_words_to_big_endian n ws in_len) = length (be_bytes n (words_val (take in_len ws)))"
    using assms(1) by (simp add: bn_words_to_big_endian_def Let_def)
  show "be_val (bn_words_to_big_endian n ws in_len) = be_val (be_bytes n (words_val (take in_len ws)))"
  proof (cases "n < in_len * 8")
    case True
    have "be_val (rev ?m) = be_val (rev (drop n ?m)) * 256 ^ n + be_val (rev (take n ?m))"
      using be_val_append [of "rev (drop n ?m)" "rev (take n ?m)"] True len by (simp add: min_absorb2 flip: rev_append)
    moreover have "be_val (rev (drop n ?m)) = 0"
      using calculation assms(2) unfolding mem_bytes_val by (cases "be_val (rev (drop n ?m))") simp_all
    ultimately show ?thesis
      using True m [of n] assms(2) by (simp add: bn_words_to_big_endian_def be_val_be_bytes mem_bytes_val)
  next
    case False
    then show ?thesis using m [of "in_len * 8"] len assms(2)
      by (simp add: bn_words_to_big_endian_def be_val_zeros be_val_be_bytes mem_bytes_val)
  qed
qed

section \<open>Numbers to bytes and back\<close>

lemma BN_bn2bin_padded_eq:
  assumes "bn_wf a"
  shows "BN_bn2bin_padded n a = (if bn_mag a < 256 ^ n then Some (be_bytes n (bn_mag a)) else None)"
  using fits_in_bytes_iff [OF bn_wfD [OF assms], of n] words_to_big_endian_val [OF bn_wfD [OF assms], of n]
  by (simp add: BN_bn2bin_padded_def bn_mag_def)

lemma le_of_be: "bn_words_to_little_endian n ws in_len = rev (bn_words_to_big_endian n ws in_len)"
  by (simp add: bn_words_to_little_endian_def bn_words_to_big_endian_def Let_def)

lemma BN_bn2le_padded_eq: "BN_bn2le_padded n a = map_option rev (BN_bn2bin_padded n a)"
  by (simp add: BN_bn2le_padded_def BN_bn2bin_padded_def le_of_be)

lemma BN_num_bytes_le: "bn_wf a \<Longrightarrow> BN_num_bytes a \<le> n \<longleftrightarrow> bn_mag a < 256 ^ n"
proof -
  assume "bn_wf a"
  have "(m + 7) div 8 \<le> n \<longleftrightarrow> m \<le> 8 * n" for m :: nat by linarith
  moreover have "(256 :: nat) ^ n = 2 ^ (8 * n)" by (simp add: power_mult)
  ultimately show ?thesis using \<open>bn_wf a\<close> by (simp add: BN_num_bytes_def BN_num_bits_eq bit_length_le)
qed

lemma BN_bn2bin_eq: "bn_wf a \<Longrightarrow> BN_bn2bin a = be_bytes (BN_num_bytes a) (bn_mag a)"
  using BN_num_bytes_le [of a "BN_num_bytes a"] unfolding BN_bn2bin_def bn_mag_def
  by (intro words_to_big_endian_val bn_wfD) (simp_all only: order_refl)

text \<open>Filling a destination of enough words with an array of words.\<close>

lemma bn_fill:
  assumes "bn_wf r" "length ws \<le> bn_dmax r"
  shows "bn_ok (r\<lparr>bn_width := length ws, bn_neg := False, bn_d := buf_write (bn_d r) 0 ws\<rparr>)"
    "bn_val (r\<lparr>bn_width := length ws, bn_neg := False, bn_d := buf_write (bn_d r) 0 ws\<rparr>) = int (words_val ws)"
proof -
  have "take (length ws) (buf_write (bn_d r) 0 ws) = ws" using take_buf_write_exact [of 0 "bn_d r" ws] by simp
  moreover have "length (buf_write (bn_d r) 0 ws) = length (bn_d r)"
    using assms by (intro length_buf_write) (simp add: bn_wf_def)
  ultimately show "bn_ok (r\<lparr>bn_width := length ws, bn_neg := False, bn_d := buf_write (bn_d r) 0 ws\<rparr>)"
    "bn_val (r\<lparr>bn_width := length ws, bn_neg := False, bn_d := buf_write (bn_d r) 0 ws\<rparr>) = int (words_val ws)"
    using assms by (simp_all add: bn_ok_def bn_wf_def bn_val_def bn_mag_def)
qed

lemma num_words: "bs \<noteq> [] \<Longrightarrow> (length bs - 1) div 8 + 1 = (length bs + 7) div 8"
  by (cases bs) simp_all

lemma BN_bin2bn_ok:
  assumes "bn_dest al ((length bs + 7) div 8) r" "\<not> (bs = [] \<and> bn_neg r)"
  shows "\<exists>a. BN_bin2bn al bs (Some r) = Some a \<and> bn_ok a \<and> bn_val a = int (be_val bs)"
proof (cases "bs = []")
  case True
  then show ?thesis using assms by (auto simp: BN_bin2bn_def bn_dest_def bn_ok_def bn_wf_def bn_val_def bn_mag_def)
next
  case False
  let ?n = "(length bs + 7) div 8"
  obtain r1 where r1: "bn_wexpand al ?n r = (Some (), r1)" "bn_wf r1" "?n \<le> bn_dmax r1" using bn_wexpand_ok [OF assms(1)] by blast
  have w: "bn_big_endian_to_words ?n bs = Some (be_words bs)"
  proof -
    have "length bs \<le> ?n * 8" by linarith
    then show ?thesis by (simp add: bn_big_endian_to_words_def be_words_val(2))
  qed
  have "BN_bin2bn al bs (Some r) = Some (r1\<lparr>bn_width := ?n, bn_neg := False, bn_d := buf_write (bn_d r1) 0 (be_words bs)\<rparr>)"
    unfolding BN_bin2bn_def option.case Let_def num_words [OF False] r1(1) w prod.case using False by simp
  with bn_fill [OF r1(2), of "be_words bs"] r1(3) show ?thesis by (simp add: be_words_val)
qed

lemma BN_le2bn_ok:
  assumes "bn_dest al ((length bs + 7) div 8) r"
  shows "\<exists>a. BN_le2bn al bs (Some r) = Some a \<and> bn_ok a \<and> bn_val a = int (be_val (rev bs))"
proof (cases "bs = []")
  case True
  then show ?thesis using assms by (auto simp: BN_le2bn_def bn_dest_def bn_ok_def bn_wf_def bn_val_def bn_mag_def)
next
  case False
  let ?n = "(length bs + 7) div 8"
  let ?ws = "bn_little_endian_to_words ?n bs"
  obtain r1 where r1: "bn_wexpand al ?n r = (Some (), r1)" "bn_wf r1" "?n \<le> bn_dmax r1" using bn_wexpand_ok [OF assms(1)] by blast
  have l: "length ?ws = ?n" by (simp add: bn_little_endian_to_words_def Let_def)
  have "length bs \<le> 8 * ?n" by linarith
  from mem_of_le_words [OF this] have v: "words_val ?ws = be_val (rev bs)"
    unfolding mem_bytes_val [symmetric] by (simp add: be_val_zeros)
  have "BN_le2bn al bs (Some r) = Some (r1\<lparr>bn_width := ?n, bn_neg := False, bn_d := buf_write (bn_d r1) 0 ?ws\<rparr>)"
    unfolding BN_le2bn_def option.case Let_def num_words [OF False] r1(1) prod.case using False by simp
  with bn_fill [OF r1(2), of ?ws] r1(3) l v show ?thesis by simp
qed

text \<open>
  An empty input keeps the sign of a destination that is reused, so that a negative zero comes out;
  it compares below zero. The little-endian reader clears the sign.
\<close>

lemma BN_bin2bn_empty_negative:
  assumes "bn_wf r" "bn_neg r" "bn_ok z" "bn_val z = 0"
  shows "\<exists>a. BN_bin2bn al [] (Some r) = Some a \<and> bn_neg a \<and> bn_mag a = 0 \<and> BN_cmp (Some a) (Some z) = - 1"
proof -
  have "\<not> bn_neg z" using assms(3,4) by (auto simp: bn_ok_def bn_val_def)
  then show ?thesis using assms by (simp add: BN_bin2bn_def bn_mag_def BN_cmp_def)
qed

section \<open>Properties\<close>

text \<open>
  C22. Integers survive the way to bytes and back. \<^verbatim>\<open>BN_bin2bn\<close> and \<^verbatim>\<open>BN_le2bn\<close> store the number that the bytes
  spell, of any length up to the limit on words (for an empty input and a negative destination see
  the finding); \<^verbatim>\<open>BN_bn2bin_padded\<close> and \<^verbatim>\<open>BN_bn2le_padded\<close> succeed exactly when the magnitude fits
  and then write it; \<^verbatim>\<open>BN_bn2bin\<close> writes it with the fewest bytes. So reading and writing with the same
  length is the identity on byte strings.
\<close>

theorem bn_bytes_roundtrip:
  assumes "bn_dest al ((length bs + 7) div 8) r" "\<not> (bs = [] \<and> bn_neg r)" "bn_wf b"
  shows "(\<exists>a. BN_bin2bn al bs (Some r) = Some a \<and> bn_ok a \<and> bn_val a = int (be_val bs) \<and> BN_bn2bin_padded (length bs) a = Some bs) \<and>
         (\<exists>a. BN_le2bn al bs (Some r) = Some a \<and> bn_ok a \<and> bn_val a = int (be_val (rev bs)) \<and> BN_bn2le_padded (length bs) a = Some bs) \<and>
         BN_bn2bin_padded n b = (if bn_mag b < 256 ^ n then Some (be_bytes n (bn_mag b)) else None) \<and>
         (length (BN_bn2bin b) \<le> n \<longleftrightarrow> bn_mag b < 256 ^ n) \<and> be_val (BN_bn2bin b) = bn_mag b"
proof -
  have again: "BN_bn2bin_padded (length xs) a = Some xs" if "bn_ok a" "bn_val a = int (be_val xs)" for a xs
  proof -
    have "bn_wf a" "bn_mag a = be_val xs" using that by (auto simp: bn_ok_def bn_val_def split: if_splits)
    then show ?thesis using be_val_less [of xs] by (simp add: BN_bn2bin_padded_eq be_bytes_be_val)
  qed
  from again [of _ "rev bs"] have again': "BN_bn2le_padded (length bs) a = Some bs" if "bn_ok a" "bn_val a = int (be_val (rev bs))" for a
    using that by (simp add: BN_bn2le_padded_eq)
  show ?thesis
    using BN_bin2bn_ok [OF assms(1,2)] BN_le2bn_ok [OF assms(1)] again again' BN_bn2bin_padded_eq [OF assms(3)]
      BN_bn2bin_eq [OF assms(3)] BN_num_bytes_le [OF assms(3)] BN_num_bytes_le [OF assms(3), of "BN_num_bytes b"]
    by (auto simp: be_val_be_bytes)
qed

theorem bn_bytes_roundtrip_witness:
  "\<exists>a. BN_bin2bn (\<lambda>_. Some (\<lambda>_. 0)) [0, 1, 2, 3, 4, 5, 6, 7, 8, 9] (Some BN_init) = Some a \<and> bn_ok a \<and>
     bn_val a = int (be_val [0, 1, 2, 3, 4, 5, 6, 7, 8, 9]) \<and> BN_bn2bin_padded 10 a = Some [0, 1, 2, 3, 4, 5, 6, 7, 8, 9]"
proof -
  have l: "length [0, 1, 2, 3, 4, 5, 6, 7, 8, 9 :: u8] = 10" by simp
  have d: "bn_dest (\<lambda>_. Some (\<lambda>_. 0)) ((10 + 7) div 8) BN_init" "bn_wf BN_value_one"
    by (simp_all add: bn_dest_def bn_wf_def BN_init_def BN_value_one_def BN_MAX_WORDS_def)
  show ?thesis
    using bn_bytes_roundtrip [of "\<lambda>_. Some (\<lambda>_. 0)" "[0, 1, 2, 3, 4, 5, 6, 7, 8, 9]" BN_init BN_value_one 1, THEN conjunct1, unfolded l, OF d(1) _ d(2)]
    by blast
qed

end
