(* ===== verification/BnShift.thy ===== *)
theory BnShift
  imports BnProps
begin

text \<open>
  Shifts and single bits, \<^verbatim>\<open>crypto/fipsmodule/bn/shift.c\<close>. The left shift works from the top word down
  and the right shift from the bottom up, so that an operand that is the destination is read
  before it is overwritten.
\<close>

section \<open>The code\<close>

definition lshift_words :: "BN_ULONG list \<Rightarrow> BN_ULONG list \<Rightarrow> nat \<Rightarrow> nat \<Rightarrow> BN_ULONG list" where
  "lshift_words t f w n =
     (let nw = n div 64; lb = n mod 64; rb = 64 - lb;
          t = t[w + nw := 0];
          t = (if lb = 0 then fold (\<lambda>i t. t[nw + i := f ! i]) (rev [0..<w]) t
               else fold (\<lambda>i t. let l = f ! i; t = t[nw + i + 1 := t ! (nw + i + 1) OR drop_bit rb l]
                                in t[nw + i := push_bit lb l]) (rev [0..<w]) t)
      in buf_write t 0 (replicate nw 0))"

definition BN_lshift :: "allocator \<Rightarrow> BIGNUM \<Rightarrow> int \<Rightarrow> (BIGNUM, unit) op" where
  "BN_lshift al a n r =
     (if n < 0 then (None, r)
      else let r = r\<lparr>bn_neg := bn_neg a\<rparr>; nw = nat n div 64
           in pbind (bn_wexpand al (bn_width a + nw + 1)) (\<lambda>_ r.
                (Some (), bn_set_minimal_width (r\<lparr>bn_d := lshift_words (bn_d r) (bn_d a) (bn_width a) (nat n),
                                                  bn_width := bn_width a + nw + 1\<rparr>))) r)"

text \<open>For a destination other than the operand.\<close>

definition BN_lshift1 :: "allocator \<Rightarrow> BIGNUM \<Rightarrow> (BIGNUM, unit) op" where
  "BN_lshift1 al a r =
     pbind (bn_wexpand al (bn_width a + 1)) (\<lambda>_ r.
       let (ws, c) = words_tail (\<lambda>i c. (push_bit 1 (bn_d a ! i) OR c, drop_bit 63 (bn_d a ! i))) 0 (bn_width a) 0;
           r = r\<lparr>bn_width := bn_width a, bn_d := buf_write (bn_d r) 0 ws\<rparr>
       in (Some (), if c \<noteq> 0 then r\<lparr>bn_d := (bn_d r)[bn_width a := 1], bn_width := bn_width a + 1\<rparr> else r))
     (r\<lparr>bn_neg := bn_neg a\<rparr>)"

definition bn_rshift_words :: "BN_ULONG list \<Rightarrow> nat \<Rightarrow> nat \<Rightarrow> BN_ULONG list" where
  "bn_rshift_words a shift num =
     (let shift_bits = shift mod 64; shift_words = shift div 64
      in if shift_words \<ge> num then replicate num 0
         else (if shift_bits = 0 then take (num - shift_words) (drop shift_words a)
               else map (\<lambda>i. drop_bit shift_bits (a ! i) OR push_bit (64 - shift_bits) (a ! (i + 1))) [shift_words..<num - 1]
                    @ [drop_bit shift_bits (a ! (num - 1))])
              @ replicate shift_words 0)"

definition BN_rshift :: "allocator \<Rightarrow> BIGNUM \<Rightarrow> int \<Rightarrow> (BIGNUM, unit) op" where
  "BN_rshift al a n r =
     (if n < 0 then (None, r)
      else pbind (bn_wexpand al (bn_width a)) (\<lambda>_ r.
             (Some (), bn_set_minimal_width (r\<lparr>bn_d := buf_write (bn_d r) 0 (bn_rshift_words (bn_d a) (nat n) (bn_width a)),
                                               bn_neg := bn_neg a, bn_width := bn_width a\<rparr>))) r)"

text \<open>The shift by a secret amount: \<open>tmp\<close> is what \<open>BN_CTX_get\<close> returned, \<open>n\<close> and the loop counter are unsigned.\<close>

lemma shift_index_less: "0 < (max_bits :: nat) div 2 ^ i \<Longrightarrow> i < max_bits"
  by (simp add: div_greater_zero_iff) (metis less_exp less_le_trans)

function secret_shift_loop :: "nat \<Rightarrow> 32 word \<Rightarrow> nat \<Rightarrow> nat \<Rightarrow> BN_ULONG list \<Rightarrow> BN_ULONG list" where
  "secret_shift_loop max_bits n i w d =
     (if max_bits div 2 ^ i \<noteq> 0
      then let m = 0 - (ucast (drop_bit i n AND 1) :: BN_ULONG); t = bn_rshift_words d (2 ^ i) w
           in secret_shift_loop max_bits n (Suc i) w (buf_write d 0 (bn_select_words m t d w))
      else d)"
  by pat_completeness auto
termination
  by (relation "measure (\<lambda>(max_bits, n, i, w, d). max_bits - i)") (auto dest: shift_index_less)

declare secret_shift_loop.simps [simp del]

definition bn_rshift_secret_shift :: "allocator \<Rightarrow> BIGNUM \<Rightarrow> 32 word \<Rightarrow> BIGNUM option \<Rightarrow> (BIGNUM, unit) op" where
  "bn_rshift_secret_shift al a n tmp r =
     (case tmp of
        None \<Rightarrow> (None, r)
      | Some tmp \<Rightarrow> pbind (BN_copy al a) (\<lambda>_ r.
          case bn_wexpand al (bn_width r) tmp of
            (None, _) \<Rightarrow> (None, r)
          | (Some _, _) \<Rightarrow> (Some (), r\<lparr>bn_d := secret_shift_loop (64 * bn_width r) n 0 (bn_width r) (bn_d r)\<rparr>)) r)"

definition bn_rshift1_words :: "BN_ULONG list \<Rightarrow> nat \<Rightarrow> BN_ULONG list" where
  "bn_rshift1_words a num =
     (if num = 0 then []
      else map (\<lambda>i. drop_bit 1 (a ! i) OR push_bit 63 (a ! (i + 1))) [0..<num - 1] @ [drop_bit 1 (a ! (num - 1))])"

definition BN_rshift1 :: "allocator \<Rightarrow> BIGNUM \<Rightarrow> (BIGNUM, unit) op" where
  "BN_rshift1 al a = pbind (bn_wexpand al (bn_width a)) (\<lambda>_ r.
     (Some (), bn_set_minimal_width (r\<lparr>bn_d := buf_write (bn_d r) 0 (bn_rshift1_words (bn_d a) (bn_width a)),
                                       bn_width := bn_width a, bn_neg := bn_neg a\<rparr>)))"

definition BN_set_bit :: "allocator \<Rightarrow> int \<Rightarrow> (BIGNUM, unit) op" where
  "BN_set_bit al n a =
     (if n < 0 then (None, a)
      else let i = nat n div 64; j = nat n mod 64
           in pbind (\<lambda>a. if bn_width a \<le> i
                         then pbind (bn_wexpand al (i + 1)) (\<lambda>_ a.
                                (Some (), a\<lparr>bn_d := buf_write (bn_d a) (bn_width a) (replicate (i + 1 - bn_width a) 0), bn_width := i + 1\<rparr>)) a
                         else (Some (), a))
                    (\<lambda>_ a. (Some (), a\<lparr>bn_d := (bn_d a)[i := bn_d a ! i OR push_bit j 1]\<rparr>)) a)"

definition BN_clear_bit :: "int \<Rightarrow> (BIGNUM, unit) op" where
  "BN_clear_bit n a =
     (if n < 0 then (None, a)
      else let i = nat n div 64; j = nat n mod 64
           in if bn_width a \<le> i then (None, a)
              else (Some (), bn_set_minimal_width (a\<lparr>bn_d := (bn_d a)[i := bn_d a ! i AND NOT (push_bit j 1)]\<rparr>)))"

definition bn_is_bit_set_words :: "BN_ULONG list \<Rightarrow> nat \<Rightarrow> nat \<Rightarrow> bool" where
  "bn_is_bit_set_words a num b =
     (let i = b div 64; j = b mod 64 in if i \<ge> num then False else drop_bit j (a ! i) AND 1 \<noteq> 0)"

definition BN_is_bit_set :: "BIGNUM \<Rightarrow> int \<Rightarrow> bool" where
  "BN_is_bit_set a n = (if n < 0 then False else bn_is_bit_set_words (bn_d a) (bn_width a) (nat n))"

definition BN_mask_bits :: "int \<Rightarrow> (BIGNUM, unit) op" where
  "BN_mask_bits n a =
     (if n < 0 then (None, a)
      else let w = nat n div 64; b = nat n mod 64
           in if w \<ge> bn_width a then (Some (), a)
              else let a = (if b = 0 then a\<lparr>bn_width := w\<rparr>
                            else a\<lparr>bn_width := w + 1, bn_d := (bn_d a)[w := bn_d a ! w AND NOT (push_bit b 0xffffffffffffffff)]\<rparr>)
                   in (Some (), bn_set_minimal_width a))"

text \<open>One round of \<open>bn_count_low_zero_bits_word\<close>: the lower half is skipped when it is zero.\<close>

definition low_zero_round :: "nat \<Rightarrow> BN_ULONG \<times> nat \<Rightarrow> BN_ULONG \<times> nat" where
  "low_zero_round k = (\<lambda>(l, bits).
     let m = constant_time_is_zero_w (push_bit (64 - k) l)
     in (constant_time_select_w m (drop_bit k l) l, bits + unat (of_nat k AND m)))"

definition bn_count_low_zero_bits_word :: "BN_ULONG \<Rightarrow> nat" where
  "bn_count_low_zero_bits_word l = snd (fold low_zero_round [32, 16, 8, 4, 2, 1] (l, 0))"

definition BN_count_low_zero_bits :: "BIGNUM \<Rightarrow> nat" where
  "BN_count_low_zero_bits bn =
     unat (snd (fold (\<lambda>i (saw_nonzero, ret).
        let nonzero = NOT (constant_time_is_zero_w (bn_d bn ! i));
            first_nonzero = NOT saw_nonzero AND nonzero;
            bits = bn_count_low_zero_bits_word (bn_d bn ! i)
        in (saw_nonzero OR nonzero, ret OR ucast (first_nonzero AND of_nat (i * 64 + bits))))
      [0..<bn_width bn] (0 :: crypto_word_t, 0 :: 32 word)))"

section \<open>Left shifts\<close>

lemma unat_push_bit_mod: "unat (push_bit k (l :: BN_ULONG)) = unat l * 2 ^ k mod 2 ^ 64"
  using unsigned_push_bit_eq [of k l, where 'a = nat] by (simp add: take_bit_eq_mod push_bit_eq_mult [of k "unat l"])

lemma shift_out:
  fixes l :: BN_ULONG
  assumes "0 < lb" "lb < 64"
  shows "unat (push_bit lb l) + 2 ^ 64 * unat (drop_bit (64 - lb) l) = unat l * 2 ^ lb" "unat (drop_bit (64 - lb) l) < 2 ^ lb"
proof -
  let ?p = "2 ^ lb :: nat" and ?q = "2 ^ (64 - lb) :: nat"
  have pq: "?p * ?q = 2 ^ 64" using assms by (simp flip: power_add)
  have d: "unat (drop_bit (64 - lb) l) = unat l div ?q" by (rule unat_drop_bit)
  have "unat (push_bit lb l) = unat l * ?p mod 2 ^ 64" by (rule unat_push_bit_mod)
  also have "\<dots> = ?p * (unat l mod ?q)" unfolding pq [symmetric] by (simp add: mult.commute mod_mult_mult1)
  finally have p: "unat (push_bit lb l) = ?p * (unat l mod ?q)" .
  have "?p * (unat l mod ?q) + ?p * ?q * (unat l div ?q) = ?p * unat l"
    using mod_mult_div_eq [of "unat l" ?q] by (metis distrib_left mult.assoc)
  then show "unat (push_bit lb l) + 2 ^ 64 * unat (drop_bit (64 - lb) l) = unat l * 2 ^ lb"
    unfolding p d pq by (simp add: mult.commute)
  have "unat l < ?p * ?q" using unat_u64_less [of l] pq by simp
  then show "unat (drop_bit (64 - lb) l) < 2 ^ lb" unfolding d by (simp add: less_mult_imp_div_less)
qed

text \<open>
  The loops from the top word down: after the words from \<open>k\<close> on, the array holds their shifted value
  and the word that receives the next bits has none below the shift.
\<close>

lemma lshift_loop:
  fixes t f :: "BN_ULONG list" and nw w lb :: nat
  assumes "0 < lb" "lb < 64" "w \<le> length f" "nw + w < length t" "t ! (nw + w) = 0" "k \<le> w"
  defines "step \<equiv> \<lambda>i t. let l = f ! i; t = t[nw + i + 1 := t ! (nw + i + 1) OR drop_bit (64 - lb) l] in t[nw + i := push_bit lb l]"
  shows "length (fold step (rev [k..<w]) t) = length t \<and> 2 ^ lb dvd unat (fold step (rev [k..<w]) t ! (nw + k)) \<and>
    words_val (drop (nw + k) (take (nw + w + 1) (fold step (rev [k..<w]) t))) = words_val (drop k (take w f)) * 2 ^ lb"
  using assms(6)
proof (induction k rule: inc_induct)
  case base
  have "drop (nw + w) (take (nw + w + 1) t) = [0]"
    using assms(4,5) by (simp add: take_Suc_conv_app_nth)
  then show ?case using assms(3-5) by simp
next
  case (step n)
  let ?S = "fold step (rev [Suc n..<w]) t" and ?l = "f ! n" and ?L = "nw + w + 1"
  let ?x = "?S ! (nw + Suc n)" and ?R = "drop (nw + Suc (Suc n)) (take ?L ?S)"
  have len: "length ?S = length t" and dvd: "2 ^ lb dvd unat ?x"
    and val: "words_val (drop (nw + Suc n) (take ?L ?S)) = words_val (drop (Suc n) (take w f)) * 2 ^ lb"
    using step.IH by simp_all
  note so = shift_out [OF assms(1,2), of ?l]
  have D: "drop (nw + Suc n) (take ?L ?S) = ?x # ?R"
    using step.hyps len assms(4) by (subst Cons_nth_drop_Suc [symmetric]) simp_all
  have F: "drop n (take w f) = ?l # drop (Suc n) (take w f)"
    using step.hyps assms(3) by (subst Cons_nth_drop_Suc [symmetric]) simp_all
  have T: "fold step (rev [n..<w]) t = ?S[nw + Suc n := ?x OR drop_bit (64 - lb) ?l, nw + n := push_bit lb ?l]"
    using step.hyps by (simp add: upt_conv_Cons assms(7) Let_def)
  have TD: "drop (nw + n) (take ?L (fold step (rev [n..<w]) t)) = push_bit lb ?l # (?x OR drop_bit (64 - lb) ?l) # ?R"
    unfolding T using step.hyps len assms(4) by (intro nth_equalityI) (auto simp: nth_Cons nth_list_update split: nat.splits)
  have or: "unat (?x OR drop_bit (64 - lb) ?l) = unat ?x + unat (drop_bit (64 - lb) ?l)"
    by (rule unat_or_disjoint [OF dvd so(2)])
  have "words_val (drop (nw + n) (take ?L (fold step (rev [n..<w]) t))) =
      (unat (push_bit lb ?l) + 2 ^ 64 * unat (drop_bit (64 - lb) ?l)) + 2 ^ 64 * (unat ?x + 2 ^ 64 * words_val ?R)"
    unfolding TD words_val_simps or by (simp add: algebra_simps)
  also have "\<dots> = unat ?l * 2 ^ lb + 2 ^ 64 * (words_val (drop (Suc n) (take w f)) * 2 ^ lb)"
    using val unfolding so D words_val_simps by simp
  finally have v: "words_val (drop (nw + n) (take ?L (fold step (rev [n..<w]) t))) = words_val (drop n (take w f)) * 2 ^ lb"
    unfolding F words_val_simps by (simp add: algebra_simps)
  have "unat (push_bit lb ?l) = unat ?l * 2 ^ lb - 2 ^ 64 * unat (drop_bit (64 - lb) ?l)" using so(1) by simp
  moreover have "(2 :: nat) ^ lb dvd 2 ^ 64" using assms(2) by (intro le_imp_power_dvd) simp
  ultimately have "2 ^ lb dvd unat (push_bit lb ?l)" by (simp add: dvd_diff_nat)
  then show ?case using v step.hyps len assms(4) unfolding T by simp
qed

lemma lshift_loop_0:
  fixes t f :: "BN_ULONG list"
  assumes "w \<le> length f" "nw + w < length t" "t ! (nw + w) = 0" "k \<le> w"
  shows "length (fold (\<lambda>i t. t[nw + i := f ! i]) (rev [k..<w]) t) = length t \<and>
    words_val (drop (nw + k) (take (nw + w + 1) (fold (\<lambda>i t. t[nw + i := f ! i]) (rev [k..<w]) t))) = words_val (drop k (take w f))"
  using assms(4)
proof (induction k rule: inc_induct)
  case base
  have "drop (nw + w) (take (nw + w + 1) t) = [0]"
    using assms(2,3) by (simp add: take_Suc_conv_app_nth)
  then show ?case using assms by simp
next
  case (step n)
  let ?S = "fold (\<lambda>i t. t[nw + i := f ! i]) (rev [Suc n..<w]) t" and ?L = "nw + w + 1"
  have IH: "length ?S = length t" "words_val (drop (nw + Suc n) (take ?L ?S)) = words_val (drop (Suc n) (take w f))"
    using step.IH by simp_all
  have F: "drop n (take w f) = f ! n # drop (Suc n) (take w f)"
    using step.hyps assms(1) by (subst Cons_nth_drop_Suc [symmetric]) simp_all
  have "drop (nw + n) (take ?L (?S[nw + n := f ! n])) = f ! n # drop (nw + Suc n) (take ?L ?S)"
    using step.hyps IH(1) assms(2) by (intro nth_equalityI) (auto simp: nth_Cons' nth_list_update)
  with step.hyps IH show ?case by (simp add: upt_conv_Cons F)
qed

lemma lshift_words_val:
  assumes "w \<le> length f" "n div 64 + w < length t"
  shows "length (lshift_words t f w n) = length t"
    "words_val (take (w + n div 64 + 1) (lshift_words t f w n)) = words_val (take w f) * 2 ^ n"
proof -
  let ?nw = "n div 64" and ?lb = "n mod 64" and ?t = "t[w + n div 64 := 0]"
  define T where "T = (if ?lb = 0 then fold (\<lambda>i t. t[?nw + i := f ! i]) (rev [0..<w]) ?t
      else fold (\<lambda>i t. let l = f ! i; t = t[?nw + i + 1 := t ! (?nw + i + 1) OR drop_bit (64 - ?lb) l] in t[?nw + i := push_bit ?lb l]) (rev [0..<w]) ?t)"
  have t: "?nw + w < length ?t" "?t ! (?nw + w) = 0" using assms(2) by (simp_all add: add.commute)
  have T: "length T = length t" "words_val (drop ?nw (take (?nw + w + 1) T)) = words_val (take w f) * 2 ^ ?lb"
  proof -
    have "length T = length t \<and> words_val (drop ?nw (take (?nw + w + 1) T)) = words_val (take w f) * 2 ^ ?lb"
    proof (cases "?lb = 0")
      case True
      then show ?thesis using lshift_loop_0 [OF assms(1) t le0] unfolding T_def by simp
    next
      case False
      then have lb: "0 < ?lb" "?lb < 64" by simp_all
      have "length T = length ?t \<and> 2 ^ ?lb dvd unat (T ! (?nw + 0)) \<and>
          words_val (drop (?nw + 0) (take (?nw + w + 1) T)) = words_val (drop 0 (take w f)) * 2 ^ ?lb"
        unfolding T_def if_not_P [OF False] by (rule lshift_loop [OF lb assms(1) t le0])
      then show ?thesis by simp
    qed
    then show "length T = length t" "words_val (drop ?nw (take (?nw + w + 1) T)) = words_val (take w f) * 2 ^ ?lb" by blast+
  qed
  have e: "lshift_words t f w n = buf_write T 0 (replicate ?nw 0)" by (simp add: lshift_words_def Let_def T_def)
  show "length (lshift_words t f w n) = length t" using T(1) assms(2) unfolding e by (subst length_buf_write) simp_all
  have "take (w + ?nw + 1) (lshift_words t f w n) = replicate ?nw 0 @ drop ?nw (take (?nw + w + 1) T)"
    unfolding e buf_write_def by (simp add: add.commute drop_take)
  moreover have "2 ^ n = (2 :: nat) ^ (64 * ?nw) * 2 ^ ?lb" by (simp flip: power_add)
  ultimately show "words_val (take (w + n div 64 + 1) (lshift_words t f w n)) = words_val (take w f) * 2 ^ n"
    using T(2) by (simp add: words_val_append)
qed

section \<open>Right shifts\<close>

fun shr_words :: "nat \<Rightarrow> BN_ULONG list \<Rightarrow> BN_ULONG list" where
  "shr_words s [] = []"
| "shr_words s [x] = [drop_bit s x]"
| "shr_words s (x # y # xs) = (drop_bit s x OR push_bit (64 - s) y) # shr_words s (y # xs)"

lemma shr_join:
  fixes x y :: BN_ULONG
  assumes "0 < s" "s < 64"
  shows "unat (drop_bit s x OR push_bit (64 - s) y) = unat x div 2 ^ s + 2 ^ (64 - s) * (unat y mod 2 ^ s)"
proof -
  let ?p = "2 ^ s :: nat" and ?q = "2 ^ (64 - s) :: nat"
  have pq: "2 ^ 64 = ?q * ?p" using assms by (simp flip: power_add)
  have y: "unat (push_bit (64 - s) y) = ?q * (unat y mod ?p)"
    unfolding unat_push_bit_mod pq by (simp add: mult.commute mod_mult_mult1)
  have "unat x < ?q * ?p" using unat_u64_less [of x] pq by simp
  then have "unat (drop_bit s x) < ?q" unfolding unat_drop_bit by (simp add: less_mult_imp_div_less)
  moreover have "?q dvd unat (push_bit (64 - s) y)" unfolding y by simp
  ultimately have "unat (push_bit (64 - s) y OR drop_bit s x) = unat (push_bit (64 - s) y) + unat (drop_bit s x)"
    by (intro unat_or_disjoint)
  then show ?thesis unfolding y unat_drop_bit by (simp add: or.commute)
qed

lemma shr_words_val:
  assumes "0 < s" "s < 64"
  shows "words_val (shr_words s ws) = words_val ws div 2 ^ s"
proof (induction ws rule: induct_list012)
  case (2 x)
  then show ?case by (simp add: unat_drop_bit)
next
  case (3 x y xs)
  let ?p = "2 ^ s :: nat" and ?q = "2 ^ (64 - s) :: nat" and ?Y = "words_val (y # xs)"
  have pq: "2 ^ 64 = ?p * ?q" using assms by (simp flip: power_add)
  have m: "?Y mod ?p = unat y mod ?p" unfolding words_val_simps pq by (simp add: mult.assoc)
  have "words_val (shr_words s (x # y # xs)) = unat x div ?p + ?q * (unat y mod ?p) + ?p * ?q * (?Y div ?p)"
    using 3 shr_join [OF assms, of x y] unfolding pq [symmetric] by simp
  also have "\<dots> = unat x div ?p + ?q * (?p * (?Y div ?p) + ?Y mod ?p)" unfolding m by (simp add: algebra_simps)
  also have "\<dots> = (unat x + ?p * (?q * ?Y)) div ?p" by (simp add: mult_div_mod_eq)
  also have "unat x + ?p * (?q * ?Y) = words_val (x # y # xs)" unfolding words_val_simps(2) [of x] pq by (simp only: mult.assoc)
  finally show ?case .
qed simp

lemma length_shr_words [simp]: "length (shr_words s ws) = length ws"
  by (induction s ws rule: shr_words.induct) simp_all

lemma shr_words_map:
  "ws \<noteq> [] \<Longrightarrow> shr_words s ws = map (\<lambda>i. drop_bit s (ws ! i) OR push_bit (64 - s) (ws ! (i + 1))) [0..<length ws - 1] @ [drop_bit s (ws ! (length ws - 1))]"
proof (induction s ws rule: shr_words.induct)
  case (3 s x y xs)
  have "[0..<length (x # y # xs) - 1] = 0 # map Suc [0..<length (y # xs) - 1]" by (simp add: upt_conv_Cons map_Suc_upt del: upt_Suc)
  with 3 show ?case by simp
qed simp_all

lemma shr_words_slice:
  assumes "k < num" "num \<le> length a"
  shows "map (\<lambda>i. drop_bit s (a ! i) OR push_bit (64 - s) (a ! (i + 1))) [k..<num - 1] @ [drop_bit s (a ! (num - 1))] =
    shr_words s (drop k (take num a))"
proof -
  let ?w = "drop k (take num a)"
  have l: "length ?w = num - k" using assms by simp
  have n: "?w ! i = a ! (k + i)" if "i < num - k" for i using that assms by simp
  have "[k..<num - 1] = map ((+) k) [0..<num - k - 1]" using assms by (intro nth_equalityI) auto
  then show ?thesis using shr_words_map [of ?w s] assms n by (auto simp: l)
qed

lemma bn_rshift_words_val:
  assumes "num \<le> length a"
  shows "length (bn_rshift_words a n num) = num" "words_val (bn_rshift_words a n num) = words_val (take num a) div 2 ^ n"
proof -
  let ?k = "n div 64" and ?s = "n mod 64"
  have e: "2 ^ n = (2 :: nat) ^ (64 * ?k) * 2 ^ ?s" by (simp flip: power_add)
  show "length (bn_rshift_words a n num) = num" using assms by (auto simp: bn_rshift_words_def Let_def)
  show "words_val (bn_rshift_words a n num) = words_val (take num a) div 2 ^ n"
  proof (cases "?k \<ge> num")
    case True
    have "words_val (take num a) < 2 ^ (64 * num)" using words_val_less [of "take num a"] assms by (simp add: min_absorb2)
    also have "(2 :: nat) ^ (64 * num) \<le> 2 ^ n" using True by (intro power_increasing) linarith+
    finally show ?thesis using True by (simp add: bn_rshift_words_def)
  next
    case False
    let ?w = "drop ?k (take num a)"
    have "words_val (take num a) = words_val (take ?k a) + 2 ^ (64 * ?k) * words_val ?w"
      using words_val_append [of "take ?k (take num a)" ?w] False assms unfolding append_take_drop_id by (simp add: min_absorb1 min_absorb2)
    moreover have "words_val (take ?k a) < 2 ^ (64 * ?k)" using words_val_less [of "take ?k a"] False assms by (simp add: min_absorb2)
    ultimately have w: "words_val (take num a) div 2 ^ n = words_val ?w div 2 ^ ?s" unfolding e div_mult2_eq by simp
    have "words_val (bn_rshift_words a n num) = words_val (if ?s = 0 then ?w else shr_words ?s ?w)"
      using False shr_words_slice [of ?k num a ?s] assms by (simp add: bn_rshift_words_def Let_def words_val_append drop_take)
    also have "\<dots> = words_val ?w div 2 ^ ?s" using shr_words_val [of ?s ?w] by simp
    finally show ?thesis unfolding w .
  qed
qed

lemma bn_rshift1_words_eq: "num \<le> length a \<Longrightarrow> bn_rshift1_words a num = bn_rshift_words a 1 num"
  by (simp add: bn_rshift1_words_def bn_rshift_words_def Let_def)

section \<open>Shifting numbers\<close>

lemma BN_lshift_ok:
  assumes "bn_ok a" "0 \<le> n" "bn_dest al (bn_width a + nat n div 64 + 1) r"
  shows "\<exists>r'. BN_lshift al a n r = (Some (), r') \<and> bn_result r' (bn_val a * 2 ^ nat n)"
proof -
  have wf: "bn_wf a" using assms(1) by (simp add: bn_ok_def)
  let ?nw = "nat n div 64" and ?L = "bn_width a + nat n div 64 + 1"
  obtain r1 where r1: "bn_wexpand al ?L (r\<lparr>bn_neg := bn_neg a\<rparr>) = (Some (), r1)" "bn_wf r1" "?L \<le> bn_dmax r1" "bn_neg r1 = bn_neg a"
    using bn_wexpand_ok [of al ?L "r\<lparr>bn_neg := bn_neg a\<rparr>"] assms(3) by auto
  let ?r = "r1\<lparr>bn_d := lshift_words (bn_d r1) (bn_d a) (bn_width a) (nat n), bn_width := ?L\<rparr>"
  have "?nw + bn_width a < length (bn_d r1)" using r1(2,3) by (simp add: bn_wf_def)
  note v = lshift_words_val [OF bn_wfD [OF wf] this]
  have w: "bn_wf ?r" "bn_mag ?r = bn_mag a * 2 ^ nat n" "bn_neg ?r = bn_neg a"
    using v r1 by (simp_all add: bn_wf_def bn_mag_def)
  have "BN_lshift al a n r = (Some (), bn_set_minimal_width ?r)"
    unfolding BN_lshift_def Let_def using assms(2) by (simp only: pbind_def r1(1) prod.case option.case) simp
  then show ?thesis
    using bn_set_minimal_width_ok [OF w(1)] w assms(1) by (auto simp: bn_result_def bn_val_def bn_ok_def)
qed

lemma bn_store_minimal:
  assumes "bn_dest al (length ws) r" "words_val ws = v"
  shows "\<exists>r1. bn_wexpand al (length ws) r = (Some (), r1) \<and>
    bn_result (bn_set_minimal_width (r1\<lparr>bn_d := buf_write (bn_d r1) 0 ws, bn_neg := s, bn_width := length ws\<rparr>)) (if s then - int v else int v)"
proof -
  obtain r1 where r1: "bn_wexpand al (length ws) r = (Some (), r1)" "bn_wf r1" "length ws \<le> bn_dmax r1" using bn_wexpand_ok [OF assms(1)] by blast
  let ?r = "r1\<lparr>bn_d := buf_write (bn_d r1) 0 ws, bn_neg := s, bn_width := length ws\<rparr>"
  have "take (length ws) (buf_write (bn_d r1) 0 ws) = ws" using take_buf_write_exact [of 0 "bn_d r1" ws] by simp
  moreover have "length (buf_write (bn_d r1) 0 ws) = length (bn_d r1)" using r1 by (intro length_buf_write) (simp add: bn_wf_def)
  ultimately have w: "bn_wf ?r" "bn_mag ?r = v" using r1 assms(2) by (simp_all add: bn_wf_def bn_mag_def)
  from bn_set_minimal_width_ok [OF w(1)] w(2) have "bn_result (bn_set_minimal_width ?r) (if s then - int v else int v)"
    by (auto simp: bn_result_def bn_val_def)
  with r1(1) show ?thesis by blast
qed

lemma BN_rshift_ok:
  assumes "bn_wf a" "0 \<le> n" "bn_dest al (bn_width a) r"
  shows "\<exists>r'. BN_rshift al a n r = (Some (), r') \<and> bn_result r' (if bn_neg a then - int (bn_mag a div 2 ^ nat n) else int (bn_mag a div 2 ^ nat n))"
proof -
  let ?ws = "bn_rshift_words (bn_d a) (nat n) (bn_width a)"
  have l: "length ?ws = bn_width a" "words_val ?ws = bn_mag a div 2 ^ nat n"
    using bn_rshift_words_val [OF bn_wfD [OF assms(1)], of "nat n"] by (simp_all add: bn_mag_def)
  have "bn_dest al (length ?ws) r" using assms(3) l(1) by simp
  from bn_store_minimal [OF this l(2), of "bn_neg a"] obtain r1 where
    "bn_wexpand al (bn_width a) r = (Some (), r1)"
    "bn_result (bn_set_minimal_width (r1\<lparr>bn_d := buf_write (bn_d r1) 0 ?ws, bn_neg := bn_neg a, bn_width := bn_width a\<rparr>))
       (if bn_neg a then - int (bn_mag a div 2 ^ nat n) else int (bn_mag a div 2 ^ nat n))"
    unfolding l(1) by blast
  with assms(2) show ?thesis by (simp add: BN_rshift_def pbind_def)
qed

lemma BN_rshift1_eq:
  assumes "bn_wf a"
  shows "BN_rshift1 al a r = BN_rshift al a 1 r"
proof -
  have swap: "b\<lparr>bn_d := d, bn_width := w, bn_neg := s\<rparr> = b\<lparr>bn_d := d, bn_neg := s, bn_width := w\<rparr>" for b d w s
    by (cases b) simp
  have e: "bn_rshift1_words (bn_d a) (bn_width a) = bn_rshift_words (bn_d a) (nat 1) (bn_width a)"
    using bn_rshift1_words_eq [OF bn_wfD [OF assms]] by simp
  show ?thesis unfolding BN_rshift1_def BN_rshift_def pbind_def swap e by simp
qed

lemma BN_lshift1_ok:
  assumes "bn_wf a" "bn_dest al (bn_width a + 1) r"
  shows "\<exists>r'. BN_lshift1 al a r = (Some (), r') \<and> bn_wf r' \<and> bn_neg r' = bn_neg a \<and> bn_mag r' = 2 * bn_mag a"
proof -
  obtain ws c where loop: "words_tail (\<lambda>i c. (push_bit 1 (bn_d a ! i) OR c, drop_bit 63 (bn_d a ! i))) 0 (bn_width a) 0 = (ws, c)" by force
  have "unat c \<le> 1 \<and> length ws = bn_width a \<and> int (words_val ws) + 1 * 2 ^ (64 * bn_width a) * int (unat c) =
      (\<Sum>k<bn_width a. (2 * int (unat (bn_d a ! (0 + k)))) * 2 ^ (64 * k)) + 1 * int (unat (0 :: BN_ULONG))"
  proof (rule words_tail_val [where P = "\<lambda>c. unat c \<le> 1", OF _ _ loop])
    fix j :: nat and c r c' :: BN_ULONG
    assume c: "unat c \<le> 1" and s: "(push_bit 1 (bn_d a ! j) OR c, drop_bit 63 (bn_d a ! j)) = (r, c')"
    note so = shift_out [of 1 "bn_d a ! j"]
    have "2 ^ 1 dvd unat (push_bit 1 (bn_d a ! j))" unfolding unat_push_bit_mod by (simp add: dvd_mod_iff)
    then have "unat r = unat (push_bit 1 (bn_d a ! j)) + unat c" using s c unat_or_disjoint [of 1 "push_bit 1 (bn_d a ! j)" c] by auto
    then have "unat r + 2 ^ 64 * unat c' = 2 * unat (bn_d a ! j) + unat c" using so s by simp
    from arg_cong [OF this, of int] so(2) s
    show "unat c' \<le> 1 \<and> int (unat r) + 1 * 2 ^ 64 * int (unat c') = 2 * int (unat (bn_d a ! j)) + 1 * int (unat c)" by auto
  qed simp
  then have c1: "unat c \<le> 1" and len: "length ws = bn_width a"
    and "int (words_val ws) + 2 ^ (64 * bn_width a) * int (unat c) = 2 * int (\<Sum>k<bn_width a. unat (bn_d a ! k) * 2 ^ (64 * k))"
    by (simp_all add: sum_distrib_left mult.assoc)
  then have "int (words_val ws + 2 ^ (64 * bn_width a) * unat c) = int (2 * bn_mag a)"
    using words_val_sum [OF bn_wfD [OF assms(1)]] by (simp add: bn_mag_def)
  then have v: "words_val ws + 2 ^ (64 * bn_width a) * unat c = 2 * bn_mag a" unfolding of_nat_eq_iff .
  obtain r1 where r1: "bn_wexpand al (bn_width a + 1) (r\<lparr>bn_neg := bn_neg a\<rparr>) = (Some (), r1)" "bn_wf r1"
    "bn_width a + 1 \<le> bn_dmax r1" "bn_neg r1 = bn_neg a"
    using bn_wexpand_ok [of al "bn_width a + 1" "r\<lparr>bn_neg := bn_neg a\<rparr>"] assms(2) by auto
  let ?d = "buf_write (bn_d r1) 0 ws"
  have d: "take (bn_width a) ?d = ws" "length ?d = length (bn_d r1)"
    using take_buf_write_exact [of 0 "bn_d r1" ws] len r1(2,3) by (simp_all add: bn_wf_def)
  have run: "BN_lshift1 al a r = (Some (), if c \<noteq> 0 then r1\<lparr>bn_width := bn_width a + 1, bn_d := ?d[bn_width a := 1]\<rparr>
      else r1\<lparr>bn_width := bn_width a, bn_d := ?d\<rparr>)"
    unfolding BN_lshift1_def pbind_def r1(1) prod.case option.case loop Let_def by simp
  have "take (bn_width a + 1) (?d[bn_width a := 1]) = ws @ [1]" using d r1(2,3) by (simp add: take_Suc_conv_app_nth bn_wf_def)
  moreover have "unat c = 1" if "c \<noteq> 0" using that c1 unat_gt_0 [of c] by linarith
  ultimately show ?thesis unfolding run using d r1 v len by (auto simp: bn_wf_def bn_mag_def words_val_append)
qed

section \<open>Single bits\<close>

lemma words_val_bit: "bit (words_val ws) n \<longleftrightarrow> n div 64 < length ws \<and> bit (ws ! (n div 64)) (n mod 64)"
proof (induction ws arbitrary: n)
  case (Cons w ws)
  show ?case
  proof (cases "n < 64")
    case True
    have "(2 :: nat) ^ 64 = 2 ^ n * 2 ^ (64 - n)" using True by (simp flip: power_add)
    then have "words_val (w # ws) = unat w + 2 ^ n * (2 ^ (64 - n) * words_val ws)" by (simp only: words_val_simps mult.assoc)
    then have "words_val (w # ws) div 2 ^ n = 2 ^ (64 - n) * words_val ws + unat w div 2 ^ n"
      by (simp only: div_mult_self2 [OF power_not_zero] zero_neq_numeral [symmetric] not_False_eq_True)
    then have "odd (words_val (w # ws) div 2 ^ n) \<longleftrightarrow> odd (unat w div 2 ^ n)" using True by simp
    then show ?thesis using True unfolding bit_iff_odd [of "words_val (w # ws)"] by (simp add: unat_bit_iff)
  next
    case False
    have "(2 :: nat) ^ n = 2 ^ 64 * 2 ^ (n - 64)" using False power_add [of "2 :: nat" 64 "n - 64"] by simp
    then have "words_val (w # ws) div 2 ^ n = words_val ws div 2 ^ (n - 64)"
      using unat_u64_less [of w] by (simp add: div_mult2_eq)
    then have "bit (words_val (w # ws)) n \<longleftrightarrow> bit (words_val ws) (n - 64)" by (simp add: bit_iff_odd)
    moreover have "n div 64 = Suc ((n - 64) div 64)" "n mod 64 = (n - 64) mod 64" using False by (simp_all add: div_if [of n] mod_if [of n])
    ultimately show ?thesis by (simp add: Cons.IH)
  qed
qed simp

lemma bn_mag_bit: "bn_wf a \<Longrightarrow> bit (bn_mag a) n \<longleftrightarrow> n div 64 < bn_width a \<and> bit (bn_d a ! (n div 64)) (n mod 64)"
  by (auto simp: bn_mag_def words_val_bit dest: bn_wfD)

lemma BN_is_bit_set_iff: "bn_wf a \<Longrightarrow> BN_is_bit_set a n \<longleftrightarrow> 0 \<le> n \<and> bit (bn_mag a) (nat n)"
proof -
  have "drop_bit j x AND 1 \<noteq> 0 \<longleftrightarrow> bit x j" for j and x :: BN_ULONG
    by (simp add: bit_iff_odd_drop_bit and_one_eq odd_iff_mod_2_eq_one)
  then show "bn_wf a \<Longrightarrow> ?thesis"
    unfolding BN_is_bit_set_def bn_is_bit_set_words_def Let_def by (auto simp: bn_mag_bit)
qed

lemma exp_bit: "j < 64 \<Longrightarrow> bit (2 ^ j :: BN_ULONG) k \<longleftrightarrow> k = j"
  by (auto simp: bit_exp_iff)

lemma word_index_less: "k < n \<longleftrightarrow> k div 64 < n div 64 \<or> k div 64 = n div 64 \<and> k mod 64 < n mod (64 :: nat)"
proof -
  have "k = 64 * (k div 64) + k mod 64" "n = 64 * (n div 64) + n mod 64" "k mod 64 < 64" "n mod 64 < 64" by simp_all
  then show ?thesis by (cases "k div 64 < n div 64"; cases "k div 64 = n div 64") linarith+
qed

lemma word_index_bit: "k div 64 = n div 64 \<and> k mod 64 = n mod 64 \<longleftrightarrow> k = (n :: nat)"
  by (metis div_mult_mod_eq)

text \<open>Changing one word changes the bits of its index.\<close>

lemma bn_mag_update:
  assumes "bn_wf a" "i < bn_width a"
  shows "bit (bn_mag (a\<lparr>bn_d := (bn_d a)[i := x]\<rparr>)) k \<longleftrightarrow> (if k div 64 = i then bit x (k mod 64) else bit (bn_mag a) k)"
  using assms by (subst (1 2) bn_mag_bit) (auto simp: bn_wf_def)

lemma BN_set_bit_ok:
  assumes "bn_wf a" "0 \<le> n" "bn_dest al (nat n div 64 + 1) a"
  shows "\<exists>a'. BN_set_bit al n a = (Some (), a') \<and> bn_wf a' \<and> bn_neg a' = bn_neg a \<and> bn_mag a' = set_bit (nat n) (bn_mag a)"
proof -
  let ?i = "nat n div 64" and ?j = "nat n mod 64"
  define grow where "grow = (\<lambda>a. if bn_width a \<le> ?i then pbind (bn_wexpand al (?i + 1)) (\<lambda>_ a.
      (Some (), a\<lparr>bn_d := buf_write (bn_d a) (bn_width a) (replicate (?i + 1 - bn_width a) 0), bn_width := ?i + 1\<rparr>)) a else (Some (), a))"
  have "\<exists>b. grow a = (Some (), b) \<and> bn_wf b \<and> bn_neg b = bn_neg a \<and> bn_mag b = bn_mag a \<and> ?i < bn_width b"
  proof (cases "bn_width a \<le> ?i")
    case True
    obtain c where c: "bn_wexpand al (?i + 1) a = (Some (), c)" "bn_wf c" "?i + 1 \<le> bn_dmax c" "bn_width c = bn_width a" "bn_neg c = bn_neg a"
      "take (bn_width a) (bn_d c) = take (bn_width a) (bn_d a)"
      using bn_wexpand_ok [OF assms(3)] by blast
    let ?d = "buf_write (bn_d c) (bn_width a) (replicate (?i + 1 - bn_width a) 0)"
    have "length ?d = length (bn_d c)" using True c(2,3) by (intro length_buf_write) (simp add: bn_wf_def)
    moreover have "take (?i + 1) ?d = take (bn_width a) (bn_d a) @ replicate (?i + 1 - bn_width a) 0"
      using take_buf_write_exact [of "bn_width a" "bn_d c" "replicate (?i + 1 - bn_width a) 0"] True c by (simp add: bn_wf_def)
    ultimately show ?thesis using True c by (simp add: grow_def pbind_def bn_wf_def bn_mag_def words_val_append)
  qed (use assms(1) in \<open>simp add: grow_def\<close>)
  then obtain b where b: "grow a = (Some (), b)" "bn_wf b" "bn_neg b = bn_neg a" "bn_mag b = bn_mag a" "?i < bn_width b" by blast
  let ?a = "b\<lparr>bn_d := (bn_d b)[?i := bn_d b ! ?i OR push_bit ?j 1]\<rparr>"
  have "BN_set_bit al n a = (Some (), ?a)"
    unfolding BN_set_bit_def Let_def grow_def [symmetric] using assms(2) b(1) by (simp add: pbind_def)
  moreover have "bn_mag ?a = set_bit (nat n) (bn_mag a)"
    unfolding b(4) [symmetric]
  proof (rule bit_eqI)
    fix k
    show "bit (bn_mag ?a) k = bit (set_bit (nat n) (bn_mag b)) k"
      unfolding bn_mag_update [OF b(2,5)] using b(2,5) word_index_bit [of k "nat n"]
      by (auto simp: bit_set_bit_iff bn_mag_bit bit_or_iff exp_bit)
  qed
  ultimately show ?thesis using b by (simp add: bn_wf_def)
qed

lemma BN_clear_bit_ok:
  assumes "bn_wf a" "0 \<le> n" "nat n div 64 < bn_width a"
  shows "\<exists>a'. BN_clear_bit n a = (Some (), a') \<and> bn_result a' (if bn_neg a then - int (unset_bit (nat n) (bn_mag a)) else int (unset_bit (nat n) (bn_mag a)))"
proof -
  let ?i = "nat n div 64" and ?j = "nat n mod 64"
  let ?a = "a\<lparr>bn_d := (bn_d a)[?i := bn_d a ! ?i AND NOT (push_bit ?j 1)]\<rparr>"
  have wf: "bn_wf ?a" using assms(1) by (simp add: bn_wf_def)
  have m: "bn_mag ?a = unset_bit (nat n) (bn_mag a)"
  proof (rule bit_eqI)
    fix k
    show "bit (bn_mag ?a) k = bit (unset_bit (nat n) (bn_mag a)) k"
      unfolding bn_mag_update [OF assms(1,3)] using assms(1,3) word_index_bit [of k "nat n"]
      by (auto simp: bit_unset_bit_iff bn_mag_bit bit_and_iff bit_not_iff exp_bit dest: bit_imp_le_length)
  qed
  have "BN_clear_bit n a = (Some (), bn_set_minimal_width ?a)" using assms(2,3) by (simp add: BN_clear_bit_def Let_def)
  with bn_set_minimal_width_ok [OF wf] m show ?thesis by (auto simp: bn_result_def bn_val_def)
qed

lemma BN_mask_bits_ok:
  assumes "bn_ok a" "0 \<le> n"
  shows "\<exists>a'. BN_mask_bits n a = (Some (), a') \<and> bn_ok a' \<and>
    bn_val a' = (if bn_neg a then - int (bn_mag a mod 2 ^ nat n) else int (bn_mag a mod 2 ^ nat n))"
proof -
  have wf: "bn_wf a" using assms(1) by (simp add: bn_ok_def)
  let ?w = "nat n div 64" and ?b = "nat n mod 64"
  show ?thesis
  proof (cases "?w \<ge> bn_width a")
    case True
    have "bn_mag a < 2 ^ (64 * bn_width a)" by (rule bn_mag_less [OF wf])
    also have "(2 :: nat) ^ (64 * bn_width a) \<le> 2 ^ nat n" using True by (intro power_increasing) linarith+
    finally show ?thesis using True assms by (auto simp: BN_mask_bits_def Let_def bn_val_def)
  next
    case False
    define c where "c = (if ?b = 0 then a\<lparr>bn_width := ?w\<rparr>
        else a\<lparr>bn_width := ?w + 1, bn_d := (bn_d a)[?w := bn_d a ! ?w AND NOT (push_bit ?b 0xffffffffffffffff)]\<rparr>)"
    have run: "BN_mask_bits n a = (Some (), bn_set_minimal_width c)" using False assms(2) by (simp add: BN_mask_bits_def Let_def c_def)
    have wfc: "bn_wf c" "bn_neg c = bn_neg a" using wf False by (auto simp: c_def bn_wf_def)
    have ones: "bit (push_bit ?b (0xffffffffffffffff :: BN_ULONG)) k \<longleftrightarrow> ?b \<le> k \<and> k < 64" for k
    proof -
      have "(0xffffffffffffffff :: BN_ULONG) = - 1" by simp
      then show ?thesis by (simp only: bit_push_bit_iff) (auto simp: bit_simps)
    qed
    have "bn_mag c = take_bit (nat n) (bn_mag a)"
    proof (rule bit_eqI)
      fix k
      show "bit (bn_mag c) k = bit (take_bit (nat n) (bn_mag a)) k"
        unfolding bit_take_bit_iff bn_mag_bit [OF wf] bn_mag_bit [OF wfc(1)] word_index_less [of k]
        using False wf by (auto simp: c_def bn_wf_def nth_list_update bit_and_iff bit_not_iff ones)
    qed
    with bn_set_minimal_width_ok [OF wfc(1)] run wfc(2) show ?thesis by (auto simp: bn_val_def take_bit_eq_mod)
  qed
qed

section \<open>The shift by a secret amount\<close>

lemma secret_shift_loop_val:
  assumes "i \<le> bit_length max_bits" "w \<le> length d"
  shows "length (secret_shift_loop max_bits n i w d) = length d \<and>
    words_val (take w (secret_shift_loop max_bits n i w d)) = words_val (take w d) div 2 ^ (unat n mod 2 ^ bit_length max_bits - unat n mod 2 ^ i)"
  using assms
proof (induction i arbitrary: d rule: inc_induct)
  case base
  have "max_bits div 2 ^ bit_length max_bits = 0" using bit_length_le [of max_bits "bit_length max_bits"] by simp
  then show ?case by (subst (1 2) secret_shift_loop.simps) simp
next
  case (step i)
  let ?K = "bit_length max_bits"
  have "\<not> max_bits < 2 ^ i" using bit_length_le [of max_bits i] step.hyps by simp
  then have nz: "max_bits div 2 ^ i \<noteq> 0" by (simp add: div_eq_0_iff)
  let ?b = "bit n i" and ?t = "bn_rshift_words d (2 ^ i) w"
  have m: "0 - (ucast (drop_bit i n AND 1) :: BN_ULONG) = (if ?b then - 1 else 0)"
    by (simp add: and_one_eq bit_iff_odd_drop_bit odd_iff_mod_2_eq_one)
  have t: "length ?t = w" "words_val ?t = words_val (take w d) div 2 ^ 2 ^ i"
    using bn_rshift_words_val [OF step.prems, of "2 ^ i"] by simp_all
  let ?s = "take w (if ?b then ?t else d)"
  have sel: "bn_select_words (if ?b then - 1 else 0) ?t d w = ?s" using t(1) step.prems by (simp add: bn_select_words_mask)
  let ?d = "buf_write d 0 ?s"
  have ls: "length ?s = w" using t(1) step.prems by simp
  have d: "length ?d = length d" "take w ?d = ?s"
    using take_buf_write_exact [of 0 d ?s] ls step.prems by (simp_all del: take_all)
  have run: "secret_shift_loop max_bits n i w d = secret_shift_loop max_bits n (Suc i) w ?d"
    using nz by (subst secret_shift_loop.simps) (simp add: Let_def m [simplified] sel [simplified])
  let ?e = "\<lambda>i. unat n mod 2 ^ i"
  have e: "?e (Suc i) = ?e i + (if ?b then 2 ^ i else 0)"
    using mod_mult2_eq [of "unat n" "2 ^ i" 2] by (simp add: unat_bit_iff mult.commute odd_iff_mod_2_eq_one)
  have "(2 :: nat) ^ Suc i dvd 2 ^ ?K" using step.hyps by (intro le_imp_power_dvd) simp
  then have le: "?e (Suc i) \<le> ?e ?K" by (metis mod_less_eq_dividend mod_mod_cancel)
  have "words_val (take w (secret_shift_loop max_bits n i w d)) = words_val ?s div 2 ^ (?e ?K - ?e (Suc i))"
    unfolding run using step.IH [of ?d] d step.prems by (simp del: take_all)
  also have "words_val ?s = words_val (take w d) div 2 ^ (?e (Suc i) - ?e i)"
    using t e by simp
  also have "\<dots> div 2 ^ (?e ?K - ?e (Suc i)) = words_val (take w d) div 2 ^ (?e ?K - ?e i)"
    using le e by (simp flip: div_mult2_eq power_add)
  finally show ?case unfolding run using step.IH [of ?d] d(1) step.prems by simp
qed

lemma bn_rshift_secret_shift_val:
  assumes "bn_wf a" "bn_dest al (bn_width a) r" "bn_dest al (bn_width a) tmp"
  shows "\<exists>r'. bn_rshift_secret_shift al a n (Some tmp) r = (Some (), r') \<and> bn_wf r' \<and> bn_neg r' = bn_neg a \<and>
    bn_mag r' = bn_mag a div 2 ^ (unat n mod 2 ^ bit_length (64 * bn_width a))"
proof -
  obtain r1 where r1: "bn_wexpand al (bn_width a) r = (Some (), r1)" "bn_wf r1" "bn_width a \<le> bn_dmax r1" using bn_wexpand_ok [OF assms(2)] by blast
  obtain t1 where t1: "bn_wexpand al (bn_width a) tmp = (Some (), t1)" using bn_wexpand_ok [OF assms(3)] by blast
  let ?ws = "take (bn_width a) (bn_d a)"
  let ?d = "buf_write (bn_d r1) 0 ?ws"
  have d: "length ?d = length (bn_d r1)" "take (bn_width a) ?d = ?ws" "bn_width a \<le> length ?d"
    using take_buf_write_exact [of 0 "bn_d r1" ?ws] assms(1) r1(2,3) by (simp_all add: bn_wf_def)
  have run: "bn_rshift_secret_shift al a n (Some tmp) r =
      (Some (), r1\<lparr>bn_d := secret_shift_loop (64 * bn_width a) n 0 (bn_width a) ?d, bn_width := bn_width a, bn_neg := bn_neg a\<rparr>)"
    by (simp add: bn_rshift_secret_shift_def BN_copy_def pbind_def r1(1) t1)
  with secret_shift_loop_val [OF le0 d(3), of "64 * bn_width a" n] d r1 show ?thesis
    by (simp add: bn_wf_def bn_mag_def)
qed

section \<open>Properties\<close>

text \<open>
  C23. Shifts are multiplication and division by powers of two. For a well-formed number, a shift
  distance \<open>n \<ge> 0\<close> and destinations that can be grown, \<^verbatim>\<open>BN_lshift\<close> multiplies by \<open>2 ^ n\<close>, \<^verbatim>\<open>BN_rshift\<close> divides the
  magnitude, rounding towards zero, \<^verbatim>\<open>BN_mask_bits\<close> keeps the low \<open>n\<close> bits, \<^verbatim>\<open>BN_set_bit\<close> sets bit \<open>n\<close> and
  \<^verbatim>\<open>BN_is_bit_set\<close> reads it. For a distance \<open>k\<close> below the least power of two above the operand's size in bits,
  the constant-time \<^verbatim>\<open>bn_rshift_secret_shift\<close> divides the magnitude as \<^verbatim>\<open>BN_rshift\<close> does.
\<close>

theorem bn_shift_exact:
  assumes "bn_ok a" "0 \<le> n" "bn_dest al (bn_width a + nat n div 64 + 1) r" "bn_dest al (nat n div 64 + 1) a" "bn_dest al (bn_width a) tmp"
    and "unat k < 2 ^ bit_length (64 * bn_width a)"
  shows "(\<exists>r'. BN_lshift al a n r = (Some (), r') \<and> bn_ok r' \<and> bn_minimal r' \<and> bn_val r' = bn_val a * 2 ^ nat n) \<and>
         (\<exists>r'. BN_rshift al a n r = (Some (), r') \<and> bn_ok r' \<and> bn_minimal r' \<and> bn_val r' = sgn (bn_val a) * (\<bar>bn_val a\<bar> div 2 ^ nat n)) \<and>
         (\<exists>a'. BN_mask_bits n a = (Some (), a') \<and> bn_ok a' \<and> bn_val a' = sgn (bn_val a) * (\<bar>bn_val a\<bar> mod 2 ^ nat n)) \<and>
         (\<exists>a'. BN_set_bit al n a = (Some (), a') \<and> bn_wf a' \<and> bn_mag a' = set_bit (nat n) (bn_mag a)) \<and>
         (BN_is_bit_set a n \<longleftrightarrow> odd (bn_mag a div 2 ^ nat n)) \<and>
         (\<exists>r'. bn_rshift_secret_shift al a k (Some tmp) r = (Some (), r') \<and> bn_wf r' \<and> bn_val r' = sgn (bn_val a) * (\<bar>bn_val a\<bar> div 2 ^ unat k))"
proof -
  have wf: "bn_wf a" using assms(1) by (simp add: bn_ok_def)
  have d: "bn_dest al (bn_width a) r" by (rule bn_dest_mono [OF assms(3)]) simp
  have v: "\<bar>bn_val a\<bar> = int (bn_mag a)" "sgn (bn_val a) = (if bn_mag a = 0 then 0 else if bn_neg a then - 1 else 1)"
    by (auto simp: bn_val_def)
  have sg: "sgn (bn_val a) * int x = (if bn_neg a then - int x else int x)" if "bn_mag a = 0 \<longrightarrow> x = 0" for x
    using that by (auto simp: v)
  have "sgn (bn_val a) * (\<bar>bn_val a\<bar> div 2 ^ nat n) = (if bn_neg a then - int (bn_mag a div 2 ^ nat n) else int (bn_mag a div 2 ^ nat n))"
    using sg [of "bn_mag a div 2 ^ nat n"] by (simp add: v(1) zdiv_int)
  moreover have "sgn (bn_val a) * (\<bar>bn_val a\<bar> mod 2 ^ nat n) = (if bn_neg a then - int (bn_mag a mod 2 ^ nat n) else int (bn_mag a mod 2 ^ nat n))"
    using sg [of "bn_mag a mod 2 ^ nat n"] by (simp add: v(1) zmod_int)
  ultimately have "\<exists>r'. BN_rshift al a n r = (Some (), r') \<and> bn_ok r' \<and> bn_minimal r' \<and> bn_val r' = sgn (bn_val a) * (\<bar>bn_val a\<bar> div 2 ^ nat n)"
    "\<exists>a'. BN_mask_bits n a = (Some (), a') \<and> bn_ok a' \<and> bn_val a' = sgn (bn_val a) * (\<bar>bn_val a\<bar> mod 2 ^ nat n)"
    using BN_rshift_ok [OF wf assms(2) d] BN_mask_bits_ok [OF assms(1,2)] unfolding bn_result_def by (simp_all only:) blast+
  moreover have "BN_is_bit_set a n \<longleftrightarrow> odd (bn_mag a div 2 ^ nat n)"
    using BN_is_bit_set_iff [OF wf, of n] assms(2) by (simp only: bit_iff_odd simp_thms)
  moreover have "\<exists>r'. bn_rshift_secret_shift al a k (Some tmp) r = (Some (), r') \<and> bn_wf r' \<and> bn_val r' = sgn (bn_val a) * (\<bar>bn_val a\<bar> div 2 ^ unat k)"
  proof -
    have "sgn (bn_val a) * (\<bar>bn_val a\<bar> div 2 ^ unat k) = (if bn_neg a then - int (bn_mag a div 2 ^ unat k) else int (bn_mag a div 2 ^ unat k))"
      using sg [of "bn_mag a div 2 ^ unat k"] by (simp add: v(1) zdiv_int)
    then show ?thesis
      using bn_rshift_secret_shift_val [OF wf d assms(5), of k, unfolded mod_less [OF assms(6)]] bn_val_def by metis
  qed
  ultimately show ?thesis
    using BN_lshift_ok [OF assms(1-3)] BN_set_bit_ok [OF wf assms(2,4)]
    unfolding bn_result_def by blast
qed

theorem bn_shift_exact_witness:
  "(\<exists>r. BN_lshift (\<lambda>_. Some (\<lambda>_. 0)) \<lparr>bn_d = [3], bn_width = 1, bn_dmax = 1, bn_neg = True, bn_flags = 0\<rparr> 100 BN_init = (Some (), r) \<and>
     bn_ok r \<and> bn_minimal r \<and> bn_val r = - 3 * 2 ^ 100) \<and>
   (\<exists>r. bn_rshift_secret_shift (\<lambda>_. Some (\<lambda>_. 0)) \<lparr>bn_d = [3], bn_width = 1, bn_dmax = 1, bn_neg = True, bn_flags = 0\<rparr> 1 (Some BN_init) BN_init =
     (Some (), r) \<and> bn_val r = - 1)"
proof -
  let ?a = "\<lparr>bn_d = [3], bn_width = 1, bn_dmax = 1, bn_neg = True, bn_flags = 0\<rparr>"
  have ok: "bn_ok ?a" by (simp add: bn_ok_def bn_wf_def bn_mag_def BN_MAX_WORDS_def)
  have d: "bn_dest (\<lambda>_. Some (\<lambda>_. 0)) (bn_width ?a + nat 100 div 64 + 1) BN_init"
    "bn_dest (\<lambda>_. Some (\<lambda>_. 0)) (nat 100 div 64 + 1) ?a" "bn_dest (\<lambda>_. Some (\<lambda>_. 0)) (bn_width ?a) BN_init"
    by (simp_all add: bn_dest_def bn_wf_def BN_MAX_WORDS_def BN_init_def)
  have "bn_val ?a = - 3" by (simp add: bn_val_def bn_mag_def)
  moreover have "unat (1 :: u32) < 2 ^ bit_length (64 * bn_width ?a)" using bit_length_le [of 64 "bit_length 64"] by simp
  note bn_shift_exact [OF ok _ d this]
  ultimately show ?thesis by auto
qed

end
