(* ===== verification/BnComba.thy ===== *)
theory BnComba
  imports BnWords
begin

text \<open>
  Products of four and of eight words column by column, the \<^verbatim>\<open>comba\<close> routines and the squares of
  \<^verbatim>\<open>crypto/fipsmodule/bn/generic.c\<close>. A column is accumulated in three words; storing the lowest one moves
  the other two down, which the code does by renaming \<open>c1\<close>, \<open>c2\<close> and \<open>c3\<close>.
\<close>

section \<open>The code\<close>

type_synonym acc3 = "BN_ULONG \<times> BN_ULONG \<times> BN_ULONG"

text \<open>The common end of the macros: a double word is added to the accumulator.\<close>

definition add_c :: "128 word \<Rightarrow> acc3 \<Rightarrow> acc3" where
  "add_c t = (\<lambda>(c0, c1, c2).
     let t = t + ucast c0; c0 = ucast t; hi = ucast (drop_bit 64 t); c1 = c1 + hi
     in (c0, c1, c2 + (if c1 < hi then 1 else 0)))"

definition mul_add_c :: "BN_ULONG \<Rightarrow> BN_ULONG \<Rightarrow> acc3 \<Rightarrow> acc3" where
  "mul_add_c a b = add_c (ucast a * ucast b)"

definition mul_add_c2 :: "BN_ULONG \<Rightarrow> BN_ULONG \<Rightarrow> acc3 \<Rightarrow> acc3" where
  "mul_add_c2 a b c = (let t = ucast a * ucast b in add_c t (add_c t c))"

datatype sqr_term = Sqr nat | Sqr2 nat nat

definition mul_columns8 :: "(nat \<times> nat) list list" where
  "mul_columns8 =
     [[(0, 0)],
      [(0, 1), (1, 0)],
      [(2, 0), (1, 1), (0, 2)],
      [(0, 3), (1, 2), (2, 1), (3, 0)],
      [(4, 0), (3, 1), (2, 2), (1, 3), (0, 4)],
      [(0, 5), (1, 4), (2, 3), (3, 2), (4, 1), (5, 0)],
      [(6, 0), (5, 1), (4, 2), (3, 3), (2, 4), (1, 5), (0, 6)],
      [(0, 7), (1, 6), (2, 5), (3, 4), (4, 3), (5, 2), (6, 1), (7, 0)],
      [(7, 1), (6, 2), (5, 3), (4, 4), (3, 5), (2, 6), (1, 7)],
      [(2, 7), (3, 6), (4, 5), (5, 4), (6, 3), (7, 2)],
      [(7, 3), (6, 4), (5, 5), (4, 6), (3, 7)],
      [(4, 7), (5, 6), (6, 5), (7, 4)],
      [(7, 5), (6, 6), (5, 7)],
      [(6, 7), (7, 6)],
      [(7, 7)]]"

definition sqr_add :: "BN_ULONG list \<Rightarrow> sqr_term \<Rightarrow> acc3 \<Rightarrow> acc3" where
  "sqr_add a s = (case s of Sqr i \<Rightarrow> mul_add_c (a ! i) (a ! i) | Sqr2 i j \<Rightarrow> mul_add_c2 (a ! i) (a ! j))"

fun comba :: "('p \<Rightarrow> acc3 \<Rightarrow> acc3) \<Rightarrow> 'p list list \<Rightarrow> acc3 \<Rightarrow> BN_ULONG list" where
  "comba add [] (c0, c1, c2) = [c0]"
| "comba add (col # cols) c = (let (c0, c1, c2) = fold add col c in c0 # comba add cols (c1, c2, 0))"

definition mul_columns4 :: "(nat \<times> nat) list list" where
  "mul_columns4 =
     [[(0, 0)],
      [(0, 1), (1, 0)],
      [(2, 0), (1, 1), (0, 2)],
      [(0, 3), (1, 2), (2, 1), (3, 0)],
      [(3, 1), (2, 2), (1, 3)],
      [(2, 3), (3, 2)],
      [(3, 3)]]"

definition bn_mul_comba8 :: "BN_ULONG list \<Rightarrow> BN_ULONG list \<Rightarrow> BN_ULONG list" where
  "bn_mul_comba8 a b = comba (\<lambda>(i, j). mul_add_c (a ! i) (b ! j)) mul_columns8 (0, 0, 0)"

definition sqr_columns8 :: "sqr_term list list" where
  "sqr_columns8 =
     [[Sqr 0],
      [Sqr2 1 0],
      [Sqr 1, Sqr2 2 0],
      [Sqr2 3 0, Sqr2 2 1],
      [Sqr 2, Sqr2 3 1, Sqr2 4 0],
      [Sqr2 5 0, Sqr2 4 1, Sqr2 3 2],
      [Sqr 3, Sqr2 4 2, Sqr2 5 1, Sqr2 6 0],
      [Sqr2 7 0, Sqr2 6 1, Sqr2 5 2, Sqr2 4 3],
      [Sqr 4, Sqr2 5 3, Sqr2 6 2, Sqr2 7 1],
      [Sqr2 7 2, Sqr2 6 3, Sqr2 5 4],
      [Sqr 5, Sqr2 6 4, Sqr2 7 3],
      [Sqr2 7 4, Sqr2 6 5],
      [Sqr 6, Sqr2 7 5],
      [Sqr2 7 6],
      [Sqr 7]]"

definition bn_mul_comba4 :: "BN_ULONG list \<Rightarrow> BN_ULONG list \<Rightarrow> BN_ULONG list" where
  "bn_mul_comba4 a b = comba (\<lambda>(i, j). mul_add_c (a ! i) (b ! j)) mul_columns4 (0, 0, 0)"

definition sqr_columns4 :: "sqr_term list list" where
  "sqr_columns4 =
     [[Sqr 0],
      [Sqr2 1 0],
      [Sqr 1, Sqr2 2 0],
      [Sqr2 3 0, Sqr2 2 1],
      [Sqr 2, Sqr2 3 1],
      [Sqr2 3 2],
      [Sqr 3]]"

definition bn_sqr_comba8 :: "BN_ULONG list \<Rightarrow> BN_ULONG list" where
  "bn_sqr_comba8 a = comba (sqr_add a) sqr_columns8 (0, 0, 0)"

definition bn_sqr_comba4 :: "BN_ULONG list \<Rightarrow> BN_ULONG list" where
  "bn_sqr_comba4 a = comba (sqr_add a) sqr_columns4 (0, 0, 0)"

text \<open>The squares of the words, each a double word; the code handles four words per iteration.\<close>

definition sqr_w :: "BN_ULONG \<Rightarrow> BN_ULONG list" where
  "sqr_w a = (let t = (ucast a * ucast a :: 128 word) in [ucast t, ucast (drop_bit 64 t)])"

fun bn_sqr_words :: "BN_ULONG list \<Rightarrow> nat \<Rightarrow> BN_ULONG list" where
  "bn_sqr_words a n =
     (if n \<ge> 4 then sqr_w (a ! 0) @ sqr_w (a ! 1) @ sqr_w (a ! 2) @ sqr_w (a ! 3) @ bn_sqr_words (drop 4 a) (n - 4)
      else concat (map (\<lambda>i. sqr_w (a ! i)) [0..<n]))"

declare bn_sqr_words.simps [simp del]

section \<open>The accumulator\<close>

definition acc_val :: "acc3 \<Rightarrow> nat" where
  "acc_val = (\<lambda>(c0, c1, c2). unat c0 + 2 ^ 64 * unat c1 + 2 ^ 128 * unat c2)"

lemma word_sum_carry:
  fixes x y :: BN_ULONG
  shows "unat (x + y) + 2 ^ 64 * (if x + y < y then 1 else 0) = unat x + unat y"
proof -
  have "unat (x + y) = (if unat x + unat y < 2 ^ 64 then unat x + unat y else unat x + unat y - 2 ^ 64)"
    by (simp add: unat_plus_if_size word_size)
  then show ?thesis using unat_u64_less [of x] unat_u64_less [of y] by (auto simp: word_less_nat_alt)
qed

lemma add_c_val:
  assumes "unat t + acc_val c < 2 ^ 192" "unat t \<le> (2 ^ 64 - 1) * (2 ^ 64 - 1)"
  shows "acc_val (add_c t c) = unat t + acc_val c"
proof -
  obtain c0 c1 c2 where c: "c = (c0, c1, c2)" by (cases c)
  let ?t = "t + ucast c0" let ?lo = "ucast ?t :: BN_ULONG" and ?hi = "ucast (drop_bit 64 ?t) :: BN_ULONG"
  let ?k = "if c1 + ?hi < ?hi then 1 else 0 :: nat"
  have "unat ?t = unat t + unat c0"
    using assms(2) unat_u64_less [of c0] by (intro unat_sum_128) (simp_all add: unat_ucast_128)
  with double_word [of ?t] have t: "unat ?lo + 2 ^ 64 * unat ?hi = unat t + unat c0" by simp
  have s: "unat (c1 + ?hi) + 2 ^ 64 * ?k = unat c1 + unat ?hi" by (rule word_sum_carry)
  have tot: "unat ?lo + 2 ^ 64 * unat (c1 + ?hi) + 2 ^ 128 * (unat c2 + ?k) = unat t + acc_val c"
    using t s unfolding c acc_val_def prod.case by (simp split del: if_split)
  then have "2 ^ 128 * (unat c2 + ?k) < 2 ^ 192" using assms(1) by linarith
  then have "unat c2 + ?k < 2 ^ 64" by simp
  then have "unat (c2 + (if c1 + ?hi < ?hi then 1 else 0)) = unat c2 + ?k"
    using unat_add_lem [of c2 "if c1 + ?hi < ?hi then 1 else 0"] by (auto split: if_splits)
  then show ?thesis using tot unfolding c by (simp add: acc_val_def add_c_def Let_def)
qed

lemma mul_bound: "unat (a :: BN_ULONG) * unat (b :: BN_ULONG) \<le> (2 ^ 64 - 1) * (2 ^ 64 - 1)"
  using unat_u64_less [of a] unat_u64_less [of b] by (intro mult_le_mono) simp_all

lemma unat_mul_128: "unat (ucast (a :: BN_ULONG) * ucast (b :: BN_ULONG) :: 128 word) = unat a * unat b"
  using mul_bound [of a b] by (subst unat_mult_lem [THEN iffD1]) (simp_all add: unat_ucast_128)

text \<open>
  A step is good for a weight \<open>k\<close> and a term \<open>v\<close> if it adds \<open>v\<close>, the sum of \<open>k\<close> products of words,
  whenever the sum fits.
\<close>

definition adds :: "(acc3 \<Rightarrow> acc3) \<Rightarrow> nat \<Rightarrow> bool" where
  "adds f v \<longleftrightarrow> (\<forall>c. v + acc_val c < 2 ^ 192 \<longrightarrow> acc_val (f c) = v + acc_val c)"

lemma addsD: "adds f v \<Longrightarrow> v + acc_val c < 2 ^ 192 \<Longrightarrow> acc_val (f c) = v + acc_val c"
  unfolding adds_def by blast

lemma adds_mul_add_c: "adds (mul_add_c a b) (unat a * unat b)"
  using mul_bound [of a b] by (auto simp: adds_def mul_add_c_def add_c_val unat_mul_128)

lemma adds_mul_add_c2: "adds (mul_add_c2 a b) (2 * (unat a * unat b))"
  unfolding adds_def
proof (intro allI impI)
  fix c assume b: "2 * (unat a * unat b) + acc_val c < 2 ^ 192"
  note m = addsD [OF adds_mul_add_c [of a b]]
  have "acc_val (mul_add_c a b c) = unat a * unat b + acc_val c" using b by (intro m) linarith
  moreover from this have "acc_val (mul_add_c a b (mul_add_c a b c)) = unat a * unat b + acc_val (mul_add_c a b c)"
    using b by (intro m) linarith
  ultimately show "acc_val (mul_add_c2 a b c) = 2 * (unat a * unat b) + acc_val c"
    by (simp add: mul_add_c2_def mul_add_c_def Let_def)
qed

lemma adds_fold:
  assumes "\<And>p. p \<in> set ps \<Longrightarrow> adds (f p) (g p)"
  shows "adds (fold f ps) (sum_list (map g ps))"
  using assms
proof (induction ps)
  case (Cons p ps)
  then have IH: "adds (fold f ps) (sum_list (map g ps))" and p: "adds (f p) (g p)" by simp_all
  show ?case unfolding adds_def
  proof (intro allI impI)
    fix c assume b: "sum_list (map g (p # ps)) + acc_val c < 2 ^ 192"
    then have "acc_val (f p c) = g p + acc_val c" by (intro addsD [OF p]) simp
    moreover from this b have "acc_val (fold f ps (f p c)) = sum_list (map g ps) + acc_val (f p c)" by (intro addsD [OF IH]) simp
    ultimately show "acc_val (fold f (p # ps) c) = sum_list (map g (p # ps)) + acc_val c" by simp
  qed
qed (simp add: adds_def)

text \<open>The number that the columns add up to.\<close>

definition columns_val :: "('p \<Rightarrow> nat) \<Rightarrow> 'p list list \<Rightarrow> nat" where
  "columns_val g cols = foldr (\<lambda>col v. sum_list (map g col) + 2 ^ 64 * v) cols 0"

lemma columns_val_simps [simp]:
  "columns_val g [] = 0" "columns_val g (col # cols) = sum_list (map g col) + 2 ^ 64 * columns_val g cols"
  by (simp_all add: columns_val_def)

lemma mod_low_part:
  fixes x k y m :: nat
  assumes "x < k"
  shows "(x + k * y) mod (k * m) = x + k * (y mod m)"
  using assms by (simp add: mod_mult2_eq)

lemma comba_val:
  assumes "\<And>p. adds (f p) (g p)" "\<And>col. col \<in> set cols \<Longrightarrow> sum_list (map g col) < 2 ^ 190" "acc_val c < 2 ^ 190"
  shows "length (comba f cols c) = Suc (length cols) \<and>
    words_val (comba f cols c) = (acc_val c + columns_val g cols) mod 2 ^ (64 * Suc (length cols))"
  using assms(2,3)
proof (induction cols arbitrary: c)
  case Nil
  obtain c0 c1 c2 where c: "c = (c0, c1, c2)" by (cases c)
  have "acc_val c = unat c0 + 2 ^ 64 * (unat c1 + 2 ^ 64 * unat c2)" unfolding c by (simp add: acc_val_def)
  then have "acc_val c mod 2 ^ 64 = unat c0" using unat_u64_less [of c0] by (simp only: mod_mult_self2) simp
  then show ?case unfolding c by simp
next
  case (Cons col cols)
  obtain c0 c1 c2 where c: "fold f col c = (c0, c1, c2)" by (cases "fold f col c")
  have "sum_list (map g col) + acc_val c < 2 ^ 191" using Cons.prems(1) [of col] Cons.prems(2) by simp
  moreover from this have "acc_val (fold f col c) = sum_list (map g col) + acc_val c"
    using assms(1) by (intro addsD [OF adds_fold]) simp_all
  ultimately have v: "unat c0 + 2 ^ 64 * acc_val (c1, c2, 0) = sum_list (map g col) + acc_val c"
    and lt: "unat c0 + 2 ^ 64 * acc_val (c1, c2, 0) < 2 ^ 191"
    unfolding c by (simp_all add: acc_val_def)
  have "2 ^ 64 * acc_val (c1, c2, 0) < 2 ^ 191" using lt by linarith
  then have "acc_val (c1, c2, 0) < 2 ^ 190" by simp
  from Cons.IH [OF _ this] Cons.prems(1)
  have IH: "length (comba f cols (c1, c2, 0)) = Suc (length cols)"
    "words_val (comba f cols (c1, c2, 0)) = (acc_val (c1, c2, 0) + columns_val g cols) mod 2 ^ (64 * Suc (length cols))"
    by simp_all
  let ?m = "2 ^ (64 * Suc (length cols)) :: nat" and ?y = "acc_val (c1, c2, 0) + columns_val g cols"
  have "acc_val c + columns_val g (col # cols) = unat c0 + 2 ^ 64 * ?y"
    using v by (simp add: algebra_simps)
  moreover have "(unat c0 + 2 ^ 64 * ?y) mod (2 ^ 64 * ?m) = unat c0 + 2 ^ 64 * (?y mod ?m)"
    using unat_u64_less [of c0] by (intro mod_low_part) simp
  moreover have "(2 :: nat) ^ (64 * Suc (length (col # cols))) = 2 ^ 64 * ?m" by (simp add: power_add)
  moreover have "words_val (comba f (col # cols) c) = unat c0 + 2 ^ 64 * (?y mod ?m)" unfolding comba.simps c Let_def prod.case words_val_simps IH(2) ..
  moreover have "length (comba f (col # cols) c) = Suc (length (col # cols))" using IH(1) c by simp
  ultimately show ?case by (simp only:)
qed

section \<open>The products\<close>

lemma words_list8: "length a = 8 \<Longrightarrow> \<exists>a0 a1 a2 a3 a4 a5 a6 a7. a = [a0, a1, a2, a3, a4, a5, a6, a7]"
  by (auto simp: numeral_eq_Suc length_Suc_conv)

lemma words_list4: "length a = 4 \<Longrightarrow> \<exists>a0 a1 a2 a3. a = [a0, a1, a2, a3]"
  by (auto simp: numeral_eq_Suc length_Suc_conv)

text \<open>When every column has few terms and the whole sum fits, nothing is lost.\<close>

lemma comba_exact:
  assumes "\<And>p. adds (f p) (g p)" "\<And>p. g p \<le> 2 * ((2 ^ 64 - 1) * (2 ^ 64 - 1))" "list_all (\<lambda>col. length col \<le> 16) cols"
    "columns_val g cols < 2 ^ (64 * Suc (length cols))"
  shows "length (comba f cols (0, 0, 0)) = Suc (length cols) \<and> words_val (comba f cols (0, 0, 0)) = columns_val g cols"
proof -
  have "sum_list (map g col) \<le> length col * (2 * ((2 ^ 64 - 1) * (2 ^ 64 - 1)))" for col
  proof (induction col)
    case (Cons p col)
    then show ?case using assms(2) [of p] by simp
  qed simp
  moreover have "n * (2 * ((2 ^ 64 - 1) * (2 ^ 64 - 1))) < 2 ^ 190" if "n \<le> 16" for n :: nat using that by simp
  ultimately have "sum_list (map g col) < 2 ^ 190" if "col \<in> set cols" for col
    using that assms(3) by (meson list_all_iff le_less_trans)
  from comba_val [OF assms(1) this, of cols "(0, 0, 0)"] assms(4) show ?thesis by (simp add: acc_val_def)
qed

lemma mul_term: "adds (case p of (i, j) \<Rightarrow> mul_add_c (a ! i) (b ! j)) (case p of (i, j) \<Rightarrow> unat (a ! i) * unat (b ! j))"
  "(case p of (i, j) \<Rightarrow> unat ((a :: BN_ULONG list) ! i) * unat ((b :: BN_ULONG list) ! j)) \<le> 2 * ((2 ^ 64 - 1) * (2 ^ 64 - 1))"
proof -
  show "adds (case p of (i, j) \<Rightarrow> mul_add_c (a ! i) (b ! j)) (case p of (i, j) \<Rightarrow> unat (a ! i) * unat (b ! j))"
    by (cases p) (simp add: adds_mul_add_c)
  show "(case p of (i, j) \<Rightarrow> unat (a ! i) * unat (b ! j)) \<le> 2 * ((2 ^ 64 - 1) * (2 ^ 64 - 1))"
    using mul_bound [of "a ! fst p" "b ! snd p"] by (cases p) simp
qed

definition sqr_val :: "BN_ULONG list \<Rightarrow> sqr_term \<Rightarrow> nat" where
  "sqr_val a s = (case s of Sqr i \<Rightarrow> unat (a ! i) * unat (a ! i) | Sqr2 i j \<Rightarrow> 2 * (unat (a ! i) * unat (a ! j)))"

lemma sqr_term_ok: "adds (sqr_add a p) (sqr_val a p)" "sqr_val a p \<le> 2 * ((2 ^ 64 - 1) * (2 ^ 64 - 1))"
proof -
  show "adds (sqr_add a p) (sqr_val a p)"
    by (cases p) (simp_all add: sqr_add_def sqr_val_def adds_mul_add_c adds_mul_add_c2)
  show "sqr_val a p \<le> 2 * ((2 ^ 64 - 1) * (2 ^ 64 - 1))"
  proof (cases p)
    case (Sqr i)
    then show ?thesis using mul_bound [of "a ! i" "a ! i"] by (simp add: sqr_val_def)
  next
    case (Sqr2 i j)
    then show ?thesis using mul_bound [of "a ! i" "a ! j"] by (simp add: sqr_val_def)
  qed
qed

lemma words_val_mult_less: "length a = n \<Longrightarrow> length b = n \<Longrightarrow> words_val a * words_val b < 2 ^ (64 * n) * 2 ^ (64 * n)"
  using mult_strict_mono' [OF words_val_less [of a] words_val_less [of b]] by simp

lemma bn_mul_comba4_val:
  assumes "length a = 4" "length b = 4"
  shows "length (bn_mul_comba4 a b) = 8 \<and> words_val (bn_mul_comba4 a b) = words_val a * words_val b"
proof -
  have e: "columns_val (\<lambda>(i, j). unat (a ! i) * unat (b ! j)) mul_columns4 = words_val a * words_val b"
    using words_list4 [OF assms(1)] words_list4 [OF assms(2)] by (auto simp: mul_columns4_def algebra_simps)
  from comba_exact [where f = "\<lambda>(i, j). mul_add_c (a ! i) (b ! j)" and g = "\<lambda>(i, j). unat (a ! i) * unat (b ! j)" and cols = mul_columns4,
      OF mul_term(1) mul_term(2), unfolded e] words_val_mult_less [OF assms]
  show ?thesis unfolding bn_mul_comba4_def by (simp add: mul_columns4_def)
qed

lemma bn_mul_comba8_val:
  assumes "length a = 8" "length b = 8"
  shows "length (bn_mul_comba8 a b) = 16 \<and> words_val (bn_mul_comba8 a b) = words_val a * words_val b"
proof -
  have e: "columns_val (\<lambda>(i, j). unat (a ! i) * unat (b ! j)) mul_columns8 = words_val a * words_val b"
    using words_list8 [OF assms(1)] words_list8 [OF assms(2)] by (auto simp: mul_columns8_def algebra_simps)
  from comba_exact [where f = "\<lambda>(i, j). mul_add_c (a ! i) (b ! j)" and g = "\<lambda>(i, j). unat (a ! i) * unat (b ! j)" and cols = mul_columns8,
      OF mul_term(1) mul_term(2), unfolded e] words_val_mult_less [OF assms]
  show ?thesis unfolding bn_mul_comba8_def by (simp add: mul_columns8_def)
qed

lemma bn_sqr_comba4_val:
  assumes "length a = 4"
  shows "length (bn_sqr_comba4 a) = 8 \<and> words_val (bn_sqr_comba4 a) = words_val a * words_val a"
proof -
  have e: "columns_val (sqr_val a) sqr_columns4 = words_val a * words_val a"
    using words_list4 [OF assms] by (auto simp: sqr_columns4_def sqr_val_def algebra_simps)
  from comba_exact [where f = "sqr_add a" and g = "sqr_val a" and cols = sqr_columns4, OF sqr_term_ok, unfolded e] words_val_mult_less [OF assms assms]
  show ?thesis unfolding bn_sqr_comba4_def by (simp add: sqr_columns4_def)
qed

lemma bn_sqr_comba8_val:
  assumes "length a = 8"
  shows "length (bn_sqr_comba8 a) = 16 \<and> words_val (bn_sqr_comba8 a) = words_val a * words_val a"
proof -
  have e: "columns_val (sqr_val a) sqr_columns8 = words_val a * words_val a"
    using words_list8 [OF assms] by (auto simp: sqr_columns8_def sqr_val_def algebra_simps)
  from comba_exact [where f = "sqr_add a" and g = "sqr_val a" and cols = sqr_columns8, OF sqr_term_ok, unfolded e] words_val_mult_less [OF assms assms]
  show ?thesis unfolding bn_sqr_comba8_def by (simp add: sqr_columns8_def)
qed

end
