(* ===== verification/BnMul.thy ===== *)
theory BnMul
  imports BnComba BnProps
begin

text \<open>
  Multiplication, \<^verbatim>\<open>crypto/fipsmodule/bn/mul.c\<close>. A routine returns the words it stores in its destination \<open>r\<close>.
  The scratch space \<open>t\<close> of the recursive routines is split into sections that the calls write one at
  a time; a section is named by the value it holds. A pointer into an array is the list from there on.
  The assertions are the hypotheses of the lemmas.
\<close>

abbreviation (input) BN_MUL_RECURSIVE_SIZE_NORMAL :: nat where "BN_MUL_RECURSIVE_SIZE_NORMAL \<equiv> 16"
abbreviation (input) BN_SQR_RECURSIVE_SIZE_NORMAL :: nat where "BN_SQR_RECURSIVE_SIZE_NORMAL \<equiv> 16"
abbreviation (input) BN_SMALL_MAX_WORDS :: nat where "BN_SMALL_MAX_WORDS \<equiv> 9"

section \<open>Products of word arrays\<close>

definition bn_abs_sub_words :: "BN_ULONG list \<Rightarrow> BN_ULONG list \<Rightarrow> nat \<Rightarrow> BN_ULONG list" where
  "bn_abs_sub_words a b num =
     (let (tmp, borrow) = bn_sub_words a b num; (r, _) = bn_sub_words b a num
      in bn_select_words (0 - borrow) r tmp num)"

text \<open>One row after the other is added to the words from its own index on; the code unrolls four rows.\<close>

definition mul_row :: "BN_ULONG list \<Rightarrow> nat \<Rightarrow> BN_ULONG list \<Rightarrow> nat \<Rightarrow> BN_ULONG list \<Rightarrow> BN_ULONG list" where
  "mul_row a na b j r = (let (ws, c) = bn_mul_add_words (drop j r) a na (b ! j) in take j r @ ws @ [c])"

definition bn_mul_normal :: "BN_ULONG list \<Rightarrow> nat \<Rightarrow> BN_ULONG list \<Rightarrow> nat \<Rightarrow> BN_ULONG list" where
  "bn_mul_normal a na b nb =
     (let (a, na, b, nb) = (if na < nb then (b, nb, a, na) else (a, na, b, nb))
      in if nb = 0 then replicate na 0
         else let (ws, c) = bn_mul_words a na (b ! 0) in fold (mul_row a na b) [1..<nb] (ws @ [c]))"

definition bn_sub_part_words :: "BN_ULONG list \<Rightarrow> BN_ULONG list \<Rightarrow> nat \<Rightarrow> int \<Rightarrow> BN_ULONG list \<times> BN_ULONG" where
  "bn_sub_part_words a b cl dl =
     (let (lo, borrow) = bn_sub_words a b cl
      in if dl = 0 then (lo, borrow)
         else let (hi, borrow) = (if dl < 0 then words_tail (\<lambda>i. CRYPTO_subc_w 0 (b ! i)) cl (nat (- dl)) borrow
                                  else words_tail (\<lambda>i. CRYPTO_subc_w (a ! i) 0) cl (nat dl) borrow)
              in (lo @ hi, borrow))"

definition bn_abs_sub_part_words :: "BN_ULONG list \<Rightarrow> BN_ULONG list \<Rightarrow> nat \<Rightarrow> int \<Rightarrow> BN_ULONG list \<times> BN_ULONG" where
  "bn_abs_sub_part_words a b cl dl =
     (let (tmp, borrow) = bn_sub_part_words a b cl dl; (r, _) = bn_sub_part_words b a cl (- dl);
          r_len = cl + nat \<bar>dl\<bar>; borrow = 0 - borrow
      in (bn_select_words borrow r tmp r_len, borrow))"

text \<open>
  The end of a Karatsuba step, the same in \<open>bn_mul_recursive\<close> and \<open>bn_mul_part_recursive\<close>: \<open>r\<close> holds
  the products of the low and of the high halves, \<open>p\<close> the product of the differences and \<open>neg\<close> the mask
  of its sign.
\<close>

definition karatsuba_carry :: "BN_ULONG list \<Rightarrow> nat \<Rightarrow> nat \<Rightarrow> BN_ULONG \<Rightarrow> BN_ULONG list" where
  "karatsuba_carry r i n c = fst (words_tail (\<lambda>i c. let l = r ! i + c in (l, if l < r ! i then 1 else 0)) i n c)"

definition karatsuba_combine :: "nat \<Rightarrow> BN_ULONG list \<Rightarrow> BN_ULONG \<Rightarrow> BN_ULONG list \<Rightarrow> BN_ULONG list" where
  "karatsuba_combine n p neg r =
     (let n2 = 2 * n;
          (t01, c) = bn_add_words r (drop n2 r) n2;
          (sb, bw) = bn_sub_words t01 p n2; c_neg = c - bw;
          (ad, cw) = bn_add_words t01 p n2; c_pos = c + cw;
          t23 = bn_select_words neg sb ad n2;
          c = constant_time_select_w neg c_neg c_pos;
          (mid, cm) = bn_add_words (drop n r) t23 n2; c = c + cm
      in take n r @ mid @ karatsuba_carry r (n + n2) n c)"

function bn_mul_recursive :: "BN_ULONG list \<Rightarrow> BN_ULONG list \<Rightarrow> nat \<Rightarrow> int \<Rightarrow> int \<Rightarrow> BN_ULONG list" where
  "bn_mul_recursive a b n2 dna dnb =
     (if n2 = 8 \<and> dna = 0 \<and> dnb = 0 then bn_mul_comba8 a b
      else if n2 < BN_MUL_RECURSIVE_SIZE_NORMAL
      then bn_mul_normal a (nat (int n2 + dna)) b (nat (int n2 + dnb)) @ (if dna + dnb < 0 then replicate (nat (- (dna + dnb))) 0 else [])
      else let n = n2 div 2; tna = int n + dna; tnb = int n + dnb;
               (t0, neg0) = bn_abs_sub_part_words a (drop n a) (nat tna) (int n - tna);
               (t1, neg1) = bn_abs_sub_part_words (drop n b) b (nat tnb) (tnb - int n);
               (p, r01, r23) =
                 (if n = 4 \<and> dna = 0 \<and> dnb = 0
                  then (bn_mul_comba4 t0 t1, bn_mul_comba4 a b, bn_mul_comba4 (drop n a) (drop n b))
                  else if n = 8 \<and> dna = 0 \<and> dnb = 0
                  then (bn_mul_comba8 t0 t1, bn_mul_comba8 a b, bn_mul_comba8 (drop n a) (drop n b))
                  else (bn_mul_recursive t0 t1 n 0 0, bn_mul_recursive a b n 0 0, bn_mul_recursive (drop n a) (drop n b) n dna dnb))
           in karatsuba_combine n p (neg0 XOR neg1) (r01 @ r23))"
  by pat_completeness auto
termination by (relation "measure (\<lambda>(a, b, n2, dna, dnb). n2)") auto

declare bn_mul_recursive.simps [simp del]

text \<open>The loop that halves \<open>i\<close> until it is at most one of the lengths.\<close>

function part_split :: "nat \<Rightarrow> nat \<Rightarrow> nat \<Rightarrow> nat" where
  "part_split i tna tnb =
     (let i = i div 2 in if i < tna \<or> i < tnb \<or> i = tna \<or> i = tnb then i else part_split i tna tnb)"
  by pat_completeness auto
termination by (relation "measure (\<lambda>(i, tna, tnb). i)") auto

declare part_split.simps [simp del]

lemma part_split_le: "part_split i tna tnb \<le> i div 2"
proof (induction i tna tnb rule: part_split.induct)
  case (1 i tna tnb)
  then show ?case by (subst part_split.simps) (auto simp: Let_def intro: order_trans)
qed

lemma part_split_less: "\<not> n < 8 \<Longrightarrow> part_split n tna tnb < n"
  using part_split_le [of n tna tnb] by linarith

text \<open>\<open>memset\<close> of \<open>num\<close> bytes from a word on, in the memory of a little-endian machine.\<close>

definition clear_bytes :: "nat \<Rightarrow> BN_ULONG list \<Rightarrow> BN_ULONG list" where
  "clear_bytes num ws = map (\<lambda>i. if 8 * (i + 1) \<le> num then 0 else if 8 * i < num then push_bit (8 * (num - 8 * i)) (drop_bit (8 * (num - 8 * i)) (ws ! i)) else ws ! i) [0..<length ws]"

text \<open>\<open>old\<close> is what the destination holds before the call.\<close>

function bn_mul_part_recursive :: "BN_ULONG list \<Rightarrow> BN_ULONG list \<Rightarrow> nat \<Rightarrow> nat \<Rightarrow> nat \<Rightarrow> BN_ULONG list \<Rightarrow> BN_ULONG list" where
  "bn_mul_part_recursive a b n tna tnb old =
     (let n2 = n * 2
      in if n < 8
         then bn_mul_normal a (n + tna) b (n + tnb) @ clear_bytes (n2 - tna - tnb) (drop (n2 + tna + tnb) (take (2 * n2) old))
         else let (t0, neg0) = bn_abs_sub_part_words a (drop n a) tna (int n - int tna);
                  (t1, neg1) = bn_abs_sub_part_words (drop n b) b tnb (int tnb - int n);
                  (p, r01, r23) =
                    (if n = 8
                     then (bn_mul_comba8 t0 t1, bn_mul_comba8 a b,
                           bn_mul_normal (drop n a) tna (drop n b) tnb @ replicate (n2 - tna - tnb) 0)
                     else (bn_mul_recursive t0 t1 n 0 0, bn_mul_recursive a b n 0 0,
                           let z = replicate n2 0
                           in if tna < BN_MUL_RECURSIVE_SIZE_NORMAL \<and> tnb < BN_MUL_RECURSIVE_SIZE_NORMAL
                              then buf_write z 0 (bn_mul_normal (drop n a) tna (drop n b) tnb)
                              else let i = part_split n tna tnb
                                   in if i < tna \<or> i < tnb
                                      then buf_write z 0 (bn_mul_part_recursive (drop n a) (drop n b) i (tna - i) (tnb - i) z)
                                      else buf_write z 0 (bn_mul_recursive (drop n a) (drop n b) i (int tna - int i) (int tnb - int i))))
              in karatsuba_combine n p (neg0 XOR neg1) (r01 @ r23))"
  by pat_completeness auto
termination
  by (relation "measure (\<lambda>(a, b, n, tna, tnb, old). n)") (auto intro: part_split_less)

declare bn_mul_part_recursive.simps [simp del]

section \<open>Products of numbers\<close>

text \<open>
  \<open>same\<close> says that the destination is one of the operands; then the product is formed in \<open>tmp\<close>. \<open>tmp\<close> and
  the scratch number \<open>t\<close> are what \<open>BN_CTX_get\<close> returned.
\<close>

definition mul_into :: "allocator \<Rightarrow> BIGNUM \<Rightarrow> BIGNUM \<Rightarrow> BIGNUM option \<Rightarrow> (BIGNUM, unit) op" where
  "mul_into al a b t rr =
     (let rr = rr\<lparr>bn_neg := (bn_neg a \<noteq> bn_neg b)\<rparr>; an = bn_width a; bn = bn_width b; top' = an + bn
      in if an = bn \<and> an = 8
         then pbind (bn_wexpand al 16) (\<lambda>_ rr.
                (Some (), rr\<lparr>bn_width := 16, bn_d := buf_write (bn_d rr) 0 (bn_mul_comba8 (bn_d a) (bn_d b))\<rparr>)) rr
         else if an \<ge> 16 \<and> bn \<ge> 16 \<and> an \<le> bn + 1 \<and> bn \<le> an + 1
         then let j = 2 ^ (BN_num_bits_word (of_nat (if an \<ge> bn then an else bn)) - 1)
              in case t of
                   None \<Rightarrow> (None, rr)
                 | Some t \<Rightarrow>
                     if an > j \<or> bn > j
                     then case bn_wexpand al (j * 8) t of
                            (None, _) \<Rightarrow> (None, rr)
                          | (Some _, _) \<Rightarrow> pbind (bn_wexpand al (j * 4)) (\<lambda>_ rr.
                              (Some (), rr\<lparr>bn_d := buf_write (bn_d rr) 0 (bn_mul_part_recursive (bn_d a) (bn_d b) j (an - j) (bn - j) (bn_d rr)),
                                           bn_width := top'\<rparr>)) rr
                     else case bn_wexpand al (j * 4) t of
                            (None, _) \<Rightarrow> (None, rr)
                          | (Some _, _) \<Rightarrow> pbind (bn_wexpand al (j * 2)) (\<lambda>_ rr.
                              (Some (), rr\<lparr>bn_d := buf_write (bn_d rr) 0 (bn_mul_recursive (bn_d a) (bn_d b) j (int an - int j) (int bn - int j)),
                                           bn_width := top'\<rparr>)) rr
         else pbind (bn_wexpand al top') (\<lambda>_ rr.
                (Some (), rr\<lparr>bn_width := top', bn_d := buf_write (bn_d rr) 0 (bn_mul_normal (bn_d a) an (bn_d b) bn)\<rparr>)) rr)"

definition bn_mul_impl :: "allocator \<Rightarrow> BIGNUM \<Rightarrow> BIGNUM \<Rightarrow> bool \<Rightarrow> BIGNUM option \<Rightarrow> BIGNUM option \<Rightarrow> (BIGNUM, unit) op" where
  "bn_mul_impl al a b same tmp t r =
     (if bn_width a = 0 \<or> bn_width b = 0 then (Some (), BN_zero r)
      else if same
      then case tmp of
             None \<Rightarrow> (None, r)
           | Some rr \<Rightarrow> (case mul_into al a b t rr of (None, _) \<Rightarrow> (None, r) | (Some _, rr) \<Rightarrow> BN_copy al rr r)
      else mul_into al a b t r)"

definition BN_mul :: "allocator \<Rightarrow> BIGNUM \<Rightarrow> BIGNUM \<Rightarrow> bool \<Rightarrow> BIGNUM option \<Rightarrow> BIGNUM option \<Rightarrow> (BIGNUM, unit) op" where
  "BN_mul al a b same tmp t = pbind (bn_mul_impl al a b same tmp t) (\<lambda>_ r. (Some (), bn_set_minimal_width r))"

definition bn_mul_consttime :: "allocator \<Rightarrow> BIGNUM \<Rightarrow> BIGNUM \<Rightarrow> bool \<Rightarrow> BIGNUM option \<Rightarrow> BIGNUM option \<Rightarrow> (BIGNUM, unit) op" where
  "bn_mul_consttime al a b same tmp t r =
     (if bn_neg a \<or> bn_neg b then (None, r) else bn_mul_impl al a b same tmp t r)"

text \<open>A \<open>None\<close> is the call of \<open>abort\<close>.\<close>

definition bn_mul_small :: "nat \<Rightarrow> BN_ULONG list \<Rightarrow> nat \<Rightarrow> BN_ULONG list \<Rightarrow> nat \<Rightarrow> BN_ULONG list option" where
  "bn_mul_small num_r a num_a b num_b =
     (if num_r \<noteq> num_a + num_b then None
      else if num_a = 8 \<and> num_b = 8 then Some (bn_mul_comba8 a b) else Some (bn_mul_normal a num_a b num_b))"

definition bn_abs_sub_consttime :: "allocator \<Rightarrow> BIGNUM \<Rightarrow> BIGNUM \<Rightarrow> BIGNUM option \<Rightarrow> (BIGNUM, unit) op" where
  "bn_abs_sub_consttime al a b tmp r =
     (let cl = (if bn_width a < bn_width b then bn_width a else bn_width b);
          dl = int (bn_width a) - int (bn_width b);
          r_len = (if bn_width a < bn_width b then bn_width b else bn_width a)
      in case tmp of
           None \<Rightarrow> (None, r)
         | Some tmp \<Rightarrow> pbind (bn_wexpand al r_len) (\<lambda>_ r.
             case bn_wexpand al r_len tmp of
               (None, _) \<Rightarrow> (None, r)
             | (Some _, _) \<Rightarrow>
                 (Some (), r\<lparr>bn_d := buf_write (bn_d r) 0 (fst (bn_abs_sub_part_words (bn_d a) (bn_d b) cl dl)), bn_width := r_len\<rparr>)) r)"

definition BN_mul_word :: "allocator \<Rightarrow> BN_ULONG \<Rightarrow> (BIGNUM, unit) op" where
  "BN_mul_word al w bn =
     (if bn_width bn = 0 then (Some (), bn)
      else if w = 0 then (Some (), BN_zero bn)
      else let (ws, ll) = bn_mul_words (bn_d bn) (bn_width bn) w; bn = bn\<lparr>bn_d := buf_write (bn_d bn) 0 ws\<rparr>
           in if ll \<noteq> 0
              then pbind (bn_wexpand al (bn_width bn + 1)) (\<lambda>_ bn.
                     (Some (), bn\<lparr>bn_d := (bn_d bn)[bn_width bn := ll], bn_width := bn_width bn + 1\<rparr>)) bn
              else (Some (), bn))"

section \<open>Squares\<close>

text \<open>Row \<open>i\<close> adds \<open>a[i]\<close> times the words above it at twice its index.\<close>

definition sqr_row :: "BN_ULONG list \<Rightarrow> nat \<Rightarrow> nat \<Rightarrow> BN_ULONG list \<Rightarrow> BN_ULONG list" where
  "sqr_row a n i r =
     (let (ws, c) = bn_mul_add_words (drop (2 * i + 1) r) (drop (i + 1) a) (n - 1 - i) (a ! i)
      in take (2 * i + 1) r @ ws @ [c])"

definition bn_sqr_normal :: "BN_ULONG list \<Rightarrow> nat \<Rightarrow> BN_ULONG list" where
  "bn_sqr_normal a n =
     (if n = 0 then []
      else let r = (if n > 1 then let (ws, c) = bn_mul_words (drop 1 a) (n - 1) (a ! 0) in 0 # ws @ [c] else [0]);
               r = fold (sqr_row a n) [1..<n - 1] r @ [0];
               (r, _) = bn_add_words r r (2 * n);
               (r, _) = bn_add_words r (bn_sqr_words a n) (2 * n)
           in r)"

function bn_sqr_recursive :: "BN_ULONG list \<Rightarrow> nat \<Rightarrow> BN_ULONG list" where
  "bn_sqr_recursive a n2 =
     (if n2 = 4 then bn_sqr_comba4 a
      else if n2 = 8 then bn_sqr_comba8 a
      else if n2 < BN_SQR_RECURSIVE_SIZE_NORMAL then bn_sqr_normal a n2
      else let n = n2 div 2;
               t0 = bn_abs_sub_words a (drop n a) n;
               p = bn_sqr_recursive t0 n;
               r = bn_sqr_recursive a n @ bn_sqr_recursive (drop n a) n;
               (t01, c) = bn_add_words r (drop n2 r) n2;
               (t23, bw) = bn_sub_words t01 p n2; c = c - bw;
               (mid, cm) = bn_add_words (drop n r) t23 n2; c = c + cm
           in take n r @ mid @ karatsuba_carry r (n + n2) n c)"
  by pat_completeness auto
termination by (relation "measure (\<lambda>(a, n2). n2)") auto

declare bn_sqr_recursive.simps [simp del]

text \<open>\<open>rr\<close> is the destination or, when it is the operand, a number that \<open>BN_CTX_get\<close> returned, as is \<open>tmp\<close>.\<close>

definition sqr_into :: "allocator \<Rightarrow> BIGNUM \<Rightarrow> BIGNUM \<Rightarrow> (BIGNUM, unit) op" where
  "sqr_into al a tmp rr =
     (let n = bn_width a; mx = 2 * n
      in pbind (bn_wexpand al mx) (\<lambda>_ rr.
           let store = (\<lambda>ws. (Some (), rr\<lparr>bn_d := buf_write (bn_d rr) 0 ws, bn_neg := False, bn_width := mx\<rparr>))
           in if n = 4 then store (bn_sqr_comba4 (bn_d a))
              else if n = 8 then store (bn_sqr_comba8 (bn_d a))
              else if n < BN_SQR_RECURSIVE_SIZE_NORMAL then store (bn_sqr_normal (bn_d a) n)
              else if n \<noteq> 0 \<and> n AND (n - 1) = 0
              then case bn_wexpand al (n * 4) tmp of (None, _) \<Rightarrow> (None, rr) | (Some _, _) \<Rightarrow> store (bn_sqr_recursive (bn_d a) n)
              else case bn_wexpand al mx tmp of (None, _) \<Rightarrow> (None, rr) | (Some _, _) \<Rightarrow> store (bn_sqr_normal (bn_d a) n)) rr)"

definition bn_sqr_consttime :: "allocator \<Rightarrow> BIGNUM \<Rightarrow> bool \<Rightarrow> BIGNUM option \<Rightarrow> BIGNUM option \<Rightarrow> (BIGNUM, unit) op" where
  "bn_sqr_consttime al a same rr tmp r =
     (if bn_width a = 0 then (Some (), r\<lparr>bn_width := 0, bn_neg := False\<rparr>)
      else case (if same then rr else Some r, tmp) of
             (Some rr, Some tmp) \<Rightarrow>
               (case sqr_into al a tmp rr of
                  (None, rr) \<Rightarrow> (None, if same then r else rr)
                | (Some _, rr) \<Rightarrow> if same then BN_copy al rr r else (Some (), rr))
           | _ \<Rightarrow> (None, r))"

definition BN_sqr :: "allocator \<Rightarrow> BIGNUM \<Rightarrow> bool \<Rightarrow> BIGNUM option \<Rightarrow> BIGNUM option \<Rightarrow> (BIGNUM, unit) op" where
  "BN_sqr al a same rr tmp = pbind (bn_sqr_consttime al a same rr tmp) (\<lambda>_ r. (Some (), bn_set_minimal_width r))"

definition bn_sqr_small :: "nat \<Rightarrow> BN_ULONG list \<Rightarrow> nat \<Rightarrow> BN_ULONG list option" where
  "bn_sqr_small num_r a num_a =
     (if num_r \<noteq> 2 * num_a \<or> num_a > BN_SMALL_MAX_WORDS then None
      else Some (if num_a = 4 then bn_sqr_comba4 a else if num_a = 8 then bn_sqr_comba8 a else bn_sqr_normal a num_a))"

end
