(* ===== verification/BnKaratsuba.thy ===== *)
theory BnKaratsuba
  imports BnMul
begin

text \<open>
  The routines of \<^verbatim>\<open>bn/mul.c\<close> on word arrays compute products: the schoolbook rows, the differences
  with their signs, one Karatsuba step and the two recursions over it.
\<close>

section \<open>Parts of word arrays\<close>

lemma words_val_take_less: "n \<le> length ws \<Longrightarrow> words_val (take n ws) < 2 ^ (64 * n)"
  using words_val_less [of "take n ws"] by (simp add: min_absorb2)

lemma words_val_split: "n \<le> length ws \<Longrightarrow> words_val ws = words_val (take n ws) + 2 ^ (64 * n) * words_val (drop n ws)"
  using words_val_append [of "take n ws" "drop n ws"] by (simp add: min_absorb2)

lemma words_val_take_add:
  "m + n \<le> length ws \<Longrightarrow> words_val (take (m + n) ws) = words_val (take m ws) + 2 ^ (64 * m) * words_val (take n (drop m ws))"
  using words_val_append [of "take m ws" "take n (drop m ws)"] by (simp add: take_add min_absorb2)

lemma words_val_take_mod: "n \<le> length ws \<Longrightarrow> words_val (take n ws) = words_val ws mod 2 ^ (64 * n)"
  using words_val_split [of n ws] words_val_take_less [of n ws] by simp

lemma words_val_take_exact: "n \<le> length ws \<Longrightarrow> words_val ws < 2 ^ (64 * n) \<Longrightarrow> words_val (take n ws) = words_val ws"
  by (simp add: words_val_take_mod)

lemma comba_cong:
  "(\<And>col p. col \<in> set cols \<Longrightarrow> p \<in> set col \<Longrightarrow> f p = g p) \<Longrightarrow> comba f cols c = comba g cols c"
proof (induction cols arbitrary: c)
  case Nil
  show ?case by (cases c) simp
next
  case (Cons col cols)
  have "fold f col c = fold g col c" using Cons.prems [of col] by (intro fold_cong) simp_all
  moreover have "comba f cols c' = comba g cols c'" for c' by (rule Cons.IH) (use Cons.prems in auto)
  ultimately show ?case by simp
qed

lemma bn_mul_comba4_prefix:
  assumes "4 \<le> length a" "4 \<le> length b"
  shows "length (bn_mul_comba4 a b) = 8" "words_val (bn_mul_comba4 a b) = words_val (take 4 a) * words_val (take 4 b)"
proof -
  have "bn_mul_comba4 a b = bn_mul_comba4 (take 4 a) (take 4 b)"
    unfolding bn_mul_comba4_def by (rule comba_cong) (auto simp: mul_columns4_def)
  then show "length (bn_mul_comba4 a b) = 8" "words_val (bn_mul_comba4 a b) = words_val (take 4 a) * words_val (take 4 b)"
    using bn_mul_comba4_val [of "take 4 a" "take 4 b"] assms by simp_all
qed

lemma bn_mul_comba8_prefix:
  assumes "8 \<le> length a" "8 \<le> length b"
  shows "length (bn_mul_comba8 a b) = 16" "words_val (bn_mul_comba8 a b) = words_val (take 8 a) * words_val (take 8 b)"
proof -
  have "bn_mul_comba8 a b = bn_mul_comba8 (take 8 a) (take 8 b)"
    unfolding bn_mul_comba8_def by (rule comba_cong) (auto simp: mul_columns8_def)
  then show "length (bn_mul_comba8 a b) = 16" "words_val (bn_mul_comba8 a b) = words_val (take 8 a) * words_val (take 8 b)"
    using bn_mul_comba8_val [of "take 8 a" "take 8 b"] assms by simp_all
qed

section \<open>Rows\<close>

lemma mul_row_val:
  assumes "length r = na + j" "na \<le> length a" "mul_row a na b j r = r'"
  shows "length r' = na + Suc j" "words_val r' = words_val r + 2 ^ (64 * j) * (unat (b ! j) * words_val (take na a))"
proof -
  obtain ws c where m: "bn_mul_add_words (drop j r) a na (b ! j) = (ws, c)" by force
  have r': "r' = take j r @ ws @ [c]" using assms(3) m by (simp add: mul_row_def)
  note v = bn_mul_add_words_val [OF m assms(2)]
  have v1: "length ws = na" "words_val ws + 2 ^ (64 * na) * unat c = words_val (drop j r) + unat (b ! j) * words_val (take na a)"
    using v assms(1) by simp_all
  show "length r' = na + Suc j" using r' v1(1) assms(1) by simp
  have "words_val r' = words_val (take j r) + 2 ^ (64 * j) * (words_val ws + 2 ^ (64 * na) * unat c)"
    unfolding r' using assms(1) v1(1) by (simp add: words_val_append min_absorb2)
  also have "\<dots> = words_val r + 2 ^ (64 * j) * (unat (b ! j) * words_val (take na a))"
    unfolding v1(2) using words_val_split [of j r] assms(1) by (simp add: distrib_left)
  finally show "words_val r' = words_val r + 2 ^ (64 * j) * (unat (b ! j) * words_val (take na a))" .
qed

lemma mul_rows_val:
  assumes "na \<le> length a" "nb \<le> length b" "bn_mul_words a na (b ! 0) = (ws, c)" "1 \<le> nb"
  shows "length (fold (mul_row a na b) [1..<nb] (ws @ [c])) = na + nb \<and>
    words_val (fold (mul_row a na b) [1..<nb] (ws @ [c])) = words_val (take na a) * words_val (take nb b)"
  using assms(4,2)
proof (induction nb rule: nat_induct_at_least)
  case base
  note v = bn_mul_words_val [OF assms(3,1)]
  have "words_val (take 1 b) = unat (b ! 0)" using base.prems by (cases b) simp_all
  then show ?case using v by (simp add: words_val_append mult.commute)
next
  case (Suc j)
  let ?r = "fold (mul_row a na b) [1..<j] (ws @ [c])"
  have IH: "length ?r = na + j" "words_val ?r = words_val (take na a) * words_val (take j b)" using Suc by simp_all
  have "fold (mul_row a na b) [1..<Suc j] (ws @ [c]) = mul_row a na b j ?r" using Suc.hyps by simp
  moreover note mul_row_val [OF IH(1) assms(1) refl, of b]
  moreover have "words_val (take (Suc j) b) = words_val (take j b) + 2 ^ (64 * j) * unat (b ! j)"
    using Suc.prems by (simp add: take_Suc_conv_app_nth words_val_append)
  ultimately show ?case using IH(2) by (simp add: algebra_simps)
qed

lemma bn_mul_normal_val:
  assumes "na \<le> length a" "nb \<le> length b"
  shows "length (bn_mul_normal a na b nb) = na + nb" "words_val (bn_mul_normal a na b nb) = words_val (take na a) * words_val (take nb b)"
proof -
  have g: "length (bn_mul_normal x nx y ny) = nx + ny \<and> words_val (bn_mul_normal x nx y ny) = words_val (take nx x) * words_val (take ny y)"
    if "nx \<le> length x" "ny \<le> length y" "\<not> nx < ny" for x y nx ny
  proof (cases "ny = 0")
    case True
    with that show ?thesis by (simp add: bn_mul_normal_def)
  next
    case False
    obtain ws c where m: "bn_mul_words x nx (y ! 0) = (ws, c)" by force
    from False mul_rows_val [OF that(1,2) m] that(3) m show ?thesis by (simp add: bn_mul_normal_def)
  qed
  have "bn_mul_normal a na b nb = bn_mul_normal b nb a na" if "na < nb" using that by (simp add: bn_mul_normal_def)
  then have "length (bn_mul_normal a na b nb) = na + nb \<and> words_val (bn_mul_normal a na b nb) = words_val (take na a) * words_val (take nb b)"
    using g [of na a nb b] g [of nb b na a] assms by (cases "na < nb") simp_all
  then show "length (bn_mul_normal a na b nb) = na + nb" "words_val (bn_mul_normal a na b nb) = words_val (take na a) * words_val (take nb b)"
    by simp_all
qed

section \<open>Differences with a sign\<close>

lemma bn_sub_part_words_val:
  assumes "bn_sub_part_words a b cl dl = (ws, c)" "cl + nat dl \<le> length a" "cl + nat (- dl) \<le> length b"
  shows "length ws = cl + nat \<bar>dl\<bar>" "unat c \<le> 1"
    "words_val ws + words_val (take (cl + nat (- dl)) b) = words_val (take (cl + nat dl) a) + 2 ^ (64 * (cl + nat \<bar>dl\<bar>)) * unat c"
proof -
  obtain lo c0 where lo: "bn_sub_words a b cl = (lo, c0)" by force
  note v = bn_sub_words_val [OF lo]
  have v: "length lo = cl" "unat c0 \<le> 1" "words_val lo + words_val (take cl b) = words_val (take cl a) + 2 ^ (64 * cl) * unat c0"
    using v assms(2,3) by simp_all
  have "length ws = cl + nat \<bar>dl\<bar> \<and> unat c \<le> 1 \<and>
    words_val ws + words_val (take (cl + nat (- dl)) b) = words_val (take (cl + nat dl) a) + 2 ^ (64 * (cl + nat \<bar>dl\<bar>)) * unat c"
  proof (cases "dl = 0")
    case True
    then show ?thesis using v assms(1) lo by (simp add: bn_sub_part_words_def)
  next
    case False
    let ?n = "nat \<bar>dl\<bar>"
    let ?x = "\<lambda>i. if dl < 0 then 0 else a ! i" and ?y = "\<lambda>i. if dl < 0 then b ! i else 0"
    obtain hi c1 where hi: "words_tail (\<lambda>i. CRYPTO_subc_w (?x i) (?y i)) cl ?n c0 = (hi, c1)" by force
    have w: "ws = lo @ hi" "c = c1"
      using assms(1) lo hi False by (auto simp: bn_sub_part_words_def split: if_splits)
    note t = subc_tail [OF hi v(2)]
    have "(\<Sum>k<?n. unat (?x (cl + k)) * 2 ^ (64 * k)) = words_val (take (nat dl) (drop cl a))"
      using assms(2) False by (cases "dl < 0") (simp_all add: words_window)
    moreover have "(\<Sum>k<?n. unat (?y (cl + k)) * 2 ^ (64 * k)) = words_val (take (nat (- dl)) (drop cl b))"
      using assms(3) False by (cases "dl < 0") (simp_all add: words_window)
    ultimately have t: "length hi = ?n" "unat c \<le> 1" "words_val hi + words_val (take (nat (- dl)) (drop cl b)) + unat c0 =
        words_val (take (nat dl) (drop cl a)) + 2 ^ (64 * ?n) * unat c"
      using t w(2) by simp_all
    have "words_val (lo @ hi) + words_val (take (cl + nat (- dl)) b) + 2 ^ (64 * cl) * unat c0 =
        (words_val lo + words_val (take cl b)) + 2 ^ (64 * cl) * (words_val hi + words_val (take (nat (- dl)) (drop cl b)) + unat c0)"
      using words_val_take_add [OF assms(3)] v(1) by (simp add: words_val_append distrib_left)
    also have "\<dots> = words_val (take (cl + nat dl) a) + 2 ^ (64 * (cl + ?n)) * unat c + 2 ^ (64 * cl) * unat c0"
      unfolding v(3) t(3) using words_val_take_add [OF assms(2)] by (simp add: distrib_left power_add)
    finally show ?thesis using w(1) v(1) t(1,2) by simp
  qed
  then show "length ws = cl + nat \<bar>dl\<bar>" "unat c \<le> 1"
    "words_val ws + words_val (take (cl + nat (- dl)) b) = words_val (take (cl + nat dl) a) + 2 ^ (64 * (cl + nat \<bar>dl\<bar>)) * unat c"
    by simp_all
qed

text \<open>A borrow says which operand is larger, and then which of the two differences is the absolute one.\<close>

lemma borrow_iff:
  assumes "(w :: nat) + y = x + m * c" "w < m" "x < m" "y < m" "c \<le> 1"
  shows "c = (if x < y then 1 else 0)" "c = 0 \<Longrightarrow> w = x - y"
proof -
  have "c = 0 \<or> c = 1" using assms(5) by linarith
  then show "c = (if x < y then 1 else 0)" using assms by auto
  show "w = x - y" if "c = 0" using assms that by simp
qed

lemma unat_le_1: "unat (c :: BN_ULONG) = (if s then 1 else 0) \<Longrightarrow> c = (if s then 1 else 0)"
  by (auto simp: word_unat_eq_iff split: if_splits)

lemma bn_abs_sub_part_words_val:
  assumes "bn_abs_sub_part_words a b cl dl = (ws, m)" "cl + nat dl \<le> length a" "cl + nat (- dl) \<le> length b"
    "x = words_val (take (cl + nat dl) a)" "y = words_val (take (cl + nat (- dl)) b)"
  shows "length ws = cl + nat \<bar>dl\<bar>" "m = (if x < y then - 1 else 0)" "int (words_val ws) = \<bar>int x - int y\<bar>"
proof -
  obtain t c where t: "bn_sub_part_words a b cl dl = (t, c)" by force
  obtain r d where r: "bn_sub_part_words b a cl (- dl) = (r, d)" by force
  let ?n = "cl + nat \<bar>dl\<bar>"
  note vt = bn_sub_part_words_val [OF t assms(2,3), folded assms(4,5)]
  note vr = bn_sub_part_words_val [OF r, unfolded minus_minus abs_minus_cancel, OF assms(3,2), folded assms(4,5)]
  have "x < 2 ^ (64 * (cl + nat dl))" "y < 2 ^ (64 * (cl + nat (- dl)))"
    unfolding assms(4,5) using assms(2,3) by (simp_all only: words_val_take_less)
  moreover have "(2 :: nat) ^ (64 * (cl + nat dl)) \<le> 2 ^ (64 * ?n)" "(2 :: nat) ^ (64 * (cl + nat (- dl))) \<le> 2 ^ (64 * ?n)"
    by (intro power_increasing; simp)+
  ultimately have xy: "x < 2 ^ (64 * ?n)" "y < 2 ^ (64 * ?n)" by linarith+
  have wt: "words_val t < 2 ^ (64 * ?n)" "words_val r < 2 ^ (64 * ?n)"
    using words_val_less [of t] words_val_less [of r] vt(1) vr(1) by simp_all
  note ct = borrow_iff [OF vt(3) wt(1) xy vt(2)] and cr = borrow_iff [OF vr(3) wt(2) xy(2,1) vr(2)]
  have "c = (if x < y then 1 else 0)" using ct(1) by (rule unat_le_1)
  then have m: "0 - c = (if x < y then - 1 else 0)" by simp
  have "ws = bn_select_words (0 - c) r t ?n" "m = 0 - c" using assms(1) t r by (auto simp: bn_abs_sub_part_words_def Let_def)
  then have ws: "ws = (if x < y then r else t)" and m: "m = (if x < y then - 1 else 0)"
    unfolding m using vt(1) vr(1) bn_select_words_mask [of ?n r t "x < y"] by simp_all
  show "length ws = ?n" "m = (if x < y then - 1 else 0)" using ws m vt(1) vr(1) by simp_all
  show "int (words_val ws) = \<bar>int x - int y\<bar>"
  proof (cases "x < y")
    case True
    then have "words_val r = y - x" using cr by simp
    then show ?thesis using ws True by (simp add: of_nat_diff)
  next
    case False
    then have "words_val t = x - y" using ct by simp
    then show ?thesis using ws False by (simp add: of_nat_diff)
  qed
qed

section \<open>The Karatsuba step\<close>

text \<open>The sign of the product of the differences is the exclusive or of their signs.\<close>

lemma karatsuba_product:
  fixes a0 a1 b0 b1 p :: nat
  assumes "int p = \<bar>int a0 - int a1\<bar> * \<bar>int b1 - int b0\<bar>"
  shows "int (a0 * b0 + a1 * b1) + (if (a0 < a1) \<noteq> (b1 < b0) then - int p else int p) = int (a0 * b1 + a1 * b0)"
proof -
  have "(if (a0 < a1) \<noteq> (b1 < b0) then - int p else int p) = (int a0 - int a1) * (int b1 - int b0)"
    unfolding assms by (cases "a0 < a1"; cases "b1 < b0") (simp_all add: algebra_simps)
  then show ?thesis by (simp add: algebra_simps)
qed

lemma karatsuba_carry_val:
  assumes "i + n \<le> length r"
  shows "length (karatsuba_carry r i n c) = n \<and>
    (\<exists>c'. words_val (karatsuba_carry r i n c) + 2 ^ (64 * n) * c' = words_val (take n (drop i r)) + unat c)"
proof -
  let ?step = "\<lambda>i c. let l = r ! i + c in (l, if l < r ! i then 1 else 0)"
  obtain ws c' where t: "words_tail ?step i n c = (ws, c')" by force
  have "True \<and> length ws = n \<and> int (words_val ws) + 1 * 2 ^ (64 * n) * int (unat c') =
      (\<Sum>k<n. int (unat (r ! (i + k))) * 2 ^ (64 * k)) + 1 * int (unat c)"
  proof (rule words_tail_val [where P = "\<lambda>_. True", OF _ TrueI t])
    fix j c l and c' :: BN_ULONG assume s: "?step j c = (l, c')"
    have "unat l + 2 ^ 64 * unat c' = unat (r ! j) + unat c"
      using s word_sum_carry [of c "r ! j"] by (auto simp: Let_def add.commute split: if_splits)
    then have "int (unat l + 2 ^ 64 * unat c') = int (unat (r ! j) + unat c)" by (rule arg_cong)
    then show "True \<and> int (unat l) + 1 * 2 ^ 64 * int (unat c') = int (unat (r ! j)) + 1 * int (unat c)" by simp
  qed
  then have "length ws = n" "int (words_val ws + 2 ^ (64 * n) * unat c') = int (words_val (take n (drop i r)) + unat c)"
    using assms by (simp_all add: words_window)
  then show ?thesis using t unfolding of_nat_eq_iff by (auto simp: karatsuba_carry_def)
qed

text \<open>
  The step in numbers, with \<open>k\<close> for the size of a half: the four carries are accounted for and nothing
  leaves the array.
\<close>

lemma karatsuba_sum:
  fixes k :: nat
  assumes "mid + k * k * cm = win + t" "hi' + k * co = hi + (c + cm)" "lo + k * win + k * k * k * hi + k * (t + k * k * c) < k * k * k * k"
  shows "lo + k * (mid + k * k * hi') = lo + k * win + k * k * k * hi + k * (t + k * k * c)"
proof -
  have e: "lo + k * (mid + k * k * hi') + k * k * k * k * co = lo + k * win + k * k * k * hi + k * (t + k * k * c)"
  proof -
    have "lo + k * (mid + k * k * hi') + k * k * k * k * co + k * (k * k * cm) = lo + k * (mid + k * k * cm) + k * (k * k * (hi' + k * co))"
      by (simp add: algebra_simps)
    also have "\<dots> = lo + k * win + k * k * k * hi + k * (t + k * k * c) + k * (k * k * cm)"
      unfolding assms(1,2) by (simp add: algebra_simps)
    finally show ?thesis by simp
  qed
  have "co = 0"
  proof (rule ccontr)
    assume "co \<noteq> 0"
    then have "k * k * k * k * 1 \<le> k * k * k * k * co" by (intro mult_le_mono2) simp
    then show False using e assms(3) by linarith
  qed
  with e show ?thesis by simp
qed

lemma word_add_small: "unat (x :: BN_ULONG) \<le> 3 \<Longrightarrow> unat y \<le> 1 \<Longrightarrow> unat (x + y) = unat x + unat y"
  using unat_add_lem [of x y] by simp

text \<open>The middle part with its carry: the sum of the two products plus or minus the third.\<close>

lemma karatsuba_middle:
  assumes "length t01 = n2" "length p = n2" "unat c \<le> 1" "bn_sub_words t01 p n2 = (sb, bw)" "bn_add_words t01 p n2 = (ad, cw)"
    "m = int (words_val t01 + 2 ^ (64 * n2) * unat c) + (if s then - int (words_val p) else int (words_val p))" "0 \<le> m"
    "t23 = bn_select_words (if s then - 1 else 0) sb ad n2" "c' = constant_time_select_w (if s then - 1 else 0) (c - bw) (c + cw)"
  shows "length t23 = n2" "unat c' \<le> 2" "int (words_val t23 + 2 ^ (64 * n2) * unat c') = m"
proof -
  note vs = bn_sub_words_val [OF assms(4)] and va = bn_add_words_val [OF assms(5)]
  have vs: "length sb = n2" "unat bw \<le> 1" "words_val sb + words_val p = words_val t01 + 2 ^ (64 * n2) * unat bw"
    using vs assms(1,2) by simp_all
  have va: "length ad = n2" "unat cw \<le> 1" "words_val ad + 2 ^ (64 * n2) * unat cw = words_val t01 + words_val p"
    using va assms(1,2) by simp_all
  have t23: "t23 = (if s then sb else ad)" unfolding assms(8) using vs(1) va(1) by (simp add: bn_select_words_mask)
  have c': "c' = (if s then c - bw else c + cw)" unfolding assms(9) by (simp add: ct_mask)
  show "length t23 = n2" using t23 vs(1) va(1) by simp
  have "unat c' \<le> 2 \<and> int (words_val t23 + 2 ^ (64 * n2) * unat c') = m"
  proof (cases s)
    case True
    have "words_val sb < 2 ^ (64 * n2)" using words_val_less [of sb] vs(1) by simp
    have "int (words_val p) \<le> int (words_val t01 + 2 ^ (64 * n2) * unat c)" using assms(6,7) True by simp
    then have "words_val p \<le> words_val t01 + 2 ^ (64 * n2) * unat c" unfolding of_nat_le_iff .
    then have "2 ^ (64 * n2) * unat bw \<le> words_val sb + 2 ^ (64 * n2) * unat c" using vs(3) by linarith
    also have "\<dots> < 2 ^ (64 * n2) * (unat c + 1)" using words_val_less [of sb] vs(1) by simp
    finally have "unat bw < unat c + 1" unfolding mult_less_cancel1 by simp
    then have "unat bw \<le> unat c" by simp
    then have "unat c' = unat c - unat bw" using True c' by (simp add: unat_sub_wrap word_le_nat_alt)
    with \<open>unat bw \<le> unat c\<close> have d: "unat c = unat c' + unat bw" by simp
    have "words_val sb + 2 ^ (64 * n2) * unat c' + words_val p = words_val t01 + 2 ^ (64 * n2) * unat c"
      unfolding d using vs(3) by (simp add: distrib_left)
    then have "int (words_val sb + 2 ^ (64 * n2) * unat c' + words_val p) = int (words_val t01 + 2 ^ (64 * n2) * unat c)" by (rule arg_cong)
    then show ?thesis using True t23 assms(3,6) d by simp
  next
    case False
    have "unat c' = unat c + unat cw" using False c' assms(3) va(2) word_add_small [of c cw] by simp
    moreover have "int (words_val ad + 2 ^ (64 * n2) * unat cw) = int (words_val t01 + words_val p)" unfolding va(3) ..
    ultimately show ?thesis using False t23 assms(3,6) va(2) by (simp add: distrib_left)
  qed
  then show "unat c' \<le> 2" "int (words_val t23 + 2 ^ (64 * n2) * unat c') = m" by simp_all
qed

lemma karatsuba_combine_val:
  assumes "length r = 4 * n" "length p = 2 * n"
    "int m = int (words_val (take (2 * n) r) + words_val (drop (2 * n) r)) + (if s then - int (words_val p) else int (words_val p))"
    "words_val r + 2 ^ (64 * n) * m < 2 ^ (64 * (4 * n))"
  shows "length (karatsuba_combine n p (if s then - 1 else 0) r) = 4 * n"
    "words_val (karatsuba_combine n p (if s then - 1 else 0) r) = words_val r + 2 ^ (64 * n) * m"
proof -
  let ?n2 = "2 * n" and ?neg = "if s then - 1 else 0 :: BN_ULONG" and ?k = "2 ^ (64 * n) :: nat"
  obtain t01 c where t01: "bn_add_words r (drop ?n2 r) ?n2 = (t01, c)" by force
  obtain sb bw where sb: "bn_sub_words t01 p ?n2 = (sb, bw)" by force
  obtain ad cw where ad: "bn_add_words t01 p ?n2 = (ad, cw)" by force
  define t23 where "t23 = bn_select_words ?neg sb ad ?n2"
  define c' where "c' = constant_time_select_w ?neg (c - bw) (c + cw)"
  obtain mid cm where mid: "bn_add_words (drop n r) t23 ?n2 = (mid, cm)" by force
  let ?hi = "karatsuba_carry r (n + ?n2) n (c' + cm)"
  have run: "karatsuba_combine n p ?neg r = take n r @ mid @ ?hi"
    using t01 sb ad mid by (simp add: karatsuba_combine_def Let_def t23_def c'_def)
  have v1: "length t01 = ?n2" "unat c \<le> 1" "words_val t01 + 2 ^ (64 * ?n2) * unat c = words_val (take ?n2 r) + words_val (drop ?n2 r)"
    using bn_add_words_val [OF t01] assms(1) by simp_all
  note v2 = karatsuba_middle [OF v1(1) assms(2) v1(2) sb ad _ _ t23_def c'_def, of "int m", unfolded v1(3), OF assms(3)]
  have v2: "length t23 = ?n2" "unat c' \<le> 2" "words_val t23 + 2 ^ (64 * ?n2) * unat c' = m"
    using v2 unfolding of_nat_eq_iff by simp_all
  have v3: "length mid = ?n2" "unat cm \<le> 1" "words_val mid + 2 ^ (64 * ?n2) * unat cm = words_val (take ?n2 (drop n r)) + words_val t23"
    using bn_add_words_val [OF mid] v2(1) assms(1) by simp_all
  have cc: "unat (c' + cm) = unat c' + unat cm" using v2(2) v3(2) by (intro word_add_small) simp_all
  obtain co where v4: "length ?hi = n" "words_val ?hi + ?k * co = words_val (take n (drop (n + ?n2) r)) + (unat c' + unat cm)"
    using karatsuba_carry_val [of "n + ?n2" n r "c' + cm"] assms(1) cc by auto
  have k2: "(2 :: nat) ^ (64 * ?n2) = ?k * ?k" "(2 :: nat) ^ (64 * (4 * n)) = ?k * ?k * ?k * ?k"
    by (simp_all flip: power_add)
  have r: "words_val r = words_val (take n r) + ?k * words_val (take ?n2 (drop n r)) + ?k * ?k * ?k * words_val (take n (drop (n + ?n2) r))"
    using words_val_split [of n r] words_val_split [of ?n2 "drop n r"] assms(1) k2(1) by (simp add: algebra_simps add.commute)
  show "length (karatsuba_combine n p ?neg r) = 4 * n" unfolding run using v3(1) v4(1) assms(1) by simp
  have "words_val (karatsuba_combine n p ?neg r) = words_val (take n r) + ?k * (words_val mid + ?k * ?k * words_val ?hi)"
    unfolding run using v3(1) assms(1) k2(1) by (simp add: words_val_append min_absorb2)
  also have "\<dots> = words_val (take n r) + ?k * words_val (take ?n2 (drop n r)) + ?k * ?k * ?k * words_val (take n (drop (n + ?n2) r)) +
      ?k * (words_val t23 + ?k * ?k * unat c')"
  proof (rule karatsuba_sum)
    show "words_val mid + ?k * ?k * unat cm = words_val (take ?n2 (drop n r)) + words_val t23" using v3(3) k2(1) by simp
    show "words_val ?hi + ?k * co = words_val (take n (drop (n + ?n2) r)) + (unat c' + unat cm)" by (rule v4(2))
    show "words_val (take n r) + ?k * words_val (take ?n2 (drop n r)) + ?k * ?k * ?k * words_val (take n (drop (n + ?n2) r)) +
        ?k * (words_val t23 + ?k * ?k * unat c') < ?k * ?k * ?k * ?k"
      using assms(4) v2(3) r k2 by simp
  qed
  finally show "words_val (karatsuba_combine n p ?neg r) = words_val r + ?k * m" using v2(3) r k2(1) by simp
qed

section \<open>The recursions\<close>

text \<open>
  One step for operands of \<open>n + ta\<close> and \<open>n + tb\<close> words, with the products of the parts taken as given.
\<close>

lemma karatsuba_step:
  assumes "n + ta \<le> length a" "n + tb \<le> length b" "ta \<le> n" "tb \<le> n"
    "bn_abs_sub_part_words a (drop n a) ta (int n - int ta) = (t0, neg0)"
    "bn_abs_sub_part_words (drop n b) b tb (int tb - int n) = (t1, neg1)"
    "length p = 2 * n" "length r01 = 2 * n" "length r23 = 2 * n"
    "words_val p = words_val t0 * words_val t1"
    "words_val r01 = words_val (take n a) * words_val (take n b)"
    "words_val r23 = words_val (take ta (drop n a)) * words_val (take tb (drop n b))"
  shows "length (karatsuba_combine n p (neg0 XOR neg1) (r01 @ r23)) = 4 * n"
    "words_val (karatsuba_combine n p (neg0 XOR neg1) (r01 @ r23)) = words_val (take (n + ta) a) * words_val (take (n + tb) b)"
proof -
  let ?a0 = "words_val (take n a)" and ?a1 = "words_val (take ta (drop n a))"
  let ?b0 = "words_val (take n b)" and ?b1 = "words_val (take tb (drop n b))" and ?k = "2 ^ (64 * n) :: nat"
  let ?s = "(?a0 < ?a1) \<noteq> (?b1 < ?b0)"
  have n: "ta + nat (int n - int ta) = n" "ta + nat (- (int n - int ta)) = ta" "tb + nat (- (int tb - int n)) = n" "tb + nat (int tb - int n) = tb"
    using assms(3,4) by linarith+
  have d0: "neg0 = (if ?a0 < ?a1 then - 1 else 0)" "int (words_val t0) = \<bar>int ?a0 - int ?a1\<bar>"
    using bn_abs_sub_part_words_val [OF assms(5), unfolded n, of ?a0 ?a1] assms(1) by simp_all
  have d1: "neg1 = (if ?b1 < ?b0 then - 1 else 0)" "int (words_val t1) = \<bar>int ?b1 - int ?b0\<bar>"
    using bn_abs_sub_part_words_val [OF assms(6), unfolded n, of ?b1 ?b0] assms(2) by simp_all
  have neg: "neg0 XOR neg1 = (if ?s then - 1 else 0)" unfolding d0 d1 by simp
  have p: "int (words_val p) = \<bar>int ?a0 - int ?a1\<bar> * \<bar>int ?b1 - int ?b0\<bar>" unfolding assms(10) by (simp add: d0 d1)
  have parts: "take (2 * n) (r01 @ r23) = r01" "drop (2 * n) (r01 @ r23) = r23" using assms(8) by simp_all
  have r: "words_val (r01 @ r23) = ?a0 * ?b0 + ?k * ?k * (?a1 * ?b1)"
    using assms(8,11,12) by (simp add: words_val_append flip: power_add)
  have ab: "words_val (take (n + ta) a) = ?a0 + ?k * ?a1" "words_val (take (n + tb) b) = ?b0 + ?k * ?b1"
    using assms(1,2) by (simp_all only: words_val_take_add)
  have prod: "words_val (r01 @ r23) + ?k * (?a0 * ?b1 + ?a1 * ?b0) = words_val (take (n + ta) a) * words_val (take (n + tb) b)"
    unfolding r ab by (simp add: algebra_simps)
  have "words_val (take (n + ta) a) * words_val (take (n + tb) b) < 2 ^ (64 * (n + ta)) * 2 ^ (64 * (n + tb))"
    using assms(1,2) by (intro mult_strict_mono' words_val_take_less) simp_all
  also have "\<dots> \<le> 2 ^ (64 * (4 * n))" unfolding power_add [symmetric] using assms(3,4) by (intro power_increasing) simp_all
  finally have lt: "words_val (r01 @ r23) + ?k * (?a0 * ?b1 + ?a1 * ?b0) < 2 ^ (64 * (4 * n))" unfolding prod .
  have m: "int (?a0 * ?b1 + ?a1 * ?b0) = int (words_val (take (2 * n) (r01 @ r23)) + words_val (drop (2 * n) (r01 @ r23))) +
      (if ?s then - int (words_val p) else int (words_val p))"
    unfolding parts assms(11,12) using karatsuba_product [OF p] by simp
  have l: "length (r01 @ r23) = 4 * n" using assms(8,9) by simp
  from karatsuba_combine_val [OF l assms(7) m lt] show "length (karatsuba_combine n p (neg0 XOR neg1) (r01 @ r23)) = 4 * n"
    "words_val (karatsuba_combine n p (neg0 XOR neg1) (r01 @ r23)) = words_val (take (n + ta) a) * words_val (take (n + tb) b)"
    unfolding neg prod by simp_all
qed

lemma karatsuba_difference_length:
  assumes "bn_abs_sub_part_words x y c d = (t, m)" "c + nat d \<le> length x" "c + nat (- d) \<le> length y"
  shows "length t = c + nat \<bar>d\<bar>"
  using bn_abs_sub_part_words_val(1) [OF assms refl refl] .

lemma bn_mul_recursive_val:
  assumes "\<exists>k. n2 = 2 ^ k" "- 8 \<le> dna" "dna \<le> 0" "- 8 \<le> dnb" "dnb \<le> 0" "0 \<le> int n2 + dna" "0 \<le> int n2 + dnb"
    "nat (int n2 + dna) \<le> length a" "nat (int n2 + dnb) \<le> length b"
  shows "length (bn_mul_recursive a b n2 dna dnb) = 2 * n2 \<and>
    words_val (bn_mul_recursive a b n2 dna dnb) = words_val (take (nat (int n2 + dna)) a) * words_val (take (nat (int n2 + dnb)) b)"
  using assms
proof (induction n2 arbitrary: a b dna dnb rule: less_induct)
  case (less n2)
  consider "n2 = 8" "dna = 0" "dnb = 0" | "\<not> (n2 = 8 \<and> dna = 0 \<and> dnb = 0)" "n2 < 16" | "16 \<le> n2" by linarith
  then show ?case
  proof cases
    case 1
    then show ?thesis using bn_mul_comba8_prefix [of a b] less.prems by (simp add: bn_mul_recursive.simps)
  next
    case 2
    let ?z = "if dna + dnb < 0 then replicate (nat (- (dna + dnb))) 0 else [] :: BN_ULONG list"
    have z: "length ?z = nat (- (dna + dnb))" "words_val ?z = 0" by simp_all
    have "bn_mul_recursive a b n2 dna dnb = bn_mul_normal a (nat (int n2 + dna)) b (nat (int n2 + dnb)) @ ?z"
      unfolding bn_mul_recursive.simps [of a b n2] if_not_P [OF 2(1)] using 2(2) by simp
    moreover have "nat (int n2 + dna) + nat (int n2 + dnb) + nat (- (dna + dnb)) = 2 * n2" using less.prems(3,5,6,7) by linarith
    ultimately show ?thesis using bn_mul_normal_val [OF less.prems(8,9)] z by (simp only: words_val_append length_append) simp
  next
    case 3
    obtain k where k: "n2 = 2 ^ k" using less.prems(1) by blast
    with 3 have "k \<noteq> 0" by (intro notI) simp
    then have e: "n2 div 2 = 2 ^ (k - 1)" "2 * (n2 div 2) = n2" using k by (cases k; simp)+
    define n where "n = n2 div 2"
    have n: "\<exists>k. n = 2 ^ k" "n < n2" "8 \<le> n" "2 * n = n2" using e 3 by (auto simp: n_def)
    define ta where "ta = nat (int n + dna)"
    define tb where "tb = nat (int n + dnb)"
    have t: "int ta = int n + dna" "int tb = int n + dnb" using less.prems(2,4) n(3) by (simp_all add: ta_def tb_def)
    have na: "nat (int n2 + dna) = n + ta" "nat (int n2 + dnb) = n + tb" using t n(4) by linarith+
    have tn: "ta \<le> n" "tb \<le> n" using t less.prems(3,5) by linarith+
    have la: "n + ta \<le> length a" "n + tb \<le> length b" using less.prems(8,9) na by simp_all
    obtain t0 neg0 where t0: "bn_abs_sub_part_words a (drop n a) ta (int n - int ta) = (t0, neg0)" by force
    obtain t1 neg1 where t1: "bn_abs_sub_part_words (drop n b) b tb (int tb - int n) = (t1, neg1)" by force
    have lt: "length t0 = n" "length t1 = n"
      using karatsuba_difference_length [OF t0] karatsuba_difference_length [OF t1] la tn by simp_all
    define q where "q =
      (if n = 4 \<and> dna = 0 \<and> dnb = 0 then (bn_mul_comba4 t0 t1, bn_mul_comba4 a b, bn_mul_comba4 (drop n a) (drop n b))
       else if n = 8 \<and> dna = 0 \<and> dnb = 0 then (bn_mul_comba8 t0 t1, bn_mul_comba8 a b, bn_mul_comba8 (drop n a) (drop n b))
       else (bn_mul_recursive t0 t1 n 0 0, bn_mul_recursive a b n 0 0, bn_mul_recursive (drop n a) (drop n b) n dna dnb))"
    obtain p r01 r23 where q: "q = (p, r01, r23)" by (cases q) auto
    have g: "\<not> (n2 = 8 \<and> dna = 0 \<and> dnb = 0)" "\<not> n2 < 16" using 3 by simp_all
    have run: "bn_mul_recursive a b n2 dna dnb = karatsuba_combine n p (neg0 XOR neg1) (r01 @ r23)"
      unfolding bn_mul_recursive.simps [of a b n2] if_not_P [OF g(1)] if_not_P [OF g(2)] Let_def n_def [symmetric] t [symmetric] nat_int t0 t1 prod.case
        q_def [symmetric] q by simp
    have "length p = 2 * n \<and> length r01 = 2 * n \<and> length r23 = 2 * n \<and> words_val p = words_val t0 * words_val t1 \<and>
        words_val r01 = words_val (take n a) * words_val (take n b) \<and>
        words_val r23 = words_val (take ta (drop n a)) * words_val (take tb (drop n b))"
    proof (cases "n = 8 \<and> dna = 0 \<and> dnb = 0")
      case True
      then have r: "p = bn_mul_comba8 t0 t1" "r01 = bn_mul_comba8 a b" "r23 = bn_mul_comba8 (drop n a) (drop n b)" "ta = 8" "tb = 8"
        using q t by (simp_all add: q_def)
      show ?thesis
        unfolding r using bn_mul_comba8_prefix [of t0 t1] bn_mul_comba8_prefix [of a b] bn_mul_comba8_prefix [of "drop n a" "drop n b"] True lt la r(4,5)
        by simp
    next
      case False
      then have r: "p = bn_mul_recursive t0 t1 n 0 0" "r01 = bn_mul_recursive a b n 0 0" "r23 = bn_mul_recursive (drop n a) (drop n b) n dna dnb"
        using q n(3) by (simp_all add: q_def split: if_splits)
      note IH = less.IH [OF n(2,1)]
      have "length p = 2 * n \<and> words_val p = words_val t0 * words_val t1" unfolding r using IH [of 0 0 t0 t1] lt by simp
      moreover have "length r01 = 2 * n \<and> words_val r01 = words_val (take n a) * words_val (take n b)" unfolding r using IH [of 0 0 a b] la by simp
      moreover have "length r23 = 2 * n \<and> words_val r23 = words_val (take ta (drop n a)) * words_val (take tb (drop n b))"
        unfolding r using IH [of dna dnb "drop n a" "drop n b"] less.prems(2-5) la by (simp flip: t)
      ultimately show ?thesis by blast
    qed
    then show ?thesis unfolding run na using karatsuba_step [OF la tn t0 t1] n(4) by simp
  qed
qed

text \<open>The loop finds the power of two at most the larger length and at least half of it.\<close>

lemma part_split_props:
  assumes "i = 2 ^ k" "tna < i" "tnb < i" "16 \<le> max tna tnb"
  shows "\<exists>j. part_split i tna tnb = 2 ^ j" "8 \<le> part_split i tna tnb" "part_split i tna tnb \<le> max tna tnb"
    "max tna tnb < 2 * part_split i tna tnb"
proof -
  have "(\<exists>j. part_split i tna tnb = 2 ^ j) \<and> part_split i tna tnb \<le> max tna tnb \<and> max tna tnb < 2 * part_split i tna tnb"
    using assms
  proof (induction k arbitrary: i)
    case (Suc k)
    have h: "i div 2 = 2 ^ k" using Suc.prems(1) by simp
    show ?case
    proof (cases "i div 2 < tna \<or> i div 2 < tnb \<or> i div 2 = tna \<or> i div 2 = tnb")
      case True
      then have "part_split i tna tnb = 2 ^ k" using h by (subst part_split.simps) simp
      then show ?thesis using True h Suc.prems by auto
    next
      case False
      then have "part_split i tna tnb = part_split (i div 2) tna tnb" by (subst part_split.simps) simp
      then show ?thesis using Suc.IH [OF h] False Suc.prems(4) by auto
    qed
  qed simp
  then show "\<exists>j. part_split i tna tnb = 2 ^ j" "8 \<le> part_split i tna tnb" "part_split i tna tnb \<le> max tna tnb"
    "max tna tnb < 2 * part_split i tna tnb" using assms(4) by auto
qed

text \<open>Words written over zeros, with zeros after them.\<close>

lemma words_val_on_zeros:
  assumes "length ws \<le> n"
  shows "length (buf_write (replicate n 0) 0 ws) = n" "words_val (buf_write (replicate n 0) 0 ws) = words_val ws"
  using assms by (simp_all add: buf_write_def words_val_append)

lemma bn_mul_part_recursive_val:
  assumes "\<exists>k. n = 2 ^ k" "8 \<le> n" "tna < n" "tnb < n" "tna \<le> tnb + 1" "tnb \<le> tna + 1"
    "n + tna \<le> length a" "n + tnb \<le> length b"
  shows "length (bn_mul_part_recursive a b n tna tnb old) = 4 * n \<and>
    words_val (bn_mul_part_recursive a b n tna tnb old) = words_val (take (n + tna) a) * words_val (take (n + tnb) b)"
  using assms
proof (induction n arbitrary: a b tna tnb old rule: less_induct)
  case (less n)
  obtain k where k: "n = 2 ^ k" using less.prems(1) by blast
  obtain t0 neg0 where t0: "bn_abs_sub_part_words a (drop n a) tna (int n - int tna) = (t0, neg0)" by force
  obtain t1 neg1 where t1: "bn_abs_sub_part_words (drop n b) b tnb (int tnb - int n) = (t1, neg1)" by force
  have lt: "length t0 = n" "length t1 = n"
    using karatsuba_difference_length [OF t0] karatsuba_difference_length [OF t1] less.prems by simp_all
  let ?a1 = "words_val (take tna (drop n a))" and ?b1 = "words_val (take tnb (drop n b))"
  let ?hi = "let z = replicate (n * 2) 0
       in if tna < 16 \<and> tnb < 16 then buf_write z 0 (bn_mul_normal (drop n a) tna (drop n b) tnb)
          else let i = part_split n tna tnb
               in if i < tna \<or> i < tnb
                  then buf_write z 0 (bn_mul_part_recursive (drop n a) (drop n b) i (tna - i) (tnb - i) z)
                  else buf_write z 0 (bn_mul_recursive (drop n a) (drop n b) i (int tna - int i) (int tnb - int i))"
  define q where "q =
    (if n = 8
     then (bn_mul_comba8 t0 t1, bn_mul_comba8 a b, bn_mul_normal (drop n a) tna (drop n b) tnb @ replicate (n * 2 - tna - tnb) 0)
     else (bn_mul_recursive t0 t1 n 0 0, bn_mul_recursive a b n 0 0, ?hi))"
  obtain p r01 r23 where q: "q = (p, r01, r23)" by (cases q) auto
  have g: "\<not> n < 8" using less.prems(2) by simp
  have run: "bn_mul_part_recursive a b n tna tnb old = karatsuba_combine n p (neg0 XOR neg1) (r01 @ r23)"
    using q unfolding bn_mul_part_recursive.simps [of a b n] Let_def if_not_P [OF g] t0 t1 prod.case q_def by (simp only: prod.case)
  have la: "tna \<le> length (drop n a)" "tnb \<le> length (drop n b)" using less.prems(7,8) by simp_all
  note nrm = bn_mul_normal_val [OF la]
  have "length r23 = 2 * n \<and> words_val r23 = ?a1 * ?b1"
  proof (cases "n = 8")
    case True
    then have "r23 = bn_mul_normal (drop n a) tna (drop n b) tnb @ replicate (n * 2 - tna - tnb) 0" using q by (simp add: q_def)
    then show ?thesis using nrm less.prems(3,4) by (simp add: words_val_append)
  next
    case False
    then have r23: "r23 = ?hi" using q by (simp add: q_def)
    show ?thesis
    proof (cases "tna < 16 \<and> tnb < 16")
      case True
      then have "r23 = buf_write (replicate (n * 2) 0) 0 (bn_mul_normal (drop n a) tna (drop n b) tnb)" using r23 by simp
      then show ?thesis using words_val_on_zeros [of "bn_mul_normal (drop n a) tna (drop n b) tnb" "n * 2"] nrm less.prems(3,4) by simp
    next
      case big: False
      define i where "i = part_split n tna tnb"
      have "16 \<le> max tna tnb" using big by auto
      note ps = part_split_props [OF k less.prems(3,4) this, folded i_def]
      have i2: "i * 2 \<le> n" using part_split_le [of n tna tnb] unfolding i_def by linarith
      then have "i < n" using ps(2) by linarith
      show ?thesis
      proof (cases "i < tna \<or> i < tnb")
        case True
        then have r: "r23 = buf_write (replicate (n * 2) 0) 0
            (bn_mul_part_recursive (drop n a) (drop n b) i (tna - i) (tnb - i) (replicate (n * 2) 0))"
          using r23 big by (simp add: i_def Let_def)
        have d: "i \<le> tna" "i \<le> tnb" "tna - i < i" "tnb - i < i" "tna - i \<le> tnb - i + 1" "tnb - i \<le> tna - i + 1"
          using True less.prems(5,6) ps(4) by linarith+
        have "length (bn_mul_part_recursive (drop n a) (drop n b) i (tna - i) (tnb - i) (replicate (n * 2) 0)) = 4 * i \<and>
            words_val (bn_mul_part_recursive (drop n a) (drop n b) i (tna - i) (tnb - i) (replicate (n * 2) 0)) = ?a1 * ?b1"
          using less.IH [OF \<open>i < n\<close> ps(1,2) d(3-6), of "drop n a" "drop n b"] d(1,2) la by simp
        then show ?thesis
          unfolding r using words_val_on_zeros [of "bn_mul_part_recursive (drop n a) (drop n b) i (tna - i) (tnb - i) (replicate (n * 2) 0)" "n * 2"] i2
          by simp
      next
        case False
        then have r: "r23 = buf_write (replicate (n * 2) 0) 0 (bn_mul_recursive (drop n a) (drop n b) i (int tna - int i) (int tnb - int i))"
          using r23 big by (simp add: i_def Let_def)
        have d: "- 8 \<le> int tna - int i" "int tna - int i \<le> 0" "- 8 \<le> int tnb - int i" "int tnb - int i \<le> 0"
          using False less.prems(5,6) ps(3) by linarith+
        have "length (bn_mul_recursive (drop n a) (drop n b) i (int tna - int i) (int tnb - int i)) = 2 * i \<and>
            words_val (bn_mul_recursive (drop n a) (drop n b) i (int tna - int i) (int tnb - int i)) = ?a1 * ?b1"
          using bn_mul_recursive_val [OF ps(1) d, of "drop n a" "drop n b"] la by simp
        then show ?thesis
          unfolding r using words_val_on_zeros [of "bn_mul_recursive (drop n a) (drop n b) i (int tna - int i) (int tnb - int i)" "n * 2"] i2 by simp
      qed
    qed
  qed
  moreover have "length p = 2 * n \<and> words_val p = words_val t0 * words_val t1 \<and> length r01 = 2 * n \<and> words_val r01 = words_val (take n a) * words_val (take n b)"
  proof (cases "n = 8")
    case True
    then have r: "p = bn_mul_comba8 t0 t1" "r01 = bn_mul_comba8 a b" using q by (simp_all add: q_def)
    show ?thesis unfolding r using bn_mul_comba8_prefix [of t0 t1] bn_mul_comba8_prefix [of a b] True lt less.prems(7,8) by simp
  next
    case False
    then have r: "p = bn_mul_recursive t0 t1 n 0 0" "r01 = bn_mul_recursive a b n 0 0" using q by (simp_all add: q_def)
    show ?thesis
      unfolding r using bn_mul_recursive_val [OF less.prems(1), of 0 0 t0 t1] bn_mul_recursive_val [OF less.prems(1), of 0 0 a b] lt less.prems(7,8) by simp
  qed
  ultimately show ?case unfolding run using karatsuba_step [OF less.prems(7,8) _ _ t0 t1] less.prems(3,4) by simp
qed

text \<open>
  Below eight words per half the clearing of the rest counts bytes where words are meant: with halves
  of four words only the first of the eight upper words is cleared. No caller reaches this case.
\<close>

lemma bn_mul_part_recursive_small:
  assumes "length a = 4" "length b = 4" "length old = 16"
  shows "drop 9 (bn_mul_part_recursive a b 4 0 0 old) = drop 9 old"
proof -
  have "length (bn_mul_normal a 4 b 4) = 8" using bn_mul_normal_val(1) [of 4 a 4 b] assms by simp
  moreover have "bn_mul_part_recursive a b 4 0 0 old = bn_mul_normal a 4 b 4 @ clear_bytes 8 (drop 8 old)"
    using assms(3) by (simp add: bn_mul_part_recursive.simps)
  ultimately have "drop 9 (bn_mul_part_recursive a b 4 0 0 old) = drop 1 (clear_bytes 8 (drop 8 old))" by simp
  also have "\<dots> = drop 9 old" using assms(3) by (intro nth_equalityI) (simp_all add: clear_bytes_def)
  finally show ?thesis .
qed

end
