(* ===== verification/BnCmp.thy ===== *)
theory BnCmp
  imports BnProps
begin

text \<open>
  The predicates of \<^verbatim>\<open>crypto/fipsmodule/bn/cmp.c\<close> on the integers that \<open>BIGNUM\<close> objects stand for:
  equality, words, parity and powers of two.
\<close>

section \<open>Equality of numbers of different widths\<close>

lemma or_fold_zero: "fold (\<lambda>i m. m OR f i) is (m :: BN_ULONG) = 0 \<longleftrightarrow> m = 0 \<and> (\<forall>i\<in>set is. f i = 0)"
  by (induction "is" arbitrary: m) (auto simp: bit_eq_iff bit_simps)

lemma xor_zero_iff: "x XOR y = 0 \<longleftrightarrow> x = (y :: BN_ULONG)"
  by (auto simp: bit_eq_iff bit_simps)

lemma words_val_inject: "length xs = length ys \<Longrightarrow> words_val xs = words_val ys \<longleftrightarrow> xs = ys"
proof (induction xs ys rule: list_induct2)
  case (Cons x xs y ys)
  have "unat x = unat y \<and> words_val xs = words_val ys" if e: "unat x + 2 ^ 64 * words_val xs = unat y + 2 ^ 64 * words_val ys"
    using arg_cong [OF e, of "\<lambda>n. n mod 2 ^ 64"] arg_cong [OF e, of "\<lambda>n. n div 2 ^ 64"] unat_u64_less [of x] unat_u64_less [of y]
    by simp
  with Cons.IH show ?case by (auto simp: word_unat_eq_iff [of x y])
qed simp

text \<open>The words of a number, with zeros above its width.\<close>

definition bn_word :: "BIGNUM \<Rightarrow> nat \<Rightarrow> BN_ULONG" where
  "bn_word bn i = (if i < bn_width bn then bn_d bn ! i else 0)"

lemma bn_mag_words:
  assumes "bn_wf bn" "bn_width bn \<le> n"
  shows "bn_mag bn = words_val (map (bn_word bn) [0..<n])"
proof -
  have "map (bn_word bn) [0..<n] = take (bn_width bn) (bn_d bn) @ replicate (n - bn_width bn) 0"
    using assms by (intro nth_equalityI) (auto simp: bn_word_def nth_append bn_wf_def)
  then show ?thesis by (simp add: bn_mag_def words_val_append)
qed

lemma bn_mag_eq_iff:
  assumes "bn_wf a" "bn_wf b"
  shows "bn_mag a = bn_mag b \<longleftrightarrow> (\<forall>i<max (bn_width a) (bn_width b). bn_word a i = bn_word b i)"
  using bn_mag_words [OF assms(1), of "max (bn_width a) (bn_width b)"] bn_mag_words [OF assms(2), of "max (bn_width a) (bn_width b)"]
  by (auto simp: words_val_inject)

lemma BN_equal_consttime_iff:
  assumes "bn_wf a" "bn_wf b"
  shows "BN_equal_consttime a b \<longleftrightarrow> bn_neg a = bn_neg b \<and> bn_mag a = bn_mag b"
proof -
  have m: "m OR (if s then 1 else 0) = 0 \<longleftrightarrow> m = 0 \<and> \<not> s" for m :: BN_ULONG and s
    by (simp add: or_eq_0_iff)
  have "BN_equal_consttime a b \<longleftrightarrow> (\<forall>i\<in>{bn_width a..<bn_width b}. bn_d b ! i = 0) \<and> (\<forall>i\<in>{bn_width b..<bn_width a}. bn_d a ! i = 0) \<and>
      (\<forall>i<min (bn_width a) (bn_width b). bn_d a ! i = bn_d b ! i) \<and> bn_neg a = bn_neg b"
    unfolding BN_equal_consttime_def Let_def m words_or_def or_fold_zero xor_zero_iff by (auto simp: min_def)
  also have "\<dots> \<longleftrightarrow> bn_neg a = bn_neg b \<and> (\<forall>i<max (bn_width a) (bn_width b). bn_word a i = bn_word b i)"
    by (auto simp: bn_word_def less_max_iff_disj not_less)
  finally show ?thesis by (simp add: bn_mag_eq_iff [OF assms])
qed

section \<open>Words, parity and powers of two\<close>

lemma bn_mag_low:
  assumes "bn_wf bn" "bn_width bn \<noteq> 0"
  shows "bn_mag bn = unat (bn_d bn ! 0) + 2 ^ 64 * words_val (drop 1 (take (bn_width bn) (bn_d bn)))"
  using bn_mag_split [OF assms(1), of 1] assms by (cases "bn_d bn") (auto simp: bn_wf_def)

lemma BN_abs_is_word_iff:
  assumes "bn_wf bn"
  shows "BN_abs_is_word bn w \<longleftrightarrow> bn_mag bn = unat w"
proof (cases "bn_width bn = 0")
  case True
  then show ?thesis by (auto simp: BN_abs_is_word_def bn_mag_def unat_eq_zero)
next
  case False
  let ?r = "words_val (drop 1 (take (bn_width bn) (bn_d bn)))"
  have "words_or (bn_d bn) 1 (bn_width bn) = 0 \<longleftrightarrow> ?r = 0" by (rule words_or_zero [OF bn_wfD [OF assms]])
  then have "BN_abs_is_word bn w \<longleftrightarrow> bn_d bn ! 0 = w \<and> ?r = 0"
    using False by (simp add: BN_abs_is_word_def or_fold_zero words_or_def xor_zero_iff)
  also have "\<dots> \<longleftrightarrow> unat (bn_d bn ! 0) + 2 ^ 64 * ?r = unat w"
    using unat_u64_less [of w] by (cases ?r) (auto simp: word_unat_eq_iff [of "bn_d bn ! 0"])
  finally show ?thesis using bn_mag_low [OF assms False] by simp
qed

lemma BN_is_odd_iff:
  assumes "bn_wf bn"
  shows "BN_is_odd bn \<longleftrightarrow> odd (bn_mag bn)"
proof (cases "bn_width bn = 0")
  case False
  have "odd (unat w) \<longleftrightarrow> w AND 1 = 1" for w :: BN_ULONG
    using bit_unsigned_iff [of w 0, where 'a = nat] by (simp add: bit_0 and_one_eq odd_iff_mod_2_eq_one)
  then have "BN_is_odd bn \<longleftrightarrow> odd (unat (bn_d bn ! 0))" using False by (simp add: BN_is_odd_def)
  then show ?thesis using bn_mag_low [OF assms False] by simp
qed (simp add: BN_is_odd_def bn_mag_def)

text \<open>A number with one bit: clearing the lowest one leaves nothing.\<close>

lemma one_bit_iff: "0 < (n :: nat) \<Longrightarrow> n AND (n - 1) = 0 \<longleftrightarrow> (\<exists>k. n = 2 ^ k)"
proof (induction n rule: less_induct)
  case (less n)
  show ?case
  proof (cases "even n")
    case True
    then obtain m where m: "n = 2 * m" "0 < m" "m < n" using less.prems by (auto elim!: evenE)
    have "n AND (n - 1) = 2 * (m AND (m - 1))"
    proof -
      have "(n - 1) div 2 = m - 1" "n div 2 = m" using m by simp_all
      then show ?thesis using m True by (subst and_nat_unfold) simp
    qed
    moreover have "(\<exists>k. n = 2 ^ k) \<longleftrightarrow> (\<exists>k. m = 2 ^ k)"
    proof
      assume "\<exists>k. n = 2 ^ k"
      then obtain k where "n = 2 ^ k" by blast
      then have "k \<noteq> 0" using True by (intro notI) simp
      then have "m = 2 ^ (k - 1)" using \<open>n = 2 ^ k\<close> m(1) by (cases k) simp_all
      then show "\<exists>k. m = 2 ^ k" by blast
    next
      assume "\<exists>k. m = 2 ^ k"
      then show "\<exists>k. n = 2 ^ k" using m(1) by (metis power_Suc)
    qed
    ultimately show ?thesis using less.IH [OF m(3,2)] by simp
  next
    case False
    then obtain m where m: "n = 2 * m + 1" by (auto elim!: oddE)
    have "n AND (n - 1) = 2 * (m AND m)"
      unfolding m by (subst and_nat_unfold) simp
    moreover have "(\<exists>k. n = 2 ^ k) \<longleftrightarrow> m = 0"
    proof
      assume "\<exists>k. n = 2 ^ k"
      then obtain k where "n = 2 ^ k" by blast
      with False have "k = 0" by (cases k) simp_all
      with \<open>n = 2 ^ k\<close> m show "m = 0" by simp
    next
      assume "m = 0"
      then show "\<exists>k. n = 2 ^ k" using m by (intro exI [of _ 0]) simp
    qed
    ultimately show ?thesis by simp
  qed
qed

lemma pow2_parts:
  assumes "(lo :: nat) < 2 ^ k" "0 < hi"
  shows "(\<exists>j. lo + 2 ^ k * hi = 2 ^ j) \<longleftrightarrow> lo = 0 \<and> (\<exists>j. hi = 2 ^ j)"
proof
  assume "\<exists>j. lo + 2 ^ k * hi = 2 ^ j"
  then obtain j where j: "lo + 2 ^ k * hi = 2 ^ j" by blast
  have "2 ^ k * 1 \<le> 2 ^ k * hi" using assms(2) by (intro mult_le_mono2) simp
  then have "(2 :: nat) ^ k \<le> 2 ^ j" using j by linarith
  then have kj: "k \<le> j" by simp
  then have "2 ^ k dvd lo + 2 ^ k * hi" unfolding j by (rule le_imp_power_dvd)
  then have "2 ^ k dvd lo" by (simp add: dvd_add_left_iff)
  then have "lo = 0" using assms(1) by (meson dvd_imp_le gr0I not_le)
  moreover have "hi = 2 ^ (j - k)" using j \<open>lo = 0\<close> kj by (simp add: power_diff) (metis nonzero_mult_div_cancel_left power_not_zero zero_neq_numeral)
  ultimately show "lo = 0 \<and> (\<exists>j. hi = 2 ^ j)" by blast
next
  assume "lo = 0 \<and> (\<exists>j. hi = 2 ^ j)"
  then obtain j where "lo = 0" "hi = 2 ^ j" by blast
  then have "lo + 2 ^ k * hi = 2 ^ (k + j)" by (simp add: power_add)
  then show "\<exists>j. lo + 2 ^ k * hi = 2 ^ j" by blast
qed

lemma BN_is_pow2_iff:
  assumes "bn_wf bn"
  shows "BN_is_pow2 bn \<longleftrightarrow> (\<exists>k. bn_val bn = 2 ^ k)"
proof -
  let ?m = "bn_minimal_width bn"
  note w = minimal_width_le [of "bn_d bn" "bn_width bn"] minimal_width_val [OF bn_wfD [OF assms]]
    minimal_width_zero [OF bn_wfD [OF assms]] minimal_width_top [of "bn_d bn" "bn_width bn"]
  have val: "(\<exists>k. bn_val bn = 2 ^ k) \<longleftrightarrow> \<not> bn_neg bn \<and> (\<exists>k. bn_mag bn = 2 ^ k)"
  proof -
    have "- int n \<noteq> 2 ^ k" for n k
    proof -
      have "(0 :: int) < 2 ^ k" by simp
      then show ?thesis by linarith
    qed
    moreover have "int n = 2 ^ k \<longleftrightarrow> n = 2 ^ k" for n k
      using of_nat_eq_iff [of n "2 ^ k", where 'a = int] by simp
    ultimately show ?thesis by (simp add: bn_val_def)
  qed
  show ?thesis
  proof (cases "?m = 0")
    case True
    then have "bn_mag bn = 0" using w(3) by (simp add: bn_minimal_width_def bn_mag_def)
    then have "\<not> (\<exists>k. bn_mag bn = 2 ^ k)" by simp
    then show ?thesis using True val by (simp add: BN_is_pow2_def)
  next
    case False
    let ?w = "bn_d bn ! (?m - 1)" and ?lo = "words_val (take (?m - 1) (bn_d bn))"
    have nz: "0 < unat ?w" using w(4) False by (simp add: bn_minimal_width_def unat_gt_0)
    have le: "?m \<le> length (bn_d bn)" using w(1) bn_wfD [OF assms] by (simp add: bn_minimal_width_def)
    have v: "bn_mag bn = ?lo + 2 ^ (64 * (?m - 1)) * unat ?w"
      using w(2) False le take_Suc_conv_app_nth [of "?m - 1" "bn_d bn"] words_val_append [of "take (?m - 1) (bn_d bn)" "[?w]"]
      by (simp add: bn_mag_def bn_minimal_width_def min_absorb2)
    have lo: "?lo < 2 ^ (64 * (?m - 1))" using words_val_less [of "take (?m - 1) (bn_d bn)"] le by (simp add: min_absorb2)
    have "(\<exists>i<?m - 1. bn_d bn ! i \<noteq> 0) \<longleftrightarrow> ?lo \<noteq> 0"
      using nth_image [of "?m - 1" "bn_d bn"] le by (auto simp: words_val_eq_0 simp flip: nth_image)
    moreover have "?w AND (?w - 1) = 0 \<longleftrightarrow> unat ?w AND (unat ?w - 1) = 0"
    proof -
      have "unat (?w AND (?w - 1)) = unat ?w AND (unat ?w - 1)"
        using nz by (simp add: unsigned_and_eq unat_sub_if' word_le_nat_alt)
      then show ?thesis by (metis unat_eq_zero)
    qed
    ultimately have "BN_is_pow2 bn \<longleftrightarrow> \<not> bn_neg bn \<and> ?lo = 0 \<and> (\<exists>k. unat ?w = 2 ^ k)"
      using False one_bit_iff [OF nz] by (simp add: BN_is_pow2_def Let_def)
    then show ?thesis unfolding val v using pow2_parts [OF lo nz] by simp
  qed
qed

section \<open>Properties\<close>

text \<open>
  C21. The constant-time comparisons decide the order and the equality of the integers, for operands of
  any widths, leading zero words included: \<^verbatim>\<open>BN_cmp\<close> returns the sign of the difference,
  \<^verbatim>\<open>BN_equal_consttime\<close> equality, \<^verbatim>\<open>BN_is_zero\<close>, \<^verbatim>\<open>BN_is_word\<close>, \<^verbatim>\<open>BN_is_odd\<close> and \<^verbatim>\<open>BN_is_pow2\<close> test what they
  are named for, and \<^verbatim>\<open>BN_num_bits\<close> is the bit length of the magnitude.
\<close>

theorem bn_cmp_exact:
  assumes "bn_ok a" "bn_ok b"
  shows "BN_cmp (Some a) (Some b) = sgn (bn_val a - bn_val b) \<and> (BN_equal_consttime a b \<longleftrightarrow> bn_val a = bn_val b) \<and>
         (BN_is_zero a \<longleftrightarrow> bn_val a = 0) \<and> (BN_is_word a w \<longleftrightarrow> bn_val a = uint w) \<and> (BN_is_odd a \<longleftrightarrow> odd (bn_val a)) \<and>
         (BN_is_pow2 a \<longleftrightarrow> (\<exists>k. bn_val a = 2 ^ k)) \<and> (\<forall>k. BN_num_bits a \<le> k \<longleftrightarrow> \<bar>bn_val a\<bar> < 2 ^ k)"
proof -
  have wf: "bn_wf a" "bn_wf b" using assms by (simp_all add: bn_ok_def)
  have "BN_num_bits a \<le> k \<longleftrightarrow> \<bar>bn_val a\<bar> < 2 ^ k" for k
    by (simp add: BN_num_bits_eq [OF wf(1)] bit_length_le bn_val_def)
  moreover have "BN_equal_consttime a b \<longleftrightarrow> bn_val a = bn_val b"
    using assms by (auto simp: BN_equal_consttime_iff [OF wf] bn_val_def bn_ok_def)
  moreover have "BN_is_word a w \<longleftrightarrow> bn_val a = uint w"
  proof (cases "bn_neg a")
    case True
    then have "bn_val a < 0" using assms(1) by (simp add: bn_val_def bn_ok_def)
    then show ?thesis using True assms(1) uint_ge_0 [of w] by (auto simp: BN_is_word_def BN_abs_is_word_iff [OF wf(1)] bn_ok_def)
  next
    case False
    then show ?thesis
      using of_nat_eq_iff [of "bn_mag a" "unat w", where 'a = int] by (simp add: BN_is_word_def BN_abs_is_word_iff [OF wf(1)] bn_val_def)
  qed
  moreover have "BN_is_odd a \<longleftrightarrow> odd (bn_val a)"
    by (simp add: BN_is_odd_iff [OF wf(1)] bn_val_def)
  moreover have "BN_is_zero a \<longleftrightarrow> bn_val a = 0" by (simp add: BN_is_zero_iff [OF wf(1)] bn_val_def)
  ultimately show ?thesis using BN_cmp_val [OF assms] BN_is_pow2_iff [OF wf(1)] by blast
qed

theorem bn_cmp_exact_witness:
  "BN_cmp (Some BN_value_one) (Some \<lparr>bn_d = [5, 0, 0], bn_width = 3, bn_dmax = 3, bn_neg = True, bn_flags = 0\<rparr>) = 1"
proof -
  let ?b = "\<lparr>bn_d = [5, 0, 0], bn_width = 3, bn_dmax = 3, bn_neg = True, bn_flags = 0\<rparr>"
  have "bn_ok BN_value_one" "bn_ok ?b" by (simp_all add: bn_ok_def bn_wf_def bn_mag_def BN_value_one_def BN_MAX_WORDS_def)
  from bn_cmp_exact [OF this] show ?thesis by (simp add: bn_val_def bn_mag_def BN_value_one_def)
qed

end
