(* ===== verification/BnMulProps.thy ===== *)
theory BnMulProps
  imports BnKaratsuba BnCmp
begin

text \<open>
  Squares of word arrays, and the multiplication of numbers: \<^verbatim>\<open>BN_mul\<close>, \<^verbatim>\<open>BN_sqr\<close> and \<^verbatim>\<open>BN_mul_word\<close> are exact
  whichever routine they choose for the widths of their operands.
\<close>

section \<open>Squares of word arrays\<close>

text \<open>A square is the squares of the words and twice the products of different words.\<close>

fun squares :: "BN_ULONG list \<Rightarrow> nat" where
  "squares [] = 0"
| "squares (w # ws) = unat w * unat w + 2 ^ 64 * (2 ^ 64 * squares ws)"

fun cross :: "BN_ULONG list \<Rightarrow> nat" where
  "cross [] = 0"
| "cross (w # ws) = 2 ^ 64 * (unat w * words_val ws) + 2 ^ 64 * (2 ^ 64 * cross ws)"

lemma square_eq: "words_val ws * words_val ws = 2 * cross ws + squares ws"
proof (induction ws)
  case (Cons w ws)
  let ?v = "words_val ws" and ?k = "2 ^ 64 :: nat"
  have "words_val (w # ws) * words_val (w # ws) = unat w * unat w + 2 * (?k * (unat w * ?v)) + ?k * (?k * (?v * ?v))"
    by (simp add: algebra_simps)
  also have "\<dots> = 2 * cross (w # ws) + squares (w # ws)" unfolding Cons.IH by simp
  finally show ?case .
qed simp

lemma sqr_w_val: "length (sqr_w a) = 2" "words_val (sqr_w a) = unat a * unat a"
  using double_word [of "ucast a * ucast a"] by (simp_all add: sqr_w_def Let_def unat_mul_128)

lemma bn_sqr_words_eq: "n \<le> length a \<Longrightarrow> bn_sqr_words a n = concat (map sqr_w (take n a))"
proof (induction a n rule: bn_sqr_words.induct)
  case (1 a n)
  show ?case
  proof (cases "n \<ge> 4")
    case True
    with 1 have "bn_sqr_words (drop 4 a) (n - 4) = concat (map sqr_w (take (n - 4) (drop 4 a)))" by simp
    moreover have "take n a = a ! 0 # a ! 1 # a ! 2 # a ! 3 # take (n - 4) (drop 4 a)"
    proof -
      have "take n a = take 4 a @ take (n - 4) (drop 4 a)" using True by (metis le_add_diff_inverse take_add)
      moreover have "take 4 a = [a ! 0, a ! 1, a ! 2, a ! 3]" using True "1.prems" by (intro nth_equalityI) (auto simp: less_Suc_eq numeral_eq_Suc)
      ultimately show ?thesis by simp
    qed
    ultimately show ?thesis using True by (subst bn_sqr_words.simps) simp
  next
    case False
    have "map (\<lambda>i. sqr_w (a ! i)) [0..<n] = map sqr_w (take n a)" using "1.prems" by (intro nth_equalityI) simp_all
    then show ?thesis using False by (subst bn_sqr_words.simps) simp
  qed
qed

lemma bn_sqr_words_val:
  assumes "n \<le> length a"
  shows "length (bn_sqr_words a n) = 2 * n" "words_val (bn_sqr_words a n) = squares (take n a)"
proof -
  have "length (concat (map sqr_w ws)) = 2 * length ws \<and> words_val (concat (map sqr_w ws)) = squares ws" for ws
    by (induction ws) (simp_all add: words_val_append sqr_w_val)
  from this [of "take n a"] show "length (bn_sqr_words a n) = 2 * n" "words_val (bn_sqr_words a n) = squares (take n a)"
    using assms by (simp_all add: bn_sqr_words_eq)
qed

lemma sqr_row_val:
  assumes "length r = n + i" "i + 2 \<le> n" "n \<le> length a" "sqr_row a n i r = r'"
  shows "length r' = n + Suc i"
    "words_val r' = words_val r + 2 ^ (64 * (2 * i + 1)) * (unat (a ! i) * words_val (drop (Suc i) (take n a)))"
proof -
  let ?p = "2 * i + 1" and ?t = "take (n - 1 - i) (drop (i + 1) a)"
  obtain ws c where m: "bn_mul_add_words (drop ?p r) (drop (i + 1) a) (n - 1 - i) (a ! i) = (ws, c)" by force
  have r': "r' = take ?p r @ ws @ [c]" using assms(4) m by (simp add: sqr_row_def)
  have l: "length (drop ?p r) = n - 1 - i" "n - 1 - i \<le> length (drop (i + 1) a)" "?p \<le> length r" using assms(1-3) by simp_all
  have t: "?t = drop (Suc i) (take n a)" by (simp add: drop_take)
  have v: "length ws = n - 1 - i" "words_val ws + 2 ^ (64 * (n - 1 - i)) * unat c = words_val (drop ?p r) + unat (a ! i) * words_val ?t"
    using bn_mul_add_words_val [OF m l(2)] l(1) by simp_all
  show "length r' = n + Suc i" using r' v(1) l(3) assms(2) by simp
  have "words_val r' = words_val (take ?p r) + 2 ^ (64 * ?p) * (words_val ws + 2 ^ (64 * (n - 1 - i)) * unat c)"
    unfolding r' using l(3) v(1) by (simp only: words_val_append length_take min_absorb2) simp
  also have "\<dots> = words_val r + 2 ^ (64 * ?p) * (unat (a ! i) * words_val ?t)"
    unfolding v(2) using words_val_split [OF l(3)] by (simp only: distrib_left add.assoc)
  finally show "words_val r' = words_val r + 2 ^ (64 * ?p) * (unat (a ! i) * words_val (drop (Suc i) (take n a)))" unfolding t .
qed

lemma sqr_rows_val:
  assumes "1 \<le> m" "m + 1 \<le> n" "n \<le> length a" "bn_mul_words (drop 1 a) (n - 1) (a ! 0) = (ws, c)"
  shows "length (fold (sqr_row a n) [1..<m] (0 # ws @ [c])) = n + m \<and>
    words_val (fold (sqr_row a n) [1..<m] (0 # ws @ [c])) + 2 ^ (64 * (2 * m)) * cross (drop m (take n a)) = cross (take n a)"
  using assms(1,2)
proof (induction m rule: nat_induct_at_least)
  case base
  obtain w as where a: "take n a = w # as" using base assms(3) by (cases n; cases a) auto
  have w: "a ! 0 = w" "take (n - 1) (drop 1 a) = as" using a by (cases n; cases a; simp)+
  have v: "length ws = n - 1" "words_val ws + 2 ^ (64 * (n - 1)) * unat c = unat w * words_val as"
    using bn_mul_words_val [OF assms(4)] assms(3) w by simp_all
  have "words_val (ws @ [c]) = unat w * words_val as" using v by (simp add: words_val_append)
  then show ?case using a v(1) base by simp
next
  case (Suc i)
  let ?r = "fold (sqr_row a n) [1..<i] (0 # ws @ [c])"
  have IH: "length ?r = n + i" "words_val ?r + 2 ^ (64 * (2 * i)) * cross (drop i (take n a)) = cross (take n a)" using Suc by simp_all
  have run: "fold (sqr_row a n) [1..<Suc i] (0 # ws @ [c]) = sqr_row a n i ?r" using Suc.hyps by simp
  note s = sqr_row_val [OF IH(1) _ assms(3) refl]
  have "drop i (take n a) = a ! i # drop (Suc i) (take n a)" using Suc.prems assms(3) by (subst Cons_nth_drop_Suc [symmetric]) simp_all
  then have "2 ^ (64 * (2 * i)) * cross (drop i (take n a)) =
      2 ^ (64 * (2 * i + 1)) * (unat (a ! i) * words_val (drop (Suc i) (take n a))) + 2 ^ (64 * (2 * Suc i)) * cross (drop (Suc i) (take n a))"
    by (simp add: power_add distrib_left)
  then show ?case unfolding run using s Suc.prems IH(2) by simp
qed

lemma bn_sqr_normal_val:
  assumes "n \<le> length a"
  shows "length (bn_sqr_normal a n) = 2 * n" "words_val (bn_sqr_normal a n) = words_val (take n a) * words_val (take n a)"
proof -
  have "length (bn_sqr_normal a n) = 2 * n \<and> words_val (bn_sqr_normal a n) = words_val (take n a) * words_val (take n a)"
  proof (cases "n = 0")
    case False
    define r0 where "r0 = (if n > 1 then (case bn_mul_words (drop 1 a) (n - 1) (a ! 0) of (ws, c) \<Rightarrow> 0 # ws @ [c]) else [0])"
    define r where "r = fold (sqr_row a n) [1..<n - 1] r0 @ [0]"
    have r: "length r = 2 * n \<and> words_val r = cross (take n a)"
    proof (cases "n = 1")
      case True
      then have "take n a = [a ! 0]" using assms by (cases a) simp_all
      then show ?thesis using True by (simp add: r_def r0_def)
    next
      case n1: False
      obtain ws c where m: "bn_mul_words (drop 1 a) (n - 1) (a ! 0) = (ws, c)" by force
      have r0: "r0 = 0 # ws @ [c]" using n1 False m by (simp add: r0_def)
      have n: "1 \<le> n - 1" "n - 1 + 1 \<le> n" using n1 False by linarith+
      have "drop (n - 1) (take n a) = [a ! (n - 1)]" using assms False by (intro nth_equalityI) auto
      then have z: "cross (drop (n - 1) (take n a)) = 0" by simp
      show ?thesis using sqr_rows_val [OF n assms m] n unfolding r_def r0 z by (simp add: words_val_append)
    qed
    obtain d c1 where d: "bn_add_words r r (2 * n) = (d, c1)" by force
    obtain s c2 where s: "bn_add_words d (bn_sqr_words a n) (2 * n) = (s, c2)" by force
    have run: "bn_sqr_normal a n = s" 
      unfolding bn_sqr_normal_def if_not_P [OF False] Let_def r0_def [symmetric] r_def [symmetric] d prod.case s ..
    let ?v = "words_val (take n a)" and ?k = "2 ^ (64 * (2 * n)) :: nat"
    have "?v * ?v < 2 ^ (64 * n) * 2 ^ (64 * n)" using assms by (intro mult_strict_mono' words_val_take_less) simp_all
    then have lt: "2 * cross (take n a) + squares (take n a) < ?k" unfolding square_eq by (simp flip: power_add)
    have z: "x = y" if "x + ?k * unat c = y" "y < ?k" for x y and c :: BN_ULONG
      using that by (cases "unat c") simp_all
    have vd: "length d = 2 * n" "words_val d + ?k * unat c1 = 2 * cross (take n a)" using bn_add_words_val [OF d] r by simp_all
    have "words_val d = 2 * cross (take n a)" by (rule z [OF vd(2)]) (use lt in linarith)
    then have vs: "length s = 2 * n" "words_val s + ?k * unat c2 = 2 * cross (take n a) + squares (take n a)"
      using bn_add_words_val [OF s] vd(1) bn_sqr_words_val [OF assms] by simp_all
    have "words_val s = 2 * cross (take n a) + squares (take n a)" by (rule z [OF vs(2) lt])
    then show ?thesis using run vs(1) by (simp add: square_eq)
  qed (simp add: bn_sqr_normal_def)
  then show "length (bn_sqr_normal a n) = 2 * n" "words_val (bn_sqr_normal a n) = words_val (take n a) * words_val (take n a)" by simp_all
qed

lemma bn_abs_sub_words_eq: "bn_abs_sub_words a b n = fst (bn_abs_sub_part_words a b n 0)"
  by (simp add: bn_abs_sub_words_def bn_abs_sub_part_words_def bn_sub_part_words_def split_beta Let_def)

lemma bn_sqr_comba_prefix:
  "4 \<le> length a \<Longrightarrow> length (bn_sqr_comba4 a) = 8 \<and> words_val (bn_sqr_comba4 a) = words_val (take 4 a) * words_val (take 4 a)"
  "8 \<le> length a \<Longrightarrow> length (bn_sqr_comba8 a) = 16 \<and> words_val (bn_sqr_comba8 a) = words_val (take 8 a) * words_val (take 8 a)"
proof -
  have "bn_sqr_comba4 a = bn_sqr_comba4 (take 4 a)" "bn_sqr_comba8 a = bn_sqr_comba8 (take 8 a)"
    unfolding bn_sqr_comba4_def bn_sqr_comba8_def
    by (rule comba_cong; auto simp: sqr_columns4_def sqr_columns8_def sqr_add_def)+
  then show "4 \<le> length a \<Longrightarrow> length (bn_sqr_comba4 a) = 8 \<and> words_val (bn_sqr_comba4 a) = words_val (take 4 a) * words_val (take 4 a)"
    "8 \<le> length a \<Longrightarrow> length (bn_sqr_comba8 a) = 16 \<and> words_val (bn_sqr_comba8 a) = words_val (take 8 a) * words_val (take 8 a)"
    using bn_sqr_comba4_val [of "take 4 a"] bn_sqr_comba8_val [of "take 8 a"] by simp_all
qed

text \<open>The step of the recursive square is a Karatsuba step whose third product is subtracted.\<close>

lemma sqr_step:
  assumes "2 * n \<le> length a" "t0 = bn_abs_sub_words a (drop n a) n"
    "length p = 2 * n" "words_val p = words_val t0 * words_val t0"
    "length r01 = 2 * n" "words_val r01 = words_val (take n a) * words_val (take n a)"
    "length r23 = 2 * n" "words_val r23 = words_val (take n (drop n a)) * words_val (take n (drop n a))"
  shows "length (karatsuba_combine n p (- 1) (r01 @ r23)) = 4 * n"
    "words_val (karatsuba_combine n p (- 1) (r01 @ r23)) = words_val (take (2 * n) a) * words_val (take (2 * n) a)"
proof -
  let ?x = "words_val (take n a)" and ?y = "words_val (take n (drop n a))" and ?k = "2 ^ (64 * n) :: nat"
  obtain m where m: "bn_abs_sub_part_words a (drop n a) n 0 = (t0, m)"
    using assms(2) by (cases "bn_abs_sub_part_words a (drop n a) n 0") (simp add: bn_abs_sub_words_eq)
  have "int (words_val t0) = \<bar>int ?x - int ?y\<bar>" using bn_abs_sub_part_words_val(3) [OF m _ _ refl refl] assms(1) by simp
  then have p: "int (words_val p) = (int ?x - int ?y) * (int ?x - int ?y)" unfolding assms(4) by (simp add: abs_mult_self_eq)
  have parts: "take (2 * n) (r01 @ r23) = r01" "drop (2 * n) (r01 @ r23) = r23" "length (r01 @ r23) = 4 * n" using assms(5,7) by simp_all
  have mid: "int (2 * (?x * ?y)) = int (words_val (take (2 * n) (r01 @ r23)) + words_val (drop (2 * n) (r01 @ r23))) +
      (if True then - int (words_val p) else int (words_val p))"
    unfolding parts assms(6,8) p by (simp add: algebra_simps)
  have v: "words_val (take (2 * n) a) = ?x + ?k * ?y" using words_val_take_add [of n n a] assms(1) by (simp add: mult_2)
  have r: "words_val (r01 @ r23) + ?k * (2 * (?x * ?y)) = words_val (take (2 * n) a) * words_val (take (2 * n) a)"
  proof -
    have "words_val (r01 @ r23) = ?x * ?x + ?k * ?k * (?y * ?y)" using assms(5,6,8) by (simp add: words_val_append flip: power_add)
    then show ?thesis unfolding v by (simp add: algebra_simps)
  qed
  have "words_val (take (2 * n) a) * words_val (take (2 * n) a) < 2 ^ (64 * (2 * n)) * 2 ^ (64 * (2 * n))"
    using assms(1) by (intro mult_strict_mono' words_val_take_less) simp_all
  also have "\<dots> = 2 ^ (64 * (4 * n))" by (simp flip: power_add)
  finally have lt: "words_val (r01 @ r23) + ?k * (2 * (?x * ?y)) < 2 ^ (64 * (4 * n))" unfolding r .
  from karatsuba_combine_val [OF parts(3) assms(3) mid lt]
  show "length (karatsuba_combine n p (- 1) (r01 @ r23)) = 4 * n"
    "words_val (karatsuba_combine n p (- 1) (r01 @ r23)) = words_val (take (2 * n) a) * words_val (take (2 * n) a)"
    unfolding r by simp_all
qed

lemma bn_sqr_recursive_step:
  assumes "\<not> n2 < 16" "n = n2 div 2" "2 * n = n2" "n2 \<le> length a" "length (bn_sqr_recursive (bn_abs_sub_words a (drop n a) n) n) = n2"
    "length (bn_sqr_recursive a n @ bn_sqr_recursive (drop n a) n) = 2 * n2"
  shows "bn_sqr_recursive a n2 =
    karatsuba_combine n (bn_sqr_recursive (bn_abs_sub_words a (drop n a) n) n) (- 1) (bn_sqr_recursive a n @ bn_sqr_recursive (drop n a) n)"
proof -
  let ?r = "bn_sqr_recursive a n @ bn_sqr_recursive (drop n a) n" and ?p = "bn_sqr_recursive (bn_abs_sub_words a (drop n a) n) n"
  obtain t01 c where t01: "bn_add_words ?r (drop n2 ?r) n2 = (t01, c)" by force
  obtain sb bw where sb: "bn_sub_words t01 ?p n2 = (sb, bw)" by force
  obtain ad cw where ad: "bn_add_words t01 ?p n2 = (ad, cw)" by force
  have l: "length t01 = n2" using bn_add_words_val(1) [OF t01] assms(6) by simp
  have "length sb = n2" "length ad = n2" using bn_sub_words_val(1) [OF sb] bn_add_words_val(1) [OF ad] l assms(5) by simp_all
  then have sel: "bn_select_words (- 1) sb ad n2 = sb" using bn_select_words_mask [of n2 sb ad True] by simp
  have ct: "constant_time_select_w (- 1) x y = x" for x y using ct_mask by (simp add: constant_time_select_w_def)
  have g: "n2 \<noteq> 4" "n2 \<noteq> 8" using assms(1) by linarith+
  show ?thesis
    unfolding bn_sqr_recursive.simps [of a n2] if_not_P [OF g(1)] if_not_P [OF g(2)] if_not_P [OF assms(1)] assms(2) [symmetric]
      karatsuba_combine_def assms(3) Let_def t01 prod.case sb ad sel ct ..
qed

lemma bn_sqr_recursive_val:
  assumes "\<exists>k. n2 = 2 ^ k" "n2 \<le> length a"
  shows "length (bn_sqr_recursive a n2) = 2 * n2 \<and> words_val (bn_sqr_recursive a n2) = words_val (take n2 a) * words_val (take n2 a)"
  using assms
proof (induction n2 arbitrary: a rule: less_induct)
  case (less n2)
  show ?case
  proof (cases "n2 < 16")
    case True
    then show ?thesis
      using bn_sqr_comba_prefix [of a] bn_sqr_normal_val [OF less.prems(2)] less.prems(2) by (subst (1 2) bn_sqr_recursive.simps) simp
  next
    case False
    obtain k where k: "n2 = 2 ^ k" using less.prems(1) by blast
    with False have "k \<noteq> 0" by (intro notI) simp
    define n where "n = n2 div 2"
    have n: "\<exists>k. n = 2 ^ k" "n < n2" "2 * n = n2" using k \<open>k \<noteq> 0\<close> False by (cases k; auto simp: n_def)+
    define t0 where "t0 = bn_abs_sub_words a (drop n a) n"
    have "length t0 = n"
      using bn_abs_sub_part_words_val(1) [of a "drop n a" n 0 t0 "snd (bn_abs_sub_part_words a (drop n a) n 0)"] less.prems(2) n(3)
      by (simp add: t0_def bn_abs_sub_words_eq)
    note IH = less.IH [OF n(2,1)]
    have i: "length (bn_sqr_recursive t0 n) = 2 * n" "words_val (bn_sqr_recursive t0 n) = words_val t0 * words_val t0"
      "length (bn_sqr_recursive a n) = 2 * n" "words_val (bn_sqr_recursive a n) = words_val (take n a) * words_val (take n a)"
      "length (bn_sqr_recursive (drop n a) n) = 2 * n"
      "words_val (bn_sqr_recursive (drop n a) n) = words_val (take n (drop n a)) * words_val (take n (drop n a))"
      using IH [of t0] IH [of a] IH [of "drop n a"] \<open>length t0 = n\<close> less.prems(2) n(3) by simp_all
    have "2 * n \<le> length a" using n(3) less.prems(2) by simp
    note s = sqr_step [OF this t0_def i]
    have "bn_sqr_recursive a n2 = karatsuba_combine n (bn_sqr_recursive t0 n) (- 1) (bn_sqr_recursive a n @ bn_sqr_recursive (drop n a) n)"
      unfolding t0_def by (rule bn_sqr_recursive_step [OF False n_def n(3) less.prems(2)]) (use i n(3) in \<open>simp_all flip: t0_def\<close>)
    then show ?thesis using s n(3) by simp
  qed
qed

section \<open>Numbers\<close>

text \<open>Storing the words of a result in a destination that has been grown for them.\<close>

lemma store_words:
  assumes "bn_wf r" "length ws \<le> bn_dmax r" "w \<le> length ws" "words_val ws = v" "v < 2 ^ (64 * w)"
    "bn_d r' = buf_write (bn_d r) 0 ws" "bn_width r' = w" "bn_dmax r' = bn_dmax r"
  shows "bn_wf r' \<and> bn_mag r' = v"
proof -
  have l: "length (buf_write (bn_d r) 0 ws) = length (bn_d r)" using assms(1,2) by (intro length_buf_write) (simp add: bn_wf_def)
  have "take w (buf_write (bn_d r) 0 ws) = take w ws" using assms(3) by (simp add: buf_write_def)
  then show ?thesis using assms l words_val_take_exact [OF assms(3)] by (simp add: bn_wf_def bn_mag_def)
qed

lemma bn_mag_mult_less: "bn_wf a \<Longrightarrow> bn_wf b \<Longrightarrow> bn_mag a * bn_mag b < 2 ^ (64 * (bn_width a + bn_width b))"
  using mult_strict_mono' [OF bn_mag_less [of a] bn_mag_less [of b]] by (simp add: power_add distrib_left)

lemma bn_copy_val:
  assumes "bn_wf a" "bn_dest al (bn_width a) r"
  shows "\<exists>r'. BN_copy al a r = (Some (), r') \<and> bn_wf r' \<and> bn_mag r' = bn_mag a \<and> bn_neg r' = bn_neg a"
proof -
  obtain r1 where r1: "bn_wexpand al (bn_width a) r = (Some (), r1)" "bn_wf r1" "bn_width a \<le> bn_dmax r1"
    using bn_wexpand_ok [OF assms(2)] by blast
  define ws where "ws = take (bn_width a) (bn_d a)"
  let ?r = "r1\<lparr>bn_d := buf_write (bn_d r1) 0 ws, bn_width := bn_width a, bn_neg := bn_neg a\<rparr>"
  have l: "length ws = bn_width a" "words_val ws = bn_mag a" unfolding ws_def using length_bn_words [OF assms(1)] by (simp_all only: bn_mag_def)
  have "bn_wf ?r \<and> bn_mag ?r = bn_mag a" using l r1(3) bn_mag_less [OF assms(1)] by (intro store_words [OF r1(2)]) simp_all
  then show ?thesis using r1(1) by (simp add: BN_copy_def pbind_def ws_def)
qed

text \<open>The largest power of two that is at most the larger width.\<close>

lemma mul_power:
  assumes "1 \<le> m" "m \<le> BN_MAX_WORDS"
  shows "2 ^ (BN_num_bits_word (of_nat m) - 1) \<le> m" "m < 2 * 2 ^ (BN_num_bits_word (of_nat m) - 1)"
proof -
  have "unat (of_nat m :: BN_ULONG) = m" using assms(2) by (simp add: unat_of_nat BN_MAX_WORDS_def)
  then have e: "BN_num_bits_word (of_nat m) = bit_length m" by (simp add: BN_num_bits_word_eq)
  have "bit_length m \<noteq> 0" using assms(1) bit_length_le [of m 0] by simp
  then obtain k where k: "bit_length m = Suc k" by (cases "bit_length m") simp_all
  then show "2 ^ (BN_num_bits_word (of_nat m) - 1) \<le> m" "m < 2 * 2 ^ (BN_num_bits_word (of_nat m) - 1)"
    unfolding e using bit_length_le [of m k] bit_length_le [of m "Suc k"] by simp_all
qed

lemma mul_recursive_branch:
  assumes "an \<le> length a" "bn \<le> length b" "an \<ge> 16" "bn \<ge> 16" "an \<le> bn + 1" "bn \<le> an + 1" "max an bn \<le> BN_MAX_WORDS"
    "j = 2 ^ (BN_num_bits_word (of_nat (max an bn)) - 1)"
  shows "j \<le> max an bn"
    "an > j \<or> bn > j \<Longrightarrow> length (bn_mul_part_recursive a b j (an - j) (bn - j) old) = j * 4 \<and> an + bn \<le> j * 4 \<and>
       words_val (bn_mul_part_recursive a b j (an - j) (bn - j) old) = words_val (take an a) * words_val (take bn b)"
    "\<not> (an > j \<or> bn > j) \<Longrightarrow> length (bn_mul_recursive a b j (int an - int j) (int bn - int j)) = j * 2 \<and> an + bn \<le> j * 2 \<and>
       words_val (bn_mul_recursive a b j (int an - int j) (int bn - int j)) = words_val (take an a) * words_val (take bn b)"
proof -
  have j: "j \<le> max an bn" "max an bn < 2 * j" "\<exists>k. j = 2 ^ k" using mul_power [of "max an bn"] assms(3,7,8) by auto
  show "j \<le> max an bn" by (rule j(1))
  show "length (bn_mul_part_recursive a b j (an - j) (bn - j) old) = j * 4 \<and> an + bn \<le> j * 4 \<and>
       words_val (bn_mul_part_recursive a b j (an - j) (bn - j) old) = words_val (take an a) * words_val (take bn b)"
    if "an > j \<or> bn > j"
  proof -
    have d: "j \<le> an" "j \<le> bn" "an - j < j" "bn - j < j" "an - j \<le> bn - j + 1" "bn - j \<le> an - j + 1" "8 \<le> j"
      using that j(2) assms(3-6) by linarith+
    have e: "j + (an - j) = an" "j + (bn - j) = bn" using d(1,2) by simp_all
    show ?thesis using bn_mul_part_recursive_val [OF j(3) d(7,3-6), of a b old, unfolded e, OF assms(1,2)] d by simp
  qed
  show "length (bn_mul_recursive a b j (int an - int j) (int bn - int j)) = j * 2 \<and> an + bn \<le> j * 2 \<and>
       words_val (bn_mul_recursive a b j (int an - int j) (int bn - int j)) = words_val (take an a) * words_val (take bn b)"
    if "\<not> (an > j \<or> bn > j)"
  proof -
    have d: "- 8 \<le> int an - int j" "int an - int j \<le> 0" "- 8 \<le> int bn - int j" "int bn - int j \<le> 0"
      using that j(1) assms(5,6) by linarith+
    show ?thesis using bn_mul_recursive_val [OF j(3) d, of a b] assms(1,2) that by simp
  qed
qed

lemma mul_into_val:
  assumes "bn_wf a" "bn_wf b" "bn_dest al (4 * max (bn_width a) (bn_width b)) rr" "bn_dest al (8 * max (bn_width a) (bn_width b)) t"
  shows "\<exists>r'. mul_into al a b (Some t) rr = (Some (), r') \<and> bn_wf r' \<and> bn_mag r' = bn_mag a * bn_mag b \<and>
    bn_neg r' = (bn_neg a \<noteq> bn_neg b) \<and> bn_width r' = bn_width a + bn_width b"
proof -
  let ?an = "bn_width a" and ?bn = "bn_width b" and ?s = "bn_neg a \<noteq> bn_neg b"
  let ?rr = "rr\<lparr>bn_neg := ?s\<rparr>" and ?v = "bn_mag a * bn_mag b"
  note lt = bn_mag_mult_less [OF assms(1,2)]
  note la = bn_wfD [OF assms(1)] bn_wfD [OF assms(2)]
  have grow: "\<exists>r1. bn_wexpand al n ?rr = (Some (), r1) \<and> bn_wf r1 \<and> n \<le> bn_dmax r1 \<and> bn_neg r1 = ?s" if "n \<le> 4 * max ?an ?bn" for n
    using bn_wexpand_ok [of al n ?rr] bn_dest_mono [OF assms(3) that] by auto
  consider "?an = ?bn \<and> ?an = 8"
    | "\<not> (?an = ?bn \<and> ?an = 8)" "?an \<ge> 16 \<and> ?bn \<ge> 16 \<and> ?an \<le> ?bn + 1 \<and> ?bn \<le> ?an + 1"
    | "\<not> (?an = ?bn \<and> ?an = 8)" "\<not> (?an \<ge> 16 \<and> ?bn \<ge> 16 \<and> ?an \<le> ?bn + 1 \<and> ?bn \<le> ?an + 1)" by blast
  then show ?thesis
  proof cases
    case 1
    then obtain r1 where r1: "bn_wexpand al 16 ?rr = (Some (), r1)" "bn_wf r1" "16 \<le> bn_dmax r1" "bn_neg r1 = ?s" using grow [of 16] by auto
    have w8: "?an = 8" "?bn = 8" using 1 by auto
    have c: "length (bn_mul_comba8 (bn_d a) (bn_d b)) = 16" "words_val (bn_mul_comba8 (bn_d a) (bn_d b)) = ?v"
      using bn_mul_comba8_prefix [of "bn_d a" "bn_d b"] la w8 by (simp_all add: bn_mag_def)
    let ?r = "r1\<lparr>bn_width := 16, bn_d := buf_write (bn_d r1) 0 (bn_mul_comba8 (bn_d a) (bn_d b))\<rparr>"
    have "bn_wf ?r \<and> bn_mag ?r = ?v" using c r1(3) lt w8 by (intro store_words [OF r1(2)]) simp_all
    moreover have "mul_into al a b (Some t) rr = (Some (), ?r)"
      unfolding mul_into_def Let_def if_P [OF 1] by (simp only: pbind_def r1(1) prod.case option.case)
    ultimately show ?thesis using r1(4) w8 by simp
  next
    case 2
    let ?m = "if ?an \<ge> ?bn then ?an else ?bn"
    have m: "?m = max ?an ?bn" by (simp add: max_def)
    define j :: nat where "j = 2 ^ (BN_num_bits_word (of_nat ?m) - 1)"
    have "max ?an ?bn \<le> BN_MAX_WORDS" using assms(1,2) by (simp add: bn_wf_def)
    note mx = this
    have c: "?an \<ge> 16" "?bn \<ge> 16" "?an \<le> ?bn + 1" "?bn \<le> ?an + 1" using 2(2) by simp_all
    note br = mul_recursive_branch [OF la c mx j_def [unfolded m]]
    obtain t1 where t1: "bn_wexpand al (j * 8) t = (Some (), t1)"
      using bn_wexpand_ok [OF bn_dest_mono [OF assms(4)], of "j * 8"] br(1) by auto
    obtain t2 where t2: "bn_wexpand al (j * 4) t = (Some (), t2)"
      using bn_wexpand_ok [OF bn_dest_mono [OF assms(4)], of "j * 4"] br(1) by auto
    show ?thesis
    proof (cases "?an > j \<or> ?bn > j")
      case True
      obtain r1 where r1: "bn_wexpand al (j * 4) ?rr = (Some (), r1)" "bn_wf r1" "j * 4 \<le> bn_dmax r1" "bn_neg r1 = ?s"
        using grow [of "j * 4"] br(1) by auto
      let ?w = "bn_mul_part_recursive (bn_d a) (bn_d b) j (?an - j) (?bn - j) (bn_d r1)"
      let ?r = "r1\<lparr>bn_d := buf_write (bn_d r1) 0 ?w, bn_width := ?an + ?bn\<rparr>"
      have "bn_wf ?r \<and> bn_mag ?r = ?v" using br(2) [OF True, of "bn_d r1"] r1(3) lt by (intro store_words [OF r1(2)]) (simp_all add: bn_mag_def)
      moreover have "mul_into al a b (Some t) rr = (Some (), ?r)"
        unfolding mul_into_def Let_def if_not_P [OF 2(1)] if_P [OF 2(2)] j_def [symmetric] option.case if_P [OF True] t1 prod.case
        by (simp only: pbind_def r1(1) prod.case option.case)
      ultimately show ?thesis using r1(4) by simp
    next
      case False
      obtain r1 where r1: "bn_wexpand al (j * 2) ?rr = (Some (), r1)" "bn_wf r1" "j * 2 \<le> bn_dmax r1" "bn_neg r1 = ?s"
        using grow [of "j * 2"] br(1) by auto
      let ?w = "bn_mul_recursive (bn_d a) (bn_d b) j (int ?an - int j) (int ?bn - int j)"
      let ?r = "r1\<lparr>bn_d := buf_write (bn_d r1) 0 ?w, bn_width := ?an + ?bn\<rparr>"
      have "bn_wf ?r \<and> bn_mag ?r = ?v" using br(3) [OF False] r1(3) lt by (intro store_words [OF r1(2)]) (simp_all add: bn_mag_def)
      moreover have "mul_into al a b (Some t) rr = (Some (), ?r)"
        unfolding mul_into_def Let_def if_not_P [OF 2(1)] if_P [OF 2(2)] j_def [symmetric] option.case if_not_P [OF False] t2 prod.case
        by (simp only: pbind_def r1(1) prod.case option.case)
      ultimately show ?thesis using r1(4) by simp
    qed
  next
    case 3
    have le: "?an + ?bn \<le> 4 * max ?an ?bn" by linarith
    obtain r1 where r1: "bn_wexpand al (?an + ?bn) ?rr = (Some (), r1)" "bn_wf r1" "?an + ?bn \<le> bn_dmax r1" "bn_neg r1 = ?s"
      using grow [OF le] by blast
    let ?w = "bn_mul_normal (bn_d a) ?an (bn_d b) ?bn"
    let ?r = "r1\<lparr>bn_width := ?an + ?bn, bn_d := buf_write (bn_d r1) 0 ?w\<rparr>"
    have "bn_wf ?r \<and> bn_mag ?r = ?v" using bn_mul_normal_val [OF la] r1(3) lt by (intro store_words [OF r1(2)]) (simp_all add: bn_mag_def)
    moreover have "mul_into al a b (Some t) rr = (Some (), ?r)"
      unfolding mul_into_def Let_def if_not_P [OF 3(1)] if_not_P [OF 3(2)] by (simp only: pbind_def r1(1) prod.case option.case)
    ultimately show ?thesis using r1(4) by simp
  qed
qed

text \<open>Every way to give the destination: another object, or one of the operands with a temporary.\<close>

lemma bn_mul_impl_val:
  assumes "bn_wf a" "bn_wf b" "bn_dest al (4 * max (bn_width a) (bn_width b)) r" "bn_dest al (4 * max (bn_width a) (bn_width b)) tmp"
    "bn_dest al (8 * max (bn_width a) (bn_width b)) t"
  shows "\<exists>r'. bn_mul_impl al a b same (Some tmp) (Some t) r = (Some (), r') \<and> bn_wf r' \<and> bn_mag r' = bn_mag a * bn_mag b \<and>
    (bn_mag a * bn_mag b \<noteq> 0 \<longrightarrow> bn_neg r' = (bn_neg a \<noteq> bn_neg b))"
proof (cases "bn_width a = 0 \<or> bn_width b = 0")
  case True
  then have z: "bn_mag a * bn_mag b = 0" by (auto simp: bn_mag_def)
  moreover have "bn_wf (BN_zero r)" "bn_mag (BN_zero r) = 0" using assms(3) by (simp_all add: bn_dest_def bn_wf_def BN_zero_def bn_mag_def)
  ultimately show ?thesis using True by (simp add: bn_mul_impl_def)
next
  case False
  show ?thesis
  proof (cases same)
    case True
    obtain r1 where r1: "mul_into al a b (Some t) tmp = (Some (), r1)" "bn_wf r1" "bn_mag r1 = bn_mag a * bn_mag b"
      "bn_neg r1 = (bn_neg a \<noteq> bn_neg b)" "bn_width r1 = bn_width a + bn_width b"
      using mul_into_val [OF assms(1,2,4,5)] by blast
    have "bn_width r1 \<le> 4 * max (bn_width a) (bn_width b)" using r1(5) by simp
    from bn_copy_val [OF r1(2) bn_dest_mono [OF assms(3) this]] show ?thesis
      using True False r1 by (auto simp: bn_mul_impl_def)
  next
    case False': False
    show ?thesis using mul_into_val [OF assms(1-3,5)] False False' by (auto simp: bn_mul_impl_def)
  qed
qed

lemma bn_result_minimal:
  assumes "bn_wf r" "bn_mag r = v" "v \<noteq> 0 \<longrightarrow> bn_neg r = s"
  shows "bn_result (bn_set_minimal_width r) (if s then - int v else int v)"
  using bn_set_minimal_width_ok [OF assms(1)] assms(2,3) by (auto simp: bn_result_def bn_val_def)

lemma BN_mul_ok:
  assumes "bn_wf a" "bn_wf b" "bn_dest al (4 * max (bn_width a) (bn_width b)) r" "bn_dest al (4 * max (bn_width a) (bn_width b)) tmp"
    "bn_dest al (8 * max (bn_width a) (bn_width b)) t"
  shows "\<exists>r'. BN_mul al a b same (Some tmp) (Some t) r = (Some (), r') \<and> bn_result r' (bn_val a * bn_val b)"
proof -
  obtain r' where r': "bn_mul_impl al a b same (Some tmp) (Some t) r = (Some (), r')" "bn_wf r'" "bn_mag r' = bn_mag a * bn_mag b"
    "bn_mag a * bn_mag b \<noteq> 0 \<longrightarrow> bn_neg r' = (bn_neg a \<noteq> bn_neg b)" using bn_mul_impl_val [OF assms] by blast
  have "bn_val a * bn_val b = (if bn_neg a \<noteq> bn_neg b then - int (bn_mag a * bn_mag b) else int (bn_mag a * bn_mag b))"
    by (auto simp: bn_val_def)
  then show ?thesis using bn_result_minimal [OF r'(2-4)] r'(1) by (simp add: BN_mul_def pbind_def)
qed

lemma sqr_into_val:
  assumes "bn_wf a" "bn_dest al (2 * bn_width a) rr" "bn_dest al (4 * bn_width a) tmp"
  shows "\<exists>r'. sqr_into al a tmp rr = (Some (), r') \<and> bn_wf r' \<and> bn_mag r' = bn_mag a * bn_mag a \<and> \<not> bn_neg r' \<and> bn_width r' = 2 * bn_width a"
proof -
  let ?n = "bn_width a"
  obtain r1 where r1: "bn_wexpand al (2 * ?n) rr = (Some (), r1)" "bn_wf r1" "2 * ?n \<le> bn_dmax r1" using bn_wexpand_ok [OF assms(2)] by blast
  obtain t1 where t1: "bn_wexpand al (?n * 4) tmp = (Some (), t1)" using bn_wexpand_ok [OF assms(3)] by (auto simp: mult.commute)
  obtain t2 where t2: "bn_wexpand al (2 * ?n) tmp = (Some (), t2)" using bn_wexpand_ok [OF bn_dest_mono [OF assms(3)], of "2 * ?n"] by auto
  define store where "store ws = (Some (), r1\<lparr>bn_d := buf_write (bn_d r1) 0 ws, bn_neg := False, bn_width := 2 * ?n\<rparr>)" for ws
  note la = bn_wfD [OF assms(1)]
  have "bn_mag a * bn_mag a < 2 ^ (64 * (2 * ?n))" using bn_mag_mult_less [OF assms(1,1)] by (simp add: mult_2)
  then have st: "\<exists>r'. store ws = (Some (), r') \<and> bn_wf r' \<and> bn_mag r' = bn_mag a * bn_mag a \<and> \<not> bn_neg r' \<and> bn_width r' = 2 * ?n"
    if "length ws = 2 * ?n \<and> words_val ws = words_val (take ?n (bn_d a)) * words_val (take ?n (bn_d a))" for ws
    unfolding store_def
    using store_words [OF r1(2), of ws "2 * ?n" "bn_mag a * bn_mag a" "r1\<lparr>bn_d := buf_write (bn_d r1) 0 ws, bn_neg := False, bn_width := 2 * ?n\<rparr>"]
      that r1(3) by (simp add: bn_mag_def)
  define ws where "ws =
    (if ?n = 4 then bn_sqr_comba4 (bn_d a) else if ?n = 8 then bn_sqr_comba8 (bn_d a)
     else if ?n < 16 then bn_sqr_normal (bn_d a) ?n
     else if ?n \<noteq> 0 \<and> ?n AND (?n - 1) = 0 then bn_sqr_recursive (bn_d a) ?n else bn_sqr_normal (bn_d a) ?n)"
  have run: "sqr_into al a tmp rr = store ws"
    unfolding sqr_into_def Let_def pbind_def r1(1) prod.case option.case t1 t2 store_def [symmetric] ws_def by (simp only: if_distrib [of store])
  have "length ws = 2 * ?n \<and> words_val ws = words_val (take ?n (bn_d a)) * words_val (take ?n (bn_d a))"
  proof -
    consider "?n = 4" | "?n = 8" | "?n \<noteq> 4" "?n \<noteq> 8" "\<not> ?n < 16" "?n \<noteq> 0 \<and> ?n AND (?n - 1) = 0"
      | "?n \<noteq> 4" "?n \<noteq> 8" "?n < 16 \<or> \<not> (?n \<noteq> 0 \<and> ?n AND (?n - 1) = 0)" by blast
    then show ?thesis
    proof cases
      case 1
      then show ?thesis using bn_sqr_comba_prefix(1) [of "bn_d a"] la by (simp add: ws_def)
    next
      case 2
      then show ?thesis using bn_sqr_comba_prefix(2) [of "bn_d a"] la by (simp add: ws_def)
    next
      case 3
      then have "\<exists>k. ?n = 2 ^ k" using one_bit_iff [of ?n] by simp
      then show ?thesis using bn_sqr_recursive_val [OF _ la] 3 by (simp add: ws_def)
    next
      case 4
      then have "ws = bn_sqr_normal (bn_d a) ?n" by (auto simp: ws_def)
      then show ?thesis using bn_sqr_normal_val [OF la] by simp
    qed
  qed
  from st [OF this] show ?thesis unfolding run .
qed

lemma BN_sqr_ok:
  assumes "bn_wf a" "bn_dest al (2 * bn_width a) r" "bn_dest al (2 * bn_width a) rr" "bn_dest al (4 * bn_width a) tmp"
  shows "\<exists>r'. BN_sqr al a same (Some rr) (Some tmp) r = (Some (), r') \<and> bn_result r' (bn_val a * bn_val a)"
proof -
  have v: "bn_val a * bn_val a = (if False then - int (bn_mag a * bn_mag a) else int (bn_mag a * bn_mag a))" by (simp add: bn_val_def)
  have "\<exists>r'. bn_sqr_consttime al a same (Some rr) (Some tmp) r = (Some (), r') \<and> bn_wf r' \<and> bn_mag r' = bn_mag a * bn_mag a \<and> \<not> bn_neg r'"
  proof (cases "bn_width a = 0")
    case True
    then show ?thesis using assms(2) by (simp add: bn_sqr_consttime_def bn_dest_def bn_wf_def bn_mag_def)
  next
    case False
    show ?thesis
    proof (cases same)
      case True
      obtain r1 where r1: "sqr_into al a tmp rr = (Some (), r1)" "bn_wf r1" "bn_mag r1 = bn_mag a * bn_mag a" "\<not> bn_neg r1" "bn_width r1 = 2 * bn_width a"
        using sqr_into_val [OF assms(1,3,4)] by blast
      from bn_copy_val [OF r1(2), of al r] show ?thesis using True False r1 assms(2) by (auto simp: bn_sqr_consttime_def)
    next
      case other: False
      show ?thesis using sqr_into_val [OF assms(1,2,4)] False other by (auto simp: bn_sqr_consttime_def)
    qed
  qed
  then show ?thesis unfolding v using bn_result_minimal by (fastforce simp: BN_sqr_def pbind_def)
qed

lemma BN_mul_word_ok:
  assumes "bn_ok a" "bn_dest al (bn_width a + 1) a"
  shows "\<exists>a'. BN_mul_word al w a = (Some (), a') \<and> bn_ok a' \<and> bn_val a' = bn_val a * uint w"
proof (cases "bn_width a = 0 \<or> w = 0")
  case True
  show ?thesis
  proof (cases "bn_width a = 0")
    case True
    then have "bn_val a = 0" by (simp add: bn_val_def bn_mag_def)
    then show ?thesis using True assms(1) by (simp add: BN_mul_word_def)
  next
    case False
    with True have "w = 0" by simp
    moreover have "bn_ok (BN_zero a)" "bn_val (BN_zero a) = 0" using assms(1) by (simp_all add: BN_zero_def bn_ok_def bn_wf_def bn_mag_def bn_val_def)
    ultimately show ?thesis using False by (simp add: BN_mul_word_def)
  qed
next
  case False
  have wf: "bn_wf a" using assms(1) by (simp add: bn_ok_def)
  obtain ws ll where m: "bn_mul_words (bn_d a) (bn_width a) w = (ws, ll)" by force
  have v: "length ws = bn_width a" "words_val ws + 2 ^ (64 * bn_width a) * unat ll = unat w * bn_mag a"
    using bn_mul_words_val [OF m bn_wfD [OF wf]] by (simp_all add: bn_mag_def)
  let ?a = "a\<lparr>bn_d := buf_write (bn_d a) 0 ws\<rparr>"
  have d: "length (buf_write (bn_d a) 0 ws) = length (bn_d a)" "take (bn_width a) (buf_write (bn_d a) 0 ws) = ws"
    using take_buf_write_exact [of 0 "bn_d a" ws] v(1) wf by (simp_all add: bn_wf_def)
  have res: "bn_ok r \<and> bn_val r = bn_val a * uint w" if "bn_wf r" "bn_mag r = unat w * bn_mag a" "bn_neg r = bn_neg a" for r
    using that assms(1) False by (auto simp: bn_ok_def bn_val_def unat_eq_zero)
  show ?thesis
  proof (cases "ll = 0")
    case True
    have "bn_wf ?a" "bn_mag ?a = unat w * bn_mag a" using d v True wf by (simp_all add: bn_wf_def bn_mag_def)
    with res [of ?a] show ?thesis using False True m by (simp add: BN_mul_word_def)
  next
    case nz: False
    have "bn_dest al (bn_width a + 1) ?a" using assms(2) d(1) by (simp add: bn_dest_def bn_wf_def)
    then obtain r1 where r1: "bn_wexpand al (bn_width a + 1) ?a = (Some (), r1)" "bn_wf r1" "bn_width a + 1 \<le> bn_dmax r1"
      "bn_width r1 = bn_width a" "bn_neg r1 = bn_neg a" "take (bn_width a) (bn_d r1) = ws"
      using bn_wexpand_ok [of al "bn_width a + 1" ?a] d(2) by auto
    let ?r = "r1\<lparr>bn_d := (bn_d r1)[bn_width r1 := ll], bn_width := bn_width r1 + 1\<rparr>"
    have "take (Suc (bn_width a)) ((bn_d r1)[bn_width a := ll]) = ws @ [ll]"
      using r1(2,3,6) by (simp add: take_Suc_conv_app_nth bn_wf_def)
    then have "bn_wf ?r" "bn_mag ?r = unat w * bn_mag a" using r1 v by (simp_all add: bn_wf_def bn_mag_def words_val_append)
    with res [of ?r] show ?thesis using False nz m r1(1,4,5) by (simp add: BN_mul_word_def pbind_def)
  qed
qed

section \<open>Properties\<close>

text \<open>
  C15. Multiplication is exact. For well-formed numbers of any widths and signs, with memory for the
  destination and the temporaries, \<^verbatim>\<open>BN_mul\<close> stores the product of the integers and \<^verbatim>\<open>BN_sqr\<close> the square, in the
  fewest words and without a negative zero, whether the destination is one of the operands or not and
  whichever routine the widths select: comba, schoolbook rows, Karatsuba on powers of two or on unequal
  parts. \<^verbatim>\<open>BN_mul_word\<close> multiplies in place.
\<close>

theorem bn_mul_exact:
  assumes "bn_ok a" "bn_ok b" "bn_dest al (4 * max (bn_width a) (bn_width b)) r" "bn_dest al (4 * max (bn_width a) (bn_width b)) tmp"
    "bn_dest al (8 * max (bn_width a) (bn_width b)) t" "bn_dest al (bn_width a + 1) a"
  shows "(\<exists>r'. BN_mul al a b same (Some tmp) (Some t) r = (Some (), r') \<and> bn_ok r' \<and> bn_minimal r' \<and> bn_val r' = bn_val a * bn_val b) \<and>
         (\<exists>r'. BN_sqr al a same (Some tmp) (Some t) r = (Some (), r') \<and> bn_ok r' \<and> bn_minimal r' \<and> bn_val r' = bn_val a * bn_val a) \<and>
         (\<exists>a'. BN_mul_word al w a = (Some (), a') \<and> bn_ok a' \<and> bn_val a' = bn_val a * uint w)"
proof -
  have wf: "bn_wf a" "bn_wf b" using assms(1,2) by (simp_all add: bn_ok_def)
  have "2 * bn_width a \<le> 4 * max (bn_width a) (bn_width b)" "4 * bn_width a \<le> 8 * max (bn_width a) (bn_width b)" by simp_all
  note d = bn_dest_mono [OF assms(3) this(1)] bn_dest_mono [OF assms(4) this(1)] bn_dest_mono [OF assms(5) this(2)]
  show ?thesis
    using BN_mul_ok [OF wf assms(3-5), of same] BN_sqr_ok [OF wf(1) d, of same] BN_mul_word_ok [OF assms(1,6), of w]
    unfolding bn_result_def by blast
qed

theorem bn_mul_exact_witness:
  "\<exists>r. BN_mul (\<lambda>_. Some (\<lambda>_. 0)) \<lparr>bn_d = replicate 19 0 @ [3], bn_width = 20, bn_dmax = 20, bn_neg = True, bn_flags = 0\<rparr>
        \<lparr>bn_d = replicate 19 0 @ [5], bn_width = 20, bn_dmax = 20, bn_neg = False, bn_flags = 0\<rparr>
        False (Some BN_init) (Some BN_init) BN_init = (Some (), r) \<and>
     bn_ok r \<and> bn_minimal r \<and> bn_val r = (- (3 * 2 ^ 1216)) * (5 * 2 ^ 1216)"
proof -
  let ?a = "\<lparr>bn_d = replicate 19 0 @ [3], bn_width = 20, bn_dmax = 20, bn_neg = True, bn_flags = 0\<rparr> :: BIGNUM"
  let ?b = "\<lparr>bn_d = replicate 19 0 @ [5], bn_width = 20, bn_dmax = 20, bn_neg = False, bn_flags = 0\<rparr> :: BIGNUM"
  have m: "bn_mag ?a = 3 * 2 ^ 1216" "bn_mag ?b = 5 * 2 ^ 1216" by (simp_all add: bn_mag_def words_val_append)
  have ok: "bn_ok ?a" "bn_ok ?b" unfolding bn_ok_def m by (simp_all add: bn_wf_def BN_MAX_WORDS_def)
  have d: "bn_dest (\<lambda>_. Some (\<lambda>_. 0)) (4 * max (bn_width ?a) (bn_width ?b)) BN_init"
    "bn_dest (\<lambda>_. Some (\<lambda>_. 0)) (4 * max (bn_width ?a) (bn_width ?b)) BN_init"
    "bn_dest (\<lambda>_. Some (\<lambda>_. 0)) (8 * max (bn_width ?a) (bn_width ?b)) BN_init" "bn_dest (\<lambda>_. Some (\<lambda>_. 0)) (bn_width ?a + 1) ?a"
    by (simp_all add: bn_dest_def bn_wf_def BN_MAX_WORDS_def BN_init_def)
  have v: "bn_val ?a = - (3 * 2 ^ 1216)" "bn_val ?b = 5 * 2 ^ 1216" unfolding bn_val_def m by simp_all
  from bn_mul_exact [OF ok d, of False, THEN conjunct1, unfolded v] show ?thesis .
qed

end
