(* ===== verification/BnDiv.thy ===== *)
theory BnDiv
  imports BnShift BnMulProps
begin

text \<open>
  Long division, \<^verbatim>\<open>crypto/fipsmodule/bn/div.c\<close>, in the build that divides double words (\<^verbatim>\<open>BN_CAN_DIVIDE_ULLONG\<close>).
  \<open>ctx k\<close> is what the \<open>k\<close>-th call of \<^verbatim>\<open>BN_CTX_get\<close> in the function returns.
\<close>

section \<open>The code\<close>

definition bn_div_rem_words :: "BN_ULONG \<Rightarrow> BN_ULONG \<Rightarrow> BN_ULONG \<Rightarrow> BN_ULONG \<times> BN_ULONG" where
  "bn_div_rem_words n0 n1 d0 =
     (let n = (push_bit 64 (ucast n0) OR ucast n1 :: 128 word); q = ucast (n div ucast d0)
      in (q, n1 - q * d0))"

text \<open>The correction of the quotient word by the next word of the divisor. The loop ends when \<open>rm\<close> overflows.\<close>

partial_function (option) div_correct :: "BN_ULONG \<Rightarrow> BN_ULONG \<Rightarrow> BN_ULONG \<Rightarrow> BN_ULONG \<Rightarrow> BN_ULONG \<Rightarrow> 128 word \<Rightarrow> BN_ULONG option" where
  "div_correct d0 d1 n2 q rm t2 =
     (if t2 \<le> push_bit 64 (ucast rm) OR ucast n2 then Some q
      else let q = q - 1; rm = rm + d0
           in if rm < d0 then Some q else div_correct d0 d1 n2 q rm (t2 - ucast d1))"

definition div_word :: "BN_ULONG \<Rightarrow> BN_ULONG \<Rightarrow> BN_ULONG \<Rightarrow> BN_ULONG \<Rightarrow> BN_ULONG \<Rightarrow> BN_ULONG option" where
  "div_word d0 d1 n0 n1 n2 =
     (if n0 = d0 then Some 0xffffffffffffffff
      else let (q, rm) = bn_div_rem_words n0 n1 d0 in div_correct d0 d1 n2 q rm (ucast d1 * ucast q))"

text \<open>One iteration: the window of \<open>div_n + 1\<close> words of \<open>s\<close> at \<open>pos\<close> is reduced and the quotient word returned.\<close>

definition div_step :: "BN_ULONG list \<Rightarrow> nat \<Rightarrow> BN_ULONG \<Rightarrow> BN_ULONG \<Rightarrow> nat \<Rightarrow> BN_ULONG list \<Rightarrow> (BN_ULONG \<times> BN_ULONG list) option" where
  "div_step d div_n d0 d1 pos s =
     (case div_word d0 d1 (s ! (pos + div_n)) (s ! (pos + div_n - 1)) (s ! (pos + div_n - 2)) of
        None \<Rightarrow> None
      | Some q \<Rightarrow>
          let (t, l0) = bn_mul_words d div_n q; t = t @ [l0];
              (w, borrow) = bn_sub_words (drop pos s) t (div_n + 1); s = buf_write s pos w
          in if borrow \<noteq> 0
             then let q = q - 1; (w, c) = bn_add_words (drop pos s) d div_n; s = buf_write s pos w;
                      s = (if c \<noteq> 0 then s[pos + div_n := s ! (pos + div_n) + 1] else s)
                  in Some (q, s)
             else Some (q, s))"

primrec div_loop :: "BN_ULONG list \<Rightarrow> nat \<Rightarrow> BN_ULONG \<Rightarrow> BN_ULONG \<Rightarrow> nat \<Rightarrow> BN_ULONG list \<Rightarrow> BN_ULONG list \<Rightarrow> (BN_ULONG list \<times> BN_ULONG list) option" where
  "div_loop d div_n d0 d1 0 s r = Some (s, r)"
| "div_loop d div_n d0 d1 (Suc p) s r =
     (case div_step d div_n d0 d1 (Suc p) s of
        None \<Rightarrow> None
      | Some (q, s) \<Rightarrow> div_loop d div_n d0 d1 p s (r[p := q]))"

text \<open>Padding of the numerator so that it has at least two words more than the divisor and a zero on top.\<close>

definition div_pad :: "allocator \<Rightarrow> nat \<Rightarrow> (BIGNUM, unit) op" where
  "div_pad al dw snum =
     (if bn_width snum \<le> dw + 1
      then pbind (bn_wexpand al (dw + 2)) (\<lambda>_ s.
             (Some (), s\<lparr>bn_d := buf_write (bn_d s) (bn_width s) (replicate (dw + 2 - bn_width s) 0), bn_width := dw + 2\<rparr>)) snum
      else pbind (bn_wexpand al (bn_width snum + 1)) (\<lambda>_ s.
             (Some (), s\<lparr>bn_d := (bn_d s)[bn_width s := 0], bn_width := bn_width s + 1\<rparr>)) snum)"

text \<open>The numbers are normalised; the outcome is the padded numerator, the divisor and the shift.\<close>

definition div_normalise :: "allocator \<Rightarrow> BIGNUM \<Rightarrow> BIGNUM \<Rightarrow> BIGNUM \<Rightarrow> BIGNUM \<Rightarrow> (BIGNUM \<times> BIGNUM \<times> int) option" where
  "div_normalise al numerator divisor snum sdiv =
     (let norm_shift = 64 - int (BN_num_bits divisor mod 64)
      in case BN_lshift al divisor norm_shift sdiv of
           (None, _) \<Rightarrow> None
         | (Some _, sdiv) \<Rightarrow>
             let sdiv = (bn_set_minimal_width sdiv)\<lparr>bn_neg := False\<rparr>; norm_shift = norm_shift + 64
             in case BN_lshift al numerator norm_shift snum of
                  (None, _) \<Rightarrow> None
                | (Some _, snum) \<Rightarrow>
                    let snum = (bn_set_minimal_width snum)\<lparr>bn_neg := False\<rparr>
                    in case div_pad al (bn_width sdiv) snum of
                         (None, _) \<Rightarrow> None
                       | (Some _, snum) \<Rightarrow> Some (snum, sdiv, norm_shift))"

text \<open>
  \<open>None\<close> for \<open>quot\<close> or \<open>rem\<close> is a NULL pointer. The result is the success and the two destinations.
  The outer \<open>None\<close> would be a loop that does not end.
\<close>

definition BN_div :: "allocator \<Rightarrow> (nat \<Rightarrow> BIGNUM option) \<Rightarrow> BIGNUM \<Rightarrow> BIGNUM \<Rightarrow> BIGNUM option \<Rightarrow> BIGNUM option \<Rightarrow>
    (unit option \<times> BIGNUM option \<times> BIGNUM option) option" where
  "BN_div al ctx numerator divisor quot rem =
     (let nw = bn_minimal_width numerator; dw = bn_minimal_width divisor
      in if (nw > 0 \<and> bn_d numerator ! (nw - 1) = 0) \<or> (dw > 0 \<and> bn_d divisor ! (dw - 1) = 0) then Some (None, quot, rem)
         else if BN_is_zero divisor then Some (None, quot, rem)
         else case (ctx 0, ctx 1, ctx 2, (case quot of None \<Rightarrow> ctx 3 | Some q \<Rightarrow> Some q)) of
           (Some tmp, Some snum, Some sdiv, Some res) \<Rightarrow>
             (case div_normalise al numerator divisor snum sdiv of
                None \<Rightarrow> Some (None, quot, rem)
              | Some (snum, sdiv, norm_shift) \<Rightarrow>
                  let div_n = bn_width sdiv; num_n = bn_width snum; loop = num_n - div_n;
                      d0 = bn_d sdiv ! (div_n - 1); d1 = (if div_n = 1 then 0 else bn_d sdiv ! (div_n - 2));
                      res = res\<lparr>bn_neg := (bn_neg numerator \<noteq> bn_neg divisor)\<rparr>;
                      put = (\<lambda>res. case quot of None \<Rightarrow> None | Some _ \<Rightarrow> Some res)
                  in case bn_wexpand al (loop + 1) res of
                       (None, res) \<Rightarrow> Some (None, put res, rem)
                     | (Some _, res) \<Rightarrow>
                         let res = res\<lparr>bn_width := loop - 1\<rparr>
                         in case bn_wexpand al (div_n + 1) tmp of
                              (None, _) \<Rightarrow> Some (None, put res, rem)
                            | (Some _, _) \<Rightarrow>
                                let res = (if bn_width res = 0 then res\<lparr>bn_neg := False\<rparr> else res)
                                in case div_loop (bn_d sdiv) div_n d0 d1 (loop - 1) (bn_d snum) (bn_d res) of
                                     None \<Rightarrow> None
                                   | Some (s, r) \<Rightarrow>
                                       let snum = bn_set_minimal_width (snum\<lparr>bn_d := s\<rparr>); res = res\<lparr>bn_d := r\<rparr>
                                       in case rem of
                                            None \<Rightarrow> Some (Some (), put (bn_set_minimal_width res), None)
                                          | Some rm \<Rightarrow>
                                              (case BN_rshift al snum norm_shift rm of
                                                 (None, rm) \<Rightarrow> Some (None, put res, Some rm)
                                               | (Some _, rm) \<Rightarrow>
                                                   let rm = (if \<not> BN_is_zero rm then rm\<lparr>bn_neg := bn_neg numerator\<rparr> else rm)
                                                   in Some (Some (), put (bn_set_minimal_width res), Some rm)))
         | _ \<Rightarrow> Some (None, quot, rem))"

section \<open>Arithmetic of the quotient word\<close>

text \<open>
  With \<open>b\<close> the base, \<open>w\<close> a window, \<open>d\<close> the divisor, and \<open>w3\<close> and \<open>d2\<close> their leading three and two
  words, the quotient of the leading words is at most one too large.
\<close>

lemma leading_quotient:
  fixes b w d w3 d2 k :: nat
  assumes "w = w3 * k + wl" "wl < k" "d = d2 * k + dl" "dl < k" "b * k \<le> d" "w3 div d2 \<le> b" "0 < d2" "0 < k"
  shows "w div d \<le> w3 div d2" "w3 div d2 \<le> w div d + 1"
proof -
  have d: "0 < d" using assms by simp
  have "w div d * d2 * k \<le> w div d * d" using assms(3) by (simp add: algebra_simps)
  also have "\<dots> \<le> w" by simp
  also have "\<dots> < (w3 + 1) * k" using assms(1,2) by simp
  finally have "w div d * d2 < w3 + 1" using mult_less_cancel2 by blast
  then show "w div d \<le> w3 div d2" using assms(7) by (simp add: less_eq_div_iff_mult_less_eq)
  show "w3 div d2 \<le> w div d + 1"
  proof (cases "w3 div d2")
    case (Suc q)
    have "Suc q * d = Suc q * d2 * k + Suc q * dl" unfolding assms(3) by (simp add: algebra_simps)
    also have "\<dots> \<le> w3 * k + b * k"
    proof (rule add_mono)
      have "Suc q * d2 \<le> w3" unfolding Suc [symmetric] by simp
      then show "Suc q * d2 * k \<le> w3 * k" by (rule mult_le_mono1)
      show "Suc q * dl \<le> b * k" using assms(4,6) Suc by (intro mult_le_mono) simp_all
    qed
    also have "\<dots> \<le> w + d" using assms(1,5) by simp
    finally have "q * d \<le> w" by simp
    then have "q \<le> w div d" using d by (simp add: less_eq_div_iff_mult_less_eq)
    then show ?thesis using Suc by simp
  qed simp
qed

text \<open>When the leading words agree the largest word is at most one too large.\<close>

lemma leading_equal:
  fixes b w d d0 k :: nat
  assumes "w < d * b" "d0 * b * k \<le> w" "d < (d0 + 1) * k" "b \<le> 2 * d0" "0 < k"
  shows "w div d \<le> b - 1" "b - 1 \<le> w div d + 1"
proof -
  have d: "0 < d" using assms(1) by (cases d) simp_all
  have lt: "w div d < b" using assms(1) by (simp add: less_mult_imp_div_less mult.commute)
  then show "w div d \<le> b - 1" by simp
  show "b - 1 \<le> w div d + 1"
  proof (rule ccontr)
    assume "\<not> b - 1 \<le> w div d + 1"
    then have "(Suc (w div d) + 2) * d \<le> b * d" by (intro mult_le_mono1) simp
    moreover have "(Suc (w div d) + 2) * d = Suc (w div d) * d + 2 * d" by (rule distrib_right)
    moreover have "w < Suc (w div d) * d" using dividend_less_div_times [OF d, of w] by simp
    ultimately have "w + 2 * d < b * d" by linarith
    moreover have "b * d \<le> d0 * b * k + 2 * d"
    proof (cases "2 \<le> b")
      case True
      have "(b - 2) * d \<le> (b - 2) * ((d0 + 1) * k)" using assms(3) by (intro mult_le_mono2) simp
      also have "\<dots> \<le> d0 * b * k"
      proof -
        have "(b - 2) * (d0 + 1) \<le> d0 * b" using True assms(4) by (simp add: algebra_simps diff_mult_distrib)
        then show ?thesis by (metis mult.assoc mult_le_mono1)
      qed
      finally show ?thesis using True by (simp add: diff_mult_distrib)
    qed (simp add: not_le less_2_cases_iff; auto)
    ultimately show False using assms(2) by linarith
  qed
qed

section \<open>The quotient word\<close>

lemma make_double: "unat (push_bit 64 (ucast (h :: BN_ULONG)) OR ucast (l :: BN_ULONG) :: 128 word) = 2 ^ 64 * unat h + unat l"
proof -
  let ?x = "push_bit 64 (ucast h) OR ucast l :: 128 word"
  have "ucast ?x = l" by (intro bit_word_eqI) (simp add: bit_simps)
  moreover have "ucast (drop_bit 64 ?x) = h" by (intro bit_word_eqI) (auto simp: bit_simps dest: bit_imp_le_length)
  ultimately show ?thesis using double_word [of ?x] by simp
qed

lemma bn_div_rem_words_val:
  assumes "bn_div_rem_words n0 n1 d0 = (q, r)" "unat n0 < unat d0"
  shows "unat q = (2 ^ 64 * unat n0 + unat n1) div unat d0" "unat r = (2 ^ 64 * unat n0 + unat n1) mod unat d0"
proof -
  let ?n = "2 ^ 64 * unat n0 + unat n1" and ?d = "unat d0"
  have "2 ^ 64 * (unat n0 + 1) \<le> 2 ^ 64 * ?d" using assms(2) by (intro mult_le_mono2) simp
  then have "?n < 2 ^ 64 * ?d" using unat_u64_less [of n1] by simp
  then have lt: "?n div ?d < 2 ^ 64" by (simp add: less_mult_imp_div_less)
  have q: "q = ucast ((push_bit 64 (ucast n0) OR ucast n1 :: 128 word) div ucast d0)" "r = n1 - q * d0"
    using assms(1) by (auto simp: bn_div_rem_words_def Let_def)
  have "unat ((push_bit 64 (ucast n0) OR ucast n1 :: 128 word) div ucast d0) = ?n div ?d"
    by (simp only: unat_div_distrib make_double unat_ucast_128)
  then show uq: "unat q = ?n div ?d" unfolding q(1) using lt by (simp add: unsigned_ucast_eq take_bit_eq_mod)
  have "int (unat r) = (int (unat n1) - int (unat q) * int ?d) mod 2 ^ 64"
    unfolding q(2) by (simp add: uint_word_ariths mod_simps)
  also have "int (unat n1) - int (unat q) * int ?d = int (?n mod ?d) - 2 ^ 64 * int (unat n0)"
  proof -
    have "int (?n div ?d * ?d + ?n mod ?d) = int ?n" by simp
    then show ?thesis unfolding uq by (simp only: of_nat_add of_nat_mult of_nat_power of_nat_numeral)
  qed
  also have "\<dots> mod 2 ^ 64 = int (?n mod ?d) mod 2 ^ 64" by (simp add: mod_diff_right_eq [symmetric])
  also have "\<dots> = int (?n mod ?d)"
  proof -
    have "?n mod ?d < ?d" using assms(2) by simp
    then have "?n mod ?d < 2 ^ 64" using unat_u64_less [of d0] by simp
    then show ?thesis by simp
  qed
  finally show "unat r = ?n mod ?d" unfolding of_nat_eq_iff .
qed

lemma div_correct_val:
  assumes "0 < unat d0" "unat q * unat d0 + unat rm = nn" "unat t2 = unat d1 * unat q"
    "w3 = nn * 2 ^ 64 + unat n2" "d2 = unat d0 * 2 ^ 64 + unat d1" "w3 div d2 \<le> unat q"
  shows "\<exists>q'. div_correct d0 d1 n2 q rm t2 = Some q' \<and> unat q' = w3 div d2"
  using assms(2,3,6)
proof (induction "2 ^ 64 - unat rm" arbitrary: q rm t2 rule: less_induct)
  case less
  have d2: "0 < d2" using assms(1,5) by simp
  have e: "unat q * d2 + 2 ^ 64 * unat rm + unat n2 = w3 + unat t2"
    unfolding assms(4,5) less.prems(1) [symmetric] less.prems(2) by (simp add: algebra_simps)
  have test: "t2 \<le> push_bit 64 (ucast rm) OR ucast n2 \<longleftrightarrow> unat q * d2 \<le> w3"
    unfolding word_le_nat_alt make_double using e by (intro iffI; linarith)
  show ?case
  proof (cases "unat q * d2 \<le> w3")
    case True
    then have "unat q = w3 div d2" using less.prems(3) d2 by (simp add: less_eq_div_iff_mult_less_eq order_antisym)
    then show ?thesis using True test by (subst div_correct.simps) simp
  next
    case False
    then have gt: "w3 div d2 < unat q" using d2 by (simp add: div_less_iff_less_mult)
    then have q1: "unat (q - 1) = unat q - 1" by (simp add: unat_sub_wrap word_le_nat_alt)
    then have uq: "unat q = unat (q - 1) + 1" using gt by simp
    show ?thesis
    proof (cases "rm + d0 < d0")
      case True
      then have ov: "2 ^ 64 \<le> unat rm + unat d0" using word_sum_carry [of rm d0] by simp
      have "unat (q - 1) * unat d1 \<le> 2 ^ 64 * 2 ^ 64" using unat_u64_less [of "q - 1"] unat_u64_less [of d1] by (intro mult_le_mono) simp_all
      also have "\<dots> \<le> (unat rm + unat d0) * 2 ^ 64" using ov by (rule mult_le_mono1)
      finally have "unat (q - 1) * d2 \<le> w3"
        unfolding assms(4,5) less.prems(1) [symmetric] uq by (simp add: algebra_simps)
      then have "unat (q - 1) = w3 div d2" using gt uq d2 by (simp add: less_eq_div_iff_mult_less_eq order_antisym)
      then show ?thesis using False True test by (subst div_correct.simps) simp
    next
      case no: False
      then have rm: "unat (rm + d0) = unat rm + unat d0" using word_sum_carry [of rm d0] by simp
      have "unat (ucast d1 :: 128 word) \<le> unat t2" unfolding less.prems(2) unat_ucast_128 uq by simp
      then have t: "unat (t2 - ucast d1) = unat t2 - unat d1" by (simp add: unat_sub word_le_nat_alt unat_ucast_128)
      have "\<exists>q'. div_correct d0 d1 n2 (q - 1) (rm + d0) (t2 - ucast d1) = Some q' \<and> unat q' = w3 div d2"
      proof (rule less.hyps)
        show "2 ^ 64 - unat (rm + d0) < 2 ^ 64 - unat rm" using rm assms(1) unat_u64_less [of "rm + d0"] by simp
        show "unat (q - 1) * unat d0 + unat (rm + d0) = nn" using less.prems(1) unfolding rm uq by simp
        show "unat (t2 - ucast d1) = unat d1 * unat (q - 1)" unfolding t less.prems(2) uq by simp
        show "w3 div d2 \<le> unat (q - 1)" using gt uq by simp
      qed
      then show ?thesis using False no test by (subst div_correct.simps) simp
    qed
  qed
qed

lemma div_word_val:
  assumes "0 < unat d0" "unat n0 < unat d0"
  shows "\<exists>q. div_word d0 d1 n0 n1 n2 = Some q \<and>
    unat q = ((2 ^ 64 * unat n0 + unat n1) * 2 ^ 64 + unat n2) div (unat d0 * 2 ^ 64 + unat d1)"
proof -
  let ?nn = "2 ^ 64 * unat n0 + unat n1"
  obtain q rm where q: "bn_div_rem_words n0 n1 d0 = (q, rm)" by force
  note v = bn_div_rem_words_val [OF q assms(2)]
  have "(?nn * 2 ^ 64 + unat n2) div (unat d0 * 2 ^ 64 + unat d1) \<le> (?nn * 2 ^ 64 + unat n2) div (unat d0 * 2 ^ 64)"
    using assms(1) by (intro div_le_mono2) simp_all
  also have "\<dots> = ?nn div unat d0"
  proof -
    have "(?nn * 2 ^ 64 + unat n2) div 2 ^ 64 = ?nn" using unat_u64_less [of n2] by simp
    then show ?thesis by (simp add: mult.commute [of "unat d0"] div_mult2_eq)
  qed
  finally have "(?nn * 2 ^ 64 + unat n2) div (unat d0 * 2 ^ 64 + unat d1) \<le> unat q" using v(1) by simp
  moreover have "unat q * unat d0 + unat rm = ?nn" unfolding v by (rule div_mult_mod_eq)
  ultimately have "\<exists>q'. div_correct d0 d1 n2 q rm (ucast d1 * ucast q) = Some q' \<and> unat q' = (?nn * 2 ^ 64 + unat n2) div (unat d0 * 2 ^ 64 + unat d1)"
    by (intro div_correct_val [OF assms(1)]) (simp_all only: unat_mul_128)
  then show ?thesis using assms(2) q by (auto simp: div_word_def)
qed

section \<open>One step\<close>

text \<open>What the lemmas of a step share: a normalised divisor of \<open>n\<close> words with its leading words.\<close>

definition div_divisor :: "BN_ULONG list \<Rightarrow> nat \<Rightarrow> BN_ULONG \<Rightarrow> BN_ULONG \<Rightarrow> bool" where
  "div_divisor d n d0 d1 \<longleftrightarrow> 1 \<le> n \<and> n \<le> length d \<and> d0 = d ! (n - 1) \<and> d1 = (if n = 1 then 0 else d ! (n - 2)) \<and> 2 ^ 63 \<le> unat d0"

lemma words_val_top: "0 < n \<Longrightarrow> n \<le> length ws \<Longrightarrow> words_val (take n ws) = words_val (take (n - 1) ws) + 2 ^ (64 * (n - 1)) * unat (ws ! (n - 1))"
  using take_Suc_conv_app_nth [of "n - 1" ws] by (simp add: words_val_append min_absorb2)

text \<open>The estimated word is the quotient of the window or one more.\<close>

lemma div_word_estimate:
  assumes dd: "div_divisor d n d0 d1" and l: "n + 1 \<le> length w" and lt: "words_val (take (n + 1) w) < words_val (take n d) * 2 ^ 64"
    and n2: "2 \<le> n \<Longrightarrow> n2 = w ! (n - 2)"
  shows "\<exists>q. div_word d0 d1 (w ! n) (w ! (n - 1)) n2 = Some q \<and>
    words_val (take (n + 1) w) div words_val (take n d) \<le> unat q \<and> unat q \<le> words_val (take (n + 1) w) div words_val (take n d) + 1"
proof -
  let ?w = "words_val (take (n + 1) w)" and ?d = "words_val (take n d)" and ?k = "2 ^ (64 * (n - 1)) :: nat"
  have n: "1 \<le> n" "n \<le> length d" "2 ^ 63 \<le> unat d0" "d0 = d ! (n - 1)" using dd unfolding div_divisor_def by blast+
  have D: "?d = words_val (take (n - 1) d) + ?k * unat d0" using words_val_top [of n d] n by simp
  have dl: "words_val (take (n - 1) d) < ?k" using n by (intro words_val_take_less) simp
  have W: "?w = words_val (take (n - 1) w) + ?k * unat (w ! (n - 1)) + ?k * 2 ^ 64 * unat (w ! n)"
  proof -
    have "(2 :: nat) ^ (64 * n) = ?k * 2 ^ 64" using n(1) by (cases n) (simp_all add: power_add)
    then show ?thesis using words_val_top [of "n + 1" w] words_val_top [of n w] n l by simp
  qed
  have wl: "words_val (take (n - 1) w) < ?k" using l by (intro words_val_take_less) simp
  have "?k * 2 ^ 64 * unat (w ! n) < ?k * 2 ^ 64 * (unat d0 + 1)"
  proof -
    have "?k * 2 ^ 64 * unat (w ! n) \<le> ?w" unfolding W by simp
    also have "\<dots> < ?d * 2 ^ 64" by (rule lt)
    also have "\<dots> < (?k + ?k * unat d0) * 2 ^ 64" using dl by (intro mult_strict_right_mono) (simp_all add: D)
    finally show ?thesis by (simp add: algebra_simps)
  qed
  then have "unat (w ! n) < unat d0 + 1" unfolding mult_less_cancel1 by blast
  then have le: "unat (w ! n) \<le> unat d0" by simp
  show ?thesis
  proof (cases "w ! n = d0")
    case True
    have "unat d0 * 2 ^ 64 * ?k \<le> ?w" unfolding W True by simp
    moreover have "?d < (unat d0 + 1) * ?k" unfolding D using dl by (simp add: algebra_simps)
    moreover have "2 ^ 64 \<le> 2 * unat d0" using n(3) by simp
    ultimately have "?w div ?d \<le> 2 ^ 64 - 1" "2 ^ 64 - 1 \<le> ?w div ?d + 1" using leading_equal [OF lt] by simp_all
    then show ?thesis using True by (simp add: div_word_def)
  next
    case False
    then have lt0: "unat (w ! n) < unat d0" using le by (metis le_neq_implies_less word_unat_eq_iff)
    let ?nn = "2 ^ 64 * unat (w ! n) + unat (w ! (n - 1))"
    obtain q where q: "div_word d0 d1 (w ! n) (w ! (n - 1)) n2 = Some q" "unat q = (?nn * 2 ^ 64 + unat n2) div (unat d0 * 2 ^ 64 + unat d1)"
      using div_word_val [of d0 "w ! n" d1 "w ! (n - 1)" n2] n(3) lt0 by auto
    have "?w div ?d \<le> unat q \<and> unat q \<le> ?w div ?d + 1"
    proof (cases "n = 1")
      case True
      then have "d1 = 0" using dd by (simp add: div_divisor_def)
      have "(?nn * 2 ^ 64 + unat n2) div 2 ^ 64 = ?nn" using unat_u64_less [of n2] by simp
      then have "unat q = ?nn div unat d0" using q(2) \<open>d1 = 0\<close> by (simp add: mult.commute [of "unat d0"] div_mult2_eq)
      moreover have "?w = ?nn" "?d = unat d0" using W D True by simp_all
      ultimately show ?thesis by simp
    next
      case big: False
      let ?m = "2 ^ (64 * (n - 2)) :: nat"
      have k: "?k = ?m * 2 ^ 64" using big n(1) by (cases n; cases "n - 1") (simp_all add: power_add)
      have s: "n - 1 - 1 = n - 2" by simp
      have d1: "d1 = d ! (n - 2)" "n2 = w ! (n - 2)" using dd big n2 n(1) by (simp_all add: div_divisor_def)
      have w2: "?w = (?nn * 2 ^ 64 + unat n2) * ?m + words_val (take (n - 2) w)"
        using W words_val_top [of "n - 1" w] big n(1) l unfolding k d1 s by (simp add: algebra_simps)
      have d2: "?d = (unat d0 * 2 ^ 64 + unat d1) * ?m + words_val (take (n - 2) d)"
        using D words_val_top [of "n - 1" d] big n(1,2) unfolding k d1 s by (simp add: algebra_simps)
      have "?nn * 2 ^ 64 + unat n2 < (unat d0 * 2 ^ 64 + unat d1) * 2 ^ 64"
      proof -
        have "2 ^ 64 * (unat (w ! n) + 1) \<le> 2 ^ 64 * unat d0" using lt0 by (intro mult_le_mono2) simp
        then have "?nn + 1 \<le> 2 ^ 64 * unat d0" using unat_u64_less [of "w ! (n - 1)"] by simp
        then have "(?nn + 1) * 2 ^ 64 \<le> 2 ^ 64 * unat d0 * 2 ^ 64" by (rule mult_le_mono1)
        then show ?thesis using unat_u64_less [of n2] by (simp add: algebra_simps)
      qed
      then have "(?nn * 2 ^ 64 + unat n2) div (unat d0 * 2 ^ 64 + unat d1) \<le> 2 ^ 64" by (simp add: less_imp_le less_mult_imp_div_less mult.commute)
      moreover have "2 ^ 64 * ?m \<le> ?d"
        unfolding d2 by (rule trans_le_add1 [OF mult_le_mono1]) (use n(3) in simp)
      moreover have "words_val (take (n - 2) w) < ?m" "words_val (take (n - 2) d) < ?m" using l n(2) by (intro words_val_take_less; simp)+
      ultimately show ?thesis unfolding q(2) using leading_quotient [OF w2 _ d2, of "2 ^ 64"] n(3) by simp
    qed
    then show ?thesis using q(1) by blast
  qed
qed

text \<open>Overwriting a window: only its words change.\<close>

lemma window_write:
  assumes "pos + length w \<le> length s" "s' = buf_write s pos w"
  shows "length s' = length s" "take pos s' = take pos s" "take (length w) (drop pos s') = w" "drop (pos + length w) s' = drop (pos + length w) s"
  unfolding assms(2) using assms(1) by (simp_all add: buf_write_def)

text \<open>Adding the divisor back to a negative difference, modulo the size of the window.\<close>

lemma add_back:
  assumes "pos + n + 1 \<le> length s" "n \<le> length d" "bn_add_words (drop pos s) d n = (w, c)"
    "s' = (let t = buf_write s pos w in if c \<noteq> 0 then t[pos + n := t ! (pos + n) + 1] else t)"
  shows "length s' = length s" "take pos s' = take pos s" "drop (pos + n + 1) s' = drop (pos + n + 1) s"
    "words_val (take (n + 1) (drop pos s')) = (words_val (take (n + 1) (drop pos s)) + words_val (take n d)) mod 2 ^ (64 * (n + 1))"
proof -
  have v: "length w = n" "unat c \<le> 1" "words_val w + 2 ^ (64 * n) * unat c = words_val (take n (drop pos s)) + words_val (take n d)"
    using bn_add_words_val [OF assms(3)] assms(1,2) by simp_all
  define t where "t = buf_write s pos w"
  have ww: "length t = length s" "take pos t = take pos s" "take n (drop pos t) = w" "drop (pos + n) t = drop (pos + n) s"
    using window_write [of pos w s t] v(1) assms(1) by (simp_all add: t_def)
  have top: "t ! (pos + n) = s ! (pos + n)" using arg_cong [OF ww(4), of hd] assms(1) ww(1) by (simp add: hd_drop_conv_nth)
  have s': "s' = t[pos + n := s ! (pos + n) + c]"
  proof (cases "c = 0")
    case True
    then show ?thesis using assms(4) top ww(1) assms(1) by (simp add: t_def [symmetric] Let_def) (metis list_update_id)
  next
    case False
    then have "c = 1" using v(2) by (metis One_nat_def le_SucE le_zero_eq unat_1 unat_eq_zero word_unat_eq_iff)
    then show ?thesis using assms(4) top by (simp add: t_def [symmetric] Let_def)
  qed
  show "length s' = length s" "take pos s' = take pos s" using s' ww by simp_all
  have "drop 1 (drop (pos + n) t) = drop 1 (drop (pos + n) s)" unfolding ww(4) ..
  then show "drop (pos + n + 1) s' = drop (pos + n + 1) s" unfolding s' by (simp add: ac_simps)
  have "take (n + 1) (drop pos s') = w @ [s ! (pos + n) + c]"
  proof -
    have "drop pos s' = (drop pos t)[n := s ! (pos + n) + c]" unfolding s' using assms(1) ww(1) by (simp add: drop_update_swap)
    moreover have "n < length (drop pos t)" using assms(1) ww(1) by simp
    ultimately show ?thesis using ww(3) by (simp add: take_Suc_conv_app_nth)
  qed
  moreover have "unat (s ! (pos + n) + c) = (unat (s ! (pos + n)) + unat c) mod 2 ^ 64" by (simp add: unat_word_ariths)
  ultimately have "words_val (take (n + 1) (drop pos s')) = words_val w + 2 ^ (64 * n) * ((unat (s ! (pos + n)) + unat c) mod 2 ^ 64)"
    using v(1) by (simp add: words_val_append)
  also have "\<dots> = (words_val w + 2 ^ (64 * n) * (unat (s ! (pos + n)) + unat c)) mod (2 ^ (64 * n) * 2 ^ 64)"
    using words_val_less [of w] v(1) by (intro mod_low_part [symmetric]) simp
  also have "words_val w + 2 ^ (64 * n) * (unat (s ! (pos + n)) + unat c) = words_val (take (n + 1) (drop pos s)) + words_val (take n d)"
    using v(3) words_val_top [of "n + 1" "drop pos s"] assms(1) by (simp add: distrib_left)
  also have "(2 :: nat) ^ (64 * n) * 2 ^ 64 = 2 ^ (64 * (n + 1))" by (simp add: power_add)
  finally show "words_val (take (n + 1) (drop pos s')) = (words_val (take (n + 1) (drop pos s)) + words_val (take n d)) mod 2 ^ (64 * (n + 1))" .
qed

lemma div_step_val:
  assumes dd: "div_divisor d n d0 d1" and l: "pos + n + 1 \<le> length s" and pos: "1 \<le> pos"
    and w: "w = words_val (take (n + 1) (drop pos s))" and D: "D = words_val (take n d)" and lt: "w < D * 2 ^ 64"
  shows "\<exists>q s'. div_step d n d0 d1 pos s = Some (q, s') \<and> unat q = w div D \<and> length s' = length s \<and> take pos s' = take pos s \<and>
    drop (pos + n + 1) s' = drop (pos + n + 1) s \<and> words_val (take (n + 1) (drop pos s')) = w mod D"
proof -
  have n: "1 \<le> n" "n \<le> length d" using dd by (simp_all add: div_divisor_def)
  let ?k = "2 ^ (64 * (n + 1)) :: nat"
  have i: "drop pos s ! n = s ! (pos + n)" "drop pos s ! (n - 1) = s ! (pos + n - 1)" using l n(1) by simp_all
  have i2: "2 \<le> n \<Longrightarrow> s ! (pos + n - 2) = drop pos s ! (n - 2)" using l by simp
  have "n + 1 \<le> length (drop pos s)" using l by simp
  from div_word_estimate [OF dd this lt [unfolded w D] i2, unfolded i, folded w D]
  obtain q where q: "div_word d0 d1 (s ! (pos + n)) (s ! (pos + n - 1)) (s ! (pos + n - 2)) = Some q" "w div D \<le> unat q" "unat q \<le> w div D + 1"
    by blast
  have Dk: "D < 2 ^ (64 * n)" "w < ?k" unfolding D w using n(2) l by (intro words_val_take_less; simp)+
  have D0: "0 < D" using lt by (cases D) simp_all
  obtain t l0 where t: "bn_mul_words d n q = (t, l0)" by force
  have vt: "length (t @ [l0]) = n + 1" "words_val (t @ [l0]) = unat q * D"
    using bn_mul_words_val [OF t n(2)] by (simp_all add: words_val_append D)
  obtain x b where x: "bn_sub_words (drop pos s) (t @ [l0]) (n + 1) = (x, b)" by force
  have vx: "length x = n + 1" "unat b \<le> 1" "words_val x + unat q * D = w + ?k * unat b"
    using bn_sub_words_val [OF x] vt l by (simp_all add: w)
  have xk: "words_val x < ?k" "unat q * D < ?k" using words_val_less [of x] words_val_less [of "t @ [l0]"] vx(1) vt by simp_all
  note bo = borrow_iff [OF vx(3) xk(1) Dk(2) xk(2) vx(2)]
  define s1 where "s1 = buf_write s pos x"
  have s1: "length s1 = length s" "take pos s1 = take pos s" "take (n + 1) (drop pos s1) = x" "drop (pos + n + 1) s1 = drop (pos + n + 1) s"
    using window_write [of pos x s s1] vx(1) l by (simp_all add: s1_def ac_simps)
  have wm: "w = w div D * D + w mod D" "w mod D < D" using D0 by simp_all
  show ?thesis
  proof (cases "b = 0")
    case True
    then have "\<not> w < unat q * D" using bo(1) by (auto split: if_splits)
    then have "unat q \<le> w div D" using D0 by (simp add: less_eq_div_iff_mult_less_eq)
    then have uq: "unat q = w div D" using q(2) by simp
    moreover have "words_val x = w mod D" using vx(3) True wm(1) unfolding uq by (simp only: unat_0 mult_0_right add_0_right)
    moreover have "div_step d n d0 d1 pos s = Some (q, s1)" using q(1) t x True by (simp add: div_step_def s1_def Let_def)
    ultimately show ?thesis using s1 by auto
  next
    case False
    then have "unat b \<noteq> 0" by (simp add: unat_eq_zero)
    then have b1: "unat b = 1" using vx(2) by simp
    have "w < unat q * D" by (rule ccontr) (use bo(1) b1 in \<open>simp only: if_False zero_neq_one\<close>)
    then have "w div D < unat q" using D0 by (simp add: div_less_iff_less_mult)
    then have uq: "unat q = w div D + 1" using q(3) by simp
    then have uq1: "unat (q - 1) = w div D" by (simp add: unat_sub_wrap word_le_nat_alt)
    obtain y c where y: "bn_add_words (drop pos s1) d n = (y, c)" by force
    define s2 where "s2 = (let t = buf_write s1 pos y in if c \<noteq> 0 then t[pos + n := t ! (pos + n) + 1] else t)"
    have "pos + n + 1 \<le> length s1" using l s1(1) by simp
    note ab = add_back [OF this n(2) y s2_def]
    have "words_val x + (w div D * D + D) = w + ?k" using vx(3) unfolding uq b1 by (simp only: distrib_right mult_1_left mult_1_right)
    then have "words_val x + D = w mod D + ?k" using wm(1) by linarith
    moreover have "w mod D < ?k" using wm(2) Dk(1) by (simp add: power_add)
    ultimately have "(words_val x + D) mod ?k = w mod D" by simp
    then have "words_val (take (n + 1) (drop pos s2)) = w mod D" using ab(4) s1(3) by (simp add: D)
    moreover have "div_step d n d0 d1 pos s = Some (q - 1, s2)" using q(1) t x y False by (simp add: div_step_def s1_def s2_def Let_def)
    ultimately show ?thesis using ab(1-3) s1 uq1 by auto
  qed
qed

section \<open>The loop\<close>

lemma div_loop_val:
  assumes "div_divisor d n d0 d1" "D = words_val (take n d)"
    "p + n + 1 \<le> length s" "p \<le> length r" "words_val (take (n + 1) (drop p s)) < D * 2 ^ 64"
  shows "\<exists>s' r'. div_loop d n d0 d1 p s r = Some (s', r') \<and> length s' = length s \<and> length r' = length r \<and>
    drop (p + n + 1) s' = drop (p + n + 1) s \<and> drop p r' = drop p r \<and>
    words_val (take p r') = words_val (take (p + n + 1) s) div (D * 2 ^ 64) \<and>
    words_val (take (p + n + 1) s') = words_val (take (p + n + 1) s) mod (D * 2 ^ 64)"
  using assms(3-5)
proof (induction p arbitrary: s r)
  case 0
  then show ?case by simp
next
  case (Suc p)
  let ?w = "words_val (take (n + 1) (drop (Suc p) s))" and ?DB = "D * 2 ^ 64"
  have Dn: "D < 2 ^ (64 * n)" unfolding assms(2) using assms(1) by (intro words_val_take_less) (simp add: div_divisor_def)
  have D0: "0 < D" using Suc.prems(3) by (cases D) simp_all
  obtain q s1 where st: "div_step d n d0 d1 (Suc p) s = Some (q, s1)" "unat q = ?w div D" "length s1 = length s" "take (Suc p) s1 = take (Suc p) s"
    "drop (Suc p + n + 1) s1 = drop (Suc p + n + 1) s" "words_val (take (n + 1) (drop (Suc p) s1)) = ?w mod D"
    using div_step_val [OF assms(1) _ _ refl assms(2) Suc.prems(3)] Suc.prems(1) by auto
  define v where "v = ?w mod D"
  have v: "v < D" "?w = unat q * D + v" using D0 st(2) by (simp_all add: v_def)
  have lo: "words_val (take n (drop (Suc p) s1)) = v" "s1 ! (Suc p + n) = 0"
  proof -
    have e: "words_val (take n (drop (Suc p) s1)) + 2 ^ (64 * n) * unat (s1 ! (Suc p + n)) = v"
      using words_val_top [of "n + 1" "drop (Suc p) s1"] st(3,6) Suc.prems(1) by (simp add: v_def)
    have "unat (s1 ! (Suc p + n)) = 0"
    proof (rule ccontr)
      assume "unat (s1 ! (Suc p + n)) \<noteq> 0"
      then have "2 ^ (64 * n) * 1 \<le> 2 ^ (64 * n) * unat (s1 ! (Suc p + n))" by (intro mult_le_mono2) simp
      then show False using e v(1) Dn by linarith
    qed
    then show "words_val (take n (drop (Suc p) s1)) = v" "s1 ! (Suc p + n) = 0" using e by (simp_all add: unat_eq_zero)
  qed
  have "words_val (take (n + 1) (drop p s1)) = unat (s1 ! p) + 2 ^ 64 * v"
  proof -
    have "drop p s1 = s1 ! p # drop (Suc p) s1" using Suc.prems(1) st(3) by (simp add: Cons_nth_drop_Suc)
    then show ?thesis using lo(1) by simp
  qed
  also have "\<dots> < 2 ^ 64 * (v + 1)" using unat_u64_less [of "s1 ! p"] by simp
  also have "\<dots> \<le> ?DB" using v(1) by simp
  finally have "words_val (take (n + 1) (drop p s1)) < ?DB" .
  then obtain s2 r2 where IH: "div_loop d n d0 d1 p s1 (r[p := q]) = Some (s2, r2)" "length s2 = length s" "length r2 = length r"
      "drop (p + n + 1) s2 = drop (p + n + 1) s1" "drop p r2 = drop p (r[p := q])"
      "words_val (take p r2) = words_val (take (p + n + 1) s1) div ?DB" "words_val (take (p + n + 1) s2) = words_val (take (p + n + 1) s1) mod ?DB"
    using Suc.IH [of s1 "r[p := q]"] Suc.prems(1,2) st(3) by auto
  have r2: "r2 ! p = q" "drop (Suc p) r2 = drop (Suc p) r"
  proof -
    have "hd (drop p r2) = hd (drop p (r[p := q]))" "drop 1 (drop p r2) = drop 1 (drop p (r[p := q]))" unfolding IH(5) by simp_all
    then show "r2 ! p = q" "drop (Suc p) r2 = drop (Suc p) r" using Suc.prems(2) IH(3) by (simp_all add: hd_drop_conv_nth)
  qed
  have s2: "s2 ! (Suc p + n) = 0" "drop (Suc p + n + 1) s2 = drop (Suc p + n + 1) s"
  proof -
    have "hd (drop (p + n + 1) s2) = hd (drop (p + n + 1) s1)" "drop 1 (drop (p + n + 1) s2) = drop 1 (drop (p + n + 1) s1)" unfolding IH(4) by simp_all
    then show "s2 ! (Suc p + n) = 0" "drop (Suc p + n + 1) s2 = drop (Suc p + n + 1) s"
      using Suc.prems(1) IH(2) st(3,5) lo(2) by (simp_all add: hd_drop_conv_nth)
  qed
  let ?T = "words_val (take (p + n + 1) s1)" and ?X = "words_val (take (Suc p + n + 1) s)"
  have T: "?T = words_val (take (Suc p) s) + 2 ^ (64 * Suc p) * v"
    using words_val_take_add [of "Suc p" n s1] Suc.prems(1) st(3,4) lo(1) by simp
  have "?X = words_val (take (Suc p) s) + 2 ^ (64 * Suc p) * (unat q * D + v)"
    using words_val_take_add [of "Suc p" "n + 1" s] Suc.prems(1) v(2) by simp
  also have "\<dots> = ?T + unat q * 2 ^ (64 * p) * ?DB" unfolding T by (simp add: algebra_simps power_add)
  finally have X: "?X = ?T + unat q * 2 ^ (64 * p) * ?DB" .
  have "words_val (take (Suc p) r2) = words_val (take p r2) + 2 ^ (64 * p) * unat q"
    using words_val_top [of "Suc p" r2] IH(3) Suc.prems(2) r2(1) by simp
  also have "\<dots> = ?X div ?DB" unfolding X IH(6) using D0 by simp
  finally have 1: "words_val (take (Suc p) r2) = ?X div ?DB" .
  have "words_val (take (Suc p + n + 1) s2) = words_val (take (p + n + 1) s2)"
    using words_val_top [of "Suc p + n + 1" s2] IH(2) Suc.prems(1) s2(1) by simp
  also have "\<dots> = ?X mod ?DB" unfolding X IH(7) by simp
  finally have 2: "words_val (take (Suc p + n + 1) s2) = ?X mod ?DB" .
  show ?case using st(1) IH(1-3) r2(2) s2(2) 1 2 by simp
qed

section \<open>Normalisation\<close>

text \<open>Growing keeps what an object can be grown to.\<close>

definition bn_grown :: "BIGNUM \<Rightarrow> BIGNUM \<Rightarrow> bool" where
  "bn_grown r r' \<longleftrightarrow> bn_dmax r \<le> bn_dmax r' \<and> bn_flags r' = bn_flags r"

lemma bn_grown_dest: "bn_grown r r' \<Longrightarrow> bn_dest al n r \<Longrightarrow> bn_wf r' \<Longrightarrow> bn_dest al n r'"
  by (auto simp: bn_grown_def bn_dest_def)

lemma bn_wexpand_grown: "bn_wexpand al n r = (x, r') \<Longrightarrow> bn_grown r r'"
  by (auto simp: bn_wexpand_def bn_grown_def split: if_splits option.splits)

lemma bn_grown_min [simp]: "bn_grown r (bn_set_minimal_width r') = bn_grown r r'"
  by (simp add: bn_grown_def bn_set_minimal_width_def Let_def)

lemma BN_lshift_grown:
  assumes "BN_lshift al a n r = (x, r')"
  shows "bn_grown r r'"
proof (cases "n < 0")
  case True
  then show ?thesis using assms by (auto simp: BN_lshift_def bn_grown_def)
next
  case False
  obtain y r1 where r1: "bn_wexpand al (bn_width a + nat n div 64 + 1) (r\<lparr>bn_neg := bn_neg a\<rparr>) = (y, r1)" by force
  from bn_wexpand_grown [OF this] have "bn_grown r r1" by (simp add: bn_grown_def)
  then show ?thesis using assms False r1 by (auto simp: BN_lshift_def pbind_def Let_def bn_grown_def bn_set_minimal_width_def split: option.splits)
qed

lemma bn_minimal_width_le:
  assumes "bn_wf bn" "bn_minimal bn" "bn_mag bn < 2 ^ (64 * w)"
  shows "bn_width bn \<le> w"
proof (rule ccontr)
  assume "\<not> bn_width bn \<le> w"
  then have w: "0 < bn_width bn" "w \<le> bn_width bn - 1" by simp_all
  then have "unat (bn_d bn ! (bn_width bn - 1)) \<noteq> 0" using assms(2) by (simp add: bn_minimal_def unat_eq_zero)
  then have "2 ^ (64 * (bn_width bn - 1)) * 1 \<le> 2 ^ (64 * (bn_width bn - 1)) * unat (bn_d bn ! (bn_width bn - 1))" by (intro mult_le_mono2) simp
  also have "\<dots> \<le> bn_mag bn" using words_val_top [of "bn_width bn" "bn_d bn"] w bn_wfD [OF assms(1)] by (simp add: bn_mag_def)
  finally have "2 ^ (64 * (bn_width bn - 1)) \<le> bn_mag bn" by (simp only: mult_1_right)
  then have "(2 :: nat) ^ (64 * (bn_width bn - 1)) < 2 ^ (64 * w)" using assms(3) by (rule le_less_trans)
  then have "64 * (bn_width bn - 1) < 64 * w" by (rule power_less_imp_less_exp [rotated]) simp
  then show False using w by simp
qed

lemma minimal_width_id: "bn_minimal bn \<Longrightarrow> minimal_width (bn_d bn) (bn_width bn) = bn_width bn"
  by (cases "bn_width bn") (auto simp: bn_minimal_def)

text \<open>A divisor whose bit length is a multiple of 64 has the top bit of its top word set.\<close>

lemma normalised_divisor:
  assumes "bn_wf bn" "bn_minimal bn" "bn_mag bn \<noteq> 0" "64 dvd bit_length (bn_mag bn)"
  shows "div_divisor (bn_d bn) (bn_width bn) (bn_d bn ! (bn_width bn - 1)) (if bn_width bn = 1 then 0 else bn_d bn ! (bn_width bn - 2))"
proof -
  let ?n = "bn_width bn" and ?t = "bn_d bn ! (bn_width bn - 1)"
  have n: "?n \<noteq> 0" using assms(3) by (intro notI) (simp add: bn_mag_def)
  then have t0: "?t \<noteq> 0" using assms(2) by (simp add: bn_minimal_def)
  have "bit_length (bn_mag bn) = (?n - 1) * 64 + bit_length (unat ?t)"
    using BN_num_bits_eq [OF assms(1)] n by (simp add: BN_num_bits_def bn_minimal_width_def minimal_width_id [OF assms(2)] BN_num_bits_word_eq Let_def)
  then have "64 dvd bit_length (unat ?t)" using assms(4) by (simp add: dvd_add_right_iff)
  moreover have "bit_length (unat ?t) \<noteq> 0" using t0 bit_length_le [of "unat ?t" 0] by (simp add: unat_eq_zero)
  ultimately have "\<not> bit_length (unat ?t) \<le> 63" by (auto dest: dvd_imp_le)
  then have "2 ^ 63 \<le> unat ?t" by (simp add: bit_length_le)
  then show ?thesis using n bn_wfD [OF assms(1)] by (simp add: div_divisor_def)
qed

lemma div_pad_val:
  assumes "bn_wf s" "bn_dest al (bn_width s + dw + 2) s" "\<not> bn_neg s"
  shows "\<exists>s'. div_pad al dw s = (Some (), s') \<and> bn_wf s' \<and> bn_mag s' = bn_mag s \<and> \<not> bn_neg s' \<and> dw + 2 \<le> bn_width s' \<and>
    bn_width s' \<le> bn_width s + dw + 2 \<and> bn_d s' ! (bn_width s' - 1) = 0"
proof (cases "bn_width s \<le> dw + 1")
  case True
  obtain r1 where r1: "bn_wexpand al (dw + 2) s = (Some (), r1)" "bn_wf r1" "dw + 2 \<le> bn_dmax r1" "bn_width r1 = bn_width s" "bn_neg r1 = bn_neg s"
    "take (bn_width s) (bn_d r1) = take (bn_width s) (bn_d s)"
    using bn_wexpand_ok [OF bn_dest_mono [OF assms(2), of "dw + 2"]] by auto
  let ?z = "replicate (dw + 2 - bn_width s) (0 :: BN_ULONG)"
  let ?d = "buf_write (bn_d r1) (bn_width s) ?z"
  have l: "length ?d = length (bn_d r1)" "take (dw + 2) ?d = take (bn_width s) (bn_d s) @ ?z"
    using take_buf_write_exact [of "bn_width s" "bn_d r1" ?z] r1 True by (simp_all add: bn_wf_def)
  have "?d ! (dw + 1) = 0" using arg_cong [OF l(2), of "\<lambda>xs. xs ! (dw + 1)"] True assms(1) by (simp add: nth_append bn_wf_def)
  moreover have "div_pad al dw s = (Some (), r1\<lparr>bn_d := ?d, bn_width := dw + 2\<rparr>)" using True r1(1,4) by (simp add: div_pad_def pbind_def)
  ultimately show ?thesis using r1 l assms(3) True by (simp add: bn_wf_def bn_mag_def words_val_append)
next
  case False
  obtain r1 where r1: "bn_wexpand al (bn_width s + 1) s = (Some (), r1)" "bn_wf r1" "bn_width s + 1 \<le> bn_dmax r1" "bn_width r1 = bn_width s" "bn_neg r1 = bn_neg s"
    "take (bn_width s) (bn_d r1) = take (bn_width s) (bn_d s)"
    using bn_wexpand_ok [OF bn_dest_mono [OF assms(2), of "bn_width s + 1"]] by auto
  let ?d = "(bn_d r1)[bn_width s := 0]"
  have "take (Suc (bn_width s)) ?d = take (bn_width s) (bn_d s) @ [0]" using r1 by (simp add: take_Suc_conv_app_nth bn_wf_def)
  moreover have "div_pad al dw s = (Some (), r1\<lparr>bn_d := ?d, bn_width := bn_width s + 1\<rparr>)" using False r1(1,4) by (simp add: div_pad_def pbind_def)
  ultimately show ?thesis using r1 assms(3) False by (simp add: bn_wf_def bn_mag_def words_val_append)
qed

lemma bit_length_mult_pow: "0 < n \<Longrightarrow> bit_length (n * 2 ^ k) = bit_length n + k"
  using bit_length_shift [of k "n * 2 ^ k"] by simp

text \<open>Clearing the sign of a minimal number.\<close>

lemma set_minimal_neg:
  assumes "bn_ok r" "bn_minimal r"
  shows "bn_wf ((bn_set_minimal_width r)\<lparr>bn_neg := False\<rparr>)" "bn_minimal ((bn_set_minimal_width r)\<lparr>bn_neg := False\<rparr>)"
    "bn_mag ((bn_set_minimal_width r)\<lparr>bn_neg := False\<rparr>) = bn_mag r" "bn_width ((bn_set_minimal_width r)\<lparr>bn_neg := False\<rparr>) = bn_width r"
  using bn_set_minimal_width_ok [of r] assms minimal_width_id [OF assms(2)]
  by (simp_all add: bn_ok_def bn_set_minimal_width_def bn_minimal_width_def Let_def)

lemma div_normalise_val:
  assumes "bn_ok a" "bn_ok b" "bn_mag b \<noteq> 0" "bn_dest al (bn_width a + bn_width b + 7) snum" "bn_dest al (bn_width b + 2) sdiv"
  shows "\<exists>s d k. div_normalise al a b snum sdiv = Some (s, d, int k + 64) \<and> bn_wf s \<and> bn_wf d \<and> \<not> bn_neg s \<and>
    bn_mag s = bn_mag a * 2 ^ (k + 64) \<and> bn_mag d = bn_mag b * 2 ^ k \<and> bn_width d + 2 \<le> bn_width s \<and> bn_width s \<le> bn_width a + bn_width b + 7 \<and>
    bn_d s ! (bn_width s - 1) = 0 \<and>
    div_divisor (bn_d d) (bn_width d) (bn_d d ! (bn_width d - 1)) (if bn_width d = 1 then 0 else bn_d d ! (bn_width d - 2)) \<and>
    bn_width d \<le> bn_width b + 2"
proof -
  have wf: "bn_wf a" "bn_wf b" using assms(1,2) by (simp_all add: bn_ok_def)
  define k where "k = 64 - bit_length (bn_mag b) mod 64"
  have k: "64 - int (BN_num_bits b mod 64) = int k" "k \<le> 64" "1 \<le> k" by (simp_all add: k_def BN_num_bits_eq [OF wf(2)] of_nat_diff Suc_leI)
  have k64: "nat (int k) = k" "nat (int k + 64) = k + 64" by simp_all
  have mag: "bn_mag r = bn_mag c * 2 ^ m" if "bn_val r = bn_val c * 2 ^ m" for r c :: BIGNUM and m
  proof -
    have "\<bar>bn_val r\<bar> = \<bar>bn_val c\<bar> * 2 ^ m" unfolding that by (simp add: abs_mult)
    then have "int (bn_mag r) = int (bn_mag c * 2 ^ m)" by (simp add: bn_val_def split: if_splits)
    then show ?thesis unfolding of_nat_eq_iff .
  qed
  have "k div 64 \<le> 1" using k(2) by simp
  then have "bn_width b + nat (int k) div 64 + 1 \<le> bn_width b + 2" by simp
  then obtain d1 where d1: "BN_lshift al b (int k) sdiv = (Some (), d1)" "bn_result d1 (bn_val b * 2 ^ k)"
    using BN_lshift_ok [OF assms(2) _ bn_dest_mono [OF assms(5)], of "int k"] by auto
  define d where "d = (bn_set_minimal_width d1)\<lparr>bn_neg := False\<rparr>"
  have d: "bn_wf d" "bn_minimal d" "bn_mag d = bn_mag b * 2 ^ k" "bn_width d = bn_width d1"
    using set_minimal_neg [of d1] d1(2) mag [of d1 b k] by (simp_all add: d_def bn_result_def)
  have "(k + 64) div 64 \<le> 2" using k(2) by simp
  then have "bn_width a + nat (int k + 64) div 64 + 1 \<le> bn_width a + bn_width b + 7" by simp
  then obtain s1 where s1: "BN_lshift al a (int k + 64) snum = (Some (), s1)" "bn_result s1 (bn_val a * 2 ^ (k + 64))"
    using BN_lshift_ok [OF assms(1) _ bn_dest_mono [OF assms(4)], of "int k + 64"] k64 by auto
  define s where "s = (bn_set_minimal_width s1)\<lparr>bn_neg := False\<rparr>"
  have s: "bn_wf s" "bn_minimal s" "bn_mag s = bn_mag a * 2 ^ (k + 64)" "\<not> bn_neg s"
    using set_minimal_neg [of s1] s1(2) mag [of s1 a "k + 64"] by (simp_all add: s_def bn_result_def)
  have "bn_mag s < 2 ^ (64 * bn_width a) * 2 ^ (k + 64)" unfolding s(3) using bn_mag_less [OF wf(1)] by (intro mult_strict_right_mono) simp_all
  also have "\<dots> \<le> 2 ^ (64 * (bn_width a + 2))" unfolding power_add [symmetric] using k(2) by (intro power_increasing) simp_all
  finally have ws: "bn_width s \<le> bn_width a + 2" by (rule bn_minimal_width_le [OF s(1,2)])
  have "bn_mag d < 2 ^ (64 * bn_width b) * 2 ^ k" unfolding d(3) using bn_mag_less [OF wf(2)] by (intro mult_strict_right_mono) simp_all
  also have "\<dots> \<le> 2 ^ (64 * (bn_width b + 1))" unfolding power_add [symmetric] using k(2) by (intro power_increasing) simp_all
  finally have wd: "bn_width d \<le> bn_width b + 1" by (rule bn_minimal_width_le [OF d(1,2)])
  have "bn_grown snum s" using BN_lshift_grown [OF s1(1)] by (simp add: s_def bn_grown_def bn_set_minimal_width_def Let_def)
  from bn_grown_dest [OF this assms(4) s(1)] have "bn_dest al (bn_width s + bn_width d + 2) s" by (rule bn_dest_mono) (use ws wd in simp)
  from div_pad_val [OF s(1) this s(4)] obtain s2 where s2: "div_pad al (bn_width d) s = (Some (), s2)" "bn_wf s2" "bn_mag s2 = bn_mag s" "\<not> bn_neg s2"
    "bn_width d + 2 \<le> bn_width s2" "bn_width s2 \<le> bn_width s + bn_width d + 2" "bn_d s2 ! (bn_width s2 - 1) = 0" by blast
  have "64 dvd bit_length (bn_mag d)"
  proof -
    have "bit_length (bn_mag d) = bit_length (bn_mag b) + (64 - bit_length (bn_mag b) mod 64)" using assms(3) by (simp add: d(3) bit_length_mult_pow k_def)
    also have "\<dots> = 64 * (bit_length (bn_mag b) div 64) + 64"
      using mod_less_divisor [of 64 "bit_length (bn_mag b)"] mult_div_mod_eq [of 64 "bit_length (bn_mag b)"] by linarith
    finally show ?thesis by simp
  qed
  moreover have "bn_mag d \<noteq> 0" using assms(3) d(3) by simp
  ultimately have dd: "div_divisor (bn_d d) (bn_width d) (bn_d d ! (bn_width d - 1)) (if bn_width d = 1 then 0 else bn_d d ! (bn_width d - 2))"
    using normalised_divisor [OF d(1,2)] by blast
  have "div_normalise al a b snum sdiv = Some (s2, d, int k + 64)"
    unfolding div_normalise_def Let_def k(1) d1(1) prod.case option.case s1(1) d_def [symmetric] s_def [symmetric] s2(1) ..
  then show ?thesis using s2 d s(3) dd ws wd by auto
qed

section \<open>Division\<close>

lemma div_window_start:
  assumes "bn_wf s" "bn_d s ! (bn_width s - 1) = 0" "n + p + 1 = bn_width s" "div_divisor d n d0 d1"
  shows "words_val (take (n + 1) (drop p (bn_d s))) < words_val (take n d) * 2 ^ 64"
proof -
  have n: "1 \<le> n" "n \<le> length d" "2 ^ 63 \<le> unat (d ! (n - 1))" using assms(4) by (auto simp: div_divisor_def)
  have l: "n + 1 \<le> length (drop p (bn_d s))" using bn_wfD [OF assms(1)] assms(3) by simp
  have "drop p (bn_d s) ! n = 0" using assms(2) assms(3) [symmetric] l by (simp add: add.commute)
  then have "words_val (take (n + 1) (drop p (bn_d s))) = words_val (take n (drop p (bn_d s)))"
    using words_val_top [of "n + 1" "drop p (bn_d s)"] l by simp
  also have "\<dots> < 2 ^ (64 * n)" using l by (intro words_val_take_less) simp
  also have "\<dots> = 2 ^ (64 * (n - 1)) * 2 ^ 64" using n(1) by (cases n) (simp_all add: power_add)
  also have "\<dots> \<le> 2 ^ (64 * (n - 1)) * (unat (d ! (n - 1)) * 2 ^ 64)" using n(3) by (intro mult_le_mono2) simp
  also have "\<dots> \<le> words_val (take n d) * 2 ^ 64" using words_val_top [of n d] n by (simp add: distrib_right)
  finally show ?thesis .
qed

text \<open>The division of the normalised numbers: the quotient and the remainder, still shifted.\<close>

lemma div_loop_numbers:
  assumes "bn_wf s" "bn_wf d" "bn_d s ! (bn_width s - 1) = 0" "bn_width d + 2 \<le> bn_width s"
    "div_divisor (bn_d d) (bn_width d) d0 d1" "p = bn_width s - bn_width d - 1" "p \<le> length r"
    "bn_mag s = a * 2 ^ (k + 64)" "bn_mag d = b * 2 ^ k"
  shows "\<exists>s' r'. div_loop (bn_d d) (bn_width d) d0 d1 p (bn_d s) r = Some (s', r') \<and> length s' = length (bn_d s) \<and> length r' = length r \<and>
    words_val (take p r') = a div b \<and> words_val (take (bn_width s) s') = (a mod b) * 2 ^ (k + 64)"
proof -
  have p: "bn_width d + p + 1 = bn_width s" "p + bn_width d + 1 = bn_width s" using assms(4,6) by simp_all
  have "p + bn_width d + 1 \<le> length (bn_d s)" using p bn_wfD [OF assms(1)] by simp
  from div_loop_val [OF assms(5) refl this assms(7) div_window_start [OF assms(1,3) p(1) assms(5)], unfolded p(2), folded bn_mag_def]
  obtain s' r' where v: "div_loop (bn_d d) (bn_width d) d0 d1 p (bn_d s) r = Some (s', r')" "length s' = length (bn_d s)" "length r' = length r"
    "words_val (take p r') = bn_mag s div (bn_mag d * 2 ^ 64)" "words_val (take (bn_width s) s') = bn_mag s mod (bn_mag d * 2 ^ 64)" by blast
  have e: "bn_mag d * 2 ^ 64 = b * 2 ^ (k + 64)" unfolding assms(9) by (simp add: power_add)
  have "words_val (take p r') = a div b" unfolding v(4) e assms(8) by simp
  moreover have "words_val (take (bn_width s) s') = (a mod b) * 2 ^ (k + 64)" unfolding v(5) e assms(8) by (simp add: mult_mod_left)
  ultimately show ?thesis using v(1-3) by blast
qed

text \<open>Memory for the temporaries and the destinations of a division.\<close>

definition div_memory :: "allocator \<Rightarrow> (nat \<Rightarrow> BIGNUM option) \<Rightarrow> nat \<Rightarrow> BIGNUM option \<Rightarrow> BIGNUM option \<Rightarrow> bool" where
  "div_memory al ctx n quot rem \<longleftrightarrow>
     (\<forall>k<4. \<exists>x. ctx k = Some x \<and> bn_dest al n x) \<and> (\<forall>q. quot = Some q \<longrightarrow> bn_dest al n q) \<and> (\<forall>r. rem = Some r \<longrightarrow> bn_dest al n r)"

lemma div_memoryD:
  assumes "div_memory al ctx n quot rem"
  obtains tmp snum sdiv res where "ctx 0 = Some tmp" "ctx 1 = Some snum" "ctx 2 = Some sdiv" "(case quot of None \<Rightarrow> ctx 3 | Some q \<Rightarrow> Some q) = Some res"
    "bn_dest al n tmp" "bn_dest al n snum" "bn_dest al n sdiv" "bn_dest al n res"
proof -
  have c: "\<exists>x. ctx k = Some x \<and> bn_dest al n x" if "k < 4" for k using assms that by (auto simp: div_memory_def)
  have "\<exists>res. (case quot of None \<Rightarrow> ctx 3 | Some q \<Rightarrow> Some q) = Some res \<and> bn_dest al n res"
    using assms c [of 3] by (cases quot) (auto simp: div_memory_def)
  then show ?thesis using that c [of 0] c [of 1] c [of 2] by auto
qed

lemma div_remainder:
  assumes "bn_wf s" "\<not> bn_neg s" "bn_mag s = m * 2 ^ k" "bn_dest al (bn_width s) rm"
  shows "\<exists>r. BN_rshift al (bn_set_minimal_width s) (int k) rm = (Some (), r) \<and>
    bn_result (if \<not> BN_is_zero r then r\<lparr>bn_neg := g\<rparr> else r) (if g then - int m else int m)"
proof -
  note ms = bn_set_minimal_width_ok [OF assms(1)]
  have w: "bn_width (bn_set_minimal_width s) \<le> bn_width s"
    using minimal_width_le [of "bn_d s" "bn_width s"] by (simp add: bn_set_minimal_width_def bn_minimal_width_def Let_def)
  have "bn_wf (bn_set_minimal_width s)" using ms(1) by (simp add: bn_ok_def)
  from BN_rshift_ok [OF this, of "int k"] obtain r where r: "BN_rshift al (bn_set_minimal_width s) (int k) rm = (Some (), r)" "bn_result r (int m)"
    using bn_dest_mono [OF assms(4) w] ms(2,4) assms(2,3) by auto
  then have v: "bn_ok r" "bn_wf r" "bn_minimal r" "bn_val r = int m" by (simp_all add: bn_result_def bn_ok_def)
  then have "bn_mag r = m" "m \<noteq> 0 \<longrightarrow> \<not> bn_neg r" by (auto simp: bn_val_def bn_ok_def split: if_splits)
  then show ?thesis using r(1) v by (auto simp: bn_result_def bn_ok_def bn_val_def BN_is_zero_iff)
qed

lemma BN_div_ok:
  assumes "bn_ok a" "bn_ok b" "bn_mag b \<noteq> 0" "div_memory al ctx (bn_width a + bn_width b + 8) quot rem"
  shows "\<exists>q r. BN_div al ctx a b quot rem = Some (Some (), map_option (\<lambda>_. q) quot, map_option (\<lambda>_. r) rem) \<and>
    bn_result q (if bn_neg a \<noteq> bn_neg b then - int (bn_mag a div bn_mag b) else int (bn_mag a div bn_mag b)) \<and>
    (rem \<noteq> None \<longrightarrow> bn_result r (if bn_neg a then - int (bn_mag a mod bn_mag b) else int (bn_mag a mod bn_mag b)))"
proof -
  let ?N = "bn_width a + bn_width b + 8"
  have wf: "bn_wf a" "bn_wf b" using assms(1,2) by (simp_all add: bn_ok_def)
  obtain tmp snum sdiv res where c: "ctx 0 = Some tmp" "ctx 1 = Some snum" "ctx 2 = Some sdiv" "(case quot of None \<Rightarrow> ctx 3 | Some q \<Rightarrow> Some q) = Some res"
    "bn_dest al ?N tmp" "bn_dest al ?N snum" "bn_dest al ?N sdiv" "bn_dest al ?N res" using div_memoryD [OF assms(4)] .
  have g: "\<not> ((bn_minimal_width a > 0 \<and> bn_d a ! (bn_minimal_width a - 1) = 0) \<or> (bn_minimal_width b > 0 \<and> bn_d b ! (bn_minimal_width b - 1) = 0))"
    using minimal_width_top [of "bn_d a" "bn_width a"] minimal_width_top [of "bn_d b" "bn_width b"] by (auto simp: bn_minimal_width_def)
  have z: "\<not> BN_is_zero b" using assms(3) by (simp add: BN_is_zero_iff [OF wf(2)])
  obtain s d k where nz: "div_normalise al a b snum sdiv = Some (s, d, int k + 64)" "bn_wf s" "bn_wf d" "\<not> bn_neg s"
    "bn_mag s = bn_mag a * 2 ^ (k + 64)" "bn_mag d = bn_mag b * 2 ^ k" "bn_width d + 2 \<le> bn_width s" "bn_width s \<le> bn_width a + bn_width b + 7"
    "bn_d s ! (bn_width s - 1) = 0"
    "div_divisor (bn_d d) (bn_width d) (bn_d d ! (bn_width d - 1)) (if bn_width d = 1 then 0 else bn_d d ! (bn_width d - 2))" "bn_width d \<le> bn_width b + 2"
  proof -
    have "bn_dest al (bn_width a + bn_width b + 7) snum" by (rule bn_dest_mono [OF c(6)]) simp
    moreover have "bn_dest al (bn_width b + 2) sdiv" by (rule bn_dest_mono [OF c(7)]) simp
    ultimately show ?thesis using div_normalise_val [OF assms(1-3)] that by blast
  qed
  define n where "n = bn_width d"
  define p where "p = bn_width s - n - 1"
  have p: "bn_width s - n = Suc p" "1 \<le> p" using nz(7) by (simp_all add: p_def n_def)
  define res0 where "res0 = res\<lparr>bn_neg := (bn_neg a \<noteq> bn_neg b)\<rparr>"
  have "bn_dest al (Suc p + 1) res0" unfolding res0_def bn_dest_neg by (rule bn_dest_mono [OF c(8)]) (use nz(8) p_def in linarith)
  then obtain r1 where r1: "bn_wexpand al (Suc p + 1) res0 = (Some (), r1)" "bn_wf r1" "Suc p + 1 \<le> bn_dmax r1" "bn_neg r1 = (bn_neg a \<noteq> bn_neg b)"
    using bn_wexpand_ok [of al "Suc p + 1" res0] by (auto simp: res0_def)
  have "bn_dest al (n + 1) tmp" by (rule bn_dest_mono [OF c(5)]) (use nz(11) n_def in linarith)
  then obtain t1 where t1: "bn_wexpand al (n + 1) tmp = (Some (), t1)" using bn_wexpand_ok by blast
  have "p \<le> length (bn_d r1)" using r1(2,3) by (simp add: bn_wf_def)
  from div_loop_numbers [OF nz(2,3,9,7,10) p_def [unfolded n_def] this nz(5,6)]
  obtain s' r' where lp: "div_loop (bn_d d) n (bn_d d ! (n - 1)) (if n = 1 then 0 else bn_d d ! (n - 2)) p (bn_d s) (bn_d r1) = Some (s', r')"
    "length s' = length (bn_d s)" "length r' = length (bn_d r1)" "words_val (take p r') = bn_mag a div bn_mag b"
    "words_val (take (bn_width s) s') = (bn_mag a mod bn_mag b) * 2 ^ (k + 64)" unfolding n_def [symmetric] by blast
  define q where "q = bn_set_minimal_width (r1\<lparr>bn_width := p, bn_d := r'\<rparr>)"
  have q: "bn_result q (if bn_neg a \<noteq> bn_neg b then - int (bn_mag a div bn_mag b) else int (bn_mag a div bn_mag b))"
    unfolding q_def by (rule bn_result_minimal) (use r1 lp(3,4) in \<open>simp_all add: bn_wf_def bn_mag_def\<close>)
  have sn: "bn_wf (s\<lparr>bn_d := s'\<rparr>)" "\<not> bn_neg (s\<lparr>bn_d := s'\<rparr>)" "bn_mag (s\<lparr>bn_d := s'\<rparr>) = (bn_mag a mod bn_mag b) * 2 ^ (k + 64)"
    using nz(2,4) lp(2,5) by (simp_all add: bn_wf_def bn_mag_def)
  have run: "BN_div al ctx a b quot rem =
    (case rem of None \<Rightarrow> Some (Some (), map_option (\<lambda>_. q) quot, None)
     | Some rm \<Rightarrow> (case BN_rshift al (bn_set_minimal_width (s\<lparr>bn_d := s'\<rparr>)) (int k + 64) rm of
          (None, rm) \<Rightarrow> Some (None, map_option (\<lambda>_. r1\<lparr>bn_width := p, bn_d := r'\<rparr>) quot, Some rm)
        | (Some _, rm) \<Rightarrow> Some (Some (), map_option (\<lambda>_. q) quot, Some (if \<not> BN_is_zero rm then rm\<lparr>bn_neg := bn_neg a\<rparr> else rm))))"
  proof -
    have w0: "bn_width (r1\<lparr>bn_width := p\<rparr>) \<noteq> 0" "bn_d (r1\<lparr>bn_width := p\<rparr>) = bn_d r1" using p(2) by simp_all
    have put: "(case quot of None \<Rightarrow> None | Some _ \<Rightarrow> Some x) = map_option (\<lambda>_. x) quot" for x :: BIGNUM by (cases quot) simp_all
    show ?thesis
      unfolding BN_div_def Let_def if_not_P [OF g] if_not_P [OF z] c(1-4) prod.case option.case nz(1) n_def [symmetric] p(1) diff_Suc_1 res0_def [symmetric]
        r1(1) t1 if_not_P [OF w0(1)] w0(2) lp(1) put q_def ..
  qed
  show ?thesis
  proof (cases rem)
    case None
    then show ?thesis using run q by auto
  next
    case (Some rm)
    have "bn_dest al ?N rm" using assms(4) Some by (simp add: div_memory_def)
    then have "bn_dest al (bn_width (s\<lparr>bn_d := s'\<rparr>)) rm" by (rule bn_dest_mono) (use nz(8) in simp)
    from div_remainder [OF sn this, of "bn_neg a"] show ?thesis using run q Some by auto
  qed
qed

section \<open>Properties\<close>

text \<open>
  C16. \<^verbatim>\<open>BN_div\<close> is division with remainder, rounding towards zero. For well-formed operands of any widths and
  signs with a divisor other than zero, and memory for the temporaries, it ends and succeeds; the quotient
  and the remainder are well formed, in the fewest words, satisfy \<open>a = q * b + r\<close> with the remainder smaller
  than the divisor in magnitude and of the sign of the numerator. Division by zero fails and leaves both outputs as they were.
\<close>

theorem bn_div_exact:
  assumes "bn_ok a" "bn_ok b" "div_memory al ctx (bn_width a + bn_width b + 8) (Some q0) (Some r0)"
  shows "(bn_val b \<noteq> 0 \<longrightarrow>
      (\<exists>q r. BN_div al ctx a b (Some q0) (Some r0) = Some (Some (), Some q, Some r) \<and> bn_ok q \<and> bn_minimal q \<and> bn_ok r \<and> bn_minimal r \<and>
         bn_val a = bn_val q * bn_val b + bn_val r \<and> \<bar>bn_val r\<bar> < \<bar>bn_val b\<bar> \<and> (bn_val r \<noteq> 0 \<longrightarrow> sgn (bn_val r) = sgn (bn_val a)))) \<and>
    (bn_val b = 0 \<longrightarrow> BN_div al ctx a b (Some q0) (Some r0) = Some (None, Some q0, Some r0))"
proof (cases "bn_mag b = 0")
  case True
  then have "BN_is_zero b" using assms(2) by (simp add: BN_is_zero_iff bn_ok_def)
  then show ?thesis using True by (simp add: BN_div_def bn_val_def)
next
  case False
  let ?q = "bn_mag a div bn_mag b" and ?r = "bn_mag a mod bn_mag b"
  obtain q r where d: "BN_div al ctx a b (Some q0) (Some r0) = Some (Some (), Some q, Some r)"
    "bn_result q (if bn_neg a \<noteq> bn_neg b then - int ?q else int ?q)" "bn_result r (if bn_neg a then - int ?r else int ?r)"
    using BN_div_ok [OF assms(1,2) False assms(3)] by auto
  have e: "int ?q * int (bn_mag b) + int ?r = int (bn_mag a)" by (metis div_mult_mod_eq of_nat_add of_nat_mult)
  have lt: "int ?r < int (bn_mag b)" using False by simp
  have "bn_val a = bn_val q * bn_val b + bn_val r" using d(2,3) e by (auto simp: bn_result_def bn_val_def [of a] bn_val_def [of b])
  moreover have "\<bar>bn_val r\<bar> < \<bar>bn_val b\<bar>" using d(3) lt by (auto simp: bn_result_def bn_val_def [of b])
  moreover have "bn_val r \<noteq> 0 \<longrightarrow> sgn (bn_val r) = sgn (bn_val a)"
  proof -
    have "?r = 0" if "bn_mag a = 0" using that by simp
    then show ?thesis using d(3) by (auto simp: bn_result_def bn_val_def [of a] sgn_if)
  qed
  ultimately show ?thesis using d False by (auto simp: bn_result_def bn_val_def [of b])
qed

theorem bn_div_exact_witness:
  "\<exists>q r. BN_div (\<lambda>_. Some (\<lambda>_. 0)) (\<lambda>_. Some BN_init) \<lparr>bn_d = [7, 0, 5], bn_width = 3, bn_dmax = 3, bn_neg = True, bn_flags = 0\<rparr>
       \<lparr>bn_d = [3, 1], bn_width = 2, bn_dmax = 2, bn_neg = False, bn_flags = 0\<rparr> (Some BN_init) (Some BN_init) = Some (Some (), Some q, Some r) \<and>
     - (5 * 2 ^ 128 + 7) = bn_val q * (2 ^ 64 + 3) + bn_val r \<and> \<bar>bn_val r\<bar> < 2 ^ 64 + 3"
proof -
  let ?a = "\<lparr>bn_d = [7, 0, 5], bn_width = 3, bn_dmax = 3, bn_neg = True, bn_flags = 0\<rparr> :: BIGNUM"
  let ?b = "\<lparr>bn_d = [3, 1], bn_width = 2, bn_dmax = 2, bn_neg = False, bn_flags = 0\<rparr> :: BIGNUM"
  have ok: "bn_ok ?a" "bn_ok ?b" by (simp_all add: bn_ok_def bn_wf_def bn_mag_def BN_MAX_WORDS_def)
  have m: "div_memory (\<lambda>_. Some (\<lambda>_. 0)) (\<lambda>_. Some BN_init) (bn_width ?a + bn_width ?b + 8) (Some BN_init) (Some BN_init)"
    by (simp add: div_memory_def bn_dest_def bn_wf_def BN_MAX_WORDS_def BN_init_def)
  have v: "bn_val ?a = - (5 * 2 ^ 128 + 7)" "bn_val ?b = 2 ^ 64 + 3" by (simp_all add: bn_val_def bn_mag_def)
  have "bn_val ?b \<noteq> 0" unfolding v by simp
  with bn_div_exact [OF ok m, THEN conjunct1] show ?thesis unfolding v by auto
qed

end
