(* ===== verification/BnMod.thy ===== *)
theory BnMod
  imports BnDiv
begin

text \<open>
  Modular arithmetic of \<^verbatim>\<open>crypto/fipsmodule/bn/div.c\<close>: reduction by division, reduction in constant time by a
  conditional subtraction, division bit by bit, and division by words and powers of two. As in
  \<^verbatim>\<open>BnDiv\<close> an outer \<open>None\<close> would be a loop that does not end.
\<close>

section \<open>Reduction by division\<close>

definition BN_mod :: "allocator \<Rightarrow> (nat \<Rightarrow> BIGNUM option) \<Rightarrow> BIGNUM \<Rightarrow> BIGNUM \<Rightarrow> BIGNUM \<Rightarrow> (unit option \<times> BIGNUM) option" where
  "BN_mod al ctx m d r = map_option (\<lambda>(ret, _, rem). (ret, case rem of Some r' \<Rightarrow> r' | None \<Rightarrow> r)) (BN_div al ctx m d None (Some r))"

definition BN_nnmod :: "allocator \<Rightarrow> (nat \<Rightarrow> BIGNUM option) \<Rightarrow> BIGNUM \<Rightarrow> BIGNUM \<Rightarrow> BIGNUM \<Rightarrow> (unit option \<times> BIGNUM) option" where
  "BN_nnmod al ctx m d r =
     map_option (\<lambda>(ret, r). case ret of
         None \<Rightarrow> (None, r)
       | Some _ \<Rightarrow> if \<not> bn_neg r then (Some (), r) else if bn_neg d then BN_sub al r d r else BN_add al r d r)
       (BN_mod al ctx m d r)"

text \<open>A call that must succeed before the reduction of its result.\<close>

definition then_nnmod :: "allocator \<Rightarrow> (nat \<Rightarrow> BIGNUM option) \<Rightarrow> BIGNUM \<Rightarrow> unit option \<times> BIGNUM \<Rightarrow> (unit option \<times> BIGNUM) option" where
  "then_nnmod al ctx m = (\<lambda>(ret, r). case ret of None \<Rightarrow> Some (None, r) | Some _ \<Rightarrow> BN_nnmod al ctx r m r)"

definition BN_mod_add :: "allocator \<Rightarrow> (nat \<Rightarrow> BIGNUM option) \<Rightarrow> BIGNUM \<Rightarrow> BIGNUM \<Rightarrow> BIGNUM \<Rightarrow> BIGNUM \<Rightarrow> (unit option \<times> BIGNUM) option" where
  "BN_mod_add al ctx a b m r = then_nnmod al ctx m (BN_add al a b r)"

definition BN_mod_sub :: "allocator \<Rightarrow> (nat \<Rightarrow> BIGNUM option) \<Rightarrow> BIGNUM \<Rightarrow> BIGNUM \<Rightarrow> BIGNUM \<Rightarrow> BIGNUM \<Rightarrow> (unit option \<times> BIGNUM) option" where
  "BN_mod_sub al ctx a b m r = then_nnmod al ctx m (BN_sub al a b r)"

definition BN_mod_lshift1 :: "allocator \<Rightarrow> (nat \<Rightarrow> BIGNUM option) \<Rightarrow> BIGNUM \<Rightarrow> BIGNUM \<Rightarrow> BIGNUM \<Rightarrow> (unit option \<times> BIGNUM) option" where
  "BN_mod_lshift1 al ctx a m r = then_nnmod al ctx m (BN_lshift1 al a r)"

text \<open>\<open>ctx 0\<close> is the product, \<open>ctx 1\<close> the temporary of the multiplication; \<open>eq\<close> says that \<open>a\<close> and \<open>b\<close> are one object.\<close>

definition BN_mod_mul :: "allocator \<Rightarrow> (nat \<Rightarrow> BIGNUM option) \<Rightarrow> BIGNUM \<Rightarrow> BIGNUM \<Rightarrow> bool \<Rightarrow> BIGNUM \<Rightarrow> BIGNUM \<Rightarrow> (unit option \<times> BIGNUM) option" where
  "BN_mod_mul al ctx a b eq m r =
     (case ctx 0 of
        None \<Rightarrow> Some (None, r)
      | Some t \<Rightarrow>
          (case (if eq then BN_sqr al a False None (ctx 1) t else BN_mul al a b False None (ctx 1) t) of
             (None, _) \<Rightarrow> Some (None, r)
           | (Some _, t) \<Rightarrow> BN_nnmod al (\<lambda>k. ctx (k + 2)) t m r))"

definition BN_mod_sqr :: "allocator \<Rightarrow> (nat \<Rightarrow> BIGNUM option) \<Rightarrow> BIGNUM \<Rightarrow> bool \<Rightarrow> BIGNUM \<Rightarrow> BIGNUM \<Rightarrow> (unit option \<times> BIGNUM) option" where
  "BN_mod_sqr al ctx a same m r =
     (case BN_sqr al a same (ctx 0) (ctx 1) r of
        (None, r) \<Rightarrow> Some (None, r)
      | (Some _, r) \<Rightarrow> BN_mod al (\<lambda>k. ctx (k + 2)) r m r)"

section \<open>Reduction in constant time\<close>

definition bn_reduce_once :: "BN_ULONG list \<Rightarrow> BN_ULONG \<Rightarrow> BN_ULONG list \<Rightarrow> nat \<Rightarrow> BN_ULONG list \<times> BN_ULONG" where
  "bn_reduce_once a carry m num =
     (let (r, borrow) = bn_sub_words a m num; carry = carry - borrow in (bn_select_words carry a r num, carry))"

definition bn_reduce_once_in_place :: "BN_ULONG list \<Rightarrow> BN_ULONG \<Rightarrow> BN_ULONG list \<Rightarrow> nat \<Rightarrow> BN_ULONG list \<times> BN_ULONG" where
  "bn_reduce_once_in_place r carry m num =
     (let (tmp, borrow) = bn_sub_words r m num; carry = carry - borrow in (bn_select_words carry r tmp num, carry))"

definition bn_mod_sub_words :: "BN_ULONG list \<Rightarrow> BN_ULONG list \<Rightarrow> BN_ULONG list \<Rightarrow> nat \<Rightarrow> BN_ULONG list" where
  "bn_mod_sub_words a b m num =
     (let (r, borrow) = bn_sub_words a b num; (tmp, _) = bn_add_words r m num in bn_select_words (0 - borrow) tmp r num)"

definition bn_mod_add_words :: "BN_ULONG list \<Rightarrow> BN_ULONG list \<Rightarrow> BN_ULONG list \<Rightarrow> nat \<Rightarrow> BN_ULONG list" where
  "bn_mod_add_words a b m num =
     (let (r, carry) = bn_add_words a b num in fst (bn_reduce_once_in_place r carry m num))"

definition bn_scratch_space_from_ctx :: "allocator \<Rightarrow> nat \<Rightarrow> BIGNUM option \<Rightarrow> BIGNUM option" where
  "bn_scratch_space_from_ctx al width c =
     (case c of
        None \<Rightarrow> None
      | Some ret \<Rightarrow> (case bn_wexpand al width ret of
          (None, _) \<Rightarrow> None
        | (Some _, ret) \<Rightarrow> Some (ret\<lparr>bn_neg := False, bn_width := width\<rparr>)))"

definition bn_resized_from_ctx :: "allocator \<Rightarrow> BIGNUM \<Rightarrow> nat \<Rightarrow> BIGNUM option \<Rightarrow> BIGNUM option" where
  "bn_resized_from_ctx al bn width c =
     (if bn_width bn \<ge> width then Some bn
      else case bn_scratch_space_from_ctx al width c of
             None \<Rightarrow> None
           | Some ret \<Rightarrow>
               (case pbind (BN_copy al bn) (\<lambda>_. bn_resize_words al width) ret of
                  (None, _) \<Rightarrow> None
                | (Some _, ret) \<Rightarrow> Some ret))"

text \<open>The common frame of \<open>bn_mod_add_consttime\<close> and \<open>bn_mod_sub_consttime\<close>.\<close>

definition mod_consttime :: "(BN_ULONG list \<Rightarrow> BN_ULONG list \<Rightarrow> BN_ULONG list \<Rightarrow> nat \<Rightarrow> BN_ULONG list) \<Rightarrow>
    allocator \<Rightarrow> (nat \<Rightarrow> BIGNUM option) \<Rightarrow> BIGNUM \<Rightarrow> BIGNUM \<Rightarrow> BIGNUM \<Rightarrow> (BIGNUM, unit) op" where
  "mod_consttime f al ctx a b m r =
     (case (bn_resized_from_ctx al a (bn_width m) (ctx 0), bn_resized_from_ctx al b (bn_width m) (ctx 1), bn_scratch_space_from_ctx al (bn_width m) (ctx 2)) of
        (Some a, Some b, Some _) \<Rightarrow>
          pbind (bn_wexpand al (bn_width m)) (\<lambda>_ r.
            (Some (), r\<lparr>bn_d := buf_write (bn_d r) 0 (f (bn_d a) (bn_d b) (bn_d m) (bn_width m)), bn_width := bn_width m, bn_neg := False\<rparr>)) r
      | _ \<Rightarrow> (None, r))"

definition bn_mod_add_consttime :: "allocator \<Rightarrow> (nat \<Rightarrow> BIGNUM option) \<Rightarrow> BIGNUM \<Rightarrow> BIGNUM \<Rightarrow> BIGNUM \<Rightarrow> (BIGNUM, unit) op" where
  "bn_mod_add_consttime = mod_consttime bn_mod_add_words"

definition bn_mod_sub_consttime :: "allocator \<Rightarrow> (nat \<Rightarrow> BIGNUM option) \<Rightarrow> BIGNUM \<Rightarrow> BIGNUM \<Rightarrow> BIGNUM \<Rightarrow> (BIGNUM, unit) op" where
  "bn_mod_sub_consttime = mod_consttime bn_mod_sub_words"

definition bn_mod_lshift1_consttime :: "allocator \<Rightarrow> (nat \<Rightarrow> BIGNUM option) \<Rightarrow> BIGNUM \<Rightarrow> BIGNUM \<Rightarrow> (BIGNUM, unit) op" where
  "bn_mod_lshift1_consttime al ctx a m = bn_mod_add_consttime al ctx a a m"

text \<open>\<open>None\<close> for \<open>ctx\<close> is a failure of \<open>BN_CTX_new\<close>.\<close>

definition BN_mod_add_quick :: "allocator \<Rightarrow> (nat \<Rightarrow> BIGNUM option) option \<Rightarrow> BIGNUM \<Rightarrow> BIGNUM \<Rightarrow> BIGNUM \<Rightarrow> (BIGNUM, unit) op" where
  "BN_mod_add_quick al ctx a b m r = (case ctx of None \<Rightarrow> (None, r) | Some ctx \<Rightarrow> bn_mod_add_consttime al ctx a b m r)"

definition BN_mod_sub_quick :: "allocator \<Rightarrow> (nat \<Rightarrow> BIGNUM option) option \<Rightarrow> BIGNUM \<Rightarrow> BIGNUM \<Rightarrow> BIGNUM \<Rightarrow> (BIGNUM, unit) op" where
  "BN_mod_sub_quick al ctx a b m r = (case ctx of None \<Rightarrow> (None, r) | Some ctx \<Rightarrow> bn_mod_sub_consttime al ctx a b m r)"

definition BN_mod_lshift1_quick :: "allocator \<Rightarrow> (nat \<Rightarrow> BIGNUM option) option \<Rightarrow> BIGNUM \<Rightarrow> BIGNUM \<Rightarrow> (BIGNUM, unit) op" where
  "BN_mod_lshift1_quick al ctx a m r = (case ctx of None \<Rightarrow> (None, r) | Some ctx \<Rightarrow> bn_mod_lshift1_consttime al ctx a m r)"

definition bn_mod_lshift_consttime :: "allocator \<Rightarrow> BIGNUM option \<Rightarrow> BIGNUM \<Rightarrow> int \<Rightarrow> BIGNUM \<Rightarrow> (BIGNUM, unit) op" where
  "bn_mod_lshift_consttime al c a n m =
     pbind (BN_copy al a) (\<lambda>_. pbind (bn_resize_words al (bn_width m)) (\<lambda>_ r.
       case bn_scratch_space_from_ctx al (bn_width m) c of
         None \<Rightarrow> (None, r)
       | Some _ \<Rightarrow>
           (Some (), r\<lparr>bn_d := buf_write (bn_d r) 0 (((\<lambda>ws. bn_mod_add_words ws ws (bn_d m) (bn_width m)) ^^ nat n) (take (bn_width m) (bn_d r))),
                       bn_neg := False\<rparr>)))"

definition BN_mod_lshift_quick :: "allocator \<Rightarrow> BIGNUM option option \<Rightarrow> BIGNUM \<Rightarrow> int \<Rightarrow> BIGNUM \<Rightarrow> (BIGNUM, unit) op" where
  "BN_mod_lshift_quick al ctx a n m r = (case ctx of None \<Rightarrow> (None, r) | Some c \<Rightarrow> bn_mod_lshift_consttime al c a n m r)"

definition BN_mod_lshift :: "allocator \<Rightarrow> (nat \<Rightarrow> BIGNUM option) \<Rightarrow> BIGNUM \<Rightarrow> int \<Rightarrow> BIGNUM \<Rightarrow> BIGNUM \<Rightarrow> (unit option \<times> BIGNUM) option" where
  "BN_mod_lshift al ctx a n m r =
     map_option (\<lambda>(ret, r). case ret of
         None \<Rightarrow> (None, r)
       | Some _ \<Rightarrow>
           if bn_neg m
           then case BN_dup al (Some m) of
                  None \<Rightarrow> (None, r)
                | Some abs_m \<Rightarrow> bn_mod_lshift_consttime al (ctx 4) r n (abs_m\<lparr>bn_neg := False\<rparr>) r
           else bn_mod_lshift_consttime al (ctx 4) r n m r)
       (BN_nnmod al ctx a m r)"

section \<open>Division bit by bit\<close>

text \<open>One bit of the numerator word \<open>x\<close> enters the remainder; the quotient word gets a bit.\<close>

definition div_bit :: "BN_ULONG list \<Rightarrow> nat \<Rightarrow> BN_ULONG \<Rightarrow> nat \<Rightarrow> BN_ULONG list \<times> BN_ULONG \<Rightarrow> BN_ULONG list \<times> BN_ULONG" where
  "div_bit d dw x bt = (\<lambda>(r, q).
     let (r, carry) = bn_add_words r r dw;
         r = r[0 := r ! 0 OR (drop_bit bt x AND 1)];
         (r, subtracted) = bn_reduce_once_in_place r carry d dw
     in (r, q OR push_bit bt (NOT subtracted AND 1)))"

definition div_bits_word :: "BN_ULONG list \<Rightarrow> nat \<Rightarrow> BN_ULONG \<Rightarrow> BN_ULONG list \<Rightarrow> BN_ULONG list \<times> BN_ULONG" where
  "div_bits_word d dw x r = fold (div_bit d dw x) (rev [0..<64]) (r, 0)"

text \<open>The words of the numerator below \<open>i\<close>, from the top; the quotient words are in the order of the numerator's.\<close>

primrec div_bits :: "BN_ULONG list \<Rightarrow> nat \<Rightarrow> BN_ULONG list \<Rightarrow> nat \<Rightarrow> BN_ULONG list \<Rightarrow> BN_ULONG list \<Rightarrow> BN_ULONG list \<times> BN_ULONG list" where
  "div_bits d dw ns 0 r q = (r, q)"
| "div_bits d dw ns (Suc i) r q = (let (r, w) = div_bits_word d dw (ns ! i) r in div_bits d dw ns i r (q[i := w]))"

text \<open>The words of the remainder and of the quotient; the top words of the numerator that are sure to be smaller than the divisor enter at once.\<close>

definition div_bits_run :: "BIGNUM \<Rightarrow> BIGNUM \<Rightarrow> nat \<Rightarrow> BN_ULONG list \<times> BN_ULONG list" where
  "div_bits_run numerator divisor divisor_min_bits =
     (let nw = bn_width numerator; dw = bn_width divisor;
          iw = (if divisor_min_bits > 0 then let iw = (divisor_min_bits - 1) div 64 in if iw > nw then nw else iw else 0);
          r = buf_write (replicate dw 0) 0 (take iw (drop (nw - iw) (bn_d numerator)))
      in div_bits (bn_d divisor) dw (bn_d numerator) (nw - iw) r (replicate nw 0))"

text \<open>
  \<open>quot\<close> and \<open>rem\<close> are \<open>None\<close> for NULL, else the destination and whether it is an operand. \<open>ctx\<close> gives the
  quotient and remainder that are not formed in a destination, and the scratch number.
\<close>

definition div_target :: "(BIGNUM \<times> bool) option \<Rightarrow> BIGNUM option \<Rightarrow> BIGNUM option" where
  "div_target dst c = (case dst of None \<Rightarrow> c | Some (x, same) \<Rightarrow> if same then c else Some x)"

text \<open>What a destination holds when the number formed for it is \<open>x\<close> and it is not copied.\<close>

definition div_partial :: "(BIGNUM \<times> bool) option \<Rightarrow> BIGNUM \<Rightarrow> BIGNUM option" where
  "div_partial dst x = (case dst of None \<Rightarrow> None | Some (y, same) \<Rightarrow> Some (if same then y else x))"

definition div_copy :: "allocator \<Rightarrow> (BIGNUM \<times> bool) option \<Rightarrow> BIGNUM \<Rightarrow> unit option \<times> BIGNUM option" where
  "div_copy al dst x =
     (case dst of
        None \<Rightarrow> (Some (), None)
      | Some (y, same) \<Rightarrow> if same then (case BN_copy al x y of (ok, y) \<Rightarrow> (ok, Some y)) else (Some (), Some x))"

definition bn_div_consttime :: "allocator \<Rightarrow> (nat \<Rightarrow> BIGNUM option) \<Rightarrow> BIGNUM \<Rightarrow> BIGNUM \<Rightarrow> nat \<Rightarrow> (BIGNUM \<times> bool) option \<Rightarrow> (BIGNUM \<times> bool) option \<Rightarrow>
    unit option \<times> BIGNUM option \<times> BIGNUM option" where
  "bn_div_consttime al ctx numerator divisor divisor_min_bits quot rem =
     (let q0 = map_option fst quot; r0 = map_option fst rem; nw = bn_width numerator; dw = bn_width divisor
      in if BN_is_negative numerator \<or> BN_is_negative divisor then (None, q0, r0)
         else if BN_is_zero divisor then (None, q0, r0)
         else case (div_target quot (ctx 0), div_target rem (ctx 1), ctx 2) of
           (Some q, Some r, Some tmp) \<Rightarrow>
             (case bn_wexpand al nw q of
                (None, q) \<Rightarrow> (None, div_partial quot q, r0)
              | (Some _, q) \<Rightarrow> (case bn_wexpand al dw r of
                (None, r) \<Rightarrow> (None, div_partial quot q, div_partial rem r)
              | (Some _, r) \<Rightarrow> (case bn_wexpand al dw tmp of
                (None, _) \<Rightarrow> (None, div_partial quot q, div_partial rem r)
              | (Some _, _) \<Rightarrow>
                  let (rw, qw) = div_bits_run numerator divisor divisor_min_bits;
                      q = q\<lparr>bn_d := buf_write (bn_d q) 0 qw, bn_width := nw, bn_neg := False\<rparr>;
                      r = r\<lparr>bn_d := buf_write (bn_d r) 0 rw, bn_width := dw, bn_neg := False\<rparr>
                  in (case div_copy al quot q of
                        (None, q') \<Rightarrow> (None, q', div_partial rem r)
                      | (Some _, q') \<Rightarrow> (case div_copy al rem r of (ok, r') \<Rightarrow> (ok, q', r'))))))
         | _ \<Rightarrow> (None, q0, r0))"

section \<open>Reduction of words\<close>

lemma bn_reduce_once_val:
  assumes "bn_reduce_once a carry m n = (r, c)" "n \<le> length a" "n \<le> length m"
    and v: "v = words_val (take n a) + 2 ^ (64 * n) * unat carry" "v < 2 * words_val (take n m)"
  shows "length r = n" "words_val r = v mod words_val (take n m)" "c = (if v < words_val (take n m) then - 1 else 0)"
proof -
  define M B where "M = words_val (take n m)" and "B = (2 :: nat) ^ (64 * n)"
  obtain s bo where s: "bn_sub_words a m n = (s, bo)" by fastforce
  note sv = bn_sub_words_val [OF s assms(2,3), folded M_def B_def]
  have lt: "words_val s < B" "M < B" "words_val (take n a) < B"
    using words_val_less [of s] sv(1) assms(2,3) words_val_take_less by (simp_all add: B_def M_def)
  have rc: "c = carry - bo" "r = bn_select_words (carry - bo) a s n" using assms(1) s by (auto simp: bn_reduce_once_def Let_def)
  have c: "c = (if v < M then - 1 else 0)"
  proof (cases "v < M")
    case True
    have "unat carry = 0"
    proof (rule ccontr)
      assume "unat carry \<noteq> 0"
      then have "B \<le> B * unat carry" by simp
      then show False using True v(1) [folded B_def] lt(2) by linarith
    qed
    moreover have "unat bo = 1"
    proof (rule ccontr)
      assume "unat bo \<noteq> 1"
      then have "unat bo = 0" using sv(2) by simp
      then show False using sv(3) True v(1) by (simp add: B_def)
    qed
    ultimately have "carry = 0" "bo = 1" by (simp_all add: unat_eq_zero word_unat_eq_iff [of bo])
    then show ?thesis using rc True by simp
  next
    case False
    have e: "words_val s + B * unat carry + M = v + B * unat bo" using sv(3) v(1) by (simp add: B_def)
    have "unat carry = unat bo"
    proof (rule ccontr)
      assume "unat carry \<noteq> unat bo"
      then consider "unat carry + 1 \<le> unat bo" | "unat bo + 1 \<le> unat carry" by linarith
      then show False
      proof cases
        case 1
        then have "B * (unat carry + 1) \<le> B * unat bo" by (rule mult_le_mono2)
        then show False using e lt False by simp
      next
        case 2
        then have "B * (unat bo + 1) \<le> B * unat carry" by (rule mult_le_mono2)
        then show False using e lt v(2) by (simp add: M_def)
      qed
    qed
    then show ?thesis using rc False by (simp add: word_unat_eq_iff [of carry])
  qed
  have r: "r = take n (if v < M then a else s)"
    using rc(2) bn_select_words_mask [of n a s "v < M"] assms(2) sv(1) c rc(1) by simp
  show "c = (if v < words_val (take n m) then - 1 else 0)" using c by (simp add: M_def)
  show "length r = n" using r assms(2) sv(1) by simp
  show "words_val r = v mod words_val (take n m)"
  proof (cases "v < M")
    case True
    have "v = words_val (take n a)"
    proof (cases "unat carry")
      case (Suc k)
      then have "B \<le> B * unat carry" by simp
      then show ?thesis using True v(1) [folded B_def] lt(2) by linarith
    qed (simp add: v(1))
    then show ?thesis using r True by (simp add: M_def)
  next
    case False
    then have "carry = bo" using c rc(1) by simp
    then have "words_val s + M = v" using sv(3) v(1) by (simp add: B_def)
    then have "words_val s = v - M" by simp
    moreover have "v mod M = v - M" using False v(2) by (simp add: le_mod_geq M_def)
    ultimately show ?thesis using r False sv(1) by (simp add: M_def)
  qed
qed

lemma bn_reduce_in_place: "bn_reduce_once_in_place r c m n = bn_reduce_once r c m n"
  by (simp add: bn_reduce_once_in_place_def bn_reduce_once_def)

lemma bn_mod_add_words_val:
  assumes "n \<le> length a" "n \<le> length b" "n \<le> length m"
    "words_val (take n a) < words_val (take n m)" "words_val (take n b) < words_val (take n m)"
  shows "length (bn_mod_add_words a b m n) = n"
    "words_val (bn_mod_add_words a b m n) = (words_val (take n a) + words_val (take n b)) mod words_val (take n m)"
proof -
  obtain s c where s: "bn_add_words a b n = (s, c)" by fastforce
  obtain r x where r: "bn_reduce_once s c m n = (r, x)" by fastforce
  note sv = bn_add_words_val [OF s assms(1,2)]
  have l: "n \<le> length s" and v: "words_val (take n a) + words_val (take n b) = words_val (take n s) + 2 ^ (64 * n) * unat c" using sv by simp_all
  have "words_val (take n a) + words_val (take n b) < 2 * words_val (take n m)" using assms(4,5) by simp
  from bn_reduce_once_val(1,2) [OF r l assms(3) v this]
  show "length (bn_mod_add_words a b m n) = n" "words_val (bn_mod_add_words a b m n) = (words_val (take n a) + words_val (take n b)) mod words_val (take n m)"
    using s r by (simp_all add: bn_mod_add_words_def bn_reduce_in_place)
qed

lemma bn_mod_sub_words_val:
  assumes "n \<le> length a" "n \<le> length b" "n \<le> length m"
    "words_val (take n a) < words_val (take n m)" "words_val (take n b) < words_val (take n m)"
  shows "length (bn_mod_sub_words a b m n) = n"
    "int (words_val (bn_mod_sub_words a b m n)) = (int (words_val (take n a)) - int (words_val (take n b))) mod int (words_val (take n m))"
proof -
  define A B M where "A = words_val (take n a)" and "B = words_val (take n b)" and "M = words_val (take n m)"
  obtain s c where s: "bn_sub_words a b n = (s, c)" by fastforce
  obtain t x where t: "bn_add_words s m n = (t, x)" by fastforce
  note sv = bn_sub_words_val [OF s assms(1,2), folded A_def B_def]
  have l: "n \<le> length s" using sv by simp
  note tv = bn_add_words_val [OF t l assms(3), folded M_def]
  have lt: "A < M" "B < M" "words_val s < 2 ^ (64 * n)" "words_val t < 2 ^ (64 * n)" "M < 2 ^ (64 * n)"
    using assms(4,5) words_val_less [of s] words_val_less [of t] sv(1) tv(1) words_val_take_less [OF assms(3)] by (simp_all add: A_def B_def M_def)
  have c: "unat c = (if A < B then 1 else 0)"
  proof (cases "unat c = 0")
    case False
    then have "unat c = 1" using sv(2) by simp
    then show ?thesis using sv(3) lt by (auto split: if_splits)
  qed (use sv(3) in simp)
  have w: "0 - c = (if A < B then - 1 else 0)" using c by (auto simp: word_unat_eq_iff [of c] split: if_splits)
  have e: "bn_mod_sub_words a b m n = (if A < B then t else s)"
    using s t bn_select_words_mask [of n t s "A < B"] sv(1) tv(1) w by (simp add: bn_mod_sub_words_def)
  show "length (bn_mod_sub_words a b m n) = n" using e sv(1) tv(1) by simp
  have "int (words_val (if A < B then t else s)) = (int A - int B) mod int M"
  proof (cases "A < B")
    case True
    then have "words_val s + B = A + 2 ^ (64 * n)" using sv(3) c by simp
    moreover have "words_val t + 2 ^ (64 * n) * unat x = words_val s + M" using tv(3) sv(1) by simp
    ultimately have e: "words_val t + B + 2 ^ (64 * n) * unat x = A + M + 2 ^ (64 * n)" by simp
    have "unat x = 1"
    proof (rule ccontr)
      assume "unat x \<noteq> 1"
      then have "unat x = 0" using tv(2) by simp
      then show False using e lt by simp
    qed
    then have "words_val t + B = A + M" using e by simp
    then have "int (words_val t) = int A - int B + int M" by linarith
    moreover have "(int A - int B) mod int M = int A - int B + int M"
      using mod_pos_pos_trivial [of "int A - int B + int M" "int M"] True lt by simp
    ultimately show ?thesis using True by simp
  next
    case False
    then have "words_val s + B = A" using sv(3) c by simp
    then have e: "int A - int B = int (words_val s)" "words_val s < M" using lt(1) by linarith+
    then show ?thesis using False unfolding e by simp
  qed
  then show "int (words_val (bn_mod_sub_words a b m n)) = (int (words_val (take n a)) - int (words_val (take n b))) mod int (words_val (take n m))"
    using e by (simp add: A_def B_def M_def)
qed


section \<open>The loop over the bits\<close>

lemma low_bit_or: "even (w :: BN_ULONG) \<Longrightarrow> unat (w OR (drop_bit k x AND 1)) = unat w + of_bool (bit x k)"
proof -
  assume "even w"
  then have "\<not> bit w 0" by (simp only: bit_0 not_not)
  then have "\<not> bit (unat w) 0" by (simp only: bit_unsigned_iff) blast
  then have e: "even (unat w)" by (simp only: bit_0 not_not)
  have "drop_bit k x AND 1 = of_bool (bit x k)" by (simp add: and_one_eq mod_2_eq_odd bit_iff_odd_drop_bit)
  then have "unat (w OR (drop_bit k x AND 1)) = unat w OR of_bool (bit x k)" by (cases "bit x k") (simp_all only: unsigned_or_eq of_bool_eq unsigned_0 unsigned_1)
  then show ?thesis using e by (cases "bit x k") (simp_all add: or_Suc_0_eq)
qed

lemma clear_bits_or:
  assumes "(2 :: nat) ^ Suc k dvd unat (q :: BN_ULONG)" "k < 64"
  shows "unat (q OR push_bit k (of_bool b)) = unat q + 2 ^ k * of_bool b"
proof -
  have nb: "\<not> bit (unat q) k" using assms(1) by (auto simp: bit_iff_odd elim!: dvdE)
  have p: "unat (push_bit k (of_bool b) :: BN_ULONG) = 2 ^ k * of_bool b"
    using assms(2) unat_of_nat [of "2 ^ k", where 'a = 64] power_strict_increasing [OF assms(2), of "2 :: nat"] by (cases b) simp_all
  have "unat q AND 2 ^ k * of_bool b = 0" using nb by (cases b) (auto intro!: bit_eqI simp: bit_and_iff bit_exp_iff)
  then show ?thesis unfolding unsigned_or_eq p by (simp add: disjunctive_add_eq_or)
qed

lemma div_bit_val:
  assumes "length r = dw" "0 < dw" "dw \<le> length d" and lt: "words_val r < words_val (take dw d)"
    and v: "v = 2 * words_val r + of_bool (bit x k)"
  shows "\<exists>r'. div_bit d dw x k (r, q) = (r', q OR push_bit k (of_bool (words_val (take dw d) \<le> v))) \<and>
    length r' = dw \<and> words_val r' = v mod words_val (take dw d)"
proof -
  obtain s c where s: "bn_add_words r r dw = (s, c)" by fastforce
  note sv = bn_add_words_val [OF s]
  have l: "length s = dw" and e: "words_val s + 2 ^ (64 * dw) * unat c = 2 * words_val r" using sv assms(1) by simp_all
  have "even (2 ^ (64 * dw) * unat c)" using assms(2) by simp
  then have "even (words_val s)" using e by (metis dvd_triv_left even_add)
  then have "\<not> bit (words_val s) 0" by (simp only: bit_0 not_not)
  then have "\<not> bit (s ! 0) 0" using words_val_bit [of s 0] l assms(2) by simp
  then have ev: "even (s ! 0)" by (simp only: bit_0 not_not)
  define t where "t = s[0 := s ! 0 OR (drop_bit k x AND 1)]"
  have t: "length t = dw" "words_val t = words_val s + of_bool (bit x k)"
    using words_val_update [of 0 s "s ! 0 OR (drop_bit k x AND 1)"] low_bit_or [OF ev, of k x] l assms(2) by (simp_all add: t_def)
  obtain r' y where r: "bn_reduce_once t c d dw = (r', y)" by fastforce
  have "v = words_val (take dw t) + 2 ^ (64 * dw) * unat c" "v < 2 * words_val (take dw d)" using v e t lt by (simp_all add: of_bool_def)
  from bn_reduce_once_val [OF r _ assms(3) this] t(1)
  have rv: "length r' = dw" "words_val r' = v mod words_val (take dw d)" "y = (if v < words_val (take dw d) then - 1 else 0)" by simp_all
  have "NOT y AND 1 = of_bool (words_val (take dw d) \<le> v)" using rv(3) by simp
  moreover have "div_bit d dw x k (r, q) = (r', q OR push_bit k (NOT y AND 1))"
    using s r by (simp add: div_bit_def bn_reduce_in_place t_def)
  ultimately show ?thesis using rv by simp
qed

lemma div_split: "u * k + c = u div D * k * D + (u mod D * k + c)" for u k c D :: nat
  by (subst (1) div_mult_mod_eq [of u D, symmetric]) (simp only: algebra_simps)

lemma div_bits_val:
  assumes "0 < dw" "dw \<le> length d" "k \<le> 64" "length r = dw" "words_val r < words_val (take dw d)" "2 ^ k dvd unat q"
    and "v = words_val r * 2 ^ k + unat x mod 2 ^ k"
  shows "\<exists>r' q'. fold (div_bit d dw x) (rev [0..<k]) (r, q) = (r', q') \<and> length r' = dw \<and>
    words_val r' = v mod words_val (take dw d) \<and> unat q' = unat q + v div words_val (take dw d)"
  using assms(3-)
proof (induction k arbitrary: r q v)
  case 0
  then show ?case by simp
next
  case (Suc k)
  define D u where "D = words_val (take dw d)" and "u = 2 * words_val r + of_bool (bit x k)"
  obtain r1 where r1: "div_bit d dw x k (r, q) = (r1, q OR push_bit k (of_bool (D \<le> u)))" "length r1 = dw" "words_val r1 = u mod D"
    using div_bit_val [OF Suc.prems(2) assms(1,2) Suc.prems(3) u_def, of q] by (auto simp: D_def)
  have D: "0 < D" "u < 2 * D" using Suc.prems(3) by (simp_all add: D_def u_def of_bool_def)
  have ud: "u div D = of_bool (D \<le> u)" using D by (cases "D \<le> u") (simp_all add: le_div_geq div_less)
  let ?q = "q OR push_bit k (of_bool (D \<le> u))"
  have uq: "unat ?q = unat q + 2 ^ k * (u div D)" using clear_bits_or [OF Suc.prems(4)] Suc.prems(1) ud by simp
  then have "2 ^ k dvd unat ?q" using Suc.prems(4) by (auto elim!: dvdE)
  moreover have "words_val r1 < words_val (take dw d)" using r1(3) D by (simp add: D_def)
  ultimately obtain r' q' where f: "fold (div_bit d dw x) (rev [0..<k]) (r1, ?q) = (r', q')" "length r' = dw"
    "words_val r' = (words_val r1 * 2 ^ k + unat x mod 2 ^ k) mod D" "unat q' = unat ?q + (words_val r1 * 2 ^ k + unat x mod 2 ^ k) div D"
    using Suc.IH [of r1 ?q] Suc.prems(1) r1(2) D_def by auto
  have "unat x mod 2 ^ Suc k = 2 ^ k * of_bool (bit x k) + unat x mod 2 ^ k"
    using take_bit_Suc_from_most [of k "unat x"] by (simp add: take_bit_eq_mod bit_unsigned_iff algebra_simps)
  then have "v = u * 2 ^ k + unat x mod 2 ^ k" using Suc.prems(5) by (simp add: u_def algebra_simps)
  also have "\<dots> = u div D * 2 ^ k * D + (u mod D * 2 ^ k + unat x mod 2 ^ k)"
    by (rule div_split)
  finally have v: "v = u div D * 2 ^ k * D + (words_val r1 * 2 ^ k + unat x mod 2 ^ k)" using r1(3) by simp
  have "v mod D = words_val r'" "v div D = u div D * 2 ^ k + (words_val r1 * 2 ^ k + unat x mod 2 ^ k) div D"
    unfolding v using f(3) D(1) by simp_all
  then show ?case using f r1(1) uq by (simp add: D_def)
qed

lemma div_bits_word_val:
  assumes "0 < dw" "dw \<le> length d" "length r = dw" "words_val r < words_val (take dw d)" "v = words_val r * 2 ^ 64 + unat x"
  shows "\<exists>r' q'. div_bits_word d dw x r = (r', q') \<and> length r' = dw \<and>
    words_val r' = v mod words_val (take dw d) \<and> unat q' = v div words_val (take dw d)"
proof -
  have "v = words_val r * 2 ^ 64 + unat x mod 2 ^ 64" using assms(5) unat_u64_less [of x] by simp
  from div_bits_val [OF assms(1,2) _ assms(3,4) _ this, of 0] show ?thesis by (simp add: div_bits_word_def)
qed

lemma div_bits_all:
  assumes "0 < dw" "dw \<le> length d" "length r = dw" "words_val r < words_val (take dw d)" "i \<le> length ns" "i \<le> length q"
    and "v = words_val r * 2 ^ (64 * i) + words_val (take i ns)"
  shows "\<exists>r' q'. div_bits d dw ns i r q = (r', q') \<and> length r' = dw \<and> length q' = length q \<and> drop i q' = drop i q \<and>
    words_val r' = v mod words_val (take dw d) \<and> words_val (take i q') = v div words_val (take dw d)"
  using assms(3-)
proof (induction i arbitrary: r q v)
  case 0
  then show ?case by simp
next
  case (Suc i)
  define D u where "D = words_val (take dw d)" and "u = words_val r * 2 ^ 64 + unat (ns ! i)"
  obtain r1 w where r1: "div_bits_word d dw (ns ! i) r = (r1, w)" "length r1 = dw" "words_val r1 = u mod D" "unat w = u div D"
    using div_bits_word_val [OF assms(1,2) Suc.prems(1,2) u_def] by (auto simp: D_def)
  have D: "0 < D" using Suc.prems(2) by (simp add: D_def)
  have "words_val r1 < words_val (take dw d)" using r1(3) D by (simp add: D_def)
  then obtain r' q' where f: "div_bits d dw ns i r1 (q[i := w]) = (r', q')" "length r' = dw" "length q' = length q" "drop i q' = drop i (q[i := w])"
    "words_val r' = (words_val r1 * 2 ^ (64 * i) + words_val (take i ns)) mod D"
    "words_val (take i q') = (words_val r1 * 2 ^ (64 * i) + words_val (take i ns)) div D"
    using Suc.IH [of r1 "q[i := w]"] Suc.prems(3,4) r1(2) D_def by auto
  have d: "drop (Suc i) q' = drop (Suc i) q" "q' ! i = w"
  proof -
    have "drop (Suc i) q' = drop 1 (drop i q')" by simp
    then show "drop (Suc i) q' = drop (Suc i) q" unfolding f(4) by simp
    have "q' ! i = drop i q' ! 0" using f(3) Suc.prems(4) by simp
    then show "q' ! i = w" unfolding f(4) using Suc.prems(4) by simp
  qed
  have "words_val (take (Suc i) ns) = words_val (take i ns) + 2 ^ (64 * i) * unat (ns ! i)"
    using words_val_top [of "Suc i" ns] Suc.prems(3) by simp
  then have "v = u * 2 ^ (64 * i) + words_val (take i ns)" using Suc.prems(5) by (simp add: u_def algebra_simps power_add)
  also have "\<dots> = u div D * 2 ^ (64 * i) * D + (u mod D * 2 ^ (64 * i) + words_val (take i ns))"
    by (rule div_split)
  finally have v: "v = u div D * 2 ^ (64 * i) * D + (words_val r1 * 2 ^ (64 * i) + words_val (take i ns))" using r1(3) by simp
  have "v mod D = words_val r'" "v div D = u div D * 2 ^ (64 * i) + words_val (take i q')" unfolding v using f(5,6) D by simp_all
  moreover have "words_val (take (Suc i) q') = words_val (take i q') + 2 ^ (64 * i) * unat w"
    using words_val_top [of "Suc i" q'] Suc.prems(4) f(3) d(2) by simp
  ultimately show ?case using f r1 d by (simp add: D_def)
qed


section \<open>Division in constant time\<close>

lemma div_bits_run_val:
  assumes "bn_wf a" "bn_wf b" "bn_mag b \<noteq> 0" "mb \<le> BN_num_bits b"
  shows "\<exists>rw qw. div_bits_run a b mb = (rw, qw) \<and> length rw = bn_width b \<and> length qw = bn_width a \<and>
    words_val rw = bn_mag a mod bn_mag b \<and> words_val qw = bn_mag a div bn_mag b"
proof -
  define nw dw where "nw = bn_width a" and "dw = bn_width b"
  define iw where "iw = (if mb > 0 then let iw = (mb - 1) div 64 in if iw > nw then nw else iw else 0)"
  define w where "w = take iw (drop (nw - iw) (bn_d a))"
  have l: "nw \<le> length (bn_d a)" "dw \<le> length (bn_d b)" using assms(1,2) by (simp_all add: bn_wfD nw_def dw_def)
  have iw: "iw \<le> nw" "64 * iw < mb \<or> iw = 0" by (auto simp: iw_def Let_def)
  have big: "2 ^ (64 * iw) \<le> bn_mag b"
  proof (cases "iw = 0")
    case False
    then have "\<not> BN_num_bits b \<le> 64 * iw" using iw(2) assms(4) by linarith
    then show ?thesis by (simp add: BN_num_bits_eq [OF assms(2)] bit_length_le)
  qed (use assms(3) in simp)
  have mb: "bn_mag b = words_val (take dw (bn_d b))" by (simp add: bn_mag_def dw_def)
  have "(2 :: nat) ^ (64 * iw) < 2 ^ (64 * dw)" by (rule le_less_trans [OF big [unfolded mb] words_val_take_less [OF l(2)]])
  then have "iw < dw" by (simp add: power_less_imp_less_exp)
  moreover have lw: "length w = iw" using l(1) iw(1) by (simp add: w_def)
  ultimately have z: "length (buf_write (replicate dw 0) 0 w) = dw" "words_val (buf_write (replicate dw 0) 0 w) = words_val w" "0 < dw"
    using words_val_on_zeros [of w dw] by simp_all
  have "words_val w < bn_mag b" using words_val_less [of w] lw big by simp
  then have lt: "words_val (buf_write (replicate dw 0) 0 w) < words_val (take dw (bn_d b))" using z(2) mb by simp
  have e: "bn_mag a = words_val (buf_write (replicate dw 0) 0 w) * 2 ^ (64 * (nw - iw)) + words_val (take (nw - iw) (bn_d a))"
    using words_val_take_add [of "nw - iw" iw "bn_d a"] l(1) iw(1) z(2) by (simp add: bn_mag_def nw_def w_def)
  have i: "nw - iw \<le> length (bn_d a)" "nw - iw \<le> length (replicate nw (0 :: BN_ULONG))" using l(1) by simp_all
  from div_bits_all [OF z(3) l(2) z(1) lt i e] obtain rw qw where
    r: "div_bits (bn_d b) dw (bn_d a) (nw - iw) (buf_write (replicate dw 0) 0 w) (replicate nw 0) = (rw, qw)" "length rw = dw" "length qw = nw"
    "drop (nw - iw) qw = replicate iw 0" "words_val rw = bn_mag a mod bn_mag b" "words_val (take (nw - iw) qw) = bn_mag a div bn_mag b"
    using iw(1) mb by auto
  have "words_val qw = bn_mag a div bn_mag b" using words_val_split [of "nw - iw" qw] r(3,4,6) by simp
  moreover have "div_bits_run a b mb = (rw, qw)" using r(1) unfolding w_def iw_def by (simp only: div_bits_run_def nw_def dw_def Let_def)
  ultimately show ?thesis using r by (auto simp: nw_def dw_def)
qed

lemma div_target_dest:
  assumes "\<forall>x s. dst = Some (x, s) \<longrightarrow> bn_dest al n x" "\<exists>x. c = Some x \<and> bn_dest al n x"
  shows "\<exists>x. div_target dst c = Some x \<and> bn_dest al n x"
  using assms by (auto simp: div_target_def split: option.splits prod.splits)

definition bn_fixed :: "BIGNUM \<Rightarrow> nat \<Rightarrow> nat \<Rightarrow> bool" where
  "bn_fixed x w v \<longleftrightarrow> bn_ok x \<and> bn_width x = w \<and> bn_val x = int v"

lemma div_copy_ok:
  assumes "bn_fixed x n v" "\<forall>y s. dst = Some (y, s) \<longrightarrow> bn_dest al n y"
  shows "\<exists>z. div_copy al dst x = (Some (), map_option (\<lambda>_. z) dst) \<and> bn_fixed z n v"
proof (cases "\<exists>y. dst = Some (y, True)")
  case True
  then obtain y where y: "dst = Some (y, True)" "bn_dest al (bn_width x) y" using assms by (auto simp: bn_fixed_def)
  obtain z where z: "BN_copy al x y = (Some (), z)" "bn_wf z" "bn_mag z = bn_mag x" "bn_neg z = bn_neg x"
    using bn_copy_val [OF _ y(2)] assms(1) by (auto simp: bn_fixed_def bn_ok_def)
  have "bn_width z = bn_width x" using z(1) by (auto simp: BN_copy_def pbind_def split: prod.splits option.splits)
  then show ?thesis using y(1) z assms(1) by (auto simp: div_copy_def bn_fixed_def bn_ok_def bn_val_def)
next
  case False
  then show ?thesis using assms(1) by (cases dst) (auto simp: div_copy_def)
qed

lemma store_fixed:
  assumes "bn_wf r" "length ws \<le> bn_dmax r" "words_val ws = v"
  shows "bn_fixed (r\<lparr>bn_d := buf_write (bn_d r) 0 ws, bn_width := length ws, bn_neg := False\<rparr>) (length ws) v"
proof -
  let ?r = "r\<lparr>bn_d := buf_write (bn_d r) 0 ws, bn_width := length ws, bn_neg := False\<rparr>"
  have "bn_wf ?r \<and> bn_mag ?r = v" by (rule store_words [OF assms(1,2) order_refl assms(3)]) (use words_val_less [of ws] assms(3) in auto)
  then show ?thesis by (simp add: bn_fixed_def bn_ok_def bn_val_def)
qed

lemma bn_div_consttime_ok:
  assumes "bn_ok a" "bn_ok b" "0 \<le> bn_val a" "0 < bn_val b" "mb \<le> BN_num_bits b"
    and c: "\<forall>k<3. \<exists>x. ctx k = Some x \<and> bn_dest al (max (bn_width a) (bn_width b)) x"
    and q: "\<forall>x s. quot = Some (x, s) \<longrightarrow> bn_dest al (bn_width a) x" and r: "\<forall>x s. rem = Some (x, s) \<longrightarrow> bn_dest al (bn_width b) x"
  shows "\<exists>q r. bn_div_consttime al ctx a b mb quot rem = (Some (), map_option (\<lambda>_. q) quot, map_option (\<lambda>_. r) rem) \<and>
    bn_fixed q (bn_width a) (bn_mag a div bn_mag b) \<and> bn_fixed r (bn_width b) (bn_mag a mod bn_mag b)"
proof -
  have wf: "bn_wf a" "bn_wf b" "\<not> bn_neg a" "\<not> bn_neg b" "bn_mag b \<noteq> 0" using assms(1-4) by (auto simp: bn_ok_def bn_val_def split: if_splits)
  have g: "\<not> (BN_is_negative a \<or> BN_is_negative b)" "\<not> BN_is_zero b" using wf by (simp_all add: BN_is_negative_def BN_is_zero_iff)
  have "\<exists>x. ctx 0 = Some x \<and> bn_dest al (bn_width a) x" "\<exists>x. ctx 1 = Some x \<and> bn_dest al (bn_width b) x" "\<exists>x. ctx 2 = Some x \<and> bn_dest al (bn_width b) x"
    using c [rule_format, of 0] c [rule_format, of 1] c [rule_format, of 2] by (force intro: bn_dest_mono)+
  then obtain q0 r0 t0 where t: "div_target quot (ctx 0) = Some q0" "div_target rem (ctx 1) = Some r0" "ctx 2 = Some t0"
    "bn_dest al (bn_width a) q0" "bn_dest al (bn_width b) r0" "bn_dest al (bn_width b) t0"
    using div_target_dest [OF q] div_target_dest [OF r] by blast
  obtain q1 r1 t1 where e: "bn_wexpand al (bn_width a) q0 = (Some (), q1)" "bn_wf q1" "bn_width a \<le> bn_dmax q1"
    "bn_wexpand al (bn_width b) r0 = (Some (), r1)" "bn_wf r1" "bn_width b \<le> bn_dmax r1" "bn_wexpand al (bn_width b) t0 = (Some (), t1)"
    using bn_wexpand_ok [OF t(4)] bn_wexpand_ok [OF t(5)] bn_wexpand_ok [OF t(6)] by blast
  obtain rw qw where d: "div_bits_run a b mb = (rw, qw)" "length rw = bn_width b" "length qw = bn_width a"
    "words_val rw = bn_mag a mod bn_mag b" "words_val qw = bn_mag a div bn_mag b"
    using div_bits_run_val [OF wf(1,2,5) assms(5)] by blast
  define q2 r2 where "q2 = q1\<lparr>bn_d := buf_write (bn_d q1) 0 qw, bn_width := bn_width a, bn_neg := False\<rparr>"
    and "r2 = r1\<lparr>bn_d := buf_write (bn_d r1) 0 rw, bn_width := bn_width b, bn_neg := False\<rparr>"
  have f: "bn_fixed q2 (bn_width a) (bn_mag a div bn_mag b)" "bn_fixed r2 (bn_width b) (bn_mag a mod bn_mag b)"
    using store_fixed [OF e(2) _ d(5)] store_fixed [OF e(5) _ d(4)] e(3,6) d(2,3) by (simp_all add: q2_def r2_def)
  obtain q' r' where p: "div_copy al quot q2 = (Some (), map_option (\<lambda>_. q') quot)" "bn_fixed q' (bn_width a) (bn_mag a div bn_mag b)"
    "div_copy al rem r2 = (Some (), map_option (\<lambda>_. r') rem)" "bn_fixed r' (bn_width b) (bn_mag a mod bn_mag b)"
    using div_copy_ok [OF f(1) q] div_copy_ok [OF f(2) r] by blast
  have "bn_div_consttime al ctx a b mb quot rem = (Some (), map_option (\<lambda>_. q') quot, map_option (\<lambda>_. r') rem)"
    unfolding bn_div_consttime_def Let_def if_not_P [OF g(1)] if_not_P [OF g(2)] t(1-3) option.case prod.case e(1,4,7) d(1)
      q2_def [symmetric] r2_def [symmetric] p(1,3) ..
  then show ?thesis using p by blast
qed


section \<open>Destinations keep their memory\<close>

definition grows :: "(BIGNUM, 'a) op \<Rightarrow> bool" where
  "grows f \<longleftrightarrow> (\<forall>r. bn_grown r (snd (f r)))"

lemma bn_grown_refl [simp]: "bn_grown r r"
  by (simp add: bn_grown_def)

lemma bn_grown_trans: "bn_grown a b \<Longrightarrow> bn_grown b c \<Longrightarrow> bn_grown a c"
  by (simp add: bn_grown_def)

lemma bn_grown_fields [simp]: "bn_grown r (r'\<lparr>bn_neg := s\<rparr>) = bn_grown r r'" "bn_grown r (r'\<lparr>bn_width := w\<rparr>) = bn_grown r r'"
  "bn_grown r (r'\<lparr>bn_d := d\<rparr>) = bn_grown r r'"
  by (simp_all add: bn_grown_def)

lemma growsD: "grows f \<Longrightarrow> f r = (x, r') \<Longrightarrow> bn_grown r r'"
  unfolding grows_def by (metis snd_conv)

lemma grows_pbind: "grows f \<Longrightarrow> (\<And>x r. bn_grown r (snd (g x r))) \<Longrightarrow> grows (pbind f g)"
  unfolding grows_def pbind_def by (auto split: prod.splits option.splits) (metis bn_grown_trans snd_conv)+

lemma grows_wexpand: "grows (bn_wexpand al n)"
  unfolding grows_def using bn_wexpand_grown [of al n] by (metis prod.collapse)

lemma grows_uadd: "grows (BN_uadd al a b)"
  unfolding BN_uadd_def bn_uadd_consttime_def Let_def
  by (intro grows_pbind) (auto intro!: grows_pbind grows_wexpand split: prod.splits)

lemma grows_usub: "grows (BN_usub al a b)"
proof -
  have "grows (bn_usub_consttime al a b)"
  proof (unfold grows_def, rule allI)
    fix r
    let ?w = "if bn_width b > bn_width a then bn_width a else bn_width b"
    have "grows (pbind (bn_wexpand al (bn_width a)) (\<lambda>_ r.
                let (lo, borrow) = bn_sub_words (bn_d a) (bn_d b) ?w;
                    (hi, borrow) = words_tail (\<lambda>i. CRYPTO_subc_w (bn_d a ! i) 0) ?w (bn_width a - ?w) borrow;
                    r = r\<lparr>bn_d := buf_write (bn_d r) 0 (lo @ hi)\<rparr>
                in if borrow \<noteq> 0 then (None, r)
                   else (Some (), r\<lparr>bn_width := bn_width a, bn_neg := False\<rparr>)))"
      by (rule grows_pbind [OF grows_wexpand]) (simp add: Let_def split: prod.splits)
    then show "bn_grown r (snd (bn_usub_consttime al a b r))" unfolding bn_usub_consttime_def grows_def Let_def by simp
  qed
  then show ?thesis unfolding BN_usub_def by (rule grows_pbind) simp
qed

lemma grows_signed_usub: "grows (signed_usub al a b)"
  unfolding signed_usub_def by (simp add: grows_pbind grows_usub)

lemma BN_add_grown: "BN_add al a b r = (x, r') \<Longrightarrow> bn_grown r r'"
  using grows_signed_usub [THEN growsD] grows_uadd [THEN growsD] by (auto simp: BN_add_def Let_def split: if_splits prod.splits)

lemma BN_sub_grown: "BN_sub al a b r = (x, r') \<Longrightarrow> bn_grown r r'"
proof -
  have "grows (BN_sub al a b)" unfolding BN_sub_def by (simp add: grows_pbind grows_uadd grows_signed_usub)
  then show "BN_sub al a b r = (x, r') \<Longrightarrow> bn_grown r r'" by (rule growsD)
qed

lemma BN_lshift1_grown:
  assumes "BN_lshift1 al a r = (x, r')"
  shows "bn_grown r r'"
proof -
  obtain y r1 where r1: "bn_wexpand al (bn_width a + 1) (r\<lparr>bn_neg := bn_neg a\<rparr>) = (y, r1)" by force
  from bn_wexpand_grown [OF this] have "bn_grown r r1" by (simp add: bn_grown_def)
  then show ?thesis using assms r1 by (auto simp: BN_lshift1_def pbind_def Let_def split: option.splits prod.splits if_splits)
qed

lemma BN_rshift_grown: "BN_rshift al a n r = (x, r') \<Longrightarrow> bn_grown r r'"
proof -
  have "grows (BN_rshift al a n)"
    using grows_pbind [OF grows_wexpand, of "\<lambda>_ r. (Some (), bn_set_minimal_width (r\<lparr>bn_d := buf_write (bn_d r) 0 (bn_rshift_words (bn_d a) (nat n) (bn_width a)),
                                               bn_neg := bn_neg a, bn_width := bn_width a\<rparr>))" al "bn_width a"]
    by (simp add: grows_def BN_rshift_def)
  then show "BN_rshift al a n r = (x, r') \<Longrightarrow> bn_grown r r'" by (rule growsD)
qed

lemma BN_div_grown:
  assumes "BN_div al ctx a b None (Some r) = Some (x, q, Some r')"
  shows "bn_grown r r'"
  using assms unfolding BN_div_def Let_def
  by (auto split: if_splits option.splits prod.splits dest: BN_rshift_grown)


section \<open>Non-negative remainders\<close>

definition mod_memory :: "allocator \<Rightarrow> (nat \<Rightarrow> BIGNUM option) \<Rightarrow> nat \<Rightarrow> BIGNUM \<Rightarrow> bool" where
  "mod_memory al ctx n r \<longleftrightarrow> (\<forall>k<6. \<exists>x. ctx k = Some x \<and> bn_dest al n x) \<and> bn_dest al n r"

lemma mod_memory_ctx: "mod_memory al ctx n r \<Longrightarrow> k < 6 \<Longrightarrow> m \<le> n \<Longrightarrow> \<exists>x. ctx k = Some x \<and> bn_dest al m x"
  by (metis mod_memory_def bn_dest_mono)

lemma mod_memory_div: "mod_memory al ctx n r \<Longrightarrow> m \<le> n \<Longrightarrow> div_memory al ctx m None (Some r)"
  "mod_memory al ctx n r \<Longrightarrow> m \<le> n \<Longrightarrow> div_memory al (\<lambda>k. ctx (k + 2)) m None (Some r)"
  using mod_memory_ctx [of al ctx n r] unfolding div_memory_def by (auto simp: mod_memory_def intro: bn_dest_mono)

lemma mod_memory_grown: "mod_memory al ctx n r \<Longrightarrow> bn_grown r r' \<Longrightarrow> bn_wf r' \<Longrightarrow> mod_memory al ctx n r'"
  by (auto simp: mod_memory_def bn_grown_dest)

lemma bn_val_abs: "\<bar>bn_val a\<bar> = int (bn_mag a)"
  by (simp add: bn_val_def)

lemma bn_result_width: "bn_result r v \<Longrightarrow> \<bar>v\<bar> < 2 ^ (64 * w) \<Longrightarrow> bn_width r \<le> w"
proof -
  assume r: "bn_result r v" and "\<bar>v\<bar> < 2 ^ (64 * w)"
  then have "int (bn_mag r) < int (2 ^ (64 * w))" using bn_val_abs [of r] by (simp add: bn_result_def)
  then have "bn_mag r < 2 ^ (64 * w)" by (simp only: of_nat_less_iff)
  with r show "bn_width r \<le> w" by (intro bn_minimal_width_le) (auto simp: bn_result_def bn_ok_def)
qed

lemma bn_val_less: "bn_wf a \<Longrightarrow> \<bar>bn_val a\<bar> < 2 ^ (64 * bn_width a)"
proof -
  assume "bn_wf a"
  from bn_mag_less [OF this] have "int (bn_mag a) < int (2 ^ (64 * bn_width a))" by (simp only: of_nat_less_iff)
  then show "\<bar>bn_val a\<bar> < 2 ^ (64 * bn_width a)" by (simp add: bn_val_def)
qed

lemma BN_mod_ok:
  assumes "bn_ok a" "bn_ok d" "bn_mag d \<noteq> 0" "div_memory al ctx (bn_width a + bn_width d + 8) None (Some r)"
  shows "\<exists>r'. BN_mod al ctx a d r = Some (Some (), r') \<and> bn_grown r r' \<and>
    bn_result r' (if bn_neg a then - int (bn_mag a mod bn_mag d) else int (bn_mag a mod bn_mag d))"
proof -
  obtain r' where r: "BN_div al ctx a d None (Some r) = Some (Some (), None, Some r')"
    "bn_result r' (if bn_neg a then - int (bn_mag a mod bn_mag d) else int (bn_mag a mod bn_mag d))"
    using BN_div_ok [OF assms] by auto
  then show ?thesis using BN_div_grown [OF r(1)] by (simp add: BN_mod_def)
qed

lemma nonneg_mod:
  fixes a d :: nat
  assumes "0 < d"
  shows "(- int a) mod int d = (if a mod d = 0 then 0 else int d - int (a mod d))"
  unfolding zmod_zminus1_eq_if of_nat_mod [symmetric] using assms by simp

lemma BN_nnmod_ok:
  assumes "bn_ok a" "bn_ok d" "bn_val d \<noteq> 0" "div_memory al ctx (bn_width a + bn_width d + 8) None (Some r)"
  shows "\<exists>r'. BN_nnmod al ctx a d r = Some (Some (), r') \<and> bn_grown r r' \<and> bn_result r' (bn_val a mod \<bar>bn_val d\<bar>)"
proof -
  have d: "bn_mag d \<noteq> 0" "\<bar>bn_val d\<bar> = int (bn_mag d)" using assms(3) by (auto simp: bn_val_def split: if_splits)
  obtain r1 where r: "BN_mod al ctx a d r = Some (Some (), r1)" "bn_grown r r1"
    "bn_result r1 (if bn_neg a then - int (bn_mag a mod bn_mag d) else int (bn_mag a mod bn_mag d))"
    using BN_mod_ok [OF assms(1,2) d(1) assms(4)] by blast
  have v: "bn_ok r1" "bn_val r1 = (if bn_neg a then - int (bn_mag a mod bn_mag d) else int (bn_mag a mod bn_mag d))" using r(3) by (auto simp: bn_result_def)
  show ?thesis
  proof (cases "bn_neg r1")
    case False
    have "bn_val a mod \<bar>bn_val d\<bar> = bn_val r1"
    proof (cases "bn_neg a")
      case True
      then have "bn_mag a mod bn_mag d = 0" using v False by (simp add: bn_val_def)
      then show ?thesis using nonneg_mod [of "bn_mag d" "bn_mag a"] v True d by (simp add: bn_val_def [of a])
    qed (use v d in \<open>simp add: bn_val_def [of a] zmod_int\<close>)
    then show ?thesis using r False v by (auto simp: BN_nnmod_def bn_result_def)
  next
    case True
    have nz: "bn_mag r1 \<noteq> 0" using True v(1) by (simp add: bn_ok_def)
    then have n: "bn_neg a" "bn_mag a mod bn_mag d \<noteq> 0" using v True by (auto simp: bn_val_def split: if_splits)
    have "\<bar>bn_val r1\<bar> < \<bar>bn_val d\<bar>" using v(2) d by simp
    also have "\<dots> < 2 ^ (64 * bn_width d)" using bn_val_less assms(2) by (simp add: bn_ok_def)
    finally have "\<bar>bn_val r1\<bar> < 2 ^ (64 * bn_width d)" .
    from bn_result_width [OF r(3) [folded v(2)] this] have "max (bn_width r1) (bn_width d) + 1 \<le> bn_width a + bn_width d + 8" by simp
    moreover have "bn_dest al (bn_width a + bn_width d + 8) r1"
      using bn_grown_dest [OF r(2)] assms(4) v(1) by (auto simp: div_memory_def bn_ok_def)
    ultimately have dest: "bn_dest al (max (bn_width r1) (bn_width d) + 1) r1" by (rule bn_dest_mono [rotated])
    have e: "bn_val a mod \<bar>bn_val d\<bar> = bn_val r1 + \<bar>bn_val d\<bar>" using nonneg_mod [of "bn_mag d" "bn_mag a"] v(2) n d by (simp add: bn_val_def [of a])
    show ?thesis
    proof (cases "bn_neg d")
      case True
      then have "\<bar>bn_val d\<bar> = - bn_val d" by (simp add: bn_val_def)
      then show ?thesis using BN_sub_ok [OF v(1) assms(2) dest] BN_sub_grown [of al r1 d r1] bn_grown_trans [OF r(2)] r(1) \<open>bn_neg r1\<close> True e
        by (auto simp: BN_nnmod_def)
    next
      case False
      then have "\<bar>bn_val d\<bar> = bn_val d" by (simp add: bn_val_def)
      then show ?thesis using BN_add_ok [OF v(1) assms(2) dest] BN_add_grown [of al r1 d r1] bn_grown_trans [OF r(2)] r(1) \<open>bn_neg r1\<close> False e
        by (auto simp: BN_nnmod_def)
    qed
  qed
qed


lemma then_nnmod_ok:
  assumes "f = (Some (), r1)" "bn_ok r1" "bn_grown r r1" "bn_width r1 + bn_width m + 8 \<le> n" "bn_ok m" "bn_val m \<noteq> 0" "mod_memory al ctx n r"
  shows "\<exists>r'. then_nnmod al ctx m f = Some (Some (), r') \<and> bn_result r' (bn_val r1 mod \<bar>bn_val m\<bar>)"
proof -
  have "mod_memory al ctx n r1" using mod_memory_grown [OF assms(7,3)] assms(2) by (simp add: bn_ok_def)
  from BN_nnmod_ok [OF assms(2,5,6) mod_memory_div(1) [OF this assms(4)]] show ?thesis using assms(1) by (auto simp: then_nnmod_def)
qed

lemma sum_width:
  assumes "bn_ok a" "bn_ok b" "\<bar>v\<bar> \<le> \<bar>bn_val a\<bar> + \<bar>bn_val b\<bar>" "bn_result r v"
  shows "bn_width r \<le> bn_width a + bn_width b + 1"
proof (rule bn_result_width [OF assms(4)])
  let ?n = "bn_width a + bn_width b"
  have "(2 :: int) ^ (64 * bn_width a) \<le> 2 ^ (64 * ?n)" "(2 :: int) ^ (64 * bn_width b) \<le> 2 ^ (64 * ?n)" by (intro power_increasing; simp)+
  moreover have "\<bar>bn_val a\<bar> < 2 ^ (64 * bn_width a)" "\<bar>bn_val b\<bar> < 2 ^ (64 * bn_width b)" using assms(1,2) by (auto intro!: bn_val_less simp: bn_ok_def)
  moreover have "2 ^ (64 * ?n) * 2 \<le> (2 :: int) ^ (64 * ?n) * 2 ^ 64" by (intro mult_left_mono) simp_all
  moreover have "(2 :: int) ^ (64 * (?n + 1)) = 2 ^ (64 * ?n) * 2 ^ 64" by (simp only: power_add distrib_left mult_1_right)
  ultimately show "\<bar>v\<bar> < 2 ^ (64 * (?n + 1))" using assms(3) by linarith
qed

lemma product_width:
  assumes "bn_ok a" "bn_ok b" "bn_result r (bn_val a * bn_val b)"
  shows "bn_width r \<le> bn_width a + bn_width b"
proof (rule bn_result_width [OF assms(3)])
  have "\<bar>bn_val a\<bar> * \<bar>bn_val b\<bar> < 2 ^ (64 * bn_width a) * 2 ^ (64 * bn_width b)"
    using assms(1,2) by (intro mult_strict_mono' bn_val_less) (auto simp: bn_ok_def)
  then show "\<bar>bn_val a * bn_val b\<bar> < 2 ^ (64 * (bn_width a + bn_width b))" by (simp add: abs_mult distrib_left power_add)
qed

lemma BN_mod_add_ok:
  assumes "bn_ok a" "bn_ok b" "bn_ok m" "bn_val m \<noteq> 0" "mod_memory al ctx (bn_width a + bn_width b + bn_width m + 9) r"
  shows "\<exists>r'. BN_mod_add al ctx a b m r = Some (Some (), r') \<and> bn_result r' ((bn_val a + bn_val b) mod \<bar>bn_val m\<bar>)"
proof -
  have "bn_dest al (max (bn_width a) (bn_width b) + 1) r" using assms(5) by (auto simp: mod_memory_def intro: bn_dest_mono)
  then obtain r1 where r1: "BN_add al a b r = (Some (), r1)" "bn_result r1 (bn_val a + bn_val b)" using BN_add_ok [OF assms(1,2)] by blast
  have ok: "bn_ok r1" "bn_val r1 = bn_val a + bn_val b" using r1(2) by (simp_all add: bn_result_def)
  have "bn_width r1 \<le> bn_width a + bn_width b + 1" by (rule sum_width [OF assms(1,2) _ r1(2)]) simp
  then have "bn_width r1 + bn_width m + 8 \<le> bn_width a + bn_width b + bn_width m + 9" by simp
  from then_nnmod_ok [OF r1(1) ok(1) BN_add_grown [OF r1(1)] this assms(3-5)] show ?thesis by (simp add: BN_mod_add_def ok(2) r1(1))
qed

lemma BN_mod_sub_ok:
  assumes "bn_ok a" "bn_ok b" "bn_ok m" "bn_val m \<noteq> 0" "mod_memory al ctx (bn_width a + bn_width b + bn_width m + 9) r"
  shows "\<exists>r'. BN_mod_sub al ctx a b m r = Some (Some (), r') \<and> bn_result r' ((bn_val a - bn_val b) mod \<bar>bn_val m\<bar>)"
proof -
  have "bn_dest al (max (bn_width a) (bn_width b) + 1) r" using assms(5) by (auto simp: mod_memory_def intro: bn_dest_mono)
  then obtain r1 where r1: "BN_sub al a b r = (Some (), r1)" "bn_result r1 (bn_val a - bn_val b)" using BN_sub_ok [OF assms(1,2)] by blast
  have ok: "bn_ok r1" "bn_val r1 = bn_val a - bn_val b" using r1(2) by (simp_all add: bn_result_def)
  have "bn_width r1 \<le> bn_width a + bn_width b + 1" by (rule sum_width [OF assms(1,2) _ r1(2)]) simp
  then have "bn_width r1 + bn_width m + 8 \<le> bn_width a + bn_width b + bn_width m + 9" by simp
  from then_nnmod_ok [OF r1(1) ok(1) BN_sub_grown [OF r1(1)] this assms(3-5)] show ?thesis by (simp add: BN_mod_sub_def ok(2) r1(1))
qed

lemma BN_lshift1_width: "BN_lshift1 al a r = (Some (), r') \<Longrightarrow> bn_width r' \<le> bn_width a + 1"
  by (auto simp: BN_lshift1_def pbind_def Let_def split: option.splits prod.splits if_splits)

lemma BN_mod_lshift1_ok:
  assumes "bn_ok a" "bn_ok m" "bn_val m \<noteq> 0" "mod_memory al ctx (bn_width a + bn_width m + 9) r"
  shows "\<exists>r'. BN_mod_lshift1 al ctx a m r = Some (Some (), r') \<and> bn_result r' ((2 * bn_val a) mod \<bar>bn_val m\<bar>)"
proof -
  have d: "bn_dest al (bn_width a + 1) r" using assms(4) by (auto simp: mod_memory_def intro: bn_dest_mono)
  have "bn_wf a" using assms(1) by (simp add: bn_ok_def)
  then obtain r1 where r1: "BN_lshift1 al a r = (Some (), r1)" "bn_wf r1" "bn_neg r1 = bn_neg a" "bn_mag r1 = 2 * bn_mag a"
    using BN_lshift1_ok [OF _ d] by blast
  have ok: "bn_ok r1" "bn_val r1 = 2 * bn_val a" using r1 assms(1) by (auto simp: bn_ok_def bn_val_def)
  have "bn_width r1 + bn_width m + 8 \<le> bn_width a + bn_width m + 9" using BN_lshift1_width [OF r1(1)] by simp
  from then_nnmod_ok [OF r1(1) ok(1) BN_lshift1_grown [OF r1(1)] this assms(2-4)] show ?thesis by (simp add: BN_mod_lshift1_def ok(2) r1(1))
qed

lemma BN_mul_tmp: "BN_mul al a b False x t r = BN_mul al a b False y t r"
  by (simp add: BN_mul_def pbind_def bn_mul_impl_def)

lemma BN_sqr_tmp: "BN_sqr al a False x t r = BN_sqr al a False y t r"
  by (simp add: BN_sqr_def pbind_def bn_sqr_consttime_def)

lemma BN_mod_mul_ok:
  assumes "bn_ok a" "bn_ok b" "bn_ok m" "bn_val m \<noteq> 0" "eq \<longrightarrow> a = b"
    "mod_memory al ctx (8 * (bn_width a + bn_width b) + bn_width m + 9) r"
  shows "\<exists>r'. BN_mod_mul al ctx a b eq m r = Some (Some (), r') \<and> bn_result r' ((bn_val a * bn_val b) mod \<bar>bn_val m\<bar>)"
proof -
  let ?n = "8 * (bn_width a + bn_width b)"
  have wf: "bn_wf a" "bn_wf b" using assms(1,2) by (simp_all add: bn_ok_def)
  obtain t u where c: "ctx 0 = Some t" "bn_dest al ?n t" "ctx 1 = Some u" "bn_dest al ?n u"
    using mod_memory_ctx [OF assms(6), of 0 ?n] mod_memory_ctx [OF assms(6), of 1 ?n] by auto
  have "\<exists>t'. (if eq then BN_sqr al a False None (ctx 1) t else BN_mul al a b False None (ctx 1) t) = (Some (), t') \<and> bn_result t' (bn_val a * bn_val b)"
  proof (cases eq)
    case True
    have "bn_dest al (2 * bn_width a) t" "bn_dest al (4 * bn_width a) u" by (rule bn_dest_mono [OF c(2)] bn_dest_mono [OF c(4)]; simp)+
    then show ?thesis using BN_sqr_ok [OF wf(1), of al t t u False] BN_sqr_tmp [of al a None "Some u" t "Some t"] True c(3) assms(5) by simp
  next
    case False
    have "bn_dest al (4 * max (bn_width a) (bn_width b)) t" "bn_dest al (8 * max (bn_width a) (bn_width b)) u"
      by (rule bn_dest_mono [OF c(2)] bn_dest_mono [OF c(4)]; simp)+
    then show ?thesis using BN_mul_ok [OF wf, of al t t u False] BN_mul_tmp [of al a b None "Some u" t "Some t"] False c(3) by simp
  qed
  then obtain t' where t: "(if eq then BN_sqr al a False None (ctx 1) t else BN_mul al a b False None (ctx 1) t) = (Some (), t')" "bn_result t' (bn_val a * bn_val b)"
    by blast
  have ok: "bn_ok t'" "bn_val t' = bn_val a * bn_val b" using t(2) by (simp_all add: bn_result_def)
  have "bn_width t' + bn_width m + 8 \<le> ?n + bn_width m + 9" using product_width [OF assms(1,2) t(2)] by simp
  from BN_nnmod_ok [OF ok(1) assms(3,4) mod_memory_div(2) [OF assms(6) this]] show ?thesis
    unfolding BN_mod_mul_def c(1) option.case t(1) prod.case ok(2) by blast
qed


lemma BN_sqr_grown: "BN_sqr al a False x (Some t) r = (y, r') \<Longrightarrow> bn_grown r r'"
proof -
  have "grows (sqr_into al a t)" unfolding sqr_into_def Let_def
    by (auto simp: grows_def intro!: grows_pbind [OF grows_wexpand, unfolded grows_def, THEN spec] split: option.splits prod.splits)
  then have "grows (bn_sqr_consttime al a False x (Some t))"
    unfolding grows_def bn_sqr_consttime_def by (auto split: option.splits prod.splits) (metis snd_conv)+
  then have "grows (BN_sqr al a False x (Some t))" unfolding BN_sqr_def by (rule grows_pbind) simp
  then show "BN_sqr al a False x (Some t) r = (y, r') \<Longrightarrow> bn_grown r r'" by (rule growsD)
qed

lemma BN_mod_sqr_ok:
  assumes "bn_ok a" "bn_ok m" "bn_val m \<noteq> 0" "mod_memory al ctx (8 * bn_width a + bn_width m + 9) r"
  shows "\<exists>r'. BN_mod_sqr al ctx a False m r = Some (Some (), r') \<and> bn_result r' ((bn_val a * bn_val a) mod \<bar>bn_val m\<bar>)"
proof -
  let ?n = "8 * bn_width a + bn_width m + 9"
  have wf: "bn_wf a" using assms(1) by (simp add: bn_ok_def)
  obtain t u where c: "ctx 0 = Some t" "bn_dest al ?n t" "ctx 1 = Some u" "bn_dest al ?n u"
    using mod_memory_ctx [OF assms(4), of 0 ?n] mod_memory_ctx [OF assms(4), of 1 ?n] by auto
  have "bn_dest al ?n r" using assms(4) by (simp add: mod_memory_def)
  then have "bn_dest al (2 * bn_width a) r" "bn_dest al (2 * bn_width a) t" "bn_dest al (4 * bn_width a) u"
    using c(2,4) by (auto intro: bn_dest_mono)
  from BN_sqr_ok [OF wf this, of False] obtain r1 where
    r1: "BN_sqr al a False (Some t) (Some u) r = (Some (), r1)" "bn_result r1 (bn_val a * bn_val a)" by blast
  have ok: "bn_ok r1" "bn_val r1 = bn_val a * bn_val a" using r1(2) by (simp_all add: bn_result_def)
  have "0 \<le> bn_val r1" unfolding ok(2) by (rule zero_le_square)
  then have n: "\<not> bn_neg r1" using ok(1) by (auto simp: bn_ok_def bn_val_def)
  have m: "bn_mag m \<noteq> 0" using assms(3) by (auto simp: bn_val_def split: if_splits)
  have "mod_memory al ctx ?n r1" using mod_memory_grown [OF assms(4) BN_sqr_grown [OF r1(1)]] ok(1) by (simp add: bn_ok_def)
  moreover have "bn_width r1 + bn_width m + 8 \<le> ?n" using product_width [OF assms(1,1) r1(2)] by simp
  ultimately obtain r' where r': "BN_mod al (\<lambda>k. ctx (k + 2)) r1 m r1 = Some (Some (), r')" "bn_result r' (int (bn_mag r1 mod bn_mag m))"
    using BN_mod_ok [OF ok(1) assms(2) m mod_memory_div(2)] n by fastforce
  have "int (bn_mag r1 mod bn_mag m) = (bn_val a * bn_val a) mod \<bar>bn_val m\<bar>"
    unfolding ok(2) [symmetric] bn_val_abs using n by (simp add: bn_val_def zmod_int)
  then show ?thesis using r' r1(1) c(1,3) by (simp add: BN_mod_sqr_def)
qed

section \<open>Constant-time modular arithmetic\<close>

lemma bn_resize_words_ok:
  assumes "bn_wf r" "bn_mag r < 2 ^ (64 * n)" "bn_dest al n r"
  shows "\<exists>r'. bn_resize_words al n r = (Some (), r') \<and> bn_wf r' \<and> bn_width r' = n \<and> bn_mag r' = bn_mag r \<and> bn_neg r' = bn_neg r \<and> bn_grown r r'"
proof (cases "bn_width r \<le> n")
  case True
  obtain r1 where r1: "bn_wexpand al n r = (Some (), r1)" "bn_wf r1" "n \<le> bn_dmax r1" "bn_width r1 = bn_width r" "bn_neg r1 = bn_neg r"
    "take (bn_width r) (bn_d r1) = take (bn_width r) (bn_d r)" using bn_wexpand_ok [OF assms(3)] by blast
  let ?r = "r1\<lparr>bn_d := buf_write (bn_d r1) (bn_width r) (replicate (n - bn_width r) 0), bn_width := n\<rparr>"
  have "take n (buf_write (bn_d r1) (bn_width r) (replicate (n - bn_width r) 0)) = take (bn_width r) (bn_d r) @ replicate (n - bn_width r) 0"
    using True r1(2,3,6) bn_wfD [OF assms(1)] by (simp add: buf_write_def bn_wf_def)
  then have "bn_mag ?r = bn_mag r" by (simp add: bn_mag_def words_val_append)
  moreover have "bn_wf ?r" using True r1(2,3) by (simp add: bn_wf_def length_buf_write)
  ultimately show ?thesis using True r1 bn_wexpand_grown [OF r1(1)] by (simp add: bn_resize_words_def pbind_def)
next
  case False
  have l: "bn_width r \<le> length (bn_d r)" using assms(1) by (rule bn_wfD)
  have "words_val (drop n (take (bn_width r) (bn_d r))) = 0"
  proof (rule ccontr)
    assume "words_val (drop n (take (bn_width r) (bn_d r))) \<noteq> 0"
    then have "2 ^ (64 * n) \<le> 2 ^ (64 * n) * words_val (drop n (take (bn_width r) (bn_d r)))" by simp
    then show False using bn_mag_split [OF assms(1), of n] False assms(2) by linarith
  qed
  then have fit: "bn_fits_in_words r n" by (simp add: bn_fits_iff [OF assms(1)])
  have "words_val (take n (bn_d r)) = bn_mag r" using words_val_take_exact [of n "take (bn_width r) (bn_d r)"] assms(2) False l
    by (simp add: bn_mag_def min_absorb1)
  then show ?thesis using False fit assms(1) by (simp add: bn_resize_words_def bn_wf_def bn_mag_def)
qed


lemma bn_scratch_space_ok:
  assumes "\<exists>x. c = Some x \<and> bn_dest al n x"
  shows "\<exists>x. bn_scratch_space_from_ctx al n c = Some x \<and> bn_wf x \<and> n \<le> bn_dmax x"
proof -
  obtain x where x: "c = Some x" "bn_dest al n x" using assms by blast
  obtain x1 where x1: "bn_wexpand al n x = (Some (), x1)" "bn_wf x1" "n \<le> bn_dmax x1" using bn_wexpand_ok [OF x(2)] by blast
  then show ?thesis using x(1) by (simp add: bn_scratch_space_from_ctx_def bn_wf_def)
qed

lemma bn_resized_ok:
  assumes "bn_wf a" "bn_mag a < 2 ^ (64 * n)" "\<exists>x. c = Some x \<and> bn_dest al n x"
  shows "\<exists>x. bn_resized_from_ctx al a n c = Some x \<and> n \<le> length (bn_d x) \<and> words_val (take n (bn_d x)) = bn_mag a"
proof (cases "bn_width a \<ge> n")
  case True
  have "words_val (take n (bn_d a)) = bn_mag a"
    using words_val_take_exact [of n "take (bn_width a) (bn_d a)"] assms(2) True bn_wfD [OF assms(1)] by (simp add: bn_mag_def min_absorb1)
  then show ?thesis using True bn_wfD [OF assms(1)] by (simp add: bn_resized_from_ctx_def)
next
  case False
  obtain x where x: "bn_scratch_space_from_ctx al n c = Some x" "bn_wf x" "n \<le> bn_dmax x" using bn_scratch_space_ok [OF assms(3)] by blast
  have "bn_dest al (bn_width a) x" using x False by (simp add: bn_dest_def)
  from bn_copy_val [OF assms(1) this] obtain y where y: "BN_copy al a x = (Some (), y)" "bn_wf y" "bn_mag y = bn_mag a" by blast
  have "bn_grown x y" using y(1) bn_wexpand_grown [of al "bn_width a" x] by (auto simp: BN_copy_def pbind_def split: prod.splits option.splits)
  then have "bn_dest al n y" using x(3) y(2) by (simp add: bn_dest_def bn_grown_def)
  then obtain z where z: "bn_resize_words al n y = (Some (), z)" "bn_wf z" "bn_width z = n" "bn_mag z = bn_mag a"
    using bn_resize_words_ok [OF y(2)] assms(2) y(3) by auto
  have "bn_resized_from_ctx al a n c = Some z" using False x(1) y(1) z(1) by (simp add: bn_resized_from_ctx_def pbind_def)
  then show ?thesis using z bn_wfD [OF z(2)] by (auto simp: bn_mag_def)
qed

lemma mod_consttime_ok:
  assumes "bn_wf a" "bn_wf b" "bn_wf m" "bn_mag a < bn_mag m" "bn_mag b < bn_mag m" "mod_memory al ctx (bn_width m) r"
    and f: "\<And>x y. bn_width m \<le> length x \<Longrightarrow> bn_width m \<le> length y \<Longrightarrow> words_val (take (bn_width m) x) = bn_mag a \<Longrightarrow>
      words_val (take (bn_width m) y) = bn_mag b \<Longrightarrow> length (f x y (bn_d m) (bn_width m)) = bn_width m \<and> words_val (f x y (bn_d m) (bn_width m)) = v"
  shows "\<exists>r'. mod_consttime f al ctx a b m r = (Some (), r') \<and> bn_fixed r' (bn_width m) v"
proof -
  let ?n = "bn_width m"
  have lt: "bn_mag a < 2 ^ (64 * ?n)" "bn_mag b < 2 ^ (64 * ?n)" using assms(4,5) bn_mag_less [OF assms(3)] by linarith+
  have c: "\<exists>x. ctx 0 = Some x \<and> bn_dest al ?n x" "\<exists>x. ctx 1 = Some x \<and> bn_dest al ?n x" "\<exists>x. ctx 2 = Some x \<and> bn_dest al ?n x"
    by (rule mod_memory_ctx [OF assms(6)]; simp)+
  obtain x where x: "bn_resized_from_ctx al a ?n (ctx 0) = Some x" "?n \<le> length (bn_d x)" "words_val (take ?n (bn_d x)) = bn_mag a"
    using bn_resized_ok [OF assms(1) lt(1) c(1)] by blast
  obtain y where y: "bn_resized_from_ctx al b ?n (ctx 1) = Some y" "?n \<le> length (bn_d y)" "words_val (take ?n (bn_d y)) = bn_mag b"
    using bn_resized_ok [OF assms(2) lt(2) c(2)] by blast
  obtain z where z: "bn_scratch_space_from_ctx al ?n (ctx 2) = Some z" using bn_scratch_space_ok [OF c(3)] by blast
  have "bn_dest al ?n r" using assms(6) by (simp add: mod_memory_def)
  then obtain r1 where r1: "bn_wexpand al ?n r = (Some (), r1)" "bn_wf r1" "?n \<le> bn_dmax r1" using bn_wexpand_ok by blast
  have w: "length (f (bn_d x) (bn_d y) (bn_d m) ?n) = ?n" "words_val (f (bn_d x) (bn_d y) (bn_d m) ?n) = v"
    using f [OF x(2) y(2) x(3) y(3)] by simp_all
  have "bn_fixed (r1\<lparr>bn_d := buf_write (bn_d r1) 0 (f (bn_d x) (bn_d y) (bn_d m) ?n), bn_width := ?n, bn_neg := False\<rparr>) ?n v"
    using store_fixed [OF r1(2) _ w(2)] w(1) r1(3) by simp
  then show ?thesis using x(1) y(1) z r1(1) by (simp add: mod_consttime_def pbind_def)
qed

lemma bn_mod_add_consttime_ok:
  assumes "bn_wf a" "bn_wf b" "bn_wf m" "bn_mag a < bn_mag m" "bn_mag b < bn_mag m" "mod_memory al ctx (bn_width m) r"
  shows "\<exists>r'. bn_mod_add_consttime al ctx a b m r = (Some (), r') \<and> bn_fixed r' (bn_width m) ((bn_mag a + bn_mag b) mod bn_mag m)"
  unfolding bn_mod_add_consttime_def
proof (rule mod_consttime_ok [OF assms])
  fix x y :: "BN_ULONG list"
  assume "bn_width m \<le> length x" "bn_width m \<le> length y" "words_val (take (bn_width m) x) = bn_mag a" "words_val (take (bn_width m) y) = bn_mag b"
  then show "length (bn_mod_add_words x y (bn_d m) (bn_width m)) = bn_width m \<and>
      words_val (bn_mod_add_words x y (bn_d m) (bn_width m)) = (bn_mag a + bn_mag b) mod bn_mag m"
    using bn_mod_add_words_val [of "bn_width m" x y "bn_d m"] bn_wfD [OF assms(3)] assms(4,5) by (simp add: bn_mag_def)
qed

lemma bn_mod_sub_consttime_ok:
  assumes "bn_wf a" "bn_wf b" "bn_wf m" "bn_mag a < bn_mag m" "bn_mag b < bn_mag m" "mod_memory al ctx (bn_width m) r"
  shows "\<exists>r'. bn_mod_sub_consttime al ctx a b m r = (Some (), r') \<and> bn_fixed r' (bn_width m) (nat ((int (bn_mag a) - int (bn_mag b)) mod int (bn_mag m)))"
  unfolding bn_mod_sub_consttime_def
proof (rule mod_consttime_ok [OF assms])
  fix x y :: "BN_ULONG list"
  assume a: "bn_width m \<le> length x" "bn_width m \<le> length y" "words_val (take (bn_width m) x) = bn_mag a" "words_val (take (bn_width m) y) = bn_mag b"
  have m: "words_val (take (bn_width m) (bn_d m)) = bn_mag m" by (simp add: bn_mag_def)
  from bn_mod_sub_words_val [OF a(1,2) bn_wfD [OF assms(3)]] assms(4,5)
  have "length (bn_mod_sub_words x y (bn_d m) (bn_width m)) = bn_width m"
    "int (words_val (bn_mod_sub_words x y (bn_d m) (bn_width m))) = (int (bn_mag a) - int (bn_mag b)) mod int (bn_mag m)" unfolding a(3,4) m by simp_all
  then show "length (bn_mod_sub_words x y (bn_d m) (bn_width m)) = bn_width m \<and>
      words_val (bn_mod_sub_words x y (bn_d m) (bn_width m)) = nat ((int (bn_mag a) - int (bn_mag b)) mod int (bn_mag m))" by simp
qed

lemma double_words_val:
  assumes "n \<le> length m" "length ws = n" "words_val ws < words_val (take n m)"
  shows "length (((\<lambda>ws. bn_mod_add_words ws ws m n) ^^ k) ws) = n \<and>
    words_val (((\<lambda>ws. bn_mod_add_words ws ws m n) ^^ k) ws) = (words_val ws * 2 ^ k) mod words_val (take n m)"
proof (induction k)
  case (Suc k)
  let ?x = "((\<lambda>ws. bn_mod_add_words ws ws m n) ^^ k) ws"
  have x: "length ?x = n" "words_val ?x = (words_val ws * 2 ^ k) mod words_val (take n m)" using Suc.IH by simp_all
  then have "words_val (take n ?x) < words_val (take n m)" using assms(3) by simp
  then have "length (bn_mod_add_words ?x ?x m n) = n" "words_val (bn_mod_add_words ?x ?x m n) = (words_val ?x + words_val ?x) mod words_val (take n m)"
    using bn_mod_add_words_val [of n ?x ?x m] x(1) assms(1) by simp_all
  then show ?case unfolding x(2) by (simp add: mod_add_eq mult_2 distrib_left)
qed (use assms in simp)

lemma bn_mod_lshift_consttime_ok:
  assumes "bn_wf a" "bn_wf m" "bn_mag a < bn_mag m" "\<exists>x. c = Some x \<and> bn_dest al (bn_width m) x" "bn_dest al (bn_width m) r" "bn_dest al (bn_width a) r"
  shows "\<exists>r'. bn_mod_lshift_consttime al c a n m r = (Some (), r') \<and> bn_fixed r' (bn_width m) ((bn_mag a * 2 ^ nat n) mod bn_mag m)"
proof -
  let ?n = "bn_width m"
  obtain y where y: "BN_copy al a r = (Some (), y)" "bn_wf y" "bn_mag y = bn_mag a" using bn_copy_val [OF assms(1,6)] by blast
  have "bn_grown r y" using y(1) bn_wexpand_grown [of al "bn_width a" r] by (auto simp: BN_copy_def pbind_def split: prod.splits option.splits)
  then have "bn_dest al ?n y" using assms(5) y(2) by (rule bn_grown_dest)
  moreover have lt: "bn_mag y < 2 ^ (64 * ?n)" using y(3) assms(3) bn_mag_less [OF assms(2)] by linarith
  ultimately obtain z where z: "bn_resize_words al ?n y = (Some (), z)" "bn_wf z" "bn_width z = ?n" "bn_mag z = bn_mag a"
    using bn_resize_words_ok [OF y(2)] y(3) by auto
  obtain t where t: "bn_scratch_space_from_ctx al ?n c = Some t" using bn_scratch_space_ok [OF assms(4)] by blast
  define ws where "ws = ((\<lambda>ws. bn_mod_add_words ws ws (bn_d m) ?n) ^^ nat n) (take ?n (bn_d z))"
  have w: "length ws = ?n" "words_val ws = (bn_mag a * 2 ^ nat n) mod bn_mag m"
    using double_words_val [of ?n "bn_d m" "take ?n (bn_d z)" "nat n"] bn_wfD [OF assms(2)] bn_wfD [OF z(2)] z(3,4) assms(3)
    by (simp_all add: ws_def bn_mag_def)
  have "bn_fixed (z\<lparr>bn_d := buf_write (bn_d z) 0 ws, bn_width := length ws, bn_neg := False\<rparr>) (length ws) ((bn_mag a * 2 ^ nat n) mod bn_mag m)"
    by (rule store_fixed [OF z(2) _ w(2)]) (use z(2,3) w(1) in \<open>simp add: bn_wf_def\<close>)
  moreover have "z\<lparr>bn_d := buf_write (bn_d z) 0 ws, bn_width := length ws, bn_neg := False\<rparr> = z\<lparr>bn_d := buf_write (bn_d z) 0 ws, bn_neg := False\<rparr>"
    using z(3) w(1) by (cases z) simp
  ultimately show ?thesis using y(1) z(1) t w(1) by (simp add: bn_mod_lshift_consttime_def pbind_def ws_def)
qed


lemma BN_dup_ok:
  assumes "al_total al" "bn_wf m"
  shows "\<exists>x. BN_dup al (Some m) = Some x \<and> bn_wf x \<and> bn_width x = bn_width m \<and> bn_mag x = bn_mag m"
proof -
  obtain z where "OPENSSL_malloc al 24 = Some z" using OPENSSL_malloc_total [OF assms(1), of 24] by auto
  then have n: "BN_new al = Some (BN_init\<lparr>bn_flags := BN_FLG_MALLOCED\<rparr>)" by (simp add: BN_new_def OPENSSL_zalloc_def)
  have "bn_dest al (bn_width m) (BN_init\<lparr>bn_flags := BN_FLG_MALLOCED\<rparr>)" using assms
    by (simp add: bn_dest_def bn_wf_def BN_init_def)
  from bn_copy_val [OF assms(2) this] obtain x where
    x: "BN_copy al m (BN_init\<lparr>bn_flags := BN_FLG_MALLOCED\<rparr>) = (Some (), x)" "bn_wf x" "bn_mag x = bn_mag m" by blast
  have "bn_width x = bn_width m" using x(1) by (auto simp: BN_copy_def pbind_def split: prod.splits option.splits)
  then show ?thesis using n x by (simp add: BN_dup_def)
qed

lemma BN_mod_lshift_ok:
  assumes "bn_ok a" "bn_ok m" "bn_val m \<noteq> 0" "al_total al" "mod_memory al ctx (bn_width a + bn_width m + 8) r"
  shows "\<exists>r'. BN_mod_lshift al ctx a n m r = Some (Some (), r') \<and> bn_ok r' \<and> bn_width r' = bn_width m \<and> bn_val r' = (bn_val a * 2 ^ nat n) mod \<bar>bn_val m\<bar>"
proof -
  obtain r1 where r1: "BN_nnmod al ctx a m r = Some (Some (), r1)" "bn_grown r r1" "bn_result r1 (bn_val a mod \<bar>bn_val m\<bar>)"
    using BN_nnmod_ok [OF assms(1-3) mod_memory_div(1) [OF assms(5) order_refl]] by blast
  define b where "b = (if bn_neg m then (the (BN_dup al (Some m)))\<lparr>bn_neg := False\<rparr> else m)"
  obtain x where x: "BN_dup al (Some m) = Some x" "bn_wf x" "bn_width x = bn_width m" "bn_mag x = bn_mag m"
    using BN_dup_ok [OF assms(4)] assms(2) by (auto simp: bn_ok_def)
  have b: "bn_wf b" "bn_width b = bn_width m" "bn_mag b = bn_mag m" using x assms(2) by (simp_all add: b_def bn_ok_def)
  have ok: "bn_wf r1" "bn_ok r1" "bn_val r1 = bn_val a mod \<bar>bn_val m\<bar>" using r1(3) by (simp_all add: bn_result_def bn_ok_def)
  have p: "0 \<le> bn_val r1" "bn_val r1 < \<bar>bn_val m\<bar>" unfolding ok(3) using assms(3) by simp_all
  then have v: "bn_val r1 = int (bn_mag r1)" using bn_val_abs [of r1] by simp
  then have lt: "bn_mag r1 < bn_mag b" using p bn_val_abs [of m] b(3) by simp
  have "bn_dest al (bn_width m) r" using assms(5) by (auto simp: mod_memory_def intro: bn_dest_mono)
  then have d: "bn_dest al (bn_width m) r1" using bn_grown_dest [OF r1(2) _ ok(1)] by blast
  moreover have "bn_width r1 \<le> bn_width b"
    using lt bn_mag_less [OF b(1)] r1(3) by (intro bn_minimal_width_le) (auto simp: bn_result_def bn_ok_def)
  moreover have "\<exists>x. ctx 4 = Some x \<and> bn_dest al (bn_width m) x" by (rule mod_memory_ctx [OF assms(5)]) simp_all
  ultimately obtain r' where r': "bn_mod_lshift_consttime al (ctx 4) r1 n b r1 = (Some (), r')"
    "bn_fixed r' (bn_width m) ((bn_mag r1 * 2 ^ nat n) mod bn_mag m)"
    using bn_mod_lshift_consttime_ok [OF ok(1) b(1) lt, of "ctx 4" al r1 n] bn_dest_mono [OF d] b by auto
  have "int ((bn_mag r1 * 2 ^ nat n) mod bn_mag m) = (bn_val r1 * 2 ^ nat n) mod \<bar>bn_val m\<bar>" by (simp add: v bn_val_abs zmod_int)
  also have "\<dots> = (bn_val a * 2 ^ nat n) mod \<bar>bn_val m\<bar>" unfolding ok(3) by (rule mod_mult_left_eq)
  finally have e: "bn_val r' = (bn_val a * 2 ^ nat n) mod \<bar>bn_val m\<bar>" using r'(2) by (simp add: bn_fixed_def)
  have "BN_mod_lshift al ctx a n m r = Some (Some (), r')"
    using r1(1) r'(1) x(1) unfolding BN_mod_lshift_def b_def by (cases "bn_neg m") simp_all
  then show ?thesis using r'(2) e by (auto simp: bn_fixed_def)
qed

section \<open>Properties\<close>

text \<open>
  C17. The modular operations compute in the residues of the modulus. For well-formed operands of any sign and size
  and a modulus other than zero, with memory for the temporaries, \<^verbatim>\<open>BN_nnmod\<close>, \<^verbatim>\<open>BN_mod_add\<close>, \<^verbatim>\<open>BN_mod_sub\<close>,
  \<^verbatim>\<open>BN_mod_mul\<close> (also of a number with itself), \<^verbatim>\<open>BN_mod_sqr\<close>, \<^verbatim>\<open>BN_mod_lshift1\<close> and \<^verbatim>\<open>BN_mod_lshift\<close> return the
  representative from zero to the magnitude of the modulus.
\<close>

theorem bn_mod_exact:
  assumes "bn_ok a" "bn_ok b" "bn_ok m" "bn_val m \<noteq> 0" "al_total al" "mod_memory al ctx (16 * (bn_width a + bn_width b) + bn_width m + 9) r"
  shows "(\<exists>x. BN_nnmod al ctx a m r = Some (Some (), x) \<and> bn_result x (bn_val a mod \<bar>bn_val m\<bar>)) \<and>
    (\<exists>x. BN_mod_add al ctx a b m r = Some (Some (), x) \<and> bn_result x ((bn_val a + bn_val b) mod \<bar>bn_val m\<bar>)) \<and>
    (\<exists>x. BN_mod_sub al ctx a b m r = Some (Some (), x) \<and> bn_result x ((bn_val a - bn_val b) mod \<bar>bn_val m\<bar>)) \<and>
    (\<exists>x. BN_mod_mul al ctx a b False m r = Some (Some (), x) \<and> bn_result x ((bn_val a * bn_val b) mod \<bar>bn_val m\<bar>)) \<and>
    (\<exists>x. BN_mod_mul al ctx a a True m r = Some (Some (), x) \<and> bn_result x ((bn_val a * bn_val a) mod \<bar>bn_val m\<bar>)) \<and>
    (\<exists>x. BN_mod_sqr al ctx a False m r = Some (Some (), x) \<and> bn_result x ((bn_val a * bn_val a) mod \<bar>bn_val m\<bar>)) \<and>
    (\<exists>x. BN_mod_lshift1 al ctx a m r = Some (Some (), x) \<and> bn_result x ((2 * bn_val a) mod \<bar>bn_val m\<bar>)) \<and>
    (\<exists>x. BN_mod_lshift al ctx a n m r = Some (Some (), x) \<and> bn_ok x \<and> bn_val x = (bn_val a * 2 ^ nat n) mod \<bar>bn_val m\<bar>)"
proof -
  have mem: "mod_memory al ctx k r" if "k \<le> 16 * (bn_width a + bn_width b) + bn_width m + 9" for k
    using mod_memory_ctx [OF assms(6) _ that] assms(6) bn_dest_mono [OF _ that] by (auto simp: mod_memory_def)
  show ?thesis
  proof (intro conjI)
    show "\<exists>x. BN_nnmod al ctx a m r = Some (Some (), x) \<and> bn_result x (bn_val a mod \<bar>bn_val m\<bar>)"
      using BN_nnmod_ok [OF assms(1,3,4) mod_memory_div(1) [OF assms(6)]] by auto
    show "\<exists>x. BN_mod_add al ctx a b m r = Some (Some (), x) \<and> bn_result x ((bn_val a + bn_val b) mod \<bar>bn_val m\<bar>)"
      by (rule BN_mod_add_ok [OF assms(1-4) mem]) simp
    show "\<exists>x. BN_mod_sub al ctx a b m r = Some (Some (), x) \<and> bn_result x ((bn_val a - bn_val b) mod \<bar>bn_val m\<bar>)"
      by (rule BN_mod_sub_ok [OF assms(1-4) mem]) simp
    show "\<exists>x. BN_mod_mul al ctx a b False m r = Some (Some (), x) \<and> bn_result x ((bn_val a * bn_val b) mod \<bar>bn_val m\<bar>)"
      by (rule BN_mod_mul_ok [OF assms(1-4) _ mem]) simp_all
    show "\<exists>x. BN_mod_mul al ctx a a True m r = Some (Some (), x) \<and> bn_result x ((bn_val a * bn_val a) mod \<bar>bn_val m\<bar>)"
      by (rule BN_mod_mul_ok [OF assms(1,1,3,4) _ mem]) simp_all
    show "\<exists>x. BN_mod_sqr al ctx a False m r = Some (Some (), x) \<and> bn_result x ((bn_val a * bn_val a) mod \<bar>bn_val m\<bar>)"
      by (rule BN_mod_sqr_ok [OF assms(1,3,4) mem]) simp
    show "\<exists>x. BN_mod_lshift1 al ctx a m r = Some (Some (), x) \<and> bn_result x ((2 * bn_val a) mod \<bar>bn_val m\<bar>)"
      by (rule BN_mod_lshift1_ok [OF assms(1,3,4) mem]) simp
    show "\<exists>x. BN_mod_lshift al ctx a n m r = Some (Some (), x) \<and> bn_ok x \<and> bn_val x = (bn_val a * 2 ^ nat n) mod \<bar>bn_val m\<bar>"
      using BN_mod_lshift_ok [OF assms(1,3,4,5) mem] by auto
  qed
qed


theorem bn_mod_exact_witness:
  "\<exists>x. BN_mod_sub (\<lambda>_. Some (\<lambda>_. 0)) (\<lambda>_. Some BN_init) \<lparr>bn_d = [5], bn_width = 1, bn_dmax = 1, bn_neg = False, bn_flags = 0\<rparr>
       \<lparr>bn_d = [7, 2], bn_width = 2, bn_dmax = 2, bn_neg = False, bn_flags = 0\<rparr>
       \<lparr>bn_d = [13], bn_width = 1, bn_dmax = 1, bn_neg = True, bn_flags = 0\<rparr> BN_init = Some (Some (), x) \<and> bn_val x = 5"
proof -
  let ?a = "\<lparr>bn_d = [5], bn_width = 1, bn_dmax = 1, bn_neg = False, bn_flags = 0\<rparr> :: BIGNUM"
  let ?b = "\<lparr>bn_d = [7, 2], bn_width = 2, bn_dmax = 2, bn_neg = False, bn_flags = 0\<rparr> :: BIGNUM"
  let ?m = "\<lparr>bn_d = [13], bn_width = 1, bn_dmax = 1, bn_neg = True, bn_flags = 0\<rparr> :: BIGNUM"
  have ok: "bn_ok ?a" "bn_ok ?b" "bn_ok ?m" by (simp_all add: bn_ok_def bn_wf_def bn_mag_def BN_MAX_WORDS_def)
  have mem: "mod_memory (\<lambda>_. Some (\<lambda>_. 0)) (\<lambda>_. Some BN_init) (16 * (bn_width ?a + bn_width ?b) + bn_width ?m + 9) BN_init"
    by (simp add: mod_memory_def bn_dest_def bn_wf_def BN_MAX_WORDS_def BN_init_def)
  have v: "bn_val ?a = 5" "bn_val ?b = 7 + 2 * 2 ^ 64" "bn_val ?m = - 13" by (simp_all add: bn_val_def bn_mag_def)
  have "bn_val ?m \<noteq> 0" unfolding v by simp
  from bn_mod_exact [OF ok this _ mem, THEN conjunct2, THEN conjunct2, THEN conjunct1]
  show ?thesis unfolding v by (auto simp: bn_result_def)
qed

text \<open>
  C18. The constant-time division gives the quotient and the remainder of \<^verbatim>\<open>BN_div\<close>. For a numerator that is not
  negative, a positive divisor and a lower bound on its bit length, with memory, it succeeds; the results
  are as wide as the numerator and the divisor whatever their values, also when a destination is an operand. A
  negative operand or a zero divisor is refused and leaves the destinations as they were.
\<close>

theorem bn_div_consttime_equiv:
  assumes "bn_ok a" "bn_ok b" "divisor_min_bits \<le> BN_num_bits b"
    and c: "\<forall>k<4. \<exists>x. ctx k = Some x \<and> bn_dest al (bn_width a + bn_width b + 8) x"
    and q: "bn_dest al (bn_width a + bn_width b + 8) q0" and r: "bn_dest al (bn_width a + bn_width b + 8) r0"
  shows "(0 \<le> bn_val a \<and> 0 < bn_val b \<longrightarrow>
      (\<exists>q r q' r'. bn_div_consttime al ctx a b divisor_min_bits (Some (q0, same_q)) (Some (r0, same_r)) = (Some (), Some q, Some r) \<and>
         BN_div al ctx a b (Some q0) (Some r0) = Some (Some (), Some q', Some r') \<and> bn_ok q \<and> bn_ok r \<and>
         bn_width q = bn_width a \<and> bn_width r = bn_width b \<and> bn_val q = bn_val q' \<and> bn_val r = bn_val r')) \<and>
    (bn_val a < 0 \<or> bn_val b \<le> 0 \<longrightarrow>
      bn_div_consttime al ctx a b divisor_min_bits (Some (q0, same_q)) (Some (r0, same_r)) = (None, Some q0, Some r0))"
proof (intro conjI impI)
  assume p: "0 \<le> bn_val a \<and> 0 < bn_val b"
  then have n: "\<not> bn_neg a" "\<not> bn_neg b" "bn_mag b \<noteq> 0" using assms(1,2) by (auto simp: bn_ok_def bn_val_def split: if_splits)
  have m: "\<forall>k<3. \<exists>x. ctx k = Some x \<and> bn_dest al (max (bn_width a) (bn_width b)) x"
  proof (intro allI impI)
    fix k :: nat
    assume "k < 3"
    then obtain x where "ctx k = Some x" "bn_dest al (bn_width a + bn_width b + 8) x" using c [rule_format, of k] by auto
    then show "\<exists>x. ctx k = Some x \<and> bn_dest al (max (bn_width a) (bn_width b)) x" using bn_dest_mono by auto
  qed
  have d: "bn_dest al (bn_width a) q0" "bn_dest al (bn_width b) r0" by (rule bn_dest_mono [OF q] bn_dest_mono [OF r]; simp)+
  obtain q r where qr: "bn_div_consttime al ctx a b divisor_min_bits (Some (q0, same_q)) (Some (r0, same_r)) = (Some (), Some q, Some r)"
    "bn_fixed q (bn_width a) (bn_mag a div bn_mag b)" "bn_fixed r (bn_width b) (bn_mag a mod bn_mag b)"
    using bn_div_consttime_ok [OF assms(1,2) _ _ assms(3) m, of "Some (q0, same_q)" "Some (r0, same_r)"] p d by auto
  have "div_memory al ctx (bn_width a + bn_width b + 8) (Some q0) (Some r0)" using c assms(5,6) by (simp add: div_memory_def)
  from BN_div_ok [OF assms(1,2) n(3) this] obtain q' r' where "BN_div al ctx a b (Some q0) (Some r0) = Some (Some (), Some q', Some r')"
    "bn_val q' = int (bn_mag a div bn_mag b)" "bn_val r' = int (bn_mag a mod bn_mag b)" using n by (auto simp: bn_result_def)
  then show "\<exists>q r q' r'. bn_div_consttime al ctx a b divisor_min_bits (Some (q0, same_q)) (Some (r0, same_r)) = (Some (), Some q, Some r) \<and>
         BN_div al ctx a b (Some q0) (Some r0) = Some (Some (), Some q', Some r') \<and> bn_ok q \<and> bn_ok r \<and>
         bn_width q = bn_width a \<and> bn_width r = bn_width b \<and> bn_val q = bn_val q' \<and> bn_val r = bn_val r'"
    using qr by (auto simp: bn_fixed_def)
next
  assume "bn_val a < 0 \<or> bn_val b \<le> 0"
  then have "BN_is_negative a \<or> BN_is_negative b \<or> BN_is_zero b"
    using assms(2) by (auto simp: BN_is_negative_def BN_is_zero_iff bn_ok_def bn_val_def split: if_splits)
  then show "bn_div_consttime al ctx a b divisor_min_bits (Some (q0, same_q)) (Some (r0, same_r)) = (None, Some q0, Some r0)"
    by (auto simp: bn_div_consttime_def Let_def)
qed

theorem bn_div_consttime_equiv_witness:
  "\<exists>q r. bn_div_consttime (\<lambda>_. Some (\<lambda>_. 0)) (\<lambda>_. Some BN_init) \<lparr>bn_d = [7, 0, 5], bn_width = 3, bn_dmax = 3, bn_neg = False, bn_flags = 0\<rparr>
       \<lparr>bn_d = [3, 1], bn_width = 2, bn_dmax = 2, bn_neg = False, bn_flags = 0\<rparr> 0 (Some (BN_init, False)) (Some (BN_init, False)) = (Some (), Some q, Some r) \<and>
     bn_ok q \<and> bn_width q = 3 \<and> bn_width r = 2"
proof -
  let ?a = "\<lparr>bn_d = [7, 0, 5], bn_width = 3, bn_dmax = 3, bn_neg = False, bn_flags = 0\<rparr> :: BIGNUM"
  let ?b = "\<lparr>bn_d = [3, 1], bn_width = 2, bn_dmax = 2, bn_neg = False, bn_flags = 0\<rparr> :: BIGNUM"
  have ok: "bn_ok ?a" "bn_ok ?b" by (simp_all add: bn_ok_def bn_wf_def bn_mag_def BN_MAX_WORDS_def)
  have d: "bn_dest (\<lambda>_. Some (\<lambda>_. 0)) (bn_width ?a + bn_width ?b + 8) BN_init" by (simp add: bn_dest_def bn_wf_def BN_MAX_WORDS_def BN_init_def)
  have c: "\<forall>k<4. \<exists>x. (\<lambda>_ :: nat. Some BN_init) k = Some x \<and> bn_dest (\<lambda>_. Some (\<lambda>_. 0)) (bn_width ?a + bn_width ?b + 8) x" using d by simp
  have v: "0 \<le> bn_val ?a \<and> 0 < bn_val ?b" by (simp add: bn_val_def bn_mag_def)
  from bn_div_consttime_equiv [OF ok le0 c d d, THEN conjunct1, THEN mp, OF v, of False False] show ?thesis by auto
qed


text \<open>
  C19. The constant-time modular operations agree with the general ones on reduced operands. For operands from zero
  below the modulus, \<^verbatim>\<open>bn_mod_add_consttime\<close>, \<^verbatim>\<open>bn_mod_sub_consttime\<close>, \<^verbatim>\<open>bn_mod_lshift1_consttime\<close> and
  \<^verbatim>\<open>bn_mod_lshift_consttime\<close> return the values of \<^verbatim>\<open>BN_mod_add\<close>, \<^verbatim>\<open>BN_mod_sub\<close>, \<^verbatim>\<open>BN_mod_lshift1\<close> and
  \<^verbatim>\<open>BN_mod_lshift\<close>, and a result always has the width of the modulus, so that it shows nothing of its value.
\<close>

theorem bn_mod_consttime_equiv:
  assumes "bn_ok a" "bn_ok b" "bn_ok m" "0 \<le> bn_val a" "bn_val a < bn_val m" "0 \<le> bn_val b" "bn_val b < bn_val m"
    and mem: "al_total al" "mod_memory al ctx (bn_width a + bn_width b + bn_width m + 9) r"
  shows "(\<exists>x y. bn_mod_add_consttime al ctx a b m r = (Some (), x) \<and> BN_mod_add al ctx a b m r = Some (Some (), y) \<and>
       bn_ok x \<and> bn_width x = bn_width m \<and> bn_val x = bn_val y) \<and>
    (\<exists>x y. bn_mod_sub_consttime al ctx a b m r = (Some (), x) \<and> BN_mod_sub al ctx a b m r = Some (Some (), y) \<and>
       bn_ok x \<and> bn_width x = bn_width m \<and> bn_val x = bn_val y) \<and>
    (\<exists>x y. bn_mod_lshift1_consttime al ctx a m r = (Some (), x) \<and> BN_mod_lshift1 al ctx a m r = Some (Some (), y) \<and>
       bn_ok x \<and> bn_width x = bn_width m \<and> bn_val x = bn_val y) \<and>
    (\<exists>x y. bn_mod_lshift_consttime al (ctx 4) a n m r = (Some (), x) \<and> BN_mod_lshift al ctx a n m r = Some (Some (), y) \<and>
       bn_ok x \<and> bn_width x = bn_width m \<and> bn_val x = bn_val y)"
proof -
  have wf: "bn_wf a" "bn_wf b" "bn_wf m" using assms(1-3) by (simp_all add: bn_ok_def)
  have v: "bn_val a = int (bn_mag a)" "bn_val b = int (bn_mag b)" "bn_val m = int (bn_mag m)"
    using bn_val_abs [of a] bn_val_abs [of b] bn_val_abs [of m] assms(4-7) by linarith+
  have lt: "bn_mag a < bn_mag m" "bn_mag b < bn_mag m" using assms(5,7) v by simp_all
  have nz: "bn_val m \<noteq> 0" using assms(4,5) by simp
  have small: "mod_memory al ctx k r" if "k \<le> bn_width a + bn_width b + bn_width m + 9" for k
    using mod_memory_ctx [OF mem(2) _ that] mem(2) bn_dest_mono [OF _ that] by (auto simp: mod_memory_def)
  have m: "mod_memory al ctx (bn_width m) r" "mod_memory al ctx (bn_width a + bn_width m + 9) r" "mod_memory al ctx (bn_width a + bn_width m + 8) r"
    by (rule small; simp)+
  have i: "\<bar>bn_val m\<bar> = int (bn_mag m)" by (rule bn_val_abs)
  show ?thesis
  proof (intro conjI)
    show "\<exists>x y. bn_mod_add_consttime al ctx a b m r = (Some (), x) \<and> BN_mod_add al ctx a b m r = Some (Some (), y) \<and>
       bn_ok x \<and> bn_width x = bn_width m \<and> bn_val x = bn_val y"
      using bn_mod_add_consttime_ok [OF wf lt m(1)] BN_mod_add_ok [OF assms(1-3) nz mem(2)] unfolding i v bn_fixed_def bn_result_def of_nat_mod of_nat_add by fastforce
    show "\<exists>x y. bn_mod_sub_consttime al ctx a b m r = (Some (), x) \<and> BN_mod_sub al ctx a b m r = Some (Some (), y) \<and>
       bn_ok x \<and> bn_width x = bn_width m \<and> bn_val x = bn_val y"
    proof -
      have "int (nat ((int (bn_mag a) - int (bn_mag b)) mod int (bn_mag m))) = (int (bn_mag a) - int (bn_mag b)) mod int (bn_mag m)"
        using lt by simp
      then show ?thesis
        using bn_mod_sub_consttime_ok [OF wf lt m(1)] BN_mod_sub_ok [OF assms(1-3) nz mem(2)] unfolding i v bn_fixed_def bn_result_def by fastforce
    qed
    show "\<exists>x y. bn_mod_lshift1_consttime al ctx a m r = (Some (), x) \<and> BN_mod_lshift1 al ctx a m r = Some (Some (), y) \<and>
       bn_ok x \<and> bn_width x = bn_width m \<and> bn_val x = bn_val y"
      using bn_mod_add_consttime_ok [OF wf(1,1,3) lt(1,1) m(1)] BN_mod_lshift1_ok [OF assms(1,3) nz m(2)]
      unfolding bn_mod_lshift1_consttime_def i v bn_fixed_def bn_result_def of_nat_mod of_nat_add mult_2 by fastforce
    have "bn_dest al (bn_width m) r" "bn_dest al (bn_width a) r" using mem(2) by (auto simp: mod_memory_def intro: bn_dest_mono)
    moreover have "\<exists>x. ctx 4 = Some x \<and> bn_dest al (bn_width m) x" by (rule mod_memory_ctx [OF m(1)]) simp_all
    ultimately show "\<exists>x y. bn_mod_lshift_consttime al (ctx 4) a n m r = (Some (), x) \<and> BN_mod_lshift al ctx a n m r = Some (Some (), y) \<and>
       bn_ok x \<and> bn_width x = bn_width m \<and> bn_val x = bn_val y"
      using bn_mod_lshift_consttime_ok [OF wf(1,3) lt(1), of "ctx 4" al r n] BN_mod_lshift_ok [OF assms(1,3) nz mem(1) m(3), of n]
      unfolding i v bn_fixed_def of_nat_mod of_nat_mult of_nat_power of_nat_numeral by fastforce
  qed
qed

theorem bn_mod_consttime_equiv_witness:
  "\<exists>x y. bn_mod_sub_consttime (\<lambda>_. Some (\<lambda>_. 0)) (\<lambda>_. Some BN_init) \<lparr>bn_d = [5], bn_width = 1, bn_dmax = 1, bn_neg = False, bn_flags = 0\<rparr>
       \<lparr>bn_d = [7, 2], bn_width = 2, bn_dmax = 2, bn_neg = False, bn_flags = 0\<rparr>
       \<lparr>bn_d = [0, 3], bn_width = 2, bn_dmax = 2, bn_neg = False, bn_flags = 0\<rparr> BN_init = (Some (), x) \<and>
     BN_mod_sub (\<lambda>_. Some (\<lambda>_. 0)) (\<lambda>_. Some BN_init) \<lparr>bn_d = [5], bn_width = 1, bn_dmax = 1, bn_neg = False, bn_flags = 0\<rparr>
       \<lparr>bn_d = [7, 2], bn_width = 2, bn_dmax = 2, bn_neg = False, bn_flags = 0\<rparr>
       \<lparr>bn_d = [0, 3], bn_width = 2, bn_dmax = 2, bn_neg = False, bn_flags = 0\<rparr> BN_init = Some (Some (), y) \<and> bn_width x = 2 \<and> bn_val x = bn_val y"
proof -
  let ?a = "\<lparr>bn_d = [5], bn_width = 1, bn_dmax = 1, bn_neg = False, bn_flags = 0\<rparr> :: BIGNUM"
  let ?b = "\<lparr>bn_d = [7, 2], bn_width = 2, bn_dmax = 2, bn_neg = False, bn_flags = 0\<rparr> :: BIGNUM"
  let ?m = "\<lparr>bn_d = [0, 3], bn_width = 2, bn_dmax = 2, bn_neg = False, bn_flags = 0\<rparr> :: BIGNUM"
  have ok: "bn_ok ?a" "bn_ok ?b" "bn_ok ?m" by (simp_all add: bn_ok_def bn_wf_def bn_mag_def BN_MAX_WORDS_def)
  have mem: "mod_memory (\<lambda>_. Some (\<lambda>_. 0)) (\<lambda>_. Some BN_init) (bn_width ?a + bn_width ?b + bn_width ?m + 9) BN_init"
    by (simp add: mod_memory_def bn_dest_def bn_wf_def BN_MAX_WORDS_def BN_init_def)
  have v: "0 \<le> bn_val ?a" "bn_val ?a < bn_val ?m" "0 \<le> bn_val ?b" "bn_val ?b < bn_val ?m" by (simp_all add: bn_val_def bn_mag_def)
  from bn_mod_consttime_equiv [OF ok v _ mem, THEN conjunct2, THEN conjunct1] show ?thesis by auto
qed

end
