(* ===== verification/BnModWord.thy ===== *)
theory BnModWord
  imports BnMod
begin

text \<open>
  Division and remainders by a word, by a 16-bit number and by a power of two: the end of
  \<^verbatim>\<open>crypto/fipsmodule/bn/div.c\<close> and \<^verbatim>\<open>div_extra.c\<close>.
\<close>

section \<open>The code\<close>

primrec div_word_loop :: "BN_ULONG \<Rightarrow> nat \<Rightarrow> BN_ULONG list \<Rightarrow> BN_ULONG \<Rightarrow> BN_ULONG list \<times> BN_ULONG" where
  "div_word_loop w 0 ds ret = (ds, ret)"
| "div_word_loop w (Suc i) ds ret =
     (let l = ds ! i; (d, _) = bn_div_rem_words ret l w; ret = l - d * w in div_word_loop w i (ds[i := d]) ret)"

definition BN_div_word :: "allocator \<Rightarrow> BN_ULONG \<Rightarrow> BIGNUM \<Rightarrow> BN_ULONG \<times> BIGNUM" where
  "BN_div_word al w a =
     (if w = 0 then (- 1, a)
      else if bn_width a = 0 then (0, a)
      else let j = 64 - BN_num_bits_word w; w = push_bit j w
           in case BN_lshift al a (int j) a of
                (None, a) \<Rightarrow> (- 1, a)
              | (Some _, a) \<Rightarrow>
                  let (ds, ret) = div_word_loop w (bn_width a) (bn_d a) 0
                  in (drop_bit j ret, bn_set_minimal_width (a\<lparr>bn_d := ds\<rparr>)))"

primrec mod_word_loop :: "BN_ULONG \<Rightarrow> nat \<Rightarrow> BN_ULONG list \<Rightarrow> 128 word \<Rightarrow> 128 word" where
  "mod_word_loop w 0 ds ret = ret"
| "mod_word_loop w (Suc i) ds ret = mod_word_loop w i ds ((push_bit 64 ret OR ucast (ds ! i)) mod ucast w)"

definition BN_mod_word :: "BIGNUM \<Rightarrow> BN_ULONG \<Rightarrow> BN_ULONG" where
  "BN_mod_word a w = (if w = 0 then - 1 else ucast (mod_word_loop w (bn_width a) (bn_d a) 0))"

text \<open>The bits from \<open>e\<close> on are cleared in the top word.\<close>

definition mask_top :: "nat \<Rightarrow> nat \<Rightarrow> BN_ULONG list \<Rightarrow> BN_ULONG list" where
  "mask_top num_words e ws =
     (let k = e mod 64 in if k \<noteq> 0 then ws[num_words - 1 := ws ! (num_words - 1) AND (push_bit k 1 - 1)] else ws)"

definition BN_mod_pow2 :: "allocator \<Rightarrow> BIGNUM \<Rightarrow> nat \<Rightarrow> (BIGNUM, unit) op" where
  "BN_mod_pow2 al a e r =
     (if e = 0 \<or> bn_width a = 0 then (Some (), BN_zero r)
      else let num_words = 1 + (e - 1) div 64
           in if bn_width a < num_words then BN_copy al a r
              else pbind (bn_wexpand al num_words) (\<lambda>_ r.
                     let ws = mask_top num_words e (take num_words (bn_d a))
                     in (Some (), bn_set_minimal_width
                           (r\<lparr>bn_d := buf_write (bn_d r) 0 ws, bn_neg := bn_neg a, bn_width := num_words\<rparr>))) r)"

definition BN_nnmod_pow2 :: "allocator \<Rightarrow> BIGNUM \<Rightarrow> nat \<Rightarrow> (BIGNUM, unit) op" where
  "BN_nnmod_pow2 al a e =
     pbind (BN_mod_pow2 al a e) (\<lambda>_ r.
       if BN_is_zero r \<or> \<not> bn_neg r then (Some (), r)
       else let num_words = 1 + (e - 1) div 64
            in pbind (bn_wexpand al num_words) (\<lambda>_ r.
                 let ws = map (\<lambda>w. NOT w) (take (bn_width r) (bn_d r) @ replicate (num_words - bn_width r) 0);
                     ws = mask_top num_words e ws;
                     r = bn_set_minimal_width (r\<lparr>bn_d := buf_write (bn_d r) 0 ws, bn_neg := False, bn_width := num_words\<rparr>)
                 in BN_add al r BN_value_one r) r)"

text \<open>Remainders by multiplication with a rounded reciprocal, \<^verbatim>\<open>div_extra.c\<close>.\<close>

definition mod_u16 :: "32 word \<Rightarrow> 16 word \<Rightarrow> 32 word \<Rightarrow> 32 word \<Rightarrow> 16 word" where
  "mod_u16 n d p m =
     (let q = ucast (drop_bit 32 (ucast m * ucast n :: 64 word)) :: 32 word;
          t = drop_bit 1 (n - q) + q;
          t = drop_bit (unat (p - 1)) t
      in ucast (n - ucast d * t))"

definition shift_and_add_mod_u16 :: "16 word \<Rightarrow> 32 word \<Rightarrow> 16 word \<Rightarrow> 32 word \<Rightarrow> 32 word \<Rightarrow> 16 word" where
  "shift_and_add_mod_u16 r a d p m =
     (let t = ucast r :: 32 word;
          t = push_bit 16 t; t = t OR drop_bit 16 a; t = ucast (mod_u16 t d p m);
          t = push_bit 16 t; t = t OR (a AND 0xffff)
      in mod_u16 t d p m)"

primrec mod_u16_loop :: "16 word \<Rightarrow> 32 word \<Rightarrow> 32 word \<Rightarrow> nat \<Rightarrow> BN_ULONG list \<Rightarrow> 16 word \<Rightarrow> 16 word" where
  "mod_u16_loop d p m 0 ds ret = ret"
| "mod_u16_loop d p m (Suc i) ds ret =
     mod_u16_loop d p m i ds
       (let ret = shift_and_add_mod_u16 ret (ucast (drop_bit 32 (ds ! i))) d p m
        in shift_and_add_mod_u16 ret (ucast (ds ! i AND 0xffffffff)) d p m)"

definition bn_mod_u16_consttime :: "BIGNUM \<Rightarrow> 16 word \<Rightarrow> 16 word" where
  "bn_mod_u16_consttime bn d =
     (if d \<le> 1 then 0
      else let p = of_nat (BN_num_bits_word (ucast d - 1));
               m = ucast ((push_bit (32 + unat p) 1 + ucast d - 1) div ucast d :: 64 word)
           in mod_u16_loop d p m (bn_width bn) (bn_d bn) 0)"

section \<open>Division by a word\<close>

lemma div_word_loop_val:
  assumes "unat ret < unat w" "n \<le> length ds" "v = unat ret * 2 ^ (64 * n) + words_val (take n ds)"
  shows "\<exists>ds' ret'. div_word_loop w n ds ret = (ds', ret') \<and> length ds' = length ds \<and>
    words_val (take n ds') = v div unat w \<and> drop n ds' = drop n ds \<and> unat ret' = v mod unat w"
  using assms
proof (induction n arbitrary: ds ret v)
  case 0
  then show ?case by simp
next
  case (Suc n)
  let ?w = "unat w"
  obtain d x where d: "bn_div_rem_words ret (ds ! n) w = (d, x)" by fastforce
  define u where "u = 2 ^ 64 * unat ret + unat (ds ! n)"
  have dv: "unat d = u div ?w" "unat x = u mod ?w" using bn_div_rem_words_val [OF d Suc.prems(1)] by (simp_all add: u_def)
  have x: "x = ds ! n - d * w" using d by (auto simp: bn_div_rem_words_def Let_def)
  have "unat x < ?w" using dv(2) Suc.prems(1) by simp
  then obtain ds' r where f: "div_word_loop w n (ds[n := d]) x = (ds', r)" "length ds' = length ds"
    "words_val (take n ds') = (unat x * 2 ^ (64 * n) + words_val (take n ds)) div ?w" "drop n ds' = drop n (ds[n := d])"
    "unat r = (unat x * 2 ^ (64 * n) + words_val (take n ds)) mod ?w"
    using Suc.IH [of x "ds[n := d]"] Suc.prems(2) by auto
  have e: "drop (Suc n) ds' = drop (Suc n) ds" "ds' ! n = d"
  proof -
    have "drop (Suc n) ds' = drop 1 (drop n ds')" by simp
    then show "drop (Suc n) ds' = drop (Suc n) ds" unfolding f(4) by simp
    have "ds' ! n = drop n ds' ! 0" using f(2) Suc.prems(2) by simp
    then show "ds' ! n = d" unfolding f(4) using Suc.prems(2) by simp
  qed
  have "words_val (take (Suc n) ds) = words_val (take n ds) + 2 ^ (64 * n) * unat (ds ! n)"
    using words_val_top [of "Suc n" ds] Suc.prems(2) by simp
  then have "v = u * 2 ^ (64 * n) + words_val (take n ds)" using Suc.prems(3) by (simp add: u_def algebra_simps power_add)
  also have "\<dots> = u div ?w * 2 ^ (64 * n) * ?w + (u mod ?w * 2 ^ (64 * n) + words_val (take n ds))" by (rule div_split)
  finally have v: "v = u div ?w * 2 ^ (64 * n) * ?w + (unat x * 2 ^ (64 * n) + words_val (take n ds))" using dv(2) by simp
  have "v mod ?w = unat r" "v div ?w = u div ?w * 2 ^ (64 * n) + words_val (take n ds')"
    unfolding v using f(3,5) Suc.prems(1) by simp_all
  moreover have "words_val (take (Suc n) ds') = words_val (take n ds') + 2 ^ (64 * n) * unat d"
    using words_val_top [of "Suc n" ds'] Suc.prems(2) f(2) e(2) by simp
  ultimately show ?case using f d x e dv by simp
qed

lemma BN_div_word_ok:
  assumes "bn_ok a" "w \<noteq> 0" "bn_dest al (bn_width a + 1) a"
  shows "\<exists>a'. BN_div_word al w a = (of_nat (bn_mag a mod unat w), a') \<and> bn_ok a' \<and>
    bn_val a' = (if bn_neg a then - int (bn_mag a div unat w) else int (bn_mag a div unat w))"
proof (cases "bn_width a = 0")
  case True
  then have "bn_mag a = 0" by (simp add: bn_mag_def)
  then show ?thesis using True assms by (simp add: BN_div_word_def bn_val_def bn_ok_def)
next
  case False
  define j where "j = 64 - BN_num_bits_word w"
  have wl: "unat w < 2 ^ bit_length (unat w)" "bit_length (unat w) \<le> 64" using bit_length_le [of "unat w"] unat_u64_less [of w] by auto
  have wj: "unat (push_bit j w) = unat w * 2 ^ j"
  proof -
    have "unat w * 2 ^ j < 2 ^ bit_length (unat w) * 2 ^ j" using wl(1) by simp
    also have "\<dots> = 2 ^ 64" using wl(2) by (simp add: j_def BN_num_bits_word_eq flip: power_add)
    finally have "(unat w * 2 ^ j) mod 2 ^ 64 = unat w * 2 ^ j" by (rule mod_less)
    moreover have "unat (push_bit j w) = (unat w * 2 ^ j) mod 2 ^ 64" unfolding unsigned_push_bit_eq push_bit_eq_mult [of j "unat w"] by (simp add: take_bit_eq_mod)
    ultimately show ?thesis by simp
  qed
  have "bit_length (unat w) \<noteq> 0" using bit_length_le [of "unat w" 0] assms(2) by (simp add: unat_eq_zero)
  then have j: "j < 64" by (simp add: j_def BN_num_bits_word_eq)
  have "bn_dest al (bn_width a + nat (int j) div 64 + 1) a" using assms(3) j by simp
  from BN_lshift_ok [OF assms(1) _ this] obtain b where
    b: "BN_lshift al a (int j) a = (Some (), b)" "bn_result b (bn_val a * 2 ^ j)" by auto
  have bw: "bn_wf b" "bn_ok b" "bn_mag b = bn_mag a * 2 ^ j" "bn_mag b \<noteq> 0 \<longrightarrow> bn_neg b = bn_neg a"
  proof -
    show "bn_wf b" "bn_ok b" using b(2) by (simp_all add: bn_result_def bn_ok_def)
    have v: "bn_val b = bn_val a * 2 ^ j" using b(2) by (simp add: bn_result_def)
    then have "int (bn_mag b) = int (bn_mag a * 2 ^ j)" using bn_val_abs [of b] bn_val_abs [of a] by (simp add: abs_mult)
    then show m: "bn_mag b = bn_mag a * 2 ^ j" by (simp only: of_nat_eq_iff)
    show "bn_mag b \<noteq> 0 \<longrightarrow> bn_neg b = bn_neg a" using v m by (auto simp: bn_val_def split: if_splits)
  qed
  let ?w = "push_bit j w"
  have pos: "0 < unat w" using assms(2) by (simp add: unat_gt_0)
  then have "unat (0 :: BN_ULONG) < unat ?w" unfolding wj by simp
  from div_word_loop_val [OF this bn_wfD [OF bw(1)] refl] obtain ds r where
    l: "div_word_loop ?w (bn_width b) (bn_d b) 0 = (ds, r)" "length ds = length (bn_d b)"
    "words_val (take (bn_width b) ds) = bn_mag b div unat ?w" "unat r = bn_mag b mod unat ?w" by (auto simp: bn_mag_def)
  have q: "bn_mag b div unat ?w = bn_mag a div unat w" "bn_mag b mod unat ?w = bn_mag a mod unat w * 2 ^ j"
    unfolding wj bw(3) by (simp_all add: mult_mod_left)
  let ?c = "b\<lparr>bn_d := ds\<rparr>"
  have c: "bn_wf ?c" "bn_mag ?c = bn_mag a div unat w" using bw(1) l(2,3) q(1) by (simp_all add: bn_wf_def bn_mag_def)
  note ms = bn_set_minimal_width_ok [OF c(1)]
  have "unat (drop_bit j r) = unat r div 2 ^ j" by (rule unat_drop_bit)
  also have "\<dots> = bn_mag a mod unat w" unfolding l(4) q(2) by simp
  finally have "drop_bit j r = of_nat (bn_mag a mod unat w)" by (metis of_nat_unat ucast_id)
  moreover have "bn_neg (bn_set_minimal_width ?c) = (bn_neg a \<and> bn_mag a div unat w \<noteq> 0)"
  proof (cases "bn_mag a div unat w = 0")
    case False
    then have "bn_mag b \<noteq> 0" using bw(3) by (auto intro: ccontr)
    then show ?thesis using ms(4) c(2) bw(4) by simp
  qed (use ms(4) c(2) in simp)
  ultimately show ?thesis using False assms(2) b(1) l(1) ms(1,2) c(2) by (auto simp: BN_div_word_def j_def [symmetric] Let_def bn_val_def)
qed

lemma mod_word_loop_val:
  assumes "unat ret < unat w" "n \<le> length ds"
  shows "unat (mod_word_loop w n ds ret) = (unat ret * 2 ^ (64 * n) + words_val (take n ds)) mod unat w"
  using assms
proof (induction n arbitrary: ret)
  case (Suc n)
  have r: "unat ret < 2 ^ 64" using Suc.prems(1) unat_u64_less [of w] by simp
  define h :: BN_ULONG where "h = of_nat (unat ret)"
  have h: "unat h = unat ret" using r unat_of_nat [of "unat ret", where 'a = 64] by (simp add: h_def)
  have "unat (ucast h :: 128 word) = unat ret" using h by (simp add: unat_ucast_128)
  then have "ret = ucast h" by (simp add: word_unat_eq_iff [of ret])
  then have u: "unat (push_bit 64 ret OR ucast (ds ! n)) = 2 ^ 64 * unat ret + unat (ds ! n)" using make_double [of h "ds ! n"] h by simp
  let ?r = "(push_bit 64 ret OR ucast (ds ! n)) mod ucast w :: 128 word"
  have "unat (ucast w :: 128 word) = unat w" by (simp add: unat_ucast_128)
  then have r': "unat ?r = (2 ^ 64 * unat ret + unat (ds ! n)) mod unat w" using u by (simp add: unat_mod_distrib)
  then have "unat ?r < unat w" using Suc.prems(1) by simp
  from Suc.IH [OF this] have "unat (mod_word_loop w (Suc n) ds ret) = (unat ?r * 2 ^ (64 * n) + words_val (take n ds)) mod unat w"
    using Suc.prems(2) by simp
  also have "\<dots> = ((2 ^ 64 * unat ret + unat (ds ! n)) * 2 ^ (64 * n) + words_val (take n ds)) mod unat w"
    unfolding r' by (metis mod_add_left_eq mod_mult_left_eq)
  also have "(2 ^ 64 * unat ret + unat (ds ! n)) * 2 ^ (64 * n) + words_val (take n ds) = unat ret * 2 ^ (64 * Suc n) + words_val (take (Suc n) ds)"
    using words_val_top [of "Suc n" ds] Suc.prems(2) by (simp add: algebra_simps power_add)
  finally show ?case .
qed simp

lemma BN_mod_word_val:
  assumes "bn_wf a" "w \<noteq> 0"
  shows "unat (BN_mod_word a w) = bn_mag a mod unat w"
proof -
  have p: "0 < unat w" using assms(2) by (simp add: unat_gt_0)
  then have m: "unat (mod_word_loop w (bn_width a) (bn_d a) 0) = bn_mag a mod unat w"
    using mod_word_loop_val [of 0 w "bn_width a" "bn_d a"] bn_wfD [OF assms(1)] by (simp add: bn_mag_def)
  have "bn_mag a mod unat w < 2 ^ 64" using mod_less_divisor [OF p, of "bn_mag a"] unat_u64_less [of w] by simp
  then show ?thesis using assms(2) m by (simp add: BN_mod_word_def unsigned_ucast_eq take_bit_eq_mod)
qed


section \<open>Remainders by a rounded reciprocal\<close>

text \<open>With \<open>m = N / d\<close> rounded up, the product with \<open>m\<close> gives the exact quotient of every number that is small enough.\<close>

lemma reciprocal_exact:
  fixes n d N m :: nat
  assumes "0 < d" "n * (d - 1) < N" "m = (N + d - 1) div d"
  shows "n * m div N = n div d"
proof -
  define k where "k = n div d"
  have e: "(N + d - 1) div d * d + (N + d - 1) mod d = N + d - 1" "(N + d - 1) mod d < d" using assms(1) by simp_all
  define x where "x = d - 1 - (N + d - 1) mod d"
  have x: "m * d = N + x" "x \<le> d - 1" unfolding assms(3) x_def using e by linarith+
  have k: "k * d \<le> n" "n + 1 \<le> (k + 1) * d" using dividend_less_div_times [OF assms(1), of n] by (simp_all add: k_def)
  have nm: "n * m * d = n * N + n * x" by (simp only: mult.assoc x(1) distrib_left)
  have "N * k * d = k * d * N" by (simp only: mult_ac)
  also have "\<dots> \<le> n * N" using k(1) by (rule mult_le_mono1)
  also have "\<dots> \<le> n * m * d" unfolding nm by simp
  finally have lo: "N * k \<le> n * m" using assms(1) by simp
  have "n * x \<le> n * (d - 1)" using x(2) by (rule mult_le_mono2)
  then have "n * m * d < n * N + N" unfolding nm using assms(2) by linarith
  also have "\<dots> = (n + 1) * N" by simp
  also have "\<dots> \<le> (k + 1) * d * N" using k(2) by (rule mult_le_mono1)
  also have "\<dots> = N * (k + 1) * d" by (simp only: mult_ac)
  finally have hi: "n * m < N * (k + 1)" using assms(1) by simp
  show ?thesis unfolding k_def [symmetric] using lo hi by (intro div_nat_eqI) (simp_all add: mult.commute)
qed

text \<open>The reciprocal has 33 bits, of which \<open>m\<close> has the lower 32: the top bit is added by averaging.\<close>

lemma reciprocal_bounds:
  fixes d p :: nat
  assumes "2 ^ p < 2 * d" "d \<le> 2 ^ p" "p \<le> 16" "0 < d"
  shows "(2 ^ (32 + p) + d - 1) div d div 2 ^ 32 = 1"
proof -
  define P where "P = (2 :: nat) ^ p"
  have P: "P < 2 * d" "d \<le> P" "P \<le> 2 ^ 16" using assms(1,2) power_increasing [OF assms(3), of "2 :: nat"] by (simp_all add: P_def)
  have "(2 ^ 32 * P + d - 1) div d div 2 ^ 32 = (2 ^ 32 * P + d - 1) div (d * 2 ^ 32)" by (rule div_mult2_eq [symmetric])
  also have "\<dots> = 1" using P assms(4) by (intro div_nat_eqI) simp_all
  finally show ?thesis by (simp only: P_def power_add)
qed

definition magic_numbers :: "16 word \<Rightarrow> 32 word \<Rightarrow> 32 word \<Rightarrow> bool" where
  "magic_numbers d p m \<longleftrightarrow> 1 < unat d \<and> 1 \<le> unat p \<and> unat p \<le> 16 \<and> 2 ^ unat p < 2 * unat d \<and> unat d \<le> 2 ^ unat p \<and>
     unat m = (2 ^ (32 + unat p) + unat d - 1) div unat d mod 2 ^ 32"

lemma mod_u16_val:
  assumes "magic_numbers d p m"
  shows "unat (mod_u16 n d p m) = unat n mod unat d"
proof -
  define P where "P = unat p"
  have assms: "1 < unat d" "unat p = P" "1 \<le> P" "P \<le> 16" "2 ^ P < 2 * unat d" "unat d \<le> 2 ^ P"
    and m: "unat m = (2 ^ (32 + P) + unat d - 1) div unat d mod 2 ^ 32"
    using assms unfolding magic_numbers_def P_def by blast+
  define M where "M = (2 ^ (32 + P) + unat d - 1) div unat d"
  have M: "M = 2 ^ 32 + unat m" using reciprocal_bounds [OF assms(5,6,4)] assms(1) m div_mult_mod_eq [of M "2 ^ 32"] by (simp add: M_def)
  have lt: "unat n < 2 ^ 32" "unat m < 2 ^ 32" "unat d < 2 ^ 16" using unsigned_less [of n] unsigned_less [of m] unsigned_less [of d] by simp_all
  define q :: "32 word" where "q = ucast (drop_bit 32 (ucast m * ucast n :: 64 word))"
  have u: "unat (ucast m :: 64 word) = unat m" "unat (ucast n :: 64 word) = unat n" "unat (ucast d :: 32 word) = unat d"
    using lt by (simp_all add: unsigned_ucast_eq take_bit_eq_mod)
  have "unat m * unat n < 2 ^ 32 * 2 ^ 32" using lt by (intro mult_strict_mono) simp_all
  then have mn: "unat (ucast m * ucast n :: 64 word) = unat m * unat n"
    using unat_mult_lem [of "ucast m :: 64 word" "ucast n :: 64 word"] unfolding u by simp
  have "unat m * unat n \<le> 2 ^ 32 * unat n" using lt(2) by (intro mult_le_mono1) simp
  from div_le_mono [OF this, of "2 ^ 32"] have q1: "unat m * unat n div 2 ^ 32 \<le> unat n" by simp
  have "unat q = unat m * unat n div 2 ^ 32 mod 2 ^ 32" by (simp only: q_def unsigned_ucast_eq take_bit_eq_mod unat_drop_bit mn len_num0 len_bit0 len_num1) simp
  then have q: "unat q = unat m * unat n div 2 ^ 32" using q1 lt(1) by simp
  have "q \<le> n" using q q1 by (simp add: word_le_nat_alt)
  then have h: "unat (drop_bit 1 (n - q)) = (unat n - unat q) div 2" by (simp only: unat_drop_bit unat_sub power_one_right)
  have qn: "unat q \<le> unat n" using q q1 by simp
  have "unat (drop_bit 1 (n - q)) + unat q < 2 ^ 32" unfolding h using qn lt(1) by linarith
  then have "unat (drop_bit 1 (n - q) + q) = (unat n - unat q) div 2 + unat q"
    using unat_add_lem [of "drop_bit 1 (n - q)" q] unfolding h by simp
  also have "\<dots> = (unat n + unat q) div 2" using qn by linarith
  finally have "unat (drop_bit (P - 1) (drop_bit 1 (n - q) + q)) = (unat n + unat q) div 2 div 2 ^ (P - 1)" by (simp only: unat_drop_bit)
  also have "\<dots> = (unat n + unat q) div (2 * 2 ^ (P - 1))" by (rule div_mult2_eq [symmetric])
  also have "2 * 2 ^ (P - 1) = (2 :: nat) ^ P" using assms(3) by (simp only: power_Suc [symmetric] Suc_diff_1)
  also have "unat n + unat q = (2 ^ 32 * unat n + unat m * unat n) div 2 ^ 32" unfolding q by simp
  also have "2 ^ 32 * unat n + unat m * unat n = unat n * M" unfolding M by (simp only: algebra_simps)
  also have "unat n * M div 2 ^ 32 div 2 ^ P = unat n * M div 2 ^ (32 + P)" by (simp only: div_mult2_eq power_add)
  also have "\<dots> = unat n div unat d"
  proof (rule reciprocal_exact [OF _ _ M_def])
    have "unat n * (unat d - 1) < 2 ^ 32 * 2 ^ P" using lt(1) assms(1,6) by (intro mult_strict_mono) simp_all
    then show "unat n * (unat d - 1) < 2 ^ (32 + P)" by (simp only: power_add)
  qed (use assms(1) in simp)
  finally have t: "unat (drop_bit (P - 1) (drop_bit 1 (n - q) + q)) = unat n div unat d" (is "unat ?t = _") .
  have "unat d * unat ?t \<le> unat n" unfolding t by simp
  moreover from this have dt: "unat (ucast d * ?t) = unat d * unat ?t"
    using unat_mult_lem [of "ucast d" ?t] lt(1) unfolding u by simp
  ultimately have "unat (n - ucast d * ?t) = unat n - unat d * unat ?t" by (simp add: unat_sub word_le_nat_alt)
  also have "\<dots> = unat n mod unat d" unfolding t by (simp add: minus_mult_div_eq_mod)
  finally have r: "unat (n - ucast d * ?t) = unat n mod unat d" .
  have "unat n mod unat d < 2 ^ 16" using mod_less_divisor [of "unat d" "unat n"] assms(1) lt(3) by linarith
  moreover have "unat (p - 1) = P - 1" using assms(2,3) by (subst unat_sub) (simp_all add: word_le_nat_alt)
  ultimately show ?thesis using r by (simp add: mod_u16_def Let_def q_def unsigned_ucast_eq take_bit_eq_mod)
qed


lemma join16:
  assumes "unat x < 2 ^ 16"
  shows "unat (push_bit 16 (ucast (r :: 16 word)) OR x :: 32 word) = unat r * 2 ^ 16 + unat x"
proof -
  have r: "unat r < 2 ^ 16" using unsigned_less [of r] by simp
  then have "unat r * 2 ^ 16 < 2 ^ 16 * 2 ^ 16" by simp
  then have "(unat r * 2 ^ 16) mod 2 ^ 32 = unat r * 2 ^ 16" by simp
  moreover have "unat (ucast r :: 32 word) = unat r" using r by (simp add: unsigned_ucast_eq take_bit_eq_mod)
  moreover have "unat (push_bit 16 (ucast r :: 32 word)) = (unat (ucast r :: 32 word) * 2 ^ 16) mod 2 ^ 32"
    unfolding unsigned_push_bit_eq push_bit_eq_mult [of 16 "unat (ucast r :: 32 word)"] by (simp add: take_bit_eq_mod)
  ultimately have p: "unat (push_bit 16 (ucast r :: 32 word)) = push_bit 16 (unat r)" by (simp add: push_bit_eq_mult)
  have "push_bit 16 (unat r) AND unat x = 0"
  proof (rule bit_eqI)
    fix n
    have "\<not> bit (unat x) n" if "16 \<le> n" using that assms by (metis bit_take_bit_iff linorder_not_le take_bit_nat_eq_self)
    then show "bit (push_bit 16 (unat r) AND unat x) n = bit 0 n" by (auto simp: bit_and_iff bit_push_bit_iff)
  qed
  from disjunctive_add_eq_or [OF this] show ?thesis unfolding unsigned_or_eq p by (simp add: push_bit_eq_mult)
qed

lemma unat_low16: "unat ((a :: 32 word) AND 0xffff) = unat a mod 2 ^ 16"
proof -
  have "(0xffff :: 32 word) = mask 16" by (simp add: mask_eq_exp_minus_1)
  then have "a AND 0xffff = take_bit 16 a" by (simp only: take_bit_eq_mask)
  then show ?thesis by (simp add: unat_mod take_bit_eq_mod)
qed

lemma shift_mod: "((x mod d) * k + y) mod d = (x * k + y) mod d" for x y k d :: nat
  by (metis mod_add_left_eq mod_mult_left_eq)

lemma shift_and_add_mod_u16_val:
  assumes "magic_numbers d p m"
  shows "unat (shift_and_add_mod_u16 r a d p m) = (unat r * 2 ^ 32 + unat a) mod unat d"
proof -
  have "unat a < 2 ^ 32" using unsigned_less [of a] by simp
  then have a: "unat (drop_bit 16 a) < 2 ^ 16" "unat (a AND 0xffff) < 2 ^ 16" unfolding unat_low16 unat_drop_bit by (simp_all add: less_mult_imp_div_less)
  define t where "t = mod_u16 (push_bit 16 (ucast r) OR drop_bit 16 a) d p m"
  have t: "unat t = (unat r * 2 ^ 16 + unat a div 2 ^ 16) mod unat d"
    unfolding t_def mod_u16_val [OF assms] join16 [OF a(1)] unat_drop_bit ..
  have "unat (shift_and_add_mod_u16 r a d p m) = (unat t * 2 ^ 16 + unat a mod 2 ^ 16) mod unat d"
    unfolding shift_and_add_mod_u16_def Let_def t_def [symmetric] mod_u16_val [OF assms] join16 [OF a(2)] unat_low16 ..
  also have "\<dots> = ((unat r * 2 ^ 16 + unat a div 2 ^ 16) * 2 ^ 16 + unat a mod 2 ^ 16) mod unat d" unfolding t by (rule shift_mod)
  also have "(unat r * 2 ^ 16 + unat a div 2 ^ 16) * 2 ^ 16 + unat a mod 2 ^ 16 = unat r * (2 ^ 16 * 2 ^ 16) + (unat a div 2 ^ 16 * 2 ^ 16 + unat a mod 2 ^ 16)"
    by (simp only: distrib_right mult.assoc add.assoc)
  also have "\<dots> = unat r * 2 ^ 32 + unat a" unfolding div_mult_mod_eq power_add [symmetric] by simp
  finally show ?thesis .
qed

lemma mod_u16_loop_val:
  assumes "magic_numbers d p m" "unat ret < unat d" "n \<le> length ds"
  shows "unat (mod_u16_loop d p m n ds ret) = (unat ret * 2 ^ (64 * n) + words_val (take n ds)) mod unat d"
  using assms(2,3)
proof (induction n arbitrary: ret)
  case (Suc n)
  define x where "x = ds ! n"
  have "unat x < 2 ^ 64" using unat_u64_less [of x] by simp
  then have h: "unat (ucast (drop_bit 32 x) :: 32 word) = unat x div 2 ^ 32"
    by (simp add: unsigned_ucast_eq take_bit_eq_mod unat_drop_bit less_mult_imp_div_less)
  have "(0xffffffff :: BN_ULONG) = mask 32" by (simp add: mask_eq_exp_minus_1)
  then have "x AND 0xffffffff = take_bit 32 x" by (simp only: take_bit_eq_mask)
  then have l: "unat (ucast (x AND 0xffffffff) :: 32 word) = unat x mod 2 ^ 32"
    by (simp add: unsigned_ucast_eq unat_mod take_bit_eq_mod)
  define s where "s = shift_and_add_mod_u16 (shift_and_add_mod_u16 ret (ucast (drop_bit 32 x)) d p m) (ucast (x AND 0xffffffff)) d p m"
  have "unat s = ((unat ret * 2 ^ 32 + unat x div 2 ^ 32) mod unat d * 2 ^ 32 + unat x mod 2 ^ 32) mod unat d"
    unfolding s_def shift_and_add_mod_u16_val [OF assms(1)] h l ..
  also have "\<dots> = ((unat ret * 2 ^ 32 + unat x div 2 ^ 32) * 2 ^ 32 + unat x mod 2 ^ 32) mod unat d" by (rule shift_mod)
  also have "(unat ret * 2 ^ 32 + unat x div 2 ^ 32) * 2 ^ 32 + unat x mod 2 ^ 32 = unat ret * (2 ^ 32 * 2 ^ 32) + (unat x div 2 ^ 32 * 2 ^ 32 + unat x mod 2 ^ 32)"
    by (simp only: distrib_right mult.assoc add.assoc)
  also have "\<dots> = unat ret * 2 ^ 64 + unat x" unfolding div_mult_mod_eq power_add [symmetric] by simp
  finally have s: "unat s = (unat ret * 2 ^ 64 + unat x) mod unat d" .
  then have "unat s < unat d" using Suc.prems(1) by simp
  from Suc.IH [OF this] have "unat (mod_u16_loop d p m (Suc n) ds ret) = (unat s * 2 ^ (64 * n) + words_val (take n ds)) mod unat d"
    using Suc.prems(2) by (simp add: s_def x_def Let_def)
  also have "\<dots> = ((unat ret * 2 ^ 64 + unat x) * 2 ^ (64 * n) + words_val (take n ds)) mod unat d" unfolding s by (rule shift_mod)
  also have "(unat ret * 2 ^ 64 + unat x) * 2 ^ (64 * n) + words_val (take n ds) = unat ret * 2 ^ (64 * Suc n) + words_val (take (Suc n) ds)"
    using words_val_top [of "Suc n" ds] Suc.prems(2) by (simp add: x_def algebra_simps power_add)
  finally show ?case .
qed simp

lemma magic_numbers_ok:
  assumes "1 < unat d" "p = of_nat (BN_num_bits_word (ucast d - 1))" "m = ucast ((push_bit (32 + unat p) 1 + ucast d - 1) div ucast d :: 64 word)"
  shows "magic_numbers d p m"
proof -
  have d: "unat d < 2 ^ 16" using unsigned_less [of d] by simp
  have u: "unat (ucast d :: 64 word) = unat d" using d by (simp add: unsigned_ucast_eq take_bit_eq_mod)
  have "unat (ucast d - 1 :: 64 word) = unat d - 1" using assms(1) u by (subst unat_sub) (simp_all add: word_le_nat_alt)
  then have b: "BN_num_bits_word (ucast d - 1) = bit_length (unat d - 1)" by (simp add: BN_num_bits_word_eq)
  have le: "bit_length (unat d - 1) \<le> 16" using d by (simp add: bit_length_le)
  then have p: "unat p = bit_length (unat d - 1)" unfolding assms(2) b by (simp add: unat_of_nat)
  have p1: "1 \<le> unat p" using bit_length_le [of "unat d - 1" 0] assms(1) p by simp
  have "unat d - 1 < 2 ^ unat p" unfolding p using bit_length_le [of "unat d - 1"] by blast
  moreover have "\<not> unat d - 1 < 2 ^ (unat p - 1)" unfolding bit_length_le [symmetric] p [symmetric] using p1 by simp
  moreover have "(2 :: nat) ^ unat p = 2 * 2 ^ (unat p - 1)" using p1 by (simp only: power_Suc [symmetric] Suc_diff_1)
  ultimately have r: "unat d \<le> 2 ^ unat p" "2 ^ unat p < 2 * unat d" using assms(1) by linarith+
  let ?s = "push_bit (32 + unat p) 1 :: 64 word"
  have "(2 :: nat) ^ (32 + unat p) \<le> 2 ^ 48" using le p by (intro power_increasing) simp_all
  then have s: "unat ?s = 2 ^ (32 + unat p)" "(2 :: nat) ^ (32 + unat p) \<le> 2 ^ 48"
    using unat_of_nat [of "2 ^ (32 + unat p)", where 'a = 64] by simp_all
  have a: "unat (?s + ucast d) = 2 ^ (32 + unat p) + unat d" using unat_add_lem [of ?s "ucast d"] s d u by simp
  then have "unat (?s + ucast d - 1) = 2 ^ (32 + unat p) + unat d - 1" using assms(1) by (subst unat_sub) (simp_all add: word_le_nat_alt)
  then have "unat ((?s + ucast d - 1) div ucast d) = (2 ^ (32 + unat p) + unat d - 1) div unat d" by (simp add: unat_div u)
  then have "unat m = (2 ^ (32 + unat p) + unat d - 1) div unat d mod 2 ^ 32" unfolding assms(3) by (simp add: unsigned_ucast_eq take_bit_eq_mod)
  then show ?thesis using assms(1) p1 p le r by (simp add: magic_numbers_def)
qed

lemma bn_mod_u16_consttime_val:
  assumes "bn_wf a" "d \<noteq> 0"
  shows "unat (bn_mod_u16_consttime a d) = bn_mag a mod unat d"
proof (cases "d \<le> 1")
  case True
  have "0 < unat d" "unat d \<le> 1" using assms(2) True by (simp_all add: unat_gt_0 word_le_nat_alt)
  then have "unat d = 1" by simp
  then show ?thesis using True by (simp add: bn_mod_u16_consttime_def)
next
  case False
  then have d: "1 < unat d" by (simp add: word_le_nat_alt)
  from mod_u16_loop_val [OF magic_numbers_ok [OF d refl refl], of 0 "bn_width a" "bn_d a"] d bn_wfD [OF assms(1)] False
  show ?thesis by (simp add: bn_mod_u16_consttime_def Let_def bn_mag_def)
qed


section \<open>Remainders by a power of two\<close>

lemma word_count:
  fixes e n :: nat
  assumes "0 < e" "n = 1 + (e - 1) div 64"
  shows "e \<le> 64 * n" "64 * (n - 1) < e"
proof -
  obtain f where f: "e = Suc f" using assms(1) by (cases e) simp_all
  have n: "n = Suc (f div 64)" using assms(2) f by simp
  have d: "64 * (f div 64) \<le> f" by simp
  have "f < 64 * Suc (f div 64)" using dividend_less_div_times [of 64 f] by simp
  then show "e \<le> 64 * n" unfolding f n by simp
  show "64 * (n - 1) < e" unfolding f n using d by simp
qed

lemma mask_top_val:
  assumes "0 < e" "n = 1 + (e - 1) div 64" "length ws = n"
  shows "length (mask_top n e ws) = n" "words_val (mask_top n e ws) = words_val ws mod 2 ^ e"
proof -
  show "length (mask_top n e ws) = n" using assms(3) by (simp add: mask_top_def Let_def)
  show "words_val (mask_top n e ws) = words_val ws mod 2 ^ e"
  proof (cases "e mod 64 = 0")
    case True
    then obtain q where q: "e = 64 * q" by (metis mod_0_imp_dvd dvdE)
    then have "q \<le> n" "n - 1 < q" using word_count [OF assms(1,2)] by simp_all
    then have "64 * n = e" using q by simp
    then show ?thesis using True words_val_less [of ws] assms(3) by (simp add: mask_top_def)
  next
    case False
    define k w where "k = e mod 64" and "w = ws ! (n - 1)"
    have k: "e div 64 * 64 + k = e" "k < 64" "0 < k" using False by (simp_all add: k_def)
    have "64 * (e div 64) < 64 * n" using word_count(1) [OF assms(1,2)] k(1,3) by linarith
    moreover have "64 * (n - 1) < 64 * (e div 64 + 1)"
      using less_trans [OF word_count(2) [OF assms(1,2)] dividend_less_div_times [of 64 e]] by (simp add: algebra_simps)
    ultimately have "e div 64 = n - 1" by simp
    then have e: "e = 64 * (n - 1) + k" using k(1) by simp
    have n: "n - 1 < length ws" using assms(2,3) by simp
    define lo B where "lo = words_val (take (n - 1) ws)" and "B = (2 :: nat) ^ (64 * (n - 1))"
    have v: "words_val ws = lo + B * unat w" using words_val_top [of n ws] assms(2,3) by (simp add: lo_def w_def B_def)
    have lt: "lo < B" using words_val_take_less [of "n - 1" ws] n by (simp add: lo_def B_def)
    let ?x = "w AND (push_bit k 1 - 1)"
    have "?x = take_bit k w" by (simp only: take_bit_eq_mask mask_eq_exp_minus_1 push_bit_of_1)
    then have "unat ?x = take_bit k (unat w)" by (simp only: unsigned_take_bit_eq)
    then have x: "unat ?x = unat w mod 2 ^ k" by (simp only: take_bit_eq_mod)
    have "words_val (mask_top n e ws) + B * unat w = words_val ws + B * unat ?x"
      using words_val_update [OF n, of ?x] False by (simp only: mask_top_def Let_def k_def w_def B_def if_True not_False_eq_True simp_thms)
    then have "words_val (mask_top n e ws) = lo + B * (unat w mod 2 ^ k)" using v x by simp
    also have "\<dots> = (lo + B * unat w) mod (B * 2 ^ k)" using lt by (simp add: mod_mult2_eq)
    finally show ?thesis unfolding v e power_add B_def .
  qed
qed

lemma unat_not: "unat (NOT (w :: BN_ULONG)) + unat w + 1 = 2 ^ 64"
proof -
  have "unat (NOT w) AND unat w = unat (NOT w AND w)" by (simp only: unsigned_and_eq)
  then have "unat (NOT w) AND unat w = 0" by simp
  from disjunctive_add_eq_or [OF this] have "unat (NOT w) + unat w = unat (NOT w OR w)" by (simp only: unsigned_or_eq)
  moreover have "NOT w OR w = - 1" by simp
  moreover have "unat (- 1 :: BN_ULONG) = 2 ^ 64 - 1" by (simp only: unsigned_minus_1_eq_mask mask_eq_exp_minus_1) simp
  ultimately have "unat (NOT w) + unat w = 2 ^ 64 - 1" by (simp only:)
  then show ?thesis by simp
qed

lemma words_val_not: "words_val (map (\<lambda>w. NOT w) ws) + words_val ws + 1 = 2 ^ (64 * length ws)"
proof (induction ws)
  case (Cons w ws)
  have "words_val (map (\<lambda>w. NOT w) (w # ws)) + words_val (w # ws) + 1 =
      unat (NOT w) + unat w + 1 + 2 ^ 64 * (words_val (map (\<lambda>w. NOT w) ws) + words_val ws)" by simp
  also have "\<dots> = 2 ^ 64 * (words_val (map (\<lambda>w. NOT w) ws) + words_val ws + 1)" unfolding unat_not by simp
  also have "\<dots> = 2 ^ 64 * 2 ^ (64 * length ws)" unfolding Cons.IH ..
  also have "\<dots> = 2 ^ (64 * length (w # ws))" by (simp add: power_add)
  finally show ?case .
qed simp

lemma bn_set_minimal_width_le: "bn_width (bn_set_minimal_width bn) \<le> bn_width bn"
  using minimal_width_le [of "bn_d bn" "bn_width bn"] by (simp add: bn_set_minimal_width_def bn_minimal_width_def Let_def)

lemma BN_mod_pow2_ok:
  assumes "bn_ok a" "bn_dest al (bn_width a) r"
  shows "\<exists>r'. BN_mod_pow2 al a e r = (Some (), r') \<and> bn_grown r r' \<and> bn_ok r' \<and> (0 < e \<longrightarrow> bn_width r' \<le> 1 + (e - 1) div 64) \<and>
    bn_val r' = (if bn_neg a then - int (bn_mag a mod 2 ^ e) else int (bn_mag a mod 2 ^ e))"
proof (cases "e = 0 \<or> bn_width a = 0")
  case True
  then have "bn_mag a mod 2 ^ e = 0" by (auto simp: bn_mag_def)
  then show ?thesis using True assms(2) by (auto simp: BN_mod_pow2_def BN_zero_def bn_ok_def bn_wf_def bn_dest_def bn_mag_def bn_val_def)
next
  case False
  define n where "n = 1 + (e - 1) div 64"
  have wf: "bn_wf a" using assms(1) by (simp add: bn_ok_def)
  show ?thesis
  proof (cases "bn_width a < n")
    case True
    have "64 * bn_width a \<le> e" using True False word_count(2) [OF _ n_def] by linarith
    then have "bn_mag a < 2 ^ e" using bn_mag_less [OF wf] power_increasing [of "64 * bn_width a" e "2 :: nat"] by linarith
    then have v: "bn_mag a mod 2 ^ e = bn_mag a" by simp
    obtain r' where r: "BN_copy al a r = (Some (), r')" "bn_wf r'" "bn_mag r' = bn_mag a" "bn_neg r' = bn_neg a" using bn_copy_val [OF wf assms(2)] by blast
    have "bn_width r' = bn_width a" "bn_grown r r'"
      using r(1) bn_wexpand_grown [of al "bn_width a" r] by (auto simp: BN_copy_def pbind_def split: prod.splits option.splits)
    then show ?thesis using True False r assms(1) unfolding v by (auto simp: BN_mod_pow2_def n_def bn_ok_def bn_val_def)
  next
    case wide: False
    then have "bn_dest al n r" using bn_dest_mono [OF assms(2)] by simp
    then obtain r1 where r1: "bn_wexpand al n r = (Some (), r1)" "bn_wf r1" "n \<le> bn_dmax r1" using bn_wexpand_ok by blast
    have l: "length (take n (bn_d a)) = n" using wide bn_wfD [OF wf] by simp
    define ws where "ws = mask_top n e (take n (bn_d a))"
    have "64 * n \<ge> e" using word_count(1) [OF _ n_def] False by simp
    then have dv: "(2 :: nat) ^ e dvd 2 ^ (64 * n)" by (rule le_imp_power_dvd)
    have "words_val (take n (bn_d a)) = bn_mag a mod 2 ^ (64 * n)"
      using words_val_take_mod [of n "take (bn_width a) (bn_d a)"] wide bn_wfD [OF wf] by (simp add: bn_mag_def min_absorb1)
    then have w: "length ws = n" "words_val ws = bn_mag a mod 2 ^ e"
      using mask_top_val [OF _ n_def l] False mod_mod_cancel [OF dv, of "bn_mag a"] by (simp_all add: ws_def)
    let ?r = "r1\<lparr>bn_d := buf_write (bn_d r1) 0 ws, bn_neg := bn_neg a, bn_width := n\<rparr>"
    have "bn_wf ?r \<and> bn_mag ?r = bn_mag a mod 2 ^ e"
      by (rule store_words [OF r1(2) _ _ w(2)]) (use w words_val_less [of ws] r1(3) in \<open>simp_all\<close>)
    then have c: "bn_wf ?r" "bn_mag ?r = bn_mag a mod 2 ^ e" by simp_all
    have "BN_mod_pow2 al a e r = (Some (), bn_set_minimal_width ?r)"
      unfolding BN_mod_pow2_def if_not_P [OF False] Let_def n_def [symmetric] if_not_P [OF wide] ws_def [symmetric] pbind_def r1(1) by simp
    moreover have "bn_val (bn_set_minimal_width ?r) = (if bn_neg a then - int (bn_mag a mod 2 ^ e) else int (bn_mag a mod 2 ^ e))"
      using bn_set_minimal_width_ok [OF c(1)] c(2) by (auto simp: bn_val_def)
    ultimately show ?thesis using bn_set_minimal_width_ok(1) [OF c(1)] bn_set_minimal_width_le [of ?r] bn_wexpand_grown [OF r1(1)]
      by (auto simp: n_def)
  qed
qed


lemma complement_mod:
  fixes x e N :: nat
  assumes "v + x + 1 = N" "2 ^ e dvd N" "x < 2 ^ e"
  shows "v mod 2 ^ e + x + 1 = 2 ^ e"
proof -
  obtain k where k: "N = 2 ^ e * k" using assms(2) by (rule dvdE)
  have "k \<noteq> 0" using k assms(1) by (cases k) simp_all
  then obtain j where j: "k = Suc j" by (cases k) simp_all
  have "v + x + 1 = 2 ^ e * j + 2 ^ e" unfolding assms(1) k j by simp
  then have "v = 2 ^ e * j + (2 ^ e - 1 - x)" using assms(3) by linarith
  then have "v mod 2 ^ e = 2 ^ e - 1 - x" by simp
  then show ?thesis using assms(3) by linarith
qed

lemma BN_value_one_ok: "bn_ok BN_value_one" "bn_val BN_value_one = 1" "bn_width BN_value_one = 1"
  by (simp_all add: BN_value_one_def bn_ok_def bn_wf_def bn_mag_def bn_val_def BN_MAX_WORDS_def)

lemma BN_nnmod_pow2_ok:
  assumes "bn_ok a" "bn_dest al (bn_width a + e div 64 + 3) r"
  shows "\<exists>r'. BN_nnmod_pow2 al a e r = (Some (), r') \<and> bn_ok r' \<and> bn_val r' = bn_val a mod 2 ^ e"
proof -
  define n x where "n = 1 + (e - 1) div 64" and "x = bn_mag a mod 2 ^ e"
  have "bn_dest al (bn_width a) r" by (rule bn_dest_mono [OF assms(2)]) simp
  from BN_mod_pow2_ok [OF assms(1) this, of e] obtain r1 where r1: "BN_mod_pow2 al a e r = (Some (), r1)" "bn_grown r r1" "bn_ok r1"
    "0 < e \<longrightarrow> bn_width r1 \<le> n" "bn_val r1 = (if bn_neg a then - int x else int x)" unfolding n_def x_def by blast
  have m: "bn_val a mod 2 ^ e = (if bn_neg a then if x = 0 then 0 else 2 ^ e - int x else int x)"
    using nonneg_mod [of "2 ^ e" "bn_mag a"] by (simp add: bn_val_def x_def zmod_int)
  have wf: "bn_wf r1" using r1(3) by (simp add: bn_ok_def)
  show ?thesis
  proof (cases "BN_is_zero r1 \<or> \<not> bn_neg r1")
    case True
    then have "x = 0 \<or> \<not> bn_neg a" using r1(3,5) by (auto simp: BN_is_zero_iff bn_ok_def bn_val_def split: if_splits)
    then show ?thesis using True r1 m by (auto simp: BN_nnmod_pow2_def pbind_def)
  next
    case False
    then have mag: "bn_mag r1 = x" "x \<noteq> 0" "bn_neg a" using r1(3,5) wf by (auto simp: BN_is_zero_iff bn_val_def split: if_splits)
    have e: "0 < e"
    proof (rule ccontr)
      assume "\<not> 0 < e"
      then show False using mag(2) by (simp add: x_def)
    qed
    have n: "n \<le> e div 64 + 1" using div_le_mono [of "e - 1" e 64] by (simp add: n_def)
    have d: "bn_dest al (bn_width a + e div 64 + 3) r1" using bn_grown_dest [OF r1(2) assms(2) wf] .
    then have "bn_dest al n r1" by (rule bn_dest_mono) (use n in simp)
    then obtain r2 where r2: "bn_wexpand al n r1 = (Some (), r2)" "bn_wf r2" "n \<le> bn_dmax r2" "bn_width r2 = bn_width r1"
      "take (bn_width r1) (bn_d r2) = take (bn_width r1) (bn_d r1)" using bn_wexpand_ok by blast
    define us where "us = take (bn_width r2) (bn_d r2) @ replicate (n - bn_width r2) 0"
    define ws where "ws = mask_top n e (map (\<lambda>w. NOT w) us)"
    have us: "length us = n" "words_val us = x"
      using r1(4) e r2(4,5) bn_wfD [OF wf] mag(1) by (simp_all add: us_def words_val_append bn_mag_def)
    have x: "x < 2 ^ e" by (simp add: x_def)
    have "(2 :: nat) ^ e dvd 2 ^ (64 * n)" using word_count(1) [OF e n_def] by (rule le_imp_power_dvd)
    from complement_mod [OF words_val_not [of us, unfolded us] this x]
    have w: "length ws = n" "words_val ws + x + 1 = 2 ^ e" using mask_top_val [OF e n_def, of "map (\<lambda>w. NOT w) us"] us(1) by (simp_all add: ws_def)
    let ?r = "r2\<lparr>bn_d := buf_write (bn_d r2) 0 ws, bn_neg := False, bn_width := n\<rparr>"
    have "bn_wf ?r \<and> bn_mag ?r = words_val ws"
      by (rule store_words [OF r2(2) _ _ refl]) (use w(1) words_val_less [of ws] r2(3) in \<open>simp_all\<close>)
    then have c: "bn_wf ?r" "bn_mag ?r = words_val ws" by simp_all
    define r3 where "r3 = bn_set_minimal_width ?r"
    have r3: "bn_ok r3" "bn_val r3 = int (words_val ws)" "bn_width r3 \<le> n"
      using bn_set_minimal_width_ok [OF c(1)] c(2) bn_set_minimal_width_le [of ?r] by (simp_all add: r3_def bn_val_def)
    have "bn_grown r2 r3" by (simp add: r3_def)
    then have "bn_grown r1 r3" using bn_wexpand_grown [OF r2(1)] bn_grown_trans by blast
    then have "bn_dest al (bn_width a + e div 64 + 3) r3" using d r3(1) by (simp add: bn_grown_dest bn_ok_def)
    then have "bn_dest al (max (bn_width r3) (bn_width BN_value_one) + 1) r3" by (rule bn_dest_mono) (use n r3(3) BN_value_one_ok(3) in simp)
    from BN_add_ok [OF r3(1) BN_value_one_ok(1) this] obtain r4 where
      r4: "BN_add al r3 BN_value_one r3 = (Some (), r4)" "bn_result r4 (int (words_val ws) + 1)" unfolding r3(2) BN_value_one_ok(2) by blast
    have "BN_nnmod_pow2 al a e r = (Some (), r4)"
      unfolding BN_nnmod_pow2_def pbind_def [of "BN_mod_pow2 al a e"] r1(1) prod.case option.case if_not_P [OF False] Let_def n_def [symmetric]
        pbind_def r2(1) us_def [symmetric] ws_def [symmetric] r3_def [symmetric] r4(1) ..
    moreover have "int (words_val ws) + 1 = bn_val a mod 2 ^ e"
    proof -
      have "int (words_val ws + x + 1) = int (2 ^ e)" unfolding w(2) ..
      then show ?thesis using m mag by simp
    qed
    ultimately show ?thesis using r4(2) by (auto simp: bn_result_def)
  qed
qed


section \<open>Properties\<close>

text \<open>
  C20. The remainders by small divisors and powers of two. For a well-formed number, \<^verbatim>\<open>BN_mod_word\<close> and the
  constant-time \<^verbatim>\<open>bn_mod_u16_consttime\<close>, which multiplies with a rounded reciprocal instead of dividing, return the
  remainder of the magnitude for every divisor other than zero; \<^verbatim>\<open>BN_div_word\<close> leaves the
  quotient rounded towards zero and returns the same remainder; \<^verbatim>\<open>BN_mod_pow2\<close> keeps the sign and the low \<open>e\<close> bits,
  \<^verbatim>\<open>BN_nnmod_pow2\<close> gives the residue in two's complement. A zero divisor gives the word of all ones, or zero in the
  16-bit function.
\<close>

theorem bn_mod_word_exact:
  assumes "bn_ok a" "bn_dest al (bn_width a + 1) a" "bn_dest al (bn_width a + e div 64 + 3) r"
  shows "(w \<noteq> 0 \<longrightarrow> int (unat (BN_mod_word a w)) = \<bar>bn_val a\<bar> mod int (unat w)) \<and>
    (d \<noteq> 0 \<longrightarrow> int (unat (bn_mod_u16_consttime a d)) = \<bar>bn_val a\<bar> mod int (unat d)) \<and>
    (w \<noteq> 0 \<longrightarrow> (\<exists>a'. BN_div_word al w a = (BN_mod_word a w, a') \<and> bn_ok a' \<and> bn_val a' = sgn (bn_val a) * (\<bar>bn_val a\<bar> div int (unat w)))) \<and>
    BN_mod_word a 0 = - 1 \<and> bn_mod_u16_consttime a 0 = 0 \<and> BN_div_word al 0 a = (- 1, a) \<and>
    (\<exists>r'. BN_mod_pow2 al a e r = (Some (), r') \<and> bn_ok r' \<and> bn_val r' = sgn (bn_val a) * (\<bar>bn_val a\<bar> mod 2 ^ e)) \<and>
    (\<exists>r'. BN_nnmod_pow2 al a e r = (Some (), r') \<and> bn_ok r' \<and> bn_val r' = bn_val a mod 2 ^ e)"
proof -
  have wf: "bn_wf a" using assms(1) by (simp add: bn_ok_def)
  have sgn: "(if bn_neg a then - int x else int x) = sgn (bn_val a) * int x" if "bn_mag a = 0 \<longrightarrow> x = 0" for x
    using that assms(1) by (auto simp: bn_ok_def bn_val_def)
  have w: "int (unat (BN_mod_word a w)) = \<bar>bn_val a\<bar> mod int (unat w)" if "w \<noteq> 0" for w
    unfolding BN_mod_word_val [OF wf that] bn_val_abs by (rule of_nat_mod)
  have d: "int (unat (bn_mod_u16_consttime a d)) = \<bar>bn_val a\<bar> mod int (unat d)" if "d \<noteq> 0" for d
    unfolding bn_mod_u16_consttime_val [OF wf that] bn_val_abs by (rule of_nat_mod)
  have q: "\<exists>a'. BN_div_word al w a = (BN_mod_word a w, a') \<and> bn_ok a' \<and> bn_val a' = sgn (bn_val a) * (\<bar>bn_val a\<bar> div int (unat w))" if "w \<noteq> 0"
  proof -
    have "of_nat (bn_mag a mod unat w) = BN_mod_word a w" unfolding BN_mod_word_val [OF wf that, symmetric] by simp
    then show ?thesis using BN_div_word_ok [OF assms(1) that assms(2)] sgn [of "bn_mag a div unat w"] unfolding bn_val_abs of_nat_div by simp
  qed
  have "bn_dest al (bn_width a) r" by (rule bn_dest_mono [OF assms(3)]) simp
  from BN_mod_pow2_ok [OF assms(1) this, of e]
  have p: "\<exists>r'. BN_mod_pow2 al a e r = (Some (), r') \<and> bn_ok r' \<and> bn_val r' = sgn (bn_val a) * (\<bar>bn_val a\<bar> mod 2 ^ e)"
    using sgn [of "bn_mag a mod 2 ^ e"] unfolding bn_val_abs by (auto simp: of_nat_mod)
  have z: "BN_mod_word a 0 = - 1" "bn_mod_u16_consttime a 0 = 0" "BN_div_word al 0 a = (- 1, a)"
    by (simp_all add: BN_mod_word_def bn_mod_u16_consttime_def BN_div_word_def)
  show ?thesis using w d q p z BN_nnmod_pow2_ok [OF assms(1,3)] by blast
qed

theorem bn_mod_word_exact_witness:
  "uint (bn_mod_u16_consttime \<lparr>bn_d = [7, 1, 0], bn_width = 2, bn_dmax = 3, bn_neg = True, bn_flags = 0\<rparr> 17) = 8 \<and>
   (\<exists>r. BN_nnmod_pow2 (\<lambda>_. Some (\<lambda>_. 0)) \<lparr>bn_d = [7, 1, 0], bn_width = 2, bn_dmax = 3, bn_neg = True, bn_flags = 0\<rparr> 5 BN_init = (Some (), r) \<and> bn_val r = 25)"
proof -
  let ?a = "\<lparr>bn_d = [7, 1, 0], bn_width = 2, bn_dmax = 3, bn_neg = True, bn_flags = 0\<rparr> :: BIGNUM"
  have ok: "bn_ok ?a" by (simp add: bn_ok_def bn_wf_def bn_mag_def BN_MAX_WORDS_def)
  have d: "bn_dest (\<lambda>_. Some (\<lambda>_. 0)) (bn_width ?a + 1) ?a" "bn_dest (\<lambda>_. Some (\<lambda>_. 0)) (bn_width ?a + 5 div 64 + 3) BN_init"
    by (simp_all add: bn_dest_def bn_wf_def BN_MAX_WORDS_def BN_init_def)
  have v: "bn_val ?a = - (2 ^ 64 + 7)" by (simp add: bn_val_def bn_mag_def)
  from bn_mod_word_exact [OF ok d, of 1 17] show ?thesis unfolding v by auto
qed

end
