(* ===== verification/Spec2Isabelle.thy ===== *)
theory Spec2Isabelle
  imports ConstTime Mem CbbProps ErrProps StackProps PosixTime Base64Props Mbstring Asn1Time CbbCalls Conf BnBytes BnModWord
begin

text \<open>
  Verification of the byte-level core and the number arithmetic of AWS-LC's libcrypto.

  \<^bold>\<open>The program.\<close> AWS-LC is a C library of cryptographic primitives with the ASN.1, X.509 and
  TLS code around them. Everything in it that touches an encoding, an error or a container rests on
  a small core under \<^verbatim>\<open>src/crypto\<close>: constant-time selection, bounded memory and string helpers, the
  byte-string reader \<^verbatim>\<open>CBS\<close> and the byte-string builder \<^verbatim>\<open>CBB\<close>, the DER and Unicode code on top of
  them, the per-thread error queue, the pointer stack behind every \<^verbatim>\<open>STACK_OF\<close>, the hash table, the
  calendar conversions and ASN.1 time and string types, base64, and the multi-precision integers
  under every public-key algorithm. This development models that core function by function and proves what
  its callers rely on.

  \<^bold>\<open>Layers and theories.\<close> Every theory imports the ones it calls.

  \<^item> \<^verbatim>\<open>Prelude\<close>: sizes and \<^verbatim>\<open>size_t\<close> arithmetic modulo \<open>2 ^ 64\<close>, the parser/action type \<open>op\<close> (a
    function from a state to an optional result and a state, so that a failing call says which state
    it leaves), big-endian numbers, buffers written in place, and the locale \<open>comparator\<close> (what
    \<^verbatim>\<open>qsort\<close> and \<^verbatim>\<open>bsearch\<close> need of a comparison function).
  \<^item> \<^verbatim>\<open>ConstTime\<close>: \<^verbatim>\<open>crypto/internal.h\<close>, the \<^verbatim>\<open>constant_time_*\<close> masks, selects and table scan.
  \<^item> \<^verbatim>\<open>Mem\<close>: \<^verbatim>\<open>crypto/mem.c\<close> and the \<^verbatim>\<open>OPENSSL_mem*\<close> wrappers. The system allocator is a
    parameter: a function from a size to the (arbitrary) contents of a fresh block or to failure.
  \<^item> \<^verbatim>\<open>Cbs\<close>, \<^verbatim>\<open>CbsCodec\<close>, \<^verbatim>\<open>DerCodec\<close>, \<^verbatim>\<open>DerValues\<close>: \<^verbatim>\<open>crypto/bytestring/cbs.c\<close>. A \<^verbatim>\<open>CBS\<close> is the
    list of the bytes it still covers. \<^verbatim>\<open>Cbs\<close> holds the functions; the other three show that the
    readers meet the locale \<open>codec\<close> (a reader that accepts exactly the encodings of a format; its lemmas
    give round trip, canonicity and prefix-freeness once for every format) for big-endian integers, DER tags, DER lengths, elements, integers and
    booleans.
  \<^item> \<^verbatim>\<open>Cbb\<close>, \<^verbatim>\<open>CbbFlush\<close>, \<^verbatim>\<open>CbbProps\<close>: \<^verbatim>\<open>crypto/bytestring/cbb.c\<close>. The model state is the shared buffer
    and the chain of pending children, outermost first; an operation on the \<^verbatim>\<open>CBB\<close> at nesting
    depth \<open>d\<close> takes \<open>d\<close> as an argument. \<open>cbb_abs\<close> maps the state to a stack of unfinished byte
    strings, and the locale \<open>builder_op\<close> says that an operation refines an effect on that stack,
    keeps the invariant \<open>cbb_wf\<close>, and fails only for lack of memory, on an error state or when the
    abstract effect is undefined.
  \<^item> \<^verbatim>\<open>CbbCalls\<close>: the functions of \<^verbatim>\<open>cbb.c\<close> as one datatype of calls, with the builders that sequences of calls reach:
    the invariant in all of them, what the error bit stops, and discarding a child after any use of it.
  \<^item> \<^verbatim>\<open>Unicode\<close>: \<^verbatim>\<open>crypto/bytestring/unicode.c\<close>.
  \<^item> \<^verbatim>\<open>Err\<close>, \<^verbatim>\<open>ErrProps\<close>: \<^verbatim>\<open>crypto/err/err.c\<close>, the ring buffer of 16 errors per thread, marks,
    suppression, saved states and formatting. The thread-local state is an argument that is
    \<open>None\<close> before its first allocation.
  \<^item> \<^verbatim>\<open>Stack\<close>, \<^verbatim>\<open>StackProps\<close>: \<^verbatim>\<open>crypto/stack/stack.c\<close>; the capacity and every slot of the array are
    modelled, so that moves and reallocation are those of the code. The histories of a stack include deep copies
    whose elements compare as the originals, and leave out \<^verbatim>\<open>OPENSSL_sk_set\<close>; both keep the sorted mark.
  \<^item> \<^verbatim>\<open>PosixTime\<close>: \<^verbatim>\<open>crypto/asn1/posix_time.c\<close>.
  \<^item> \<^verbatim>\<open>Base64\<close>, \<^verbatim>\<open>Base64Props\<close>: \<^verbatim>\<open>crypto/base64/base64.c\<close>.
  \<^item> \<^verbatim>\<open>Asn1String\<close>, \<^verbatim>\<open>Mbstring\<close>: \<^verbatim>\<open>crypto/asn1/asn1_lib.c\<close>, \<^verbatim>\<open>a_bitstr.c\<close> and \<^verbatim>\<open>a_mbstr.c\<close>: string objects, bit
    strings with their unused bits, and the choice of a string type for a text.
  \<^item> \<^verbatim>\<open>CbsTime\<close>, \<^verbatim>\<open>Asn1Time\<close>: the time parsers of \<^verbatim>\<open>cbs.c\<close> and the time objects of \<^verbatim>\<open>a_time.c\<close>, \<^verbatim>\<open>a_utctm.c\<close> and
    \<^verbatim>\<open>a_gentm.c\<close>, which compose \<^verbatim>\<open>PosixTime\<close> with the texts.
  \<^item> \<^verbatim>\<open>Decimal\<close>, \<^verbatim>\<open>OidText\<close>: decimal text of 64-bit numbers, and object identifiers to dotted text and back.
  \<^item> \<^verbatim>\<open>Lhash\<close>, \<^verbatim>\<open>Conf\<close>: \<^verbatim>\<open>crypto/lhash/lhash.c\<close>, with the contract on the hash and comparison functions as the
    locale \<open>lh_functions\<close>, which the functions of \<^verbatim>\<open>crypto/conf/conf.c\<close> meet.
  \<^item> \<^verbatim>\<open>BnWords\<close>, \<^verbatim>\<open>BnComba\<close>: \<^verbatim>\<open>crypto/fipsmodule/bn/generic.c\<close>, arrays of 64-bit words as numbers; one law of
    a loop with a carry (\<open>words_tail_val\<close>) and one of a column accumulator (\<open>comba_val\<close>) carry the rest.
  \<^item> \<^verbatim>\<open>Bn\<close>, \<^verbatim>\<open>BnProps\<close>, \<^verbatim>\<open>BnCmp\<close>: \<^verbatim>\<open>bn.c\<close>, \<^verbatim>\<open>add.c\<close>, \<^verbatim>\<open>cmp.c\<close>: the objects with their capacity, width and sign;
    \<open>bn_val\<close> is the integer of an object, \<open>bn_ok\<close> its invariant (no negative zero) and \<open>bn_dest\<close> says that
    a destination can be grown to a number of words.
  \<^item> \<^verbatim>\<open>BnBytes\<close>, \<^verbatim>\<open>BnShift\<close>: \<^verbatim>\<open>bytes.c\<close> and \<^verbatim>\<open>shift.c\<close>.
  \<^item> \<^verbatim>\<open>BnMul\<close>, \<^verbatim>\<open>BnKaratsuba\<close>, \<^verbatim>\<open>BnMulProps\<close>: \<^verbatim>\<open>mul.c\<close>: schoolbook rows, Karatsuba with absolute differences and
    sign masks on equal and on unequal parts, squares, and the choice among them by the widths.
  \<^item> \<^verbatim>\<open>BnDiv\<close>, \<^verbatim>\<open>BnMod\<close>, \<^verbatim>\<open>BnModWord\<close>: \<^verbatim>\<open>div.c\<close> and \<^verbatim>\<open>div_extra.c\<close>. Long division with the estimate of each quotient
    word and its two corrections; modular arithmetic by division and, in constant time, by a conditional
    subtraction; division bit by bit; division by words, by powers of two and through a rounded reciprocal.

  \<^bold>\<open>Bounds and fuel.\<close> \<^verbatim>\<open>size_t\<close> is 64 bits wide; sizes are naturals with the wrap-around written
  out (\<open>size_add\<close>, \<open>size_mul\<close>), machine words are words of their width, and \<^verbatim>\<open>int\<close> arguments that
  the code only compares are mathematical integers within range. Loops are structural recursions or
  carry a termination proof. The one loop with fuel, \<open>pop_to_mark\<close>, is given 16 rounds, one more
  than the 15 errors a ring can hold; \<open>pop_to_mark_fuel\<close> shows that it always returns.
  Hypotheses such as \<open>length data \<le> SIZE_MAX\<close> say that a C object has a representable size.

  The recursions of \<open>bn_mul_recursive\<close> and \<open>bn_sqr_recursive\<close> end because the length is halved. Number widths
  are bounded by \<open>BN_MAX_WORDS\<close>, so that \<^verbatim>\<open>int\<close> widths and bit counts do not overflow. The loop \<^verbatim>\<open>for (;;)\<close> that
  corrects a quotient word is a partial function into \<open>option\<close>; \<open>div_correct_val\<close> shows that it returns.

  \<^bold>\<open>Not modelled.\<close> The assembly and the vendored or generated code (\<^verbatim>\<open>generated-src\<close>,
  \<^verbatim>\<open>third_party\<close>, the field arithmetic of fiat and s2n-bignum, ML-KEM and ML-DSA) is not this
  library's own C; where a routine also has an assembly version, the C version is the one modelled.
  Montgomery arithmetic, exponentiation and primality in \<^verbatim>\<open>bn\<close>, and with them RSA, DH, DSA and the elliptic
  curves, the ciphers and digests of the FIPS module, \<^verbatim>\<open>EVP\<close>, the ASN.1 template engine, X.509, PKCS#7 and #8,
  PEM, BIO and TLS are not modelled. Freeing and cleansing of memory has no observable result here. Variadic formatting, file and socket I/O, locks and
  thread-local storage are reached only through parameters or not at all.
\<close>

section \<open>What the builder writes, the reader reads\<close>

text \<open>
  Round trip of unsigned integers: building an ASN.1 INTEGER with
  \<open>CBB_add_asn1_uint64\<close> on a fresh growable builder with memory available and finishing
  succeeds, and \<open>CBS_get_asn1_uint64\<close> reads the same value back from the resulting
  bytes with nothing left over.
\<close>

theorem uint64_roundtrip:
  assumes "CBB_init al cap = Some cbb" "cap \<le> SIZE_MAX" "al_total al"
  shows "\<exists>buf n cbb'. pbind (CBB_add_asn1_uint64 al 0 v) (\<lambda>_. CBB_finish al 0) cbb = (Some (buf, n), cbb') \<and>
    CBS_get_asn1_uint64 (CBS_init buf n) = (Some v, [])"
proof -
  have "length (uint_content (unat v)) \<le> 0xfffffffe"
    using length_uint_content [of "unat v"] unat_u64_less [of v] by simp
  from build_element [OF add_uint64.builder_op_axioms assms this] show ?thesis
    using uint64_codec.get_enc [of v "[]"] by fastforce
qed

theorem uint64_roundtrip_witness:
  "\<exists>buf n cbb'. pbind (CBB_add_asn1_uint64 (\<lambda>_. Some (\<lambda>_. 0)) 0 300) (\<lambda>_. CBB_finish (\<lambda>_. Some (\<lambda>_. 0)) 0)
      (cbb_init [] 0 True) = (Some (buf, n), cbb') \<and>
    CBS_get_asn1_uint64 (CBS_init buf n) = (Some 300, [])"
  by (rule uint64_roundtrip [where cap = 0]) (simp_all add: CBB_init_def OPENSSL_malloc_def size_add_def)

text \<open>
  Round trip of signed integers: \<open>CBB_add_asn1_int64\<close> writes the minimal two's
  complement contents for every \<open>int64_t\<close>, negative ones included, and
  \<open>CBS_get_asn1_int64\<close> reads the same value back with nothing left over.
\<close>

theorem int64_roundtrip:
  assumes "CBB_init al cap = Some cbb" "cap \<le> SIZE_MAX" "al_total al"
  shows "\<exists>buf n cbb'. pbind (CBB_add_asn1_int64 al 0 v) (\<lambda>_. CBB_finish al 0) cbb = (Some (buf, n), cbb') \<and>
    CBS_get_asn1_int64 (CBS_init buf n) = (Some v, [])"
proof -
  have "length (int64_content v) \<le> 0xfffffffe"
    using length_strip [of "be_bytes 8 (unat v)"] by (simp add: int64_content_def)
  from build_element [OF add_int64.builder_op_axioms assms this] show ?thesis
    using int64_codec.get_enc [of v "[]"] by fastforce
qed

theorem int64_roundtrip_witness:
  "\<exists>buf n cbb'. pbind (CBB_add_asn1_int64 (\<lambda>_. Some (\<lambda>_. 0)) 0 (- 129)) (\<lambda>_. CBB_finish (\<lambda>_. Some (\<lambda>_. 0)) 0)
      (cbb_init [] 0 True) = (Some (buf, n), cbb') \<and>
    CBS_get_asn1_int64 (CBS_init buf n) = (Some (- 129), [])"
  by (rule int64_roundtrip [where cap = 0]) (simp_all add: CBB_init_def OPENSSL_malloc_def size_add_def)

text \<open>
  C2. Round trip of a nested structure: a constructed element built with
  \<open>CBB_add_asn1\<close>, an INTEGER and an OCTET STRING written to its child, and one
  \<open>CBB_finish\<close> of the parent that flushes the child, gives bytes from which the reader
  recovers, in order, the outer element, the integer and the octet string, for contents of
  any length up to 4 GB less the headers.
\<close>

theorem nested_roundtrip:
  assumes "CBB_init al cap = Some cbb" "cap \<le> SIZE_MAX" "al_total al"
    and "der_tag_valid tag" "length data \<le> 4294967200"
  shows "\<exists>buf n cbb' inner rest.
    pbind (CBB_add_asn1 al 0 tag) (\<lambda>_. pbind (CBB_add_asn1_uint64 al 1 v) (\<lambda>_.
      pbind (CBB_add_asn1_octet_string al 1 data) (\<lambda>_. CBB_finish al 0))) cbb = (Some (buf, n), cbb') \<and>
    CBS_get_asn1 tag (CBS_init buf n) = (Some inner, []) \<and>
    CBS_get_asn1_uint64 inner = (Some v, rest) \<and>
    CBS_get_asn1 CBS_ASN1_OCTETSTRING rest = (Some data, [])"
proof -
  let ?i = "uint_content (unat v)" and ?oct = "der_element CBS_ASN1_OCTETSTRING data"
  let ?int = "der_element CBS_ASN1_INTEGER ?i"
  have i: "length ?i \<le> 9" using length_uint_content [of "unat v"] unat_u64_less [of v] by simp
  have len: "length (?int @ ?oct) \<le> 0xfffffffe"
    using assms(5) i length_der_element [of CBS_ASN1_INTEGER ?i] length_der_element [of CBS_ASN1_OCTETSTRING data] by simp
  have "builder_op al 1 (CBB_add_asn1_uint64 al 1 v) (append_to 1 ?int)"
    using builder_op_element_append [OF add_uint64.builder_op_axioms] i by simp
  moreover have "builder_op al 1 (CBB_add_asn1_octet_string al 1 data) (append_to 1 ?oct)"
    using builder_op_element_append [OF builder_op_octet_string] assms(5) by simp
  ultimately have "builder_op al 1 (pbind (CBB_add_asn1_uint64 al 1 v) (\<lambda>_. CBB_add_asn1_octet_string al 1 data))
      (append_to 1 (?int @ ?oct))" by (rule builder_op_append_then)
  then have op: "builder_op al 0 (pbind (CBB_add_asn1 al 0 tag) (\<lambda>_.
      pbind (CBB_add_asn1_uint64 al 1 v) (\<lambda>_. CBB_add_asn1_octet_string al 1 data)))
      (\<lambda>st. Option.bind (open_element 0 tag st) (append_to 1 (?int @ ?oct)))"
    by (rule builder_op_bind [OF add_asn1.builder_op_axioms]) (auto dest: open_element_depth)
  have e: "Option.bind (Option.bind (open_element 0 tag ([], [])) (append_to 1 (?int @ ?oct))) (flush_to 0) =
      Some (der_element tag (?int @ ?oct), [])"
    using add_element_eq [of 0 tag "([], [])" "?int @ ?oct"] len by (simp add: add_element_def append_to_def)
  have "length (der_element tag (?int @ ?oct)) \<le> 2 ^ 62" using length_der_element [of tag "?int @ ?oct"] len by simp
  from build_open [OF op assms(1-3) e this]
  obtain buf n cbb' where run: "pbind (pbind (CBB_add_asn1 al 0 tag) (\<lambda>_.
      pbind (CBB_add_asn1_uint64 al 1 v) (\<lambda>_. CBB_add_asn1_octet_string al 1 data)))
      (\<lambda>_. CBB_finish al 0) cbb = (Some (buf, n), cbb')" and out: "CBS_init buf n = der_element tag (?int @ ?oct)"
    by blast
  have "CBS_get_asn1 tag (CBS_init buf n) = (Some (?int @ ?oct), [])"
    using asn1_tagged.get_enc [of tag "?int @ ?oct" "[]"] assms(4) len by (simp add: out)
  moreover have "CBS_get_asn1_uint64 (?int @ ?oct) = (Some v, ?oct)" by (simp add: uint64_codec.get_enc)
  moreover have "CBS_get_asn1 CBS_ASN1_OCTETSTRING ?oct = (Some data, [])"
    using asn1_tagged.get_enc [of CBS_ASN1_OCTETSTRING data "[]"] assms(5) by (simp add: der_tag_valid_def)
  ultimately show ?thesis using run by (auto simp: pbind_assoc)
qed

theorem nested_roundtrip_witness:
  "\<exists>buf n cbb' inner rest.
    pbind (CBB_add_asn1 (\<lambda>_. Some (\<lambda>_. 0)) 0 CBS_ASN1_SEQUENCE) (\<lambda>_.
      pbind (CBB_add_asn1_uint64 (\<lambda>_. Some (\<lambda>_. 0)) 1 7) (\<lambda>_.
        pbind (CBB_add_asn1_octet_string (\<lambda>_. Some (\<lambda>_. 0)) 1 [1, 2]) (\<lambda>_. CBB_finish (\<lambda>_. Some (\<lambda>_. 0)) 0)))
      (cbb_init [] 0 True) = (Some (buf, n), cbb') \<and>
    CBS_get_asn1 CBS_ASN1_SEQUENCE (CBS_init buf n) = (Some inner, []) \<and>
    CBS_get_asn1_uint64 inner = (Some 7, rest) \<and>
    CBS_get_asn1 CBS_ASN1_OCTETSTRING rest = (Some [1, 2], [])"
  by (rule nested_roundtrip [where cap = 0])
    (simp_all add: CBB_init_def OPENSSL_malloc_def size_add_def der_tag_valid_def)

end
